(* ===== verification/Prelude.thy ===== *)
theory Prelude
  imports "HOL-Library.Word"
begin

text \<open>
  What every component of the model shares: the error codes of include/hberrno.h that the
  modelled code raises, the error-and-state computations that stand for C functions which may
  leave through longjmp (syn_err, sys_err and db_error of include/dbe.h), the C integer
  conversions and divisions, and the collections that the component proofs draw on.
\<close>

section \<open>Error codes\<close>

text \<open>
  The codes of include/hberrno.h that the modelled code raises, by the function that raises them:
  sys_err(code) and syn_err(code) are longjmp(env, code), db_error(code, ..) records its message
  and leaves the same way. Undefined is no code of the program: it stands for
  what C leaves undefined, such as reading a number out of a value that holds none; NoFuel says that
  a loop of the model ran out of its fuel and decides nothing about the program. errno_of gives
  the numbers of the header.
\<close>

definition SYN_ERR :: nat where
  "SYN_ERR = 23"

definition DBERROR :: nat where
  "DBERROR = SYN_ERR + 87"

datatype (plugins only: code size) sys_code =
    NOMEMORY | BAD_COMMUNICATION | LOGIN_NOUSER | LOGIN_SUID | STACK_FAULT
  | STACK_OVERFLOW | STACK_UNDERFLOW | USR_NOTINSTALLED | VARTBL_OVERFLOW
  | DCTBL_OVERFLOW | MEMBUF_OVERFLOW | CODEBLOCK_OVERFLOW

primrec sys_no :: "sys_code \<Rightarrow> nat" where
  "sys_no NOMEMORY = 1"
| "sys_no BAD_COMMUNICATION = 2"
| "sys_no LOGIN_NOUSER = 5"
| "sys_no LOGIN_SUID = 6"
| "sys_no STACK_FAULT = 14"
| "sys_no STACK_OVERFLOW = 16"
| "sys_no STACK_UNDERFLOW = 17"
| "sys_no USR_NOTINSTALLED = 18"
| "sys_no VARTBL_OVERFLOW = 19"
| "sys_no DCTBL_OVERFLOW = 20"
| "sys_no MEMBUF_OVERFLOW = 21"
| "sys_no CODEBLOCK_OVERFLOW = 22"

datatype (plugins only: code size) syn_code =
    ILL_SYMBOL | UNBAL_QUOTE | TYPE_MISMATCH | INVALID_TYPE | INVALID_OPERATOR
  | INVALID_VALUE | INVALID_PARMCNT | MISSING_RPAREN | STR_TOOLONG | BAD_EXP
  | BAD_VARNAME | UNDEF_VAR | VAR_LOCAL | UNDEF_FCN | EXP_TOOLONG | ILL_SELECT
  | BAD_ALIAS | BAD_FILENAME | BAD_SKEL | EXCESS_SYNTAX | OUT_OF_RANGE | BAD_DATE
  | MISSING_RBRKT | NULL_VALUE | MISSING_PARM | NO_PRIVATE | BAD_DIM | MISSING_DIM
  | NOTARRAY | TOOMANY_DIM | NAMECONFLICT | ILL_FCN | ILL_OPCODE | NORLOCK | NOFLOCK
  | ARRAY_TOOBIG | NOSUCHALIAS | NOSUCHFIELD | INVALID_ARG | NAME_TOOLONG
  | COMMAND_UNKNOWN | TOOMANY_LEVELS | UNKNOWN_CONTROL | ILL_SYNTAX | UNBAL_DOWHILE
  | UNBAL_ENDDO | UNBAL_IF | MISSING_IF | UNBAL_ENDIF | UNBAL_CASE
  | MISSING_CASE | UNBAL_ENDCASE | UNBAL_LOOP | MISSING_PROC | MISSING_RETURN
  | MULTI_DEF | PROC_NOLIB | PROC_NOTFOUND | PROC_MISMATCH | TOOMANYPROCS

primrec syn_no :: "syn_code \<Rightarrow> nat" where
  "syn_no ILL_SYMBOL = SYN_ERR + 0"
| "syn_no UNBAL_QUOTE = SYN_ERR + 1"
| "syn_no TYPE_MISMATCH = SYN_ERR + 2"
| "syn_no INVALID_TYPE = SYN_ERR + 3"
| "syn_no INVALID_OPERATOR = SYN_ERR + 4"
| "syn_no INVALID_VALUE = SYN_ERR + 5"
| "syn_no INVALID_PARMCNT = SYN_ERR + 6"
| "syn_no MISSING_RPAREN = SYN_ERR + 7"
| "syn_no STR_TOOLONG = SYN_ERR + 8"
| "syn_no BAD_EXP = SYN_ERR + 9"
| "syn_no BAD_VARNAME = SYN_ERR + 10"
| "syn_no UNDEF_VAR = SYN_ERR + 11"
| "syn_no VAR_LOCAL = SYN_ERR + 12"
| "syn_no UNDEF_FCN = SYN_ERR + 13"
| "syn_no COMMAND_UNKNOWN = SYN_ERR + 14"
| "syn_no EXP_TOOLONG = SYN_ERR + 18"
| "syn_no ILL_SELECT = SYN_ERR + 20"
| "syn_no BAD_ALIAS = SYN_ERR + 22"
| "syn_no BAD_FILENAME = SYN_ERR + 23"
| "syn_no BAD_SKEL = SYN_ERR + 24"
| "syn_no EXCESS_SYNTAX = SYN_ERR + 25"
| "syn_no OUT_OF_RANGE = SYN_ERR + 26"
| "syn_no BAD_DATE = SYN_ERR + 27"
| "syn_no MISSING_RBRKT = SYN_ERR + 28"
| "syn_no NULL_VALUE = SYN_ERR + 36"
| "syn_no TOOMANY_LEVELS = SYN_ERR + 37"
| "syn_no UNKNOWN_CONTROL = SYN_ERR + 38"
| "syn_no ILL_SYNTAX = SYN_ERR + 40"
| "syn_no UNBAL_DOWHILE = SYN_ERR + 45"
| "syn_no UNBAL_ENDDO = SYN_ERR + 46"
| "syn_no UNBAL_IF = SYN_ERR + 47"
| "syn_no MISSING_IF = SYN_ERR + 48"
| "syn_no UNBAL_ENDIF = SYN_ERR + 49"
| "syn_no UNBAL_CASE = SYN_ERR + 50"
| "syn_no MISSING_CASE = SYN_ERR + 51"
| "syn_no UNBAL_ENDCASE = SYN_ERR + 52"
| "syn_no MISSING_PARM = SYN_ERR + 54"
| "syn_no NO_PRIVATE = SYN_ERR + 55"
| "syn_no BAD_DIM = SYN_ERR + 56"
| "syn_no MISSING_DIM = SYN_ERR + 57"
| "syn_no NOTARRAY = SYN_ERR + 58"
| "syn_no TOOMANY_DIM = SYN_ERR + 59"
| "syn_no NAMECONFLICT = SYN_ERR + 60"
| "syn_no ILL_FCN = SYN_ERR + 62"
| "syn_no UNBAL_LOOP = SYN_ERR + 63"
| "syn_no MISSING_PROC = SYN_ERR + 65"
| "syn_no MISSING_RETURN = SYN_ERR + 66"
| "syn_no MULTI_DEF = SYN_ERR + 67"
| "syn_no PROC_NOLIB = SYN_ERR + 69"
| "syn_no PROC_NOTFOUND = SYN_ERR + 70"
| "syn_no PROC_MISMATCH = SYN_ERR + 71"
| "syn_no ILL_OPCODE = SYN_ERR + 72"
| "syn_no NORLOCK = SYN_ERR + 73"
| "syn_no NOFLOCK = SYN_ERR + 74"
| "syn_no TOOMANYPROCS = SYN_ERR + 76"
| "syn_no ARRAY_TOOBIG = SYN_ERR + 77"
| "syn_no NOSUCHALIAS = SYN_ERR + 80"
| "syn_no NOSUCHFIELD = SYN_ERR + 81"
| "syn_no INVALID_ARG = SYN_ERR + 85"
| "syn_no NAME_TOOLONG = SYN_ERR + 86"

datatype (plugins only: code size) db_code =
    DBCREATE | DBOPEN | DBREAD | DBWRITE | DBSEEK | OUTOFRANGE | NTDBASE | NTNDX
  | DUPKEY | NOTINUSE | NOINDEX | TOOMANYRECS | BADFILENAME | FILENOTEXIST | FILEEXIST
  | OPENFILE | NONAMESPACE | DB_INVALID_TYPE | DB_TYPE_MISMATCH | NO_CTX | FLTROVERFLOW
  | RELAOVERFLOW | CYCLIC_REL | INTERN_ERR | MEMOCREATE | MEMOREAD | MEMOWRITE
  | MEMOCOPY | KEYTOOLONG | DB_READONLY | DB_ACCESS | STILL_OPEN | NONDXLOCK | RBK_INVAL
  | TRANSAC_ALRDY_ON | TRANSAC_EXIST | TRANSAC_NOTFOUND | TRANSAC_NOEND | TRANSAC_FAIL
  | TRANSAC_NORBK | TBLLOCKED | NOTNDXCMBK | UNKNOWNLOCK | OFFSET_TOO_SMALL | INVALID_ENTRY
  | INVALID_REC | TRANSAC_EXCL
  | BADFLDTYPE | UNDEF_FIELD

primrec db_no :: "db_code \<Rightarrow> nat" where
  "db_no DBCREATE = DBERROR + 0"
| "db_no DBOPEN = DBERROR + 1"
| "db_no DBREAD = DBERROR + 3"
| "db_no DBWRITE = DBERROR + 4"
| "db_no DBSEEK = DBERROR + 5"
| "db_no BADFLDTYPE = DBERROR + 7"
| "db_no OUTOFRANGE = DBERROR + 8"
| "db_no NTDBASE = DBERROR + 9"
| "db_no NTNDX = DBERROR + 10"
| "db_no DUPKEY = DBERROR + 11"
| "db_no NOTINUSE = DBERROR + 12"
| "db_no NOINDEX = DBERROR + 13"
| "db_no TOOMANYRECS = DBERROR + 14"
| "db_no BADFILENAME = DBERROR + 17"
| "db_no FILENOTEXIST = DBERROR + 18"
| "db_no FILEEXIST = DBERROR + 19"
| "db_no OPENFILE = DBERROR + 20"
| "db_no NONAMESPACE = DBERROR + 21"
| "db_no DB_INVALID_TYPE = DBERROR + 22"
| "db_no DB_TYPE_MISMATCH = DBERROR + 23"
| "db_no UNDEF_FIELD = DBERROR + 24"
| "db_no NO_CTX = DBERROR + 25"
| "db_no FLTROVERFLOW = DBERROR + 26"
| "db_no RELAOVERFLOW = DBERROR + 27"
| "db_no CYCLIC_REL = DBERROR + 28"
| "db_no INTERN_ERR = DBERROR + 30"
| "db_no MEMOCREATE = DBERROR + 33"
| "db_no MEMOREAD = DBERROR + 34"
| "db_no MEMOWRITE = DBERROR + 35"
| "db_no MEMOCOPY = DBERROR + 36"
| "db_no KEYTOOLONG = DBERROR + 37"
| "db_no NOTNDXCMBK = DBERROR + 38"
| "db_no DB_READONLY = DBERROR + 42"
| "db_no DB_ACCESS = DBERROR + 43"
| "db_no STILL_OPEN = DBERROR + 53"
| "db_no NONDXLOCK = DBERROR + 55"
| "db_no RBK_INVAL = DBERROR + 56"
| "db_no INVALID_REC = DBERROR + 57"
| "db_no TRANSAC_ALRDY_ON = DBERROR + 58"
| "db_no TRANSAC_EXCL = DBERROR + 59"
| "db_no TRANSAC_EXIST = DBERROR + 60"
| "db_no TRANSAC_NOTFOUND = DBERROR + 61"
| "db_no TRANSAC_NOEND = DBERROR + 62"
| "db_no TRANSAC_FAIL = DBERROR + 63"
| "db_no TRANSAC_NORBK = DBERROR + 64"
| "db_no TBLLOCKED = DBERROR + 65"
| "db_no UNKNOWNLOCK = DBERROR + 66"
| "db_no OFFSET_TOO_SMALL = DBERROR + 67"
| "db_no INVALID_ENTRY = DBERROR + 68"

datatype err = Sys sys_code | Syn syn_code | Dbe db_code | Undefined | NoFuel

fun errno_of :: "err \<Rightarrow> nat option" where
  "errno_of (Sys e) = Some (sys_no e)"
| "errno_of (Syn e) = Some (syn_no e)"
| "errno_of (Dbe e) = Some (db_no e)"
| "errno_of Undefined = None"
| "errno_of NoFuel = None"

section \<open>Directions\<close>

datatype direction = FORWARD | BACKWARD

section \<open>Computations with state and errors\<close>

text \<open>
  A C function over the globals 's that returns 'a or leaves through longjmp with a code. The
  state is returned in both cases: longjmp does not undo what was assigned before it.
\<close>

type_synonym ('s, 'a) cm = "'s \<Rightarrow> (err + 'a) \<times> 's"

definition ret :: "'a \<Rightarrow> ('s, 'a) cm" where
  "ret x = (\<lambda>s. (Inr x, s))"

definition raise :: "err \<Rightarrow> ('s, 'a) cm" where
  "raise e = (\<lambda>s. (Inl e, s))"

definition bnd :: "('s, 'a) cm \<Rightarrow> ('a \<Rightarrow> ('s, 'b) cm) \<Rightarrow> ('s, 'b) cm" where
  "bnd m f = (\<lambda>s. case m s of (Inl e, s') \<Rightarrow> (Inl e, s') | (Inr x, s') \<Rightarrow> f x s')"

definition getst :: "('s \<Rightarrow> 'a) \<Rightarrow> ('s, 'a) cm" where
  "getst f = (\<lambda>s. (Inr (f s), s))"

definition modst :: "('s \<Rightarrow> 's) \<Rightarrow> ('s, unit) cm" where
  "modst f = (\<lambda>s. (Inr (), f s))"

definition guard :: "bool \<Rightarrow> err \<Rightarrow> ('s, unit) cm" where
  "guard b e = (if b then ret () else raise e)"

definition lift_res :: "err + 'a \<Rightarrow> ('s, 'a) cm" where
  "lift_res r = (\<lambda>s. (r, s))"

named_theorems cm_simps "one-step evaluation of error-and-state computations"

lemma ret_app [cm_simps]: "ret x s = (Inr x, s)"
  by (simp add: ret_def)

lemma raise_app [cm_simps]: "raise e s = (Inl e, s)"
  by (simp add: raise_def)

lemma bnd_app [cm_simps]:
  "bnd m f s = (case m s of (r, s') \<Rightarrow> (case r of Inl e \<Rightarrow> (Inl e, s') | Inr x \<Rightarrow> f x s'))"
  by (simp add: bnd_def split: prod.split sum.split)

lemma getst_app [cm_simps]: "getst f s = (Inr (f s), s)"
  by (simp add: getst_def)

lemma modst_app [cm_simps]: "modst f s = (Inr (), f s)"
  by (simp add: modst_def)

lemma guard_app [cm_simps]: "guard b e s = (if b then (Inr (), s) else (Inl e, s))"
  by (simp add: guard_def cm_simps)

lemma lift_res_app [cm_simps]: "lift_res r s = (r, s)"
  by (simp add: lift_res_def)

lemma bnd_InrD:
  "bnd m f s = (Inr y, t) \<Longrightarrow> \<exists>x s'. m s = (Inr x, s') \<and> f x s' = (Inr y, t)"
  by (auto simp: bnd_def split: prod.splits sum.splits)

lemma bnd_ret [simp]: "bnd (ret x) f = f x"
  by (simp add: bnd_def ret_def)

lemma bnd_raise [simp]: "bnd (raise e) f = raise e"
  by (simp add: bnd_def raise_def)

lemma bnd_assoc: "bnd (bnd m f) g = bnd m (\<lambda>x. bnd (f x) g)"
  by (rule ext) (simp add: bnd_def split: prod.split sum.split)

text \<open>ev m s is m s, but simplified from the outside: with ev_cong the simplifier evaluates the state
  before the parts of m that this state reaches.\<close>

definition ev :: "('s, 'a) cm \<Rightarrow> 's \<Rightarrow> (err + 'a) \<times> 's" where
  "ev m s = m s"

lemma ev_cong: "s = s' \<Longrightarrow> ev m s = ev m s'"
  by simp

lemma ev_basic:
  "ev (ret x) s = (Inr x, s)" "ev (raise e) s = (Inl e, s)" "ev (getst f) s = (Inr (f s), s)"
  "ev (modst h) s = (Inr (), h s)" "ev (guard b e) s = (if b then (Inr (), s) else (Inl e, s))"
  "ev (lift_res r) s = (r, s)"
  "ev (bnd m k) s = (case ev m s of (r, s') \<Rightarrow> (case r of Inl e \<Rightarrow> (Inl e, s') | Inr y \<Rightarrow> ev (k y) s'))"
  "ev (if c then m else m') s = (if c then ev m s else ev m' s)"
  "ev (Let z j) s = ev (j z) s"
  by (simp_all add: ev_def cm_simps split: prod.split sum.split)

lemma ev_opt: "ev (case v of None \<Rightarrow> m | Some z \<Rightarrow> n z) s = (case v of None \<Rightarrow> ev m s | Some z \<Rightarrow> ev (n z) s)"
  by (simp split: option.split)

lemma ev_pair: "ev (case v of (a, b) \<Rightarrow> n a b) s = (case v of (a, b) \<Rightarrow> ev (n a b) s)"
  by (simp split: prod.split)

lemma evI: "m s = x \<Longrightarrow> ev m s = x"
  by (simp add: ev_def)

lemma evD: "ev m s = x \<Longrightarrow> m s = x"
  by (simp add: ev_def)

text \<open>What a computation promises: from a state with the invariant I it ends, with or without an
  error, in a state with I, and a result satisfies Q.\<close>

definition promises :: "('s \<Rightarrow> bool) \<Rightarrow> ('s, 'a) cm \<Rightarrow> ('a \<Rightarrow> bool) \<Rightarrow> bool" where
  "promises I m Q \<longleftrightarrow> (\<forall>s. I s \<longrightarrow> I (snd (m s)) \<and> (\<forall>x. fst (m s) = Inr x \<longrightarrow> Q x))"

named_theorems spec_intros "rules that split a computation's promise into those of its parts"

lemma specI:
  "(\<And>s. I s \<Longrightarrow> I (snd (m s)) \<and> (\<forall>x. fst (m s) = Inr x \<longrightarrow> Q x)) \<Longrightarrow> promises I m Q"
  by (simp add: promises_def)

lemma specD:
  assumes "promises I m Q" and "I s" and "m s = (r, t)"
  shows "I t" and "r = Inr x \<Longrightarrow> Q x"
  using assms unfolding promises_def by (metis fst_conv snd_conv)+

lemma spec_ret [spec_intros]: "Q x \<Longrightarrow> promises I (ret x) Q"
  by (simp add: promises_def cm_simps)

lemma spec_raise [spec_intros]: "promises I (raise e) Q"
  by (simp add: promises_def cm_simps)

lemma spec_bnd:
  assumes "promises I m P" and "\<And>x. P x \<Longrightarrow> promises I (f x) Q"
  shows "promises I (bnd m f) Q"
  using assms by (auto simp: promises_def bnd_def split: prod.splits sum.splits)

lemma spec_conseq: "promises I m P \<Longrightarrow> (\<And>x. P x \<Longrightarrow> Q x) \<Longrightarrow> promises I m Q"
  by (auto simp: promises_def)

lemma spec_lift_res: "(\<And>x. r = Inr x \<Longrightarrow> Q x) \<Longrightarrow> promises I (lift_res r) Q"
  by (simp add: promises_def cm_simps)

lemma spec_if [spec_intros]:
  "(b \<Longrightarrow> promises I m Q) \<Longrightarrow> (\<not> b \<Longrightarrow> promises I n Q) \<Longrightarrow> promises I (if b then m else n) Q"
  by simp

lemma spec_let [spec_intros]: "(\<And>y. y = x \<Longrightarrow> promises I (f y) Q) \<Longrightarrow> promises I (let y = x in f y) Q"
  by simp

section \<open>C integers\<close>

text \<open>Integer division and remainder of C truncate towards zero.\<close>

definition cquo :: "int \<Rightarrow> int \<Rightarrow> int" where
  "cquo a b = sgn a * sgn b * (\<bar>a\<bar> div \<bar>b\<bar>)"

definition crem :: "int \<Rightarrow> int \<Rightarrow> int" where
  "crem a b = a - cquo a b * b"

lemma cquo_nonneg [simp]: "0 \<le> a \<Longrightarrow> 0 < b \<Longrightarrow> cquo a b = a div b"
  by (cases "a = 0") (auto simp: cquo_def sgn_if)

lemma crem_nonneg [simp]: "0 \<le> a \<Longrightarrow> 0 < b \<Longrightarrow> crem a b = a mod b"
  by (simp add: crem_def minus_div_mult_eq_mod)

lemma cquo_neg: "a \<le> 0 \<Longrightarrow> 0 < b \<Longrightarrow> cquo a b = - ((- a) div b)"
  by (cases "a = 0") (auto simp: cquo_def sgn_if)

lemma crem_neg: "a \<le> 0 \<Longrightarrow> 0 < b \<Longrightarrow> crem a b = - ((- a) mod b)"
  by (simp add: crem_def cquo_neg minus_mod_eq_mult_div [symmetric] mult.commute)

lemma cquo_crem: "cquo a b * b + crem a b = a"
  by (simp add: crem_def)

text \<open>The bytes of a word, least significant first, as they lie in memory.\<close>

fun bytes_le :: "nat \<Rightarrow> nat \<Rightarrow> 8 word list" where
  "bytes_le 0 n = []"
| "bytes_le (Suc k) n = of_nat (n mod 256) # bytes_le k (n div 256)"

fun nat_le :: "8 word list \<Rightarrow> nat" where
  "nat_le [] = 0"
| "nat_le (b # bs) = unat b + 256 * nat_le bs"

lemma length_bytes_le [simp]: "length (bytes_le k n) = k"
  by (induction k arbitrary: n) auto

lemma nat_le_bytes_le: "nat_le (bytes_le k n) = n mod 256 ^ k"
proof (induction k arbitrary: n)
  case 0
  show ?case by simp
next
  case (Suc k)
  have "unat (of_nat (n mod 256) :: 8 word) = n mod 256"
    by (simp add: unat_of_nat)
  then show ?case
    using Suc by (simp add: mod_mult2_eq)
qed

lemma nat_le_bound: "nat_le bs < 256 ^ length bs"
proof (induction bs)
  case Nil
  show ?case by simp
next
  case (Cons b bs)
  have "unat b < 256" using unsigned_less [of b] by simp
  with Cons show ?case by simp
qed

lemma bytes_le_nat_le: "bytes_le (length bs) (nat_le bs) = bs"
proof (induction bs)
  case Nil
  show ?case by simp
next
  case (Cons b bs)
  have b: "unat b < 256" using unsigned_less [of b] by simp
  have "(unat b + 256 * nat_le bs) mod 256 = unat b"
    and "(unat b + 256 * nat_le bs) div 256 = nat_le bs"
    using b by simp_all
  with Cons show ?case by simp
qed

end
