(* ===== verification/C_Double.thy ===== *)
theory C_Double
  imports Prelude Complex_Main "HOL-Library.Log_Nat"
begin

text \<open>
  The C type double as the code uses it: IEEE binary64 with rounding to nearest, ties to even.
  A finite value is its sign and its magnitude, a rational number; arithmetic computes the exact
  rational result and rounds it to 53 significant bits (fewer below 2^-1022). The lemmas bound
  the rounding error and show that integers below 2^53 are exact, which is what the callers that
  pass integers through a double rely on.
\<close>

datatype dbl = NaN | Inf bool | Fin bool rat

fun dval :: "dbl \<Rightarrow> rat" where
  "dval (Fin s m) = (if s then - m else m)"
| "dval _ = 0"

section \<open>Rounding\<close>

definition p2 :: "int \<Rightarrow> rat" where
  "p2 e = (if 0 \<le> e then 2 ^ nat e else 1 / 2 ^ nat (- e))"

definition rhe :: "rat \<Rightarrow> int" where
  "rhe x = (let f = \<lfloor>x\<rfloor>; r = x - of_int f in
     if r < 1 / 2 then f else if 1 / 2 < r then f + 1
     else if even f then f else f + 1)"

definition ilog2 :: "rat \<Rightarrow> int" where
  "ilog2 x = (case quotient_of x of (n, d) \<Rightarrow>
     let e = bitlen n - bitlen d in if p2 e \<le> x then e else e - 1)"

definition rnd :: "bool \<Rightarrow> rat \<Rightarrow> dbl" where
  "rnd s m =
     (if m = 0 then Fin s 0
      else let q = max (ilog2 m - 52) (-1074); v = of_int (rhe (m / p2 q)) * p2 q
           in if p2 1024 \<le> v then Inf s else Fin s v)"

lemma p2_pos [simp]: "0 < p2 e"
  by (simp add: p2_def)

lemma p2_nz [simp]: "p2 e \<noteq> 0"
  using p2_pos [of e] by linarith

lemma p2_powi: "p2 e = 2 powi e"
  by (simp add: p2_def power_int_def power_one_over inverse_eq_divide)

lemma p2_add: "p2 (a + b) = p2 a * p2 b"
  by (simp add: p2_powi power_int_add)

lemma p2_mono: "a \<le> b \<Longrightarrow> p2 a \<le> p2 b"
  by (simp add: p2_powi power_int_increasing)

lemma p2_nat: "p2 (int n) = 2 ^ n"
  by (simp add: p2_def)

lemma p2_succ: "p2 (e + 1) = 2 * p2 e"
  using p2_add [of e 1] by (simp add: p2_def)

lemma rhe_err: "\<bar>of_int (rhe x) - x\<bar> \<le> 1 / 2"
  unfolding rhe_def Let_def
  using of_int_floor_le [of x] floor_correct [of x]
  by (auto simp: abs_if) linarith+

lemma rhe_of_int [simp]: "rhe (of_int n) = n"
  by (simp add: rhe_def)

lemma bitlen_bounds:
  assumes "0 < n"
  shows "p2 (bitlen n - 1) \<le> of_int n" and "of_int n < p2 (bitlen n)"
proof -
  from assms have b: "2 ^ nat (bitlen n - 1) \<le> n \<and> n < 2 ^ nat (bitlen n)"
    by (rule bitlen_bounds)
  have pos: "0 < bitlen n" using assms by (simp add: bitlen_eq_zero_iff less_le bitlen_nonneg)
  from b have "(of_int (2 ^ nat (bitlen n - 1)) :: rat) \<le> of_int n"
    and "(of_int n :: rat) < of_int (2 ^ nat (bitlen n))"
    by (simp_all only: of_int_le_iff of_int_less_iff)
  with pos show "p2 (bitlen n - 1) \<le> of_int n" and "of_int n < p2 (bitlen n)"
    by (simp_all add: p2_def)
qed

lemma ilog2_bounds:
  assumes "0 < x"
  shows "p2 (ilog2 x) \<le> x" and "x < p2 (ilog2 x + 1)"
proof -
  obtain n d where q: "quotient_of x = (n, d)" by (cases "quotient_of x")
  then have d: "0 < d" by (rule quotient_of_denom_pos)
  from q have x: "x = of_int n / of_int d" by (rule quotient_of_div)
  with assms d have n: "0 < n" by (simp add: zero_less_divide_iff)
  let ?a = "bitlen n" and ?b = "bitlen d"
  note bn = bitlen_bounds [OF n] and bd = bitlen_bounds [OF d]
  have dp: "(0::rat) < of_int d" using d by simp
  have "p2 (?a - ?b - 1) * of_int d \<le> p2 (?a - ?b - 1) * p2 ?b"
    using bd(2) by (simp add: less_imp_le)
  also have "\<dots> = p2 (?a - 1)" by (simp add: p2_add [symmetric])
  also have "\<dots> \<le> of_int n" by (rule bn)
  finally have lo: "p2 (?a - ?b - 1) \<le> x" using dp by (simp add: x pos_le_divide_eq)
  have "of_int n < p2 ?a" by (rule bn)
  also have "\<dots> = p2 (?a - ?b + 1) * p2 (?b - 1)" by (simp add: p2_add [symmetric])
  also have "\<dots> \<le> p2 (?a - ?b + 1) * of_int d" using bd(1) by simp
  finally have hi: "x < p2 (?a - ?b + 1)" using dp by (simp add: x pos_divide_less_eq)
  show "p2 (ilog2 x) \<le> x" using lo by (simp add: ilog2_def q Let_def)
  show "x < p2 (ilog2 x + 1)" using hi by (simp add: ilog2_def q Let_def)
qed

lemma rnd_err:
  assumes lo: "p2 (-1022) \<le> m" and hi: "m < p2 1000"
  shows "\<exists>v. rnd s m = Fin s v \<and> \<bar>v - m\<bar> \<le> m * p2 (-53)"
proof -
  have m: "0 < m" using lo p2_pos [of "-1022"] by linarith
  note b = ilog2_bounds [OF m]
  have "p2 (-1022) < p2 (ilog2 m + 1)" using lo b(2) by linarith
  then have "\<not> ilog2 m + 1 \<le> -1022" using p2_mono [of "ilog2 m + 1" "-1022"] by auto
  then have q: "max (ilog2 m - 52) (-1074) = ilog2 m - 52" by simp
  let ?q = "ilog2 m - 52" and ?k = "rhe (m / p2 (ilog2 m - 52))"
  let ?v = "of_int ?k * p2 ?q"
  have "?v - m = (of_int ?k - m / p2 ?q) * p2 ?q" by (simp add: algebra_simps)
  then have "\<bar>?v - m\<bar> = \<bar>of_int ?k - m / p2 ?q\<bar> * p2 ?q" by (simp add: abs_mult abs_of_pos)
  also have "\<dots> \<le> 1 / 2 * p2 ?q" using rhe_err by (simp add: mult_right_mono)
  also have "\<dots> = p2 (ilog2 m) * p2 (-53)"
    using p2_add [of "ilog2 m" "-53"] p2_succ [of "ilog2 m - 53"] by simp
  also have "\<dots> \<le> m * p2 (-53)" using b(1) by simp
  finally have err: "\<bar>?v - m\<bar> \<le> m * p2 (-53)" .
  have "m * p2 (-53) \<le> m * 1" using m by (intro mult_left_mono) (simp_all add: p2_def)
  with err have "?v \<le> 2 * m" by (simp add: abs_le_iff)
  also have "\<dots> < p2 1001" using hi p2_succ [of 1000] by simp
  also have "\<dots> \<le> p2 1024" by (rule p2_mono) simp
  finally have "\<not> p2 1024 \<le> ?v" by simp
  then show ?thesis using m err by (simp add: rnd_def q Let_def)
qed

lemma rnd_of_int:
  assumes "0 \<le> n" and "n < 2 ^ 53"
  shows "rnd s (of_int n) = Fin s (of_int n)"
proof (cases "n = 0")
  case True
  then show ?thesis by (simp add: rnd_def)
next
  case False
  with assms have n: "(1::rat) \<le> of_int n" and m: "(0::rat) < of_int n" by simp_all
  note b = ilog2_bounds [OF m]
  have "(of_int n :: rat) < of_int (2 ^ 53)" using assms by (simp only: of_int_less_iff)
  then have "of_int n < p2 53" by (simp add: p2_def)
  then have "p2 (ilog2 (of_int n)) < p2 53" using b(1) by linarith
  then have hi: "ilog2 (of_int n) < 53" using p2_mono [of 53 "ilog2 (of_int n)"] by force
  have "p2 0 < p2 (ilog2 (of_int n) + 1)" using b(2) n by (simp add: p2_def)
  then have lo: "0 \<le> ilog2 (of_int n)" using p2_mono [of "ilog2 (of_int n) + 1" 0] by force
  let ?q = "ilog2 (of_int n) - 52"
  have q: "max ?q (-1074) = ?q" using lo by simp
  define k where "k = nat (- ?q)"
  have pq: "p2 ?q = 1 / 2 ^ k" using hi by (simp add: p2_def k_def)
  have "of_int n / p2 ?q = of_int (n * 2 ^ k)" by (simp add: pq)
  then have "rhe (of_int n / p2 ?q) = n * 2 ^ k" by (simp only: rhe_of_int)
  then have v: "of_int (rhe (of_int n / p2 ?q)) * p2 ?q = of_int n" by (simp add: pq)
  have "of_int n < p2 53" by fact
  also have "\<dots> \<le> p2 1024" by (rule p2_mono) simp
  finally have "\<not> p2 1024 \<le> (of_int n :: rat)" by simp
  then show ?thesis using False v by (simp add: rnd_def q Let_def)
qed

section \<open>Arithmetic\<close>

definition of_val :: "bool \<Rightarrow> rat \<Rightarrow> dbl" where
  \<comment> \<open>round an exact result; zs is the sign of an exact zero\<close>
  "of_val zs v = (if v = 0 then Fin zs 0 else rnd (v < 0) \<bar>v\<bar>)"

fun dneg :: "dbl \<Rightarrow> dbl" where
  "dneg NaN = NaN"
| "dneg (Inf s) = Inf (\<not> s)"
| "dneg (Fin s m) = Fin (\<not> s) m"

fun dabs :: "dbl \<Rightarrow> dbl" where
  "dabs NaN = NaN"
| "dabs (Inf s) = Inf False"
| "dabs (Fin s m) = Fin False m"

fun dadd :: "dbl \<Rightarrow> dbl \<Rightarrow> dbl" where
  "dadd (Fin s a) (Fin t b) = of_val (s \<and> t) (dval (Fin s a) + dval (Fin t b))"
| "dadd (Inf s) (Inf t) = (if s = t then Inf s else NaN)"
| "dadd (Inf s) (Fin t b) = Inf s"
| "dadd (Fin s a) (Inf t) = Inf t"
| "dadd NaN y = NaN"
| "dadd x NaN = NaN"

definition dsub :: "dbl \<Rightarrow> dbl \<Rightarrow> dbl" where
  "dsub x y = dadd x (dneg y)"

fun dmul :: "dbl \<Rightarrow> dbl \<Rightarrow> dbl" where
  "dmul (Fin s a) (Fin t b) = rnd (s \<noteq> t) (a * b)"
| "dmul (Inf s) (Inf t) = Inf (s \<noteq> t)"
| "dmul (Inf s) (Fin t b) = (if b = 0 then NaN else Inf (s \<noteq> t))"
| "dmul (Fin s a) (Inf t) = (if a = 0 then NaN else Inf (s \<noteq> t))"
| "dmul NaN y = NaN"
| "dmul x NaN = NaN"

fun ddiv :: "dbl \<Rightarrow> dbl \<Rightarrow> dbl" where
  "ddiv (Fin s a) (Fin t b) =
     (if b = 0 then (if a = 0 then NaN else Inf (s \<noteq> t)) else rnd (s \<noteq> t) (a / b))"
| "ddiv (Inf s) (Inf t) = NaN"
| "ddiv (Inf s) (Fin t b) = Inf (s \<noteq> t)"
| "ddiv (Fin s a) (Inf t) = Fin (s \<noteq> t) 0"
| "ddiv NaN y = NaN"
| "ddiv x NaN = NaN"

fun dlt :: "dbl \<Rightarrow> dbl \<Rightarrow> bool" where
  "dlt (Fin s a) (Fin t b) \<longleftrightarrow> dval (Fin s a) < dval (Fin t b)"
| "dlt (Inf s) (Inf t) \<longleftrightarrow> s \<and> \<not> t"
| "dlt (Inf s) (Fin t b) \<longleftrightarrow> s"
| "dlt (Fin s a) (Inf t) \<longleftrightarrow> \<not> t"
| "dlt NaN y \<longleftrightarrow> False"
| "dlt x NaN \<longleftrightarrow> False"

fun deq :: "dbl \<Rightarrow> dbl \<Rightarrow> bool" where
  "deq (Fin s a) (Fin t b) \<longleftrightarrow> dval (Fin s a) = dval (Fin t b)"
| "deq (Inf s) (Inf t) \<longleftrightarrow> s = t"
| "deq _ _ \<longleftrightarrow> False"

fun dmin :: "dbl \<Rightarrow> dbl \<Rightarrow> dbl" where
  \<comment> \<open>fmin: the other operand when one is not a number\<close>
  "dmin NaN y = y"
| "dmin x NaN = x"
| "dmin x y = (if dlt y x then y else x)"

text \<open>Integers to doubles, and the truncating casts of a double to int and to long. A cast out
  of range is undefined in C; the x86-64 conversion gives the least value of the type.\<close>

definition i2d :: "int \<Rightarrow> dbl" where
  "i2d n = of_val False (of_int n)"

definition dtrunc :: "dbl \<Rightarrow> int" where
  "dtrunc x = (let v = dval x in if v < 0 then - \<lfloor>- v\<rfloor> else \<lfloor>v\<rfloor>)"

definition cast_range :: "int \<Rightarrow> dbl \<Rightarrow> int" where
  "cast_range mx x = (case x of
       Fin s m \<Rightarrow> (if - mx \<le> dtrunc x \<and> dtrunc x < mx then dtrunc x else - mx)
     | _ \<Rightarrow> - mx)"

definition d2int :: "dbl \<Rightarrow> int" where
  "d2int = cast_range (2 ^ 31)"

definition d2long :: "dbl \<Rightarrow> int" where
  "d2long = cast_range (2 ^ 63)"

fun dfloor :: "dbl \<Rightarrow> dbl" where
  "dfloor (Fin s m) = of_val s (of_int \<lfloor>dval (Fin s m)\<rfloor>)"
| "dfloor x = x"

lemma i2d_exact: "0 \<le> n \<Longrightarrow> n < 2 ^ 53 \<Longrightarrow> i2d n = Fin False (of_int n)"
  by (simp add: i2d_def of_val_def rnd_of_int)

lemma i2d_exact_neg: "n < 0 \<Longrightarrow> - (2 ^ 53) < n \<Longrightarrow> i2d n = Fin True (of_int (- n))"
  using rnd_of_int [of "- n" True] by (simp add: i2d_def of_val_def)

lemma d2long_i2d:
  assumes "\<bar>n\<bar> < 2 ^ 53"
  shows "d2long (i2d n) = n"
proof (cases "0 \<le> n")
  case True
  with assms show ?thesis by (simp add: i2d_exact d2long_def cast_range_def dtrunc_def)
next
  case False
  with assms have "i2d n = Fin True (of_int (- n))" by (simp add: i2d_exact_neg)
  with False assms show ?thesis by (simp add: d2long_def cast_range_def dtrunc_def Let_def)
qed

end
