(* ===== verification/C_Text.thy ===== *)
theory C_Text
  imports Prelude
begin

text \<open>
  Characters and strings of C as the code uses them: the ctype predicates of the C locale,
  printing of decimal integers (the %d family of printf), reading of decimal digits, and the byte
  helpers of server/dbe/misc.c. A C string is the list of its characters without the final NUL; a
  char is one byte.
\<close>

section \<open>Characters\<close>

abbreviation cval :: "char \<Rightarrow> nat" where
  "cval c \<equiv> of_char c"

definition isupper :: "char \<Rightarrow> bool" where
  "isupper c \<longleftrightarrow> 65 \<le> cval c \<and> cval c \<le> 90"

definition islower :: "char \<Rightarrow> bool" where
  "islower c \<longleftrightarrow> 97 \<le> cval c \<and> cval c \<le> 122"

definition isalpha :: "char \<Rightarrow> bool" where
  "isalpha c \<longleftrightarrow> isupper c \<or> islower c"

definition isdigit :: "char \<Rightarrow> bool" where
  "isdigit c \<longleftrightarrow> 48 \<le> cval c \<and> cval c \<le> 57"

definition isspace :: "char \<Rightarrow> bool" where
  "isspace c \<longleftrightarrow> cval c = 32 \<or> (9 \<le> cval c \<and> cval c \<le> 13)"

definition to_upper :: "char \<Rightarrow> char" where
  "to_upper c = (if islower c then char_of (cval c - 32) else c)"

definition to_lower :: "char \<Rightarrow> char" where
  "to_lower c = (if isupper c then char_of (cval c + 32) else c)"

definition chgcase :: "string \<Rightarrow> bool \<Rightarrow> string" where
  "chgcase str up = map (if up then to_upper else to_lower) str"

text \<open>A plain char is signed on the platforms the server runs on.\<close>

definition schar :: "char \<Rightarrow> int" where
  "schar c = (if cval c < 128 then int (cval c) else int (cval c) - 256)"

fun blkcmp :: "string \<Rightarrow> string \<Rightarrow> nat \<Rightarrow> int" where
  \<comment> \<open>both blocks hold at least n bytes\<close>
  "blkcmp (a # p1) (b # p2) (Suc n) =
     (let c = schar a - schar b in if c \<noteq> 0 then c else blkcmp p1 p2 n)"
| "blkcmp _ _ _ = 0"

definition swapmem :: "'a list \<Rightarrow> 'a list \<Rightarrow> nat \<Rightarrow> 'a list \<times> 'a list" where
  "swapmem p1 p2 n = (take n p2 @ drop n p1, take n p1 @ drop n p2)"

lemma cval_less: "cval c < 256"
  by (rule nat_of_char_less_256)

lemma cval_char_of [simp]: "n < 256 \<Longrightarrow> cval (char_of n) = n"
  by simp

lemma to_upper_idem [simp]: "to_upper (to_upper c) = to_upper c"
  by (auto simp: to_upper_def islower_def)

lemma islower_to_upper [simp]: "\<not> islower (to_upper c)"
  by (auto simp: to_upper_def islower_def)

lemma schar_inj: "schar a = schar b \<longleftrightarrow> a = b"
proof
  assume h: "schar a = schar b"
  have "cval a = cval b"
    using h nat_of_char_less_256 [of a] nat_of_char_less_256 [of b]
    unfolding schar_def by (cases "cval a < 128"; cases "cval b < 128"; simp only: if_True if_False; linarith)
  then show "a = b" by simp
qed simp

lemma blkcmp_eq_0:
  "n \<le> length p1 \<Longrightarrow> n \<le> length p2 \<Longrightarrow> blkcmp p1 p2 n = 0 \<longleftrightarrow> take n p1 = take n p2"
  by (induction p1 p2 n rule: blkcmp.induct) (auto simp: Let_def schar_inj)

lemma swapmem_involutive:
  assumes "n \<le> length p" and "n \<le> length q" and "swapmem p q n = (p', q')"
  shows "swapmem p' q' n = (p, q)"
  using assms by (auto simp: swapmem_def)

section \<open>Decimal numbers\<close>

fun show_nat :: "nat \<Rightarrow> string" where
  "show_nat n = (if n < 10 then [char_of (48 + n)]
                 else show_nat (n div 10) @ [char_of (48 + n mod 10)])"

declare show_nat.simps [simp del]

definition show_int :: "int \<Rightarrow> string" where
  "show_int n = (if n < 0 then CHR ''-'' # show_nat (nat (- n)) else show_nat (nat n))"

definition pad :: "char \<Rightarrow> nat \<Rightarrow> string \<Rightarrow> string" where
  "pad c w s = replicate (w - length s) c @ s"

definition fmt_d :: "nat \<Rightarrow> int \<Rightarrow> string" where
  \<comment> \<open>printf %*d\<close>
  "fmt_d w n = pad (CHR '' '') w (show_int n)"

definition fmt_0d :: "nat \<Rightarrow> int \<Rightarrow> string" where
  \<comment> \<open>printf %0*d\<close>
  "fmt_0d w n = (if n < 0 then CHR ''-'' # pad (CHR ''0'') (w - 1) (show_nat (nat (- n)))
                 else pad (CHR ''0'') w (show_nat (nat n)))"

fun digits_val :: "nat \<Rightarrow> string \<Rightarrow> nat" where
  "digits_val acc [] = acc"
| "digits_val acc (c # cs) = digits_val (acc * 10 + (cval c - 48)) cs"

definition atoi_digits :: "string \<Rightarrow> int" where
  \<comment> \<open>atoi on text that starts with a digit: strtol saturates at LONG_MAX, the result is cut to int\<close>
  "atoi_digits s = sint (of_nat (min (digits_val 0 (takeWhile isdigit s)) (2 ^ 63 - 1)) :: 32 word)"

lemma show_nat_digits: "\<forall>c \<in> set (show_nat n). isdigit c"
proof (induction n rule: show_nat.induct)
  case (1 n)
  have d: "isdigit (char_of (48 + n mod 10))" by (simp add: isdigit_def)
  show ?case
  proof (cases "n < 10")
    case True
    then show ?thesis by (subst show_nat.simps) (simp add: isdigit_def)
  next
    case False
    with 1 d show ?thesis by (subst show_nat.simps) auto
  qed
qed

lemma show_nat_ne [simp]: "show_nat n \<noteq> []"
  by (subst show_nat.simps) simp

lemma digits_val_append: "digits_val acc (xs @ ys) = digits_val (digits_val acc xs) ys"
  by (induction xs arbitrary: acc) auto

lemma digits_val_show_nat: "digits_val 0 (show_nat n) = n"
proof (induction n rule: show_nat.induct)
  case (1 n)
  show ?case
  proof (cases "n < 10")
    case True
    then show ?thesis by (subst show_nat.simps) simp
  next
    case False
    with 1 have "digits_val 0 (show_nat (n div 10)) = n div 10" by simp
    with False show ?thesis
      by (subst show_nat.simps) (simp add: digits_val_append)
  qed
qed

lemma digits_val_zeros [simp]: "digits_val 0 (replicate k (CHR ''0'') @ s) = digits_val 0 s"
  by (induction k) auto

lemma length_show_nat_le: "n < 10 ^ k \<Longrightarrow> 0 < k \<Longrightarrow> length (show_nat n) \<le> k"
proof (induction n arbitrary: k rule: show_nat.induct)
  case (1 n)
  show ?case
  proof (cases "n < 10")
    case True
    with 1 show ?thesis by (subst show_nat.simps) simp
  next
    case False
    with "1.prems" obtain j where k: "k = Suc j" "0 < j"
      by (metis gr0_conv_Suc le_numeral_extra(4) less_one linorder_neqE_nat not_less_eq power_one_right
          One_nat_def not_gr_zero)
    with "1.prems" False have "n div 10 < 10 ^ j" by (simp add: less_mult_imp_div_less mult.commute)
    with "1.IH" False k have "length (show_nat (n div 10)) \<le> j" by simp
    with False k show ?thesis by (subst show_nat.simps) simp
  qed
qed

end
