(* ===== verification/Dates.thy ===== *)
theory Dates
  imports C_Double C_Text
begin

text \<open>
  The calendar of server/hb/date.c: validity of dates with the two-digit-year window, the serial
  day number stored in DATE values and its inverse, and the DATE display formats. The serial
  number counts Julian years of 365.25 days although month lengths use the Gregorian leap rule;
  the theorems state what that gives.
\<close>

type_synonym date_t = "32 word"

section \<open>Validity and serial numbers\<close>

definition daysofmonth :: "int list" where
  "daysofmonth = [0, 31, 28, 31, 30, 31, 30, 31, 31, 30, 31, 30, 31]"

definition isleap :: "int \<Rightarrow> bool" where
  "isleap year \<longleftrightarrow> crem year 400 = 0 \<or> (crem year 4 = 0 \<and> crem year 100 \<noteq> 0)"

definition month_days :: "int \<Rightarrow> int \<Rightarrow> int option" where
  \<comment> \<open>the length of a month as the loops compute it; None where daysofmonth is read out of bounds\<close>
  "month_days year month =
     (if month = 2 then Some (if isleap year then 29 else 28)
      else if 0 \<le> month \<and> month < 13 then Some (daysofmonth ! nat month) else None)"

definition window_year :: "int \<Rightarrow> int \<Rightarrow> int" where
  "window_year epoch year =
     (if year < 100 then
        (if year < crem epoch 100 then year + cquo (epoch + 99) 100 * 100
         else year + cquo epoch 100 * 100)
      else year)"

definition verify_date :: "int \<Rightarrow> int \<Rightarrow> int \<Rightarrow> int \<Rightarrow> bool" where
  "verify_date epoch year month day =
     (if day < 1 \<or> year < 0 then False
      else let year = window_year epoch year in
        if month \<in> {1, 3, 5, 7, 8, 10, 12} then \<not> 31 < day
        else if month = 2 then \<not> (if isleap year then 29 else 28) < day
        else if month \<in> {4, 6, 9, 11} then \<not> 30 < day
        else False)"

definition yeartoday :: "int \<Rightarrow> date_t" where
  "yeartoday year =
     (if year < 0 then 0
      else (word_of_int year div 4) * 1461 + word_of_int (crem year 4 * 365))"

text \<open>The loop while (--month) day += ...; None when it leaves the month table.\<close>

function days_before :: "int \<Rightarrow> int \<Rightarrow> int \<Rightarrow> int option" where
  "days_before year month day =
     (let month = month - 1 in
      if month = 0 then Some day
      else case month_days year month of
          None \<Rightarrow> None
        | Some n \<Rightarrow> days_before year month (day + n))"
  by pat_completeness auto
termination
  by (relation "measure (\<lambda>(year, month, day). nat month)")
     (auto simp: month_days_def split: if_splits)

declare days_before.simps [simp del]

definition date_to_number :: "int \<Rightarrow> int \<Rightarrow> int \<Rightarrow> int \<Rightarrow> date_t option" where
  "date_to_number epoch day month year =
     (let year = window_year epoch year in
      case days_before year month day of
        None \<Rightarrow> None
      | Some day \<Rightarrow> Some (1721410 + yeartoday (year - 1) + word_of_int day))"

text \<open>The month search of n_to_mdy: for (*mm=1;;++( *mm)).\<close>

function mdy_loop :: "int \<Rightarrow> int \<Rightarrow> int \<Rightarrow> (int \<times> int) option" where
  "mdy_loop yy mm dd =
     (case month_days yy mm of
        None \<Rightarrow> None
      | Some days \<Rightarrow> if dd \<le> days then Some (mm, dd) else mdy_loop yy (mm + 1) (dd - days))"
  by pat_completeness auto
termination
  by (relation "measure (\<lambda>(yy, mm, dd). nat (13 - mm))")
     (auto simp: month_days_def split: if_splits)

declare mdy_loop.simps [simp del]

definition n_to_mdy :: "date_t \<Rightarrow> (int \<times> int \<times> int) option" where
  \<comment> \<open>month, day, year; None when the month search leaves the table\<close>
  "n_to_mdy d =
     (let td = d - 1721410 in
      if sint td \<le> 0 then Some (0, 0, 0)
      else
        let yy = d2int (dadd (ddiv (i2d (uint td)) (Fin False (1461 / 4))) (i2d 1));
            dd = sint (td - yeartoday (yy - 1));
            (yy, dd) = (if dd = 0 then (yy - 1, sint (td - yeartoday (yy - 1 - 1))) else (yy, dd))
        in case mdy_loop yy 1 dd of
             None \<Rightarrow> None
           | Some (mm, dd) \<Rightarrow> Some (mm, dd, yy))"

section \<open>Display formats\<close>

text \<open>The three pieces %d, %02d and %04d that a DATE format is made of.\<close>

datatype dspec = Dd | D02d | D04d

record dfmt =
  sfmt :: "dspec option list"
  spos :: nat
  dseq :: string
  sptr1 :: "char option"
  sptr2 :: "char option"
  ydig :: nat

definition is_separator :: "char \<Rightarrow> bool" where
  "is_separator c \<longleftrightarrow> c \<in> {CHR ''/'', CHR ''.'', CHR ''-'', CHR '',''}"

definition put_spec :: "dspec \<Rightarrow> char \<Rightarrow> dfmt \<Rightarrow> dfmt" where
  "put_spec f c st = st\<lparr>sfmt := (sfmt st)[spos st := Some f], dseq := (dseq st)[spos st := c]\<rparr>"

fun datefmt_loop :: "string \<Rightarrow> dfmt \<Rightarrow> err + dfmt" where
  "datefmt_loop [] st = Inr st"
| "datefmt_loop (c # cs) st =
     (if to_upper c = CHR ''M'' \<or> to_upper c = CHR ''D'' then
        (case sfmt st ! spos st of
           None \<Rightarrow> datefmt_loop cs (put_spec Dd (to_lower (to_upper c)) st)
         | Some Dd \<Rightarrow> datefmt_loop cs (put_spec D02d (to_lower (to_upper c)) st)
         | Some _ \<Rightarrow> Inl (Syn BAD_DATE))
      else if to_upper c = CHR ''Y'' then
        (case sfmt st ! spos st of
           None \<Rightarrow> datefmt_loop cs (put_spec Dd (CHR ''y'') st)
         | Some Dd \<Rightarrow> datefmt_loop cs ((put_spec D02d (CHR ''y'') st)\<lparr>ydig := 2\<rparr>)
         | Some D02d \<Rightarrow>
             (case cs of
                c2 # cs2 \<Rightarrow> if to_upper c2 = CHR ''Y''
                             then datefmt_loop cs2 ((put_spec D04d (CHR ''y'') st)\<lparr>ydig := 4\<rparr>)
                             else Inl (Syn BAD_DATE)
              | [] \<Rightarrow> Inl (Syn BAD_DATE))
         | Some D04d \<Rightarrow> Inl (Syn BAD_DATE))
      else if is_separator c then
        (case (sptr1 st, sptr2 st) of
           (None, _) \<Rightarrow> datefmt_loop cs (st\<lparr>sptr1 := Some c, spos := Suc (spos st)\<rparr>)
         | (Some _, None) \<Rightarrow> datefmt_loop cs (st\<lparr>sptr2 := Some c, spos := Suc (spos st)\<rparr>)
         | (Some _, Some _) \<Rightarrow> Inl (Syn BAD_DATE))
      else Inl (Syn BAD_DATE))"

definition dfmt_init :: dfmt where
  "dfmt_init = \<lparr>sfmt = [None, None, None], spos = 0, dseq = replicate 4 (CHR 0x00),
                sptr1 = None, sptr2 = None, ydig = 0\<rparr>"

definition datefmt :: "string \<Rightarrow> err + dfmt" where
  "datefmt spec =
     (case datefmt_loop spec dfmt_init of
        Inl e \<Rightarrow> Inl e
      | Inr st \<Rightarrow>
          (let sq = takeWhile (\<lambda>c. c \<noteq> CHR 0x00) (dseq st) in
           if CHR ''m'' \<in> set sq \<and> CHR ''d'' \<in> set sq \<and> CHR ''y'' \<in> set sq
           then Inr st else Inl (Syn BAD_DATE)))"

fun print_spec :: "dspec \<Rightarrow> int \<Rightarrow> string" where
  "print_spec Dd n = show_int n"
| "print_spec D02d n = fmt_0d 2 n"
| "print_spec D04d n = fmt_0d 4 n"

definition number_to_date :: "bool \<Rightarrow> string \<Rightarrow> date_t \<Rightarrow> (err + string) option" where
  \<comment> \<open>None when n_to_mdy leaves the month table\<close>
  "number_to_date dbdate datespec d =
     (case n_to_mdy d of
        None \<Rightarrow> None
      | Some (month, day, year) \<Rightarrow>
          Some (if dbdate then Inr (fmt_0d 4 year @ fmt_0d 2 month @ fmt_0d 2 day)
            else case datefmt datespec of
                Inl e \<Rightarrow> Inl e
              | Inr st \<Rightarrow>
                  (let year = (if ydig st = 2 then crem year 100 else year);
                       mdy = (\<lambda>i. let c = dseq st ! i in
                              if c = CHR ''d'' then day else if c = CHR ''m'' then month else year);
                       piece = (\<lambda>i. print_spec (the (sfmt st ! i)) (mdy i))
                   in Inr (piece 0 @ [the (sptr1 st)] @ piece 1 @ [the (sptr2 st)] @ piece 2))))"

definition DEFDATEFMT :: string where
  "DEFDATEFMT = ''MM/DD/YYYY''"

definition set_datefmt :: "string option \<Rightarrow> string \<Rightarrow> err + string" where
  \<comment> \<open>the new datespec; None is SET DATE with no argument; the second argument is the old one\<close>
  "set_datefmt arg datespec =
     (case arg of
        None \<Rightarrow> Inr DEFDATEFMT
      | Some s \<Rightarrow>
          if 15 - 1 < length s then Inl (Syn STR_TOOLONG)
          else case datefmt (takeWhile (\<lambda>c. c \<noteq> CHR 0x00) s) of
              Inl e \<Rightarrow> Inl e
            | Inr _ \<Rightarrow> Inr (takeWhile (\<lambda>c. c \<noteq> CHR 0x00) s))"

section \<open>The year estimate in double arithmetic\<close>

lemma floor_double_quotient:
  fixes td :: int
  assumes "0 < td" and "td < 2 ^ 31"
  shows "d2int (dadd (ddiv (i2d td) (Fin False (1461 / 4))) (i2d 1)) = 4 * td div 1461 + 1"
proof -
  define N where "N = 4 * td div 1461"
  define r where "r = 4 * td mod 1461"
  have td: "4 * td = 1461 * N + r" and r: "0 \<le> r" "r < 1461"
    by (simp_all add: N_def r_def)
  have N: "0 \<le> N" "N < 2 ^ 23" using assms by (simp_all add: N_def)
  define m :: rat where "m = of_int N + of_int r / 1461"
  have "(of_int (4 * td) :: rat) = of_int (1461 * N + r)" by (simp only: td)
  then have m: "of_int td / (1461 / 4) = m" by (simp add: m_def field_simps)
  have i2d: "i2d td = Fin False (of_int td)" "i2d 1 = Fin False 1"
    using assms i2d_exact [of td] i2d_exact [of 1] by simp_all
  have div_eq: "ddiv (i2d td) (Fin False (1461 / 4)) = rnd False m"
    by (simp add: i2d flip: m)
  show ?thesis
  proof (cases "r = 0")
    case True
    then have "rnd False m = Fin False (of_int N)" using N rnd_of_int [of N False] by (simp add: m_def)
    moreover have "of_val False (of_int N + 1) = Fin False (of_int (N + 1))"
      using N rnd_of_int [of "N + 1" False] by (simp add: of_val_def)
    ultimately have "dadd (ddiv (i2d td) (Fin False (1461 / 4))) (i2d 1) = Fin False (of_int (N + 1))"
      by (simp only: div_eq) (simp add: i2d)
    then show ?thesis using N unfolding N_def [symmetric]
      by (simp add: d2int_def cast_range_def dtrunc_def)
  next
    case False
    with r have "1 \<le> r" "r \<le> 1460" by simp_all
    then have r1: "(1::rat) \<le> of_int r" "(of_int r :: rat) \<le> 1460" by simp_all
    have "N \<le> 8388607" using N by simp
    then have N1: "(0::rat) \<le> of_int N" "(of_int N :: rat) \<le> 8388607" using N by simp_all
    have ml: "of_int N + 1 / 1461 \<le> m" and mu: "m \<le> of_int N + 1460 / 1461"
      using r1 by (simp_all add: m_def divide_right_mono)
    have tiny: "p2 (-1022) \<le> 1 / 1461" by (simp add: p2_def)
    have e53: "p2 (-53) \<le> 1 / 8589934592 / 4096" by (simp add: p2_def)
    have big: "8388609 < p2 1000" by (simp add: p2_def)
    from tiny big ml mu N1 have "p2 (-1022) \<le> m" "m < p2 1000" by linarith+
    then obtain v where v: "rnd False m = Fin False v" and ve: "\<bar>v - m\<bar> \<le> m * p2 (-53)"
      using rnd_err by blast
    have "m * p2 (-53) \<le> 8388608 * (1 / 8589934592 / 4096)"
      using ml mu N1 e53 by (intro mult_mono) (auto intro: less_imp_le)
    with ve have ve': "\<bar>v - m\<bar> \<le> 1 / 100000" by simp
    then have vb: "of_int N < v" "v < of_int N + 1" using ml mu by linarith+
    from tiny big vb N1 have "p2 (-1022) \<le> v + 1" "v + 1 < p2 1000" by linarith+
    then obtain w where w: "rnd False (v + 1) = Fin False w"
      and we: "\<bar>w - (v + 1)\<bar> \<le> (v + 1) * p2 (-53)"
      using rnd_err by blast
    have "(v + 1) * p2 (-53) \<le> 8388609 * (1 / 8589934592 / 4096)"
      using vb N1 e53 by (intro mult_mono) (auto intro: less_imp_le)
    with we have "\<bar>w - (v + 1)\<bar> \<le> 1 / 100000" by simp
    with ve' ml mu have wb: "of_int (N + 1) \<le> w" "w < of_int (N + 1) + 1"
      unfolding of_int_add of_int_1 by linarith+
    have "of_val False (v + 1) = Fin False w" using w vb N1 by (simp add: of_val_def)
    then have "dadd (ddiv (i2d td) (Fin False (1461 / 4))) (i2d 1) = Fin False w"
      by (simp only: div_eq v) (simp add: i2d)
    moreover have "\<lfloor>w\<rfloor> = N + 1" using wb by (intro floor_unique)
    moreover have "\<not> w < 0" using wb N1 by simp
    ultimately show ?thesis using N unfolding N_def [symmetric]
      by (simp add: d2int_def cast_range_def dtrunc_def)
  qed
qed

section \<open>The month loops\<close>

lemma days_before_mdy_loop:
  "days_before y m d = Some e \<Longrightarrow> 1 \<le> d \<Longrightarrow> 1 \<le> m \<Longrightarrow> mdy_loop y 1 e = mdy_loop y m d \<and> d \<le> e"
proof (induction y m d rule: days_before.induct)
  case (1 y m d)
  show ?case
  proof (cases "m - 1 = 0")
    case True
    with 1 show ?thesis by (simp add: days_before.simps [of y m d])
  next
    case False
    with "1.prems" obtain k where k: "month_days y (m - 1) = Some k"
      and e: "days_before y (m - 1) (d + k) = Some e"
      by (auto simp: days_before.simps [of y m d] Let_def split: option.splits)
    have k0: "0 \<le> k" using k
      by (auto simp: month_days_def daysofmonth_def nth_Cons' split: if_splits)
    from "1.IH" [OF refl False k e] "1.prems" False k0
    have "mdy_loop y 1 e = mdy_loop y (m - 1) (d + k) \<and> d + k \<le> e" by simp
    moreover have "mdy_loop y (m - 1) (d + k) = mdy_loop y m d"
      using k "1.prems" by (simp add: mdy_loop.simps [of y "m - 1"])
    ultimately show ?thesis using k0 by simp
  qed
qed

lemma months_cases:
  fixes m :: int
  assumes "1 \<le> m" and "m \<le> 12"
  shows "m \<in> {1, 2, 3, 4, 5, 6, 7, 8, 9, 10, 11, 12}"
  using assms unfolding insert_iff empty_iff by presburger

lemma verify_date_month: "verify_date ep y m d \<Longrightarrow> 1 \<le> m \<and> m \<le> 12 \<and> 1 \<le> d \<and> 0 \<le> y"
  by (auto simp: verify_date_def Let_def split: if_splits)

lemma verify_date_days:
  "verify_date ep y m d \<Longrightarrow> \<exists>n. month_days (window_year ep y) m = Some n \<and> d \<le> n"
  by (auto simp: verify_date_def month_days_def daysofmonth_def Let_def split: if_splits)

lemma days_before_formula:
  assumes "1 \<le> m" and "m \<le> 12"
  shows "days_before y m d =
    Some (d + (if m \<le> 2 then 31 * (m - 1)
               else (153 * (m - 3) + 2) div 5 + 59 + (if isleap y then 1 else 0)))"
  using months_cases [OF assms]
  by (elim insertE emptyE)
     (simp_all add: days_before.simps month_days_def daysofmonth_def Let_def)

lemma days_before_bounds:
  assumes "1 \<le> m" and "m \<le> 12" and "1 \<le> d" and "month_days y m = Some n" and "d \<le> n"
  shows "\<exists>e. days_before y m d = Some e \<and> 1 \<le> e \<and> e \<le> (if isleap y then 366 else 365)"
  using months_cases [OF assms(1,2)] assms(3,4,5) unfolding days_before_formula [OF assms(1,2)]
  by (elim insertE emptyE) (auto simp: month_days_def daysofmonth_def split: if_splits)

section \<open>Serial numbers as integers\<close>

lemma yeartoday_int:
  assumes "0 \<le> y" and "y < 2 ^ 20"
  shows "yeartoday y = word_of_int (1461 * (y div 4) + 365 * (y mod 4))"
proof -
  have "uint (word_of_int y :: date_t) = y"
    using assms by (simp add: uint_word_of_int)
  then have "uint (word_of_int y div 4 :: date_t) = y div 4"
    by (simp add: uint_div)
  then have "word_of_int y div 4 = (word_of_int (y div 4) :: date_t)"
    by (metis word_of_int_uint)
  then show ?thesis using assms by (simp add: yeartoday_def mult.commute)
qed

definition serial_day :: "int \<Rightarrow> int \<Rightarrow> int" where
  \<comment> \<open>days since the base 1721410 for day e of year y\<close>
  "serial_day y e = 1461 * ((y - 1) div 4) + 365 * ((y - 1) mod 4) + e"

lemma uint_date: "0 \<le> k \<Longrightarrow> k < 2 ^ 31 \<Longrightarrow> uint (word_of_int k :: date_t) = k"
  by (simp add: uint_word_of_int)

lemma word_of_int_date_inj:
  assumes "0 \<le> j" "j < 2 ^ 31" "0 \<le> k" "k < 2 ^ 31"
  shows "(word_of_int j :: date_t) = word_of_int k \<longleftrightarrow> j = k"
  using uint_date [OF assms(1,2)] uint_date [OF assms(3,4)] by metis

lemma date_to_number_serial:
  assumes "days_before (window_year ep y) m d = Some e"
    and "1 \<le> window_year ep y" and "window_year ep y < 2 ^ 20"
  shows "date_to_number ep d m y = Some (word_of_int (1721410 + serial_day (window_year ep y) e))"
  using assms by (simp add: date_to_number_def Let_def yeartoday_int serial_day_def)

lemma serial_day_bounds:
  assumes "1 \<le> y" and "y < 2 ^ 20" and "1 \<le> e" and "e \<le> 366"
  shows "0 < serial_day y e" and "serial_day y e < 2 ^ 30"
proof -
  define q where "q = (y - 1) div 4"
  define r where "r = (y - 1) mod 4"
  have "y - 1 = 4 * q + r" "0 \<le> r" "r < 4" by (simp_all add: q_def r_def)
  then show "0 < serial_day y e" and "serial_day y e < 2 ^ 30"
    using assms unfolding serial_day_def q_def [symmetric] r_def [symmetric] by simp_all
qed

lemma serial_day_quotient:
  assumes "1 \<le> y" and "1 \<le> e" and "e \<le> 366" and "e = 366 \<Longrightarrow> y mod 4 = 0"
  shows "4 * serial_day y e div 1461 = (if e = 366 then y else y - 1)"
proof -
  define q where "q = (y - 1) div 4"
  define r where "r = (y - 1) mod 4"
  have y: "y - 1 = 4 * q + r" "0 \<le> r" "r < 4" by (simp_all add: q_def r_def)
  have s: "4 * serial_day y e = 1461 * (y - 1) + (4 * e - r)"
    using y by (simp add: serial_day_def q_def [symmetric] r_def [symmetric])
  show ?thesis
  proof (cases "e = 366")
    case True
    then have "y mod 4 = 0" using assms by simp
    then have "r = 3" using y by presburger
    with True s show ?thesis by simp
  next
    case False
    then have "0 \<le> 4 * e - r" "4 * e - r < 1461" using assms y by auto
    with s False show ?thesis by simp
  qed
qed

lemma isleap_mod4: "0 \<le> y \<Longrightarrow> isleap y \<Longrightarrow> y mod 4 = 0"
  unfolding isleap_def by auto

lemma n_to_mdy_serial:
  assumes y: "1 \<le> y" "y < 2 ^ 20" and e: "1 \<le> e" "e \<le> 366" "e = 366 \<Longrightarrow> y mod 4 = 0"
  shows "n_to_mdy (word_of_int (1721410 + serial_day y e)) =
           (case mdy_loop y 1 e of None \<Rightarrow> None | Some (mm, dd) \<Rightarrow> Some (mm, dd, y))"
proof -
  let ?s = "serial_day y e"
  note sb = serial_day_bounds [OF y e(1,2)]
  have td: "(word_of_int (1721410 + ?s) :: date_t) - 1721410 = word_of_int ?s" by simp
  have us: "uint (word_of_int ?s :: date_t) = ?s" using sb by (simp add: uint_word_of_int)
  have small: "sint (word_of_int k :: date_t) = k" if "0 \<le> k" "k < 2 ^ 31" for k
    using that by (simp add: sint_uint uint_word_of_int signed_take_bit_int_eq_self)
  have ss: "sint (word_of_int ?s :: date_t) = ?s" using sb by (intro small) auto
  have q: "d2int (dadd (ddiv (i2d ?s) (Fin False (1461 / 4))) (i2d 1))
      = (if e = 366 then y + 1 else y)"
    using floor_double_quotient [of ?s] serial_day_quotient [OF y(1) e] sb by simp
  have dd: "sint ((word_of_int ?s :: date_t) - yeartoday (y - 1)) = e"
    using y e small [of e] by (simp add: yeartoday_int serial_day_def)
  show ?thesis
  proof (cases "e = 366")
    case True
    then have "y mod 4 = 0" using e by simp
    then have "(y - 1) div 4 = y div 4 - 1" "(y - 1) mod 4 = 3" by presburger+
    then have "1461 * (y div 4) + 365 * (y mod 4) = ?s"
      using True \<open>y mod 4 = 0\<close> by (simp add: serial_day_def)
    then have "yeartoday y = word_of_int ?s" using y by (simp add: yeartoday_int)
    then have dd0: "sint ((word_of_int ?s :: date_t) - yeartoday (y + 1 - 1)) = 0" by simp
    from True q have q': "d2int (dadd (ddiv (i2d ?s) (Fin False (1461 / 4))) (i2d 1)) = y + 1" by simp
    have "y + 1 - 1 - 1 = y - 1" by simp
    with dd have dd': "sint ((word_of_int ?s :: date_t) - yeartoday (y + 1 - 1 - 1)) = e"
      by (simp only:)
    have "\<not> ?s \<le> 0" using sb by simp
    then show ?thesis
      unfolding n_to_mdy_def Let_def td us ss q' dd0 dd' by simp
  next
    case False
    with q have q': "d2int (dadd (ddiv (i2d ?s) (Fin False (1461 / 4))) (i2d 1)) = y" by simp
    have "\<not> ?s \<le> 0" "e \<noteq> 0" using sb e by simp_all
    then show ?thesis
      unfolding n_to_mdy_def Let_def td us ss q' dd by simp
  qed
qed

section \<open>Properties of the calendar\<close>

lemma window_year_id [simp]: "100 \<le> y \<Longrightarrow> window_year ep y = y"
  by (simp add: window_year_def)

lemma window_year_range:
  assumes "0 \<le> ep" and "0 \<le> y" and "y < 100"
  shows "ep \<le> window_year ep y \<and> window_year ep y < ep + 100 \<and> window_year ep y mod 100 = y"
proof -
  define q where "q = ep div 100"
  define r where "r = ep mod 100"
  have ep: "ep = 100 * q + r" "0 \<le> r" "r < 100" by (simp_all add: q_def r_def)
  have "0 < r \<Longrightarrow> (ep + 99) div 100 = q + 1" using ep by simp
  moreover have m: "(y + (q + 1) * 100) mod 100 = y" "(y + q * 100) mod 100 = y"
    using assms by (simp_all only: mod_mult_self1 mod_pos_pos_trivial)
  ultimately have "window_year ep y = (if y < r then y + (q + 1) * 100 else y + q * 100)"
    using assms by (simp add: window_year_def q_def [symmetric] r_def [symmetric])
  with m show ?thesis using assms ep by (cases "y < r") simp_all
qed

lemma days_before_month_mono:
  "days_before y m2 d2 = Some e2 \<Longrightarrow> days_before y m1 d1 = Some e1 \<Longrightarrow> month_days y m1 = Some k
    \<Longrightarrow> d1 \<le> k \<Longrightarrow> 1 \<le> d2 \<Longrightarrow> 1 \<le> m1 \<Longrightarrow> m1 < m2 \<Longrightarrow> m2 \<le> 12 \<Longrightarrow> e1 < e2"
  for m1 d1 e1 k
proof (induction y m2 d2 rule: days_before.induct)
  case (1 y m2 d2)
  then have "m2 - 1 \<noteq> 0" by simp
  with "1.prems"(1) obtain j where j: "month_days y (m2 - 1) = Some j"
    and e2: "days_before y (m2 - 1) (d2 + j) = Some e2"
    by (auto simp: days_before.simps [of y m2 d2] Let_def split: option.splits)
  show ?case
  proof (cases "m1 = m2 - 1")
    case True
    then show ?thesis
      using "1.prems" e2 j days_before_formula [of m1 y d1] days_before_formula [of m1 y "d2 + j"] by simp
  next
    case False
    have "0 \<le> j" using j by (auto simp: month_days_def daysofmonth_def nth_Cons' split: if_splits)
    then show ?thesis using "1.IH" [OF refl \<open>m2 - 1 \<noteq> 0\<close> j e2] "1.prems" False by simp
  qed
qed

lemma valid_date_serial:
  assumes "verify_date ep y m d" and "100 \<le> ep" and "ep \<le> 9900" and "y \<le> 9999"
  shows "\<exists>e n. days_before (window_year ep y) m d = Some e \<and> 1 \<le> e \<and> e \<le> 366
    \<and> (e = 366 \<longrightarrow> window_year ep y mod 4 = 0)
    \<and> 100 \<le> window_year ep y \<and> window_year ep y < 2 ^ 20
    \<and> date_to_number ep d m y = Some (word_of_int (1721410 + serial_day (window_year ep y) e))
    \<and> month_days (window_year ep y) m = Some n \<and> d \<le> n"
proof -
  let ?y = "window_year ep y"
  note v = verify_date_month [OF assms(1)]
  obtain n where n: "month_days ?y m = Some n" "d \<le> n" using verify_date_days [OF assms(1)] by blast
  obtain e where e: "days_before ?y m d = Some e" "1 \<le> e" "e \<le> (if isleap ?y then 366 else 365)"
    using days_before_bounds [of m d ?y n] v n by blast
  have w: "100 \<le> ?y \<and> ?y < 2 ^ 20"
  proof (cases "y < 100")
    case True
    then have "ep \<le> ?y \<and> ?y < ep + 100" using v assms window_year_range [of ep y] by simp
    with assms show ?thesis by auto
  next
    case False
    with assms show ?thesis by simp
  qed
  have "e = 366 \<Longrightarrow> ?y mod 4 = 0" using e w isleap_mod4 [of ?y] by (auto split: if_splits)
  moreover have "date_to_number ep d m y = Some (word_of_int (1721410 + serial_day ?y e))"
    using e w by (intro date_to_number_serial) simp_all
  moreover have "e \<le> 366" using e by (simp split: if_splits)
  ultimately show ?thesis using e(1,2) n w by (intro exI [of _ e] exI [of _ n] conjI impI) simp_all
qed

text \<open>C19: the serial number of every valid date reads back as that date, with a two-digit year
  completed by the window that starts at the epoch.\<close>

theorem date_roundtrip:
  assumes "verify_date ep y m d" and "100 \<le> ep" and "ep \<le> 9900" and "y \<le> 9999"
  shows "\<exists>n. date_to_number ep d m y = Some n \<and> n_to_mdy n = Some (m, d, window_year ep y)"
proof -
  obtain e k where e: "days_before (window_year ep y) m d = Some e" "1 \<le> e" "e \<le> 366"
      "e = 366 \<longrightarrow> window_year ep y mod 4 = 0"
    and w: "100 \<le> window_year ep y" "window_year ep y < 2 ^ 20"
    and num: "date_to_number ep d m y = Some (word_of_int (1721410 + serial_day (window_year ep y) e))"
    and k: "month_days (window_year ep y) m = Some k" "d \<le> k"
    using valid_date_serial [OF assms] by (elim exE conjE) (rule that)
  have "mdy_loop (window_year ep y) 1 e = mdy_loop (window_year ep y) m d"
    using days_before_mdy_loop e verify_date_month [OF assms(1)] by blast
  also have "\<dots> = Some (m, d)" using k by (simp add: mdy_loop.simps)
  finally show ?thesis using num n_to_mdy_serial [of "window_year ep y" e] w e by simp
qed

theorem date_roundtrip_witness:
  "\<exists>n. date_to_number 1950 29 2 24 = Some n \<and> n_to_mdy n = Some (2, 29, 2024)"
proof -
  have v: "verify_date 1950 24 2 29" by (simp add: verify_date_def window_year_def isleap_def)
  show ?thesis using date_roundtrip [OF v] by (simp add: window_year_def)
qed

text \<open>Of two valid dates with four-digit years, the later one has the larger serial number, so
  comparing and sorting DATE values by number is comparing the dates.\<close>

theorem date_number_strict_mono:
  assumes "verify_date ep y1 m1 d1" and "verify_date ep y2 m2 d2"
    and "100 \<le> ep" and "ep \<le> 9900" and "100 \<le> y1" and "100 \<le> y2" and "y1 \<le> 9999" and "y2 \<le> 9999"
    and "y1 < y2 \<or> y1 = y2 \<and> (m1 < m2 \<or> m1 = m2 \<and> d1 < d2)"
  shows "\<exists>n1 n2. date_to_number ep d1 m1 y1 = Some n1 \<and> date_to_number ep d2 m2 y2 = Some n2 \<and> n1 < n2"
proof -
  obtain e1 k1 where e1: "days_before y1 m1 d1 = Some e1" "1 \<le> e1" "e1 \<le> 366" "e1 = 366 \<longrightarrow> y1 mod 4 = 0"
    and n1: "date_to_number ep d1 m1 y1 = Some (word_of_int (1721410 + serial_day y1 e1))"
    and k1: "month_days y1 m1 = Some k1" "d1 \<le> k1"
    using valid_date_serial [OF assms(1,3,4,7)] unfolding window_year_id [OF assms(5)]
    by (elim exE conjE) (rule that)
  obtain e2 where e2: "days_before y2 m2 d2 = Some e2" "1 \<le> e2" "e2 \<le> 366"
    and n2: "date_to_number ep d2 m2 y2 = Some (word_of_int (1721410 + serial_day y2 e2))"
    using valid_date_serial [OF assms(2,3,4,8)] unfolding window_year_id [OF assms(6)]
    by (elim exE conjE) (rule that)
  note v1 = verify_date_month [OF assms(1)] and v2 = verify_date_month [OF assms(2)]
  have lt: "serial_day y1 e1 < serial_day y2 e2"
  proof (cases "y1 < y2")
    case True
    define q1 r1 q2 r2 where "q1 = (y1 - 1) div 4" "r1 = (y1 - 1) mod 4"
      "q2 = (y2 - 1) div 4" "r2 = (y2 - 1) mod 4"
    note defs = this
    have y: "y1 - 1 = 4 * q1 + r1" "0 \<le> r1" "r1 < 4" "y2 - 1 = 4 * q2 + r2" "0 \<le> r2" "r2 < 4"
      by (simp_all add: defs)
    have r3: "e1 = 366 \<longrightarrow> r1 = 3" using e1(4) y by presburger
    have "q1 < q2 \<or> q1 = q2 \<and> r1 < r2" using True y by linarith
    then show ?thesis
    proof (elim disjE conjE)
      assume "q1 < q2"
      then have "1461 * q1 + 1461 \<le> 1461 * q2" by simp
      then show ?thesis using e1(3) e2(2) y unfolding serial_day_def defs [symmetric] by linarith
    next
      assume "q1 = q2" and "r1 < r2"
      moreover from this have "e1 \<le> 365" using r3 e1(3) y by (cases "e1 = 366") simp_all
      ultimately show ?thesis using e2(2) unfolding serial_day_def defs [symmetric] by linarith
    qed
  next
    case False
    with assms(9) have y: "y1 = y2" and md: "m1 < m2 \<or> m1 = m2 \<and> d1 < d2" by simp_all
    have "e1 < e2"
    proof (cases "m1 < m2")
      case True
      then show ?thesis
        using days_before_month_mono [of y2 m2 d2 e2 m1 d1 e1 k1] e1(1) e2(1) k1 v1 v2 y by simp
    next
      case False
      with md have "m1 = m2" "d1 < d2" by simp_all
      then show ?thesis
        using e1(1) e2(1) v2 y by (auto simp: days_before_formula)
    qed
    with y show ?thesis by (simp add: serial_day_def)
  qed
  have b: "0 < serial_day y e" "serial_day y e < 2 ^ 30"
    if "100 \<le> y" "y \<le> 9999" "1 \<le> e" "e \<le> 366" for y e
    using serial_day_bounds [of y e] that by simp_all
  have "(word_of_int (1721410 + serial_day y1 e1) :: date_t) < word_of_int (1721410 + serial_day y2 e2)"
    unfolding word_less_def
    using lt b [of y1 e1] b [of y2 e2] assms e1 e2
    by (subst (1 2) uint_date) simp_all
  with n1 n2 show ?thesis by blast
qed

theorem date_number_strict_mono_witness:
  "\<exists>n1 n2. date_to_number 1950 31 12 1999 = Some n1 \<and> date_to_number 1950 1 1 2000 = Some n2 \<and> n1 < n2"
proof -
  have v: "verify_date 1950 1999 12 31" "verify_date 1950 2000 1 1"
    by (simp_all add: verify_date_def)
  show ?thesis by (rule date_number_strict_mono [OF v]) simp_all
qed

text \<open>The proleptic Gregorian calendar, defined on its own: the Julian day number of a date.\<close>

definition gregorian_jdn :: "int \<Rightarrow> int \<Rightarrow> int \<Rightarrow> int" where
  "gregorian_jdn y m d =
     1721425 + 365 * (y - 1) + (y - 1) div 4 - (y - 1) div 100 + (y - 1) div 400
     + (\<Sum>k \<leftarrow> [1..m - 1]. if k = 2 then (if y mod 4 = 0 \<and> (y mod 100 \<noteq> 0 \<or> y mod 400 = 0) then 29 else 28)
                      else if k \<in> {4, 6, 9, 11} then 30 else 31) + d"

lemma days_before_gregorian:
  assumes "1 \<le> m" and "m \<le> 12" and "0 \<le> y" and "days_before y m d = Some e"
  shows "gregorian_jdn y m d =
    1721425 + 365 * (y - 1) + (y - 1) div 4 - (y - 1) div 100 + (y - 1) div 400 + e"
proof -
  have l: "isleap y \<longleftrightarrow> y mod 4 = 0 \<and> (y mod 100 \<noteq> 0 \<or> y mod 400 = 0)"
    unfolding isleap_def crem_nonneg [OF \<open>0 \<le> y\<close>, of 4, simplified]
      crem_nonneg [OF \<open>0 \<le> y\<close>, of 100, simplified] crem_nonneg [OF \<open>0 \<le> y\<close>, of 400, simplified]
    by (auto simp: mod_eq_0_iff_dvd dest: dvd_trans [of 4 400 y, simplified])
  show ?thesis
    using months_cases [OF assms(1,2)] assms(4)
    unfolding gregorian_jdn_def days_before_formula [OF assms(1,2)] l [symmetric]
    by (elim insertE emptyE; cases "isleap y"; simp add: upto_rec1)
qed

lemma century_offset:
  fixes k :: int
  assumes "0 \<le> k"
  shows "k div 100 - k div 400 = 15 \<longleftrightarrow> 1900 \<le> k \<and> k < 2100"
proof -
  define c where "c = k div 100"
  have "k div 400 = c div 4" by (simp add: c_def zdiv_zmult2_eq [of 4 k 100, simplified])
  moreover have "1900 \<le> k \<longleftrightarrow> 19 \<le> c" "k < 2100 \<longleftrightarrow> c < 21" by (simp_all add: c_def) presburger+
  moreover have "c - c div 4 = 15 \<longleftrightarrow> 19 \<le> c \<and> c < 21" by presburger
  ultimately show ?thesis by (simp add: c_def)
qed

text \<open>The serial number of a valid date is its Julian day number in the Gregorian calendar
  exactly in the years 1901 to 2100; outside them it is off by the century leap days that the
  Julian year count of yeartoday ignores.\<close>

theorem date_number_gregorian_iff:
  assumes "verify_date ep y m d" and "100 \<le> ep" and "ep \<le> 9900" and "100 \<le> y" and "y \<le> 9999"
  shows "date_to_number ep d m y = Some (word_of_int (gregorian_jdn y m d)) \<longleftrightarrow> 1901 \<le> y \<and> y \<le> 2100"
proof -
  obtain e where e: "days_before y m d = Some e" "1 \<le> e" "e \<le> 366"
    and num: "date_to_number ep d m y = Some (word_of_int (1721410 + serial_day y e))"
    using valid_date_serial [OF assms(1,2,3,5)] unfolding window_year_id [OF assms(4)]
    by (elim exE conjE) (rule that)
  note v = verify_date_month [OF assms(1)]
  have g: "gregorian_jdn y m d = 1721425 + 365 * (y - 1) + (y - 1) div 4 - (y - 1) div 100 + (y - 1) div 400 + e"
    using days_before_gregorian [of m y d e] v e by simp
  have "1461 * ((y - 1) div 4) + 365 * ((y - 1) mod 4) = 365 * (y - 1) + (y - 1) div 4"
    by presburger
  then have diff: "gregorian_jdn y m d - (1721410 + serial_day y e)
      = 15 - ((y - 1) div 100 - (y - 1) div 400)"
    by (simp add: g serial_day_def)
  define off where "off = (y - 1) div 100 - (y - 1) div 400"
  define c where "c = (y - 1) div 100"
  have "(y - 1) div 400 = c div 4" by (simp add: c_def zdiv_zmult2_eq [of 4 "y - 1" 100, simplified])
  moreover have "0 \<le> c" "c < 100" using assms(4,5) by (simp_all add: c_def)
  ultimately have off: "0 \<le> off" "off \<le> 100" by (simp_all add: off_def c_def [symmetric])
  note sb = serial_day_bounds [of y e]
  have "(word_of_int (1721410 + serial_day y e) :: date_t) = word_of_int (gregorian_jdn y m d)
      \<longleftrightarrow> 1721410 + serial_day y e = gregorian_jdn y m d"
    using sb diff off assms e unfolding off_def [symmetric]
    by (intro word_of_int_date_inj) simp_all
  then show ?thesis
    using num diff century_offset [of "y - 1"] assms(4) by auto
qed

theorem date_number_gregorian_iff_witness:
  "date_to_number 1950 1 1 2019 = Some (word_of_int (gregorian_jdn 2019 1 1))"
proof -
  have v: "verify_date 1950 2019 1 1" by (simp add: verify_date_def)
  show ?thesis using date_number_gregorian_iff [OF v] by simp
qed

text \<open>On the last day of a century year that is not a leap year (1900, 2100, ...) the serial
  numbers have a hole: the next number is no date, and converting it back runs the month search
  past the end of daysofmonth.\<close>

theorem century_year_gap:
  assumes "100 \<le> ep" and "ep \<le> 9900" and "100 \<le> y" and "y \<le> 9998"
    and "y mod 100 = 0" and "y mod 400 \<noteq> 0"
  shows "\<exists>n. date_to_number ep 31 12 y = Some n \<and> n_to_mdy (n + 1) = None
           \<and> date_to_number ep 1 1 (y + 1) = Some (n + 2)"
proof -
  have y4: "y mod 4 = 0" using assms(5) by (auto simp: mod_eq_0_iff_dvd dest: dvd_trans [of 4 100 y, simplified])
  have nl: "\<not> isleap y" using assms by (simp add: isleap_def)
  have w [simp]: "window_year ep y = y" "window_year ep (y + 1) = y + 1" using assms by simp_all
  have "days_before y 12 31 = Some 365" using nl by (simp add: days_before_formula)
  then have n: "date_to_number ep 31 12 y = Some (word_of_int (1721410 + serial_day y 365))"
    using assms date_to_number_serial [of ep y 12 31 365] by simp
  have "days_before (y + 1) 1 1 = Some 1" by (simp add: days_before_formula)
  then have n1: "date_to_number ep 1 1 (y + 1) = Some (word_of_int (1721410 + serial_day (y + 1) 1))"
    using assms date_to_number_serial [of ep "y + 1" 1 1 1] by simp
  have "(y - 1) div 4 = y div 4 - 1" "(y - 1) mod 4 = 3" using y4 by presburger+
  then have "serial_day (y + 1) 1 = serial_day y 365 + 2" "serial_day y 366 = serial_day y 365 + 1"
    using y4 by (simp_all add: serial_day_def)
  then have next2: "(word_of_int (1721410 + serial_day (y + 1) 1) :: date_t)
        = word_of_int (1721410 + serial_day y 365) + 2"
    and next1: "(word_of_int (1721410 + serial_day y 365) + 1 :: date_t)
        = word_of_int (1721410 + serial_day y 366)"
    by simp_all
  have step: "mdy_loop y 1 366 = mdy_loop y 12 32"
    using days_before_mdy_loop [of y 12 32 366] nl by (simp add: days_before_formula)
  have "mdy_loop y 12 32 = None"
    by (simp add: mdy_loop.simps [of y 12] mdy_loop.simps [of y 13] month_days_def daysofmonth_def)
  with step have "n_to_mdy (word_of_int (1721410 + serial_day y 366)) = None"
    using n_to_mdy_serial [of y 366] assms y4 by simp
  then show ?thesis using n n1 next1 next2 by metis
qed

theorem century_year_gap_witness:
  "\<exists>n. date_to_number 1950 31 12 1900 = Some n \<and> n_to_mdy (n + 1) = None
     \<and> date_to_number 1950 1 1 1901 = Some (n + 2)"
  using century_year_gap [of 1950 1900] by simp

section \<open>Properties of the display formats\<close>

definition dfmt_ok :: "dfmt \<Rightarrow> bool" where
  "dfmt_ok st \<longleftrightarrow>
     (\<exists>f0 f1 f2 q0 q1 q2.
        sfmt st = [f0, f1, f2] \<and> dseq st = [q0, q1, q2, CHR 0x00]
        \<and> (f0 = None \<longleftrightarrow> q0 = CHR 0x00) \<and> (f1 = None \<longleftrightarrow> q1 = CHR 0x00) \<and> (f2 = None \<longleftrightarrow> q2 = CHR 0x00)
        \<and> (sptr2 st \<noteq> None \<longrightarrow> sptr1 st \<noteq> None)
        \<and> spos st = (if sptr1 st = None then 0 else if sptr2 st = None then 1 else 2)
        \<and> (spos st < 2 \<longrightarrow> f2 = None))"

lemma char_of_md [simp]: "char_of (109::nat) = CHR ''m''" "char_of (100::nat) = CHR ''d''"
  by code_simp+

lemma dfmt_ok_init: "dfmt_ok dfmt_init"
  by (simp add: dfmt_ok_def dfmt_init_def numeral_eq_Suc)

lemma dfmt_ok_put: "dfmt_ok st \<Longrightarrow> c \<noteq> CHR 0x00 \<Longrightarrow> dfmt_ok (put_spec f c st)"
  unfolding dfmt_ok_def put_spec_def by (auto simp: numeral_eq_Suc split: if_splits)

lemma dfmt_ok_ydig [simp]: "dfmt_ok (st\<lparr>ydig := n\<rparr>) = dfmt_ok st"
  by (simp add: dfmt_ok_def)

lemma datefmt_loop_ok: "datefmt_loop cs st = Inr st' \<Longrightarrow> dfmt_ok st \<Longrightarrow> dfmt_ok st'"
proof (induction cs st rule: datefmt_loop.induct)
  case (1 st)
  then show ?case by simp
next
  case (2 c cs st)
  have mdp: "dfmt_ok (put_spec f (to_lower (to_upper c)) st)"
    if "to_upper c = CHR ''M'' \<or> to_upper c = CHR ''D''" for f
    using that "2.prems" by (auto simp: to_lower_def isupper_def intro!: dfmt_ok_put)
  have yy: "dfmt_ok (put_spec f (CHR ''y'') st)" for f
    using "2.prems" by (intro dfmt_ok_put) simp_all
  have s1: "dfmt_ok (st\<lparr>sptr1 := Some c, spos := Suc (spos st)\<rparr>)" if "sptr1 st = None"
    using that "2.prems"(2) unfolding dfmt_ok_def by auto
  have s2: "dfmt_ok (st\<lparr>sptr2 := Some c, spos := Suc (spos st)\<rparr>)"
    if "sptr1 st = Some x" "sptr2 st = None" for x
    using that "2.prems"(2) unfolding dfmt_ok_def by auto
  consider (md) "to_upper c = CHR ''M'' \<or> to_upper c = CHR ''D''"
    | (y) "\<not> (to_upper c = CHR ''M'' \<or> to_upper c = CHR ''D'')" "to_upper c = CHR ''Y''"
    | (other) "\<not> (to_upper c = CHR ''M'' \<or> to_upper c = CHR ''D'')" "to_upper c \<noteq> CHR ''Y''"
    by blast
  then show ?case
  proof cases
    case md
    note loop = "2.prems"(1) [unfolded datefmt_loop.simps if_P [OF md]]
    show ?thesis
      using loop "2.IH"(1) [OF md _ _ mdp [OF md]] "2.IH"(2) [OF md _ _ _ mdp [OF md]]
      by (auto simp del: datefmt_loop.simps split: option.splits dspec.splits)
  next
    case y
    note loop = "2.prems"(1) [unfolded datefmt_loop.simps if_not_P [OF y(1)] if_P [OF y(2)]]
    show ?thesis
      using loop "2.IH"(3) [OF y] "2.IH"(4) [OF y] "2.IH"(5) [OF y] yy
      by (auto simp del: datefmt_loop.simps split: option.splits dspec.splits list.splits if_splits)
  next
    case other
    note loop = "2.prems"(1) [unfolded datefmt_loop.simps if_not_P [OF other(1)] if_not_P [OF other(2)]]
    show ?thesis
      using loop "2.IH"(6) [OF other] "2.IH"(7) [OF other] s1 s2
      by (auto simp del: datefmt_loop.simps split: option.splits if_splits)
  qed
qed

text \<open>An accepted DATE format has all three pieces and both separators and names day, month
  and year once each, so number_to_date prints three pieces that exist.\<close>

theorem datefmt_complete:
  assumes "datefmt spec = Inr st"
  shows "\<exists>f0 f1 f2 a b q0 q1 q2. sfmt st = [Some f0, Some f1, Some f2] \<and> sptr1 st = Some a
           \<and> sptr2 st = Some b \<and> dseq st = [q0, q1, q2, CHR 0x00]
           \<and> {q0, q1, q2} = {CHR ''m'', CHR ''d'', CHR ''y''}"
proof -
  let ?z = "CHR 0x00"
  from assms have loop: "datefmt_loop spec dfmt_init = Inr st"
    and mdy: "{CHR ''m'', CHR ''d'', CHR ''y''} \<subseteq> set (takeWhile (\<lambda>c. c \<noteq> ?z) (dseq st))"
    by (auto simp: datefmt_def Let_def split: sum.splits if_splits)
  from loop dfmt_ok_init have "dfmt_ok st" by (rule datefmt_loop_ok)
  then obtain f0 f1 f2 q0 q1 q2 where
    f: "sfmt st = [f0, f1, f2]" and q: "dseq st = [q0, q1, q2, ?z]"
    and iff: "f0 = None \<longleftrightarrow> q0 = ?z" "f1 = None \<longleftrightarrow> q1 = ?z" "f2 = None \<longleftrightarrow> q2 = ?z"
    and s: "sptr2 st \<noteq> None \<longrightarrow> sptr1 st \<noteq> None"
      "spos st = (if sptr1 st = None then 0 else if sptr2 st = None then 1 else 2)"
      "spos st < 2 \<longrightarrow> f2 = None"
    unfolding dfmt_ok_def by blast
  from mdy q have nz: "q0 \<noteq> ?z" "q1 \<noteq> ?z" "q2 \<noteq> ?z"
    and sub: "{CHR ''m'', CHR ''d'', CHR ''y''} \<subseteq> {q0, q1, q2}"
    by (auto split: if_splits)
  from sub have "{q0, q1, q2} = {CHR ''m'', CHR ''d'', CHR ''y''}" by auto
  then show ?thesis using f q iff s nz by (auto split: if_splits)
qed

theorem datefmt_complete_witness:
  "\<exists>st f0 f1 f2. datefmt ''MM/DD/YYYY'' = Inr st \<and> sfmt st = [Some f0, Some f1, Some f2]"
proof -
  define st where "st = \<lparr>sfmt = [Some D02d, Some D02d, Some D04d], spos = 2,
      dseq = [CHR ''m'', CHR ''d'', CHR ''y'', CHR 0x00], sptr1 = Some (CHR ''/''),
      sptr2 = Some (CHR ''/''), ydig = 4\<rparr>"
  have st: "datefmt ''MM/DD/YYYY'' = Inr st" unfolding st_def by code_simp
  from datefmt_complete [OF st] show ?thesis
    by (elim exE conjE, intro exI conjI) (rule st)
qed

end
