(* ===== verification/Keywords.thy ===== *)
theory Keywords
  imports C_Text "HOL-Library.List_Lexorder"
begin

text \<open>
  Name comparison and the keyword table: namecmp, kw_bin_srch, kw_search of server/hb/misc.c,
  function_id of server/hb/fcn.c and the table keywords of include/hbkwdef.h (each entry with its
  macros replaced by their values). A name in memory is the list of its characters; characters
  read after the end of the list are NUL.
\<close>

section \<open>Comparing names\<close>

datatype cmptype = KEYWORD | ID_VNAME | ID_FNAME | ID_PARTIAL

definition chr0 :: "string \<Rightarrow> char" where
  \<comment> \<open>*p\<close>
  "chr0 p = (case p of [] \<Rightarrow> CHR 0x00 | c # _ \<Rightarrow> c)"

fun namecmp_loop :: "cmptype \<Rightarrow> nat \<Rightarrow> string \<Rightarrow> string \<Rightarrow> int" where
  "namecmp_loop typ 0 src tgt =
     (if typ = ID_VNAME \<or> typ = ID_FNAME then schar (chr0 src) else 0)"
| "namecmp_loop typ (Suc n) src tgt =
     (let s = chr0 src; t = chr0 tgt in
      if s = CHR ''*'' \<or> s = CHR ''?'' then -1
      else
        let s = (if typ = ID_FNAME then s else to_upper s);
            t = (if typ = ID_FNAME then t else to_upper t);
            d = schar s - schar t
        in if d \<noteq> 0 then
             (if typ = ID_PARTIAL then
                (if t = CHR ''?'' then namecmp_loop typ n (tl src) (tl tgt)
                 else if t = CHR ''*'' then
                   (let tgt = dropWhile (\<lambda>c. c = CHR ''*'') (tl tgt); t = chr0 tgt in
                    if t = CHR 0x00 then 0
                    else if t = CHR ''?'' then namecmp_loop typ n (tl src) (tl tgt)
                    else
                      let t = to_upper t;
                          src = dropWhile (\<lambda>c. c \<noteq> CHR 0x00 \<and> to_upper c \<noteq> t) src
                      in if chr0 src = CHR 0x00 then 0
                         else namecmp_loop typ n (tl src) (tl tgt))
                 else d)
              else d)
           else namecmp_loop typ n (tl src) (tl tgt))"

definition namecmp :: "string \<Rightarrow> string \<Rightarrow> nat \<Rightarrow> cmptype \<Rightarrow> int" where
  "namecmp src tgt len typ =
     namecmp_loop (if typ = KEYWORD \<and> len < 4 then ID_VNAME else typ) len src tgt"

section \<open>The keyword table\<close>

record hbkw =
  kname :: string
  kw_val :: int
  cmd_id :: int
  fcn_id :: int
  setting_id :: int

definition kw :: "string \<Rightarrow> int \<Rightarrow> int \<Rightarrow> int \<Rightarrow> int \<Rightarrow> hbkw" where
  "kw n v c f s = \<lparr>kname = n, kw_val = v, cmd_id = c, fcn_id = f, setting_id = s\<rparr>"

definition keyword_table_1 :: "hbkw list" where
  "keyword_table_1 = [
   kw ''ABS'' 1 (-1) 0 (-1),
   kw ''ACCEPT'' 2 2 (-1) (-1),
   kw ''ALIAS'' 3 (-1) 1 (-1),
   kw ''ALL'' 4 (-1) (-1) (-1),
   kw ''APPEND'' 5 3 (-1) (-1),
   kw ''ARRAY'' 6 4 (-1) (-1),
   kw ''ASC'' 7 (-1) 2 (-1),
   kw ''AT'' 8 (-1) 3 (-1),
   kw ''ATROOT'' 197 (-1) 93 (-1),
   kw ''AUTH'' 186 (-1) 86 (-1),
   kw ''AUTO'' 199 (-1) (-1) (-1),
   kw ''AVAILABLE'' 203 (-1) (-1) (-1),
   kw ''BACKWARD'' 9 (-1) (-1) (-1),
   kw ''BETWEEN'' 10 (-1) 4 (-1),
   kw ''BLANK'' 11 (-1) (-1) (-1),
   kw ''BOF'' 12 (-1) 5 (-1),
   kw ''BOTTOM'' 13 (-1) (-1) (-1),
   kw ''CANCEL'' 209 (-1) (-1) (-1),
   kw ''CASE'' 14 128 (-1) (-1),
   kw ''CD'' 15 6 (-1) (-1),
   kw ''CDOW'' 16 (-1) 6 (-1),
   kw ''CENTURY'' 17 (-1) (-1) (-1),
   kw ''CHARACTER'' 18 (-1) (-1) (-1),
   kw ''CHDIR'' 19 6 (-1) (-1),
   kw ''CHR'' 20 (-1) 7 (-1),
   kw ''CID'' 204 (-1) 96 (-1),
   kw ''CMONTH'' 22 (-1) 8 (-1),
   kw ''COMMIT'' 207 (-1) (-1) (-1),
   kw ''CONTINUE'' 23 7 (-1) (-1),
   kw ''COPY'' 24 8 (-1) (-1),
   kw ''COUNT'' 25 9 (-1) (-1),
   kw ''CREATE'' 26 10 (-1) (-1),
   kw ''CRYPT'' 27 (-1) 9 (-1),
   kw ''CTOD'' 28 (-1) 10 (-1),
   kw ''DATE'' 29 (-1) 11 27,
   kw ''DATEFMT'' 217 (-1) (-1) 27,
   kw ''DAY'' 30 (-1) 12 (-1),
   kw ''DBF'' 31 (-1) 13 (-1),
   kw ''DEBUG'' 173 (-1) (-1) 6,
   kw ''DECIMAL'' 32 (-1) (-1) 16,
   kw ''DEFAULT'' 33 (-1) (-1) 17,
   kw ''DEFINED'' 188 (-1) 88 (-1),
   kw ''DELETE'' 34 11 (-1) 1,
   kw ''DELETED'' 35 (-1) 14 (-1),
   kw ''DELIMITED'' 36 (-1) (-1) (-1),
   kw ''DENYWRITE'' 210 (-1) (-1) (-1),
   kw ''DFPI'' 216 (-1) (-1) 9,
   kw ''DIR'' 37 12 (-1) (-1),
   kw ''DISKSIZE'' 174 (-1) 81 (-1),
   kw ''DISKSPACE'' 175 (-1) 82 (-1),
   kw ''DISPLAY'' 38 13 (-1) (-1),
   kw ''DO'' 39 129 (-1) (-1),
   kw ''DOW'' 40 (-1) 15 (-1),
   kw ''DTOC'' 41 (-1) 16 (-1),
   kw ''ELSE'' 42 130 (-1) (-1),
   kw ''ELSEIF'' 43 131 (-1) (-1),
   kw ''ENDCASE'' 44 132 (-1) (-1),
   kw ''ENDDO'' 45 133 (-1) (-1),
   kw ''ENDIF'' 46 134 (-1) (-1),
   kw ''EOF'' 47 (-1) 17 (-1),
   kw ''EPOCH'' 170 (-1) 80 26,
   kw ''EXACT'' 48 (-1) (-1) 2,
   kw ''EXCEPT'' 49 (-1) (-1) (-1),
   kw ''EXCLUSIVE'' 50 (-1) (-1) 3,
   kw ''EXECUTE'' 51 14 (-1) (-1),
   kw ''EXIT'' 52 135 (-1) (-1),
   kw ''EXP'' 53 (-1) 18 (-1),
   kw ''EXPORT'' 196 42 (-1) (-1),
   kw ''FAULT'' 185 (-1) 85 (-1),
   kw ''FIELDCNT'' 54 (-1) 19 (-1),
   kw ''FIELDNAME'' 55 (-1) 20 (-1),
   kw ''FIELDNO'' 56 (-1) 21 (-1),
   kw ''FIELDS'' 57 (-1) (-1) (-1),
   kw ''FIELDSIZE'' 58 (-1) 22 (-1),
   kw ''FILE'' 59 (-1) 23 (-1),
   kw ''FILTER'' 60 (-1) 24 18,
   kw ''FINAL'' 61 (-1) (-1) (-1),
   kw ''FIND'' 62 15 (-1) (-1),
   kw ''FLOCK'' 63 (-1) 25 (-1),
   kw ''FOR'' 64 (-1) (-1) (-1),
   kw ''FORM'' 65 (-1) (-1) 19,
   kw ''FORWARD'' 66 (-1) (-1) (-1),
   kw ''FOUND'' 67 (-1) 26 (-1),
   kw ''FROM'' 68 (-1) (-1) (-1),
   kw ''FUNCTION'' 69 136 (-1) (-1),
   kw ''GO'' 70 16 (-1) (-1),
   kw ''HASH'' 183 (-1) 84 (-1),
   kw ''HBX'' 71 (-1) (-1) (-1),
   kw ''HELP'' 195 41 (-1) (-1),
   kw ''HEX'' 180 (-1) (-1) (-1),
   kw ''IF'' 72 137 (-1) (-1),
   kw ''IIF'' 73 (-1) 27 (-1),
   kw ''INDEX'' 74 17 28 20,
   kw ''INLIST'' 75 (-1) 29 (-1),
   kw ''INPUT'' 76 2 (-1) (-1),
   kw ''INT'' 77 (-1) 30 (-1),
   kw ''INTO'' 78 (-1) (-1) (-1),
   kw ''ISALPHA'' 79 (-1) 31 (-1),
   kw ''ISDIGIT'' 80 (-1) 32 (-1),
   kw ''ISEMPTY'' 198 (-1) 94 (-1),
   kw ''ISLOWER'' 81 (-1) 33 (-1),
   kw ''ISNULL'' 182 (-1) 83 (-1),
   kw ''ISUPPER'' 82 (-1) 34 (-1),
   kw ''KEY'' 83 (-1) 35 (-1),
   kw ''LEFT'' 84 (-1) 36 (-1),
   kw ''LEN'' 85 (-1) 37 (-1),
   kw ''LIKE'' 86 (-1) (-1) (-1),
   kw ''LOCATE'' 87 18 38 (-1),
   kw ''LOG'' 88 (-1) 39 (-1)]"

definition keyword_table_2 :: "hbkw list" where
  "keyword_table_2 = [
   kw ''LOG10'' 89 (-1) 40 (-1),
   kw ''LOGIC'' 90 (-1) (-1) (-1),
   kw ''LOOP'' 91 138 (-1) (-1),
   kw ''LOWER'' 92 (-1) 41 (-1),
   kw ''LTRIM'' 93 (-1) 42 (-1),
   kw ''MAX'' 94 (-1) 43 (-1),
   kw ''MD'' 178 19 (-1) (-1),
   kw ''MEMORY'' 95 (-1) (-1) (-1),
   kw ''MIN'' 96 (-1) 44 (-1),
   kw ''MKDIR'' 179 19 (-1) (-1),
   kw ''MKTMP'' 189 (-1) 89 (-1),
   kw ''MOD'' 97 (-1) 45 (-1),
   kw ''MONTH'' 98 (-1) 46 (-1),
   kw ''NDX'' 99 (-1) 47 (-1),
   kw ''NEXT'' 100 (-1) (-1) (-1),
   kw ''NULL'' 211 (-1) (-1) 7,
   kw ''NUMBER'' 101 (-1) (-1) (-1),
   kw ''OCCURS'' 102 (-1) 48 (-1),
   kw ''OFF'' 103 (-1) (-1) (-1),
   kw ''OFFSET'' 202 (-1) (-1) (-1),
   kw ''ON'' 104 (-1) (-1) (-1),
   kw ''ORDER'' 105 (-1) (-1) 21,
   kw ''OTHERWISE'' 106 139 (-1) (-1),
   kw ''OWNER'' 193 (-1) (-1) (-1),
   kw ''PACK'' 107 20 (-1) (-1),
   kw ''PADC'' 108 (-1) 49 (-1),
   kw ''PADL'' 109 (-1) 50 (-1),
   kw ''PADR'' 110 (-1) 51 (-1),
   kw ''PARAMETERS'' 111 21 (-1) (-1),
   kw ''PARENT'' 194 (-1) 92 (-1),
   kw ''PATH'' 112 (-1) 52 22,
   kw ''PEER'' 190 (-1) 90 (-1),
   kw ''PI'' 113 (-1) 53 (-1),
   kw ''PREVIOUS'' 213 (-1) (-1) (-1),
   kw ''PRINT'' 114 1 (-1) (-1),
   kw ''PRIVATE'' 115 22 (-1) (-1),
   kw ''PROCEDURE'' 116 140 (-1) 23,
   kw ''PROPER'' 117 (-1) 54 (-1),
   kw ''PUBLIC'' 118 23 (-1) (-1),
   kw ''QSORT'' 172 (-1) (-1) (-1),
   kw ''QUIT'' 119 24 (-1) (-1),
   kw ''RAND'' 120 (-1) 55 (-1),
   kw ''RANDOM'' 177 (-1) (-1) (-1),
   kw ''RANDSTR'' 171 (-1) 79 (-1),
   kw ''READ'' 121 25 (-1) (-1),
   kw ''READONLY'' 122 (-1) (-1) 8,
   kw ''RECALL'' 123 26 (-1) (-1),
   kw ''RECCOUNT'' 124 (-1) 56 (-1),
   kw ''RECNO'' 125 (-1) 57 (-1),
   kw ''RECORD'' 126 (-1) (-1) (-1),
   kw ''RECSIZE'' 127 (-1) 58 (-1),
   kw ''REINDEX'' 128 27 (-1) (-1),
   kw ''RELATION'' 129 (-1) (-1) 24,
   kw ''RELEASE'' 130 28 (-1) (-1),
   kw ''RENAME'' 181 38 (-1) (-1),
   kw ''REPLACE'' 131 29 (-1) (-1),
   kw ''REPLICATE'' 132 (-1) 59 (-1),
   kw ''RESET'' 21 5 (-1) (-1),
   kw ''RETURN'' 133 141 (-1) (-1),
   kw ''RIGHT'' 134 (-1) 60 (-1),
   kw ''RLOCK'' 135 (-1) 61 (-1),
   kw ''ROLLBACK'' 208 (-1) (-1) (-1),
   kw ''ROUND'' 136 (-1) 62 (-1),
   kw ''RTRIM'' 137 (-1) 63 (-1),
   kw ''SDF'' 138 (-1) (-1) (-1),
   kw ''SEEK'' 139 30 (-1) (-1),
   kw ''SELECT'' 140 31 (-1) (-1),
   kw ''SERIAL'' 141 45 64 (-1),
   kw ''SET'' 142 32 (-1) (-1),
   kw ''SHARED'' 215 (-1) (-1) (-1),
   kw ''SKIP'' 143 33 (-1) (-1),
   kw ''SLEEP'' 201 43 (-1) (-1),
   kw ''SOUNDEX'' 144 (-1) 65 (-1),
   kw ''SPACE'' 145 (-1) 66 (-1),
   kw ''SPELLNUM'' 146 (-1) 67 (-1),
   kw ''SQRT'' 147 (-1) 68 (-1),
   kw ''STAMP'' 184 (-1) (-1) (-1),
   kw ''START'' 206 (-1) (-1) (-1),
   kw ''STATUS'' 212 (-1) (-1) (-1),
   kw ''STORE'' 148 34 (-1) (-1),
   kw ''STR'' 149 (-1) 69 (-1),
   kw ''STRUCTURE'' 150 (-1) (-1) (-1),
   kw ''STUFF'' 151 (-1) 70 (-1),
   kw ''SU'' 192 39 (-1) (-1),
   kw ''SUBSTR'' 152 (-1) 71 (-1),
   kw ''SYSTEM'' 153 (-1) 72 (-1),
   kw ''TALK'' 154 (-1) (-1) 4,
   kw ''TIME'' 155 (-1) 73 (-1),
   kw ''TIMESTR'' 187 (-1) 87 (-1),
   kw ''TO'' 156 (-1) (-1) (-1),
   kw ''TOP'' 157 (-1) (-1) (-1),
   kw ''TRANSACTION'' 205 44 (-1) (-1),
   kw ''TRIM'' 158 (-1) 63 (-1),
   kw ''TTOC'' 159 (-1) 74 (-1),
   kw ''TYPE'' 160 (-1) 75 (-1),
   kw ''UNIQUE'' 161 (-1) (-1) 5,
   kw ''UNLOCK'' 162 35 (-1) (-1),
   kw ''UPDATE'' 176 37 (-1) (-1),
   kw ''UPPER'' 163 (-1) 76 (-1),
   kw ''USE'' 164 36 (-1) (-1),
   kw ''USING'' 214 (-1) (-1) (-1),
   kw ''VAL'' 165 (-1) 77 (-1),
   kw ''WHILE'' 166 142 (-1) (-1),
   kw ''WHOAMI'' 191 (-1) 91 (-1),
   kw ''WIDTH'' 167 (-1) (-1) 25,
   kw ''WITH'' 168 (-1) (-1) (-1),
   kw ''WOK'' 200 (-1) 95 (-1),
   kw ''YEAR'' 169 (-1) 78 (-1)]"

definition keyword_table :: "hbkw list" where
  "keyword_table = keyword_table_1 @ keyword_table_2"

definition KWTABSZ :: int where
  "KWTABSZ = 217"

section \<open>Binary search\<close>

definition kw_match :: "string \<Rightarrow> nat \<Rightarrow> int \<Rightarrow> int" where
  "kw_match tp len i = namecmp (kname (keyword_table ! nat i)) tp len KEYWORD"

fun first_match :: "string \<Rightarrow> nat \<Rightarrow> nat \<Rightarrow> nat" where
  \<comment> \<open>for (i=mid; i; --i) if (namecmp(keywords[i-1].name, ..)) break\<close>
  "first_match tp len 0 = 0"
| "first_match tp len (Suc i) =
     (if kw_match tp len (int i) \<noteq> 0 then Suc i else first_match tp len i)"

lemma midpoint_between:
  "a \<le> b \<Longrightarrow> a \<le> cquo (a + b) 2 \<and> cquo (a + b) 2 \<le> b"
  by (cases "0 \<le> a + b") (auto simp: cquo_neg)

function kw_bin_srch :: "string \<Rightarrow> nat \<Rightarrow> int \<Rightarrow> int \<Rightarrow> int" where
  "kw_bin_srch tp len start end =
     (if len = 0 \<or> end < start then -1
      else
        let mid = cquo (start + end) 2; i = kw_match tp len mid in
        if i = 0 then int (first_match tp len (nat mid))
        else if 0 < i then kw_bin_srch tp len start (mid - 1)
        else kw_bin_srch tp len (mid + 1) end)"
  by pat_completeness auto
termination
  by (relation "measure (\<lambda>(tp, len, start, end). nat (end - start + 1))")
     (use midpoint_between in force)+

declare kw_bin_srch.simps [simp del]

definition KW_UNKNOWN :: int where
  "KW_UNKNOWN = 0x0fff"

definition kw_search :: "string \<Rightarrow> nat \<Rightarrow> int" where
  "kw_search tp len =
     (let i = kw_bin_srch tp len 0 (KWTABSZ - 1) in
      if i < 0 then KW_UNKNOWN else kw_val (keyword_table ! nat i))"

definition function_id :: "string \<Rightarrow> nat \<Rightarrow> int" where
  "function_id tp len =
     (let i = kw_bin_srch tp len 0 (KWTABSZ - 1) in
      if i < 0 then -1 else fcn_id (keyword_table ! nat i))"

section \<open>Searching a table that is ordered for the comparison\<close>

text \<open>What the search needs of the comparison: along the table it is first negative, then zero,
  then positive.\<close>

locale ordered_table =
  fixes compare :: "int \<Rightarrow> int" and size :: int
  assumes neg_down: "0 \<le> i \<Longrightarrow> i \<le> j \<Longrightarrow> j < size \<Longrightarrow> compare j < 0 \<Longrightarrow> compare i < 0"
    and pos_up: "0 \<le> i \<Longrightarrow> i \<le> j \<Longrightarrow> j < size \<Longrightarrow> 0 < compare i \<Longrightarrow> 0 < compare j"
begin

lemma zero_between:
  assumes "0 \<le> i" and "i \<le> j" and "j \<le> k" and "k < size" and "compare i = 0" and "compare k = 0"
  shows "compare j = 0"
  using assms neg_down [of i j] pos_up [of j k] by force

lemma no_zero_above: "0 \<le> i \<Longrightarrow> i < size \<Longrightarrow> 0 < compare i \<Longrightarrow> i \<le> j \<Longrightarrow> j < size \<Longrightarrow> compare j \<noteq> 0"
  using pos_up [of i j] by force

lemma no_zero_below: "0 \<le> j \<Longrightarrow> i < size \<Longrightarrow> compare i < 0 \<Longrightarrow> j \<le> i \<Longrightarrow> compare j \<noteq> 0"
  using neg_down [of j i] by force

end

text \<open>The comparison of namecmp, for the types without wildcards, is a lexicographic comparison
  of codes in which the end of a name counts as NUL.\<close>

definition codes :: "nat \<Rightarrow> string \<Rightarrow> int list" where
  "codes n s = take n (map (\<lambda>c. schar (to_upper c)) s @ replicate n 0)"

lemma codes_0 [simp]: "codes 0 s = []"
  by (simp add: codes_def)

lemma to_upper_NUL [simp]: "to_upper (CHR 0x00) = CHR 0x00"
  by code_simp

lemma schar_NUL [simp]: "schar (CHR 0x00) = 0"
  by code_simp

lemma codes_Suc [simp]: "codes (Suc n) s = schar (to_upper (chr0 s)) # codes n (tl s)"
  by (cases s) (simp_all add: codes_def chr0_def replicate_append_same [symmetric])

lemma codes_take: "take n (codes (Suc n) s) = codes n s"
  by (induction n arbitrary: s) simp_all

definition plain :: "string \<Rightarrow> bool" where
  "plain s \<longleftrightarrow> CHR ''*'' \<notin> set s \<and> CHR ''?'' \<notin> set s"

lemma plain_tl [simp]: "plain s \<Longrightarrow> plain (tl s)"
  by (cases s) (auto simp: plain_def)

lemma plain_chr0: "plain s \<Longrightarrow> chr0 s \<noteq> CHR ''*'' \<and> chr0 s \<noteq> CHR ''?''"
  by (cases s) (auto simp: plain_def chr0_def)

lemma namecmp_loop_keyword:
  "plain src \<Longrightarrow>
     (namecmp_loop KEYWORD n src tgt < 0 \<longleftrightarrow> codes n src < codes n tgt) \<and>
     (namecmp_loop KEYWORD n src tgt = 0 \<longleftrightarrow> codes n src = codes n tgt)"
proof (induction n arbitrary: src tgt)
  case 0
  show ?case by simp
next
  case (Suc n)
  from Suc.IH [of "tl src" "tl tgt"] Suc.prems plain_chr0 [OF Suc.prems] show ?case
    by (auto simp: Let_def)
qed

lemma namecmp_loop_vname:
  "plain src \<Longrightarrow> \<forall>c \<in> set src. 0 < schar (to_upper c) \<and> 0 < schar c \<Longrightarrow>
     (namecmp_loop ID_VNAME n src tgt < 0 \<longleftrightarrow> codes (Suc n) src < codes n tgt @ [0]) \<and>
     (namecmp_loop ID_VNAME n src tgt = 0 \<longleftrightarrow> codes (Suc n) src = codes n tgt @ [0])"
proof (induction n arbitrary: src tgt)
  case 0
  then show ?case by (cases src) (auto simp: chr0_def)
next
  case (Suc n)
  have "\<forall>c \<in> set (tl src). 0 < schar (to_upper c) \<and> 0 < schar c"
    using Suc.prems(2) by (cases src) auto
  with Suc.IH [of "tl src" "tl tgt"] Suc.prems plain_chr0 [OF Suc.prems(1)] show ?case
    by (auto simp: Let_def)
qed

lemma codes_mono:
  "map (\<lambda>c. schar (to_upper c)) s \<le> map (\<lambda>c. schar (to_upper c)) t \<Longrightarrow>
   \<forall>c \<in> set t. 0 < schar (to_upper c) \<Longrightarrow> codes n s \<le> codes n t"
proof (induction n arbitrary: s t)
  case 0
  show ?case by simp
next
  case (Suc n)
  show ?case
  proof (cases t)
    case Nil
    with Suc.prems show ?thesis by (simp add: codes_def)
  next
    case (Cons b t')
    note t = this
    show ?thesis
    proof (cases s)
      case Nil
      then show ?thesis using Suc.prems t by (simp add: chr0_def less_le)
    next
      case (Cons a s')
      then show ?thesis using Suc.prems Suc.IH [of s' t'] t by (auto simp: chr0_def)
    qed
  qed
qed

section \<open>The keyword table is ordered\<close>

abbreviation upcodes :: "string \<Rightarrow> int list" where
  "upcodes s \<equiv> map (\<lambda>c. schar (to_upper c)) s"

definition good_name :: "string \<Rightarrow> bool" where
  "good_name s \<longleftrightarrow> list_all (\<lambda>c. c \<noteq> CHR ''*'' \<and> c \<noteq> CHR ''?''
     \<and> 0 < schar c \<and> 0 < schar (to_upper c)) s"

lemma keyword_table_good: "list_all (\<lambda>k. good_name (kname k)) keyword_table"
  by code_simp

lemma keyword_table_length: "int (length keyword_table) = KWTABSZ"
  by code_simp

fun ordered_names :: "string list \<Rightarrow> bool" where
  "ordered_names (a # b # xs) \<longleftrightarrow> upcodes a \<le> upcodes b \<and> ordered_names (b # xs)"
| "ordered_names _ \<longleftrightarrow> True"

lemma sorted_ordered_names: "ordered_names ns \<Longrightarrow> sorted (map upcodes ns)"
  by (induction ns rule: ordered_names.induct) (auto intro: order.trans)

lemma keyword_table_ordered: "ordered_names (map kname keyword_table)"
  apply (simp add: keyword_table_def keyword_table_1_def keyword_table_2_def kw_def)
  apply code_simp
  done

lemma keyword_table_sorted: "sorted (map (\<lambda>k. upcodes (kname k)) keyword_table)"
  using sorted_ordered_names [OF keyword_table_ordered] by (simp add: o_def)

lemma good_nameD:
  assumes "good_name s"
  shows "plain s" and "\<forall>c \<in> set s. 0 < schar (to_upper c) \<and> 0 < schar c"
  using assms by (auto simp: good_name_def plain_def list_all_iff)

definition name_vec :: "nat \<Rightarrow> string \<Rightarrow> int list" where
  "name_vec len s = codes (if len < 4 then Suc len else len) s"

definition token_vec :: "nat \<Rightarrow> string \<Rightarrow> int list" where
  "token_vec len tp = (if len < 4 then codes len tp @ [0] else codes len tp)"

lemma namecmp_keyword_vec:
  assumes "good_name s"
  shows "namecmp s tp len KEYWORD < 0 \<longleftrightarrow> name_vec len s < token_vec len tp"
    and "namecmp s tp len KEYWORD = 0 \<longleftrightarrow> name_vec len s = token_vec len tp"
  using namecmp_loop_keyword [of s len tp] namecmp_loop_vname [of s len tp] good_nameD [OF assms]
  by (simp_all add: namecmp_def name_vec_def token_vec_def)

lemma name_vec_mono:
  assumes "0 \<le> i" and "i \<le> j" and "j < KWTABSZ"
  shows "name_vec len (kname (keyword_table ! nat i)) \<le> name_vec len (kname (keyword_table ! nat j))"
proof -
  have ij: "nat i \<le> nat j" "nat j < length keyword_table"
    using assms keyword_table_length by simp_all
  then have "upcodes (kname (keyword_table ! nat i)) \<le> upcodes (kname (keyword_table ! nat j))"
    using sorted_nth_mono [OF keyword_table_sorted, of "nat i" "nat j"] by simp
  moreover have "good_name (kname (keyword_table ! nat j))"
    using keyword_table_good ij by (simp add: list_all_length)
  ultimately show ?thesis
    unfolding name_vec_def by (intro codes_mono) (auto dest: good_nameD)
qed

lemma table_good_name: "0 \<le> i \<Longrightarrow> i < KWTABSZ \<Longrightarrow> good_name (kname (keyword_table ! nat i))"
  using keyword_table_good keyword_table_length by (simp add: list_all_length)

interpretation kwt: ordered_table "kw_match tp len" KWTABSZ for tp len
proof
  fix i j :: int
  assume ij: "0 \<le> i" "i \<le> j" "j < KWTABSZ"
  note g = namecmp_keyword_vec [OF table_good_name, of _ tp len]
  have le: "name_vec len (kname (keyword_table ! nat i)) \<le> name_vec len (kname (keyword_table ! nat j))"
    by (rule name_vec_mono [OF ij])
  show "kw_match tp len i < 0" if "kw_match tp len j < 0"
    using that g(1) [of i] g(1) [of j] ij le unfolding kw_match_def by fastforce
  show "0 < kw_match tp len j" if "0 < kw_match tp len i"
  proof -
    have "token_vec len tp < name_vec len (kname (keyword_table ! nat i))"
      using that g [of i] ij unfolding kw_match_def
      by (metis less_imp_not_less linorder_cases order.strict_trans1 order_less_irrefl)
    then have "token_vec len tp < name_vec len (kname (keyword_table ! nat j))"
      using le by (rule order.strict_trans2)
    then show ?thesis using g [of j] ij unfolding kw_match_def
      by (metis less_imp_not_less linorder_cases order.trans order_less_irrefl)
  qed
qed

section \<open>Properties\<close>

lemma first_match_props:
  "kw_match tp len (int n) = 0 \<Longrightarrow> first_match tp len n \<le> n
     \<and> kw_match tp len (int (first_match tp len n)) = 0
     \<and> (first_match tp len n = 0 \<or> kw_match tp len (int (first_match tp len n) - 1) \<noteq> 0)"
  by (induction n) auto

definition search_result :: "string \<Rightarrow> nat \<Rightarrow> int \<Rightarrow> bool" where
  \<comment> \<open>r is the first matching entry, or -1 when there is none\<close>
  "search_result tp len r \<longleftrightarrow>
     (if len \<noteq> 0 \<and> (\<exists>i \<in> {0..<KWTABSZ}. kw_match tp len i = 0)
      then 0 \<le> r \<and> r < KWTABSZ \<and> kw_match tp len r = 0 \<and> (\<forall>i \<in> {0..<r}. kw_match tp len i \<noteq> 0)
      else r = -1)"

lemma first_match_result:
  assumes "0 \<le> m" and "m < KWTABSZ" and "kw_match tp len m = 0" and "len \<noteq> 0"
  shows "search_result tp len (int (first_match tp len (nat m)))"
proof -
  let ?f = "int (first_match tp len (nat m))"
  have f: "?f \<le> m" "kw_match tp len ?f = 0" "?f = 0 \<or> kw_match tp len (?f - 1) \<noteq> 0"
    using first_match_props [of tp len "nat m"] assms by auto
  have "kw_match tp len i \<noteq> 0" if "0 \<le> i" "i < ?f" for i
    using f that kwt.zero_between [of i "?f - 1" ?f tp len] assms by force
  then show ?thesis using f assms unfolding search_result_def by auto
qed

lemma kw_bin_srch_result:
  assumes "0 \<le> start" and "end < KWTABSZ" and "start \<le> end + 1"
    and "\<forall>i \<in> {0..<start}. kw_match tp len i \<noteq> 0"
    and "\<forall>i \<in> {end<..<KWTABSZ}. kw_match tp len i \<noteq> 0"
  shows "search_result tp len (kw_bin_srch tp len start end)"
  using assms
proof (induction tp len start "end" rule: kw_bin_srch.induct)
  case (1 tp len start "end")
  show ?case
  proof (cases "len = 0 \<or> end < start")
    case True
    have "len = 0 \<or> \<not> (\<exists>i \<in> {0..<KWTABSZ}. kw_match tp len i = 0)"
      using True "1.prems" by force
    with True show ?thesis by (auto simp: kw_bin_srch.simps [of tp len start] search_result_def)
  next
    case False
    let ?mid = "cquo (start + end) 2"
    let ?c = "kw_match tp len ?mid"
    have mid: "start \<le> ?mid" "?mid \<le> end" using midpoint_between [of start "end"] False by auto
    consider "?c = 0" | "0 < ?c" | "?c < 0" by linarith
    then show ?thesis
    proof cases
      case 1
      then show ?thesis using first_match_result [of ?mid tp len] mid False "1.prems"
        by (simp add: kw_bin_srch.simps [of tp len start])
    next
      case 2
      have "\<forall>i \<in> {?mid - 1<..<KWTABSZ}. kw_match tp len i \<noteq> 0"
        using 2 mid "1.prems" kwt.no_zero_above [of ?mid tp len] by force
      then have "search_result tp len (kw_bin_srch tp len start (?mid - 1))"
        using "1.IH"(1) [OF False refl refl] 2 mid "1.prems" by simp
      with 2 False show ?thesis by (simp add: kw_bin_srch.simps [of tp len start "end"] Let_def)
    next
      case 3
      have "\<forall>i \<in> {0..<?mid + 1}. kw_match tp len i \<noteq> 0"
        using 3 mid "1.prems" kwt.no_zero_below [of _ ?mid tp len] by force
      then have "search_result tp len (kw_bin_srch tp len (?mid + 1) end)"
        using "1.IH"(2) [OF False refl refl] 3 mid "1.prems" by simp
      with 3 False show ?thesis by (simp add: kw_bin_srch.simps [of tp len start "end"] Let_def)
    qed
  qed
qed

text \<open>C18: the binary search over the keyword table finds the first (shortest) keyword that the
  token names or abbreviates, and returns -1 exactly when there is none, for every token.\<close>

theorem kw_bin_srch_correct:
  "search_result tp len (kw_bin_srch tp len 0 (KWTABSZ - 1))"
  by (rule kw_bin_srch_result) (simp_all add: KWTABSZ_def)

text \<open>A token matches a keyword when it is the keyword in any letter case or, from four
  characters on, a prefix of it.\<close>

theorem keyword_match_iff:
  assumes "good_name s" and "\<forall>c \<in> set tok. schar (to_upper c) \<noteq> 0"
  shows "namecmp s tok (length tok) KEYWORD = 0 \<longleftrightarrow>
           map to_upper (take (length tok) s) = map to_upper tok
           \<and> (length tok < 4 \<longrightarrow> length s = length tok)"
proof -
  let ?n = "length tok"
  have tokc: "codes ?n tok = upcodes tok" by (simp add: codes_def)
  have inj: "upcodes a = upcodes b \<longleftrightarrow> map to_upper a = map to_upper b" for a b
    using inj_map_eq_map [of schar "map to_upper a" "map to_upper b"]
    by (simp add: inj_on_def schar_inj o_def)
  have pos: "\<forall>c \<in> set s. 0 < schar (to_upper c)" using good_nameD [OF assms(1)] by blast
  have long: "codes ?n s = upcodes tok \<longleftrightarrow> upcodes (take ?n s) = upcodes tok"
  proof (cases "?n \<le> length s")
    case True
    then show ?thesis by (simp add: codes_def take_map)
  next
    case False
    then have "codes ?n s = upcodes s @ replicate (?n - length s) 0" by (simp add: codes_def)
    moreover have "0 \<notin> set (upcodes tok)" using assms(2) by auto
    moreover have "0 \<in> set (upcodes s @ replicate (?n - length s) 0)" using False by simp
    ultimately have "codes ?n s \<noteq> upcodes tok" by metis
    moreover have "upcodes (take ?n s) \<noteq> upcodes tok" using False
      by (metis length_map length_take min.absorb_iff2 nat_le_linear)
    ultimately show ?thesis by simp
  qed
  have short: "codes (Suc ?n) s = upcodes tok @ [0] \<longleftrightarrow> upcodes s = upcodes tok"
  proof
    assume h: "codes (Suc ?n) s = upcodes tok @ [0]"
    have "\<not> ?n < length s"
    proof
      assume "?n < length s"
      then have "codes (Suc ?n) s ! ?n = schar (to_upper (s ! ?n))" by (simp add: codes_def nth_append)
      moreover have "(upcodes tok @ [0]) ! ?n = 0" by (simp add: nth_append)
      ultimately show False using h pos \<open>?n < length s\<close> by (metis less_irrefl nth_mem)
    qed
    moreover from this have "codes ?n s = upcodes tok"
      using arg_cong [OF h, of "take ?n"] unfolding codes_take by simp
    ultimately show "upcodes s = upcodes tok" using long by simp
  next
    assume h: "upcodes s = upcodes tok"
    then have "length s = ?n" by (metis length_map)
    with h show "codes (Suc ?n) s = upcodes tok @ [0]" by (simp add: codes_def)
  qed
  show ?thesis
  proof (cases "?n < 4")
    case True
    have "namecmp s tok ?n KEYWORD = 0 \<longleftrightarrow> map to_upper s = map to_upper tok"
      using namecmp_keyword_vec(2) [OF assms(1), of tok ?n] short True
      unfolding name_vec_def token_vec_def tokc inj by simp
    also have "\<dots> \<longleftrightarrow> map to_upper (take ?n s) = map to_upper tok \<and> length s = ?n"
      by (metis map_eq_imp_length_eq order_refl take_all)
    finally show ?thesis using True by simp
  next
    case False
    then show ?thesis
      using namecmp_keyword_vec(2) [OF assms(1), of tok ?n] long
      unfolding name_vec_def token_vec_def tokc inj by simp
  qed
qed

theorem keyword_match_iff_witness:
  "namecmp ''DELETED'' ''dele'' 4 KEYWORD = 0 \<and> namecmp ''DELETED'' ''del'' 3 KEYWORD \<noteq> 0"
proof -
  have g: "good_name ''DELETED''" by code_simp
  have "good_name ''dele''" and "good_name ''del''" by code_simp+
  then have t: "\<forall>c \<in> set ''dele''. schar (to_upper c) \<noteq> 0" "\<forall>c \<in> set ''del''. schar (to_upper c) \<noteq> 0"
    using good_nameD(2) by fastforce+
  have "map to_upper (take 4 ''DELETED'') = map to_upper ''dele''" by code_simp
  then show ?thesis
    using keyword_match_iff [OF g t(1)] keyword_match_iff [OF g t(2)] by (simp add: numeral_eq_Suc)
qed

text \<open>A wildcard pattern whose * is followed by a character that the name does not have
  matches the name all the same: RELEASE ALL LIKE A*Z releases a variable ABC.\<close>

theorem wildcard_star_tail_ignored:
  "namecmp ''ABC'' ''A*Z'' 3 ID_PARTIAL = 0"
  by code_simp

end
