(* ===== verification/Values.thy ===== *)
theory Values
  imports C_Double C_Text Dates
begin

text \<open>
  Values and the expression stack of the interpreter: the tagged union HBVAL and number_t of
  include/hb.h, the stack operations and the operators of server/hb/int.c (lines 78-591), istrue and
  isset of server/hb/misc.c. A stack is the list of its values, top first; the bytes the values
  take are counted against STACKSZ as stack_chk_set does. A long is a 64-bit word with wrap-around
  arithmetic, which is what the overflow tests of the code rely on.
\<close>

section \<open>Values\<close>

text \<open>number_t: deci is (BYTE)-1 for NULL, REAL for a double, otherwise the number of decimals.\<close>

datatype number = NNull | NReal dbl | NInt nat "64 word"

text \<open>HBVAL: a value of length 0 is NULL, except that a string of length 0 is also the empty
  string. The remaining types (ADDR, ARRAYTYP, MEMO, BLOB, UNDEF) keep their type and bytes.\<close>

datatype hbval =
    VLogic "bool option"
  | VNum number
  | VDate "32 word option"
  | VChar string
  | VOther nat "8 word list"

abbreviation (input) LOGIC :: nat where
  "LOGIC \<equiv> 0x01"
abbreviation (input) NUMBER :: nat where
  "NUMBER \<equiv> 0x02"
abbreviation (input) DATE :: nat where
  "DATE \<equiv> 0x03"
abbreviation (input) CHARCTR :: nat where
  "CHARCTR \<equiv> 0x04"
abbreviation (input) ADDR :: nat where
  "ADDR \<equiv> 0x08"
abbreviation (input) ARRAYTYP :: nat where
  "ARRAYTYP \<equiv> 0x09"
abbreviation (input) UNDEF :: nat where
  "UNDEF \<equiv> 0x0f"

abbreviation (input) DECI_MAX :: nat where
  "DECI_MAX \<equiv> 18"
abbreviation (input) MAXSTRLEN :: nat where
  "MAXSTRLEN \<equiv> 2046"
abbreviation (input) STACKSZ :: nat where
  "STACKSZ \<equiv> 65536"

fun val_typ :: "hbval \<Rightarrow> nat" where
  "val_typ (VLogic _) = LOGIC"
| "val_typ (VNum _) = NUMBER"
| "val_typ (VDate _) = DATE"
| "val_typ (VChar _) = CHARCTR"
| "val_typ (VOther t _) = t"

fun valspec_len :: "hbval \<Rightarrow> nat" where
  \<comment> \<open>the 12-bit length; for a number it covers the 6 bits of len and the 6 bits of deci\<close>
  "valspec_len (VLogic b) = (if b = None then 0 else 1)"
| "valspec_len (VNum NNull) = 0"
| "valspec_len (VNum (NReal _)) = 8 + 64 * 0x3f"
| "valspec_len (VNum (NInt d _)) = 8 + 64 * (d mod 64)"
| "valspec_len (VDate d) = (if d = None then 0 else 4)"
| "valspec_len (VChar s) = length s"
| "valspec_len (VOther _ bs) = length bs"

fun val_size :: "hbval \<Rightarrow> nat" where
  "val_size v =
     (if valspec_len v \<noteq> 0 then
        if val_typ v = 0 then 2
        else if val_typ v = LOGIC then 3
        else if val_typ v = NUMBER then valspec_len v mod 64 + 2
        else if val_typ v = DATE then 4 + 2
        else valspec_len v + 2
      else 2)"

fun val_is_real :: "hbval \<Rightarrow> bool" where
  "val_is_real (VNum (NReal _)) = True"
| "val_is_real _ = False"

fun val_is_integer :: "hbval \<Rightarrow> bool" where
  \<comment> \<open>asked of numbers only; the header of a NULL number has deci 0\<close>
  "val_is_integer (VNum NNull) = True"
| "val_is_integer (VNum (NInt d _)) = (d mod 64 = 0)"
| "val_is_integer _ = False"

section \<open>Settings\<close>

text \<open>The globals that expressions read: the SET ON/OFF flags, whether a filter, a procedure file
  and a form are set, the restricted mode, width and decimals, epoch and date format. pow and the
  functions from exp_c on are those of the C library; these return the result and whether errno
  or a floating point exception reports an error.\<close>

record env =
  onoff_flags :: "nat \<Rightarrow> nat"
  has_filter :: bool
  has_proc :: bool
  has_form :: bool
  restricted :: bool
  nwidth :: int
  ndeci :: int
  epoch :: int
  datespec :: string
  pow :: "dbl \<Rightarrow> dbl \<Rightarrow> dbl"
  exp_c :: "dbl \<Rightarrow> dbl \<times> bool"
  log_c :: "dbl \<Rightarrow> dbl \<times> bool"
  log10_c :: "dbl \<Rightarrow> dbl \<times> bool"
  sqrt_c :: "dbl \<Rightarrow> dbl \<times> bool"
  strtod_c :: "string \<Rightarrow> dbl \<times> bool"

abbreviation (input) EXACT_ON :: nat where
  "EXACT_ON \<equiv> 0x02"
abbreviation (input) NULL_ON :: nat where
  "NULL_ON \<equiv> 0x07"
abbreviation (input) DFPI_ON :: nat where
  "DFPI_ON \<equiv> 0x09"

definition isset :: "env \<Rightarrow> nat \<Rightarrow> bool" where
  "isset g parm =
     (if parm < 0x10 then onoff_flags g parm \<noteq> 0
      else if parm = 0x12 then has_filter g
      else if parm = 0x17 then has_proc g
      else if parm = 0x13 then has_form g
      else False)"

section \<open>The stack\<close>

type_synonym 'a sm = "(hbval list, 'a) cm"

definition stk_bytes :: "hbval list \<Rightarrow> nat" where
  "stk_bytes s = sum_list (map val_size s)"

definition stack_peek :: "env \<Rightarrow> nat \<Rightarrow> hbval option sm" where
  \<comment> \<open>None is the NULL pointer\<close>
  "stack_peek g level = (\<lambda>s.
     if length s < level \<and> \<not> restricted g then (Inl (Sys STACK_FAULT), s)
     else (Inr (if level < length s then Some (s ! level) else None), s))"

definition deref :: "'a option \<Rightarrow> ('s, 'a) cm" where
  "deref p = (case p of Some v \<Rightarrow> ret v | None \<Rightarrow> raise Undefined)"

definition push :: "hbval \<Rightarrow> unit sm" where
  \<comment> \<open>stack_chk_set of the size of the value; exp_stack is stack_limit + STACKSZ - 1\<close>
  "push v = (\<lambda>s. if STACKSZ - 1 < stk_bytes s + val_size v then (Inl (Sys STACK_OVERFLOW), s)
                 else (Inr (), v # s))"

definition typechk :: "nat \<Rightarrow> unit sm" where
  "typechk typ = (\<lambda>s. case s of
       [] \<Rightarrow> (Inl Undefined, s)
     | v # _ \<Rightarrow> (if val_typ v \<noteq> typ then Inl (Syn INVALID_TYPE) else Inr (), s))"

definition pop_any :: "hbval sm" where
  \<comment> \<open>pop_stack(DONTCARE). topstack has moved beyond exp_stack before STACK_UNDERFLOW is raised, which a list
    cannot show: after this error nothing may be said of the stack\<close>
  "pop_any = (\<lambda>s. case s of [] \<Rightarrow> (Inl (Sys STACK_UNDERFLOW), s) | v # s' \<Rightarrow> (Inr v, s'))"

definition pop_stack :: "nat \<Rightarrow> hbval sm" where
  "pop_stack typ = bnd (typechk typ) (\<lambda>_. pop_any)"

definition push_string :: "string \<Rightarrow> unit sm" where
  "push_string s = push (VChar s)"

definition push_logic :: "int \<Rightarrow> unit sm" where
  "push_logic tf = push (VLogic (if tf < 0 then None else Some (tf \<noteq> 0)))"

definition push_int :: "64 word \<Rightarrow> unit sm" where
  "push_int n = push (VNum (NInt 0 n))"

definition push_number :: "number \<Rightarrow> unit sm" where
  "push_number num = push (VNum num)"

definition push_real :: "dbl \<Rightarrow> unit sm" where
  "push_real r =
     (if deq (i2d (d2long r)) r then push_number (NInt 0 (word_of_int (d2long r)))
      else push (VNum (NReal r)))"

definition push_date :: "32 word \<Rightarrow> unit sm" where
  "push_date d = push (VDate (if d = - 1 then None else Some d))"

definition pop_date :: "number sm" where
  "pop_date = bnd (pop_stack DATE) (\<lambda>v. case v of
       VDate None \<Rightarrow> ret NNull
     | VDate (Some d) \<Rightarrow> ret (NInt 0 (ucast d))
     | _ \<Rightarrow> raise Undefined)"

primrec power10 :: "nat \<Rightarrow> 64 word" where
  "power10 0 = 1"
| "power10 (Suc k) = 10 * power10 k"

definition num_dbl :: "number \<Rightarrow> dbl" where
  \<comment> \<open>num_is_real(num)? num.r : (double)num.n / power10(num.deci)\<close>
  "num_dbl num = (case num of
       NReal r \<Rightarrow> r
     | NInt d n \<Rightarrow> ddiv (i2d (sint n)) (i2d (sint (power10 d)))
     | NNull \<Rightarrow> NaN)"

definition pop_real :: "dbl sm" where
  \<comment> \<open>of a NULL number the code reads eight bytes that are not part of the value\<close>
  "pop_real = bnd (pop_stack NUMBER) (\<lambda>v. case v of
       VNum (NReal r) \<Rightarrow> ret r
     | VNum (NInt d n) \<Rightarrow> ret (num_dbl (NInt d n))
     | _ \<Rightarrow> raise Undefined)"

definition pop_number :: "number sm" where
  "pop_number = bnd (pop_stack NUMBER) (\<lambda>v. case v of VNum num \<Rightarrow> ret num | _ \<Rightarrow> raise Undefined)"

definition pop_logic :: "int sm" where
  "pop_logic = bnd (pop_stack LOGIC) (\<lambda>v. case v of
       VLogic None \<Rightarrow> ret (- 1)
     | VLogic (Some b) \<Rightarrow> ret (if b then 1 else 0)
     | _ \<Rightarrow> raise Undefined)"

definition istrue :: "bool sm" where
  "istrue = bnd (pop_stack LOGIC) (\<lambda>v. case v of
       VLogic None \<Rightarrow> ret False
     | VLogic (Some b) \<Rightarrow> ret b
     | _ \<Rightarrow> raise Undefined)"

definition to_int32 :: "64 word \<Rightarrow> int" where
  \<comment> \<open>(int)n\<close>
  "to_int32 n = sint (ucast n :: 32 word)"

definition pop_int :: "int \<Rightarrow> int \<Rightarrow> int sm" where
  "pop_int low high = bnd pop_number (\<lambda>num. case num of
       NInt d n \<Rightarrow>
         if d \<noteq> 0 then raise (Syn INVALID_VALUE)
         else let i = to_int32 n in
           if i < low \<or> (0 \<le> high \<and> high < i) then raise (Syn INVALID_VALUE) else ret i
     | _ \<Rightarrow> raise (Syn INVALID_VALUE))"

definition pop_long :: "64 word sm" where
  "pop_long = bnd pop_number (\<lambda>num. case num of
       NInt d n \<Rightarrow> if d \<noteq> 0 then raise (Syn INVALID_VALUE) else ret n
     | _ \<Rightarrow> raise (Syn INVALID_VALUE))"

section \<open>Operators\<close>

abbreviation (input) TAND :: nat where
  "TAND \<equiv> 0x11"
abbreviation (input) TOR :: nat where
  "TOR \<equiv> 0x12"
abbreviation (input) TNOT :: nat where
  "TNOT \<equiv> 0x13"
abbreviation (input) TEQUAL :: nat where
  "TEQUAL \<equiv> 0x21"
abbreviation (input) TGTREQU :: nat where
  "TGTREQU \<equiv> 0x22"
abbreviation (input) TGREATER :: nat where
  "TGREATER \<equiv> 0x23"
abbreviation (input) TLESSEQU :: nat where
  "TLESSEQU \<equiv> 0x24"
abbreviation (input) TNEQU :: nat where
  "TNEQU \<equiv> 0x25"
abbreviation (input) TLESS :: nat where
  "TLESS \<equiv> 0x26"
abbreviation (input) TQUESTN :: nat where
  "TQUESTN \<equiv> 0x27"
abbreviation (input) TPLUS :: nat where
  "TPLUS \<equiv> 0x31"
abbreviation (input) TMINUS :: nat where
  "TMINUS \<equiv> 0x32"
abbreviation (input) TMULT :: nat where
  "TMULT \<equiv> 0x41"
abbreviation (input) TDIV :: nat where
  "TDIV \<equiv> 0x42"
abbreviation (input) TPOWER :: nat where
  "TPOWER \<equiv> 0x50"

definition is_relop :: "nat \<Rightarrow> bool" where
  \<comment> \<open>(0xf0 & op) == REL_OP, of an operator code below 0x1000\<close>
  "is_relop op \<longleftrightarrow> op div 16 mod 16 = 2"

definition is_addop :: "nat \<Rightarrow> bool" where
  "is_addop op \<longleftrightarrow> op div 16 mod 16 = 3"

definition is_mulop :: "nat \<Rightarrow> bool" where
  "is_mulop op \<longleftrightarrow> op div 16 mod 16 = 4"

definition uop :: "nat \<Rightarrow> unit sm" where
  "uop opr =
     (if opr = TNOT then
        bnd pop_logic (\<lambda>tf. push_logic (if tf < 0 then - 1 else if tf = 0 then 1 else 0))
      else if opr = TMINUS then
        bnd pop_number (\<lambda>num. push_number (case num of
            NNull \<Rightarrow> NNull | NReal r \<Rightarrow> NReal (dneg r) | NInt d n \<Rightarrow> NInt d (- n)))
      else if opr = TPLUS then typechk NUMBER
      else raise (Syn INVALID_OPERATOR))"

definition DBL_MIN :: dbl where
  "DBL_MIN = Fin False (p2 (- 1022))"

definition DBL_EPSILON :: dbl where
  "DBL_EPSILON = Fin False (p2 (- 52))"

definition DBL_MAX :: dbl where
  "DBL_MAX = Fin False ((2 - p2 (- 52)) * p2 1023)"

definition dbl_isequal :: "dbl \<Rightarrow> dbl \<Rightarrow> bool" where
  "dbl_isequal r1 r2 =
     (let abs_r1 = dabs r1; abs_r2 = dabs r2; diff = dabs (dsub abs_r1 abs_r2) in
      deq r1 r2 \<or>
      ((deq r1 (i2d 0) \<or> deq r2 (i2d 0) \<or> dlt diff DBL_MIN) \<and> dlt diff (dmul DBL_EPSILON DBL_MIN)) \<or>
      dlt (ddiv diff (dmin (dadd abs_r1 abs_r2) DBL_MAX)) DBL_EPSILON)"

definition of_bool_int :: "bool \<Rightarrow> int" where
  "of_bool_int b = (if b then 1 else 0)"

definition num_rel :: "number \<Rightarrow> number \<Rightarrow> nat \<Rightarrow> int" where
  "num_rel n1 n2 opr =
     (if n1 = NNull \<or> n2 = NNull then - 1
      else case (n1, n2) of
        (NInt d1 a, NInt d2 b) \<Rightarrow>
          (let l1 = (if d2 < d1 then a else a * power10 (d2 - d1));
               l2 = (if d2 < d1 then b * power10 (d1 - d2) else b);
               diff = sint (l1 - l2)
           in if opr = TGREATER then of_bool_int (0 < diff)
              else if opr = TLESS then of_bool_int (diff < 0)
              else if opr = TEQUAL then of_bool_int (diff = 0)
              else if opr = TNEQU then of_bool_int (diff \<noteq> 0)
              else if opr = TGTREQU then of_bool_int (0 \<le> diff)
              else if opr = TLESSEQU then of_bool_int (diff \<le> 0)
              else if opr = TQUESTN then (if 0 < diff then 1 else if diff < 0 then - 1 else 0)
              else 0)
      | _ \<Rightarrow>
          (let r1 = num_dbl n1; r2 = num_dbl n2; isequal = dbl_isequal r1 r2
           in if opr = TGREATER then of_bool_int (\<not> isequal \<and> dlt r2 r1)
              else if opr = TLESS then of_bool_int (\<not> isequal \<and> dlt r1 r2)
              else if opr = TEQUAL then of_bool_int isequal
              else if opr = TNEQU then of_bool_int (\<not> isequal)
              else if opr = TGTREQU then of_bool_int (isequal \<or> dlt r2 r1)
              else if opr = TLESSEQU then of_bool_int (isequal \<or> dlt r1 r2)
              else if opr = TQUESTN then (if isequal then 0 else if dlt r2 r1 then 1 else - 1)
              else 0))"

definition scale_up :: "64 word \<Rightarrow> nat \<Rightarrow> err + 64 word" where
  \<comment> \<open>l *= power10(k), with the test that its sign did not change\<close>
  "scale_up n k =
     (let l = n * power10 k in
      if (0 < sint n \<and> sint l < 0) \<or> (sint n < 0 \<and> 0 < sint l) then Inl (Syn INVALID_VALUE)
      else Inr l)"

definition add_overflow :: "nat \<Rightarrow> 64 word \<Rightarrow> 64 word \<Rightarrow> 64 word \<Rightarrow> bool" where
  "add_overflow opr l1 l2 n \<longleftrightarrow>
     (opr = TPLUS \<and> ((0 < sint l1 \<and> 0 < sint l2 \<and> sint n < 0)
                     \<or> (sint l1 < 0 \<and> sint l2 < 0 \<and> 0 < sint n)))
     \<or> (opr = TMINUS \<and> ((0 < sint l1 \<and> sint l2 < 0 \<and> sint n < 0)
                     \<or> (sint l1 < 0 \<and> 0 < sint l2 \<and> 0 < sint n)))"

definition num_add :: "number \<Rightarrow> number \<Rightarrow> nat \<Rightarrow> err + number" where
  "num_add n1 n2 opr =
     (if n1 = NNull \<or> n2 = NNull then Inr NNull
      else case (n1, n2) of
        (NInt d1 a, NInt d2 b) \<Rightarrow>
          (case (if d2 < d1 then Inr a else scale_up a (d2 - d1)) of
             Inl e \<Rightarrow> Inl e
           | Inr l1 \<Rightarrow>
          (case (if d2 < d1 then scale_up b (d1 - d2) else Inr b) of
             Inl e \<Rightarrow> Inl e
           | Inr l2 \<Rightarrow>
             let n = (if opr = TPLUS then l1 + l2 else l1 - l2) in
             if add_overflow opr l1 l2 n then Inl (Syn INVALID_VALUE)
             else Inr (NInt (if d2 < d1 then d1 else d2) n)))
      | _ \<Rightarrow>
          (let r1 = num_dbl n1; r2 = num_dbl n2
           in Inr (NReal (if opr = TPLUS then dadd r1 r2 else dsub r1 r2))))"

definition num_mul :: "number \<Rightarrow> number \<Rightarrow> nat \<Rightarrow> err + number" where
  "num_mul n1 n2 opr =
     (if n1 = NNull \<or> n2 = NNull then Inr NNull
      else
        let r1 = num_dbl n1; r2 = num_dbl n2;
            reals = Inr (NReal (if opr = TMULT then dmul r1 r2 else ddiv r1 r2))
        in case (n1, n2) of
          (NInt d1 a, NInt d2 b) \<Rightarrow>
            (if DECI_MAX < d1 + d2 then reals
             else if opr = TMULT then
               (let n = a * b in
                if (0 < sint a \<and> 0 < sint b \<and> sint n < 0)
                   \<or> (((sint a < 0 \<and> 0 < sint b) \<or> (0 < sint a \<and> sint b < 0)) \<and> 0 < sint n)
                then Inl (Syn INVALID_VALUE)
                else Inr (NInt (d1 + d2) n))
             else Inr (NReal (ddiv r1 r2)))
        | _ \<Rightarrow> reals)"

fun byte_diff :: "nat \<Rightarrow> string \<Rightarrow> string \<Rightarrow> int" where
  \<comment> \<open>while (len--) if (i = *q++ - *p++) break, over bytes\<close>
  "byte_diff (Suc len) (c1 # q) (c2 # p) =
     (let i = int (cval c1) - int (cval c2) in if i \<noteq> 0 then i else byte_diff len q p)"
| "byte_diff _ _ _ = 0"

definition char_rel :: "env \<Rightarrow> string \<Rightarrow> string \<Rightarrow> nat \<Rightarrow> int" where
  \<comment> \<open>q is the left operand opnd2, p the right operand opnd1\<close>
  "char_rel g q p opr =
     (let len = min (length p) (length q);
          i = byte_diff len q p;
          i = (if i = 0 \<and> isset g EXACT_ON then int (length q) - int (length p) else i)
      in if opr = TGREATER then of_bool_int (0 < i)
         else if opr = TLESS then of_bool_int (i < 0)
         else if opr = TEQUAL then of_bool_int (i = 0)
         else if opr = TNEQU then of_bool_int (i \<noteq> 0)
         else if opr = TGTREQU then of_bool_int (0 \<le> i)
         else if opr = TLESSEQU then of_bool_int (i \<le> 0)
         else if opr = TQUESTN then (if 0 < i then 1 else if i < 0 then - 1 else 0)
         else 0)"

definition bop_rel :: "env \<Rightarrow> nat \<Rightarrow> hbval \<Rightarrow> hbval \<Rightarrow> unit sm" where
  "bop_rel g opr opnd1 opnd2 =
     bnd (if val_typ opnd1 = NUMBER then
            bnd pop_number (\<lambda>n1. bnd pop_number (\<lambda>n2. ret (num_rel n2 n1 opr)))
          else if val_typ opnd1 = DATE then
            bnd pop_date (\<lambda>n1. bnd pop_date (\<lambda>n2. ret (num_rel n2 n1 opr)))
          else case (opnd1, opnd2) of
            (VChar p, VChar q) \<Rightarrow>
              (if isset g NULL_ON \<and> min (length p) (length q) = 0
               then ret (if opr = TQUESTN then - 2 else - 1)
               else bnd pop_any (\<lambda>_. bnd pop_any (\<lambda>_. ret (char_rel g q p opr))))
          | _ \<Rightarrow> raise (Syn INVALID_TYPE))
       (\<lambda>tf. if opr = TQUESTN
             then push_number (if tf = - 2 then NNull else NInt 0 (word_of_int tf))
             else push_logic tf)"

definition num_to_date :: "number \<Rightarrow> 32 word" where
  \<comment> \<open>num_is_null(n1)? (date_t)-1 : (date_t)n1.n\<close>
  "num_to_date num = (case num of NInt d n \<Rightarrow> ucast n | _ \<Rightarrow> - 1)"

definition bop_add :: "nat \<Rightarrow> hbval \<Rightarrow> hbval \<Rightarrow> unit sm" where
  "bop_add opr opnd1 opnd2 =
     (case opnd1 of
        VNum _ \<Rightarrow>
          bnd pop_number (\<lambda>n1.
            if val_typ opnd2 = DATE then
              bnd pop_date (\<lambda>n2. bnd (lift_res (num_add n2 n1 opr)) (\<lambda>n. push_date (num_to_date n)))
            else
              bnd pop_number (\<lambda>n2. bnd (lift_res (num_add n2 n1 opr)) push_number))
      | VChar p \<Rightarrow>
          (if opr \<noteq> TPLUS then raise (Syn INVALID_OPERATOR)
           else case opnd2 of
             VChar q \<Rightarrow>
               if MAXSTRLEN < length p + length q then raise (Syn STR_TOOLONG)
               else bnd pop_any (\<lambda>_. bnd pop_any (\<lambda>_. push_string (q @ p)))
           | _ \<Rightarrow> raise Undefined)
      | VDate _ \<Rightarrow>
          bnd pop_date (\<lambda>n1.
            if val_typ opnd2 = DATE then
              (if opr \<noteq> TMINUS then raise (Syn INVALID_OPERATOR)
               else bnd pop_date (\<lambda>n2. bnd (lift_res (num_add n2 n1 opr)) push_number))
            else
              bnd pop_number (\<lambda>n2.
                bnd (lift_res (num_add n2 n1 opr)) (\<lambda>n. push_date (num_to_date n))))
      | _ \<Rightarrow> raise (Syn INVALID_TYPE))"

definition bop :: "env \<Rightarrow> nat \<Rightarrow> unit sm" where
  "bop g opr =
     bnd (stack_peek g 1) (\<lambda>o2. bnd (deref o2) (\<lambda>opnd2.
     bnd (getst hd) (\<lambda>opnd1.
       if val_typ opnd1 \<noteq> val_typ opnd2
          \<and> \<not> (val_typ opnd2 = DATE \<and> val_typ opnd1 = NUMBER \<and> val_is_integer opnd1)
       then raise (Syn TYPE_MISMATCH)
       else if opr = TOR then
         bnd pop_logic (\<lambda>l1. bnd pop_logic (\<lambda>l2.
           if l1 < 0 then push_logic l2
           else if l2 < 0 then push_logic l1
           else push_logic (of_bool_int (l2 \<noteq> 0 \<or> l1 \<noteq> 0))))
       else if opr = TAND then
         bnd pop_logic (\<lambda>l1. bnd pop_logic (\<lambda>l2.
           push_logic (if l1 < 0 \<or> l2 < 0 then - 1 else of_bool_int (l1 \<noteq> 0 \<and> l2 \<noteq> 0))))
       else if is_relop opr then bop_rel g opr opnd1 opnd2
       else if is_addop opr then bop_add opr opnd1 opnd2
       else if is_mulop opr then
         bnd pop_number (\<lambda>n1. bnd pop_number (\<lambda>n2.
           bnd (lift_res (num_mul n2 n1 opr)) push_number))
       else if opr = TPOWER then
         bnd pop_number (\<lambda>n1. bnd pop_number (\<lambda>n2.
           if n1 = NNull \<or> n2 = NNull then push_number NNull
           else push_real (pow g (num_dbl n2) (num_dbl n1))))
       else raise (Syn INVALID_OPERATOR))))"

section \<open>The stack operations on explicit stacks\<close>

lemma pop_any_Cons [cm_simps]: "pop_any (v # s) = (Inr v, s)"
  by (simp add: pop_any_def)

lemma typechk_Cons [cm_simps]:
  "typechk typ (v # s) = (if val_typ v \<noteq> typ then Inl (Syn INVALID_TYPE) else Inr (), v # s)"
  by (simp add: typechk_def)

lemma pop_stack_Cons [cm_simps]:
  "pop_stack typ (v # s) =
     (if val_typ v \<noteq> typ then (Inl (Syn INVALID_TYPE), v # s) else (Inr v, s))"
  by (simp add: pop_stack_def cm_simps)

lemma pop_number_Cons [cm_simps]:
  "pop_number (VNum n # s) = (Inr n, s)"
  "val_typ v \<noteq> NUMBER \<Longrightarrow> pop_number (v # s) = (Inl (Syn INVALID_TYPE), v # s)"
  by (simp_all add: pop_number_def cm_simps)

lemma pop_date_Cons [cm_simps]:
  "pop_date (VDate d # s) = (Inr (case d of None \<Rightarrow> NNull | Some x \<Rightarrow> NInt 0 (ucast x)), s)"
  "val_typ v \<noteq> DATE \<Longrightarrow> pop_date (v # s) = (Inl (Syn INVALID_TYPE), v # s)"
  by (simp_all add: pop_date_def cm_simps split: option.split)

lemma pop_logic_Cons [cm_simps]:
  "pop_logic (VLogic b # s) = (Inr (case b of None \<Rightarrow> - 1 | Some b \<Rightarrow> of_bool_int b), s)"
  "val_typ v \<noteq> LOGIC \<Longrightarrow> pop_logic (v # s) = (Inl (Syn INVALID_TYPE), v # s)"
  by (simp_all add: pop_logic_def of_bool_int_def cm_simps split: option.split)

lemma stack_peek_1 [cm_simps]: "stack_peek g 1 (a # b # s) = (Inr (Some b), a # b # s)"
  by (simp add: stack_peek_def)

lemma deref_Some [cm_simps]: "deref (Some v) s = (Inr v, s)"
  by (simp add: deref_def cm_simps)

lemma deref_None [cm_simps]: "deref None s = (Inl Undefined, s)"
  by (simp add: deref_def cm_simps)

lemma push_InrD: "push v s = (Inr x, t) \<Longrightarrow> t = v # s"
  by (simp add: push_def split: if_splits)

lemma push_app [cm_simps]:
  "stk_bytes s + val_size v \<le> STACKSZ - 1 \<Longrightarrow> push v s = (Inr (), v # s)"
  by (simp add: push_def)

lemmas push_defs = push_string_def push_logic_def push_int_def push_number_def push_date_def

lemma stk_bytes_Nil [simp]: "stk_bytes [] = 0"
  by (simp add: stk_bytes_def)

lemma stk_bytes_Cons [simp]: "stk_bytes (v # s) = val_size v + stk_bytes s"
  by (simp add: stk_bytes_def)

section \<open>The invariant of the stack\<close>

text \<open>Every value fits its header (a length of 12 bits, at most DECI_MAX decimals of a number, so
  that REAL is no number of decimals) and the values fit the stack.\<close>

fun val_ok :: "hbval \<Rightarrow> bool" where
  "val_ok (VChar s) \<longleftrightarrow> length s < 4096"
| "val_ok (VNum (NInt d _)) \<longleftrightarrow> d \<le> DECI_MAX"
| "val_ok (VOther t bs) \<longleftrightarrow> t \<notin> {LOGIC, NUMBER, DATE, CHARCTR} \<and> t < 16 \<and> length bs < 4096"
| "val_ok _ \<longleftrightarrow> True"

definition stack_ok :: "hbval list \<Rightarrow> bool" where
  "stack_ok s \<longleftrightarrow> list_all val_ok s \<and> stk_bytes s \<le> STACKSZ - 1"

abbreviation keeps :: "'a sm \<Rightarrow> ('a \<Rightarrow> bool) \<Rightarrow> bool" where
  "keeps \<equiv> promises stack_ok"

abbreviation num_ok :: "number \<Rightarrow> bool" where
  "num_ok num \<equiv> val_ok (VNum num)"

lemma keeps_push [spec_intros]: "val_ok v \<Longrightarrow> keeps (push v) (\<lambda>_. True)"
  by (rule specI) (simp add: push_def stack_ok_def)

lemma keeps_push_T: "val_ok v \<Longrightarrow> (\<And>u. Q u) \<Longrightarrow> keeps (push v) Q"
  by (rule spec_conseq [OF keeps_push])

lemma keeps_typechk: "keeps (typechk t) (\<lambda>_. True)"
  by (rule specI) (auto simp: typechk_def split: list.split)

lemma keeps_pop_any: "keeps pop_any val_ok"
  by (rule specI) (auto simp: pop_any_def stack_ok_def split: list.split)

lemma keeps_pop_stack: "keeps (pop_stack t) (\<lambda>v. val_ok v \<and> val_typ v = t)"
proof (rule specI)
  fix s assume "stack_ok s"
  then show "stack_ok (snd (pop_stack t s)) \<and>
      (\<forall>x. fst (pop_stack t s) = Inr x \<longrightarrow> val_ok x \<and> val_typ x = t)"
    by (cases s) (auto simp: pop_stack_def typechk_def pop_any_def bnd_def stack_ok_def)
qed

lemma keeps_pop_number: "keeps pop_number num_ok"
  unfolding pop_number_def
  by (rule spec_bnd [OF keeps_pop_stack]) (auto intro!: spec_intros split: hbval.split)

lemma keeps_pop_date: "keeps pop_date num_ok"
  unfolding pop_date_def
  by (rule spec_bnd [OF keeps_pop_stack]) (auto intro!: spec_intros split: hbval.split option.split)

lemma keeps_pop_logic: "keeps pop_logic (\<lambda>_. True)"
  unfolding pop_logic_def
  by (rule spec_bnd [OF keeps_pop_stack]) (auto intro!: spec_intros split: hbval.split option.split)

lemma keeps_pop_real: "keeps pop_real (\<lambda>_. True)"
  unfolding pop_real_def
  by (rule spec_bnd [OF keeps_pop_stack]) (auto intro!: spec_intros split: hbval.split number.split)

lemma keeps_pop_int: "keeps (pop_int low high) (\<lambda>i. low \<le> i \<and> (0 \<le> high \<longrightarrow> i \<le> high))"
  unfolding pop_int_def
  by (rule spec_bnd [OF keeps_pop_number])
    (auto intro!: spec_intros simp: Let_def split: number.split)

lemma keeps_push_string: "length s < 4096 \<Longrightarrow> keeps (push_string s) (\<lambda>_. True)"
  by (simp add: push_string_def keeps_push)

lemma keeps_push_logic: "keeps (push_logic b) (\<lambda>_. True)"
  by (simp add: push_logic_def keeps_push)

lemma keeps_push_int: "keeps (push_int n) (\<lambda>_. True)"
  by (simp add: push_int_def keeps_push)

lemma keeps_push_number: "num_ok n \<Longrightarrow> keeps (push_number n) (\<lambda>_. True)"
  by (simp add: push_number_def keeps_push)

lemma keeps_push_real: "keeps (push_real r) (\<lambda>_. True)"
  by (simp add: push_real_def push_number_def keeps_push spec_if)

lemma keeps_push_date: "keeps (push_date d) (\<lambda>_. True)"
  by (simp add: push_date_def keeps_push)

lemma keeps_peek: "keeps (stack_peek g level) (\<lambda>v. \<forall>x. v = Some x \<longrightarrow> val_ok x)"
  by (rule specI) (auto simp: stack_peek_def stack_ok_def list_all_length)

lemma keeps_deref: "(\<forall>x. v = Some x \<longrightarrow> Q x) \<Longrightarrow> keeps (deref v) Q"
  by (auto simp: deref_def intro!: spec_intros split: option.split)

lemma num_add_ok: "num_ok a \<Longrightarrow> num_ok b \<Longrightarrow> num_add a b opr = Inr c \<Longrightarrow> num_ok c"
  by (cases a; cases b) (auto simp: num_add_def Let_def split: if_splits sum.splits)

lemma num_mul_ok: "num_ok a \<Longrightarrow> num_ok b \<Longrightarrow> num_mul a b opr = Inr c \<Longrightarrow> num_ok c"
  by (cases a; cases b) (auto simp: num_mul_def Let_def split: if_splits)

lemmas keeps_rules = spec_intros keeps_push_string keeps_push_logic keeps_push_int
  keeps_push_number keeps_push_real keeps_push_date

lemma keeps_pop2:
  assumes "\<And>a b. num_ok a \<Longrightarrow> num_ok b \<Longrightarrow> keeps (f a b) Q"
  shows "keeps (bnd pop_number (\<lambda>n1. bnd pop_number (f n1))) Q"
    and "keeps (bnd pop_date (\<lambda>n1. bnd pop_number (f n1))) Q"
    and "keeps (bnd pop_date (\<lambda>n1. bnd pop_date (f n1))) Q"
    and "keeps (bnd pop_number (\<lambda>n1. bnd pop_date (f n1))) Q"
  by (intro spec_bnd [OF keeps_pop_number] spec_bnd [OF keeps_pop_date] assms; assumption)+

lemma keeps_lift_num:
  assumes "\<And>x. r = Inr x \<Longrightarrow> num_ok x" and "\<And>x. num_ok x \<Longrightarrow> keeps (f x) Q"
  shows "keeps (bnd (lift_res r) f) Q"
  by (rule spec_bnd [where P = "\<lambda>x. num_ok x", OF spec_lift_res]) (rule assms, assumption)+

lemma keeps_pop_logics:
  assumes "\<And>a b. keeps (f a b) Q"
  shows "keeps (bnd pop_logic (\<lambda>l1. bnd pop_logic (f l1))) Q"
  by (intro spec_bnd [OF keeps_pop_logic] assms)

lemma keeps_pop_anys:
  assumes "keeps m Q"
  shows "keeps (bnd pop_any (\<lambda>_. bnd pop_any (\<lambda>_. m))) Q"
  by (intro spec_bnd [OF keeps_pop_any] assms)

lemma keeps_bop_rel: "keeps (bop_rel g opr a b) (\<lambda>_. True)"
  unfolding bop_rel_def
  by (rule spec_bnd [where P = "\<lambda>_. True"])
    (auto intro!: keeps_rules keeps_pop2 keeps_pop_anys split: hbval.split)

lemma keeps_num_add_then:
  "num_ok a \<Longrightarrow> num_ok b \<Longrightarrow> (\<And>x. num_ok x \<Longrightarrow> keeps (f x) Q) \<Longrightarrow>
     keeps (bnd (lift_res (num_add a b opr)) f) Q"
  by (rule keeps_lift_num) (rule num_add_ok [of a b], auto)

lemma keeps_bop_add: "keeps (bop_add opr a b) (\<lambda>_. True)"
proof (cases a)
  case (VLogic x)
  then show ?thesis by (simp add: bop_add_def spec_raise)
next
  case (VNum x)
  have d: "keeps (bnd pop_date (\<lambda>n2. bnd (lift_res (num_add n2 n1 opr)) (\<lambda>n. push_date (num_to_date n))))
      (\<lambda>_. True)" if "num_ok n1" for n1
    by (rule spec_bnd [OF keeps_pop_date], rule keeps_num_add_then [OF _ that keeps_push_date])
  have n: "keeps (bnd pop_number (\<lambda>n2. bnd (lift_res (num_add n2 n1 opr)) push_number)) (\<lambda>_. True)"
    if "num_ok n1" for n1
    by (rule spec_bnd [OF keeps_pop_number], rule keeps_num_add_then [OF _ that keeps_push_number])
  show ?thesis unfolding VNum bop_add_def hbval.case
    by (rule spec_bnd [OF keeps_pop_number], rule spec_if; rule d n)
next
  case (VDate x)
  have d: "keeps (bnd pop_date (\<lambda>n2. bnd (lift_res (num_add n2 n1 opr)) push_number)) (\<lambda>_. True)"
    if "num_ok n1" for n1
    by (rule spec_bnd [OF keeps_pop_date], rule keeps_num_add_then [OF _ that keeps_push_number])
  have n: "keeps (bnd pop_number (\<lambda>n2. bnd (lift_res (num_add n2 n1 opr))
      (\<lambda>n. push_date (num_to_date n)))) (\<lambda>_. True)" if "num_ok n1" for n1
    by (rule spec_bnd [OF keeps_pop_number], rule keeps_num_add_then [OF _ that keeps_push_date])
  show ?thesis unfolding VDate bop_add_def hbval.case
    by (rule spec_bnd [OF keeps_pop_date], intro spec_if spec_raise; rule d n)
next
  case (VChar p)
  then show ?thesis unfolding bop_add_def
    by (cases b) (auto intro!: spec_intros keeps_pop_anys keeps_push_string)
next
  case (VOther t x)
  then show ?thesis by (simp add: bop_add_def spec_raise)
qed

lemma keeps_getst_hd:
  "(\<And>v. keeps (f v) Q) \<Longrightarrow> keeps (bnd (getst hd) f) Q"
  by (auto simp: promises_def bnd_def cm_simps)

lemma keeps_bop_mul:
  "keeps (bnd pop_number (\<lambda>n1. bnd pop_number (\<lambda>n2. bnd (lift_res (num_mul n2 n1 opr)) push_number)))
     (\<lambda>_. True)"
proof (rule keeps_pop2)
  fix a b assume "num_ok a" and "num_ok b"
  then show "keeps (bnd (lift_res (num_mul b a opr)) push_number) (\<lambda>_. True)"
    by (intro keeps_lift_num keeps_push_number) (rule num_mul_ok [of b a])
qed

lemma keeps_bop: "keeps (bop g opr) (\<lambda>_. True)"
  unfolding bop_def
  by (intro spec_bnd [OF keeps_peek] spec_bnd [OF keeps_deref [where Q = "\<lambda>_. True"]] keeps_getst_hd
      spec_if spec_raise keeps_pop_logics keeps_push_logic keeps_bop_rel keeps_bop_add keeps_bop_mul
      keeps_pop2 keeps_push_number keeps_push_real) auto

lemma keeps_uop: "keeps (uop opr) (\<lambda>_. True)"
  unfolding uop_def
  by (intro spec_if spec_raise spec_bnd [OF keeps_pop_logic] spec_bnd [OF keeps_pop_number]
      keeps_push_logic keeps_push_number keeps_typechk) (auto split: number.split)

definition puts_one :: "hbval list \<Rightarrow> unit sm \<Rightarrow> hbval list \<Rightarrow> bool" where
  "puts_one s m u \<longleftrightarrow> (\<forall>t. m u = (Inr (), t) \<longrightarrow> (\<exists>v. t = v # s))"

lemma puts_one_push: "puts_one s (push v) s"
  by (auto simp: puts_one_def dest: push_InrD)

lemma puts_one_pushes [simp]:
  "puts_one s (push_string x) s" "puts_one s (push_logic b) s" "puts_one s (push_number n) s"
  "puts_one s (push_real r) s" "puts_one s (push_date d) s" "puts_one s (push_int i) s"
  by (simp_all add: push_defs push_real_def puts_one_push)

lemma puts_one_raise [simp]: "puts_one s (raise e) u"
  by (simp add: puts_one_def cm_simps)

lemma puts_one_fail: "m u = (Inl e, u') \<Longrightarrow> puts_one s (bnd m f) u"
  by (simp add: puts_one_def cm_simps)

lemma puts_one_step: "m u = (Inr x, u') \<Longrightarrow> puts_one s (bnd m f) u \<longleftrightarrow> puts_one s (f x) u'"
  by (simp add: puts_one_def cm_simps)

lemma puts_one_lift: "(\<And>x. puts_one s (f x) u) \<Longrightarrow> puts_one s (bnd (lift_res r) f) u"
  by (cases r) (auto simp: puts_one_def cm_simps)

lemma puts_one_pop_number:
  "(\<And>n. puts_one s (f n) u) \<Longrightarrow> puts_one s (bnd pop_number f) (v # u)"
  by (cases v) (auto simp: puts_one_step puts_one_fail cm_simps,
    auto simp: puts_one_def pop_number_def bnd_assoc cm_simps)

lemma puts_one_pop_date:
  "(\<And>n. puts_one s (f n) u) \<Longrightarrow> puts_one s (bnd pop_date f) (v # u)"
  by (cases v) (auto simp: puts_one_step puts_one_fail cm_simps,
    auto simp: puts_one_def pop_date_def bnd_assoc cm_simps)

lemma puts_one_pop_logic:
  "(\<And>n. puts_one s (f n) u) \<Longrightarrow> puts_one s (bnd pop_logic f) (v # u)"
  by (cases v) (auto simp: puts_one_step puts_one_fail cm_simps,
    auto simp: puts_one_def pop_logic_def bnd_assoc cm_simps)

lemma puts_one_pop_any:
  "puts_one s f u \<Longrightarrow> puts_one s (bnd pop_any (\<lambda>_. f)) (v # u)"
  by (auto simp: puts_one_step cm_simps)

lemma puts_one_heads [simp]:
  "puts_one s (bnd (stack_peek g 1) f) (a # b # u) = puts_one s (f (Some b)) (a # b # u)"
  "puts_one s (bnd (deref (Some v)) h) u = puts_one s (h v) u"
  "puts_one s (bnd (getst hd) h) (v # u) = puts_one s (h v) (v # u)"
  by (simp_all add: puts_one_def cm_simps del: One_nat_def)

lemmas puts_one_pops = puts_one_pop_number puts_one_pop_date puts_one_pop_logic puts_one_lift
  puts_one_pop_any

definition null_string_rel :: "env \<Rightarrow> nat \<Rightarrow> hbval \<Rightarrow> hbval \<Rightarrow> bool" where
  \<comment> \<open>a comparison of strings of which one is empty, with SET NULL ON\<close>
  "null_string_rel g opr a b \<longleftrightarrow> is_relop opr \<and> isset g NULL_ON
     \<and> (case (a, b) of (VChar p, VChar q) \<Rightarrow> p = [] \<or> q = [] | _ \<Rightarrow> False)"

lemma bnd_assoc2: "puts_one s (bnd (bnd m f) h) u \<longleftrightarrow> puts_one s (bnd m (\<lambda>x. bnd (f x) h)) u"
  by (simp add: bnd_assoc)

lemma puts_one_rel:
  assumes "\<not> (isset g NULL_ON \<and> (case (a, b) of (VChar p, VChar q) \<Rightarrow> p = [] \<or> q = [] | _ \<Rightarrow> False))"
  shows "puts_one s (bop_rel g opr a b) (a # b # s)"
proof -
  have fin: "puts_one s (if opr = TQUESTN then push_number (f tf) else push_logic tf) s" for tf :: int and f
    by simp
  show ?thesis
    unfolding bop_rel_def
    by (cases a; cases b)
      (use assms fin in \<open>auto simp: bnd_assoc puts_one_pops puts_one_fail min_def cm_simps\<close>)
qed

lemma puts_one_add: "puts_one s (bop_add opr a b) (a # b # s)"
  unfolding bop_add_def
  by (cases a; cases b) (simp_all add: puts_one_pops)

lemma puts_one_null_rel:
  assumes "a = VChar p" and "b = VChar q" and "p = [] \<or> q = []" and "isset g NULL_ON"
  shows "puts_one (a # b # s) (bop_rel g opr a b) (a # b # s)"
  using assms by (auto simp: bop_rel_def min_def)

text \<open>C22: a binary operator that succeeds replaces its two operands by one result, except that a
  comparison with an empty string under SET NULL ON leaves both operands under the result.\<close>

theorem bop_stack_effect:
  assumes "bop g opr (a # b # s) = (Inr (), t)"
  shows "\<exists>v. t = v # (if null_string_rel g opr a b then a # b # s else s)"
proof (cases "null_string_rel g opr a b")
  case True
  then obtain p q where "a = VChar p" "b = VChar q" "p = [] \<or> q = []" "isset g NULL_ON" and r: "is_relop opr"
    by (auto simp: null_string_rel_def split: hbval.splits)
  then have "puts_one (a # b # s) (bop_rel g opr a b) (a # b # s)"
    by (intro puts_one_null_rel)
  moreover have "opr \<noteq> TOR" "opr \<noteq> TAND" using r by (auto simp: is_relop_def)
  ultimately have "puts_one (a # b # s) (bop g opr) (a # b # s)"
    using r \<open>a = _\<close> \<open>b = _\<close> by (simp add: bop_def del: One_nat_def)
  with assms True show ?thesis by (simp add: puts_one_def)
next
  case False
  have "puts_one s (bop_rel g opr a b) (a # b # s)" if "is_relop opr"
    using False that by (intro puts_one_rel) (auto simp: null_string_rel_def)
  then have "puts_one s (bop g opr) (a # b # s)"
    by (simp add: bop_def puts_one_pops puts_one_add del: One_nat_def)
  with assms False show ?thesis by (simp add: puts_one_def)
qed

definition env0 :: env where
  "env0 = \<lparr>onoff_flags = (\<lambda>n. if n = NULL_ON then 1 else 0), has_filter = False, has_proc = False,
     has_form = False, restricted = False, nwidth = 10, ndeci = 2, epoch = 1950,
     datespec = ''MM/DD/YYYY'', pow = (\<lambda>x y. NaN),
     exp_c = (\<lambda>x. (NaN, True)), log_c = (\<lambda>x. (NaN, True)), log10_c = (\<lambda>x. (NaN, True)),
     sqrt_c = (\<lambda>x. (NaN, True)), strtod_c = (\<lambda>x. (NaN, True))\<rparr>"

theorem bop_stack_effect_witness:
  "bop env0 TEQUAL [VChar ''A'', VChar []] = (Inr (), [VLogic None, VChar ''A'', VChar []])
   \<and> (\<exists>v. [VLogic None, VChar ''A'', VChar []] = v # (if null_string_rel env0 TEQUAL (VChar ''A'') (VChar [])
        then [VChar ''A'', VChar []] else []))"
proof -
  have "bop env0 TEQUAL [VChar ''A'', VChar []] = (Inr (), [VLogic None, VChar ''A'', VChar []])"
    by (simp add: bop_def bop_rel_def is_relop_def isset_def env0_def push_defs cm_simps del: One_nat_def)
  then show ?thesis using bop_stack_effect by blast
qed

text \<open>No operator breaks the stack: with or without an error the values on it fit their
  headers and the stack.\<close>

theorem operators_keep_stack:
  assumes "stack_ok s"
  shows "stack_ok (snd (bop g opr s)) \<and> stack_ok (snd (uop opr s))"
  using keeps_bop keeps_uop assms unfolding promises_def by blast

theorem operators_keep_stack_witness:
  "stack_ok [VChar ''A'', VChar ''B''] \<and> stack_ok (snd (bop env0 TPLUS [VChar ''A'', VChar ''B'']))"
proof -
  have s: "stack_ok [VChar ''A'', VChar ''B'']" by (simp add: stack_ok_def)
  with operators_keep_stack [OF this, of env0 TPLUS] show ?thesis by simp
qed

section \<open>Exact arithmetic\<close>

text \<open>The value of a decimal number is its long divided by a power of ten.\<close>

fun num_val :: "number \<Rightarrow> rat" where
  "num_val (NInt d n) = of_int (sint n) / 10 ^ d"
| "num_val (NReal r) = dval r"
| "num_val NNull = 0"

definition fits_long :: "int \<Rightarrow> bool" where
  "fits_long n \<longleftrightarrow> - (2 ^ 63) \<le> n \<and> n < 2 ^ 63"

lemma fits_sint: "fits_long (sint (w :: 64 word))"
  using sint_range_size [of w] by (simp add: fits_long_def word_size)

lemma sint_fits: "fits_long n \<Longrightarrow> sint (word_of_int n :: 64 word) = n"
  by (subst sint_sbintrunc') (simp add: signed_take_bit_int_eq_self fits_long_def)

lemma sint_add_fits: "fits_long (sint a + sint b) \<Longrightarrow> sint (a + b :: 64 word) = sint a + sint b"
  using sint_fits [of "sint a + sint b"] by simp

lemma sint_diff_fits: "fits_long (sint a - sint b) \<Longrightarrow> sint (a - b :: 64 word) = sint a - sint b"
  using sint_fits [of "sint a - sint b"] by simp

lemma sint_mult_fits: "fits_long (sint a * sint b) \<Longrightarrow> sint (a * b :: 64 word) = sint a * sint b"
  using sint_fits [of "sint a * sint b"] by simp

lemma power10_word: "power10 k = word_of_int (10 ^ k)"
  by (induction k) auto

lemma sint_power10_le: "k \<le> 18 \<Longrightarrow> sint (power10 k) = 10 ^ k"
proof -
  assume "k \<le> 18"
  then have "(10::int) ^ k \<le> 10 ^ 18" by (intro power_increasing) auto
  moreover have "(0::int) \<le> 10 ^ k" by simp
  ultimately have "fits_long (10 ^ k)" by (simp add: fits_long_def order.trans [of _ 0])
  then show ?thesis unfolding power10_word by (rule sint_fits)
qed

lemma sint_scale:
  assumes "k \<le> 18" and "fits_long (sint n * 10 ^ k)"
  shows "sint (n * power10 k) = sint n * 10 ^ k"
  using assms sint_mult_fits [of n "power10 k"] by (simp add: sint_power10_le)

lemma scale_up_exact:
  assumes "k \<le> 18" and "fits_long (sint n * 10 ^ k)"
  shows "scale_up n k = Inr (n * power10 k)"
proof -
  have "sint (n * power10 k) = sint n * 10 ^ k" using assms by (rule sint_scale)
  then show ?thesis by (simp add: scale_up_def Let_def mult_less_0_iff zero_less_mult_iff)
qed

definition scaled :: "nat \<Rightarrow> nat \<Rightarrow> 64 word \<Rightarrow> int" where
  \<comment> \<open>the long of a number with d decimals when it is written with m decimals\<close>
  "scaled m d n = sint n * 10 ^ (m - d)"

lemma num_val_scaled: "d \<le> m \<Longrightarrow> num_val (NInt d n) = of_int (scaled m d n) / 10 ^ m"
  using power_add [of "10 :: rat" d "m - d"] by (simp add: scaled_def)

text \<open>C23: addition and subtraction of decimal numbers are exact, at the larger number of decimals,
  whenever the operands at that scale and the result fit a long.\<close>

theorem num_add_exact:
  assumes "d1 \<le> DECI_MAX" and "d2 \<le> DECI_MAX" and "opr = TPLUS \<or> opr = TMINUS"
    and "fits_long (scaled (max d1 d2) d1 a)" and "fits_long (scaled (max d1 d2) d2 b)"
    and "fits_long (if opr = TPLUS then scaled (max d1 d2) d1 a + scaled (max d1 d2) d2 b
                    else scaled (max d1 d2) d1 a - scaled (max d1 d2) d2 b)"
  shows "\<exists>n. num_add (NInt d1 a) (NInt d2 b) opr = Inr (NInt (max d1 d2) n)
           \<and> num_val (NInt (max d1 d2) n) =
             (if opr = TPLUS then num_val (NInt d1 a) + num_val (NInt d2 b)
              else num_val (NInt d1 a) - num_val (NInt d2 b))"
proof -
  let ?m = "max d1 d2"
  obtain l1 where l1: "(if d2 < d1 then Inr a else scale_up a (d2 - d1)) = Inr l1"
    "sint l1 = scaled ?m d1 a"
    using assms scale_up_exact [of "d2 - d1" a] sint_scale [of "d2 - d1" a]
    by (cases "d2 < d1") (auto simp: scaled_def max_def)
  obtain l2 where l2: "(if d2 < d1 then scale_up b (d1 - d2) else Inr b) = Inr l2"
    "sint l2 = scaled ?m d2 b"
    using assms scale_up_exact [of "d1 - d2" b] sint_scale [of "d1 - d2" b]
    by (cases "d2 < d1") (auto simp: scaled_def max_def)
  let ?n = "if opr = TPLUS then l1 + l2 else l1 - l2"
  have n: "sint ?n = (if opr = TPLUS then sint l1 + sint l2 else sint l1 - sint l2)"
    using assms(6) l1(2) l2(2) sint_add_fits [of l1 l2] sint_diff_fits [of l1 l2] by auto
  then have "\<not> add_overflow opr l1 l2 ?n"
    unfolding add_overflow_def using assms(3) by auto
  then have "num_add (NInt d1 a) (NInt d2 b) opr = Inr (NInt ?m ?n)"
    using l1(1) l2(1) by (simp add: num_add_def Let_def max_def)
  moreover have "num_val (NInt ?m ?n) = (if opr = TPLUS then num_val (NInt d1 a) + num_val (NInt d2 b)
              else num_val (NInt d1 a) - num_val (NInt d2 b))"
    using n l1(2) l2(2) num_val_scaled [of d1 ?m a] num_val_scaled [of d2 ?m b]
    by (cases "opr = TPLUS") (simp_all add: add_divide_distrib diff_divide_distrib del: of_int_sint)
  ultimately show ?thesis by blast
qed
theorem num_add_exact_witness:
  "\<exists>n. num_add (NInt 1 15) (NInt 2 27) TPLUS = Inr (NInt 2 n)
     \<and> num_val (NInt 2 n) = num_val (NInt 1 15) + num_val (NInt 2 27)"
  using num_add_exact [of 1 2 TPLUS 15 27] by (simp add: scaled_def fits_long_def numeral_2_eq_2)

text \<open>C26: the product of two decimal numbers is exact whenever the decimals add up to at most
  DECI_MAX, which is 18 (the help texts say 15), and the product of the longs fits a long.\<close>

theorem num_mul_exact:
  assumes "d1 + d2 \<le> DECI_MAX" and "fits_long (sint a * sint b)"
  shows "\<exists>n. num_mul (NInt d1 a) (NInt d2 b) TMULT = Inr (NInt (d1 + d2) n)
           \<and> num_val (NInt (d1 + d2) n) = num_val (NInt d1 a) * num_val (NInt d2 b)"
proof -
  have m: "sint (a * b) = sint a * sint b" using assms(2) by (rule sint_mult_fits)
  then have "num_mul (NInt d1 a) (NInt d2 b) TMULT = Inr (NInt (d1 + d2) (a * b))"
    using assms(1) by (auto simp: num_mul_def Let_def mult_less_0_iff zero_less_mult_iff)
  moreover have "num_val (NInt (d1 + d2) (a * b)) = num_val (NInt d1 a) * num_val (NInt d2 b)"
    using m by (simp add: power_add del: of_int_sint)
  ultimately show ?thesis by blast
qed

theorem num_mul_exact_witness:
  "\<exists>n. num_mul (NInt 1 15) (NInt 2 (- 27)) TMULT = Inr (NInt 3 n)
     \<and> num_val (NInt 3 n) = num_val (NInt 1 15) * num_val (NInt 2 (- 27))"
  using num_mul_exact [of 1 2 15 "- 27"] by (simp add: fits_long_def numeral_3_eq_3)

text \<open>The overflow tests look at signs only: 4294967296 * 4294967296 is 0, and
  3 * 6148914691236517206 is 2, without an error.\<close>

theorem num_mul_overflow_missed:
  "num_mul (NInt 0 4294967296) (NInt 0 4294967296) TMULT = Inr (NInt 0 0)
   \<and> num_mul (NInt 0 3) (NInt 0 6148914691236517206) TMULT = Inr (NInt 0 2)"
  by (simp add: num_mul_def Let_def)

lemma num_rel_int_diff:
  assumes "d1 \<le> DECI_MAX" and "d2 \<le> DECI_MAX"
    and "fits_long (scaled (max d1 d2) d1 a)" and "fits_long (scaled (max d1 d2) d2 b)"
    and "fits_long (scaled (max d1 d2) d1 a - scaled (max d1 d2) d2 b)"
  shows "sint ((if d2 < d1 then a else a * power10 (d2 - d1)) - (if d2 < d1 then b * power10 (d1 - d2) else b))
           = scaled (max d1 d2) d1 a - scaled (max d1 d2) d2 b"
proof -
  have "sint (if d2 < d1 then a else a * power10 (d2 - d1)) = scaled (max d1 d2) d1 a"
    using assms sint_scale [of "d2 - d1" a] by (auto simp: scaled_def max_def split: if_splits)
  moreover have "sint (if d2 < d1 then b * power10 (d1 - d2) else b) = scaled (max d1 d2) d2 b"
    using assms sint_scale [of "d1 - d2" b] by (auto simp: scaled_def max_def split: if_splits)
  ultimately show ?thesis using assms(5) by (metis sint_diff_fits)
qed

text \<open>C28: each of the six relational operators and the three-way comparison TQUESTN, on two decimal numbers, compares
  their values, whatever their decimals up to DECI_MAX, as long as the operands at the common scale and their difference fit a long.\<close>

theorem num_rel_exact:
  assumes "d1 \<le> DECI_MAX" and "d2 \<le> DECI_MAX"
    and "fits_long (scaled (max d1 d2) d1 a)" and "fits_long (scaled (max d1 d2) d2 b)"
    and "fits_long (scaled (max d1 d2) d1 a - scaled (max d1 d2) d2 b)"
  shows "num_rel (NInt d1 a) (NInt d2 b) TLESS = of_bool_int (num_val (NInt d1 a) < num_val (NInt d2 b))
       \<and> num_rel (NInt d1 a) (NInt d2 b) TGREATER = of_bool_int (num_val (NInt d2 b) < num_val (NInt d1 a))
       \<and> num_rel (NInt d1 a) (NInt d2 b) TEQUAL = of_bool_int (num_val (NInt d1 a) = num_val (NInt d2 b))
       \<and> num_rel (NInt d1 a) (NInt d2 b) TNEQU = of_bool_int (num_val (NInt d1 a) \<noteq> num_val (NInt d2 b))
       \<and> num_rel (NInt d1 a) (NInt d2 b) TLESSEQU = of_bool_int (num_val (NInt d1 a) \<le> num_val (NInt d2 b))
       \<and> num_rel (NInt d1 a) (NInt d2 b) TGTREQU = of_bool_int (num_val (NInt d2 b) \<le> num_val (NInt d1 a))
       \<and> of_int (num_rel (NInt d1 a) (NInt d2 b) TQUESTN) = sgn (num_val (NInt d1 a) - num_val (NInt d2 b))"
proof -
  let ?m = "max d1 d2"
  have v: "num_val (NInt d1 a) = of_int (scaled ?m d1 a) / 10 ^ ?m"
    "num_val (NInt d2 b) = of_int (scaled ?m d2 b) / 10 ^ ?m"
    by (rule num_val_scaled, simp)+
  note diff = num_rel_int_diff [OF assms]
  show ?thesis
    unfolding num_rel_def prod.case number.case Let_def diff v
    by (simp add: divide_less_cancel divide_le_cancel sgn_if of_bool_int_def)
qed

theorem num_rel_exact_witness:
  "num_rel (NInt 1 15) (NInt 2 150) TEQUAL = 1 \<and> num_rel (NInt 1 15) (NInt 2 151) TLESS = 1
     \<and> num_rel (NInt 1 15) (NInt 2 151) TQUESTN = - 1"
  using num_rel_exact [of 1 2 15 150] num_rel_exact [of 1 2 15 151]
  by (simp add: scaled_def fits_long_def of_bool_int_def)

text \<open>The comparison subtracts, so it is wrong when the difference does not fit a long:
  the largest number is not greater than -1.\<close>

theorem num_rel_wraps:
  "num_rel (NInt 0 9223372036854775807) (NInt 0 (- 1)) TGREATER = 0"
  by (simp add: num_rel_def of_bool_int_def)

lemma uint_eq_sint: "0 \<le> sint (w :: 64 word) \<Longrightarrow> uint w = sint w"
proof -
  assume "0 \<le> sint w"
  moreover have "sint w < 2 ^ 64" using fits_sint [of w] by (simp add: fits_long_def)
  ultimately have "take_bit 64 (sint w) = sint w" by (simp add: take_bit_int_eq_self)
  then show ?thesis using uint_sint [of w] by simp
qed

lemma sint_ucast_32: "sint (ucast (w :: 32 word) :: 64 word) = uint w"
proof -
  have "- (2 ^ 63) \<le> uint w" by (rule order.trans [of _ 0]) simp_all
  moreover have "uint w < 2 ^ 63" using unsigned_less [of w, where ?'a = int] by simp
  ultimately have "fits_long (uint w)" unfolding fits_long_def ..
  then have "sint (word_of_int (uint w) :: 64 word) = uint w" by (rule sint_fits)
  then show ?thesis by (simp add: word_of_int_uint)
qed

text \<open>Adding days to a date and subtracting the date again gives the days back, as long as the
  sum is a day number; a NULL number of days gives a NULL date.\<close>

theorem date_plus_days_minus_date:
  assumes "0 \<le> uint d + sint n" and "uint d + sint n < 2 ^ 32 - 1" and "stk_bytes s \<le> 65000"
  shows "\<exists>e. bop g TPLUS (VNum (NInt 0 n) # VDate (Some d) # s) = (Inr (), VDate (Some e) # s)
           \<and> uint e = uint d + sint n
           \<and> bop g TMINUS (VDate (Some d) # VDate (Some e) # s) = (Inr (), VNum (NInt 0 n) # s)
           \<and> bop g TPLUS (VNum NNull # VDate (Some d) # s) = (Inr (), VDate None # s)"
proof -
  have d32: "0 \<le> uint d" "uint d < 2 ^ 32" using unsigned_less [of d] by auto
  have sd: "sint (ucast d :: 64 word) = uint d"
    by (rule sint_ucast_32)
  let ?w = "ucast d + n"
  have fit: "fits_long (sint (ucast d :: 64 word) + sint n)" using assms sd by (simp add: fits_long_def)
  have sw: "sint ?w = uint d + sint n" using sint_add_fits [OF fit] sd by simp
  have no: "\<not> add_overflow TPLUS (ucast d) n ?w"
    using sw sd assms d32 by (simp add: add_overflow_def)
  define e :: "32 word" where "e = ucast ?w"
  have "uint e = uint ?w mod 2 ^ 32" by (simp add: e_def unsigned_ucast_eq take_bit_eq_mod)
  also have "uint ?w = uint d + sint n"
    using sw assms(1) uint_eq_sint [of ?w] by argo
  finally have ue: "uint e = uint d + sint n" using assms by simp
  have "e \<noteq> - 1"
  proof
    assume "e = - 1"
    then have "uint e = 2 ^ 32 - 1" by (simp add: unsigned_minus_1_eq_mask mask_eq_exp_minus_1)
    with ue assms show False by simp
  qed
  have "num_add (NInt 0 (ucast d)) (NInt 0 n) TPLUS = Inr (NInt 0 ?w)"
    using no by (simp add: num_add_def scale_up_def Let_def)
  then have add: "bop g TPLUS (VNum (NInt 0 n) # VDate (Some d) # s) = (Inr (), VDate (Some e) # s)"
    using \<open>e \<noteq> - 1\<close> assms(3)
    by (simp add: bop_def bop_add_def is_relop_def is_addop_def num_to_date_def push_defs e_def [symmetric]
        cm_simps del: One_nat_def)
  have se: "sint (ucast e :: 64 word) = uint e"
    by (rule sint_ucast_32)
  have sub: "ucast e - ucast d = n"
    using se sd ue sint_diff_fits [of "ucast e" "ucast d"] fits_sint [of n]
    by (auto intro: signed_word_eqI [where ?'a = int])
  have "\<not> add_overflow TMINUS (ucast e) (ucast d) (ucast e - ucast d)"
    using se sd d32 ue assms(1) by (simp add: add_overflow_def)
  then have "num_add (NInt 0 (ucast e)) (NInt 0 (ucast d)) TMINUS = Inr (NInt 0 n)"
    using sub by (simp add: num_add_def scale_up_def Let_def)
  then have "bop g TMINUS (VDate (Some d) # VDate (Some e) # s) = (Inr (), VNum (NInt 0 n) # s)"
    using assms(3)
    by (simp add: bop_def bop_add_def is_relop_def is_addop_def push_defs cm_simps del: One_nat_def)
  moreover have "bop g TPLUS (VNum NNull # VDate (Some d) # s) = (Inr (), VDate None # s)"
    using assms(3) by (simp add: bop_def bop_add_def is_relop_def is_addop_def num_to_date_def
        num_add_def push_defs cm_simps del: One_nat_def)
  ultimately show ?thesis using add ue by blast
qed

theorem date_plus_days_minus_date_witness:
  "\<exists>e. bop env0 TPLUS [VNum (NInt 0 30), VDate (Some 2460000)] = (Inr (), [VDate (Some e)])
     \<and> uint e = 2460030"
  using date_plus_days_minus_date [of 2460000 30 "[]" env0] by (auto simp: sint_uint)

end
