(* ===== verification/Numtext.thy ===== *)
theory Numtext
  imports Values
begin

text \<open>
  Numbers as text: num2str and str2num of server/hb/misc.c, with the printf conversions they use.
  strtod is a parameter: its result and whether it reports an error.
\<close>

section \<open>Conversions of printf\<close>

definition lquo :: "64 word \<Rightarrow> 64 word \<Rightarrow> 64 word" where
  \<comment> \<open>division of longs; the divisors here are powers of ten below 10 ^ 64, none of them 0\<close>
  "lquo a b = word_of_int (cquo (sint a) (sint b))"

definition lrem :: "64 word \<Rightarrow> 64 word \<Rightarrow> 64 word" where
  "lrem a b = word_of_int (crem (sint a) (sint b))"

definition fmt_ld :: "int \<Rightarrow> 64 word \<Rightarrow> string" where
  \<comment> \<open>%*ld: a negative width is the flag - and a width\<close>
  "fmt_ld w n =
     (let s = show_int (sint n) in
      if w < 0 then s @ replicate (nat (- w) - length s) (CHR '' '') else pad (CHR '' '') (nat w) s)"

definition fmt_0ld :: "nat \<Rightarrow> 64 word \<Rightarrow> string" where
  \<comment> \<open>%0*ld\<close>
  "fmt_0ld w n = fmt_0d w (sint n)"

definition fmt_lf :: "nat \<Rightarrow> nat \<Rightarrow> dbl \<Rightarrow> string" where
  \<comment> \<open>%*.*lf: the exact value rounded to prec decimals\<close>
  "fmt_lf w prec r =
     pad (CHR '' '') w
       (case r of
          NaN \<Rightarrow> ''nan''
        | Inf s \<Rightarrow> (if s then ''-inf'' else ''inf'')
        | Fin s m \<Rightarrow>
            (let k = nat (rhe (m * 10 ^ prec)) in
             (if s then ''-'' else []) @ show_nat (k div 10 ^ prec) @
             (if prec = 0 then [] else ''.'' @ pad (CHR ''0'') prec (show_nat (k mod 10 ^ prec)))))"

section \<open>num2str\<close>

abbreviation (input) MAXDIGITS :: nat where
  "MAXDIGITS \<equiv> 20"

definition stars :: "nat \<Rightarrow> string" where
  "stars n = replicate n (CHR ''*'')"

definition frac_digits :: "64 word \<Rightarrow> nat \<Rightarrow> nat \<Rightarrow> 64 word" where
  \<comment> \<open>the decimals of n, which has k of them, when deci are printed\<close>
  "frac_digits n k deci =
     (if deci < k then lquo (lrem n (power10 k) + 5 * power10 (k - deci - 1)) (power10 (k - deci))
      else lrem n (power10 k) * power10 (deci - k))"

definition round_whole :: "nat \<Rightarrow> 64 word \<Rightarrow> 64 word" where
  "round_whole k n =
     lquo n (power10 k) + lquo (lrem n (power10 k) + 5 * power10 (k - 1)) (power10 k)"

definition nodeci :: "number \<Rightarrow> int \<Rightarrow> string" where
  "nodeci num len =
     (if len \<le> 0 then
        let buf2 = (case num of
              NReal r \<Rightarrow> fmt_lf 0 0 r
            | NInt k n \<Rightarrow> fmt_ld 0 (if k = 0 then n else round_whole k n)
            | NNull \<Rightarrow> [])
        in if MAXDIGITS < length buf2 then stars MAXDIGITS else buf2
      else
        let len = min (nat len) MAXDIGITS;
            buf2 = (case num of
              NReal r \<Rightarrow> fmt_lf len 0 r
            | NInt k n \<Rightarrow> fmt_ld (int len) (if k = 0 then n else round_whole k n)
            | NNull \<Rightarrow> [])
        in if len < length buf2 then stars len else buf2)"

definition print_free :: "number \<Rightarrow> nat \<Rightarrow> string" where
  \<comment> \<open>the text with deci decimals and no width\<close>
  "print_free num deci =
     (case num of
        NReal r \<Rightarrow> fmt_lf 0 deci r
      | NInt k n \<Rightarrow>
          (if k = 0 then fmt_ld 0 n @ ''.'' @ fmt_0d deci 0
           else let m = (if sint n < 0 then - n else n) in
             fmt_ld 0 (lquo n (power10 k)) @ ''.'' @ fmt_0ld deci (frac_digits m k deci))
      | NNull \<Rightarrow> [])"

definition print_width :: "number \<Rightarrow> nat \<Rightarrow> nat \<Rightarrow> string" where
  \<comment> \<open>the text with deci decimals in len characters\<close>
  "print_width num len deci =
     (case num of
        NReal r \<Rightarrow> fmt_lf len deci r
      | NInt k n \<Rightarrow>
          (if k = 0 then fmt_ld (int len - int deci - 1) n @ ''.'' @ fmt_0d deci 0
           else let m = (if sint n < 0 then - n else n); d = frac_digits m k deci in
             if sint (lquo m (power10 k)) < 1
             then (if 0 < sint d \<and> sint n < 0 then ''-'' else []) @ ''0.'' @ fmt_0ld deci d
             else fmt_ld (int len - int deci - 1) (lquo n (power10 k)) @ ''.'' @ fmt_0ld deci d)
      | NNull \<Rightarrow> [])"

function num2str_free :: "number \<Rightarrow> int \<Rightarrow> nat \<Rightarrow> string" where
  "num2str_free num len deci =
     (let buf2 = print_free num deci; over = length buf2 - MAXDIGITS in
      if over = 0 then buf2
      else if deci = over \<or> deci + 1 = over then nodeci num len
      else if deci < over then stars MAXDIGITS
      else num2str_free num len (deci - over))"
  by pat_completeness auto
termination
  by (relation "measure (\<lambda>(num, len, deci). deci)") auto

function num2str_width :: "number \<Rightarrow> nat \<Rightarrow> nat \<Rightarrow> string" where
  "num2str_width num len deci =
     (let buf2 = print_width num len deci; over = length buf2 - len in
      if over = 0 then buf2
      else if deci = over \<or> deci + 1 = over then nodeci num (int len)
      else if deci < over then stars len
      else num2str_width num len (deci - over))"
  by pat_completeness auto
termination
  by (relation "measure (\<lambda>(num, len, deci). deci)") auto

declare num2str_free.simps [simp del]
declare num2str_width.simps [simp del]

definition num2str :: "number \<Rightarrow> int \<Rightarrow> nat \<Rightarrow> string option" where
  \<comment> \<open>the text left in buf; None for a NULL number, whose long is not initialised and whose 255
     decimals make power10 0\<close>
  "num2str num len deci =
     (if num = NNull then None
      else Some (if deci = 0 then nodeci num len
                 else if len \<le> 0 then num2str_free num len deci
                 else num2str_width num (min (nat len) MAXDIGITS) deci))"

section \<open>str2num\<close>

definition strtoul_10 :: "string \<Rightarrow> 64 word \<times> bool" where
  \<comment> \<open>the value and whether errno is ERANGE\<close>
  "strtoul_10 s =
     (let s = dropWhile isspace s;
          neg = (s \<noteq> [] \<and> hd s = CHR ''-'');
          t = (if s \<noteq> [] \<and> (hd s = CHR ''-'' \<or> hd s = CHR ''+'') then tl s else s);
          v = digits_val 0 (takeWhile isdigit t)
      in if 2 ^ 64 \<le> v then (- 1, True) else (if neg then - of_nat v else of_nat v, False))"

definition str2num :: "env \<Rightarrow> (string \<Rightarrow> dbl \<times> bool) \<Rightarrow> string \<Rightarrow> err + number" where
  \<comment> \<open>strtod s is the value and whether errno is set together with an overflow or a zero\<close>
  "str2num g strtod numbuf =
     (let numbuf = takeWhile (\<lambda>c. c \<noteq> CHR 0x00) numbuf;
          before = takeWhile (\<lambda>c. c \<noteq> CHR ''.'') numbuf;
          tp = drop (length before) numbuf;
          has_dot = (tp \<noteq> []);
          (is_real, deci, text) =
            (if \<not> isset g DFPI_ON then (has_dot, 0, numbuf)
             else if CHR ''e'' \<in> set numbuf \<or> CHR ''E'' \<in> set numbuf then (True, 0, numbuf)
             else if has_dot then
               (let deci = length tp - 1 in
                if DECI_MAX < deci then (True, deci, numbuf) else (False, deci, before @ tl tp))
             else (False, 0, numbuf))
      in if is_real then
           (case strtod text of (d, failed) \<Rightarrow>
              if failed then Inl (Syn INVALID_VALUE) else Inr (NReal d))
         else
           (case strtoul_10 text of (n, failed) \<Rightarrow>
              if failed then Inl (Syn INVALID_VALUE) else Inr (NInt deci n)))"

section \<open>Lengths\<close>

lemma length_stars [simp]: "length (stars n) = n"
  by (simp add: stars_def)

lemma length_nodeci: "length (nodeci num len) \<le> (if 0 < len then min (nat len) MAXDIGITS else MAXDIGITS)"
  by (auto simp: nodeci_def Let_def not_less min_def)

lemma length_num2str_free: "length (num2str_free num len deci) \<le> MAXDIGITS"
proof (induction num len deci rule: num2str_free.induct)
  case (1 num len deci)
  then show ?case
    using length_nodeci [of num len]
    by (subst num2str_free.simps) (auto simp: Let_def split: if_splits)
qed

lemma length_num2str_width: "len \<le> MAXDIGITS \<Longrightarrow> 0 < len \<Longrightarrow> length (num2str_width num len deci) \<le> len"
proof (induction num len deci rule: num2str_width.induct)
  case (1 num len deci)
  then show ?case
    using length_nodeci [of num "int len"]
    by (subst num2str_width.simps) (auto simp: Let_def split: if_splits)
qed

text \<open>C29: num2str never writes more characters than the width asked for, nor more than MAXDIGITS,
  whatever the number and its decimals.\<close>

theorem num2str_bounded:
  assumes "num2str num len deci = Some t"
  shows "length t \<le> (if 0 < len then min (nat len) MAXDIGITS else MAXDIGITS)"
  using assms length_nodeci [of num len] length_num2str_free [of num len deci]
    length_num2str_width [of "min (nat len) MAXDIGITS" num deci]
  by (auto simp: num2str_def split: if_splits)

theorem num2str_bounded_witness:
  "\<exists>t. num2str (NInt 3 1999) 8 2 = Some t \<and> length t \<le> 8"
proof -
  obtain t where "num2str (NInt 3 1999) 8 2 = Some t" by (simp add: num2str_def)
  with num2str_bounded [OF this] show ?thesis by simp
qed

section \<open>Printing and reading back\<close>

lemma digits_val_acc: "digits_val acc s = acc * 10 ^ length s + digits_val 0 s"
proof (induction s arbitrary: acc)
  case Nil
  show ?case by simp
next
  case (Cons c s)
  show ?case
    using Cons [of "acc * 10 + (cval c - 48)"] Cons [of "cval c - 48"] by (simp add: algebra_simps)
qed

definition zpad :: "nat \<Rightarrow> nat \<Rightarrow> string" where
  "zpad k r = pad (CHR ''0'') k (show_nat r)"

lemma zpad_val: "digits_val 0 (zpad k r) = r"
  by (simp add: zpad_def C_Text.pad_def digits_val_show_nat)

lemma zpad_length: "r < 10 ^ k \<Longrightarrow> 0 < k \<Longrightarrow> length (zpad k r) = k"
  using length_show_nat_le [of r k] by (simp add: zpad_def C_Text.pad_def)

lemma isdigit_0 [simp]: "isdigit (CHR ''0'')"
  by (simp add: isdigit_def)

lemma zpad_digits: "\<forall>c \<in> set (zpad k r). isdigit c"
  using show_nat_digits [of r] by (auto simp: zpad_def C_Text.pad_def)

lemma isdigit_not: "isdigit c \<Longrightarrow> c \<noteq> CHR ''.'' \<and> c \<noteq> CHR ''e'' \<and> c \<noteq> CHR ''E'' \<and> c \<noteq> CHR 0x00
    \<and> c \<noteq> CHR ''-'' \<and> c \<noteq> CHR ''+'' \<and> \<not> isspace c"
  by (auto simp: isdigit_def isspace_def)

lemma strtoul_digits:
  assumes "\<forall>c \<in> set s. isdigit c" and "digits_val 0 s < 2 ^ 64"
  shows "strtoul_10 s = (of_nat (digits_val 0 s), False)"
proof -
  have d: "dropWhile isspace s = s" using assms(1) isdigit_not by (cases s) auto
  have t: "takeWhile isdigit s = s" using assms(1) by simp
  have h: "\<not> (s \<noteq> [] \<and> hd s = CHR ''-'')" "\<not> (s \<noteq> [] \<and> (hd s = CHR ''-'' \<or> hd s = CHR ''+''))"
    using assms(1) isdigit_not by (cases s; auto)+
  show ?thesis
    unfolding strtoul_10_def Let_def d if_not_P [OF h(2)] t if_not_P [OF h(1)] using assms(2) by simp
qed

lemma str2num_decimal:
  assumes "\<forall>c \<in> set p. isdigit c" and "\<forall>c \<in> set q. isdigit c" and "length q \<le> DECI_MAX"
    and "digits_val 0 (p @ q) < 2 ^ 64" and "isset g DFPI_ON"
  shows "str2num g strtod (p @ CHR ''.'' # q) = Inr (NInt (length q) (of_nat (digits_val 0 (p @ q))))"
proof -
  have nz: "takeWhile (\<lambda>c. c \<noteq> CHR 0x00) (p @ CHR ''.'' # q) = p @ CHR ''.'' # q"
    using assms(1,2) isdigit_not by (intro takeWhile_eq_all_conv [THEN iffD2]) auto
  have dot: "takeWhile (\<lambda>c. c \<noteq> CHR ''.'') (p @ CHR ''.'' # q) = p"
    using assms(1) isdigit_not by (subst takeWhile_append2) auto
  have "CHR ''e'' \<notin> set (p @ CHR ''.'' # q)" "CHR ''E'' \<notin> set (p @ CHR ''.'' # q)"
    using assms(1,2) isdigit_not by auto
  moreover have "strtoul_10 (p @ q) = (of_nat (digits_val 0 (p @ q)), False)"
    using assms by (intro strtoul_digits) auto
  ultimately show ?thesis
    using assms(3,5) by (simp add: str2num_def nz dot Let_def)
qed

lemma str2num_digits:
  assumes "\<forall>c \<in> set p. isdigit c" and "digits_val 0 p < 2 ^ 64" and "isset g DFPI_ON"
  shows "str2num g strtod p = Inr (NInt 0 (of_nat (digits_val 0 p)))"
proof -
  have nz: "takeWhile (\<lambda>c. c \<noteq> CHR 0x00) p = p"
    using assms(1) isdigit_not by (intro takeWhile_eq_all_conv [THEN iffD2]) auto
  have dot: "takeWhile (\<lambda>c. c \<noteq> CHR ''.'') p = p"
    using assms(1) isdigit_not by (intro takeWhile_eq_all_conv [THEN iffD2]) auto
  have "CHR ''e'' \<notin> set p" "CHR ''E'' \<notin> set p" using assms(1) isdigit_not by auto
  then show ?thesis
    using assms(3) strtoul_digits [OF assms(1,2)] by (simp add: str2num_def nz dot Let_def)
qed

definition env1 :: env where
  "env1 = env0\<lparr>onoff_flags := (\<lambda>n. 1)\<rparr>"

lemma long_nat:
  fixes n :: "64 word"
  assumes "0 \<le> sint n"
  obtains N where "n = of_nat N" and "N < 2 ^ 63" and "sint n = int N"
proof -
  obtain N where N: "sint n = int N" using assms by (rule nonneg_int_cases)
  have "N < 2 ^ 63" using fits_sint [of n] N by (simp add: fits_long_def)
  moreover have "n = word_of_int (int N)" unfolding N [symmetric] by simp
  then have "n = of_nat N" by simp
  ultimately show ?thesis using that N by metis
qed

lemma sint_nat: "N < 2 ^ 63 \<Longrightarrow> sint (word_of_int (int N) :: 64 word) = int N"
  by (rule sint_fits) (simp add: fits_long_def)

lemma decimal_split:
  assumes "sint n = int N" and "N < 2 ^ 63" and "k \<le> 18"
  shows "sint (lquo n (power10 k)) = int (N div 10 ^ k)" and "lrem n (power10 k) = of_nat (N mod 10 ^ k)"
    and "sint (of_nat (N mod 10 ^ k) :: 64 word) = int (N mod 10 ^ k)"
proof -
  have q: "cquo (sint n) (sint (power10 k)) = int (N div 10 ^ k)"
    using assms by (simp add: sint_power10_le zdiv_int)
  have r: "crem (sint n) (sint (power10 k)) = int (N mod 10 ^ k)"
    using assms by (simp add: sint_power10_le zmod_int)
  have "N div 10 ^ k < 2 ^ 63" "N mod 10 ^ k < 2 ^ 63"
    using assms(2) by (meson div_le_dividend mod_less_eq_dividend order.strict_trans1)+
  then show "sint (lquo n (power10 k)) = int (N div 10 ^ k)"
    "lrem n (power10 k) = of_nat (N mod 10 ^ k)"
    "sint (of_nat (N mod 10 ^ k) :: 64 word) = int (N mod 10 ^ k)"
    using sint_nat by (simp_all add: lquo_def lrem_def q r)
qed

lemma fmt_ld_0_nonneg: "0 \<le> sint n \<Longrightarrow> fmt_ld 0 n = show_nat (nat (sint n))"
  by (simp add: fmt_ld_def show_int_def C_Text.pad_def Let_def)

lemma print_free_decimal:
  assumes "sint n = int N" and "N < 2 ^ 63" and "0 < k" and "k \<le> 18"
  shows "print_free (NInt k n) k = show_nat (N div 10 ^ k) @ CHR ''.'' # zpad k (N mod 10 ^ k)"
  using assms decimal_split [OF assms(1,2,4)]
  by (simp add: print_free_def frac_digits_def fmt_ld_0_nonneg fmt_0ld_def fmt_0d_def zpad_def)

lemma print_free_short:
  assumes "N < 2 ^ 63" and "0 < k" and "k \<le> 18"
  shows "length (show_nat (N div 10 ^ k) @ CHR ''.'' # zpad k (N mod 10 ^ k)) \<le> MAXDIGITS"
proof -
  have "N < 10 ^ 19" using assms(1) by simp
  also have "(10::nat) ^ 19 = 10 ^ (19 - k) * 10 ^ k" using assms by (simp flip: power_add)
  finally have "N div 10 ^ k < 10 ^ (19 - k)" by (simp add: less_mult_imp_div_less)
  then have "length (show_nat (N div 10 ^ k)) \<le> 19 - k" using assms(3) by (intro length_show_nat_le) simp_all
  moreover have "length (zpad k (N mod 10 ^ k)) = k" using assms(2) by (intro zpad_length) simp_all
  ultimately show ?thesis using assms(3) by simp
qed

text \<open>C24: a number that is not negative prints, with its own decimals and without a width, to a text that reads back as
  the same number, under SET DFPI ON.\<close>

theorem num_text_roundtrip:
  assumes "0 \<le> sint n" and "k \<le> DECI_MAX" and "isset g DFPI_ON"
  shows "\<exists>t. num2str (NInt k n) 0 k = Some t \<and> str2num g strtod t = Inr (NInt k n)"
proof -
  obtain N where N: "n = of_nat N" "N < 2 ^ 63" "sint n = int N"
    using long_nat [OF assms(1)] by metis
  show ?thesis
  proof (cases "k = 0")
    case True
    have "length (show_nat N) \<le> 19" using N(2) by (intro length_show_nat_le) simp_all
    then have "num2str (NInt k n) 0 k = Some (show_nat N)"
      using True N(3) assms(1) by (simp add: num2str_def nodeci_def fmt_ld_0_nonneg Let_def)
    moreover have "str2num g strtod (show_nat N) = Inr (NInt k n)"
      using True N assms(3) str2num_digits [OF show_nat_digits, of N g strtod]
      by (simp add: digits_val_show_nat)
    ultimately show ?thesis by blast
  next
    case False
    let ?p = "show_nat (N div 10 ^ k)" and ?q = "zpad k (N mod 10 ^ k)"
    have "num2str (NInt k n) 0 k = Some (?p @ CHR ''.'' # ?q)"
      using False print_free_decimal [OF N(3,2), of k] print_free_short [OF N(2), of k] assms(2)
      by (simp add: num2str_def num2str_free.simps [of _ _ k])
    moreover have ql: "length ?q = k" using False by (intro zpad_length) simp_all
    have "digits_val 0 (?p @ ?q) = N"
      using digits_val_acc [of "N div 10 ^ k" ?q] ql
      by (simp add: digits_val_append digits_val_show_nat zpad_val div_mult_mod_eq)
    then have "str2num g strtod (?p @ CHR ''.'' # ?q) = Inr (NInt k n)"
      using str2num_decimal [OF show_nat_digits zpad_digits, of k "N mod 10 ^ k" "N div 10 ^ k" g strtod]
        ql assms(2,3) N by simp
    ultimately show ?thesis by blast
  qed
qed

theorem num_text_roundtrip_witness:
  "\<forall>strtod. \<exists>t. num2str (NInt 2 1234) 0 2 = Some t \<and> str2num env1 strtod t = Inr (NInt 2 1234)"
  by (intro allI, rule num_text_roundtrip) (simp_all add: env1_def isset_def)

text \<open>Rounding the decimals carries no further than the decimals: 1.999 with two decimals prints
  as 1.100; and a negative number above -1 loses its sign when no width is given.\<close>

theorem num2str_carry_lost:
  "num2str (NInt 3 1999) 0 2 = Some ''1.100'' \<and> num2str (NInt 1 (- 5)) 0 1 = Some ''0.5''"
proof -
  have p: "power10 3 = 1000" "power10 1 = 10" "power10 0 = 1" by (simp_all add: numeral_3_eq_3)
  have c: "char_of (49 :: nat) = CHR ''1''" "char_of (48 :: nat) = CHR ''0''" "char_of (53 :: nat) = CHR ''5''"
    by code_simp+
  have "print_free (NInt 3 1999) 2 = ''1.100''"
    using p c by (simp add: print_free_def frac_digits_def lquo_def lrem_def crem_def fmt_ld_def fmt_0ld_def
        fmt_0d_def show_int_def show_nat.simps C_Text.pad_def Let_def)
  moreover have "print_free (NInt 1 (- 5)) 1 = ''0.5''"
    using p c by (simp add: print_free_def frac_digits_def lquo_def lrem_def crem_def fmt_ld_def fmt_0ld_def
        cquo_neg fmt_0d_def show_int_def show_nat.simps C_Text.pad_def Let_def)
  ultimately show ?thesis
    by (simp add: num2str_def num2str_free.simps [of _ _ 2] num2str_free.simps [of _ _ "Suc 0"])
qed

end
