(* ===== verification/Functions.thy ===== *)
theory Functions
  imports Numtext
begin

text \<open>
  The built-in functions of expressions that work on values alone: server/hb/fcn.c. A function
  takes the number of its arguments and finds them on the stack, the last one on top. Buffers of
  the code have a fixed size; writing or reading outside one is the outcome Undefined.
\<close>

section \<open>Helpers\<close>

definition pop_string :: "string sm" where
  \<comment> \<open>the bytes of pop_stack(CHARCTR)\<close>
  "pop_string = bnd (pop_stack CHARCTR) (\<lambda>v. case v of VChar s \<Rightarrow> ret s | _ \<Rightarrow> raise Undefined)"

definition in_buffer :: "nat \<Rightarrow> string \<Rightarrow> string sm" where
  \<comment> \<open>the text is copied into a buffer of n bytes\<close>
  "in_buffer n s = (if n < length s then raise Undefined else ret s)"

abbreviation (input) STRBUFSZ :: nat where
  "STRBUFSZ \<equiv> 2048"

definition undef_none :: "'a option \<Rightarrow> 'a sm" where
  "undef_none r = (case r of None \<Rightarrow> raise Undefined | Some x \<Rightarrow> ret x)"

definition push_nat :: "nat \<Rightarrow> unit sm" where
  "push_nat n = push_int (of_nat n)"

section \<open>Texts\<close>

definition ttoc :: "nat \<Rightarrow> unit sm" where
  "ttoc parm_cnt =
     bnd (pop_int 0 (- 1)) (\<lambda>tn.
       push_string (fmt_0d 2 (crem (cquo tn 3600) 24) @ '':'' @ fmt_0d 2 (cquo (crem tn 3600) 60) @ '':''
                    @ fmt_0d 2 (crem tn 60)))"

definition str_fcn :: "env \<Rightarrow> nat \<Rightarrow> unit sm" where
  "str_fcn g parm_cnt =
     bnd (if parm_cnt = 3 then pop_int 0 (int MAXDIGITS) else ret (- 1)) (\<lambda>deci.
     bnd (if 1 < parm_cnt then pop_int 0 (int MAXDIGITS) else ret (nwidth g)) (\<lambda>len.
     let len = (if deci \<noteq> - 1 \<and> 0 < len \<and> len < deci + 2 then deci + 2 else len);
         deci = (if deci = - 1 then ndeci g else deci)
     in bnd pop_number (\<lambda>num. bnd (undef_none (num2str num len (nat deci))) (\<lambda>buf.
          \<comment> \<open>push_string(buf, len) takes len bytes of buf\<close>
          if 0 < len then
            (if int (length buf) < len then raise Undefined else push_string (take (nat len) buf))
          else push_string buf))))"

definition substr :: "nat \<Rightarrow> unit sm" where
  "substr parm_cnt =
     bnd (if parm_cnt = 3 then pop_int 0 (int MAXSTRLEN) else ret (- 1)) (\<lambda>len.
     bnd (pop_int 1 (int MAXSTRLEN)) (\<lambda>start1. let start = start1 - 1 in
     bnd pop_string (\<lambda>s.
       if start < int (length s) then
         let len1 = int (length s) - start;
             len = (if len = - 1 \<or> len1 < len then len1 else len)
         in bnd (in_buffer MAXSTRLEN (take (nat len) (drop (nat start) s))) push_string
       else push_string [])))"

definition val_fcn :: "env \<Rightarrow> nat \<Rightarrow> unit sm" where
  "val_fcn g parm_cnt =
     bnd pop_string (\<lambda>s. bnd (in_buffer (STRBUFSZ - 1) s) (\<lambda>numbuf.
     bnd (lift_res (str2num g (strtod_c g) numbuf)) push_number))"

definition upr_lwr :: "bool \<Rightarrow> unit sm" where
  \<comment> \<open>in place, on the top of the stack\<close>
  "upr_lwr up = (\<lambda>s. case s of
       VChar t # s' \<Rightarrow> (Inr (), VChar (map (if up then to_upper else to_lower) t) # s')
     | _ \<Rightarrow> typechk CHARCTR s)"

definition lower :: "nat \<Rightarrow> unit sm" where
  "lower parm_cnt = upr_lwr False"

definition upper :: "nat \<Rightarrow> unit sm" where
  "upper parm_cnt = upr_lwr True"

definition chr :: "nat \<Rightarrow> unit sm" where
  "chr parm_cnt = bnd (pop_int 0 255) (\<lambda>c. push_string [char_of (nat c)])"

definition asc :: "nat \<Rightarrow> unit sm" where
  "asc parm_cnt = bnd pop_string (\<lambda>s. case s of [] \<Rightarrow> raise Undefined | c # _ \<Rightarrow> push_nat (cval c))"

fun find_at :: "string \<Rightarrow> string \<Rightarrow> nat \<Rightarrow> nat \<Rightarrow> nat" where
  \<comment> \<open>for (i..) if (!memcmp(v2->buf, v1->buf + i, v2->valspec.len)): n positions are left\<close>
  "find_at p t i 0 = 0"
| "find_at p t i (Suc n) = (if take (length p) t = p then Suc i else find_at p (tl t) (Suc i) n)"

definition at_fcn :: "nat \<Rightarrow> unit sm" where
  "at_fcn parm_cnt =
     bnd pop_string (\<lambda>v1. bnd pop_string (\<lambda>v2.
       push_nat (if length v2 \<le> length v1 then find_at v2 v1 0 (Suc (length v1 - length v2)) else 0)))"

definition trim :: "nat \<Rightarrow> bool \<Rightarrow> unit sm" where
  \<comment> \<open>a string of blanks only has no character that stops the loop inside temp\<close>
  "trim parm_cnt dir =
     bnd pop_string (\<lambda>s. bnd (in_buffer STRBUFSZ s) (\<lambda>temp.
       if list_all (\<lambda>c. c = CHR '' '') temp then raise Undefined
       else if dir then push_string (rev (dropWhile (\<lambda>c. c = CHR '' '') (rev temp)))
       else push_string (dropWhile (\<lambda>c. c = CHR '' '') temp)))"

definition ltrim :: "nat \<Rightarrow> unit sm" where
  "ltrim parm_cnt = trim parm_cnt False"

definition rtrim :: "nat \<Rightarrow> unit sm" where
  "rtrim parm_cnt = trim parm_cnt True"

definition len_fcn :: "nat \<Rightarrow> unit sm" where
  "len_fcn parm_cnt =
     bnd pop_string (\<lambda>s.
       push_nat (if s \<noteq> [] \<and> last s = CHR 0x00 then length s - 1 else length s))"

definition left :: "nat \<Rightarrow> unit sm" where
  "left parm_cnt =
     bnd (pop_int 0 (int MAXSTRLEN)) (\<lambda>len. bnd pop_string (\<lambda>s.
       push_string (take (nat len) s)))"

definition right :: "nat \<Rightarrow> unit sm" where
  "right parm_cnt =
     bnd (pop_int 0 (int MAXSTRLEN)) (\<lambda>len. bnd pop_string (\<lambda>s.
       push_string (drop (length s - nat len) s)))"

fun replicate_loop :: "nat \<Rightarrow> string \<Rightarrow> string \<Rightarrow> string" where
  "replicate_loop 0 v out = out"
| "replicate_loop (Suc n) v out =
     (let len = (if MAXSTRLEN < length out + length v then MAXSTRLEN - length out else length v)
      in replicate_loop n v (out @ take len v))"

definition replicate_fcn :: "nat \<Rightarrow> unit sm" where
  "replicate_fcn parm_cnt =
     bnd (pop_int 0 (int MAXSTRLEN)) (\<lambda>n. bnd pop_string (\<lambda>s.
       push_string (replicate_loop (nat n) s [])))"

definition space :: "nat \<Rightarrow> unit sm" where
  "space parm_cnt =
     bnd (pop_int 0 (int MAXSTRLEN)) (\<lambda>n. push_string (replicate (nat n) (CHR '' '')))"

definition stuff :: "nat \<Rightarrow> unit sm" where
  "stuff parm_cnt =
     bnd pop_string (\<lambda>s1. bnd (in_buffer MAXSTRLEN s1) (\<lambda>str1.
     bnd (pop_int 0 (int MAXSTRLEN)) (\<lambda>len.
     bnd (pop_int 1 (int MAXSTRLEN)) (\<lambda>start1.
     bnd pop_string (\<lambda>v.
       let start = min (nat (start1 - 1)) (length v);
           len = min (length v - start) (nat len)
       in if MAXSTRLEN < length v - len + length str1 then raise (Syn STR_TOOLONG)
          else push_string (take start v @ str1 @ drop (start + len) v))))))"

fun count_at :: "string \<Rightarrow> string \<Rightarrow> nat \<Rightarrow> nat" where
  "count_at p t 0 = 0"
| "count_at p t (Suc n) = (if take (length p) t = p then 1 else 0) + count_at p (tl t) n"

definition occurs :: "nat \<Rightarrow> unit sm" where
  \<comment> \<open>for (i=0; i<n; ++i) with n = len2 - len1\<close>
  "occurs parm_cnt =
     bnd pop_string (\<lambda>str2. bnd pop_string (\<lambda>str1.
       push_nat (if length str1 \<le> length str2 then count_at str1 str2 (length str2 - length str1) else 0)))"

datatype pad_mode = PAD_RIGHT | PAD_LEFT | PAD_CENTER

definition fill :: "nat \<Rightarrow> string \<Rightarrow> string" where
  \<comment> \<open>n copies of str2 and the rest of it: len bytes\<close>
  "fill len str2 = concat (replicate (len div length str2) str2) @ take (len mod length str2) str2"

definition overlay :: "string \<Rightarrow> nat \<Rightarrow> string \<Rightarrow> string" where
  \<comment> \<open>memcpy(str + pos, s, strlen(s))\<close>
  "overlay t pos s = take pos t @ s @ drop (pos + length s) t"

definition pad_fcn :: "pad_mode \<Rightarrow> nat \<Rightarrow> unit sm" where
  "pad_fcn mode parm_cnt =
     bnd pop_string (\<lambda>str2. bnd (pop_int 1 (int MAXSTRLEN)) (\<lambda>n. bnd pop_string (\<lambda>str1.
       let len = nat n; len1 = length str1 in
       if len \<le> len1 then push_string (take len str1)
       else if str2 = [] then raise Undefined
       else push_string (case mode of
              PAD_RIGHT \<Rightarrow> overlay (fill len str2) 0 str1
            | PAD_LEFT \<Rightarrow> overlay (fill len str2) (len - len1) str1
            | PAD_CENTER \<Rightarrow> overlay (fill len str2) ((len - len1) div 2) str1))))"

definition padc :: "nat \<Rightarrow> unit sm" where
  "padc parm_cnt = pad_fcn PAD_CENTER parm_cnt"

definition padl :: "nat \<Rightarrow> unit sm" where
  "padl parm_cnt = pad_fcn PAD_LEFT parm_cnt"

definition padr :: "nat \<Rightarrow> unit sm" where
  "padr parm_cnt = pad_fcn PAD_RIGHT parm_cnt"

fun proper_loop :: "char \<Rightarrow> string \<Rightarrow> string" where
  "proper_loop c [] = []"
| "proper_loop c (x # xs) =
     (if c = CHR '' '' then
        if x = CHR '' '' then proper_loop c xs
        else to_upper x # proper_loop (to_upper x) xs
      else to_lower x # proper_loop (to_lower x) xs)"

definition proper :: "nat \<Rightarrow> unit sm" where
  "proper parm_cnt = bnd pop_string (\<lambda>s. push_string (proper_loop (CHR '' '') s))"

definition soundex_digit :: "char \<Rightarrow> char option" where
  "soundex_digit c =
     (if c \<in> set ''BFPV'' then Some (CHR ''1'')
      else if c \<in> set ''CGJKQSXZ'' then Some (CHR ''2'')
      else if c \<in> set ''DT'' then Some (CHR ''3'')
      else if c = CHR ''L'' then Some (CHR ''4'')
      else if c \<in> set ''MN'' then Some (CHR ''5'')
      else if c = CHR ''R'' then Some (CHR ''6'')
      else None)"

fun soundex_loop :: "string \<Rightarrow> string \<Rightarrow> string" where
  \<comment> \<open>code holds the characters written so far, the last one first\<close>
  "soundex_loop [] code = code"
| "soundex_loop (x # xs) code =
     (if 4 \<le> length code then code
      else let c = to_upper x in
        if code = [] then soundex_loop xs [c]
        else case soundex_digit c of
               None \<Rightarrow> soundex_loop xs code
             | Some d \<Rightarrow> soundex_loop xs (if hd code \<noteq> d then d # code else code))"

definition soundex :: "nat \<Rightarrow> unit sm" where
  "soundex parm_cnt =
     bnd pop_string (\<lambda>s. let code = rev (soundex_loop s []) in
       push_string (code @ replicate (4 - length code) (CHR ''0'')))"

section \<open>Numbers\<close>

definition libm :: "(dbl \<Rightarrow> dbl \<times> bool) \<Rightarrow> dbl \<Rightarrow> unit sm" where
  \<comment> \<open>the call, the test of errno and of the exception flags, and push_real\<close>
  "libm f x = (case f x of (r, failed) \<Rightarrow>
     if failed then raise (Syn INVALID_VALUE) else push_real r)"

definition exp_fcn :: "env \<Rightarrow> nat \<Rightarrow> unit sm" where
  "exp_fcn g parm_cnt = bnd pop_real (libm (exp_c g))"

definition log_fcn :: "env \<Rightarrow> nat \<Rightarrow> unit sm" where
  "log_fcn g parm_cnt =
     bnd pop_real (\<lambda>x. if dlt x (i2d 0) \<or> deq x (i2d 0) then raise (Syn INVALID_VALUE)
                       else libm (log_c g) x)"

definition log10_fcn :: "env \<Rightarrow> nat \<Rightarrow> unit sm" where
  "log10_fcn g parm_cnt =
     bnd pop_real (\<lambda>x. if dlt x (i2d 0) \<or> deq x (i2d 0) then raise (Syn INVALID_VALUE)
                       else libm (log10_c g) x)"

definition sqrt_fcn :: "env \<Rightarrow> nat \<Rightarrow> unit sm" where
  "sqrt_fcn g parm_cnt = bnd pop_real (libm (sqrt_c g))"

definition mod_fcn :: "nat \<Rightarrow> unit sm" where
  "mod_fcn parm_cnt =
     bnd pop_real (\<lambda>y. bnd pop_real (\<lambda>x.
       if deq y (i2d 0) then push_real x
       else let z = ddiv x y; x = dsub x (dmul (dfloor z) y)
            in push_real (if dlt z (i2d 0) \<and> dlt y (i2d 0) then dsub y x else x)))"

definition int_fcn :: "nat \<Rightarrow> unit sm" where
  "int_fcn parm_cnt = bnd pop_real (\<lambda>x. push_int (word_of_int (d2long x)))"

definition abs_fcn :: "nat \<Rightarrow> unit sm" where
  "abs_fcn parm_cnt = bnd pop_real (\<lambda>x. push_real (dabs x))"

definition round_deci :: "nat \<Rightarrow> 64 word \<Rightarrow> int \<Rightarrow> number" where
  \<comment> \<open>the branch deci < num.deci of round_, num having k decimals\<close>
  "round_deci k m deci =
     (let n = lquo m (power10 k); d = lrem m (power10 k) in
      if 0 < deci then
        let j = nat deci;
            d = lquo (d + 5 * power10 (k - j - 1)) (power10 (k - j))
        in NInt j (n * power10 j + d)
      else if deci = 0 then
        NInt 0 (n + lquo (d + 5 * power10 (k - 1)) (power10 k))
      else
        let j = nat (- deci);
            d = lquo (lrem n (power10 j) + 5 * power10 (j - 1)) (power10 j)
        in NInt 0 ((lquo n (power10 j) + d) * power10 j))"

definition round_fcn :: "env \<Rightarrow> nat \<Rightarrow> unit sm" where
  \<comment> \<open>a number with enough decimals is pushed in its branch and again after it; for a NULL number
     the code divides by power10(255), which is 0\<close>
  "round_fcn g parm_cnt =
     bnd (if 1 < parm_cnt then pop_int (- int MAXDIGITS) (int MAXDIGITS) else ret (ndeci g)) (\<lambda>deci.
     bnd pop_number (\<lambda>num. case num of
         NReal r \<Rightarrow>
           (let r2 = dmul (pow g (i2d 10) (i2d (- deci)))
                  (i2d (d2long (dadd (dmul r (pow g (i2d 10) (i2d deci))) (ddiv (i2d 1) (i2d 2)))))
            in if (dlt (i2d 0) r \<and> dlt r2 (i2d 0)) \<or> (dlt r (i2d 0) \<and> dlt (i2d 0) r2)
               then raise (Syn INVALID_VALUE) else push_real r2)
       | NInt k m \<Rightarrow>
           (if int k \<le> deci then bnd (push_number num) (\<lambda>_. push_number num)
            else push_number (round_deci k m deci))
       | NNull \<Rightarrow> raise Undefined))"

definition between :: "nat \<Rightarrow> unit sm" where
  "between parm_cnt =
     bnd pop_number (\<lambda>z. bnd pop_number (\<lambda>y. bnd pop_number (\<lambda>x.
       push_logic (of_bool_int (num_rel x y TGREATER \<noteq> 0 \<and> num_rel x z TLESS \<noteq> 0)))))"

primrec nums1 :: "nat \<Rightarrow> string" where
  "nums1 0 = ''one''"
| "nums1 (Suc n) =
     [''two'', ''three'', ''four'', ''five'', ''six'', ''seven'', ''eight'', ''nine'', ''ten'',
      ''eleven'', ''twelve'', ''thirteen'', ''fourteen'', ''fifteen'', ''sixteen'', ''seventeen'',
      ''eighteen'', ''nineteen''] ! n"

definition nums2 :: "nat \<Rightarrow> string" where
  "nums2 n = [''twenty'', ''thirty'', ''forty'', ''fifty'', ''sixty'', ''seventy'', ''eighty'', ''ninety''] ! n"

function numspell :: "nat \<Rightarrow> string" where
  \<comment> \<open>what is written through *p: every word is followed by a blank of the buffer\<close>
  "numspell n =
     (if n = 0 then []
      else if n < 20 then nums1 (n - 1) @ '' ''
      else if n < 100 then nums2 (n div 10 - 2) @ '' '' @ numspell (n mod 10)
      else if n < 1000 then numspell (n div 100) @ ''hundred '' @ numspell (n mod 100)
      else if n < 1000000 then numspell (n div 1000) @ ''thousand '' @ numspell (n mod 1000)
      else if n < 1000000000 then numspell (n div 1000000) @ ''million '' @ numspell (n mod 1000000)
      else numspell (n div 1000000000) @ ''billion '' @ numspell (n mod 1000000000))"
  by pat_completeness auto
termination
proof (relation "measure id")
  fix n :: nat
  assume "n \<noteq> 0" and n: "\<not> n < 20" "\<not> n < 100" "\<not> n < 1000" "\<not> n < 1000000" "\<not> n < 1000000000"
  have "n mod 1000000000 < 1000000000" by simp
  with n show "(n mod 1000000000, n) \<in> measure id" by (simp only: in_measure id_apply)
qed auto

declare numspell.simps [simp del]

definition spell_parts :: "nat \<Rightarrow> 64 word \<Rightarrow> 64 word \<times> int" where
  \<comment> \<open>n and cents of a decimal number that is not negative; cents is an int\<close>
  "spell_parts k m =
     (if k = 0 then (m, 0)
      else let n = lquo m (power10 k); cents = to_int32 (m - n * power10 k) in
        if k = 1 then (n, to_int32 (word_of_int (cents * 10)))
        else if 2 < k then
          let cents = to_int32 (lquo (word_of_int cents + 5 * power10 (k - 2 - 1)) (power10 (k - 2)))
          in if 100 \<le> cents then (n + 1, 0) else (n, cents)
        else (n, cents))"

definition spell_finish :: "string \<Rightarrow> 64 word \<Rightarrow> int \<Rightarrow> unit sm" where
  \<comment> \<open>numspell(n, &p), then "and %02d/100"; p was advanced by the length of pre\<close>
  "spell_finish pre n cents =
     (if sint n < 0 \<or> cents < 0 \<or> 99 < cents then raise Undefined
      else push_string (pre @ numspell (nat (sint n)) @ ''and '' @ fmt_0d 2 cents @ ''/100''))"

definition spellnum :: "nat \<Rightarrow> unit sm" where
  \<comment> \<open>num.n of a NULL number is not initialised. The sign of a double is tested and changed on its
     bits as a long, which the model of doubles does not have; a negative long is negated, and the
     least one stays negative, an index outside nums1\<close>
  "spellnum parm_cnt =
     bnd pop_number (\<lambda>num. case num of
         NNull \<Rightarrow> raise Undefined
       | NReal r \<Rightarrow>
           (if dlt r (i2d 0) then raise Undefined
            else let n = d2long (dadd (dmul r (i2d 1000)) (i2d 5))
                 in spell_finish [] (word_of_int (cquo n 1000)) (cquo (n - cquo n 1000 * 1000) 10))
       | NInt k m \<Rightarrow>
           (if sint m < 0
            then case spell_parts k (- m) of (n, cents) \<Rightarrow> spell_finish ''minus '' n cents
            else case spell_parts k m of (n, cents) \<Rightarrow> spell_finish [] n cents))"

section \<open>Dates\<close>

definition pop_date_t :: "32 word sm" where
  \<comment> \<open>get_date(v->buf) after pop_stack(DATE), without a test of the length\<close>
  "pop_date_t = bnd (pop_stack DATE) (\<lambda>v. case v of VDate (Some d) \<Rightarrow> ret d | _ \<Rightarrow> raise Undefined)"

definition dtoc :: "env \<Rightarrow> nat \<Rightarrow> unit sm" where
  "dtoc g parm_cnt =
     bnd pop_date_t (\<lambda>d.
       if d \<noteq> 0 then
         bnd (undef_none (number_to_date False (datespec g) d)) (\<lambda>r. bnd (lift_res r) (\<lambda>dd.
         bnd (in_buffer 10 dd) push_string))
       else push_string (replicate (if isset g 0 then 10 else 8) (CHR '' '')))"

definition d_to_mdy :: "nat \<Rightarrow> (int \<times> int \<times> int) sm" where
  "d_to_mdy parm_cnt = bnd pop_date_t (\<lambda>d. undef_none (n_to_mdy d))"

definition day :: "nat \<Rightarrow> unit sm" where
  "day parm_cnt = bnd (d_to_mdy parm_cnt) (\<lambda>(mm, dd, yy). push_int (word_of_int dd))"

definition month :: "nat \<Rightarrow> unit sm" where
  "month parm_cnt = bnd (d_to_mdy parm_cnt) (\<lambda>(mm, dd, yy). push_int (word_of_int mm))"

definition year :: "nat \<Rightarrow> unit sm" where
  "year parm_cnt = bnd (d_to_mdy parm_cnt) (\<lambda>(mm, dd, yy). push_int (word_of_int yy))"

definition dayofweek :: "string list" where
  "dayofweek = [''Sunday'', ''Monday'', ''Tuesday'', ''Wednesday'', ''Thursday'', ''Friday'', ''Saturday'']"

definition month_n :: "string list" where
  "month_n = [''January'', ''February'', ''March'', ''April'', ''May'', ''June'', ''July'', ''August'',
     ''September'', ''October'', ''November'', ''December'']"

definition cdow :: "nat \<Rightarrow> unit sm" where
  "cdow parm_cnt = bnd pop_date_t (\<lambda>d. push_string (dayofweek ! unat ((d + 1) mod 7)))"

definition cmonth :: "nat \<Rightarrow> unit sm" where
  \<comment> \<open>month_n[mm - 1] with mm 0 is outside the table\<close>
  "cmonth parm_cnt =
     bnd (d_to_mdy parm_cnt) (\<lambda>(mm, dd, yy).
       if 1 \<le> mm \<and> mm \<le> 12 then push_string (month_n ! nat (mm - 1)) else raise Undefined)"

definition dow :: "nat \<Rightarrow> unit sm" where
  "dow parm_cnt = bnd pop_date_t (\<lambda>d. push_int (ucast (d mod 7 + 1)))"

section \<open>Any type\<close>

definition iif :: "nat \<Rightarrow> unit sm" where
  "iif parm_cnt =
     bnd pop_any (\<lambda>v1. bnd pop_any (\<lambda>v2. bnd pop_logic (\<lambda>tf.
       if tf < 0 then raise (Syn INVALID_VALUE) else push (if tf \<noteq> 0 then v2 else v1))))"

definition char_class :: "(char \<Rightarrow> bool) \<Rightarrow> unit sm" where
  "char_class P =
     bnd pop_string (\<lambda>s. push_logic (of_bool_int (case s of [] \<Rightarrow> False | c # _ \<Rightarrow> P c)))"

definition isalpha_fcn :: "nat \<Rightarrow> unit sm" where
  "isalpha_fcn parm_cnt = char_class isalpha"

definition isdigit_fcn :: "nat \<Rightarrow> unit sm" where
  "isdigit_fcn parm_cnt = char_class isdigit"

definition islower_fcn :: "nat \<Rightarrow> unit sm" where
  "islower_fcn parm_cnt = char_class islower"

definition isupper_fcn :: "nat \<Rightarrow> unit sm" where
  "isupper_fcn parm_cnt = char_class isupper"

definition minmax_gte :: "env \<Rightarrow> hbval \<Rightarrow> hbval \<Rightarrow> err + bool" where
  "minmax_gte g v1 v2 =
     (case (v1, v2) of
        (VDate d1, VDate d2) \<Rightarrow>
          (case (d1, d2) of (Some a, Some b) \<Rightarrow> Inr (b \<le> a) | _ \<Rightarrow> Inl (Syn INVALID_VALUE))
      | (VNum x, VNum y) \<Rightarrow>
          (if x = NNull \<or> y = NNull then Inl (Syn INVALID_VALUE) else Inr (num_rel x y TGTREQU \<noteq> 0))
      | (VChar p, VChar q) \<Rightarrow>
          Inr (if p = [] then False
               else if q = [] then True
               else let i = byte_diff (min (length p) (length q)) p q;
                        i = (if i = 0 \<and> isset g EXACT_ON then int (length q) - int (length p) else i)
                    in 0 \<le> i)
      | (VLogic b1, VLogic b2) \<Rightarrow>
          (case (b1, b2) of (Some a, Some b) \<Rightarrow> Inr a | _ \<Rightarrow> Inl (Syn INVALID_VALUE))
      | _ \<Rightarrow> Inl (Syn INVALID_TYPE))"

definition minmax :: "env \<Rightarrow> bool \<Rightarrow> nat \<Rightarrow> unit sm" where
  "minmax g ismin parm_cnt =
     bnd pop_any (\<lambda>v2. bnd pop_any (\<lambda>v1.
       if val_typ v1 \<noteq> val_typ v2 then raise (Syn TYPE_MISMATCH)
       else bnd (lift_res (minmax_gte g v1 v2)) (\<lambda>gte.
         push (if gte then (if ismin then v2 else v1) else (if ismin then v1 else v2)))))"

definition mmax :: "env \<Rightarrow> nat \<Rightarrow> unit sm" where
  "mmax g parm_cnt = minmax g False parm_cnt"

definition mmin :: "env \<Rightarrow> nat \<Rightarrow> unit sm" where
  "mmin g parm_cnt = minmax g True parm_cnt"

definition inlist_match :: "hbval \<Rightarrow> hbval \<Rightarrow> bool option" where
  \<comment> \<open>whether v matches tv; memcmp over the length of v, so a NULL v matches any tv of its type, and
     a NULL tv is read behind its end\<close>
  "inlist_match v tv =
     (if val_typ v \<noteq> val_typ tv then Some False
      else case (v, tv) of
        (VChar s, VChar t) \<Rightarrow> Some (s = t)
      | (VNum x, VNum y) \<Rightarrow>
          Some (valspec_len v = valspec_len tv \<and> x = y)
      | (VDate None, VDate _) \<Rightarrow> Some True
      | (VDate (Some d), VDate (Some e)) \<Rightarrow> Some (d = e)
      | (VLogic None, VLogic _) \<Rightarrow> Some True
      | (VLogic (Some b), VLogic (Some c)) \<Rightarrow> Some (b = c)
      | (VOther t b, VOther u c) \<Rightarrow> (if length c < length b then None else Some (take (length b) c = b))
      | _ \<Rightarrow> None)"

fun inlist_loop :: "hbval \<Rightarrow> nat \<Rightarrow> nat sm" where
  \<comment> \<open>the value of parm_cnt after the loop\<close>
  "inlist_loop tv 0 = raise Undefined"
| "inlist_loop tv (Suc n) =
     bnd pop_any (\<lambda>v.
       if n = 0 then ret 0
       else case inlist_match v tv of
              None \<Rightarrow> raise Undefined
            | Some b \<Rightarrow> if b then ret n else inlist_loop tv n)"

primrec pop_n :: "nat \<Rightarrow> unit sm" where
  "pop_n 0 = ret ()"
| "pop_n (Suc n) = bnd pop_any (\<lambda>_. pop_n n)"

definition inlist :: "env \<Rightarrow> nat \<Rightarrow> unit sm" where
  \<comment> \<open>stack_peek(parm_cnt - 1); without arguments the level -1 lies below every stack\<close>
  "inlist g parm_cnt =
     bnd (if parm_cnt = 0 then (if restricted g then ret None else raise (Sys STACK_FAULT))
          else stack_peek g (parm_cnt - 1)) (\<lambda>p. bnd (deref p) (\<lambda>tv.
     bnd (inlist_loop tv parm_cnt) (\<lambda>n. bnd (pop_n n) (\<lambda>_.
       push_logic (of_bool_int (0 < n))))))"

definition isnull :: "nat \<Rightarrow> unit sm" where
  "isnull parm_cnt = bnd pop_any (\<lambda>v. push_logic (of_bool_int (valspec_len v = 0)))"

definition epoch_fcn :: "env \<Rightarrow> nat \<Rightarrow> unit sm" where
  "epoch_fcn g parm_cnt = push_int (word_of_int (epoch g))"

definition pi_fcn :: "nat \<Rightarrow> unit sm" where
  \<comment> \<open>M_PI, the double nearest to pi\<close>
  "pi_fcn parm_cnt = push_real (Fin False (884279719003555 / 281474976710656))"

section \<open>Checking the arguments of a call\<close>

abbreviation (input) ABS_FCN :: nat where
  "ABS_FCN \<equiv> 0x00"
abbreviation (input) ALIAS_FCN :: nat where
  "ALIAS_FCN \<equiv> 0x01"
abbreviation (input) ASC_FCN :: nat where
  "ASC_FCN \<equiv> 0x02"
abbreviation (input) AT_FCN :: nat where
  "AT_FCN \<equiv> 0x03"
abbreviation (input) BETWEEN_FCN :: nat where
  "BETWEEN_FCN \<equiv> 0x04"
abbreviation (input) BOF_FCN :: nat where
  "BOF_FCN \<equiv> 0x05"
abbreviation (input) CDOW_FCN :: nat where
  "CDOW_FCN \<equiv> 0x06"
abbreviation (input) CHR_FCN :: nat where
  "CHR_FCN \<equiv> 0x07"
abbreviation (input) CMONTH_FCN :: nat where
  "CMONTH_FCN \<equiv> 0x08"
abbreviation (input) CRYPT_FCN :: nat where
  "CRYPT_FCN \<equiv> 0x09"
abbreviation (input) DATE_FCN :: nat where
  "DATE_FCN \<equiv> 0x0b"
abbreviation (input) DAY_FCN :: nat where
  "DAY_FCN \<equiv> 0x0c"
abbreviation (input) DBF_FCN :: nat where
  "DBF_FCN \<equiv> 0x0d"
abbreviation (input) DELETED_FCN :: nat where
  "DELETED_FCN \<equiv> 0x0e"
abbreviation (input) DOW_FCN :: nat where
  "DOW_FCN \<equiv> 0x0f"
abbreviation (input) DTOC_FCN :: nat where
  "DTOC_FCN \<equiv> 0x10"
abbreviation (input) EOF_FCN :: nat where
  "EOF_FCN \<equiv> 0x11"
abbreviation (input) EXP_FCN :: nat where
  "EXP_FCN \<equiv> 0x12"
abbreviation (input) FIELDCNT_FCN :: nat where
  "FIELDCNT_FCN \<equiv> 0x13"
abbreviation (input) FIELDNAME_FCN :: nat where
  "FIELDNAME_FCN \<equiv> 0x14"
abbreviation (input) FIELDNO_FCN :: nat where
  "FIELDNO_FCN \<equiv> 0x15"
abbreviation (input) FIELDSIZE_FCN :: nat where
  "FIELDSIZE_FCN \<equiv> 0x16"
abbreviation (input) FILE_FCN :: nat where
  "FILE_FCN \<equiv> 0x17"
abbreviation (input) FILTER_FCN :: nat where
  "FILTER_FCN \<equiv> 0x18"
abbreviation (input) FLOCK_FCN :: nat where
  "FLOCK_FCN \<equiv> 0x19"
abbreviation (input) FOUND_FCN :: nat where
  "FOUND_FCN \<equiv> 0x1a"
abbreviation (input) IIF_FCN :: nat where
  "IIF_FCN \<equiv> 0x1b"
abbreviation (input) INDEX_FCN :: nat where
  "INDEX_FCN \<equiv> 0x1c"
abbreviation (input) INT_FCN :: nat where
  "INT_FCN \<equiv> 0x1e"
abbreviation (input) ISALPHA_FCN :: nat where
  "ISALPHA_FCN \<equiv> 0x1f"
abbreviation (input) ISDIGIT_FCN :: nat where
  "ISDIGIT_FCN \<equiv> 0x20"
abbreviation (input) ISLOWER_FCN :: nat where
  "ISLOWER_FCN \<equiv> 0x21"
abbreviation (input) ISUPPER_FCN :: nat where
  "ISUPPER_FCN \<equiv> 0x22"
abbreviation (input) LEFT_FCN :: nat where
  "LEFT_FCN \<equiv> 0x24"
abbreviation (input) LOCATE_FCN :: nat where
  "LOCATE_FCN \<equiv> 0x26"
abbreviation (input) LOG_FCN :: nat where
  "LOG_FCN \<equiv> 0x27"
abbreviation (input) LOG10_FCN :: nat where
  "LOG10_FCN \<equiv> 0x28"
abbreviation (input) LOWER_FCN :: nat where
  "LOWER_FCN \<equiv> 0x29"
abbreviation (input) LTRIM_FCN :: nat where
  "LTRIM_FCN \<equiv> 0x2a"
abbreviation (input) MAX_FCN :: nat where
  "MAX_FCN \<equiv> 0x2b"
abbreviation (input) MIN_FCN :: nat where
  "MIN_FCN \<equiv> 0x2c"
abbreviation (input) MOD_FCN :: nat where
  "MOD_FCN \<equiv> 0x2d"
abbreviation (input) MONTH_FCN :: nat where
  "MONTH_FCN \<equiv> 0x2e"
abbreviation (input) NDX_FCN :: nat where
  "NDX_FCN \<equiv> 0x2f"
abbreviation (input) OCCURS_FCN :: nat where
  "OCCURS_FCN \<equiv> 0x30"
abbreviation (input) PADC_FCN :: nat where
  "PADC_FCN \<equiv> 0x31"
abbreviation (input) PADL_FCN :: nat where
  "PADL_FCN \<equiv> 0x32"
abbreviation (input) PADR_FCN :: nat where
  "PADR_FCN \<equiv> 0x33"
abbreviation (input) PATH_FCN :: nat where
  "PATH_FCN \<equiv> 0x34"
abbreviation (input) PI_FCN :: nat where
  "PI_FCN \<equiv> 0x35"
abbreviation (input) PROPER_FCN :: nat where
  "PROPER_FCN \<equiv> 0x36"
abbreviation (input) RAND_FCN :: nat where
  "RAND_FCN \<equiv> 0x37"
abbreviation (input) RECCOUNT_FCN :: nat where
  "RECCOUNT_FCN \<equiv> 0x38"
abbreviation (input) RECNO_FCN :: nat where
  "RECNO_FCN \<equiv> 0x39"
abbreviation (input) RECSIZE_FCN :: nat where
  "RECSIZE_FCN \<equiv> 0x3a"
abbreviation (input) REPLICATE_FCN :: nat where
  "REPLICATE_FCN \<equiv> 0x3b"
abbreviation (input) RIGHT_FCN :: nat where
  "RIGHT_FCN \<equiv> 0x3c"
abbreviation (input) RLOCK_FCN :: nat where
  "RLOCK_FCN \<equiv> 0x3d"
abbreviation (input) ROUND_FCN :: nat where
  "ROUND_FCN \<equiv> 0x3e"
abbreviation (input) RTRIM_FCN :: nat where
  "RTRIM_FCN \<equiv> 0x3f"
abbreviation (input) SERIAL_FCN :: nat where
  "SERIAL_FCN \<equiv> 0x40"
abbreviation (input) SOUNDEX_FCN :: nat where
  "SOUNDEX_FCN \<equiv> 0x41"
abbreviation (input) SPACE_FCN :: nat where
  "SPACE_FCN \<equiv> 0x42"
abbreviation (input) SPELLNUM_FCN :: nat where
  "SPELLNUM_FCN \<equiv> 0x43"
abbreviation (input) SQRT_FCN :: nat where
  "SQRT_FCN \<equiv> 0x44"
abbreviation (input) STR_FCN :: nat where
  "STR_FCN \<equiv> 0x45"
abbreviation (input) STUFF_FCN :: nat where
  "STUFF_FCN \<equiv> 0x46"
abbreviation (input) SUBSTR_FCN :: nat where
  "SUBSTR_FCN \<equiv> 0x47"
abbreviation (input) SYSTEM_FCN :: nat where
  "SYSTEM_FCN \<equiv> 0x48"
abbreviation (input) TIME_FCN :: nat where
  "TIME_FCN \<equiv> 0x49"
abbreviation (input) TTOC_FCN :: nat where
  "TTOC_FCN \<equiv> 0x4a"
abbreviation (input) TYPE_FCN :: nat where
  "TYPE_FCN \<equiv> 0x4b"
abbreviation (input) UPPER_FCN :: nat where
  "UPPER_FCN \<equiv> 0x4c"
abbreviation (input) VAL_FCN :: nat where
  "VAL_FCN \<equiv> 0x4d"
abbreviation (input) YEAR_FCN :: nat where
  "YEAR_FCN \<equiv> 0x4e"
abbreviation (input) RANDSTR_FCN :: nat where
  "RANDSTR_FCN \<equiv> 0x4f"
abbreviation (input) EPOCH_FCN :: nat where
  "EPOCH_FCN \<equiv> 0x50"
abbreviation (input) DISKSIZE_FCN :: nat where
  "DISKSIZE_FCN \<equiv> 0x51"
abbreviation (input) DISKSPACE_FCN :: nat where
  "DISKSPACE_FCN \<equiv> 0x52"
abbreviation (input) HASH_FCN :: nat where
  "HASH_FCN \<equiv> 0x54"
abbreviation (input) AUTH_FCN :: nat where
  "AUTH_FCN \<equiv> 0x56"
abbreviation (input) DEFINED_FCN :: nat where
  "DEFINED_FCN \<equiv> 0x58"
abbreviation (input) MKTMP_FCN :: nat where
  "MKTMP_FCN \<equiv> 0x59"
abbreviation (input) PEER_FCN :: nat where
  "PEER_FCN \<equiv> 0x5a"
abbreviation (input) WHOAMI_FCN :: nat where
  "WHOAMI_FCN \<equiv> 0x5b"
abbreviation (input) PARENT_FCN :: nat where
  "PARENT_FCN \<equiv> 0x5c"
abbreviation (input) ATROOT_FCN :: nat where
  "ATROOT_FCN \<equiv> 0x5d"
abbreviation (input) ISEMPTY_FCN :: nat where
  "ISEMPTY_FCN \<equiv> 0x5e"
abbreviation (input) WOK_FCN :: nat where
  "WOK_FCN \<equiv> 0x5f"
abbreviation (input) CID_FCN :: nat where
  "CID_FCN \<equiv> 0x60"

definition parm_cnt_ok :: "bool \<Rightarrow> nat \<Rightarrow> nat \<Rightarrow> bool" where
  \<comment> \<open>the first switch of parm_chk\<close>
  "parm_cnt_ok final f cnt =
     (if f \<in> {BETWEEN_FCN, IIF_FCN, PADC_FCN, PADL_FCN, PADR_FCN} then \<not> (final \<and> cnt \<noteq> 3)
      else if f = STR_FCN then \<not> (3 < cnt \<or> (final \<and> cnt < 1))
      else if f = SUBSTR_FCN then \<not> (3 < cnt \<or> (final \<and> cnt < 2))
      else if f \<in> {CRYPT_FCN, ROUND_FCN, SYSTEM_FCN} then \<not> (2 < cnt \<or> (final \<and> cnt < 1))
      else if f \<in> {AT_FCN, LEFT_FCN, MAX_FCN, MIN_FCN, MOD_FCN, OCCURS_FCN, REPLICATE_FCN}
        then \<not> (2 < cnt \<or> (final \<and> cnt \<noteq> 2))
      else if f \<in> {CID_FCN, DATE_FCN, TIME_FCN, PATH_FCN, FLOCK_FCN, RLOCK_FCN} then \<not> 1 < cnt
      else if f \<in> {ABS_FCN, ASC_FCN, CDOW_FCN, CHR_FCN, CMONTH_FCN, DAY_FCN, DOW_FCN, DTOC_FCN, EXP_FCN,
          FIELDNAME_FCN, FIELDNO_FCN, FIELDSIZE_FCN, FILE_FCN, HASH_FCN, INT_FCN, ISALPHA_FCN, ISDIGIT_FCN,
          ISEMPTY_FCN, ISLOWER_FCN, ISUPPER_FCN, LOWER_FCN, LOG_FCN, LOG10_FCN, LTRIM_FCN, MKTMP_FCN,
          MONTH_FCN, NDX_FCN, PARENT_FCN, PROPER_FCN, RANDSTR_FCN, RTRIM_FCN, SERIAL_FCN, SPACE_FCN,
          SPELLNUM_FCN, SQRT_FCN, TTOC_FCN, TYPE_FCN, DEFINED_FCN, UPPER_FCN, VAL_FCN, YEAR_FCN}
        then cnt = 1
      else if f \<in> {ALIAS_FCN, BOF_FCN, DBF_FCN, DELETED_FCN, DISKSPACE_FCN, DISKSIZE_FCN, EOF_FCN, EPOCH_FCN,
          FIELDCNT_FCN, FOUND_FCN, RECNO_FCN, FILTER_FCN, INDEX_FCN, LOCATE_FCN, PEER_FCN, PI_FCN, RAND_FCN,
          WHOAMI_FCN, ATROOT_FCN, WOK_FCN, AUTH_FCN}
        then cnt = 0
      else True)"

definition repush_int :: "int \<Rightarrow> int \<Rightarrow> unit sm" where
  \<comment> \<open>push_int((long)pop_int(low, high))\<close>
  "repush_int low high = bnd (pop_int low high) (\<lambda>i. push_int (word_of_int i))"

definition parm_typ_chk :: "nat \<Rightarrow> nat \<Rightarrow> unit sm" where
  \<comment> \<open>the second switch of parm_chk\<close>
  "parm_typ_chk f cnt =
     (if f \<in> {IIF_FCN, DATE_FCN} then (if cnt = 1 then typechk LOGIC else ret ())
      else if f \<in> {REPLICATE_FCN, RIGHT_FCN, ROUND_FCN, LEFT_FCN, RANDSTR_FCN, STR_FCN} then
        (if 1 < cnt then repush_int (if f = ROUND_FCN then - int MAXSTRLEN else 0) (int MAXSTRLEN)
         else typechk (if f = ROUND_FCN \<or> f = STR_FCN \<or> f = RANDSTR_FCN then NUMBER else CHARCTR))
      else if f \<in> {PADC_FCN, PADL_FCN, PADR_FCN, SUBSTR_FCN, STUFF_FCN} then
        (if cnt = 1 then typechk CHARCTR
         else if cnt = 2 then repush_int 1 (int MAXSTRLEN)
         else if cnt = 3 then
           (if f \<in> {PADC_FCN, PADL_FCN, PADR_FCN} then typechk CHARCTR else repush_int 0 (int MAXSTRLEN))
         else if f = STUFF_FCN \<and> cnt = 4 then typechk CHARCTR
         else ret ())
      else if f \<in> {FIELDNAME_FCN, FIELDSIZE_FCN} then repush_int 1 1023
      else if f = NDX_FCN then repush_int 1 16
      else if f = SPACE_FCN then repush_int 0 (int MAXSTRLEN)
      else if f \<in> {ASC_FCN, AT_FCN, FILE_FCN, ISALPHA_FCN, ISDIGIT_FCN, ISEMPTY_FCN, ISLOWER_FCN, ISUPPER_FCN,
          LTRIM_FCN, MKTMP_FCN, OCCURS_FCN, PROPER_FCN, RTRIM_FCN, SERIAL_FCN, SOUNDEX_FCN, SYSTEM_FCN,
          TYPE_FCN, DEFINED_FCN, VAL_FCN} then typechk CHARCTR
      else if f \<in> {CDOW_FCN, CMONTH_FCN, DAY_FCN, DOW_FCN, DTOC_FCN, MONTH_FCN, YEAR_FCN} then typechk DATE
      else if f \<in> {ABS_FCN, BETWEEN_FCN, CHR_FCN, EXP_FCN, INT_FCN, LOG_FCN, LOG10_FCN, MOD_FCN, RECCOUNT_FCN,
          RECSIZE_FCN, SPELLNUM_FCN, SQRT_FCN, TTOC_FCN} then typechk NUMBER
      else ret ())"

definition parm_chk :: "bool \<Rightarrow> bool \<Rightarrow> nat \<Rightarrow> nat \<Rightarrow> unit sm" where
  "parm_chk exe final f cnt =
     (if \<not> parm_cnt_ok final f cnt then raise (Syn INVALID_PARMCNT)
      else if final \<or> \<not> exe then ret ()
      else parm_typ_chk f cnt)"

end
