(* ===== verification/Function_Table.thy ===== *)
theory Function_Table
  imports Functions
begin

text \<open>
  The table fcn[] of server/hb/fcn.c with its call from server/hb/int.c, the contract that every
  entry keeps towards its caller, and the properties of the functions.
\<close>

section \<open>The table of functions\<close>

definition builtins :: "env \<Rightarrow> (nat \<times> (nat \<Rightarrow> unit sm)) list" where
  \<comment> \<open>the entries of fcn[] that work on values alone\<close>
  "builtins g =
     [(ABS_FCN, abs_fcn), (ASC_FCN, asc), (AT_FCN, at_fcn), (BETWEEN_FCN, between), (CDOW_FCN, cdow),
      (CHR_FCN, chr), (CMONTH_FCN, cmonth), (DAY_FCN, day), (DOW_FCN, dow), (DTOC_FCN, dtoc g),
      (EXP_FCN, exp_fcn g), (IIF_FCN, iif), (0x1d, inlist g), (INT_FCN, int_fcn), (ISALPHA_FCN, isalpha_fcn),
      (ISDIGIT_FCN, isdigit_fcn), (ISLOWER_FCN, islower_fcn), (ISUPPER_FCN, isupper_fcn),
      (LEFT_FCN, left), (0x25, len_fcn), (LOG_FCN, log_fcn g), (LOG10_FCN, log10_fcn g),
      (LOWER_FCN, lower), (LTRIM_FCN, ltrim), (MAX_FCN, mmax g), (MIN_FCN, mmin g), (MOD_FCN, mod_fcn),
      (MONTH_FCN, month), (OCCURS_FCN, occurs), (PADC_FCN, padc), (PADL_FCN, padl), (PADR_FCN, padr),
      (PI_FCN, pi_fcn), (PROPER_FCN, proper), (REPLICATE_FCN, replicate_fcn), (RIGHT_FCN, right),
      (ROUND_FCN, round_fcn g), (RTRIM_FCN, rtrim), (SOUNDEX_FCN, soundex), (SPACE_FCN, space),
      (SPELLNUM_FCN, spellnum), (SQRT_FCN, sqrt_fcn g), (STR_FCN, str_fcn g), (STUFF_FCN, stuff),
      (SUBSTR_FCN, substr), (TTOC_FCN, ttoc), (UPPER_FCN, upper), (VAL_FCN, val_fcn g), (YEAR_FCN, year),
      (EPOCH_FCN, epoch_fcn g), (0x53, isnull)]"

definition fcn_call :: "(nat \<times> (nat \<Rightarrow> unit sm)) list \<Rightarrow> (nat \<Rightarrow> nat \<Rightarrow> unit sm) \<Rightarrow> nat \<Rightarrow> unit sm" where
  \<comment> \<open>(*fcn[fcn_no])(pop_int(0, 255)); other stands for the entries of the table that are not in tbl\<close>
  "fcn_call tbl other f =
     bnd (pop_int 0 255) (\<lambda>n. (case map_of tbl f of Some h \<Rightarrow> h | None \<Rightarrow> other f) (nat n))"

text \<open>What the caller relies on: whatever its arguments, a function leaves a stack on which every
  value fits its header and all of them fit the stack.\<close>

locale fcn_contract =
  fixes tbl :: "(nat \<times> (nat \<Rightarrow> unit sm)) list"
  assumes entry_keeps: "(f, h) \<in> set tbl \<Longrightarrow> keeps (h n) (\<lambda>_. True)"
begin

lemma call_keeps:
  assumes "\<And>n. map_of tbl f = None \<Longrightarrow> keeps (other f n) (\<lambda>_. True)"
  shows "keeps (fcn_call tbl other f) (\<lambda>_. True)"
  unfolding fcn_call_def
proof (rule spec_bnd [OF keeps_pop_int])
  fix n
  show "keeps ((case map_of tbl f of Some h \<Rightarrow> h | None \<Rightarrow> other f) (nat n)) (\<lambda>_. True)"
    using assms entry_keeps by (cases "map_of tbl f") (auto dest: map_of_SomeD)
qed

end

text \<open>The stack operations as steps of a chain, for the functions below.\<close>

named_theorems keeps_pops "rules for a chain that starts with a stack operation"

lemma keeps_then_int [keeps_pops]:
  "(\<And>i. low \<le> i \<Longrightarrow> (0 \<le> high \<longrightarrow> i \<le> high) \<Longrightarrow> keeps (f i) Q) \<Longrightarrow> keeps (bnd (pop_int low high) f) Q"
  by (rule spec_bnd [OF keeps_pop_int]) auto

lemma keeps_then_number [keeps_pops]:
  "(\<And>n. num_ok n \<Longrightarrow> keeps (f n) Q) \<Longrightarrow> keeps (bnd pop_number f) Q"
  by (rule spec_bnd [OF keeps_pop_number])

lemma keeps_then_real [keeps_pops]: "(\<And>r. keeps (f r) Q) \<Longrightarrow> keeps (bnd pop_real f) Q"
  by (rule spec_bnd [OF keeps_pop_real])

lemma keeps_then_logic [keeps_pops]: "(\<And>r. keeps (f r) Q) \<Longrightarrow> keeps (bnd pop_logic f) Q"
  by (rule spec_bnd [OF keeps_pop_logic])

lemma keeps_then_any [keeps_pops]: "(\<And>v. val_ok v \<Longrightarrow> keeps (f v) Q) \<Longrightarrow> keeps (bnd pop_any f) Q"
  by (rule spec_bnd [OF keeps_pop_any])

lemma keeps_then_string [keeps_pops]:
  "(\<And>s. length s < 4096 \<Longrightarrow> keeps (f s) Q) \<Longrightarrow> keeps (bnd pop_string f) Q"
  unfolding pop_string_def bnd_assoc
  by (rule spec_bnd [OF keeps_pop_stack]) (auto split: hbval.split intro!: spec_intros)

lemma keeps_then_date [keeps_pops]: "(\<And>d. keeps (f d) Q) \<Longrightarrow> keeps (bnd pop_date_t f) Q"
  unfolding pop_date_t_def bnd_assoc
  by (rule spec_bnd [OF keeps_pop_stack]) (auto split: hbval.split option.split intro!: spec_intros)

lemma keeps_then_buffer [keeps_pops]:
  "(length s \<le> n \<Longrightarrow> keeps (f s) Q) \<Longrightarrow> keeps (bnd (in_buffer n s) f) Q"
  by (auto simp: in_buffer_def intro!: spec_intros)

lemma keeps_then_some [keeps_pops]:
  "(\<And>x. r = Some x \<Longrightarrow> keeps (f x) Q) \<Longrightarrow> keeps (bnd (undef_none r) f) Q"
  by (auto simp: undef_none_def intro!: spec_intros split: option.split)

lemma keeps_then_res [keeps_pops]:
  "(\<And>x. r = Inr x \<Longrightarrow> keeps (f x) Q) \<Longrightarrow> keeps (bnd (lift_res r) f) Q"
  by (rule spec_bnd [where P = "\<lambda>x. r = Inr x", OF spec_lift_res])

lemma keeps_push_nat: "keeps (push_nat n) (\<lambda>_. True)"
  by (simp add: push_nat_def keeps_push_int)

lemmas keeps_fcn = keeps_pops keeps_rules keeps_push_nat keeps_push

lemma length_fmt_0d_2: "0 \<le> x \<Longrightarrow> x < 100 \<Longrightarrow> length (fmt_0d 2 x) = 2"
  using length_show_nat_le [of "nat x" 2] by (auto simp: fmt_0d_def pad_def nat_less_iff)

lemma keeps_ttoc: "keeps (ttoc n) (\<lambda>_. True)"
  unfolding ttoc_def
proof (rule keeps_then_int)
  fix tn :: int assume "0 \<le> tn"
  moreover have "tn mod 60 < 100" "tn mod 3600 div 60 < 100" "tn div 3600 mod 24 < 100"
    by (auto intro: order.strict_trans [of _ 60] order.strict_trans [of _ 24])
  ultimately show "keeps (push_string (fmt_0d 2 (crem (cquo tn 3600) 24) @ '':'' @ fmt_0d 2 (cquo (crem tn 3600) 60)
      @ '':'' @ fmt_0d 2 (crem tn 60))) (\<lambda>_. True)"
    by (intro keeps_push_string) (simp add: length_fmt_0d_2 pos_imp_zdiv_nonneg_iff)
qed

lemma keeps_optional_int:
  "(\<And>i. keeps (f i) Q) \<Longrightarrow> keeps (bnd (if b then pop_int low high else ret d) f) Q"
  by (rule spec_bnd [where P = "\<lambda>_. True"]) (auto intro!: spec_intros spec_conseq [OF keeps_pop_int])

lemma keeps_substr: "keeps (substr n) (\<lambda>_. True)"
  unfolding substr_def Let_def by (intro keeps_optional_int keeps_fcn) auto

lemma keeps_upr_lwr: "keeps (upr_lwr up) (\<lambda>_. True)"
proof (rule specI)
  fix s assume "stack_ok s"
  then show "stack_ok (snd (upr_lwr up s)) \<and> (\<forall>x. fst (upr_lwr up s) = Inr x \<longrightarrow> True)"
    by (auto simp: upr_lwr_def stack_ok_def typechk_def split: list.split hbval.split)
qed

lemma length_replicate_loop: "length out \<le> MAXSTRLEN \<Longrightarrow> length (replicate_loop n v out) \<le> MAXSTRLEN"
  by (induction n arbitrary: out) (auto simp: Let_def)

lemma length_fill: "str2 \<noteq> [] \<Longrightarrow> length (fill len str2) = len"
  by (simp add: fill_def length_concat sum_list_replicate less_imp_le)

lemma length_overlay: "pos + length s \<le> length t \<Longrightarrow> length (overlay t pos s) = length t"
  by (simp add: overlay_def)

lemma keeps_pad: "keeps (pad_fcn mode n) (\<lambda>_. True)"
  unfolding pad_fcn_def
  by (auto simp: Let_def length_overlay length_fill intro!: keeps_fcn split: pad_mode.split)

lemma length_proper_loop: "length (proper_loop c s) \<le> length s"
  by (induction c s rule: proper_loop.induct) auto

lemma length_soundex_loop: "length code \<le> 4 \<Longrightarrow> length (soundex_loop s code) \<le> 4"
  by (induction s code rule: soundex_loop.induct) (auto simp: Let_def split: option.split)

lemma keeps_soundex: "keeps (soundex n) (\<lambda>_. True)"
  unfolding soundex_def Let_def
proof (rule keeps_then_string)
  fix s :: string
  show "keeps (push_string (rev (soundex_loop s []) @
      replicate (4 - length (rev (soundex_loop s []))) CHR ''0'')) (\<lambda>_. True)"
    using length_soundex_loop [of "[]" s] by (intro keeps_push_string) simp
qed

lemma keeps_str: "keeps (str_fcn g n) (\<lambda>_. True)"
proof -
  have len: "num2str num l d = Some t \<Longrightarrow> length t < 4096" for num l d t
    using num2str_bounded [of num l d t] by (auto split: if_splits)
  show ?thesis
    unfolding str_fcn_def Let_def
    by (intro keeps_optional_int keeps_fcn spec_if) (auto dest: len)
qed

lemma keeps_lower: "keeps (lower n) (\<lambda>_. True)"
  by (simp add: lower_def keeps_upr_lwr)

lemma keeps_upper: "keeps (upper n) (\<lambda>_. True)"
  by (simp add: upper_def keeps_upr_lwr)

lemma keeps_chr: "keeps (chr n) (\<lambda>_. True)"
  unfolding chr_def by (intro keeps_fcn) simp

lemma keeps_asc: "keeps (asc n) (\<lambda>_. True)"
  unfolding asc_def by (intro keeps_fcn) (auto intro!: spec_intros keeps_push_nat split: list.split)

lemma keeps_at: "keeps (at_fcn n) (\<lambda>_. True)"
  unfolding at_fcn_def by (intro keeps_fcn)

lemma keeps_trim: "keeps (trim n dir) (\<lambda>_. True)"
proof -
  have "length (dropWhile P t) < 4096" if "length t \<le> 2048" for P and t :: string
    using that length_dropWhile_le [of P t] by linarith
  then show ?thesis unfolding trim_def by (intro keeps_fcn) auto
qed

lemma keeps_len: "keeps (len_fcn n) (\<lambda>_. True)"
  unfolding len_fcn_def by (intro keeps_fcn)

lemma keeps_left: "keeps (left n) (\<lambda>_. True)"
  unfolding left_def by (intro keeps_fcn) simp

lemma keeps_right: "keeps (right n) (\<lambda>_. True)"
  unfolding right_def by (intro keeps_fcn) simp

lemma keeps_space: "keeps (space n) (\<lambda>_. True)"
  unfolding space_def by (intro keeps_fcn) simp

lemma length_stuffed:
  "\<not> 2046 < length v - b + length s \<Longrightarrow> a \<le> length v \<Longrightarrow> b \<le> length v - a \<Longrightarrow>
     length (take a v @ s @ drop (a + b) v) < 4096"
  by simp

lemma keeps_stuff: "keeps (stuff n) (\<lambda>_. True)"
  unfolding stuff_def Let_def by (intro keeps_fcn) (rule length_stuffed, assumption, simp_all)

lemma keeps_occurs: "keeps (occurs n) (\<lambda>_. True)"
  unfolding occurs_def by (intro keeps_fcn)

lemma keeps_replicate: "keeps (replicate_fcn n) (\<lambda>_. True)"
  unfolding replicate_fcn_def
proof (intro keeps_fcn)
  fix i s
  show "length (replicate_loop (nat i) s []) < 4096"
    using length_replicate_loop [of "[]" "nat i" s] by simp
qed

lemma keeps_proper: "keeps (proper n) (\<lambda>_. True)"
  unfolding proper_def by (intro keeps_fcn) (simp add: order.strict_trans1 [OF length_proper_loop])

lemma keeps_libm: "keeps (libm f x) (\<lambda>_. True)"
  unfolding libm_def by (auto intro!: spec_intros keeps_push_real split: prod.split)

lemma keeps_exp: "keeps (exp_fcn g n) (\<lambda>_. True)"
  unfolding exp_fcn_def by (intro keeps_pops keeps_libm)

lemma keeps_log: "keeps (log_fcn g n) (\<lambda>_. True)"
  unfolding log_fcn_def by (intro keeps_pops spec_if spec_raise keeps_libm)

lemma keeps_log10: "keeps (log10_fcn g n) (\<lambda>_. True)"
  unfolding log10_fcn_def by (intro keeps_pops spec_if spec_raise keeps_libm)

lemma keeps_sqrt: "keeps (sqrt_fcn g n) (\<lambda>_. True)"
  unfolding sqrt_fcn_def by (intro keeps_pops keeps_libm)

lemma keeps_mod: "keeps (mod_fcn n) (\<lambda>_. True)"
  unfolding mod_fcn_def Let_def by (intro keeps_fcn)

lemma keeps_int: "keeps (int_fcn n) (\<lambda>_. True)"
  unfolding int_fcn_def by (intro keeps_fcn)

lemma keeps_abs: "keeps (abs_fcn n) (\<lambda>_. True)"
  unfolding abs_fcn_def by (intro keeps_fcn)

lemma num_ok_round_deci: "k \<le> DECI_MAX \<Longrightarrow> deci < int k \<Longrightarrow> num_ok (round_deci k m deci)"
  by (auto simp: round_deci_def Let_def)

lemma keeps_round: "keeps (round_fcn g n) (\<lambda>_. True)"
  unfolding round_fcn_def
proof (intro keeps_optional_int keeps_then_number)
  fix deci num assume "num_ok num"
  then show "keeps (case num of
         NReal r \<Rightarrow>
           (let r2 = dmul (pow g (i2d 10) (i2d (- deci)))
                  (i2d (d2long (dadd (dmul r (pow g (i2d 10) (i2d deci))) (ddiv (i2d 1) (i2d 2)))))
            in if (dlt (i2d 0) r \<and> dlt r2 (i2d 0)) \<or> (dlt r (i2d 0) \<and> dlt (i2d 0) r2)
               then raise (Syn INVALID_VALUE) else push_real r2)
       | NInt k m \<Rightarrow>
           (if int k \<le> deci then bnd (push_number num) (\<lambda>_. push_number num)
            else push_number (round_deci k m deci))
       | NNull \<Rightarrow> raise Undefined) (\<lambda>_. True)"
  proof (cases num)
    case NNull
    then show ?thesis by (simp add: spec_raise)
  next
    case (NReal r)
    then show ?thesis by (simp add: Let_def spec_raise keeps_push_real spec_if)
  next
    case (NInt k m)
    have "keeps (bnd (push_number (NInt k m)) (\<lambda>_. push_number (NInt k m))) (\<lambda>_. True)"
      using \<open>num_ok num\<close> NInt by (intro spec_bnd [where P = "\<lambda>_. True"] keeps_push_number) simp_all
    moreover have "keeps (push_number (round_deci k m deci)) (\<lambda>_. True)" if "\<not> int k \<le> deci"
      using \<open>num_ok num\<close> NInt that by (intro keeps_push_number num_ok_round_deci) simp_all
    ultimately show ?thesis unfolding NInt number.case by (intro spec_if) simp_all
  qed
qed

lemma keeps_between: "keeps (between n) (\<lambda>_. True)"
  unfolding between_def by (intro keeps_fcn)

lemma length_nums: "n < 19 \<Longrightarrow> length (nums1 n) \<le> 9" "n < 8 \<Longrightarrow> length (nums2 n) \<le> 7"
proof -
  have "list_all (\<lambda>n. length (nums1 n) \<le> 9) [0..<19]" by code_simp
  then show "n < 19 \<Longrightarrow> length (nums1 n) \<le> 9" by (simp add: list_all_iff)
  have "list_all (\<lambda>n. length (nums2 n) \<le> 7) [0..<8]" by code_simp
  then show "n < 8 \<Longrightarrow> length (nums2 n) \<le> 7" by (simp add: list_all_iff)
qed

text \<open>The length of a spelled number, by its scale.\<close>

lemma numspell_20: "n < 20 \<Longrightarrow> length (numspell n) \<le> 10"
  using length_nums(1) [of "n - 1"] by (subst numspell.simps) auto

lemma numspell_100: "n < 100 \<Longrightarrow> length (numspell n) \<le> 18"
proof (cases "n < 20")
  case True
  with numspell_20 [of n] show ?thesis by linarith
next
  case False
  assume "n < 100"
  then have "numspell n = nums2 (n div 10 - 2) @ '' '' @ numspell (n mod 10)"
    using False by (subst numspell.simps) simp
  moreover have "n div 10 < 10" using \<open>n < 100\<close> by (intro less_mult_imp_div_less) simp
  then have "length (nums2 (n div 10 - 2)) \<le> 7" by (intro length_nums(2)) linarith
  moreover have "length (numspell (n mod 10)) \<le> 10"
    by (rule numspell_20) (rule order.strict_trans [of _ 10], simp_all)
  ultimately show ?thesis by simp
qed

lemma numspell_1000: "n < 1000 \<Longrightarrow> length (numspell n) \<le> 36"
proof (cases "n < 100")
  case True
  with numspell_100 [of n] show ?thesis by linarith
next
  case False
  assume "n < 1000"
  then have "numspell n = numspell (n div 100) @ ''hundred '' @ numspell (n mod 100)"
    using False by (subst numspell.simps) simp
  moreover have "length (numspell (n div 100)) \<le> 10"
    using less_mult_imp_div_less [of n 10 100] \<open>n < 1000\<close> by (intro numspell_20) simp
  moreover have "length (numspell (n mod 100)) \<le> 18"
    by (intro numspell_100) simp
  ultimately show ?thesis by simp
qed

lemma numspell_1e6: "n < 1000000 \<Longrightarrow> length (numspell n) \<le> 81"
proof (cases "n < 1000")
  case True
  with numspell_1000 [of n] show ?thesis by linarith
next
  case False
  assume "n < 1000000"
  then have "numspell n = numspell (n div 1000) @ ''thousand '' @ numspell (n mod 1000)"
    using False by (subst numspell.simps) simp
  moreover have "length (numspell (n div 1000)) \<le> 36"
    using \<open>n < 1000000\<close> by (intro numspell_1000 less_mult_imp_div_less) simp
  moreover have "length (numspell (n mod 1000)) \<le> 36"
    by (intro numspell_1000) simp
  ultimately show ?thesis by simp
qed

lemma numspell_1e9: "n < 1000000000 \<Longrightarrow> length (numspell n) \<le> 125"
proof (cases "n < 1000000")
  case True
  with numspell_1e6 [of n] show ?thesis by linarith
next
  case False
  assume "n < 1000000000"
  then have "numspell n = numspell (n div 1000000) @ ''million '' @ numspell (n mod 1000000)"
    using False by (subst numspell.simps) simp
  moreover have "length (numspell (n div 1000000)) \<le> 36"
    using \<open>n < 1000000000\<close> by (intro numspell_1000 less_mult_imp_div_less) simp
  moreover have "length (numspell (n mod 1000000)) \<le> 81"
    by (intro numspell_1e6) simp
  ultimately show ?thesis by simp
qed

lemma numspell_1e18: "n < 1000000000000000000 \<Longrightarrow> length (numspell n) \<le> 258"
proof (cases "n < 1000000000")
  case True
  with numspell_1e9 [of n] show ?thesis by linarith
next
  case False
  assume "n < 1000000000000000000"
  then have "numspell n = numspell (n div 1000000000) @ ''billion '' @ numspell (n mod 1000000000)"
    using False by (subst numspell.simps) simp
  moreover have "length (numspell (n div 1000000000)) \<le> 125"
    using \<open>n < 1000000000000000000\<close> by (intro numspell_1e9 less_mult_imp_div_less) simp
  moreover have "length (numspell (n mod 1000000000)) \<le> 125"
    by (intro numspell_1e9) simp
  ultimately show ?thesis by simp
qed

lemma numspell_long: "n < 9223372036854775808 \<Longrightarrow> length (numspell n) \<le> 391"
proof (cases "n < 1000000000")
  case True
  with numspell_1e9 [of n] show ?thesis by linarith
next
  case False
  assume "n < 9223372036854775808"
  then have "numspell n = numspell (n div 1000000000) @ ''billion '' @ numspell (n mod 1000000000)"
    using False by (subst numspell.simps) simp
  moreover have "length (numspell (n div 1000000000)) \<le> 258"
    using \<open>n < 9223372036854775808\<close> by (intro numspell_1e18 less_mult_imp_div_less) simp
  moreover have "length (numspell (n mod 1000000000)) \<le> 125"
    by (intro numspell_1e9) simp
  ultimately show ?thesis by simp
qed

lemma keeps_spellnum: "keeps (spellnum n) (\<lambda>_. True)"
proof -
  have len: "length (m @ numspell (nat (sint w)) @ ''and '' @ fmt_0d 2 c @ ''/100'') < 4096"
    if "length m < 10" and "\<not> (sint w < 0 \<or> c < 0 \<or> 99 < c)" for m c and w :: "64 word"
  proof -
    have "nat (sint w) < 9223372036854775808"
      using fits_sint [of w] that(2) by (auto simp: fits_long_def nat_less_iff)
    from numspell_long [OF this] that length_fmt_0d_2 [of c] show ?thesis by simp
  qed
  have fin: "length m < 10 \<Longrightarrow> keeps (spell_finish m w c) (\<lambda>_. True)" for m c w
    unfolding spell_finish_def by (intro spec_if spec_raise keeps_push_string len)
  show ?thesis
    unfolding spellnum_def
    by (rule keeps_then_number)
      (auto simp: Let_def intro!: fin spec_if spec_raise split: number.split prod.split)
qed

lemma keeps_dtoc: "keeps (dtoc g n) (\<lambda>_. True)"
  unfolding dtoc_def by (intro keeps_fcn) auto

lemma keeps_then_mdy: "(\<And>x. keeps (f x) Q) \<Longrightarrow> keeps (bnd (d_to_mdy n) f) Q"
  unfolding d_to_mdy_def bnd_assoc by (intro keeps_pops)

lemma keeps_day: "keeps (day n) (\<lambda>_. True)"
  unfolding day_def by (intro keeps_then_mdy) (simp add: keeps_push_int split: prod.split)

lemma keeps_month: "keeps (month n) (\<lambda>_. True)"
  unfolding month_def by (intro keeps_then_mdy) (simp add: keeps_push_int split: prod.split)

lemma keeps_year: "keeps (year n) (\<lambda>_. True)"
  unfolding year_def by (intro keeps_then_mdy) (simp add: keeps_push_int split: prod.split)

lemma length_names: "n < 7 \<Longrightarrow> length (dayofweek ! n) < 10" "n < 12 \<Longrightarrow> length (month_n ! n) < 10"
proof -
  have "list_all (\<lambda>n. length (dayofweek ! n) < 10) [0..<7]" by code_simp
  then show "n < 7 \<Longrightarrow> length (dayofweek ! n) < 10" by (simp add: list_all_iff)
  have "list_all (\<lambda>n. length (month_n ! n) < 10) [0..<12]" by code_simp
  then show "n < 12 \<Longrightarrow> length (month_n ! n) < 10" by (simp add: list_all_iff)
qed

lemma keeps_cdow: "keeps (cdow n) (\<lambda>_. True)"
proof -
  have "length (dayofweek ! unat ((d + 1) mod 7)) < 4096" for d :: "32 word"
    using length_names(1) [of "unat ((d + 1) mod 7)"] by (simp add: unat_mod_distrib)
  then show ?thesis unfolding cdow_def by (intro keeps_fcn)
qed

lemma keeps_cmonth: "keeps (cmonth n) (\<lambda>_. True)"
proof -
  have "length (month_n ! nat (mm - 1)) < 4096" if "1 \<le> mm" "mm \<le> 12" for mm
    using length_names(2) [of "nat (mm - 1)"] that by (simp add: nat_less_iff)
  then show ?thesis unfolding cmonth_def
    by (intro keeps_then_mdy) (auto intro!: spec_intros keeps_push_string split: prod.split)
qed

lemma keeps_dow: "keeps (dow n) (\<lambda>_. True)"
  unfolding dow_def by (intro keeps_fcn)

lemma keeps_iif: "keeps (iif n) (\<lambda>_. True)"
  unfolding iif_def by (intro keeps_fcn) auto

lemma keeps_char_class: "keeps (char_class P) (\<lambda>_. True)"
  unfolding char_class_def by (intro keeps_fcn)

lemma keeps_minmax: "keeps (minmax g b n) (\<lambda>_. True)"
  unfolding minmax_def by (intro keeps_fcn) auto

lemma keeps_inlist_loop: "keeps (inlist_loop tv n) (\<lambda>_. True)"
proof (induction n)
  case 0
  show ?case by (simp add: spec_raise)
next
  case (Suc n)
  then show ?case
    by (auto intro!: keeps_then_any spec_intros split: option.split)
qed

lemma keeps_pop_n: "keeps (pop_n n) (\<lambda>_. True)"
  by (induction n) (auto intro!: keeps_then_any spec_intros)

lemma keeps_inlist: "keeps (inlist g n) (\<lambda>_. True)"
proof -
  have "keeps (if n = 0 then (if restricted g then ret None else raise (Sys STACK_FAULT))
      else stack_peek g (n - 1)) (\<lambda>v. \<forall>x. v = Some x \<longrightarrow> val_ok x)"
    by (auto intro!: spec_intros keeps_peek)
  then show ?thesis unfolding inlist_def
    by (rule spec_bnd) (intro spec_bnd [OF keeps_deref] spec_bnd [OF keeps_inlist_loop]
        spec_bnd [OF keeps_pop_n] keeps_push_logic)
qed

lemma keeps_isnull: "keeps (isnull n) (\<lambda>_. True)"
  unfolding isnull_def by (intro keeps_fcn)

lemma keeps_epoch: "keeps (epoch_fcn g n) (\<lambda>_. True)"
  unfolding epoch_fcn_def by (rule keeps_push_int)

lemma keeps_pi: "keeps (pi_fcn n) (\<lambda>_. True)"
  unfolding pi_fcn_def by (rule keeps_push_real)

lemma keeps_val: "keeps (val_fcn g n) (\<lambda>_. True)"
proof -
  have "num_ok num" if "str2num g f t = Inr num" for f t num
    using that by (auto simp: str2num_def Let_def split: if_splits prod.splits)
  then show ?thesis unfolding val_fcn_def by (intro keeps_fcn)
qed

interpretation builtins: fcn_contract "builtins g" for g
proof
  fix f h n assume "(f, h) \<in> set (builtins g)"
  then show "keeps (h n) (\<lambda>_. True)"
    unfolding builtins_def
    by (auto simp: ltrim_def rtrim_def keeps_trim padc_def padl_def padr_def keeps_pad mmax_def mmin_def
        keeps_minmax isalpha_fcn_def isdigit_fcn_def islower_fcn_def isupper_fcn_def keeps_char_class
        keeps_ttoc keeps_substr keeps_soundex keeps_str keeps_lower keeps_upper keeps_chr keeps_asc keeps_at
        keeps_len keeps_left keeps_right keeps_space keeps_stuff keeps_occurs keeps_replicate keeps_proper
        keeps_exp keeps_log keeps_log10 keeps_sqrt keeps_mod keeps_int keeps_abs keeps_round keeps_between
        keeps_spellnum keeps_dtoc keeps_day keeps_month keeps_year keeps_cdow keeps_cmonth keeps_dow
        keeps_iif keeps_inlist keeps_isnull keeps_epoch keeps_pi keeps_val)
qed

section \<open>Properties\<close>

text \<open>C21: no call of a built-in function breaks the stack: with any arguments, when it returns and when it raises
  an error, what is left on the stack fits the headers and the stack, provided the functions outside this table
  do the same. Nothing is said of a call that ends with STACK_UNDERFLOW, after which the stack pointer is beyond the
  stack, or that does what C leaves undefined.\<close>

theorem fcn_call_keeps_stack:
  assumes "stack_ok s" and "\<And>n. map_of (builtins g) f = None \<Longrightarrow> keeps (other f n) (\<lambda>_. True)"
  shows "case fcn_call (builtins g) other f s of (r, s') \<Rightarrow> r \<noteq> Inl Undefined \<and> r \<noteq> Inl (Sys STACK_UNDERFLOW) \<longrightarrow> stack_ok s'"
  using builtins.call_keeps [where other = other and f = f and g = g] assms unfolding promises_def
  by (auto split: prod.split dest: spec [of _ s])

theorem fcn_call_keeps_stack_witness:
  "fst (fcn_call (builtins env0) (\<lambda>_ _. ret ()) UPPER_FCN [VNum (NInt 0 1), VChar ''a'']) = Inr ()
    \<and> stack_ok (snd (fcn_call (builtins env0) (\<lambda>_ _. ret ()) UPPER_FCN [VNum (NInt 0 1), VChar ''a'']))"
proof -
  have "fst (fcn_call (builtins env0) (\<lambda>_ _. ret ()) UPPER_FCN [VNum (NInt 0 1), VChar ''a'']) = Inr ()" by code_simp
  moreover have "case fcn_call (builtins env0) (\<lambda>_ _. ret ()) UPPER_FCN [VNum (NInt 0 1), VChar ''a''] of
      (r, s') \<Rightarrow> r \<noteq> Inl Undefined \<and> r \<noteq> Inl (Sys STACK_UNDERFLOW) \<longrightarrow> stack_ok s'"
    by (rule fcn_call_keeps_stack) (simp_all add: stack_ok_def spec_ret)
  ultimately show ?thesis by (auto split: prod.splits)
qed

lemma pop_string_Cons [cm_simps]:
  "pop_string (VChar t # s) = (Inr t, s)"
  "val_typ v \<noteq> CHARCTR \<Longrightarrow> pop_string (v # s) = (Inl (Syn INVALID_TYPE), v # s)"
  by (simp_all add: pop_string_def cm_simps)

lemma pop_int_Cons [cm_simps]:
  "pop_int low high (VNum (NInt 0 n) # s) =
     (if to_int32 n < low \<or> (0 \<le> high \<and> high < to_int32 n) then (Inl (Syn INVALID_VALUE), s)
      else (Inr (to_int32 n), s))"
  by (simp add: pop_int_def cm_simps Let_def)

lemma in_buffer_app [cm_simps]:
  "in_buffer n t s = (if n < length t then Inl Undefined else Inr t, s)"
  by (simp add: in_buffer_def cm_simps)

lemma push_string_app [cm_simps]:
  "stk_bytes s \<le> 60000 \<Longrightarrow> length t < 4096 \<Longrightarrow> push_string t s = (Inr (), VChar t # s)"
  by (simp add: push_string_def push_app)

lemma drop_blanks:
  assumes "\<not> list_all (\<lambda>c. c = CHR '' '') t"
  shows "\<exists>j. t = replicate j (CHR '' '') @ dropWhile (\<lambda>c. c = CHR '' '') t"
    and "dropWhile (\<lambda>c. c = CHR '' '') t \<noteq> []"
    and "hd (dropWhile (\<lambda>c. c = CHR '' '') t) \<noteq> CHR '' ''"
proof -
  have "takeWhile (\<lambda>c. c = CHR '' '') t = replicate (length (takeWhile (\<lambda>c. c = CHR '' '') t)) (CHR '' '')"
    by (rule replicate_eqI) (auto dest: set_takeWhileD)
  then show "\<exists>j. t = replicate j (CHR '' '') @ dropWhile (\<lambda>c. c = CHR '' '') t"
    by (metis takeWhile_dropWhile_id)
  show n: "dropWhile (\<lambda>c. c = CHR '' '') t \<noteq> []"
    using assms by (auto simp: dropWhile_eq_Nil_conv list_all_iff)
  from hd_dropWhile [OF n] show "hd (dropWhile (\<lambda>c. c = CHR '' '') t) \<noteq> CHR '' ''" .
qed

text \<open>RTRIM takes off exactly the trailing blanks and LTRIM the leading ones when the string has
  another character; on a string of blanks only, the empty one included, both leave the buffer.\<close>

theorem trim_correct:
  assumes "stk_bytes s \<le> 60000" and "length t < 2046"
  shows "if list_all (\<lambda>c. c = CHR '' '') t
         then rtrim 1 (VChar t # s) = (Inl Undefined, s) \<and> ltrim 1 (VChar t # s) = (Inl Undefined, s)
         else \<exists>r k l j. rtrim 1 (VChar t # s) = (Inr (), VChar r # s)
                \<and> t = r @ replicate k (CHR '' '') \<and> r \<noteq> [] \<and> last r \<noteq> CHR '' ''
                \<and> ltrim 1 (VChar t # s) = (Inr (), VChar l # s)
                \<and> t = replicate j (CHR '' '') @ l \<and> l \<noteq> [] \<and> hd l \<noteq> CHR '' ''"
proof (cases "list_all (\<lambda>c. c = CHR '' '') t")
  case True
  then show ?thesis using assms by (simp add: rtrim_def ltrim_def trim_def cm_simps)
next
  case False
  let ?l = "dropWhile (\<lambda>c. c = CHR '' '') t"
  let ?q = "dropWhile (\<lambda>c. c = CHR '' '') (rev t)"
  have F': "\<not> list_all (\<lambda>c. c = CHR '' '') (rev t)" using False by (simp add: list_all_iff)
  have len: "length ?l < 4096" "length (rev ?q) < 4096"
    using assms(2) length_dropWhile_le [of "\<lambda>c. c = CHR '' ''" t]
      length_dropWhile_le [of "\<lambda>c. c = CHR '' ''" "rev t"] by auto
  have "rtrim 1 (VChar t # s) = (Inr (), VChar (rev ?q) # s)"
    using False assms len by (simp add: rtrim_def trim_def cm_simps)
  moreover obtain k where k: "rev t = replicate k (CHR '' '') @ ?q" using drop_blanks(1) [OF F'] by blast
  then have "t = rev ?q @ replicate k (CHR '' '')" by (metis rev_append rev_replicate rev_rev_ident)
  moreover have "rev ?q \<noteq> []" "last (rev ?q) \<noteq> CHR '' ''"
    using drop_blanks(2,3) [OF F'] by (simp_all add: last_rev)
  moreover have "ltrim 1 (VChar t # s) = (Inr (), VChar ?l # s)"
    using False assms len by (simp add: ltrim_def trim_def cm_simps)
  moreover obtain j where "t = replicate j (CHR '' '') @ ?l" using drop_blanks(1) [OF False] by blast
  ultimately show ?thesis using False drop_blanks(2,3) [OF False] by (simp only: if_False) blast
qed

theorem trim_correct_witness:
  "\<exists>r k. rtrim 1 [VChar ''A  ''] = (Inr (), [VChar r]) \<and> ''A  '' = r @ replicate k (CHR '' '')"
  using trim_correct [of "[]" "''A  ''"] by auto

lemma find_at_spec:
  "case find_at p t i n of
     0 \<Rightarrow> \<forall>j < n. take (length p) (drop j t) \<noteq> p
   | Suc r \<Rightarrow> i \<le> r \<and> r - i < n \<and> take (length p) (drop (r - i) t) = p
       \<and> (\<forall>j < r - i. take (length p) (drop j t) \<noteq> p)"
proof (induction n arbitrary: i t)
  case 0
  show ?case by simp
next
  case (Suc n)
  show ?case
  proof (cases "take (length p) t = p")
    case True
    then show ?thesis by simp
  next
    case False
    have sh: "take (length p) (drop j t) = p \<longleftrightarrow> (\<exists>j'. j = Suc j' \<and> take (length p) (drop j' (tl t)) = p)" for j
      using False by (cases j) (auto simp: drop_Suc)
    have e: "find_at p t i (Suc n) = find_at p (tl t) (Suc i) n" using False by simp
    from Suc.IH [of "tl t" "Suc i"] show ?thesis unfolding e
      by (auto simp: sh less_Suc_eq_0_disj Suc_diff_Suc split: nat.splits) (metis Suc_diff_Suc Suc_le_lessD Suc_less_eq)+
  qed
qed

lemma find_at_result:
  assumes "length p \<le> length t"
  defines "r \<equiv> find_at p t 0 (Suc (length t - length p))"
  shows "if r = 0 then \<forall>j. take (length p) (drop j t) = p \<longrightarrow> length t < j + length p
         else take (length p) (drop (r - 1) t) = p \<and> r - 1 + length p \<le> length t
              \<and> (\<forall>j < r - 1. take (length p) (drop j t) \<noteq> p)"
proof (cases r)
  case 0
  have "take (length p) (drop j t) \<noteq> p" if "j + length p \<le> length t" for j
    using find_at_spec [where p = p and t = t and i = 0 and n = "Suc (length t - length p)"] 0 that
    unfolding r_def [symmetric] by (simp add: less_Suc_eq_le)
  with 0 show ?thesis by (auto simp: not_le [symmetric])
next
  case (Suc q)
  then show ?thesis
    using find_at_spec [where p = p and t = t and i = 0 and n = "Suc (length t - length p)"] assms(1)
    unfolding r_def [symmetric] by (auto simp: less_Suc_eq_le)
qed

text \<open>AT returns the first position, counted from 1, at which the pattern occurs in the text, and
  0 when it does not occur.\<close>

theorem at_finds_first:
  assumes "stk_bytes s \<le> 60000"
  shows "\<exists>r. at_fcn 2 (VChar t # VChar p # s) = (Inr (), VNum (NInt 0 (of_nat r)) # s)
    \<and> (if r = 0 then \<forall>j. take (length p) (drop j t) = p \<longrightarrow> length t < j + length p
       else take (length p) (drop (r - 1) t) = p \<and> r - 1 + length p \<le> length t
            \<and> (\<forall>j < r - 1. take (length p) (drop j t) \<noteq> p))"
proof -
  let ?r = "if length p \<le> length t then find_at p t 0 (Suc (length t - length p)) else 0"
  have "at_fcn 2 (VChar t # VChar p # s) = (Inr (), VNum (NInt 0 (of_nat ?r)) # s)"
    using assms by (simp add: at_fcn_def push_nat_def push_int_def cm_simps del: find_at.simps)
  moreover have "if ?r = 0 then \<forall>j. take (length p) (drop j t) = p \<longrightarrow> length t < j + length p
       else take (length p) (drop (?r - 1) t) = p \<and> ?r - 1 + length p \<le> length t
            \<and> (\<forall>j < ?r - 1. take (length p) (drop j t) \<noteq> p)"
  proof (cases "length p \<le> length t")
    case True
    show ?thesis unfolding if_P [OF True] by (rule find_at_result [OF True])
  next
    case False
    then show ?thesis by simp
  qed
  ultimately show ?thesis by blast
qed

theorem at_finds_first_witness:
  "\<exists>r. at_fcn 2 [VChar ''banana'', VChar ''an''] = (Inr (), [VNum (NInt 0 (of_nat r))])"
  using at_finds_first [of "[]" "''banana''" "''an''"] by auto

lemma count_at_card: "count_at p t n = card {i. i < n \<and> take (length p) (drop i t) = p}"
proof (induction n arbitrary: t)
  case 0
  show ?case by simp
next
  case (Suc n)
  let ?A = "{i. i < n \<and> take (length p) (drop i (tl t)) = p}"
  have "{i. i < Suc n \<and> take (length p) (drop i t) = p}
      = (if take (length p) t = p then {0} else {}) \<union> Suc ` ?A"
    by (auto simp: less_Suc_eq_0_disj drop_Suc image_iff)
  moreover have "card (Suc ` ?A) = card ?A" by (rule card_image) simp
  moreover have "finite ?A" by simp
  ultimately show ?case using Suc.IH [of "tl t"] by (auto simp: card_insert_if)
qed

text \<open>OCCURS counts the positions at which its first argument occurs in the second, except the
  last possible one, at the very end: OCCURS('a', 'a') is 0.\<close>

theorem occurs_misses_last:
  assumes "stk_bytes s \<le> 60000" and "length p \<le> length t"
  shows "occurs 2 (VChar t # VChar p # s)
    = (Inr (), VNum (NInt 0 (of_nat (card {i. i + length p < length t \<and> take (length p) (drop i t) = p}))) # s)"
proof -
  have e: "{i. i + length p < length t \<and> take (length p) (drop i t) = p}
     = {i. i < length t - length p \<and> take (length p) (drop i t) = p}"
    by (auto simp: less_diff_conv)
  show ?thesis unfolding e
    using assms by (simp add: occurs_def push_nat_def push_int_def cm_simps count_at_card)
qed

theorem occurs_misses_last_witness:
  "occurs 2 [VChar ''a'', VChar ''a''] = (Inr (), [VNum (NInt 0 0)])"
  using occurs_misses_last [of "[]" "''a''" "''a''"] by simp

text \<open>ROUND of a number that is not negative to fewer decimals rounds half up, exactly.\<close>

theorem round_half_up:
  assumes "N < 2 ^ 63" and "0 < j" and "j < k" and "k \<le> DECI_MAX"
  shows "round_deci k (of_nat N) (int j)
           = NInt j (of_nat ((N + 5 * 10 ^ (k - j - 1)) div 10 ^ (k - j)))"
proof -
  have sN: "sint (of_nat N :: 64 word) = int N" using sint_nat [OF assms(1)] by simp
  note sp = decimal_split [OF sN assms(1) assms(4)]
  define n d h where "n = N div 10 ^ k" and "d = N mod 10 ^ k" and "h = (5::nat) * 10 ^ (k - j - 1)"
  have kj: "(10::nat) ^ k = 10 ^ j * 10 ^ (k - j)" using assms(3) by (simp flip: power_add)
  have small: "d + h < 2 ^ 63"
  proof -
    have "d < 10 ^ 18" using assms(4) unfolding d_def
      by (meson mod_less_divisor order.strict_trans2 power_increasing one_le_numeral zero_less_power zero_less_numeral)
    moreover have "(10::nat) ^ (k - j - 1) \<le> 10 ^ 17" using assms by (intro power_increasing) auto
    ultimately show ?thesis unfolding h_def by simp
  qed
  have w: "lrem (of_nat N :: 64 word) (power10 k) + 5 * power10 (k - j - 1) = of_nat (d + h)"
    using sp(2) by (simp add: d_def h_def power10_word)
  have q: "lquo (of_nat (d + h)) (power10 (k - j)) = of_nat ((d + h) div 10 ^ (k - j))"
  proof -
    have "sint (of_nat (d + h) :: 64 word) = int (d + h)" using sint_nat [OF small] by simp
    from decimal_split(1) [OF this small, of "k - j"] assms(4)
    have "sint (lquo (of_nat (d + h)) (power10 (k - j))) = int ((d + h) div 10 ^ (k - j))" by simp
    moreover have "(d + h) div 10 ^ (k - j) < 2 ^ 63"
      using small div_le_dividend order.strict_trans1 by blast
    ultimately show ?thesis
      using sint_nat [of "(d + h) div 10 ^ (k - j)"] by (intro signed_word_eqI [where ?'a = int]) simp
  qed
  have n: "lquo (of_nat N) (power10 k) = of_nat n"
  proof -
    have "n < 2 ^ 63" using assms(1) div_le_dividend order.strict_trans1 unfolding n_def by blast
    then show ?thesis
      using sp(1) sint_nat [of n] by (intro signed_word_eqI [where ?'a = int]) (simp add: n_def)
  qed
  have eq: "n * 10 ^ j + (d + h) div 10 ^ (k - j) = (N + h) div 10 ^ (k - j)"
  proof -
    have "N + h = n * 10 ^ j * 10 ^ (k - j) + (d + h)"
      using div_mult_mod_eq [of N "10 ^ k"] unfolding n_def d_def kj by (simp add: mult.assoc)
    then show ?thesis by (simp only: div_mult_self3 power_not_zero [of 10] zero_neq_numeral not_False_eq_True)
  qed
  have "round_deci k (of_nat N) (int j)
      = NInt j (of_nat n * power10 j + of_nat ((d + h) div 10 ^ (k - j)))"
    using assms(2) w q n by (simp add: round_deci_def Let_def)
  moreover have "of_nat n * power10 j + of_nat ((d + h) div 10 ^ (k - j))
      = (of_nat ((N + h) div 10 ^ (k - j)) :: 64 word)"
    unfolding eq [symmetric] by (simp add: power10_word)
  ultimately show ?thesis unfolding h_def by simp
qed

theorem round_half_up_witness:
  "round_deci 3 (of_nat 1995) (int 2) = NInt 2 (of_nat ((1995 + 5 * 10 ^ (3 - 2 - 1)) div 10 ^ (3 - 2)))"
  by (rule round_half_up) simp_all

text \<open>ROUND of a number that has no more decimals than asked for leaves the number on the stack
  twice.\<close>

theorem round_pushes_twice:
  assumes "int k \<le> ndeci g" and "stk_bytes s \<le> 60000"
  shows "round_fcn g 1 (VNum (NInt k m) # s) = (Inr (), VNum (NInt k m) # VNum (NInt k m) # s)"
  using assms by (simp add: round_fcn_def push_number_def cm_simps)

theorem round_pushes_twice_witness:
  "round_fcn env0 1 [VNum (NInt 0 5)] = (Inr (), [VNum (NInt 0 5), VNum (NInt 0 5)])"
  by (rule round_pushes_twice) (simp_all add: env0_def)

text \<open>BETWEEN of integers of 32 bits is strict on both sides, and with a NULL argument it is true.\<close>

theorem between_strict:
  assumes "\<bar>sint a\<bar> < 2 ^ 31" and "\<bar>sint b\<bar> < 2 ^ 31" and "\<bar>sint c\<bar> < 2 ^ 31" and "stk_bytes s \<le> 60000"
  shows "between 3 (VNum (NInt 0 c) # VNum (NInt 0 b) # VNum (NInt 0 a) # s)
           = (Inr (), VLogic (Some (sint b < sint a \<and> sint a < sint c)) # s)
         \<and> between 3 (VNum (NInt 0 c) # VNum (NInt 0 b) # VNum NNull # s) = (Inr (), VLogic (Some True) # s)"
proof -
  have "fits_long (sint a - sint b)" "fits_long (sint a - sint c)"
    using assms by (auto simp: fits_long_def)
  then have "sint (a - b) = sint a - sint b" "sint (a - c) = sint a - sint c"
    by (simp_all add: sint_diff_fits)
  then have "num_rel (NInt 0 a) (NInt 0 b) TGREATER = of_bool_int (sint b < sint a)"
    and "num_rel (NInt 0 a) (NInt 0 c) TLESS = of_bool_int (sint a < sint c)"
    by (simp_all add: num_rel_def)
  moreover have "num_rel NNull y opr = - 1" for y opr by (simp add: num_rel_def)
  ultimately show ?thesis
    using assms(4) by (simp add: between_def push_logic_def of_bool_int_def cm_simps)
qed

theorem between_strict_witness:
  "between 3 [VNum (NInt 0 9), VNum (NInt 0 5), VNum (NInt 0 5)] = (Inr (), [VLogic (Some False)])"
  using between_strict [of 5 5 9 "[]"] by simp

end
