(* ===== verification/Lexer.thy ===== *)
theory Lexer
  imports Function_Table Keywords
begin

text \<open>
  The tokens of a command line: server/hb/lex.c, with the constant pool that a macro uses on the
  way (data_chk and loadstring of server/hb/parse.c). The state holds the globals of the scanner,
  the code and the constants that are being compiled, and the machine: the stack and the rest of
  the interpreter, which the scanner reaches only to fetch the value of a macro variable (v_retrv,
  a parameter here). A macro may expand to another macro for ever, so getmac takes fuel.
\<close>

section \<open>State\<close>

type_synonym 'r machine = "hbval list \<times> 'r"

record 'r pst =
  curr_cmd :: string
  curr_tok :: nat
  currtok_s :: nat
  currtok_len :: nat
  pcode :: "(nat \<times> nat) list"
  pdata :: "hbval list"
  exe :: bool
  is_ndx_expr :: bool
  mach :: "'r machine"

type_synonym ('r, 'a) pm = "('r pst, 'a) cm"

definition on_mach :: "('r machine, 'a) cm \<Rightarrow> ('r, 'a) pm" where
  "on_mach m = (\<lambda>p. case m (mach p) of (r, w) \<Rightarrow> (r, p\<lparr>mach := w\<rparr>))"

definition on_stk :: "'a sm \<Rightarrow> ('r machine, 'a) cm" where
  "on_stk m = (\<lambda>(s, r). case m s of (x, s') \<Rightarrow> (x, (s', r)))"

text \<open>A machine operation that the scanner and the parser call by name.\<close>

record 'r ops =
  hbint :: "nat \<Rightarrow> nat \<Rightarrow> hbval list \<Rightarrow> ('r machine, unit) cm"
  v_retrv :: "('r machine, unit) cm"

abbreviation (input) TNULLTOK :: nat where
  "TNULLTOK \<equiv> 0x0000"
abbreviation (input) TID :: nat where
  "TID \<equiv> 0x0001"
abbreviation (input) TLOGIC :: nat where
  "TLOGIC \<equiv> 0x0002"
abbreviation (input) TINT :: nat where
  "TINT \<equiv> 0x0003"
abbreviation (input) TNUMBER :: nat where
  "TNUMBER \<equiv> 0x0004"
abbreviation (input) TLIT :: nat where
  "TLIT \<equiv> 0x0005"
abbreviation (input) TCOMMA :: nat where
  "TCOMMA \<equiv> 0x0006"
abbreviation (input) TSEMICOLON :: nat where
  "TSEMICOLON \<equiv> 0x0007"
abbreviation (input) TLPAREN :: nat where
  "TLPAREN \<equiv> 0x0008"
abbreviation (input) TRPAREN :: nat where
  "TRPAREN \<equiv> 0x0009"
abbreviation (input) TAT :: nat where
  "TAT \<equiv> 0x000a"
abbreviation (input) TLBRKT :: nat where
  "TLBRKT \<equiv> 0x000b"
abbreviation (input) TRBRKT :: nat where
  "TRBRKT \<equiv> 0x000c"
abbreviation (input) TCOLON :: nat where
  "TCOLON \<equiv> 0x000d"
abbreviation (input) TARROW :: nat where
  "TARROW \<equiv> 0x000e"
abbreviation (input) TPOUND :: nat where
  "TPOUND \<equiv> 0x000f"
abbreviation (input) TPERIOD :: nat where
  "TPERIOD \<equiv> 0x0010"
abbreviation (input) TMAC :: nat where
  "TMAC \<equiv> 0x1000"
abbreviation (input) TTOK :: nat where
  "TTOK \<equiv> 0x1001"
abbreviation (input) TEOF :: nat where
  "TEOF \<equiv> 0x7fff"

abbreviation (input) VNAMELEN :: nat where
  "VNAMELEN \<equiv> 20"
abbreviation (input) DATA_LIMIT :: nat where
  "DATA_LIMIT \<equiv> 256"
abbreviation (input) SIZE_LIMIT :: nat where
  "SIZE_LIMIT \<equiv> 16384 - 128 - 4"

definition ch :: "string \<Rightarrow> nat \<Rightarrow> char" where
  \<comment> \<open>curr_cmd[i]; the text ends with NUL\<close>
  "ch s i = (if i < length s then s ! i else CHR 0x00)"

definition cmd_at :: "nat \<Rightarrow> ('r, char) pm" where
  "cmd_at i = getst (\<lambda>p. ch (curr_cmd p) i)"

definition set_tok :: "nat \<Rightarrow> ('r, unit) pm" where
  "set_tok t = modst (\<lambda>p. p\<lparr>curr_tok := t\<rparr>)"

definition set_len :: "nat \<Rightarrow> ('r, unit) pm" where
  "set_len n = modst (\<lambda>p. p\<lparr>currtok_len := n\<rparr>)"

definition token :: "nat \<Rightarrow> nat \<Rightarrow> ('r, unit) pm" where
  "token t n = modst (\<lambda>p. p\<lparr>curr_tok := t, currtok_len := n\<rparr>)"

type_synonym tok3 = "nat \<times> nat \<times> nat"

definition save_token :: "('r, tok3) pm" where
  "save_token = getst (\<lambda>p. (curr_tok p, currtok_s p, currtok_len p))"

definition rest_token :: "tok3 \<Rightarrow> ('r, unit) pm" where
  "rest_token tk = (case tk of (t, s, n) \<Rightarrow>
     modst (\<lambda>p. p\<lparr>curr_tok := t, currtok_s := s, currtok_len := n\<rparr>))"

section \<open>Constants\<close>

definition data_chk :: "nat \<Rightarrow> ('r, unit) pm" where
  "data_chk sz = (\<lambda>p.
     if DATA_LIMIT \<le> length (pdata p) \<or> SIZE_LIMIT \<le> stk_bytes (pdata p) + sz
     then (Inl (Syn EXP_TOOLONG), p) else (Inr (), p))"

definition add_data :: "nat \<Rightarrow> hbval \<Rightarrow> ('r, nat) pm" where
  \<comment> \<open>data_chk, then the value is written behind the last constant; the result is its index\<close>
  "add_data sz v =
     bnd (data_chk sz) (\<lambda>_. bnd (getst (\<lambda>p. length (pdata p))) (\<lambda>currdata.
     bnd (modst (\<lambda>p. p\<lparr>pdata := pdata p @ [v]\<rparr>)) (\<lambda>_. ret currdata)))"

definition tok_text :: "'r pst \<Rightarrow> string" where
  "tok_text p = take (currtok_len p) (drop (currtok_s p) (curr_cmd p))"

definition loadstring :: "('r, nat) pm" where
  "loadstring =
     bnd (getst (\<lambda>p. let q = ch (curr_cmd p) (currtok_s p) in
            if q = CHR 0x27 \<or> q = CHR 0x22
            then take (currtok_len p - 2) (drop (Suc (currtok_s p)) (curr_cmd p))
            else tok_text p))
       (\<lambda>s. add_data (length s + 2) (VChar s))"

section \<open>Names and macros\<close>

definition name_char :: "char \<Rightarrow> bool" where
  "name_char c \<longleftrightarrow> isalpha c \<or> isdigit c \<or> c = CHR ''_''"

definition subst_mac :: "nat \<Rightarrow> nat \<Rightarrow> string \<Rightarrow> ('r, unit) pm" where
  \<comment> \<open>the value v replaces the & at start and the name of len characters behind it; rest is cut to
     what STRBUFSZ leaves, unless that is negative\<close>
  "subst_mac start len v =
     bnd (guard (start + length v \<le> STRBUFSZ) Undefined) (\<lambda>_.
     modst (\<lambda>p. p\<lparr>curr_cmd := take start (curr_cmd p) @ v
              @ take (STRBUFSZ - start - length v) (drop (start + len + 1) (curr_cmd p))\<rparr>))"

fun getvarname :: "'r ops \<Rightarrow> nat \<Rightarrow> nat \<Rightarrow> nat \<Rightarrow> ('r, nat) pm"
  and getmac :: "'r ops \<Rightarrow> nat \<Rightarrow> nat \<Rightarrow> ('r, nat) pm" where
  "getvarname G 0 start len = raise NoFuel"
| "getvarname G (Suc n) start len =
     (let start = start + 1; len = len + 1 in
      bnd (cmd_at start) (\<lambda>c.
      bnd (if c = CHR ''&'' then
             bnd (getmac G n start) (\<lambda>maclen. bnd (getst exe) (\<lambda>e.
               if e then ret (start, len)
               else bnd (set_tok TMAC) (\<lambda>_. ret (start + maclen, len + maclen))))
           else ret (start, len)) (\<lambda>(start, len).
      bnd (cmd_at start) (\<lambda>c. if name_char c then getvarname G n start len else ret len))))"
| "getmac G 0 start = raise NoFuel"
| "getmac G (Suc n) start =
     (let start = start + 1 in
      bnd (cmd_at start) (\<lambda>c.
        if c = CHR ''&'' then getmac G n start
        else if isalpha c \<or> c = CHR ''_'' then
          bnd (getvarname G n start 0) (\<lambda>len. bnd (getst exe) (\<lambda>e.
            if \<not> e then ret (len + 1)
            else
              bnd save_token (\<lambda>tk.
              bnd (modst (\<lambda>p. p\<lparr>currtok_s := start, currtok_len := len\<rparr>)) (\<lambda>_.
              bnd loadstring (\<lambda>i. bnd (getst (\<lambda>p. pdata p ! i)) (\<lambda>name.
              bnd (modst (\<lambda>p. p\<lparr>pdata := take i (pdata p)\<rparr>)) (\<lambda>_.
              bnd (on_mach (on_stk (push name))) (\<lambda>_.
              bnd (on_mach (v_retrv G)) (\<lambda>_.
              bnd (rest_token tk) (\<lambda>_.
              bnd (on_mach (on_stk pop_string)) (\<lambda>v.
              bnd (subst_mac (start - 1) len v) (\<lambda>_.
              bnd (cmd_at (start - 1)) (\<lambda>c.
                if c = CHR ''&'' then getmac G n (start - 1) else ret 0)))))))))))))
        else raise (Syn ILL_SYMBOL)))"

section \<open>Tokens\<close>

fun word_end :: "'r ops \<Rightarrow> nat \<Rightarrow> nat \<Rightarrow> ('r, unit) pm" where
  \<comment> \<open>while (c && !(isspace(c) || c==',' || c=='(')): i is the index of p\<close>
  "word_end G 0 i = raise NoFuel"
| "word_end G (Suc n) i =
     bnd (cmd_at i) (\<lambda>c.
       if c = CHR 0x00 \<or> isspace c \<or> c = CHR '','' \<or> c = CHR ''('' then ret ()
       else if c = CHR ''&'' then
         bnd (getst (\<lambda>p. currtok_s p + currtok_len p)) (\<lambda>pos.
         bnd (getmac G n pos) (\<lambda>maclen.
         bnd (modst (\<lambda>p. p\<lparr>currtok_len := currtok_len p + maclen\<rparr>)) (\<lambda>_.
         bnd (getst (\<lambda>p. (exe p, currtok_s p + currtok_len p))) (\<lambda>(e, j).
           if e then word_end G n i
           else bnd (set_tok TMAC) (\<lambda>_. word_end G n j)))))
       else
         bnd (modst (\<lambda>p. p\<lparr>currtok_len := currtok_len p + 1\<rparr>)) (\<lambda>_. word_end G n (i + 1)))"

definition get_tok :: "'r ops \<Rightarrow> nat \<Rightarrow> ('r, unit) pm" where
  "get_tok G n =
     bnd (modst (\<lambda>p.
            let s = currtok_s p + currtok_len p in
            p\<lparr>curr_tok := TNULLTOK, currtok_len := 0,
              currtok_s := s + length (takeWhile isspace (drop s (curr_cmd p)))\<rparr>)) (\<lambda>_.
     bnd (getst currtok_s) (\<lambda>s. bnd (cmd_at s) (\<lambda>c.
       if c = CHR 0x1a then set_tok TEOF
       else if c = CHR 0x27 \<or> c = CHR 0x22 then
         bnd (getst (\<lambda>p. length (takeWhile (\<lambda>d. d \<noteq> c) (drop (s + 1) (curr_cmd p))))) (\<lambda>k.
         bnd (cmd_at (s + 1 + k)) (\<lambda>d.
           if d = CHR 0x00 then bnd (set_len (k + 1)) (\<lambda>_. raise (Syn UNBAL_QUOTE))
           else token TLIT (k + 2)))
       else if c = CHR '','' then token TCOMMA 1
       else if c = CHR ''('' then token TLPAREN 1
       else
         bnd (if c = CHR 0x7b then ret () else word_end G n s) (\<lambda>_.
         modst (\<lambda>p. if currtok_len p \<noteq> 0 \<and> curr_tok p = TNULLTOK then p\<lparr>curr_tok := TTOK\<rparr> else p)))))"

definition dot_word :: "string \<Rightarrow> (nat \<times> nat) option" where
  \<comment> \<open>the words between dots, of the text behind the first dot: token and length\<close>
  "dot_word t =
     (let c = to_upper (ch t 0) in
      if (c = CHR ''T'' \<or> c = CHR ''Y'' \<or> c = CHR ''F'' \<or> c = CHR ''N'') \<and> ch t 1 = CHR ''.''
      then Some (TLOGIC, 3)
      else if c = CHR ''A'' \<and> to_upper (ch t 1) = CHR ''N'' \<and> to_upper (ch t 2) = CHR ''D'' \<and> ch t 3 = CHR ''.''
      then Some (TAND, 5)
      else if c = CHR ''O'' \<and> to_upper (ch t 1) = CHR ''R'' \<and> ch t 2 = CHR ''.''
      then Some (TOR, 4)
      else if c = CHR ''N'' \<and> to_upper (ch t 1) = CHR ''O'' \<and> to_upper (ch t 2) = CHR ''T'' \<and> ch t 3 = CHR ''.''
      then Some (TNOT, 5)
      else None)"

definition op_token :: "string \<Rightarrow> (nat \<times> nat) option" where
  \<comment> \<open>the last switch of get_token, of the text from the current character: token and length\<close>
  "op_token t =
     (let c = ch t 0; d = ch t 1 in
      if c = CHR ''?'' then Some (TQUESTN, 1)
      else if c = CHR ''@'' then Some (TAT, 1)
      else if c = CHR '';'' then Some (TSEMICOLON, 1)
      else if c = CHR ''('' then Some (TLPAREN, 1)
      else if c = CHR '')'' then Some (TRPAREN, 1)
      else if c = CHR ''+'' then Some (TPLUS, 1)
      else if c = CHR ''-'' then (if d = CHR ''>'' then Some (TARROW, 2) else Some (TMINUS, 1))
      else if c = CHR ''*'' then (if d = CHR ''*'' then Some (TPOWER, 2) else Some (TMULT, 1))
      else if c = CHR ''^'' then Some (TPOWER, 1)
      else if c = CHR ''/'' then Some (TDIV, 1)
      else if c = CHR ''='' then Some (TEQUAL, 1)
      else if c = CHR ''>'' then (if d = CHR ''='' then Some (TGTREQU, 2) else Some (TGREATER, 1))
      else if c = CHR ''<'' then
        (if d = CHR ''='' then Some (TLESSEQU, 2)
         else if d = CHR ''>'' then Some (TNEQU, 2) else Some (TLESS, 1))
      else if c = CHR ''['' then Some (TLBRKT, 1)
      else if c = CHR '']'' then Some (TRBRKT, 1)
      else if c = CHR '':'' then Some (TCOLON, 1)
      else if c = CHR ''#'' then Some (TPOUND, 1)
      else None)"

definition digits_len :: "string \<Rightarrow> nat" where
  "digits_len t = length (takeWhile isdigit t)"

definition real_len :: "string \<Rightarrow> nat \<Rightarrow> nat option" where
  \<comment> \<open>the length of a number whose dot is at k, with a digit behind it; None when an e has no digits\<close>
  "real_len t k =
     (let k = k + 1 + digits_len (drop (k + 1) t) in
      if ch t k = CHR ''e'' \<or> ch t k = CHR ''E'' then
        let k = k + 1; k = (if ch t k = CHR ''+'' \<or> ch t k = CHR ''-'' then k + 1 else k)
        in if \<not> isdigit (ch t k) then None else Some (k + digits_len (drop k t))
      else Some k)"

definition scan_number :: "string \<Rightarrow> err + nat \<times> nat" where
  \<comment> \<open>get_token on a text that starts with a digit, a dot or an operator: token and length; on an
     error the length reached so far is not kept\<close>
  "scan_number t =
     (let k = digits_len t in
      if ch t k = CHR ''.'' then
        if isdigit (ch t (k + 1)) then
          (case real_len t k of None \<Rightarrow> Inl (Syn ILL_SYMBOL) | Some m \<Rightarrow> Inr (TNUMBER, m))
        else if k \<noteq> 0 then Inr (TINT, k)
        else (case dot_word (drop 1 t) of Some x \<Rightarrow> Inr x | None \<Rightarrow> Inr (TPERIOD, 1))
      else if k \<noteq> 0 then Inr (TINT, k)
      else (case op_token t of Some x \<Rightarrow> Inr x | None \<Rightarrow> Inl (Syn ILL_SYMBOL)))"

definition get_token :: "'r ops \<Rightarrow> nat \<Rightarrow> ('r, unit) pm" where
  "get_token G n =
     bnd (get_tok G n) (\<lambda>_. bnd (getst curr_tok) (\<lambda>t.
       if t \<noteq> TTOK then ret ()
       else
         bnd (getst (\<lambda>p. drop (currtok_s p) (curr_cmd p))) (\<lambda>text.
         bnd (set_len 0) (\<lambda>_.
           if isalpha (ch text 0) \<or> ch text 0 = CHR ''_'' then
             bnd (getst currtok_s) (\<lambda>s. bnd (getvarname G n s 0) (\<lambda>len.
             bnd (set_len len) (\<lambda>_.
               if VNAMELEN < len then raise (Syn BAD_VARNAME) else set_tok TID)))
           else
             bnd (lift_res (scan_number text)) (\<lambda>(t, len). token t len)))))"

end
