(* ===== verification/Parser.thy ===== *)
theory Parser
  imports Lexer
begin

text \<open>
  Expressions: server/hb/parse.c, with codegen and emit of server/hb/code.c. The parser compiles to
  pcode and, when exe is set, executes every instruction as it is generated. k is the fuel of the
  scanner (macros), n bounds the nesting and the repetitions of the grammar; the entries of the
  table hbint that codegen calls are a parameter.
\<close>

section \<open>Code generation\<close>

abbreviation (input) PUSH :: nat where
  "PUSH \<equiv> 0x01"
abbreviation (input) UOP :: nat where
  "UOP \<equiv> 0x02"
abbreviation (input) BOP :: nat where
  "BOP \<equiv> 0x03"
abbreviation (input) NRETRV :: nat where
  "NRETRV \<equiv> 0x04"
abbreviation (input) FCN :: nat where
  "FCN \<equiv> 0x07"
abbreviation (input) MACRO :: nat where
  "MACRO \<equiv> 0x08"
abbreviation (input) MACRO_ID :: nat where
  "MACRO_ID \<equiv> 0x0c"
abbreviation (input) PUSH_N :: nat where
  "PUSH_N \<equiv> 0x2b"
abbreviation (input) DRETRV :: nat where
  "DRETRV \<equiv> 0x2e"
abbreviation (input) ARRAYCHK :: nat where
  "ARRAYCHK \<equiv> 0x2f"
abbreviation (input) USRFCN :: nat where
  "USRFCN \<equiv> 0x52"
abbreviation (input) OPND_ON_STACK :: nat where
  "OPND_ON_STACK \<equiv> 0xff"
abbreviation (input) CODE_LIMIT :: nat where
  "CODE_LIMIT \<equiv> 128"
abbreviation (input) CBLOCKSZ :: nat where
  "CBLOCKSZ \<equiv> 16384"

definition codegen :: "'r ops \<Rightarrow> nat \<Rightarrow> nat \<Rightarrow> ('r, unit) pm" where
  \<comment> \<open>opcode and opnd are stored in a BYTE each; nextcode moves on after the execution\<close>
  "codegen G opcode opnd =
     bnd (getst (\<lambda>p. (length (pcode p), exe p, pdata p))) (\<lambda>(nextcode, e, d).
     bnd (guard (nextcode \<noteq> CODE_LIMIT) (Syn EXP_TOOLONG)) (\<lambda>_.
     bnd (if opcode < 0x80 \<and> e then on_mach (hbint G opcode opnd d) else ret ()) (\<lambda>_.
     modst (\<lambda>p. p\<lparr>pcode := pcode p @ [(opcode mod 256, opnd mod 256)]\<rparr>))))"

record code_block =
  block_sz :: nat
  code_sz :: nat
  cb_code :: "(nat \<times> nat) list"
  cb_data :: "hbval list"

definition emit :: "nat \<Rightarrow> ('r, code_block) pm" where
  \<comment> \<open>a PCODE is 2 bytes and the header of a block 4\<close>
  "emit size_max =
     bnd (getst (\<lambda>p. (pcode p, pdata p))) (\<lambda>(c, d).
       let blocksz = 2 * length c + stk_bytes d + 4 in
       bnd (guard (blocksz \<le> size_max) (Sys CODEBLOCK_OVERFLOW)) (\<lambda>_.
       ret \<lparr>block_sz = blocksz mod 65536, code_sz = length c mod 256, cb_code = c, cb_data = d\<rparr>))"

section \<open>Constants\<close>

definition tok_from :: "'r pst \<Rightarrow> string" where
  "tok_from p = drop (currtok_s p) (curr_cmd p)"

definition loadlogic :: "('r, nat) pm" where
  "loadlogic =
     bnd (getst (\<lambda>p. to_upper (ch (tok_from p) 1))) (\<lambda>c.
     add_data 3 (VLogic (Some (c = CHR ''Y'' \<or> c = CHR ''T''))))"

definition loadnumber :: "env \<Rightarrow> ('r, nat) pm" where
  "loadnumber g =
     bnd (getst tok_text) (\<lambda>numbuf.
     bnd (lift_res (str2num g (strtod_c g) numbuf)) (\<lambda>num. add_data 10 (VNum num)))"

definition loadint :: "64 word \<Rightarrow> ('r, nat) pm" where
  "loadint n = add_data 10 (VNum (NInt 0 n))"

definition loaddate :: "32 word \<Rightarrow> ('r, nat) pm" where
  "loaddate d =
     (if d \<noteq> - 1 then add_data 6 (VDate (Some d)) else add_data 2 (VDate None))"

text \<open>The checks of a file name: loadfilename goes through the characters with the index j of the
  last separator and a flag for an extension seen.\<close>

fun filename_ok :: "bool \<Rightarrow> nat \<Rightarrow> nat \<Rightarrow> int \<Rightarrow> bool \<Rightarrow> string \<Rightarrow> bool" where
  \<comment> \<open>simple, currtok_len, i, j, ext and the characters from i on; the text behind the token is not
     part of them, so c2 and c3 below are NUL at its end\<close>
  "filename_ok simple len i j ext [] = True"
| "filename_ok simple len i j ext (c # cs) =
     (if c = CHR '':'' then False
      else if c = CHR ''.'' \<and> Suc i = len then filename_ok simple len (Suc i) j ext cs
      else if c = CHR ''.'' \<and> ch cs 0 = CHR ''/'' then filename_ok simple len (Suc i) j ext cs
      else if c = CHR ''.'' \<and> i + 2 \<le> len \<and> ch cs 0 = CHR ''.'' then
        (if i + 2 < len \<and> ch cs 1 \<noteq> CHR ''/'' then False
         else filename_ok simple len (i + 2) j ext (tl cs))
      else if c = CHR ''.'' then
        (if ext \<or> i = 0 \<or> 16 < int i - j - 1 then False
         else filename_ok simple len (Suc i) (int i) True cs)
      else if c = CHR ''/'' then
        (if simple \<or> (ext \<and> 3 < int i - j - 1) \<or> 16 < int i - j - 1 then False
         else filename_ok simple len (Suc i) (int i) False cs)
      else filename_ok simple len (Suc i) j ext cs)"

definition loadfilename :: "bool \<Rightarrow> ('r, nat) pm" where
  "loadfilename simple =
     bnd (getst (\<lambda>p. (tok_text p, currtok_s p, currtok_len p))) (\<lambda>(t, j, len).
       if len = 2 \<and> t = ''..'' then (if simple then raise (Syn BAD_FILENAME) else loadstring)
       else if (if simple then 16 else 1024) < len then raise (Syn BAD_FILENAME)
       else if filename_ok simple len 0 (int j) False t then loadstring
       else raise (Syn BAD_FILENAME))"

fun skel_ok :: "bool \<Rightarrow> nat \<Rightarrow> bool \<Rightarrow> nat \<Rightarrow> string \<Rightarrow> bool" where
  \<comment> \<open>typ == SKEL_VARNAME, i, dot, ext and the characters from i on\<close>
  "skel_ok var i dot ext [] = True"
| "skel_ok var i dot ext (c # cs) =
     (if \<not> (isalpha c \<or> ((i \<noteq> 0 \<and> var) \<or> \<not> var) \<and> isdigit c) then
        (if \<not> var \<and> c = CHR ''.'' then \<not> dot \<and> ext \<le> 3 \<and> skel_ok var (Suc i) True ext cs
         else (c = CHR ''?'' \<or> c = CHR ''*'') \<and> ext \<le> 3 \<and> skel_ok var (Suc i) dot ext cs)
      else let ext = (if dot then ext + 1 else ext) in ext \<le> 3 \<and> skel_ok var (Suc i) dot ext cs)"

definition loadskel :: "bool \<Rightarrow> ('r, nat) pm" where
  "loadskel var =
     bnd (getst (\<lambda>p. (tok_text p, currtok_len p))) (\<lambda>(t, len).
       if (if var then VNAMELEN else 16 + 3 + 1) < len then raise (Syn BAD_SKEL)
       else if skel_ok var 0 False 0 t then loadstring else raise (Syn BAD_SKEL))"

section \<open>Date constants\<close>

definition is_separator_tok :: "nat \<Rightarrow> bool" where
  "is_separator_tok t \<longleftrightarrow> t = TDIV \<or> t = TPERIOD \<or> t = TMINUS \<or> t = TCOMMA"

fun date_parts :: "'r ops \<Rightarrow> nat \<Rightarrow> string \<Rightarrow> int \<times> int \<times> int \<Rightarrow> ('r, int \<times> int \<times> int) pm" where
  \<comment> \<open>the loop over seq; the parts are month, day and year\<close>
  "date_parts G k [] mdy = ret mdy"
| "date_parts G k (c # cs) (mm, dd, yy) =
     (if c \<noteq> CHR ''m'' \<and> c \<noteq> CHR ''d'' \<and> c \<noteq> CHR ''y'' then date_parts G k cs (mm, dd, yy)
      else
        bnd (getst (\<lambda>p. (currtok_len p, tok_from p, tok_text p))) (\<lambda>(len, from, text).
        bnd (guard (\<not> (c = CHR ''y'' \<and> 4 < len)) (Syn BAD_DATE)) (\<lambda>_.
        let mdy = (if c = CHR ''m'' then (atoi_digits from, dd, yy)
                   else if c = CHR ''d'' then (mm, atoi_digits from, yy)
                   else (mm, dd, atoi_digits text))
        in bnd (get_token G k) (\<lambda>_. bnd (getst curr_tok) (\<lambda>t.
             if t = TRBRKT then ret mdy
             else if is_separator_tok t then
               bnd (get_token G k) (\<lambda>_. bnd (getst curr_tok) (\<lambda>t.
               bnd (guard (t = TINT) (Syn BAD_DATE)) (\<lambda>_. date_parts G k cs mdy)))
             else raise (Syn BAD_DATE))))))"

definition process_date :: "env \<Rightarrow> 'r ops \<Rightarrow> nat \<Rightarrow> ('r, 32 word) pm" where
  "process_date g G k =
     bnd save_token (\<lambda>tok.
     bnd (get_token G k) (\<lambda>_. bnd (getst curr_tok) (\<lambda>t.
       if t = TRBRKT then bnd (rest_token tok) (\<lambda>_. ret (- 1))
       else if t \<noteq> TINT then raise (Syn BAD_DATE)
       else
         bnd (lift_res (datefmt (datespec g))) (\<lambda>st.
         bnd (date_parts G k (take 3 (dseq st)) (0, 0, 0)) (\<lambda>(mm, dd, yy).
           if \<not> verify_date (epoch g) yy mm dd then raise (Syn BAD_DATE)
           else case date_to_number (epoch g) dd mm yy of
                  None \<Rightarrow> raise Undefined | Some d \<Rightarrow> ret d)))))"

section \<open>The grammar\<close>

abbreviation (input) F_RTRIM :: int where
  "F_RTRIM \<equiv> 0x89"
abbreviation (input) F_LTRIM :: int where
  "F_LTRIM \<equiv> 0x5d"
abbreviation (input) F_IIF :: int where
  "F_IIF \<equiv> 0x49"
abbreviation (input) F_KEY :: int where
  "F_KEY \<equiv> 0x53"

definition parm_check :: "bool \<Rightarrow> int \<Rightarrow> nat \<Rightarrow> ('r, unit) pm" where
  \<comment> \<open>parm_chk(final, fcn_no, cnt); a user function has fcn_no -1, which no case names\<close>
  "parm_check final fcn_no cnt =
     (if fcn_no < 0 then ret ()
      else bnd (getst exe) (\<lambda>e. on_mach (on_stk (parm_chk e final (nat fcn_no) cnt))))"

fun while_op :: "'r ops \<Rightarrow> nat \<Rightarrow> nat \<Rightarrow> (nat \<Rightarrow> bool) \<Rightarrow> ('r, unit) pm \<Rightarrow> ('r, unit) pm" where
  \<comment> \<open>while (is_op(op = curr_tok)) { get_token(); operand(); codegen(BOP, op); }\<close>
  "while_op G k 0 is_op operand = raise NoFuel"
| "while_op G k (Suc n) is_op operand =
     bnd (getst curr_tok) (\<lambda>opr.
       if is_op opr then
         bnd (get_token G k) (\<lambda>_. bnd operand (\<lambda>_. bnd (codegen G BOP opr) (\<lambda>_.
         while_op G k n is_op operand)))
       else ret ())"

definition term1 :: "'r ops \<Rightarrow> nat \<Rightarrow> nat \<Rightarrow> ('r, unit) pm \<Rightarrow> ('r, unit) pm" where
  "term1 G k n fac = bnd fac (\<lambda>_. while_op G k n (\<lambda>t. t = TPOWER) fac)"

definition term0 :: "'r ops \<Rightarrow> nat \<Rightarrow> nat \<Rightarrow> ('r, unit) pm \<Rightarrow> ('r, unit) pm" where
  \<comment> \<open>term()\<close>
  "term0 G k n fac = bnd (term1 G k n fac) (\<lambda>_. while_op G k n is_mulop (term1 G k n fac))"

definition simple_expr :: "'r ops \<Rightarrow> nat \<Rightarrow> nat \<Rightarrow> ('r, unit) pm \<Rightarrow> ('r, unit) pm" where
  "simple_expr G k n fac = bnd (term0 G k n fac) (\<lambda>_. while_op G k n is_addop (term0 G k n fac))"

definition rel_expr1 :: "'r ops \<Rightarrow> nat \<Rightarrow> nat \<Rightarrow> ('r, unit) pm \<Rightarrow> ('r, unit) pm" where
  "rel_expr1 G k n fac =
     bnd (simple_expr G k n fac) (\<lambda>_. bnd (getst curr_tok) (\<lambda>opr.
       if is_relop opr then
         bnd (get_token G k) (\<lambda>_. bnd (simple_expr G k n fac) (\<lambda>_. codegen G BOP opr))
       else ret ()))"

definition rel_expr :: "'r ops \<Rightarrow> nat \<Rightarrow> nat \<Rightarrow> ('r, unit) pm \<Rightarrow> ('r, unit) pm" where
  "rel_expr G k n fac = bnd (rel_expr1 G k n fac) (\<lambda>_. while_op G k n (\<lambda>t. t = TAND) (rel_expr1 G k n fac))"

definition expr_of :: "'r ops \<Rightarrow> nat \<Rightarrow> nat \<Rightarrow> ('r, unit) pm \<Rightarrow> ('r, unit) pm" where
  \<comment> \<open>expression(), over the factors fac\<close>
  "expr_of G k n fac = bnd (rel_expr G k n fac) (\<lambda>_. while_op G k n (\<lambda>t. t = TOR) (rel_expr G k n fac))"

fun args :: "'r ops \<Rightarrow> nat \<Rightarrow> nat \<Rightarrow> ('r, unit) pm \<Rightarrow> int \<Rightarrow> nat \<Rightarrow> ('r, nat) pm" where
  \<comment> \<open>do { get_token(); .. } while (curr_tok == TCOMMA), with parm_cnt arguments so far\<close>
  "args G k 0 expression fcn_no parm_cnt = raise NoFuel"
| "args G k (Suc n) expression fcn_no parm_cnt =
     bnd (get_token G k) (\<lambda>_. bnd (getst curr_tok) (\<lambda>t.
       if t = TRPAREN \<and> parm_cnt = 0 then ret parm_cnt
       else
         bnd expression (\<lambda>_. bnd (parm_check False fcn_no (parm_cnt + 1)) (\<lambda>_.
         bnd (getst curr_tok) (\<lambda>t.
           if t = TCOMMA then args G k n expression fcn_no (parm_cnt + 1) else ret (parm_cnt + 1))))))"

fun subscripts :: "'r ops \<Rightarrow> nat \<Rightarrow> nat \<Rightarrow> ('r, unit) pm \<Rightarrow> nat \<Rightarrow> ('r, nat) pm" where
  "subscripts G k 0 expression ndim = raise NoFuel"
| "subscripts G k (Suc n) expression ndim =
     bnd (get_token G k) (\<lambda>_. bnd expression (\<lambda>_. bnd (getst curr_tok) (\<lambda>t.
       if t = TCOMMA then subscripts G k n expression (ndim + 1) else ret (ndim + 1))))"

definition process_array :: "'r ops \<Rightarrow> nat \<Rightarrow> nat \<Rightarrow> ('r, unit) pm \<Rightarrow> ('r, unit) pm" where
  "process_array G k n expression =
     bnd loadstring (\<lambda>aname.
     bnd (get_token G k) (\<lambda>_.
     bnd (subscripts G k n expression 0) (\<lambda>ndim.
     bnd (getst curr_tok) (\<lambda>t.
     bnd (guard (t = TRBRKT) (Syn MISSING_RBRKT)) (\<lambda>_.
     bnd (codegen G PUSH_N ndim) (\<lambda>_. codegen G ARRAYCHK aname))))))"

definition call :: "'r ops \<Rightarrow> nat \<Rightarrow> nat \<Rightarrow> ('r, unit) pm \<Rightarrow> ('r, unit) pm" where
  \<comment> \<open>the branch isfcn of factor\<close>
  "call G k n expression =
     bnd (getst (\<lambda>p. function_id (tok_from p) (currtok_len p))) (\<lambda>fcn_no. bnd (getst is_ndx_expr) (\<lambda>ndx.
     bnd (if fcn_no = - 1 then (if ndx then raise (Syn ILL_FCN) else loadstring)
          else if ndx \<and> (fcn_no = F_RTRIM \<or> fcn_no = F_LTRIM \<or> fcn_no = F_IIF \<or> fcn_no = F_KEY)
          then raise (Syn ILL_FCN) else ret 0) (\<lambda>usrfcn.
     bnd (get_token G k) (\<lambda>_.
     bnd (args G k n expression fcn_no 0) (\<lambda>parm_cnt.
     bnd (getst curr_tok) (\<lambda>t.
     bnd (guard (t = TRPAREN) (Syn MISSING_RPAREN)) (\<lambda>_.
     bnd (parm_check True fcn_no parm_cnt) (\<lambda>_.
     bnd (codegen G PUSH_N parm_cnt) (\<lambda>_.
       if fcn_no = - 1 then codegen G USRFCN usrfcn else codegen G FCN (nat fcn_no))))))))))"

definition id_factor :: "'r ops \<Rightarrow> nat \<Rightarrow> nat \<Rightarrow> ('r, unit) pm \<Rightarrow> ('r, unit) pm" where
  \<comment> \<open>case TID of factor\<close>
  "id_factor G k n expression =
     bnd save_token (\<lambda>tk. bnd (get_token G k) (\<lambda>_. bnd (getst curr_tok) (\<lambda>t. bnd (rest_token tk) (\<lambda>_.
     bnd (if t = TLPAREN then call G k n expression
          else if t = TARROW then
            bnd loadstring (\<lambda>a. bnd (get_token G k) (\<lambda>_. bnd (get_token G k) (\<lambda>_.
            bnd (getst curr_tok) (\<lambda>t. bnd loadstring (\<lambda>i.
            bnd (codegen G (if t = TMAC then MACRO_ID else PUSH) i) (\<lambda>_.
            bnd (codegen G PUSH a) (\<lambda>_. codegen G DRETRV OPND_ON_STACK)))))))
          else if t = TLBRKT then
            bnd (process_array G k n expression) (\<lambda>_. codegen G NRETRV OPND_ON_STACK)
          else bnd loadstring (\<lambda>i. codegen G NRETRV i)) (\<lambda>_.
     get_token G k)))))"

definition factor_body :: "env \<Rightarrow> 'r ops \<Rightarrow> nat \<Rightarrow> nat \<Rightarrow> ('r, unit) pm \<Rightarrow> ('r, unit) pm" where
  "factor_body g G k n fac =
     bnd (getst curr_tok) (\<lambda>t.
       if t = TPLUS \<or> t = TMINUS then
         bnd (get_token G k) (\<lambda>_. bnd fac (\<lambda>_. codegen G UOP t))
       else if t = TEOF \<or> t = TNULLTOK then raise (Syn BAD_EXP)
       else if t = TLIT then bnd loadstring (\<lambda>i. bnd (codegen G PUSH i) (\<lambda>_. get_token G k))
       else if t = TMAC then bnd loadstring (\<lambda>i. bnd (codegen G MACRO i) (\<lambda>_. get_token G k))
       else if t = TLPAREN then
         bnd (get_token G k) (\<lambda>_. bnd (expr_of G k n fac) (\<lambda>_. bnd (getst curr_tok) (\<lambda>t.
         bnd (guard (t = TRPAREN) (Syn MISSING_RPAREN)) (\<lambda>_. get_token G k))))
       else if t = TNOT then
         bnd (get_token G k) (\<lambda>_. bnd fac (\<lambda>_. codegen G UOP TNOT))
       else if t = TINT \<or> t = TNUMBER then
         bnd (loadnumber g) (\<lambda>i. bnd (codegen G PUSH i) (\<lambda>_. get_token G k))
       else if t = TLOGIC then
         bnd loadlogic (\<lambda>i. bnd (codegen G PUSH i) (\<lambda>_. get_token G k))
       else if t = TID then id_factor G k n (expr_of G k n fac)
       else if t = TLBRKT then
         bnd (process_date g G k) (\<lambda>d. bnd (loaddate d) (\<lambda>i. bnd (codegen G PUSH i) (\<lambda>_.
         bnd (getst curr_tok) (\<lambda>t. bnd (guard (t = TRBRKT) (Syn MISSING_RBRKT)) (\<lambda>_.
         get_token G k)))))
       else raise (Syn BAD_EXP))"

primrec factor :: "env \<Rightarrow> 'r ops \<Rightarrow> nat \<Rightarrow> nat \<Rightarrow> ('r, unit) pm" where
  "factor g G k 0 = raise NoFuel"
| "factor g G k (Suc n) = factor_body g G k n (factor g G k n)"

definition expression :: "env \<Rightarrow> 'r ops \<Rightarrow> nat \<Rightarrow> nat \<Rightarrow> ('r, unit) pm" where
  "expression g G k n = expr_of G k n (factor g G k n)"

fun more_exprs :: "env \<Rightarrow> 'r ops \<Rightarrow> nat \<Rightarrow> nat \<Rightarrow> nat \<Rightarrow> ('r, unit) pm" where
  \<comment> \<open>the expressions behind commas of an index key\<close>
  "more_exprs g G k n 0 = raise NoFuel"
| "more_exprs g G k n (Suc m) =
     bnd (get_token G k) (\<lambda>_. bnd (expression g G k n) (\<lambda>_. bnd (getst curr_tok) (\<lambda>t.
       if t = TCOMMA then more_exprs g G k n m else ret ())))"

definition loadexpr :: "env \<Rightarrow> 'r ops \<Rightarrow> nat \<Rightarrow> nat \<Rightarrow> bool \<Rightarrow> ('r, nat) pm" where
  \<comment> \<open>the text of the expression becomes a constant; its code and constants are dropped\<close>
  "loadexpr g G k n isndx =
     bnd (getst (\<lambda>p. (pcode p, pdata p, exe p, currtok_s p))) (\<lambda>(save_code, save_data, save_exe, expr_start).
     bnd (modst (\<lambda>p. p\<lparr>exe := False, is_ndx_expr := isndx\<rparr>)) (\<lambda>_.
     bnd (expression g G k n) (\<lambda>_. bnd (getst curr_tok) (\<lambda>t.
     bnd (if isndx \<and> t = TCOMMA then more_exprs g G k n n else ret ()) (\<lambda>_.
     bnd (modst (\<lambda>p. p\<lparr>is_ndx_expr := False, pcode := save_code, pdata := save_data, exe := save_exe\<rparr>)) (\<lambda>_.
     bnd (getst (\<lambda>p. (currtok_s p, currtok_len p))) (\<lambda>(save_s, save_len).
     bnd (modst (\<lambda>p. p\<lparr>currtok_len := save_s - expr_start, currtok_s := expr_start\<rparr>)) (\<lambda>_.
     bnd loadstring (\<lambda>expr.
     bnd (modst (\<lambda>p. p\<lparr>currtok_s := save_s, currtok_len := save_len\<rparr>)) (\<lambda>_. ret expr))))))))))"

definition chk_nulltok :: "('r, unit) pm" where
  \<comment> \<open>curr_cmd is set whenever a command is parsed\<close>
  "chk_nulltok =
     bnd (getst curr_tok) (\<lambda>t. guard (t = TNULLTOK \<or> t = TPOUND) (Syn EXCESS_SYNTAX))"

definition cmd_init :: "string \<Rightarrow> 'r pst \<Rightarrow> 'r pst" where
  "cmd_init cmd_line p =
     p\<lparr>curr_cmd := cmd_line, curr_tok := TNULLTOK, currtok_s := 0, currtok_len := 0,
       pcode := [], pdata := []\<rparr>"

definition restore_pcode_ctl :: "'r pst \<Rightarrow> 'r pst \<Rightarrow> 'r pst" where
  \<comment> \<open>the globals of the outer command, from save\<close>
  "restore_pcode_ctl save p =
     p\<lparr>curr_cmd := curr_cmd save, curr_tok := curr_tok save, currtok_s := currtok_s save,
       currtok_len := currtok_len save, pcode := pcode save, pdata := pdata save\<rparr>"

definition evaluate :: "env \<Rightarrow> 'r ops \<Rightarrow> nat \<Rightarrow> nat \<Rightarrow> string \<Rightarrow> bool \<Rightarrow> ('r, err option) pm" where
  \<comment> \<open>the error code, or None for 0; topstack goes back to sp when an error is caught. The stack below
     sp is as it was unless the expression popped more than it pushed\<close>
  "evaluate g G k n exp_buf catch_error = (\<lambda>p.
     let (r, q) = bnd (get_token G k) (\<lambda>_. bnd (expression g G k n) (\<lambda>_. chk_nulltok)) (cmd_init exp_buf p);
         q = restore_pcode_ctl p q
     in case r of
          Inr _ \<Rightarrow> (Inr None, q)
        | Inl e \<Rightarrow>
            (if \<not> catch_error \<or> e = Undefined \<or> e = NoFuel then (Inl e, q)
             else (Inr (Some e), q\<lparr>mach := (fst (mach p), snd (mach q))\<rparr>)))"

end
