(* ===== verification/Execution.thy ===== *)
theory Execution
  imports Parser
begin

text \<open>
  The p-code machine: _execute and execute of server/hb/code.c, and the entries of the table hbint
  (server/hb/int.c) that expressions use. The field lookup (dbretriv), the variables (v_retrv), the
  alias lookup (dretrv) and the entries for commands are parameters. The main result is that the two
  ways in which the program runs an expression agree: executing every instruction while it is
  generated (exe is set), or compiling the expression first and executing the code later.
\<close>

section \<open>Executing code\<close>

abbreviation (input) RETURN_OP :: nat where
  "RETURN_OP \<equiv> 0x81"
abbreviation (input) JUMP_OP :: nat where
  "JUMP_OP \<equiv> 0x82"
abbreviation (input) JMP_FALSE_OP :: nat where
  "JMP_FALSE_OP \<equiv> 0x83"
abbreviation (input) JMP_EOF_0_OP :: nat where
  "JMP_EOF_0_OP \<equiv> 0x84"
abbreviation (input) FCNRTN_OP :: nat where
  "FCNRTN_OP \<equiv> 0x85"
abbreviation (input) CALL_OP :: nat where
  "CALL_OP \<equiv> 0x80"

primrec execute_loop :: "'r ops \<Rightarrow> ('r machine, bool) cm \<Rightarrow> (nat \<times> nat) list \<Rightarrow> hbval list
    \<Rightarrow> nat \<Rightarrow> nat \<Rightarrow> nat \<Rightarrow> ('r machine, unit) cm" where
  \<comment> \<open>_execute(pc, limit); scope_done is the test of JMP_EOF_0, with unset_scope() when it holds\<close>
  "execute_loop G scope_done code data limit 0 pc = raise NoFuel"
| "execute_loop G scope_done code data limit (Suc n) pc =
     (if \<not> pc < limit then ret ()
      else case code ! pc of (op_code, op_nd) \<Rightarrow>
        if op_code = JMP_EOF_0_OP then
          bnd scope_done (\<lambda>b. execute_loop G scope_done code data limit n (if b then op_nd else pc + 1))
        else if op_code = JMP_FALSE_OP then
          bnd (on_stk pop_logic) (\<lambda>b. execute_loop G scope_done code data limit n (if b \<noteq> 0 then pc + 1 else op_nd))
        else if op_code = JUMP_OP then execute_loop G scope_done code data limit n op_nd
        else if op_code = FCNRTN_OP then raise (Syn ILL_OPCODE)
        else if op_code = RETURN_OP then ret ()
        else if op_code = CALL_OP then
          bnd (execute_loop G scope_done code data limit n op_nd)
            (\<lambda>_. execute_loop G scope_done code data limit n (pc + 1))
        else bnd (hbint G op_code op_nd data) (\<lambda>_. execute_loop G scope_done code data limit n (pc + 1)))"

definition execute :: "'r ops \<Rightarrow> ('r machine, bool) cm \<Rightarrow> code_block \<Rightarrow> nat \<Rightarrow> ('r machine, unit) cm" where
  \<comment> \<open>the globals pcode, pdata and pc are restored\<close>
  "execute G scope_done b n = execute_loop G scope_done (cb_code b) (cb_data b) (code_sz b) n 0"

section \<open>The operations of expressions\<close>

definition push_opnd :: "nat \<Rightarrow> hbval list \<Rightarrow> ('r machine, unit) cm" where
  "push_opnd opnd d = (if opnd < length d then on_stk (push (d ! opnd)) else raise Undefined)"

definition retriev :: "('r machine, bool) cm \<Rightarrow> ('r machine, unit) cm \<Rightarrow> nat \<Rightarrow> hbval list \<Rightarrow> ('r machine, unit) cm" where
  "retriev dbretriv vr name d =
     bnd (if name \<noteq> OPND_ON_STACK then push_opnd name d else ret ()) (\<lambda>_.
     bnd dbretriv (\<lambda>b. if \<not> b then vr else ret ()))"

definition push_n :: "nat \<Rightarrow> unit sm" where
  "push_n i = push_int (of_nat i)"

definition expr_hbint :: "env \<Rightarrow> (nat \<Rightarrow> nat \<Rightarrow> unit sm) \<Rightarrow> ('r machine, bool) cm \<Rightarrow> ('r machine, unit) cm
    \<Rightarrow> (nat \<Rightarrow> ('r machine, unit) cm) \<Rightarrow> (nat \<Rightarrow> nat \<Rightarrow> hbval list \<Rightarrow> ('r machine, unit) cm)
    \<Rightarrow> nat \<Rightarrow> nat \<Rightarrow> hbval list \<Rightarrow> ('r machine, unit) cm" where
  "expr_hbint g fcns dbretriv vr dretrv other opcode opnd d =
     (if opcode = PUSH then push_opnd opnd d
      else if opcode = UOP then on_stk (uop opnd)
      else if opcode = BOP then on_stk (bop g opnd)
      else if opcode = NRETRV then retriev dbretriv vr opnd d
      else if opcode = FCN then on_stk (fcn_call (builtins g) fcns opnd)
      else if opcode = PUSH_N then on_stk (push_n opnd)
      else if opcode = DRETRV then dretrv opnd
      else other opcode opnd d)"

definition expr_ops :: "env \<Rightarrow> (nat \<Rightarrow> nat \<Rightarrow> unit sm) \<Rightarrow> ('r machine, bool) cm \<Rightarrow> ('r machine, unit) cm
    \<Rightarrow> (nat \<Rightarrow> ('r machine, unit) cm) \<Rightarrow> (nat \<Rightarrow> nat \<Rightarrow> hbval list \<Rightarrow> ('r machine, unit) cm) \<Rightarrow> 'r ops" where
  "expr_ops g fcns dbr vr dretrv other =
     \<lparr>hbint = expr_hbint g fcns dbr vr dretrv other, v_retrv = vr\<rparr>"

section \<open>Straight-line code\<close>

definition plain_op :: "nat \<times> nat \<Rightarrow> bool" where
  \<comment> \<open>the instructions of an expression without calls, arrays and macros\<close>
  "plain_op c \<longleftrightarrow> fst c = PUSH \<or> fst c = UOP \<or> fst c = BOP \<or> fst c = NRETRV \<or> fst c = DRETRV"

definition plain :: "(nat \<times> nat) list \<Rightarrow> bool" where
  "plain cs \<longleftrightarrow> list_all plain_op cs"

primrec run_seq :: "'r ops \<Rightarrow> hbval list \<Rightarrow> (nat \<times> nat) list \<Rightarrow> ('r machine, unit) cm" where
  "run_seq G d [] = ret ()"
| "run_seq G d (c # cs) = bnd (hbint G (fst c) (snd c) d) (\<lambda>_. run_seq G d cs)"

lemma plain_simps [simp]:
  "plain []"
  "plain (c # cs) \<longleftrightarrow> plain_op c \<and> plain cs"
  "plain (cs @ ds) \<longleftrightarrow> plain cs \<and> plain ds"
  by (simp_all add: plain_def)

lemma run_seq_append: "run_seq G d (cs @ cs') = bnd (run_seq G d cs) (\<lambda>_. run_seq G d cs')"
  by (induction cs) (simp_all add: bnd_assoc)

lemma execute_loop_plain:
  assumes "plain cs"
  shows "execute_loop G sc (pre @ cs) d (length pre + length cs) (Suc (length cs) + k) (length pre)
         = run_seq G d cs"
  using assms
proof (induction cs arbitrary: pre)
  case Nil
  show ?case by simp
next
  case (Cons c cs)
  have "plain_op c" and "plain cs" using Cons.prems by simp_all
  have *: "execute_loop G sc (pre @ c # cs) d (length pre + length (c # cs)) (Suc (length cs) + k) (Suc (length pre))
      = run_seq G d cs"
    using Cons.IH [OF \<open>plain cs\<close>, of "pre @ [c]"] by simp
  show ?case
    using \<open>plain_op c\<close> * by (cases c) (auto simp: plain_op_def nth_append)
qed

section \<open>Scanning does not depend on the machine\<close>

definition clean :: "string \<Rightarrow> bool" where
  \<comment> \<open>no macro in the command\<close>
  "clean s \<longleftrightarrow> CHR ''&'' \<notin> set s"

definition live :: "'r machine \<Rightarrow> 'r pst \<Rightarrow> 'r pst" where
  "live w p = p\<lparr>exe := True, mach := w\<rparr>"

lemma live_simps [simp]:
  "curr_cmd (live w p) = curr_cmd p" "curr_tok (live w p) = curr_tok p"
  "currtok_s (live w p) = currtok_s p" "currtok_len (live w p) = currtok_len p"
  "pcode (live w p) = pcode p" "pdata (live w p) = pdata p" "exe (live w p)" "mach (live w p) = w"
  "is_ndx_expr (live w p) = is_ndx_expr p" "tok_text (live w p) = tok_text p" "tok_from (live w p) = tok_from p"
  by (simp_all add: live_def tok_text_def tok_from_def)

lemma live_upds:
  "(live w p)\<lparr>curr_tok := t\<rparr> = live w (p\<lparr>curr_tok := t\<rparr>)"
  "(live w p)\<lparr>currtok_s := n\<rparr> = live w (p\<lparr>currtok_s := n\<rparr>)"
  "(live w p)\<lparr>currtok_len := n\<rparr> = live w (p\<lparr>currtok_len := n\<rparr>)"
  "(live w p)\<lparr>pdata := d\<rparr> = live w (p\<lparr>pdata := d\<rparr>)"
  "(live w p)\<lparr>pcode := c\<rparr> = live w (p\<lparr>pcode := c\<rparr>)"
  "(live w p)\<lparr>mach := w'\<rparr> = live w' p"
  by (simp_all add: live_def)

definition same_code :: "'r pst \<Rightarrow> 'r pst \<Rightarrow> bool" where
  "same_code p q \<longleftrightarrow> exe q = exe p \<and> mach q = mach p \<and> curr_cmd q = curr_cmd p \<and> pcode q = pcode p \<and> pdata q = pdata p"

definition tok_ok :: "nat \<Rightarrow> bool" where
  "tok_ok t \<longleftrightarrow> t < 256 \<or> t = TMAC \<or> t = TTOK \<or> t = TEOF"

definition scannable :: "'r pst \<Rightarrow> bool" where
  "scannable p \<longleftrightarrow> clean (curr_cmd p) \<and> tok_ok (curr_tok p)"

definition quiet :: "('r, 'a) pm \<Rightarrow> bool" where
  \<comment> \<open>on a command without macros, m only moves the current token\<close>
  "quiet m \<longleftrightarrow> (\<forall>p x q. scannable p \<longrightarrow> m p = (Inr x, q) \<longrightarrow>
     same_code p q \<and> tok_ok (curr_tok q) \<and> (\<forall>w. m (live w p) = (Inr x, live w q)))"

named_theorems quiet_intros "closure of quiet under the operations of the scanner"

lemma quietI:
  "(\<And>p x q. scannable p \<Longrightarrow> m p = (Inr x, q) \<Longrightarrow>
     same_code p q \<and> tok_ok (curr_tok q) \<and> (\<forall>w. m (live w p) = (Inr x, live w q))) \<Longrightarrow> quiet m"
  by (simp add: quiet_def)

lemma quiet_bnd [quiet_intros]:
  assumes "quiet m" and "\<And>x. quiet (f x)"
  shows "quiet (bnd m f)"
proof (rule quietI)
  fix p y q
  assume c: "scannable p" and "bnd m f p = (Inr y, q)"
  then obtain x p' where m: "m p = (Inr x, p')" and f: "f x p' = (Inr y, q)"
    by (blast dest: bnd_InrD)
  have 1: "same_code p p'" "tok_ok (curr_tok p')" "\<forall>w. m (live w p) = (Inr x, live w p')"
    using assms(1) c m by (auto simp: quiet_def)
  have "scannable p'" using 1(1,2) c by (simp add: same_code_def scannable_def)
  then have 2: "same_code p' q" "tok_ok (curr_tok q)" "\<forall>w. f x (live w p') = (Inr y, live w q)"
    using assms(2) [of x] f by (auto simp: quiet_def)
  show "same_code p q \<and> tok_ok (curr_tok q) \<and> (\<forall>w. bnd m f (live w p) = (Inr y, live w q))"
    using 1 2 by (auto simp: same_code_def cm_simps)
qed

lemma quiet_ret [quiet_intros]: "quiet (ret x)"
  by (rule quietI) (auto simp: cm_simps same_code_def scannable_def)

lemma quiet_raise [quiet_intros]: "quiet (raise e)"
  by (simp add: quiet_def cm_simps)

lemma quiet_guard [quiet_intros]: "quiet (guard b e)"
  by (rule quietI) (auto simp: cm_simps same_code_def scannable_def split: if_splits)

lemma quiet_lift_res [quiet_intros]: "quiet (lift_res r)"
  by (rule quietI) (auto simp: cm_simps same_code_def scannable_def)

lemma bnd_lift_res: "bnd (lift_res r) f = (case r of Inl e \<Rightarrow> raise e | Inr x \<Rightarrow> f x)"
  by (intro ext) (simp add: cm_simps split: sum.split)

lemma quiet_getst [quiet_intros]: "(\<And>p w. f (live w p) = f p) \<Longrightarrow> quiet (getst f)"
  by (rule quietI) (auto simp: cm_simps same_code_def scannable_def)

lemma quiet_modst [quiet_intros]:
  assumes "\<And>p. same_code p (f p)" and "\<And>p. tok_ok (curr_tok p) \<Longrightarrow> tok_ok (curr_tok (f p))"
    and "\<And>p w. f (live w p) = live w (f p)"
  shows "quiet (modst f)"
  using assms by (intro quietI) (auto simp: cm_simps scannable_def)

lemma quiet_if [quiet_intros]: "(b \<Longrightarrow> quiet m) \<Longrightarrow> (\<not> b \<Longrightarrow> quiet n) \<Longrightarrow> quiet (if b then m else n)"
  by simp

lemma quiet_let [quiet_intros]: "(\<And>y. y = x \<Longrightarrow> quiet (f y)) \<Longrightarrow> quiet (let y = x in f y)"
  by simp

lemma ch_clean:
  assumes "clean s"
  shows "ch s i \<noteq> CHR ''&''"
proof (cases "i < length s")
  case True
  then have "s ! i \<in> set s" by (rule nth_mem)
  moreover have "CHR ''&'' \<notin> set s" using assms by (simp add: clean_def)
  ultimately have "s ! i \<noteq> CHR ''&''" by metis
  then show ?thesis using True by (simp add: ch_def)
next
  case False
  then show ?thesis by (simp add: ch_def)
qed

lemma quiet_cmd_at [quiet_intros]:
  assumes "\<And>c. c \<noteq> CHR ''&'' \<Longrightarrow> quiet (f c)"
  shows "quiet (bnd (cmd_at i) f)"
proof (rule quietI)
  fix p y q
  assume c: "scannable p" and "bnd (cmd_at i) f p = (Inr y, q)"
  then have "f (ch (curr_cmd p) i) p = (Inr y, q)" by (simp add: cmd_at_def cm_simps)
  moreover have "quiet (f (ch (curr_cmd p) i))" using assms ch_clean c by (simp add: scannable_def)
  ultimately show "same_code p q \<and> tok_ok (curr_tok q) \<and> (\<forall>w. bnd (cmd_at i) f (live w p) = (Inr y, live w q))"
    using c by (auto simp: quiet_def cmd_at_def cm_simps)
qed

lemma quiet_set_tok [quiet_intros]: "tok_ok t \<Longrightarrow> quiet (set_tok t)"
  unfolding set_tok_def by (intro quiet_intros) (simp_all add: same_code_def live_upds)

lemma quiet_set_len [quiet_intros]: "quiet (set_len t)"
  unfolding set_len_def by (intro quiet_intros) (simp_all add: same_code_def live_upds)

lemma quiet_token [quiet_intros]: "tok_ok t \<Longrightarrow> quiet (token t n)"
  unfolding token_def by (intro quiet_intros) (simp_all add: same_code_def live_upds)

lemma quiet_save_token: 
  assumes "\<And>tk. tok_ok (fst tk) \<Longrightarrow> quiet (f tk)"
  shows "quiet (bnd save_token f)"
proof (rule quietI)
  fix p y q
  assume c: "scannable p" and "bnd save_token f p = (Inr y, q)"
  then show "same_code p q \<and> tok_ok (curr_tok q) \<and> (\<forall>w. bnd save_token f (live w p) = (Inr y, live w q))"
    using assms [of "(curr_tok p, currtok_s p, currtok_len p)"]
    by (auto simp: quiet_def save_token_def cm_simps scannable_def)
qed

lemma quiet_rest_token [quiet_intros]: "tok_ok (fst tk) \<Longrightarrow> quiet (rest_token tk)"
  unfolding rest_token_def by (cases tk) (auto intro!: quiet_intros simp: same_code_def live_upds)

lemma tok_ok_simps [simp]:
  "tok_ok TMAC" "tok_ok TTOK" "tok_ok TEOF" "tok_ok 0" "tok_ok (Suc 0)" "tok_ok TLIT" "tok_ok TCOMMA" "tok_ok TLPAREN"
  by (simp_all add: tok_ok_def)

lemma scan_number_tok_ok: "scan_number t = Inr (tk, n) \<Longrightarrow> tok_ok tk"
  by (auto simp: scan_number_def dot_word_def op_token_def Let_def tok_ok_def
      split: if_splits option.splits)

lemma quiet_getvarname [quiet_intros]: "quiet (getvarname G n start len)"
proof (induction n arbitrary: start len)
  case 0
  show ?case by (simp add: quiet_raise)
next
  case (Suc n)
  show ?case by (auto simp del: bnd_assoc intro!: quiet_intros Suc simp: Let_def)
qed

lemma quiet_word_end [quiet_intros]: "quiet (word_end G n i)"
proof (induction n arbitrary: i)
  case 0
  show ?case by (simp add: quiet_raise)
next
  case (Suc n)
  show ?case by (auto intro!: quiet_intros Suc simp: same_code_def live_upds)
qed

lemma quiet_get_tok [quiet_intros]: "quiet (get_tok G n)"
  unfolding get_tok_def
  by (intro quiet_intros) (simp_all add: same_code_def live_upds Let_def)

lemma quiet_get_token [quiet_intros]: "quiet (get_token G n)"
  unfolding get_token_def bnd_lift_res
  by (auto intro!: quiet_intros split: prod.splits sum.splits dest: scan_number_tok_ok)

section \<open>Executing at once, or compiling first\<close>

definition fits :: "nat \<Rightarrow> (nat \<times> nat) list \<Rightarrow> bool" where
  \<comment> \<open>operands that name a constant name one of the first n\<close>
  "fits n cs \<longleftrightarrow> (\<forall>(opc, i) \<in> set cs. opc = PUSH \<or> opc = NRETRV \<and> i \<noteq> OPND_ON_STACK \<longrightarrow> i < n)"

lemma fits_simps [simp]:
  "fits n []" "fits n ((opc, i) # cs) \<longleftrightarrow> (opc = PUSH \<or> opc = NRETRV \<and> i \<noteq> OPND_ON_STACK \<longrightarrow> i < n) \<and> fits n cs"
  "fits n (cs @ cs') \<longleftrightarrow> fits n cs \<and> fits n cs'"
  by (auto simp: fits_def)

lemma fits_mono: "fits m cs \<Longrightarrow> m \<le> n \<Longrightarrow> fits n cs"
  by (fastforce simp: fits_def)

text \<open>The operations of expressions read only the constant that their operand names; constants that
  are added later do not matter.\<close>

locale pcode_ops =
  fixes G :: "'r ops"
  assumes reads_operand:
    "plain_op (opc, i) \<Longrightarrow> fits (length d) [(opc, i)] \<Longrightarrow> hbint G opc i (d @ d') = hbint G opc i d"
begin

lemma run_seq_more:
  "plain cs \<Longrightarrow> fits (length d) cs \<Longrightarrow> run_seq G (d @ d') cs = run_seq G d cs"
proof (induction cs)
  case Nil
  show ?case by simp
next
  case (Cons c cs)
  show ?case using Cons by (cases c) (simp add: reads_operand)
qed

definition agrees :: "(err + 'a) \<times> 'r pst \<Rightarrow> 'a \<Rightarrow> 'r pst \<Rightarrow> (err + unit) \<times> 'r machine \<Rightarrow> bool" where
  "agrees r x q run \<longleftrightarrow> (case run of
       (Inr u, w) \<Rightarrow> r = (Inr x, live w q)
     | (Inl e, w) \<Rightarrow> fst r = Inl e \<and> mach (snd r) = w)"

definition compiles :: "bool \<Rightarrow> ('r, 'a) pm \<Rightarrow> 'r pst \<Rightarrow> 'a \<Rightarrow> 'r pst \<Rightarrow> bool" where
  "compiles full m p x q \<longleftrightarrow> \<not> exe q \<and> mach q = mach p \<and> curr_cmd q = curr_cmd p \<and> tok_ok (curr_tok q) \<and>
     (\<exists>cs ds. pcode q = pcode p @ cs \<and> pdata q = pdata p @ ds \<and>
        (full \<longrightarrow> plain cs \<longrightarrow> fits (length (pdata q)) cs \<and> (\<forall>w. agrees (m (live w p)) x q (run_seq G (pdata q) cs w))))"

definition sim :: "bool \<Rightarrow> nat \<Rightarrow> ('r, 'a) pm \<Rightarrow> bool" where
  "sim full n m \<longleftrightarrow> (\<forall>p x q. \<not> exe p \<longrightarrow> scannable p \<longrightarrow> n \<le> length (pdata p) \<longrightarrow> m p = (Inr x, q)
      \<longrightarrow> compiles full m p x q)"

lemma simI:
  "(\<And>p x q. \<not> exe p \<Longrightarrow> scannable p \<Longrightarrow> n \<le> length (pdata p) \<Longrightarrow> m p = (Inr x, q)
      \<Longrightarrow> compiles full m p x q) \<Longrightarrow> sim full n m"
  by (simp add: sim_def)

lemma sim_quiet: "quiet m \<Longrightarrow> sim full n m"
proof (rule simI)
  fix p x q
  assume m: "quiet m" and p: "\<not> exe p" "scannable p" "m p = (Inr x, q)"
  then have q: "same_code p q" "\<And>w. m (live w p) = (Inr x, live w q)" and t: "tok_ok (curr_tok q)"
    by (auto simp: quiet_def)
  have "agrees (m (live w p)) x q (run_seq G (pdata q) [] w)" for w
    by (simp add: q(2) agrees_def cm_simps)
  then show "compiles full m p x q"
    using p q(1) t by (auto simp: compiles_def same_code_def)
qed

lemma sim_mono: "sim full n m \<Longrightarrow> n \<le> n' \<Longrightarrow> sim full n' m"
  by (auto simp: sim_def)

lemma agrees_bnd:
  assumes "agrees (m (live w p)) x p' (run_seq G d cs w)"
    and "\<And>w. agrees (f x (live w p')) y q (run_seq G d cs' w)"
  shows "agrees (bnd m f (live w p)) y q (run_seq G d (cs @ cs') w)"
proof -
  obtain r w' where Pair: "run_seq G d cs w = (r, w')" by (rule prod.exhaust)
  show ?thesis
  proof (cases r)
    case (Inl e)
    with Pair assms(1) show ?thesis
      by (cases "m (live w p)") (simp add: agrees_def run_seq_append cm_simps)
  next
    case (Inr u)
    with Pair assms(1) have "m (live w p) = (Inr x, live w' p')" by (simp add: agrees_def)
    then show ?thesis using assms(2) [of w'] Pair Inr by (simp add: run_seq_append cm_simps)
  qed
qed

lemma sim_bnd:
  assumes "sim full n m" and "\<And>x. sim full n (f x)"
  shows "sim full n (bnd m f)"
proof (rule simI)
  fix p y q
  assume p: "\<not> exe p" "scannable p" "n \<le> length (pdata p)" and "bnd m f p = (Inr y, q)"
  then obtain x p' where m: "m p = (Inr x, p')" and f: "f x p' = (Inr y, q)"
    by (blast dest: bnd_InrD)
  have 1: "compiles full m p x p'" using assms(1) p m by (auto simp: sim_def)
  then obtain cs ds where c: "pcode p' = pcode p @ cs" "pdata p' = pdata p @ ds"
      "full \<Longrightarrow> plain cs \<Longrightarrow> fits (length (pdata p')) cs"
      "\<And>w. full \<Longrightarrow> plain cs \<Longrightarrow> agrees (m (live w p)) x p' (run_seq G (pdata p') cs w)"
    by (auto simp: compiles_def scannable_def)
  have p': "\<not> exe p'" "scannable p'" "n \<le> length (pdata p')"
    using 1 p c by (auto simp: compiles_def scannable_def)
  have 2: "compiles full (f x) p' y q" using assms(2) p' f by (auto simp: sim_def)
  then obtain cs' ds' where c': "pcode q = pcode p' @ cs'" "pdata q = pdata p' @ ds'"
      "full \<Longrightarrow> plain cs' \<Longrightarrow> fits (length (pdata q)) cs'"
      "\<And>w. full \<Longrightarrow> plain cs' \<Longrightarrow> agrees (f x (live w p')) y q (run_seq G (pdata q) cs' w)"
    by (auto simp: compiles_def scannable_def)
  have "fits (length (pdata q)) (cs @ cs') \<and> agrees (bnd m f (live w p)) y q (run_seq G (pdata q) (cs @ cs') w)"
    if full and pl: "plain (cs @ cs')" for w
  proof -
    have a: "fits (length (pdata p')) cs" using c(3) that by simp
    have "agrees (m (live w p)) x p' (run_seq G (pdata q) cs w)"
      using c(4) [of w] that run_seq_more [of cs "pdata p'" ds'] a by (simp add: c'(2))
    moreover have "fits (length (pdata q)) cs" by (rule fits_mono [OF a]) (simp add: c'(2))
    ultimately show ?thesis using c'(3,4) that by (simp add: agrees_bnd)
  qed
  then show "compiles full (bnd m f) p y q"
    using 1 2 c(1,2) c'(1,2) by (auto simp: compiles_def scannable_def)
qed

end

definition loads :: "('r, nat) pm \<Rightarrow> bool" where
  \<comment> \<open>m appends a constant and returns its index\<close>
  "loads m \<longleftrightarrow> (\<forall>p i q. m p = (Inr i, q) \<longrightarrow>
     (\<exists>v. q = p\<lparr>pdata := pdata p @ [v]\<rparr>) \<and> i = length (pdata p) \<and> i < 256 \<and> (\<forall>w. m (live w p) = (Inr i, live w q)))"

lemma loads_add_data: "loads (add_data sz v)"
  by (auto simp: loads_def add_data_def data_chk_def cm_simps live_upds split: if_splits)

lemma loadsD:
  assumes "loads m" and "m p = (Inr i, q)"
  obtains v where "q = p\<lparr>pdata := pdata p @ [v]\<rparr>" "i = length (pdata p)" "i < 256"
    "\<And>w. m (live w p) = (Inr i, live w q)"
  using assms unfolding loads_def by blast

lemma loads_raise: "loads (raise e)"
  by (simp add: loads_def cm_simps)

lemma bnd_lift_Inr: "bnd (lift_res (Inr x)) f = f x"
  by (intro ext) (simp add: cm_simps)

lemma bnd_lift_Inl: "bnd (lift_res (Inl e)) f = raise e"
  by (intro ext) (simp add: cm_simps)

lemma loads_getst:
  assumes "\<And>p w. f (live w p) = f p" and "\<And>x. loads (g x)"
  shows "loads (bnd (getst f) g)"
  unfolding loads_def
proof (intro allI impI)
  fix p i q
  assume "bnd (getst f) g p = (Inr i, q)"
  then have "g (f p) p = (Inr i, q)" by (simp add: cm_simps)
  then show "(\<exists>v. q = p\<lparr>pdata := pdata p @ [v]\<rparr>) \<and> i = length (pdata p) \<and> i < 256
      \<and> (\<forall>w. bnd (getst f) g (live w p) = (Inr i, live w q))"
    using assms(2) [of "f p"] by (simp add: loads_def cm_simps assms(1))
qed

lemma loads_loadstring: "loads loadstring"
  unfolding loadstring_def by (rule loads_getst) (simp_all add: loads_add_data Let_def)

lemma loads_loadlogic: "loads loadlogic"
  unfolding loadlogic_def by (rule loads_getst) (simp_all add: loads_add_data)

lemma loads_loadnumber: "loads (loadnumber g)"
  unfolding loadnumber_def
proof (rule loads_getst)
  fix t
  show "loads (bnd (lift_res (str2num g (strtod_c g) t)) (\<lambda>num. add_data 10 (VNum num)))"
    by (cases "str2num g (strtod_c g) t") (simp_all add: bnd_lift_Inr bnd_lift_Inl loads_raise loads_add_data)
qed simp

lemma loads_loaddate: "loads (loaddate d)"
  unfolding loaddate_def by (simp add: loads_add_data)

context pcode_ops begin

lemma sim_loads:
  assumes l: "loads m"
  shows "sim full n m"
proof (rule simI)
  fix p i q
  assume p: "\<not> exe p" "scannable p" and m: "m p = (Inr i, q)"
  obtain v where q: "q = p\<lparr>pdata := pdata p @ [v]\<rparr>" and live: "\<And>w. m (live w p) = (Inr i, live w q)"
    by (rule loadsD [OF l m]) blast
  have "agrees (m (live w p)) i q (run_seq G (pdata q) [] w)" for w
    by (simp add: live agrees_def cm_simps)
  then show "compiles full m p i q" using p q by (auto simp: compiles_def scannable_def)
qed

lemma sim_load:
  assumes l: "loads m" and f: "\<And>i. i < 256 \<Longrightarrow> sim full (max n (Suc i)) (f i)"
  shows "sim full n (bnd m f)"
proof (rule simI)
  fix p y q
  assume p: "\<not> exe p" "scannable p" "n \<le> length (pdata p)" and "bnd m f p = (Inr y, q)"
  then obtain i p' where m: "m p = (Inr i, p')" and fi: "f i p' = (Inr y, q)"
    by (blast dest: bnd_InrD)
  obtain v where p': "p' = p\<lparr>pdata := pdata p @ [v]\<rparr>" and i: "i = length (pdata p)" "i < 256"
    and live: "\<And>w. m (live w p) = (Inr i, live w p')"
    by (rule loadsD [OF l m]) blast
  have "compiles full (f i) p' y q"
    using f [OF i(2)] p i fi by (simp add: sim_def scannable_def p')
  then have c: "compiles full (f i) (p\<lparr>pdata := pdata p @ [v]\<rparr>) y q" by (simp add: p')
  have b: "bnd m f (live w p) = f i (live w p')" for w by (simp add: live cm_simps)
  show "compiles full (bnd m f) p y q"
    using c by (auto simp: compiles_def scannable_def b p')
qed

lemma sim_codegen:
  assumes "opc < 0x80"
    and "plain_op (opc, i) \<Longrightarrow> i < 256 \<and> (opc = PUSH \<or> opc = NRETRV \<and> i \<noteq> OPND_ON_STACK \<longrightarrow> i < n)"
  shows "sim full n (codegen G opc i)"
proof (rule simI)
  fix p x q
  assume p: "\<not> exe p" "scannable p" "n \<le> length (pdata p)" and "codegen G opc i p = (Inr x, q)"
  then have l: "length (pcode p) \<noteq> CODE_LIMIT" and q: "q = p\<lparr>pcode := pcode p @ [(opc, i mod 256)]\<rparr>"
    using assms(1) by (auto simp: codegen_def cm_simps split: if_splits)
  have "fits (length (pdata q)) [(opc, i mod 256)]
      \<and> agrees (codegen G opc i (live w p)) x q (run_seq G (pdata q) [(opc, i mod 256)] w)"
    if "plain [(opc, i mod 256)]" for w
  proof -
    have i: "i < 256 \<and> (opc = PUSH \<or> opc = NRETRV \<and> i \<noteq> OPND_ON_STACK \<longrightarrow> i < n)"
      using assms(2) that by (simp add: plain_op_def)
    have "agrees (codegen G opc i (live w p)) x q (run_seq G (pdata q) [(opc, i mod 256)] w)"
      using i l assms(1)
      by (auto simp: codegen_def cm_simps on_mach_def agrees_def q live_upds split: prod.split sum.split)
    then show ?thesis using i p(3) by (auto simp: q)
  qed
  then show "compiles full (codegen G opc i) p x q"
    using p q by (auto simp: compiles_def scannable_def)
qed

definition unplain :: "nat \<Rightarrow> ('r, 'a) pm \<Rightarrow> bool" where
  "unplain n m \<longleftrightarrow> (\<forall>p x q. \<not> exe p \<longrightarrow> scannable p \<longrightarrow> n \<le> length (pdata p) \<longrightarrow> m p = (Inr x, q)
     \<longrightarrow> (\<exists>cs. pcode q = pcode p @ cs \<and> \<not> plain cs))"

lemma sim_unplain: "sim False n m \<Longrightarrow> unplain n m \<Longrightarrow> sim full n m"
  unfolding sim_def unplain_def compiles_def by (metis same_append_eq)

lemma unplain_codegen: "\<not> plain_op (opc, i mod 256) \<Longrightarrow> opc < 0x80 \<Longrightarrow> unplain n (codegen G opc i)"
  by (auto simp: unplain_def codegen_def cm_simps split: if_splits)

lemma unplain_bnd:
  assumes "sim False n m" and "\<And>x. unplain n (f x)"
  shows "unplain n (bnd m f)"
  unfolding unplain_def
proof (intro allI impI)
  fix p y q
  assume p: "\<not> exe p" "scannable p" "n \<le> length (pdata p)" and b: "bnd m f p = (Inr y, q)"
  obtain x p' where m: "m p = (Inr x, p')" and f: "f x p' = (Inr y, q)"
    using b by (blast dest: bnd_InrD)
  have c: "compiles False m p x p'" using assms(1) p m by (simp add: sim_def)
  then obtain cs where cs: "pcode p' = pcode p @ cs" by (auto simp: compiles_def scannable_def)
  have "\<not> exe p'" "scannable p'" "n \<le> length (pdata p')"
    using c p by (auto simp: compiles_def scannable_def)
  then obtain cs' where "pcode q = pcode p' @ cs'" "\<not> plain cs'"
    using assms(2) [of x] f unfolding unplain_def by blast
  then have "pcode q = pcode p @ (cs @ cs') \<and> \<not> plain (cs @ cs')" by (simp add: cs)
  then show "\<exists>cs. pcode q = pcode p @ cs \<and> \<not> plain cs" by blast
qed

end

context pcode_ops begin

lemma sim_getst: "(\<And>p w. f (live w p) = f p) \<Longrightarrow> sim full n (getst f)"
  by (rule sim_quiet) (rule quiet_getst)

lemma sim_if: "(b \<Longrightarrow> sim full n m) \<Longrightarrow> (\<not> b \<Longrightarrow> sim full n m') \<Longrightarrow> sim full n (if b then m else m')"
  by simp

lemmas sim_atoms = sim_getst sim_if
  quiet_ret [THEN sim_quiet] quiet_raise [THEN sim_quiet] quiet_guard [THEN sim_quiet]
  quiet_lift_res [THEN sim_quiet] quiet_get_token [THEN sim_quiet]
  quiet_rest_token [THEN sim_quiet]
  loads_loadstring [THEN sim_loads]

lemmas sim_loads_then = loads_loadstring [THEN sim_load] loads_loadlogic [THEN sim_load]
  loads_loadnumber [THEN sim_load] loads_loaddate [THEN sim_load]

lemma compiles_cong:
  assumes "compiles full m p x q" and "\<And>w. m' (live w p) = m (live w p)"
  shows "compiles full m' p x q"
  using assms(1) unfolding compiles_def assms(2) .

lemma sim_curr_tok:
  assumes "\<And>t. tok_ok t \<Longrightarrow> sim full n (f t)"
  shows "sim full n (bnd (getst curr_tok) f)"
  unfolding sim_def
proof (intro allI impI)
  fix p y q
  assume p: "\<not> exe p" "scannable p" "n \<le> length (pdata p)" and "bnd (getst curr_tok) f p = (Inr y, q)"
  then have "f (curr_tok p) p = (Inr y, q)" by (simp add: cm_simps)
  moreover have "sim full n (f (curr_tok p))" using assms p by (simp add: scannable_def)
  ultimately have "compiles full (f (curr_tok p)) p y q"
    using p by (simp add: sim_def)
  then show "compiles full (bnd (getst curr_tok) f) p y q"
    by (rule compiles_cong) (simp add: cm_simps)
qed

lemma sim_save_token:
  assumes "\<And>tk. tok_ok (fst tk) \<Longrightarrow> sim full n (f tk)"
  shows "sim full n (bnd save_token f)"
  unfolding sim_def
proof (intro allI impI)
  fix p y q
  assume p: "\<not> exe p" "scannable p" "n \<le> length (pdata p)" and b: "bnd save_token f p = (Inr y, q)"
  define tk where "tk = (curr_tok p, currtok_s p, currtok_len p)"
  have "f tk p = (Inr y, q)" using b by (simp add: cm_simps save_token_def tk_def)
  moreover have "sim full n (f tk)" using assms p by (simp add: scannable_def tk_def)
  ultimately have "compiles full (f tk) p y q" using p by (simp add: sim_def)
  then show "compiles full (bnd save_token f) p y q"
    by (rule compiles_cong) (simp add: cm_simps save_token_def tk_def)
qed

lemma is_op_small:
  "tok_ok t \<Longrightarrow> is_mulop t \<Longrightarrow> t < 256" "tok_ok t \<Longrightarrow> is_addop t \<Longrightarrow> t < 256"
  "tok_ok t \<Longrightarrow> is_relop t \<Longrightarrow> t < 256"
  by (auto simp: is_mulop_def is_addop_def is_relop_def tok_ok_def)

lemma sim_while_op:
  assumes "\<And>t. tok_ok t \<Longrightarrow> is_op t \<Longrightarrow> t < 256" and "\<And>full. sim full n operand"
  shows "sim full n (while_op G k m is_op operand)"
proof (induction m)
  case 0
  show ?case by (simp add: quiet_raise sim_quiet)
next
  case (Suc m)
  show ?case
    unfolding while_op.simps
    by (intro sim_curr_tok sim_bnd sim_atoms assms sim_codegen Suc) (simp_all add: assms(1))
qed

lemma sim_term1:
  "(\<And>full. sim full n fac) \<Longrightarrow> sim full n (term1 G k m fac)"
  unfolding term1_def by (intro sim_bnd sim_while_op) simp_all

lemma sim_term0:
  "(\<And>full. sim full n fac) \<Longrightarrow> sim full n (term0 G k m fac)"
  unfolding term0_def by (intro sim_bnd sim_while_op sim_term1) (simp_all add: is_op_small)

lemma sim_simple_expr:
  "(\<And>full. sim full n fac) \<Longrightarrow> sim full n (simple_expr G k m fac)"
  unfolding simple_expr_def by (intro sim_bnd sim_while_op sim_term0) (simp_all add: is_op_small)

lemma sim_rel_expr1:
  "(\<And>full. sim full n fac) \<Longrightarrow> sim full n (rel_expr1 G k m fac)"
  unfolding rel_expr1_def
  by (intro sim_curr_tok sim_bnd sim_atoms sim_simple_expr sim_codegen)
    (simp_all add: is_op_small)

lemma sim_rel_expr:
  "(\<And>full. sim full n fac) \<Longrightarrow> sim full n (rel_expr G k m fac)"
  unfolding rel_expr_def by (intro sim_bnd sim_while_op sim_rel_expr1) simp_all

lemma sim_expr_of:
  "(\<And>full. sim full n fac) \<Longrightarrow> sim full n (expr_of G k m fac)"
  unfolding expr_of_def by (intro sim_bnd sim_while_op sim_rel_expr) simp_all

lemma sim_parm_check: "sim False n (parm_check final f c :: ('r, unit) pm)"
proof (rule simI)
  fix p :: "'r pst" and x q
  assume p: "\<not> exe p" "scannable p" "parm_check final f c p = (Inr x, q)"
  then have "q = p"
    by (auto simp: parm_check_def parm_chk_def cm_simps on_mach_def on_stk_def split: if_splits prod.splits)
  with p show "compiles False (parm_check final f c) p x q"
    by (simp add: compiles_def scannable_def)
qed

lemma sim_args: "(\<And>full. sim full n e) \<Longrightarrow> sim False n (args G k m e f c)"
proof (induction m arbitrary: c)
  case 0
  show ?case by (simp add: quiet_raise sim_quiet)
next
  case (Suc m)
  show ?case
    unfolding args.simps by (intro sim_curr_tok sim_bnd sim_atoms sim_parm_check Suc) simp_all
qed

lemma sim_subscripts: "(\<And>full. sim full n e) \<Longrightarrow> sim full n (subscripts G k m e d)"
proof (induction m arbitrary: d)
  case 0
  show ?case by (simp add: quiet_raise sim_quiet)
next
  case (Suc m)
  show ?case
    unfolding subscripts.simps by (intro sim_curr_tok sim_bnd sim_atoms Suc) simp_all
qed

lemma sim_process_array:
  assumes "\<And>full n. sim full n e"
  shows "sim full n (process_array G k m e)"
  unfolding process_array_def
  by (intro sim_curr_tok sim_bnd sim_atoms sim_subscripts assms sim_codegen) (simp_all add: plain_op_def)

lemma sim_call:
  assumes e: "\<And>full n. sim full n e"
  shows "sim full n (call G k m e)"
proof (rule sim_unplain)
  show "sim False n (call G k m e)"
    unfolding call_def
    by (intro sim_curr_tok sim_bnd sim_atoms sim_args sim_parm_check e sim_codegen) (simp_all add: plain_op_def)
  show "unplain n (call G k m e)"
    unfolding call_def
    by (intro unplain_bnd sim_atoms sim_args sim_parm_check e sim_codegen)
      (auto intro!: unplain_codegen unplain_bnd sim_codegen simp: plain_op_def)
qed

end

definition parse :: "env \<Rightarrow> 'r ops \<Rightarrow> nat \<Rightarrow> nat \<Rightarrow> ('r, unit) pm" where
  \<comment> \<open>get_token(); expression();\<close>
  "parse g G k n = bnd (get_token G k) (\<lambda>_. expression g G k n)"

definition block_of :: "'r pst \<Rightarrow> code_block" where
  \<comment> \<open>what emit writes for the code that is compiled so far, where its size test passes (emit_writes_block)\<close>
  "block_of q = \<lparr>block_sz = 2 * length (pcode q) + stk_bytes (pdata q) + 4, code_sz = length (pcode q),
     cb_code = pcode q, cb_data = pdata q\<rparr>"

lemma emit_writes_block:
  assumes "2 * length (pcode q) + stk_bytes (pdata q) + 4 \<le> size_max" and "size_max < 65536" and "length (pcode q) < 256"
  shows "emit size_max q = (Inr (block_of q), q)"
  using assms by (simp add: emit_def block_of_def cm_simps Let_def)

context pcode_ops begin

lemma sim_id_factor:
  assumes e: "\<And>full n. sim full n e"
  shows "sim full n (id_factor G k m e)"
  unfolding id_factor_def
  by (intro sim_save_token sim_curr_tok sim_loads_then sim_bnd sim_atoms sim_call sim_process_array e sim_codegen)
    (simp_all add: plain_op_def less_max_iff_disj)

lemma quiet_date_parts: "quiet (date_parts G k cs mdy)"
proof (induction G k cs mdy rule: date_parts.induct)
  case (1 G k mdy)
  show ?case by (simp add: quiet_ret)
next
  case (2 G k c cs mm dd yy)
  show ?case
    unfolding date_parts.simps split_beta
    by (intro quiet_intros 2) (simp_all)
qed

lemma sim_process_date:
  "sim full n (process_date g G k)"
  unfolding process_date_def
  by (intro sim_save_token sim_curr_tok sim_bnd sim_atoms quiet_date_parts [THEN sim_quiet])
    (auto split: prod.splits option.splits intro!: sim_atoms)

lemma sim_factor_body:
  assumes f: "\<And>full n. sim full n fac"
  shows "sim full n (factor_body g G k m fac)"
  unfolding factor_body_def
  by (intro sim_loads_then sim_curr_tok sim_bnd sim_atoms sim_expr_of sim_id_factor sim_process_date f sim_codegen)
    (auto simp: tok_ok_def)

lemma sim_factor: "sim full n (factor g G k m)"
proof (induction m arbitrary: full n)
  case 0
  show ?case by (simp add: quiet_raise sim_quiet)
next
  case (Suc m)
  show ?case by (simp add: sim_factor_body Suc)
qed

lemma sim_expression: "sim full n (expression g G k m)"
  unfolding expression_def by (intro sim_expr_of sim_factor)

text \<open>From the beginning of a command.\<close>

lemma sim_parse: "sim full n (parse g G k m)"
  unfolding parse_def by (intro sim_bnd sim_expression quiet_get_token [THEN sim_quiet])

lemma immediate_is_compiled:
  assumes c: "parse g G k n (p\<lparr>exe := False\<rparr>) = (Inr (), q)"
    and p: "pcode p = []" "pdata p = []" "scannable p" and pl: "plain (pcode q)"
    and x: "execute G sc (block_of q) (Suc (length (pcode q))) w = (r, w')"
  shows "case r of
           Inr u \<Rightarrow> parse g G k n (p\<lparr>exe := True, mach := w\<rparr>) = (Inr (), q\<lparr>exe := True, mach := w'\<rparr>)
         | Inl e \<Rightarrow> (\<exists>q'. parse g G k n (p\<lparr>exe := True, mach := w\<rparr>) = (Inl e, q') \<and> mach q' = w')"
proof -
  let ?p = "p\<lparr>exe := False\<rparr>"
  have "compiles True (parse g G k n) ?p () q"
    using sim_parse [of True 0] c p by (simp add: sim_def scannable_def)
  then have "agrees (parse g G k n (live w ?p)) () q (run_seq G (pdata q) (pcode q) w)"
    using pl p by (simp add: compiles_def del: split_paired_All)
  moreover have "run_seq G (pdata q) (pcode q) w = (r, w')"
    using execute_loop_plain [OF pl, of G sc "[]" "pdata q" 0] x by (simp add: execute_def block_of_def)
  moreover have "live w ?p = p\<lparr>exe := True, mach := w\<rparr>" by (simp add: live_def)
  ultimately have "agrees (parse g G k n (p\<lparr>exe := True, mach := w\<rparr>)) () q (r, w')"
    by simp
  then show ?thesis
    by (cases r; cases "parse g G k n (p\<lparr>exe := True, mach := w\<rparr>)")
      (simp_all add: agrees_def live_def)
qed

end

lemma expr_ops_reads_operand:
  assumes "plain_op (opc, i)" and "fits (length d) [(opc, i)]"
  shows "hbint (expr_ops g fcns dbr vr dre other) opc i (d @ d') = hbint (expr_ops g fcns dbr vr dre other) opc i d"
  using assms by (auto simp: expr_ops_def expr_hbint_def plain_op_def push_opnd_def retriev_def nth_append)

interpretation machine: pcode_ops "expr_ops g fcns dbr vr dre other" for g fcns dbr vr dre other
  by unfold_locales (rule expr_ops_reads_operand)

text \<open>C9: an expression without calls, arrays and macros has the same effect whether each instruction is
  executed as soon as it is generated, or the expression is compiled into a block first and the
  block is executed on the same machine: the same error with the same machine, or the same machine
  and the same position in the command.\<close>

theorem compile_then_execute:
  assumes "parse g (expr_ops g fcns dbr vr dre other) k n ((cmd_init cmd p)\<lparr>exe := False\<rparr>) = (Inr (), q)"
    and "CHR ''&'' \<notin> set cmd" and "plain (pcode q)"
    and "execute (expr_ops g fcns dbr vr dre other) scope_done (block_of q) (Suc (length (pcode q))) w = (r, w')"
  shows "case r of
           Inr u \<Rightarrow> parse g (expr_ops g fcns dbr vr dre other) k n ((cmd_init cmd p)\<lparr>exe := True, mach := w\<rparr>)
                     = (Inr (), q\<lparr>exe := True, mach := w'\<rparr>)
         | Inl e \<Rightarrow> (\<exists>q'. parse g (expr_ops g fcns dbr vr dre other) k n ((cmd_init cmd p)\<lparr>exe := True, mach := w\<rparr>)
                     = (Inl e, q') \<and> mach q' = w')"
  using machine.immediate_is_compiled [OF assms(1) _ _ _ assms(3,4)] assms(2)
  by (simp add: cmd_init_def scannable_def clean_def)

definition pst0 :: "unit pst" where
  "pst0 = \<lparr>curr_cmd = [], curr_tok = 0, currtok_s = 0, currtok_len = 0, pcode = [], pdata = [],
     exe = False, is_ndx_expr = False, mach = ([], ())\<rparr>"

definition ops0 :: "unit ops" where
  "ops0 = expr_ops env0 (\<lambda>_ _. ret ()) (ret False) (ret ()) (\<lambda>_. ret ()) (\<lambda>_ _ _. ret ())"

lemma bnd_lazy: "s = s' \<Longrightarrow> bnd m f s = bnd m f s'"
  by simp

section \<open>A concrete run\<close>

lemma ev_on_mach: "ev (on_mach m) p = (case ev m (mach p) of (r, w) \<Rightarrow> (r, p\<lparr>mach := w\<rparr>))"
  by (simp add: ev_def on_mach_def)

lemma ev_on_stk: "ev (on_stk m) w = (case w of (s, r) \<Rightarrow> case ev m s of (x, s') \<Rightarrow> (x, (s', r)))"
  by (simp add: ev_def on_stk_def)

lemmas ev_scan = arg_cong [OF get_token_def, of ev] arg_cong [OF get_tok_def, of ev] arg_cong [OF cmd_at_def, of ev]
  arg_cong [OF set_tok_def, of ev] arg_cong [OF set_len_def, of ev] arg_cong [OF token_def, of ev]
  arg_cong [OF word_end.simps(2), of ev] arg_cong [OF getvarname.simps(2), of ev]
  arg_cong [OF save_token_def, of ev] arg_cong [OF rest_token_def, of ev] arg_cong [OF loadstring_def, of ev]
  arg_cong [OF add_data_def, of ev]

lemma ev_data_chk:
  "ev (data_chk sz) p = (if DATA_LIMIT \<le> length (pdata p) \<or> SIZE_LIMIT \<le> stk_bytes (pdata p) + sz
     then (Inl (Syn EXP_TOOLONG), p) else (Inr (), p))"
  by (simp add: ev_def data_chk_def)

lemmas ev_parse = arg_cong [OF parse_def, of ev] arg_cong [OF expression_def, of ev] arg_cong [OF expr_of_def, of ev]
  arg_cong [OF rel_expr_def, of ev] arg_cong [OF rel_expr1_def, of ev] arg_cong [OF simple_expr_def, of ev]
  arg_cong [OF term0_def, of ev] arg_cong [OF term1_def, of ev] arg_cong [OF while_op.simps(2), of ev]
  arg_cong [OF factor.simps(2), of ev] arg_cong [OF factor_body_def, of ev]
  arg_cong [OF loadlogic_def, of ev] arg_cong [OF codegen_def, of ev]

lemmas scan_defs = isspace_def ch_def isalpha_def isdigit_def
  tok_from_def tok_text_def islower_def isupper_def

text \<open>An expression for the witnesses.\<close>

lemma upper_tf: "to_upper CHR ''t'' = CHR ''T''" "to_upper CHR ''f'' = CHR ''F''"
  by code_simp+

lemma scans:
  "scan_number ''.t. .and. .f.'' = Inr (TLOGIC, 3)"
  "scan_number ''.and. .f.'' = Inr (TAND, 5)"
  "scan_number ''.f.'' = Inr (TLOGIC, 3)"
  by code_simp+

lemmas ev_all = ev_basic ev_opt ev_pair ev_parse ev_scan ev_data_chk ev_on_mach ev_on_stk
  scan_defs cmd_init_def stk_bytes_def Let_def is_relop_def is_addop_def is_mulop_def

abbreviation (input) fuel6 :: nat where
  "fuel6 \<equiv> Suc (Suc (Suc (Suc (Suc (Suc 0)))))"

definition parsed0 :: "unit pst" where
  "parsed0 = \<lparr>curr_cmd = ''.t. .and. .f.'', curr_tok = 0, currtok_s = 13, currtok_len = 0,
     pcode = [(PUSH, 0), (PUSH, 1), (BOP, TAND)], pdata = [VLogic (Some True), VLogic (Some False)],
     exe = False, is_ndx_expr = False, mach = ([], ())\<rparr>"

lemma parse_example:
  "parse env0 ops0 fuel6 (Suc (Suc 0)) ((cmd_init ''.t. .and. .f.'' pst0)\<lparr>exe := False\<rparr>) = (Inr (), parsed0)"
  by (subst ev_def [symmetric])
    (simp add: ev_all pst0_def parsed0_def scans upper_tf cong: ev_cong)

lemma execute_example:
  "execute ops0 (ret False) (block_of parsed0) (Suc (length (pcode parsed0))) ([], ())
   = (Inr (), [VLogic (Some False)], ())"
  by (simp add: execute_def block_of_def parsed0_def ops0_def expr_ops_def expr_hbint_def push_opnd_def
      on_stk_def push_def stk_bytes_def cm_simps bop_def stack_peek_def deref_def pop_any_def push_logic_def
      is_relop_def is_addop_def is_mulop_def pop_logic_def pop_stack_def env0_def typechk_def of_bool_int_def)

theorem compile_then_execute_witness:
  "parse env0 ops0 fuel6 (Suc (Suc 0)) ((cmd_init ''.t. .and. .f.'' pst0)\<lparr>exe := True, mach := ([], ())\<rparr>)
   = (Inr (), parsed0\<lparr>exe := True, mach := ([VLogic (Some False)], ())\<rparr>)"
  using compile_then_execute [OF parse_example [unfolded ops0_def] _ _ execute_example [unfolded ops0_def]]
  by (simp add: ops0_def parsed0_def plain_def plain_op_def)

end
