(* ===== verification/Btree.thy ===== *)
theory Btree
  imports Prelude
begin

text \<open>
  The index files: server/dbe/page.c and server/dbe/btree.c. An index is a B+ tree of pages; an inner
  page has the last key of each child but the last one as a separator. The recursion over pages takes
  fuel, since nothing in a file keeps page numbers from forming a cycle. The comparison of keys is a
  parameter (keycmp, modelled in Index_Keys), and so is whether the lock of a page is granted
  (ndx_lock, modelled in Locks). Errors of the disk are not modelled: read_page and write_page
  succeed, and memory does not run out.
\<close>

section \<open>Pages\<close>

record 'k entry =
  e_pno :: nat
  e_recno :: nat
  e_key :: 'k

record 'k page =
  entry_cnt :: nat
  slot :: "nat \<Rightarrow> 'k entry"

record 'k ndx =
  disk :: "nat \<Rightarrow> 'k page"
  rootno :: nat
  pagecnt :: nat
  norecpp :: nat
  page_no :: nat
  entry_no :: nat
  e_o_f :: bool \<comment> \<open>a flag of the table context\<close>
  w_hdr :: bool
  ndx_fsync :: bool
  disk_hdr :: "nat \<times> nat" \<comment> \<open>rootno and pagecnt in the file\<close>
  zero_key :: 'k \<comment> \<open>a key of zero bytes\<close>
  grants :: "nat \<Rightarrow> bool \<Rightarrow> bool"

type_synonym ('k, 'a) im = "('k ndx, 'a) cm"

definition blank :: "'k ndx \<Rightarrow> 'k page" where
  "blank s = \<lparr>entry_cnt = 0, slot = \<lambda>_. \<lparr>e_pno = 0, e_recno = 0, e_key = zero_key s\<rparr>\<rparr>"

definition getpage :: "nat \<Rightarrow> bool \<Rightarrow> ('k, 'k page) im" where
  \<comment> \<open>a page at or behind pagecnt is new\<close>
  "getpage n exclusive =
     bnd (getst (\<lambda>s. grants s n exclusive)) (\<lambda>ok.
     bnd (guard ok (Dbe NONDXLOCK)) (\<lambda>_.
     getst (\<lambda>s. if pagecnt s \<le> n then blank s else disk s n)))"

definition write_page :: "nat \<Rightarrow> 'k page \<Rightarrow> ('k, unit) im" where
  "write_page pno p = modst (\<lambda>s. s\<lparr>disk := (disk s)(pno := p)\<rparr>)"

definition write_ndx_hdr :: "('k, unit) im" where
  "write_ndx_hdr = modst (\<lambda>s. s\<lparr>disk_hdr := (rootno s, pagecnt s)\<rparr>)"

definition get_entry :: "'k page \<Rightarrow> nat \<Rightarrow> ('k, 'k entry) im" where
  "get_entry p item = bnd (guard (item \<le> entry_cnt p) (Dbe INVALID_ENTRY)) (\<lambda>_. ret (slot p item))"

definition ne_get_pageno :: "'k page \<Rightarrow> nat \<Rightarrow> ('k, nat) im" where
  "ne_get_pageno p n = bnd (get_entry p n) (\<lambda>e. ret (e_pno e))"

definition ne_get_recno :: "'k page \<Rightarrow> nat \<Rightarrow> ('k, nat) im" where
  "ne_get_recno p n = bnd (get_entry p n) (\<lambda>e. ret (e_recno e))"

definition ne_get_key :: "'k page \<Rightarrow> nat \<Rightarrow> ('k, 'k) im" where
  "ne_get_key p n = bnd (get_entry p n) (\<lambda>e. ret (e_key e))"

definition put_slot :: "'k page \<Rightarrow> nat \<Rightarrow> 'k entry \<Rightarrow> 'k page" where
  "put_slot p n e = p\<lparr>slot := (slot p)(n := e)\<rparr>"

definition ne_put_pageno :: "'k page \<Rightarrow> nat \<Rightarrow> nat \<Rightarrow> ('k, 'k page) im" where
  "ne_put_pageno p n v = bnd (get_entry p n) (\<lambda>e. ret (put_slot p n (e\<lparr>e_pno := v\<rparr>)))"

definition ne_put_recno :: "'k page \<Rightarrow> nat \<Rightarrow> nat \<Rightarrow> ('k, 'k page) im" where
  "ne_put_recno p n v = bnd (get_entry p n) (\<lambda>e. ret (put_slot p n (e\<lparr>e_recno := v\<rparr>)))"

definition ne_put_key :: "'k page \<Rightarrow> nat \<Rightarrow> 'k \<Rightarrow> ('k, 'k page) im" where
  "ne_put_key p n v = bnd (get_entry p n) (\<lambda>e. ret (put_slot p n (e\<lparr>e_key := v\<rparr>)))"

definition is_leaf :: "'k page \<Rightarrow> bool" where
  \<comment> \<open>!ne_get_pageno(p, 0), whose index is never out of range\<close>
  "is_leaf p \<longleftrightarrow> e_pno (slot p 0) = 0"

definition move_entry :: "'k page \<Rightarrow> nat \<Rightarrow> 'k page \<Rightarrow> nat \<Rightarrow> ('k, 'k page) im" where
  \<comment> \<open>the new contents of pg2; pg1 may be the same page\<close>
  "move_entry pg1 e1 pg2 e2 =
     bnd (get_entry pg1 e1) (\<lambda>ep1. bnd (get_entry pg2 e2) (\<lambda>_.
     bnd (get_entry pg1 (e1 + 1)) (\<lambda>ep3. bnd (get_entry pg2 (e2 + 1)) (\<lambda>ep4.
     let pg2 = put_slot pg2 (e2 + 1) (ep4\<lparr>e_pno := e_pno ep3\<rparr>);
         ep2 = slot pg2 e2
     in ret (put_slot pg2 e2 (ep2\<lparr>e_recno := e_recno ep1, e_key := e_key ep1\<rparr>))))))"

definition insert_entry :: "'k page \<Rightarrow> nat \<Rightarrow> nat \<Rightarrow> 'k entry \<Rightarrow> ('k, 'k page) im" where
  "insert_entry p pno r target =
     bnd (guard (\<not> (is_leaf p \<and> e_recno target = 0) \<and> \<not> (\<not> is_leaf p \<and> e_pno target = 0)) (Dbe INVALID_ENTRY)) (\<lambda>_.
     bnd (ne_put_recno p r (e_recno target)) (\<lambda>p.
     bnd (ne_put_key p r (e_key target)) (\<lambda>p.
     bnd (ne_put_pageno p (r + 1) (e_pno target)) (\<lambda>p.
     bnd (if is_leaf p then modst (\<lambda>s. s\<lparr>page_no := pno, entry_no := r\<rparr>) else ret ()) (\<lambda>_.
     ret p)))))"

section \<open>Searching\<close>

primrec last_leaf :: "nat \<Rightarrow> 'k page \<Rightarrow> ('k, 'k page) im" where
  \<comment> \<open>while (!is_leaf(p)) p = getpage(ne_get_pageno(p, p->entry_cnt), ..)\<close>
  "last_leaf 0 p = raise NoFuel"
| "last_leaf (Suc f) p =
     (if is_leaf p then ret p
      else bnd (ne_get_pageno p (entry_cnt p)) (\<lambda>n. bnd (getpage n False) (\<lambda>q. last_leaf f q)))"

definition cmp_recno :: "nat \<Rightarrow> nat \<Rightarrow> int" where
  "cmp_recno a b = (if b < a then 1 else if a < b then - 1 else 0)"

definition btlr :: "nat \<Rightarrow> nat \<Rightarrow> nat \<Rightarrow> ('k, int) im" where
  \<comment> \<open>an empty last leaf makes get_entry fail on the index -1\<close>
  "btlr f pno recnum =
     bnd (getpage pno False) (\<lambda>p. bnd (last_leaf f p) (\<lambda>p.
     bnd (guard (entry_cnt p \<noteq> 0) (Dbe INVALID_ENTRY)) (\<lambda>_.
     bnd (ne_get_recno p (entry_cnt p - 1)) (\<lambda>recno. ret (cmp_recno recnum recno)))))"

datatype srch_mode = M_EQUAL | M_GREATER | M_GTREQU | M_LESS | M_LESSEQU

record scan =
  s_e :: int
  s_e2 :: int
  s_r :: nat
  s_r0 :: "nat option" \<comment> \<open>None is -1\<close>
  s_pn0 :: nat
  s_pn3 :: nat
  s_n3 :: nat
  s_found :: "nat option option" \<comment> \<open>left by a goto: Some (Some r) is found with r, Some None is end\<close>

definition next_r :: "scan \<Rightarrow> nat \<Rightarrow> scan" where
  "next_r v pageno = v\<lparr>s_r0 := Some (s_r v), s_r := s_r v + 1, s_pn0 := s_pn3 v, s_pn3 := pageno\<rparr>"

primrec scan_page :: "('k \<Rightarrow> 'k \<Rightarrow> int) \<Rightarrow> srch_mode \<Rightarrow> nat \<Rightarrow> 'k entry \<Rightarrow> 'k page \<Rightarrow> nat \<Rightarrow> scan \<Rightarrow> ('k, scan) im" where
  \<comment> \<open>the loop of btsrch; n bounds its rounds, one for each entry is enough\<close>
  "scan_page kc mode f target cpg 0 v = ret v"
| "scan_page kc mode f target cpg (Suc n) v =
     (if \<not> (0 < s_e v \<and> s_r v < entry_cnt cpg) then ret v
      else
        bnd (ne_get_pageno cpg (s_r v + 1)) (\<lambda>pageno.
        bnd (ne_get_key cpg (s_r v)) (\<lambda>k.
        let e = kc (e_key target) k in
        if e = 0 \<and> (mode = M_GREATER \<or> mode = M_GTREQU) then
          scan_page kc mode f target cpg n (next_r (v\<lparr>s_e := 1, s_e2 := 0\<rparr>) pageno)
        else if e = 0 then
          (let n3 = e_recno target in
           bnd (if n3 = 0 then ret 0
                else if s_pn3 v \<noteq> 0 then btlr f (s_pn3 v) n3
                else bnd (ne_get_recno cpg (s_r v)) (\<lambda>recno. ret (cmp_recno n3 recno))) (\<lambda>e.
             let v = v\<lparr>s_e := e, s_n3 := n3\<rparr> in
             if e = 0 \<and> s_pn3 v = 0 then
               (if mode = M_LESS then
                  (if s_r v = 0 then ret (v\<lparr>s_found := Some None\<rparr>)
                   else ret (v\<lparr>s_found := Some (s_r0 v)\<rparr>))
                else ret (v\<lparr>s_found := Some (Some (s_r v))\<rparr>))
             else if 0 < e then scan_page kc mode f target cpg n (next_r v pageno)
             else scan_page kc mode f target cpg n v))
        else if 0 < e then scan_page kc mode f target cpg n (next_r (v\<lparr>s_e := e\<rparr>) pageno)
        else scan_page kc mode f target cpg n (v\<lparr>s_e := e\<rparr>))))"

definition found :: "nat \<Rightarrow> 'k page \<Rightarrow> nat option \<Rightarrow> ('k, nat) im" where
  \<comment> \<open>the label found; the index -1 fails in get_entry\<close>
  "found pno cpg r = (case r of
       None \<Rightarrow> raise (Dbe INVALID_ENTRY)
     | Some r \<Rightarrow>
         bnd (modst (\<lambda>s. s\<lparr>page_no := pno, entry_no := r\<rparr>)) (\<lambda>_. ne_get_recno cpg r))"

primrec btsrch :: "('k \<Rightarrow> 'k \<Rightarrow> int) \<Rightarrow> srch_mode \<Rightarrow> nat \<Rightarrow> nat \<Rightarrow> 'k entry \<Rightarrow> ('k, nat) im" where
  "btsrch kc mode 0 pno target = raise NoFuel"
| "btsrch kc mode (Suc f) pno target =
     (if pno = 0 then ret 0
      else
        bnd (getpage pno False) (\<lambda>cpg.
        bnd (ne_get_pageno cpg 0) (\<lambda>pn.
        bnd (scan_page kc mode f target cpg (entry_cnt cpg)
              \<lparr>s_e = 1, s_e2 = - 1, s_r = 0, s_r0 = None, s_pn0 = 0, s_pn3 = pn, s_n3 = 0, s_found = None\<rparr>) (\<lambda>v.
        case s_found v of
          Some None \<Rightarrow> ret (s_n3 v)
        | Some (Some r) \<Rightarrow> found pno cpg (Some r)
        | None \<Rightarrow>
            if s_pn3 v = 0 \<and> mode = M_GREATER then
              (if s_e v < 0 then found pno cpg (Some (s_r v)) else ret (s_n3 v))
            else if s_pn3 v = 0 \<and> mode = M_GTREQU then
              (if 0 < s_e v then (if s_e2 v = 0 then found pno cpg (s_r0 v) else ret 0)
               else if s_r v \<noteq> 0 then
                 (if s_e2 v \<noteq> 0 then found pno cpg (Some (s_r v)) else found pno cpg (s_r0 v))
               else ret (s_n3 v))
            else if s_pn3 v = 0 \<and> mode \<noteq> M_EQUAL \<and> s_r v \<noteq> 0 then found pno cpg (s_r0 v)
            else
              bnd (btsrch kc mode f (s_pn3 v) target) (\<lambda>n3.
                if n3 = 0 \<and> (mode = M_LESS \<or> mode = M_GTREQU) \<and> s_r0 v \<noteq> None
                then btsrch kc mode f (s_pn0 v) target else ret n3)))))"

section \<open>Inserting\<close>

primrec find_slot :: "('k \<Rightarrow> 'k \<Rightarrow> int) \<Rightarrow> bool \<Rightarrow> nat \<Rightarrow> 'k entry \<Rightarrow> 'k page \<Rightarrow> nat \<Rightarrow> nat \<Rightarrow> nat
    \<Rightarrow> ('k, (nat \<times> nat) option) im" where
  \<comment> \<open>the loop of btsrin from the entry r with the child pn3 on its left; None is DUPKEY\<close>
  "find_slot kc uniq f target p 0 r pn3 = ret (Some (r, pn3))"
| "find_slot kc uniq f target p (Suc n) r pn3 =
     (if \<not> r < entry_cnt p then ret (Some (r, pn3))
      else
        bnd (ne_get_recno p r) (\<lambda>recno. bnd (ne_get_pageno p (r + 1)) (\<lambda>pageno. bnd (ne_get_key p r) (\<lambda>k.
        let e = kc (e_key target) k in
        if e = 0 \<and> uniq then ret None
        else
          bnd (if e \<noteq> 0 then ret e
               else if pn3 = 0 then ret (cmp_recno (e_recno target) recno)
               else btlr f pn3 (e_recno target)) (\<lambda>e.
          if e = 0 then ret None
          else if 0 < e then find_slot kc uniq f target p n (r + 1) pageno
          else ret (Some (r, pn3)))))))"

primrec move_down :: "nat \<Rightarrow> nat \<Rightarrow> 'k page \<Rightarrow> ('k, 'k page) im" where
  \<comment> \<open>for (i=r+n; i>r; --i) move_entry(p, i - 1, p, i)\<close>
  "move_down 0 r p = ret p"
| "move_down (Suc n) r p = bnd (move_entry p (r + n) p (r + n + 1)) (\<lambda>p. move_down n r p)"

primrec move_over :: "nat \<Rightarrow> 'k page \<Rightarrow> nat \<Rightarrow> 'k page \<Rightarrow> nat \<Rightarrow> ('k, 'k page) im" where
  \<comment> \<open>n times move_entry(p, i++, q, j++); the result is q\<close>
  "move_over 0 p i q j = ret q"
| "move_over (Suc n) p i q j = bnd (move_entry p i q j) (\<lambda>q. move_over n p (i + 1) q (j + 1))"

definition split_page :: "nat \<Rightarrow> nat \<Rightarrow> nat \<Rightarrow> 'k page \<Rightarrow> 'k page \<Rightarrow> nat \<Rightarrow> 'k entry
    \<Rightarrow> ('k, 'k page \<times> 'k page \<times> 'k entry) im" where
  \<comment> \<open>the three cases of r and n; e is norecpp, pno and pn3 are the numbers of p and q\<close>
  "split_page e pno pn3 p q r target =
     (let n = e div 2 in
      if r = n then
        bnd (move_over (e - n) p n q 0) (\<lambda>q.
        bnd (insert_entry p pno n target) (\<lambda>p. ret (p, q, target)))
      else
        bnd (if r < n then
               bnd (move_over (e - n) p n q 0) (\<lambda>q.
               bnd (move_down (n - r) r p) (\<lambda>p.
               bnd (insert_entry p pno r target) (\<lambda>p. ret (p, q))))
             else
               bnd (move_over (r - (n + 1)) p (n + 1) q 0) (\<lambda>q.
               bnd (insert_entry q pn3 (r - n - 1) target) (\<lambda>q.
               bnd (move_over (e - r) p r q (r - n)) (\<lambda>q. ret (p, q))))) (\<lambda>(p, q).
        bnd (ne_get_recno p n) (\<lambda>recno. bnd (ne_get_key p n) (\<lambda>key.
        ret (p, q, target\<lparr>e_recno := recno, e_key := key\<rparr>)))))"

definition put_hdr :: "('k, unit) im" where
  \<comment> \<open>if (curr_ndx->fsync) write_ndx_hdr(..); else curr_ndx->w_hdr = 1;\<close>
  "put_hdr = bnd (getst ndx_fsync) (\<lambda>b. if b then write_ndx_hdr else modst (\<lambda>s. s\<lparr>w_hdr := True\<rparr>))"

definition insert_in_page :: "nat \<Rightarrow> 'k page \<Rightarrow> nat \<Rightarrow> 'k entry \<Rightarrow> ('k, 'k entry) im" where
  \<comment> \<open>the branch target->recno || target->pno of btsrin; the result is the new target\<close>
  "insert_in_page pno p r target =
     bnd (getst norecpp) (\<lambda>e.
     if entry_cnt p < e then
       bnd (move_down (entry_cnt p - r) r (p\<lparr>entry_cnt := entry_cnt p + 1\<rparr>)) (\<lambda>p.
       bnd (insert_entry p pno r target) (\<lambda>p.
       bnd (write_page pno p) (\<lambda>_.
       ret (target\<lparr>e_recno := 0, e_pno := 0\<rparr>))))
     else
       let n = e div 2 in
       bnd (getst pagecnt) (\<lambda>pn3.
       bnd (getpage pn3 True) (\<lambda>q.
       bnd (split_page e pno pn3 p (q\<lparr>entry_cnt := e - n\<rparr>) r target) (\<lambda>(p, q, target).
       bnd (ne_get_pageno p (n + 1)) (\<lambda>c.
       bnd (ne_put_pageno q 0 c) (\<lambda>q.
       let p = p\<lparr>entry_cnt := (if is_leaf p then n + 1 else n)\<rparr> in
       bnd (modst (\<lambda>s. s\<lparr>pagecnt := pagecnt s + 1\<rparr>)) (\<lambda>_.
       bnd (write_page pno p) (\<lambda>_.
       bnd (write_page pn3 q) (\<lambda>_.
       bnd put_hdr (\<lambda>_.
       ret (target\<lparr>e_pno := pn3\<rparr>)))))))))))"

primrec btsrin :: "('k \<Rightarrow> 'k \<Rightarrow> int) \<Rightarrow> bool \<Rightarrow> nat \<Rightarrow> nat \<Rightarrow> 'k entry \<Rightarrow> ('k, nat \<times> 'k entry) im" where
  \<comment> \<open>the return code and the target; 0 is success\<close>
  "btsrin kc uniq 0 pno target = raise NoFuel"
| "btsrin kc uniq (Suc f) pno target =
     (if pno = 0 then ret (0, target)
      else
        bnd (getpage pno True) (\<lambda>p.
        bnd (ne_get_pageno p 0) (\<lambda>pn.
        bnd (find_slot kc uniq f target p (entry_cnt p) 0 pn) (\<lambda>res.
        case res of
          None \<Rightarrow> ret (db_no DUPKEY, target)
        | Some (r, pn3) \<Rightarrow>
            bnd (btsrin kc uniq f pn3 target) (\<lambda>(rc, target).
            if rc \<noteq> 0 then ret (rc, target)
            else if e_recno target \<noteq> 0 \<or> e_pno target \<noteq> 0 then
              bnd (insert_in_page pno p r target) (\<lambda>target. ret (0, target))
            else ret (0, target))))))"

definition new_root_page :: "bool \<Rightarrow> 'k entry \<Rightarrow> ('k, unit) im" where
  \<comment> \<open>the root was split, or there was none\<close>
  "new_root_page exclusive target =
     bnd (getst pagecnt) (\<lambda>new.
     bnd (getpage new True) (\<lambda>cpg.
     bnd (getst rootno) (\<lambda>root.
     bnd (ne_put_pageno (cpg\<lparr>entry_cnt := 1\<rparr>) 0 root) (\<lambda>cpg.
     bnd (modst (\<lambda>s. s\<lparr>rootno := new, pagecnt := pagecnt s + 1\<rparr>)) (\<lambda>_.
     bnd (insert_entry cpg 0 0 target) (\<lambda>cpg.
     bnd (write_page new cpg) (\<lambda>_.
     if exclusive then modst (\<lambda>s. s\<lparr>w_hdr := True\<rparr>) else write_ndx_hdr)))))))"

definition insert_new :: "('k \<Rightarrow> 'k \<Rightarrow> int) \<Rightarrow> bool \<Rightarrow> bool \<Rightarrow> nat \<Rightarrow> 'k entry \<Rightarrow> ('k, int) im" where
  \<comment> \<open>insert_new of ndx.c; exclusive is the flag of the table\<close>
  "insert_new kc uniq exclusive f target =
     bnd (modst (\<lambda>s. s\<lparr>e_o_f := False\<rparr>)) (\<lambda>_.
     bnd (getst rootno) (\<lambda>root.
     bnd (btsrin kc uniq f root target) (\<lambda>(rc, target).
     if rc = db_no DUPKEY then ret 0
     else if rc \<noteq> 0 then ret (- 1)
     else if e_recno target \<noteq> 0 \<or> e_pno target \<noteq> 0 then
       bnd (new_root_page exclusive target) (\<lambda>_. ret 1)
     else ret 1)))"

section \<open>Deleting\<close>

primrec del :: "nat \<Rightarrow> nat \<Rightarrow> nat \<Rightarrow> 'k page \<Rightarrow> nat \<Rightarrow> 'k entry \<Rightarrow> ('k, bool \<times> 'k page \<times> 'k entry) im" where
  \<comment> \<open>rm, the page q (with the number apno) and the target\<close>
  "del 0 ppno apno q itmno target = raise NoFuel"
| "del (Suc f) ppno apno q itmno target =
     (if ppno = 0 then ret (True, q, target)
      else
        bnd (getpage ppno True) (\<lambda>p.
        bnd (ne_get_pageno p (entry_cnt p)) (\<lambda>pn.
        bnd (del f pn apno q itmno target) (\<lambda>(rm, q, target).
        if \<not> rm then ret (False, q, target)
        else if entry_cnt p = 0 then ret (True, q, target)
        else if pn = 0 then
          let p = p\<lparr>entry_cnt := entry_cnt p - 1\<rparr> in
          bnd (write_page ppno p) (\<lambda>_.
          if entry_cnt p = 0 then ret (True, q, target)
          else
            bnd (ne_get_pageno q (itmno + 1)) (\<lambda>pn.
            bnd (move_entry p (entry_cnt p - 1) q itmno) (\<lambda>q.
            bnd (ne_put_recno q itmno 0) (\<lambda>q.
            bnd (ne_put_pageno q (itmno + 1) pn) (\<lambda>q.
            bnd (write_page apno q) (\<lambda>_. ret (False, q, target)))))))
        else if e_pno target \<noteq> 0 then
          bnd (ne_put_pageno p (entry_cnt p) (e_pno target)) (\<lambda>p.
          bnd (write_page ppno p) (\<lambda>_. ret (False, q, target\<lparr>e_pno := 0\<rparr>)))
        else
          bnd (ne_get_pageno q (itmno + 1)) (\<lambda>pn.
          bnd (ne_put_pageno p (entry_cnt p) pn) (\<lambda>p.
          bnd (move_entry p (entry_cnt p - 1) q itmno) (\<lambda>q.
          bnd (write_page apno q) (\<lambda>_.
          let p = p\<lparr>entry_cnt := entry_cnt p - 1\<rparr> in
          bnd (write_page ppno p) (\<lambda>_.
          if entry_cnt p = 0 then
            bnd (ne_get_pageno p 0) (\<lambda>pn. ret (True, q, target\<lparr>e_pno := pn\<rparr>))
          else ret (False, q, target))))))))))"

primrec find_match :: "('k \<Rightarrow> 'k \<Rightarrow> int) \<Rightarrow> nat \<Rightarrow> 'k entry \<Rightarrow> 'k page \<Rightarrow> nat \<Rightarrow> nat \<Rightarrow> nat
    \<Rightarrow> ('k, bool \<times> nat \<times> nat) im" where
  \<comment> \<open>the loop of btsrdel: match, r and pn3\<close>
  "find_match kc f target p 0 r pn3 = ret (False, r, pn3)"
| "find_match kc f target p (Suc n) r pn3 =
     (if \<not> r < entry_cnt p then ret (False, r, pn3)
      else
        bnd (ne_get_recno p r) (\<lambda>recno. bnd (ne_get_key p r) (\<lambda>k.
        let e = kc (e_key target) k in
        bnd (if e \<noteq> 0 then ret e
             else if pn3 = 0 then ret (cmp_recno (e_recno target) recno)
             else btlr f pn3 (e_recno target)) (\<lambda>e.
        if e = 0 then ret (True, r, pn3)
        else if 0 < e then
          bnd (ne_get_pageno p (r + 1)) (\<lambda>pageno. find_match kc f target p n (r + 1) pageno)
        else ret (False, r, pn3)))))"

primrec move_up :: "nat \<Rightarrow> nat \<Rightarrow> 'k page \<Rightarrow> ('k, 'k page) im" where
  \<comment> \<open>for (e=r; e<r+n; ++e) move_entry(p, e + 1, p, e)\<close>
  "move_up 0 r p = ret p"
| "move_up (Suc n) r p = bnd (move_entry p (r + 1) p r) (\<lambda>p. move_up n (r + 1) p)"

primrec btsrdel :: "('k \<Rightarrow> 'k \<Rightarrow> int) \<Rightarrow> nat \<Rightarrow> nat \<Rightarrow> 'k entry \<Rightarrow> ('k, bool \<times> 'k entry) im" where
  "btsrdel kc 0 pno target = raise NoFuel"
| "btsrdel kc (Suc f) pno target =
     (if pno = 0 then raise (Dbe NTNDX)
      else
        bnd (getpage pno True) (\<lambda>p.
        bnd (ne_get_pageno p 0) (\<lambda>pn.
        bnd (find_match kc f target p (entry_cnt p) 0 pn) (\<lambda>(match, r, pn3).
        bnd (if match then del f pn3 pno p r target
             else bnd (btsrdel kc f pn3 target) (\<lambda>(rm, target). ret (rm, p, target))) (\<lambda>(rm, p, target).
        if \<not> rm then ret (False, target)
        else if e_pno target \<noteq> 0 then
          bnd (ne_put_pageno p r (e_pno target)) (\<lambda>p.
          bnd (write_page pno p) (\<lambda>_. ret (False, target\<lparr>e_pno := 0\<rparr>)))
        else
          bnd (if r < entry_cnt p then
                 bnd (ne_get_pageno p (r + 1)) (\<lambda>npno.
                 bnd (move_up (entry_cnt p - 1 - r) r p) (\<lambda>p. ne_put_pageno p r npno))
               else ret p) (\<lambda>p.
          let p = p\<lparr>entry_cnt := entry_cnt p - 1\<rparr> in
          bnd (write_page pno p) (\<lambda>_.
          if entry_cnt p = 0 then
            bnd (ne_get_pageno p 0) (\<lambda>pn. ret (True, target\<lparr>e_pno := pn\<rparr>))
          else ret (False, target))))))))"

definition remove_old_insert_new :: "('k \<Rightarrow> 'k \<Rightarrow> int) \<Rightarrow> bool \<Rightarrow> bool \<Rightarrow> nat \<Rightarrow> 'k entry option \<Rightarrow> 'k entry option
    \<Rightarrow> ('k, int) im" where
  \<comment> \<open>with the results of ndx_get_key for the old and the new record, where None is a NULL key\<close>
  "remove_old_insert_new kc uniq exclusive f old new =
     (let do_update = (case (old, new) of (Some a, Some b) \<Rightarrow> kc (e_key a) (e_key b) \<noteq> 0 | _ \<Rightarrow> True) in
      if \<not> do_update then ret 0
      else
        bnd (case old of None \<Rightarrow> ret () | Some old \<Rightarrow>
               bnd (getst rootno) (\<lambda>root.
               bnd (btsrdel kc f root old) (\<lambda>(rm, old).
               if rm then
                 bnd (modst (\<lambda>s. if e_pno old \<noteq> 0 then s\<lparr>rootno := e_pno old\<rparr> else s\<lparr>rootno := 0, pagecnt := 1\<rparr>)) (\<lambda>_.
                 if exclusive then modst (\<lambda>s. s\<lparr>w_hdr := True\<rparr>) else write_ndx_hdr)
               else ret ()))) (\<lambda>_.
        bnd (case new of None \<Rightarrow> ret 0 | Some new \<Rightarrow> insert_new kc uniq exclusive f new) (\<lambda>rc.
        ret (if rc < 0 then - 1 else if old = None \<and> new = None then 0 else 1))))"

end
