(* ===== verification/Btree_Insert.thy ===== *)
theory Btree_Insert
  imports Btree
begin

text \<open>
  What btsrin does to the index: the pages of the file hold a tree, and inserting an entry gives a
  tree whose leaves, from left to right, are the old ones with the entry at its place. The steps are
  the loops of a page (move_down, move_over, insert_entry), the insertion into one page with or
  without a split, and the induction over the tree.
\<close>

section \<open>One page\<close>

definition rk :: "'k page \<Rightarrow> nat \<Rightarrow> nat \<times> 'k" where
  "rk p i = (e_recno (slot p i), e_key (slot p i))"

definition pn :: "'k page \<Rightarrow> nat \<Rightarrow> nat" where
  "pn p i = e_pno (slot p i)"

definition ents :: "'k page \<Rightarrow> (nat \<times> 'k) list" where
  "ents p = map (rk p) [0 ..< entry_cnt p]"

definition ptrs :: "'k page \<Rightarrow> nat list" where
  "ptrs p = map (pn p) [0 ..< entry_cnt p + 1]"

lemma length_ents [simp]: "length (ents p) = entry_cnt p"
  by (simp add: ents_def)

lemma length_ptrs [simp]: "length (ptrs p) = entry_cnt p + 1"
  by (simp add: ptrs_def)

lemma nth_ents: "i < entry_cnt p \<Longrightarrow> ents p ! i = rk p i"
  by (simp add: ents_def)

lemma nth_ptrs: "i \<le> entry_cnt p \<Longrightarrow> ptrs p ! i = pn p i"
  unfolding ptrs_def by (subst nth_map) (simp_all del: upt_Suc)

lemma rk_cnt [simp]: "rk (p\<lparr>entry_cnt := n\<rparr>) = rk p" "pn (p\<lparr>entry_cnt := n\<rparr>) = pn p"
  by (simp_all add: rk_def pn_def fun_eq_iff)

lemma is_leaf_pn: "is_leaf p \<longleftrightarrow> pn p 0 = 0"
  by (simp add: is_leaf_def pn_def)

lemmas page_reads = get_entry_def ne_get_pageno_def ne_get_recno_def ne_get_key_def

lemma move_entry_app:
  assumes "e1 + 1 \<le> entry_cnt p" and "e2 + 1 \<le> entry_cnt q"
  obtains q' where "move_entry p e1 q e2 s = (Inr q', s)" and "entry_cnt q' = entry_cnt q"
    and "rk q' = (rk q)(e2 := rk p e1)" and "pn q' = (pn q)(e2 + 1 := pn p (e1 + 1))"
proof
  let ?q = "put_slot q (e2 + 1) ((slot q (e2 + 1))\<lparr>e_pno := e_pno (slot p (e1 + 1))\<rparr>)"
  let ?q' = "put_slot ?q e2 ((slot ?q e2)\<lparr>e_recno := e_recno (slot p e1), e_key := e_key (slot p e1)\<rparr>)"
  show "move_entry p e1 q e2 s = (Inr ?q', s)"
    using assms by (simp add: move_entry_def get_entry_def cm_simps Let_def)
  show "entry_cnt ?q' = entry_cnt q" by (simp add: put_slot_def)
  show "rk ?q' = (rk q)(e2 := rk p e1)" "pn ?q' = (pn q)(e2 + 1 := pn p (e1 + 1))"
    by (auto simp: rk_def pn_def put_slot_def fun_eq_iff)
qed

lemma move_down_app:
  assumes "r + n + 1 \<le> entry_cnt p"
  shows "\<exists>p'. move_down n r p s = (Inr p', s) \<and> entry_cnt p' = entry_cnt p
     \<and> rk p' = (\<lambda>j. if r < j \<and> j \<le> r + n then rk p (j - 1) else rk p j)
     \<and> pn p' = (\<lambda>j. if r + 1 < j \<and> j \<le> r + n + 1 then pn p (j - 1) else pn p j)"
  using assms
proof (induction n arbitrary: p)
  case 0
  show ?case by (auto simp: cm_simps fun_eq_iff)
next
  case (Suc n)
  obtain p1 where 1: "move_entry p (r + n) p (r + n + 1) s = (Inr p1, s)" "entry_cnt p1 = entry_cnt p"
    "rk p1 = (rk p)(r + n + 1 := rk p (r + n))" "pn p1 = (pn p)(r + n + 1 + 1 := pn p (r + n + 1))"
    by (rule move_entry_app [of "r + n" p "r + n + 1" p s]) (use Suc.prems in auto)
  have "r + n + 1 \<le> entry_cnt p1" using Suc.prems 1(2) by simp
  from Suc.IH [OF this] obtain p' where 2: "move_down n r p1 s = (Inr p', s)" "entry_cnt p' = entry_cnt p1"
    "rk p' = (\<lambda>j. if r < j \<and> j \<le> r + n then rk p1 (j - 1) else rk p1 j)"
    "pn p' = (\<lambda>j. if r + 1 < j \<and> j \<le> r + n + 1 then pn p1 (j - 1) else pn p1 j)"
    by blast
  show ?case
  proof (intro exI [of _ p'] conjI)
    show "move_down (Suc n) r p s = (Inr p', s)" using 1(1) 2(1) by (simp add: cm_simps)
    show "entry_cnt p' = entry_cnt p" using 1 2 by simp
    show "rk p' = (\<lambda>j. if r < j \<and> j \<le> r + Suc n then rk p (j - 1) else rk p j)"
      using 1(3) 2(3) by (auto simp: fun_eq_iff)
    show "pn p' = (\<lambda>j. if r + 1 < j \<and> j \<le> r + Suc n + 1 then pn p (j - 1) else pn p j)"
      using 1(4) 2(4) by (auto simp: fun_eq_iff)
  qed
qed

lemma move_over_app:
  assumes "i + n \<le> entry_cnt p" and "j + n \<le> entry_cnt q"
  shows "\<exists>q'. move_over n p i q j s = (Inr q', s) \<and> entry_cnt q' = entry_cnt q
     \<and> rk q' = (\<lambda>x. if j \<le> x \<and> x < j + n then rk p (i + (x - j)) else rk q x)
     \<and> pn q' = (\<lambda>x. if j < x \<and> x \<le> j + n then pn p (i + (x - j)) else pn q x)"
  using assms
proof (induction n arbitrary: i j q)
  case 0
  show ?case by (auto simp: cm_simps fun_eq_iff)
next
  case (Suc n)
  obtain q1 where 1: "move_entry p i q j s = (Inr q1, s)" "entry_cnt q1 = entry_cnt q"
    "rk q1 = (rk q)(j := rk p i)" "pn q1 = (pn q)(j + 1 := pn p (i + 1))"
    by (rule move_entry_app [of i p j q s]) (use Suc.prems in auto)
  have "i + 1 + n \<le> entry_cnt p" "j + 1 + n \<le> entry_cnt q1" using Suc.prems 1(2) by simp_all
  from Suc.IH [OF this] obtain q' where 2: "move_over n p (i + 1) q1 (j + 1) s = (Inr q', s)"
    "entry_cnt q' = entry_cnt q1"
    "rk q' = (\<lambda>x. if j + 1 \<le> x \<and> x < j + 1 + n then rk p (i + 1 + (x - (j + 1))) else rk q1 x)"
    "pn q' = (\<lambda>x. if j + 1 < x \<and> x \<le> j + 1 + n then pn p (i + 1 + (x - (j + 1))) else pn q1 x)"
    by blast
  have idx: "i + 1 + (x - (j + 1)) = i + (x - j)" if "j + 1 \<le> x" for x using that by simp
  show ?case
  proof (intro exI [of _ q'] conjI)
    show "move_over (Suc n) p i q j s = (Inr q', s)" using 1(1) 2(1) by (simp add: cm_simps)
    show "entry_cnt q' = entry_cnt q" using 1 2 by simp
    show "rk q' = (\<lambda>x. if j \<le> x \<and> x < j + Suc n then rk p (i + (x - j)) else rk q x)"
      using 1(3) 2(3) idx by (auto simp: fun_eq_iff)
    show "pn q' = (\<lambda>x. if j < x \<and> x \<le> j + Suc n then pn p (i + (x - j)) else pn q x)"
      using 1(4) 2(4) idx by (auto simp: fun_eq_iff)
  qed
qed

lemma insert_entry_app:
  assumes "r + 1 \<le> entry_cnt p" and "is_leaf p \<Longrightarrow> e_recno t \<noteq> 0" and "\<not> is_leaf p \<Longrightarrow> e_pno t \<noteq> 0"
  shows "\<exists>p' a b. insert_entry p pno r t s = (Inr p', s\<lparr>page_no := a, entry_no := b\<rparr>)
     \<and> entry_cnt p' = entry_cnt p \<and> rk p' = (rk p)(r := (e_recno t, e_key t)) \<and> pn p' = (pn p)(r + 1 := e_pno t)"
proof -
  let ?p1 = "put_slot p r ((slot p r)\<lparr>e_recno := e_recno t\<rparr>)"
  let ?p2 = "put_slot ?p1 r ((slot ?p1 r)\<lparr>e_key := e_key t\<rparr>)"
  let ?p' = "put_slot ?p2 (r + 1) ((slot ?p2 (r + 1))\<lparr>e_pno := e_pno t\<rparr>)"
  have c: "entry_cnt ?p1 = entry_cnt p" "entry_cnt ?p2 = entry_cnt p" "entry_cnt ?p' = entry_cnt p"
    by (simp_all add: put_slot_def)
  have "insert_entry p pno r t s = (Inr ?p', if is_leaf ?p' then s\<lparr>page_no := pno, entry_no := r\<rparr> else s)"
    using assms c
    by (cases "is_leaf p") (auto simp: insert_entry_def ne_put_recno_def ne_put_key_def ne_put_pageno_def get_entry_def cm_simps)
  then have "insert_entry p pno r t s
      = (Inr ?p', s\<lparr>page_no := if is_leaf ?p' then pno else page_no s, entry_no := if is_leaf ?p' then r else entry_no s\<rparr>)"
    by simp
  moreover have "rk ?p' = (rk p)(r := (e_recno t, e_key t))" "pn ?p' = (pn p)(r + 1 := e_pno t)"
    by (auto simp: rk_def pn_def put_slot_def fun_eq_iff)
  ultimately show ?thesis using c(3) by (intro exI conjI)
qed

definition ins_at :: "nat \<Rightarrow> 'a \<Rightarrow> 'a list \<Rightarrow> 'a list" where
  "ins_at r x xs = take r xs @ x # drop r xs"

lemma length_ins_at [simp]: "length (ins_at r x xs) = Suc (length xs)"
  by (simp add: ins_at_def)

lemma nth_ins_at:
  "r \<le> length xs \<Longrightarrow> i \<le> length xs \<Longrightarrow>
   ins_at r x xs ! i = (if i < r then xs ! i else if i = r then x else xs ! (i - 1))"
  by (auto simp: ins_at_def nth_append min_def nth_Cons')

definition new_rk :: "'k page \<Rightarrow> nat \<Rightarrow> 'k entry \<Rightarrow> nat \<Rightarrow> nat \<times> 'k" where
  "new_rk p r t i = (if i < r then rk p i else if i = r then (e_recno t, e_key t) else rk p (i - 1))"

definition new_pn :: "'k page \<Rightarrow> nat \<Rightarrow> 'k entry \<Rightarrow> nat \<Rightarrow> nat" where
  "new_pn p r t i = (if i \<le> r then pn p i else if i = r + 1 then e_pno t else pn p (i - 1))"

lemma ents_ins_at:
  "r \<le> entry_cnt p \<Longrightarrow> ins_at r (e_recno t, e_key t) (ents p) = map (new_rk p r t) [0 ..< Suc (entry_cnt p)]"
  by (rule nth_equalityI) (auto simp: nth_ins_at nth_ents new_rk_def simp del: upt_Suc)

lemma ptrs_ins_at:
  "r \<le> entry_cnt p \<Longrightarrow> ins_at (r + 1) (e_pno t) (ptrs p) = map (new_pn p r t) [0 ..< Suc (Suc (entry_cnt p))]"
  by (rule nth_equalityI) (auto simp: nth_ins_at nth_ptrs new_pn_def simp del: upt_Suc)

lemma insert_in_page_fits:
  assumes r: "r \<le> entry_cnt p" and c: "entry_cnt p < norecpp s"
    and t: "is_leaf p \<Longrightarrow> e_recno t \<noteq> 0" "\<not> is_leaf p \<Longrightarrow> e_pno t \<noteq> 0"
  obtains p' a b where
    "insert_in_page pno p r t s = (Inr (t\<lparr>e_recno := 0, e_pno := 0\<rparr>),
       s\<lparr>page_no := a, entry_no := b, disk := (disk s)(pno := p')\<rparr>)"
    and "ents p' = ins_at r (e_recno t, e_key t) (ents p)"
    and "ptrs p' = ins_at (r + 1) (e_pno t) (ptrs p)"
proof -
  let ?p = "p\<lparr>entry_cnt := entry_cnt p + 1\<rparr>"
  have "r + (entry_cnt p - r) + 1 \<le> entry_cnt ?p" using r by simp
  from move_down_app [OF this, of s] obtain p1 where 1:
    "move_down (entry_cnt p - r) r ?p s = (Inr p1, s)" "entry_cnt p1 = entry_cnt ?p"
    "rk p1 = (\<lambda>j. if r < j \<and> j \<le> r + (entry_cnt p - r) then rk ?p (j - 1) else rk ?p j)"
    "pn p1 = (\<lambda>j. if r + 1 < j \<and> j \<le> r + (entry_cnt p - r) + 1 then pn ?p (j - 1) else pn ?p j)"
    by blast
  have l: "is_leaf p1 = is_leaf p" by (simp add: is_leaf_pn 1(4))
  have "r + 1 \<le> entry_cnt p1" using r 1(2) by simp
  from insert_entry_app [OF this, of t pno s] obtain p' a b where 2:
    "insert_entry p1 pno r t s = (Inr p', s\<lparr>page_no := a, entry_no := b\<rparr>)"
    "entry_cnt p' = entry_cnt p1" "rk p' = (rk p1)(r := (e_recno t, e_key t))" "pn p' = (pn p1)(r + 1 := e_pno t)"
    using t by (auto simp: l)
  have "insert_in_page pno p r t s = (Inr (t\<lparr>e_recno := 0, e_pno := 0\<rparr>),
       s\<lparr>page_no := a, entry_no := b, disk := (disk s)(pno := p')\<rparr>)"
    using c 1(1) 2(1) by (simp add: insert_in_page_def cm_simps write_page_def)
  moreover have "ents p' = ins_at r (e_recno t, e_key t) (ents p)"
    unfolding ents_ins_at [OF r] unfolding ents_def using 1 2 r
    by (auto simp: new_rk_def simp del: upt_Suc)
  moreover have "ptrs p' = ins_at (r + 1) (e_pno t) (ptrs p)"
    unfolding ptrs_ins_at [OF r] unfolding ptrs_def using 1 2 r
    by (auto simp: new_pn_def simp del: upt_Suc)
  ultimately show ?thesis by (rule that)
qed

lemma split_page_app:
  assumes e: "entry_cnt p = e" "entry_cnt q = e - e div 2" "2 \<le> e" and r: "r \<le> e"
    and q: "is_leaf q" and rn: "e_recno t \<noteq> 0" and t: "\<not> is_leaf p \<Longrightarrow> e_pno t \<noteq> 0"
  obtains p' q' t' a b where "split_page e pno pn3 p q r t s = (Inr (p', q', t'), s\<lparr>page_no := a, entry_no := b\<rparr>)"
    and "entry_cnt p' = e" "entry_cnt q' = e - e div 2"
    and "\<And>j. j \<le> e div 2 \<Longrightarrow> rk p' j = new_rk p r t j"
    and "\<And>j. j \<le> e div 2 + 1 \<Longrightarrow> pn p' j = new_pn p r t j"
    and "\<And>j. j < e - e div 2 \<Longrightarrow> rk q' j = new_rk p r t (e div 2 + 1 + j)"
    and "\<And>j. 0 < j \<Longrightarrow> j \<le> e - e div 2 \<Longrightarrow> pn q' j = new_pn p r t (e div 2 + 1 + j)"
    and "(e_recno t', e_key t') = new_rk p r t (e div 2)"
proof -
  define n where "n = e div 2"
  have n: "n < e" "0 < n" using e(3) by (auto simp: n_def)
  have lt: "is_leaf p \<Longrightarrow> e_recno t \<noteq> 0" using rn by simp
  consider (mid) "r = n" | (low) "r < n" | (high) "n < r" by linarith
  then show ?thesis
  proof cases
    case mid
    have c: "n + (e - n) \<le> entry_cnt p" "0 + (e - n) \<le> entry_cnt q" using e n by (auto simp: n_def)
    obtain q1 where 1: "move_over (e - n) p n q 0 s = (Inr q1, s)" "entry_cnt q1 = entry_cnt q"
      "rk q1 = (\<lambda>x. if 0 \<le> x \<and> x < 0 + (e - n) then rk p (n + (x - 0)) else rk q x)"
      "pn q1 = (\<lambda>x. if 0 < x \<and> x \<le> 0 + (e - n) then pn p (n + (x - 0)) else pn q x)"
      using move_over_app [OF c, of s] by blast
    obtain p1 a b where 2: "insert_entry p pno n t s = (Inr p1, s\<lparr>page_no := a, entry_no := b\<rparr>)"
      "entry_cnt p1 = entry_cnt p" "rk p1 = (rk p)(n := (e_recno t, e_key t))" "pn p1 = (pn p)(n + 1 := e_pno t)"
      using insert_entry_app [of n p t pno s] e n lt t by auto
    have s: "split_page e pno pn3 p q r t s = (Inr (p1, q1, t), s\<lparr>page_no := a, entry_no := b\<rparr>)"
      using mid 1(1) 2(1) by (simp add: split_page_def n_def [symmetric] cm_simps Let_def)
    show ?thesis
      by (rule that [OF s]) (use mid 1 2 e n in \<open>auto simp: new_rk_def new_pn_def n_def [symmetric]\<close>)
  next
    case low
    have c: "n + (e - n) \<le> entry_cnt p" "0 + (e - n) \<le> entry_cnt q" using e n by (auto simp: n_def)
    obtain q1 where 1: "move_over (e - n) p n q 0 s = (Inr q1, s)" "entry_cnt q1 = entry_cnt q"
      "rk q1 = (\<lambda>x. if 0 \<le> x \<and> x < 0 + (e - n) then rk p (n + (x - 0)) else rk q x)"
      "pn q1 = (\<lambda>x. if 0 < x \<and> x \<le> 0 + (e - n) then pn p (n + (x - 0)) else pn q x)"
      using move_over_app [OF c, of s] by blast
    have d: "r + (n - r) + 1 \<le> entry_cnt p" using e n low by auto
    obtain p1 where 2: "move_down (n - r) r p s = (Inr p1, s)" "entry_cnt p1 = entry_cnt p"
      "rk p1 = (\<lambda>j. if r < j \<and> j \<le> r + (n - r) then rk p (j - 1) else rk p j)"
      "pn p1 = (\<lambda>j. if r + 1 < j \<and> j \<le> r + (n - r) + 1 then pn p (j - 1) else pn p j)"
      using move_down_app [OF d, of s] by blast
    have l: "is_leaf p1 = is_leaf p" by (simp add: is_leaf_pn 2(4))
    obtain p2 a b where 3: "insert_entry p1 pno r t s = (Inr p2, s\<lparr>page_no := a, entry_no := b\<rparr>)"
      "entry_cnt p2 = entry_cnt p1" "rk p2 = (rk p1)(r := (e_recno t, e_key t))" "pn p2 = (pn p1)(r + 1 := e_pno t)"
      using insert_entry_app [of r p1 t pno s] e n low lt t 2(2) by (auto simp: l)
    have s: "split_page e pno pn3 p q r t s = (Inr (p2, q1, t\<lparr>e_recno := fst (rk p2 n), e_key := snd (rk p2 n)\<rparr>),
        s\<lparr>page_no := a, entry_no := b\<rparr>)"
      using low 1(1) 2(1,2) 3(1,2) e n
      by (simp add: split_page_def n_def [symmetric] cm_simps Let_def page_reads rk_def)
    show ?thesis
      by (rule that [OF s]) (use low 1 2 3 e n in \<open>auto simp: new_rk_def new_pn_def n_def [symmetric]\<close>)
  next
    case high
    have c: "n + 1 + (r - (n + 1)) \<le> entry_cnt p" "0 + (r - (n + 1)) \<le> entry_cnt q"
      using e n r high by (auto simp: n_def)
    obtain q1 where 1: "move_over (r - (n + 1)) p (n + 1) q 0 s = (Inr q1, s)" "entry_cnt q1 = entry_cnt q"
      "rk q1 = (\<lambda>x. if 0 \<le> x \<and> x < 0 + (r - (n + 1)) then rk p (n + 1 + (x - 0)) else rk q x)"
      "pn q1 = (\<lambda>x. if 0 < x \<and> x \<le> 0 + (r - (n + 1)) then pn p (n + 1 + (x - 0)) else pn q x)"
      using move_over_app [OF c, of s] by blast
    have l: "is_leaf q1" using q by (simp add: is_leaf_pn 1(4))
    have c2: "r - n - 1 + 1 \<le> entry_cnt q1" using e n r high 1(2) unfolding n_def by linarith
    obtain q2 a b where 2: "insert_entry q1 pn3 (r - n - 1) t s = (Inr q2, s\<lparr>page_no := a, entry_no := b\<rparr>)"
      "entry_cnt q2 = entry_cnt q1" "rk q2 = (rk q1)(r - n - 1 := (e_recno t, e_key t))"
      "pn q2 = (pn q1)(r - n - 1 + 1 := e_pno t)"
      using insert_entry_app [OF c2, of t pn3 s] l rn by blast
    let ?s = "s\<lparr>page_no := a, entry_no := b\<rparr>"
    have d: "r + (e - r) \<le> entry_cnt p" "r - n + (e - r) \<le> entry_cnt q2"
      using e n r high 1(2) 2(2) by (auto simp: n_def)
    obtain q3 where 3: "move_over (e - r) p r q2 (r - n) ?s = (Inr q3, ?s)" "entry_cnt q3 = entry_cnt q2"
      "rk q3 = (\<lambda>x. if r - n \<le> x \<and> x < r - n + (e - r) then rk p (r + (x - (r - n))) else rk q2 x)"
      "pn q3 = (\<lambda>x. if r - n < x \<and> x \<le> r - n + (e - r) then pn p (r + (x - (r - n))) else pn q2 x)"
      using move_over_app [OF d, of ?s] by blast
    have s: "split_page e pno pn3 p q r t s = (Inr (p, q3, t\<lparr>e_recno := fst (rk p n), e_key := snd (rk p n)\<rparr>), ?s)"
      using high 1(1) 2(1) 3(1) e n
      by (simp add: split_page_def n_def [symmetric] cm_simps Let_def page_reads rk_def)
    show ?thesis
    proof (rule that [OF s])
      fix j
      assume j: "j < e - e div 2"
      have "r + (j - (r - n)) = n + j" if "r - n \<le> j" using that high by simp
      then show "rk q3 j = new_rk p r t (e div 2 + 1 + j)"
        using j high r 1(3) 2(3) 3(3) e n by (auto simp: new_rk_def n_def [symmetric] add.commute [of n j])
    next
      fix j
      assume j: "0 < j" "j \<le> e - e div 2"
      have "r + (j - (r - n)) = n + j" if "r - n \<le> j" using that high by simp
      then show "pn q3 j = new_pn p r t (e div 2 + 1 + j)"
        using j high r 1(4) 2(4) 3(4) e n by (auto simp: new_pn_def n_def [symmetric] add.commute [of n j])
    qed (use high 1 2 3 e n in \<open>auto simp: new_rk_def new_pn_def n_def [symmetric]\<close>)
  qed
qed

definition frame :: "'k ndx \<Rightarrow> 'k ndx \<Rightarrow> bool" where
  \<comment> \<open>what an insertion leaves alone\<close>
  "frame s s' \<longleftrightarrow> norecpp s' = norecpp s \<and> grants s' = grants s \<and> rootno s' = rootno s \<and> zero_key s' = zero_key s
     \<and> ndx_fsync s' = ndx_fsync s \<and> pagecnt s \<le> pagecnt s'"

lemma frame_refl [simp]: "frame s s"
  by (simp add: frame_def)

lemma frame_trans: "frame s s' \<Longrightarrow> frame s' s'' \<Longrightarrow> frame s s''"
  by (simp add: frame_def)

definition granted :: "'k ndx \<Rightarrow> bool" where
  "granted s \<longleftrightarrow> (\<forall>n ex. grants s n ex)"

lemma getpage_app: "granted s \<Longrightarrow> getpage n ex s = (Inr (if pagecnt s \<le> n then blank s else disk s n), s)"
  by (simp add: getpage_def granted_def cm_simps)

lemma put_hdr_app: "put_hdr s = (Inr (), s\<lparr>disk_hdr := if ndx_fsync s then (rootno s, pagecnt s) else disk_hdr s,
    w_hdr := \<not> ndx_fsync s \<or> w_hdr s\<rparr>)"
  by (simp add: put_hdr_def write_ndx_hdr_def cm_simps)

lemma put_slot_reads [simp]:
  "entry_cnt (put_slot p i e) = entry_cnt p" "rk (put_slot p i e) = (rk p)(i := (e_recno e, e_key e))"
  "pn (put_slot p i e) = (pn p)(i := e_pno e)"
  by (auto simp: put_slot_def rk_def pn_def fun_eq_iff)

lemma insert_in_page_splits:
  assumes r: "r \<le> entry_cnt p" and c: "entry_cnt p = norecpp s" "2 \<le> norecpp s" and g: "granted s"
    and rn: "e_recno t \<noteq> 0" and t: "\<not> is_leaf p \<Longrightarrow> e_pno t \<noteq> 0" and ne: "pno \<noteq> pagecnt s"
  defines "es \<equiv> ins_at r (e_recno t, e_key t) (ents p)"
    and "ps \<equiv> ins_at (r + 1) (e_pno t) (ptrs p)"
    and "n \<equiv> norecpp s div 2"
    and "m \<equiv> (if is_leaf p then norecpp s div 2 + 1 else norecpp s div 2)"
  obtains p' q' t' s' where
    "insert_in_page pno p r t s = (Inr t', s')" and "frame s s'" and "pagecnt s' = pagecnt s + 1"
    and "disk s' = (disk s)(pno := p', pagecnt s := q')"
    and "e_pno t' = pagecnt s" and "(e_recno t', e_key t') = es ! n"
    and "ents p' = take m es" and "ptrs p' = take (m + 1) ps"
    and "ents q' = drop (n + 1) es" and "ptrs q' = drop (n + 1) ps"
proof -
  define e where "e = norecpp s"
  have n: "n < e" "0 < n" "n = e div 2" using c by (auto simp: n_def e_def)
  let ?q = "(blank s)\<lparr>entry_cnt := e - n\<rparr>"
  have q: "entry_cnt ?q = e - e div 2" "is_leaf ?q" using n by (simp_all add: is_leaf_def blank_def)
  have ep: "entry_cnt p = e" "2 \<le> e" "r \<le> e" using c r by (simp_all add: e_def)
  obtain p1 q1 t1 a b where 1:
    "split_page e pno (pagecnt s) p ?q r t s = (Inr (p1, q1, t1), s\<lparr>page_no := a, entry_no := b\<rparr>)"
    "entry_cnt p1 = e" "entry_cnt q1 = e - e div 2"
    "\<And>j. j \<le> e div 2 \<Longrightarrow> rk p1 j = new_rk p r t j"
    "\<And>j. j \<le> e div 2 + 1 \<Longrightarrow> pn p1 j = new_pn p r t j"
    "\<And>j. j < e - e div 2 \<Longrightarrow> rk q1 j = new_rk p r t (e div 2 + 1 + j)"
    "\<And>j. 0 < j \<Longrightarrow> j \<le> e - e div 2 \<Longrightarrow> pn q1 j = new_pn p r t (e div 2 + 1 + j)"
    "(e_recno t1, e_key t1) = new_rk p r t (e div 2)"
    by (rule split_page_app [OF ep(1) q(1) ep(2,3) q(2) rn t, of pno "pagecnt s" s]) blast+
  let ?s1 = "s\<lparr>page_no := a, entry_no := b\<rparr>"
  let ?q1 = "put_slot q1 0 ((slot q1 0)\<lparr>e_pno := pn p1 (n + 1)\<rparr>)"
  have l: "is_leaf p1 = is_leaf p" using 1(5) [of 0] by (simp add: is_leaf_pn new_pn_def)
  have m: "m = (if is_leaf p1 then n + 1 else n)" by (simp add: l m_def n_def)
  let ?p1 = "p1\<lparr>entry_cnt := m\<rparr>"
  let ?s2 = "?s1\<lparr>pagecnt := pagecnt s + 1, disk := (disk s)(pno := ?p1, pagecnt s := ?q1)\<rparr>"
  define h where "h = (if ndx_fsync s then (rootno s, pagecnt s + 1) else disk_hdr s)"
  define w where "w = (\<not> ndx_fsync s \<or> w_hdr s)"
  have app: "insert_in_page pno p r t s = (Inr (t1\<lparr>e_pno := pagecnt s\<rparr>), ?s2\<lparr>disk_hdr := h, w_hdr := w\<rparr>)"
  proof (rule evD)
    have c: "\<not> entry_cnt p < e" "Suc n \<le> entry_cnt p1" using ep n 1(2) by simp_all
    have g1: "ev (getpage (pagecnt s) True) s = (Inr (blank s), s)" by (simp add: ev_def getpage_app [OF g])
    note g2 = evI [where m = "split_page e pno (pagecnt s) p ?q r t" and s = s, OF 1(1)]
    show "ev (insert_in_page pno p r t) s = (Inr (t1\<lparr>e_pno := pagecnt s\<rparr>), ?s2\<lparr>disk_hdr := h, w_hdr := w\<rparr>)"
      using c g1 g2 [unfolded n(3)] l
      by (simp add: arg_cong [OF insert_in_page_def, of ev] ev_basic ev_pair e_def [symmetric] n(3) [symmetric]
          arg_cong [OF ne_get_pageno_def, of ev] arg_cong [OF ne_put_pageno_def, of ev] arg_cong [OF get_entry_def, of ev]
          arg_cong [OF write_page_def, of ev] pn_def m h_def w_def
          ev_def [of put_hdr] put_hdr_app cong: ev_cong)
  qed
  have me: "m \<le> e" "m + 1 \<le> e + 2" "m \<le> n + 1" using n(1) by (auto simp: m simp del: n(3))
  have es: "es = map (new_rk p r t) [0 ..< Suc e]" using ents_ins_at [OF r, of t] ep by (simp add: es_def)
  have ps: "ps = map (new_pn p r t) [0 ..< Suc (Suc e)]" using ptrs_ins_at [OF r, of t] ep by (simp add: ps_def)
  show ?thesis
  proof (rule that [OF app])
    show "frame s (?s2\<lparr>disk_hdr := h, w_hdr := w\<rparr>)" by (simp add: frame_def)
    show "(e_recno (t1\<lparr>e_pno := pagecnt s\<rparr>), e_key (t1\<lparr>e_pno := pagecnt s\<rparr>)) = es ! n"
      using 1(8) n(1) unfolding es n(3) [symmetric] by (simp del: upt_Suc)
    show "ents ?p1 = take m es"
      by (rule nth_equalityI) (use me n(1) 1(4) in \<open>auto simp: es nth_ents n(3) [symmetric] simp del: upt_Suc\<close>)
    show "ptrs ?p1 = take (m + 1) ps"
      by (rule nth_equalityI) (use me n(1) 1(5) in \<open>auto simp: ps nth_ptrs n(3) [symmetric] simp del: upt_Suc\<close>)
    show "ents ?q1 = drop (n + 1) es"
      by (rule nth_equalityI) (use n(1) 1(3,6) in \<open>auto simp: es nth_ents rk_def [of q1, symmetric] n(3) [symmetric] simp del: upt_Suc\<close>)
    show "ptrs ?q1 = drop (n + 1) ps"
      by (rule nth_equalityI)
        (use n(1) 1(3,5,7) in \<open>auto simp: ps nth_ptrs n(3) [symmetric] simp del: upt_Suc\<close>)
  qed simp_all
qed

end
