(* ===== verification/Btree_Tree.thy ===== *)
theory Btree_Tree
  imports Btree_Insert
begin

text \<open>
  The tree that the pages of an index hold, and what btsrin and insert_new do to it. A tree lists for
  each page its number, its children and its entries; stored says that the disk holds it, wf_tree is
  its invariant, and its leaves from left to right are the entries of the index. The order of entries
  is the one of the keys, and of the record numbers where keys are equal: key_order states what is
  needed of the comparison of keys.
\<close>

section \<open>Trees of pages\<close>

datatype 'k bt =
    Lf nat "(nat \<times> 'k) list"
  | Nd nat "'k bt list" "(nat \<times> 'k) list"

primrec root_of :: "'k bt \<Rightarrow> nat" where
  "root_of (Lf n es) = n"
| "root_of (Nd n cs ss) = n"

primrec pages :: "'k bt \<Rightarrow> nat list" where
  "pages (Lf n es) = [n]"
| "pages (Nd n cs ss) = n # concat (map pages cs)"

primrec leaves :: "'k bt \<Rightarrow> (nat \<times> 'k) list" where
  "leaves (Lf n es) = es"
| "leaves (Nd n cs ss) = concat (map leaves cs)"

primrec height :: "'k bt \<Rightarrow> nat" where
  "height (Lf n es) = 1"
| "height (Nd n cs ss) = Suc (foldr max (map height cs) 0)"

fun stored :: "(nat \<Rightarrow> 'k page) \<Rightarrow> 'k bt \<Rightarrow> bool" where
  "stored d (Lf n es) \<longleftrightarrow> n \<noteq> 0 \<and> ents (d n) = es \<and> ptrs (d n) = replicate (length es + 1) 0"
| "stored d (Nd n cs ss) \<longleftrightarrow> n \<noteq> 0 \<and> ents (d n) = ss \<and> ptrs (d n) = map root_of cs \<and> (\<forall>c\<in>set cs. stored d c)"

fun wf_tree :: "nat \<Rightarrow> 'k bt \<Rightarrow> bool" where
  \<comment> \<open>e is norecpp\<close>
  "wf_tree e (Lf n es) \<longleftrightarrow> length es \<le> e \<and> (\<forall>y\<in>set es. fst y \<noteq> 0)"
| "wf_tree e (Nd n cs ss) \<longleftrightarrow> length cs = length ss + 1 \<and> length ss \<le> e \<and> (\<forall>y\<in>set ss. fst y \<noteq> 0)
     \<and> map snd ss = map (\<lambda>c. snd (last (leaves c))) (butlast cs)
     \<and> (\<forall>c\<in>set cs. leaves c \<noteq> [] \<and> wf_tree e c)"

fun shaped :: "nat \<Rightarrow> 'k bt \<Rightarrow> bool" where
  \<comment> \<open>what reading needs of a tree: the separators of an index that qindex has loaded have no record numbers\<close>
  "shaped e (Lf n es) \<longleftrightarrow> length es \<le> e \<and> (\<forall>y\<in>set es. fst y \<noteq> 0)"
| "shaped e (Nd n cs ss) \<longleftrightarrow> length cs = length ss + 1 \<and> length ss \<le> e
     \<and> map snd ss = map (\<lambda>c. snd (last (leaves c))) (butlast cs)
     \<and> (\<forall>c\<in>set cs. leaves c \<noteq> [] \<and> shaped e c)"

lemma wf_shaped: "wf_tree e t \<Longrightarrow> shaped e t"
  by (induction t) auto

lemma height_child: "c \<in> set cs \<Longrightarrow> height c \<le> foldr max (map height cs) 0"
  by (induction cs) auto

lemma root_in_pages [simp]: "root_of t \<in> set (pages t)"
  by (cases t) auto

lemma stored_root: "stored d t \<Longrightarrow> root_of t \<noteq> 0"
  by (cases t) auto

lemma stored_cong: "(\<And>n. n \<in> set (pages t) \<Longrightarrow> d' n = d n) \<Longrightarrow> stored d t \<Longrightarrow> stored d' t"
proof (induction t)
  case (Lf n es)
  then show ?case by simp
next
  case (Nd n cs ss)
  show ?case using Nd.prems by (auto intro!: Nd.IH)
qed

lemma height_le_pages: "height t \<le> length (pages t)"
proof (induction t)
  case (Lf n es)
  show ?case by simp
next
  case (Nd n cs ss)
  then have "foldr max (map height cs) 0 \<le> length (concat (map pages cs))"
    by (induction cs) (fastforce simp: max_def)+
  then show ?case by simp
qed

section \<open>The order of entries\<close>

definition side :: "('k \<Rightarrow> 'k \<Rightarrow> int) \<Rightarrow> bool \<Rightarrow> nat \<times> 'k \<Rightarrow> nat \<times> 'k \<Rightarrow> int" where
  "side kc uniq x y = (let e = kc (snd x) (snd y) in
     if e \<noteq> 0 then sgn e else if uniq then 0 else cmp_recno (fst x) (fst y))"

definition put_in :: "('k \<Rightarrow> 'k \<Rightarrow> int) \<Rightarrow> bool \<Rightarrow> nat \<times> 'k \<Rightarrow> (nat \<times> 'k) list \<Rightarrow> (nat \<times> 'k) list" where
  "put_in kc uniq x ys = takeWhile (\<lambda>y. 0 < side kc uniq x y) ys @ x # dropWhile (\<lambda>y. 0 < side kc uniq x y) ys"

definition rank :: "('k \<Rightarrow> 'k \<Rightarrow> int) \<Rightarrow> bool \<Rightarrow> nat \<times> 'k \<Rightarrow> (nat \<times> 'k) list \<Rightarrow> nat" where
  "rank kc uniq x ys = length (takeWhile (\<lambda>y. 0 < side kc uniq x y) ys)"

lemma put_in_rank: "put_in kc uniq x ys = ins_at (rank kc uniq x ys) x ys"
  unfolding put_in_def ins_at_def rank_def by (metis takeWhile_eq_take dropWhile_eq_drop)

lemma rank_Cons: "rank kc uniq x (y # ys) = (if 0 < side kc uniq x y then Suc (rank kc uniq x ys) else 0)"
  by (simp add: rank_def)

lemma side_pos_iff:
  "0 < side kc uniq (n, a) (m, b) \<longleftrightarrow> 0 < kc a b \<or> kc a b = 0 \<and> \<not> uniq \<and> m < n"
  by (auto simp: side_def cmp_recno_def Let_def sgn_if)

lemma side_zero_iff:
  "side kc uniq (n, a) (m, b) = 0 \<longleftrightarrow> kc a b = 0 \<and> (uniq \<or> m = n)"
  by (auto simp: side_def cmp_recno_def Let_def sgn_if)

section \<open>Searching one page\<close>

lemma find_slot_app:
  assumes "length E = entry_cnt p" and "\<And>r. r < entry_cnt p \<Longrightarrow> e_key (slot p r) = snd (E ! r)"
    and "\<And>r. r < entry_cnt p \<Longrightarrow> pn p r = 0 \<Longrightarrow> e_recno (slot p r) = fst (E ! r)"
    and "\<And>r. r < entry_cnt p \<Longrightarrow> pn p r \<noteq> 0 \<Longrightarrow>
      btlr f (pn p r) (e_recno t) s = (Inr (cmp_recno (e_recno t) (fst (E ! r))), s)"
    and "r + n = entry_cnt p"
  defines "x \<equiv> (e_recno t, e_key t)"
  shows "find_slot kc uniq f t p n r (pn p r) s =
    (Inr (let i = r + rank kc uniq x (drop r E) in
       if i < entry_cnt p \<and> side kc uniq x (E ! i) = 0 then None else Some (i, pn p i)), s)"
  using assms(5)
proof (induction n arbitrary: r)
  case 0
  then show ?case using assms(1) by (simp add: cm_simps rank_def Let_def)
next
  case (Suc n)
  have r: "r < entry_cnt p" "r + 1 + n = entry_cnt p" using Suc.prems by simp_all
  have d: "drop r E = E ! r # drop (r + 1) E" using r assms(1) by (simp add: Cons_nth_drop_Suc)
  have k: "e_key (slot p r) = snd (E ! r)" by (rule assms(2) [OF r(1)])
  have e: "if e_pno (slot p r) = 0 then e_recno (slot p r) = fst (E ! r)
      else btlr f (e_pno (slot p r)) (e_recno t) s = (Inr (cmp_recno (e_recno t) (fst (E ! r))), s)"
    using assms(3,4) [OF r(1)] by (simp add: pn_def)
  have c: "cmp_recno a b = 0 \<longleftrightarrow> a = b" "cmp_recno a a = 0" for a b by (simp_all add: cmp_recno_def)
  have s1: "find_slot kc uniq f t p (Suc n) r (pn p r) s = (if 0 < side kc uniq x (E ! r)
      then find_slot kc uniq f t p n (r + 1) (pn p (r + 1)) s
      else (Inr (if side kc uniq x (E ! r) = 0 then None else Some (r, pn p r)), s))"
  proof (cases "kc (e_key t) (snd (E ! r)) = 0")
    case True
    then show ?thesis using r k e
      by (cases uniq; cases "e_pno (slot p r) = 0") (simp_all add: page_reads cm_simps Let_def side_def x_def c pn_def)
  next
    case False
    then show ?thesis using r k
      by (simp add: page_reads cm_simps Let_def side_def x_def sgn_if pn_def)
  qed
  show ?case
    unfolding s1 d rank_Cons Suc.IH [OF r(2)] using r by (auto simp: Let_def)
qed


lemma page_of_leaf:
  assumes "stored d (Lf n es)"
  shows "entry_cnt (d n) = length es" and "i < length es \<Longrightarrow> rk (d n) i = es ! i"
    and "i \<le> length es \<Longrightarrow> pn (d n) i = 0" and "is_leaf (d n)"
proof -
  have es: "ents (d n) = es" and ps: "ptrs (d n) = replicate (length es + 1) 0" using assms by simp_all
  show c: "entry_cnt (d n) = length es" using es length_ents [of "d n"] by simp
  show "i < length es \<Longrightarrow> rk (d n) i = es ! i" using es c nth_ents [of i "d n"] by simp
  have p: "i \<le> length es \<Longrightarrow> pn (d n) i = 0" for i
    using ps c nth_ptrs [of i "d n"] by (simp del: replicate_Suc add: nth_replicate)
  then show "i \<le> length es \<Longrightarrow> pn (d n) i = 0" .
  show "is_leaf (d n)" using p [of 0] by (simp add: is_leaf_pn)
qed

lemma page_of_node:
  assumes "stored d (Nd n cs ss)" and "shaped e (Nd n cs ss)"
  shows "entry_cnt (d n) = length ss" and "i < length ss \<Longrightarrow> rk (d n) i = ss ! i"
    and "i \<le> length ss \<Longrightarrow> pn (d n) i = root_of (cs ! i)" and "\<not> is_leaf (d n)"
    and "i \<le> length ss \<Longrightarrow> pn (d n) i \<noteq> 0"
proof -
  have es: "ents (d n) = ss" and ps: "ptrs (d n) = map root_of cs" and l: "length cs = length ss + 1"
    and c0: "\<forall>c\<in>set cs. stored d c" using assms by simp_all
  show c: "entry_cnt (d n) = length ss" using es length_ents [of "d n"] by simp
  show "i < length ss \<Longrightarrow> rk (d n) i = ss ! i" using es c nth_ents [of i "d n"] by simp
  have p: "i \<le> length ss \<Longrightarrow> pn (d n) i = root_of (cs ! i)" for i
    using ps c l nth_ptrs [of i "d n"] by simp
  then show "i \<le> length ss \<Longrightarrow> pn (d n) i = root_of (cs ! i)" .
  show q: "i \<le> length ss \<Longrightarrow> pn (d n) i \<noteq> 0" for i
    using p [of i] c0 l stored_root [of d "cs ! i"] by simp
  show "\<not> is_leaf (d n)" using q [of 0] by (simp add: is_leaf_pn)
qed

lemma last_concat_leaves: "cs \<noteq> [] \<Longrightarrow> leaves (last cs) \<noteq> [] \<Longrightarrow> last (concat (map leaves cs)) = last (leaves (last cs))"
  by (induction cs) (auto simp: last_append)

lemma last_leaf_app:
  assumes "stored (disk s) t" and "shaped e t" and "height t \<le> f" and "granted s"
    and "\<forall>n\<in>set (pages t). n < pagecnt s" and "leaves t \<noteq> []"
  shows "\<exists>q. last_leaf f (disk s (root_of t)) s = (Inr q, s) \<and> ents q \<noteq> [] \<and> last (ents q) = last (leaves t)"
  using assms
proof (induction t arbitrary: f)
  case (Lf n es)
  then obtain f' where f: "f = Suc f'" by (cases f) auto
  show ?case using Lf.prems page_of_leaf(4) [OF Lf.prems(1)] by (simp add: f cm_simps)
next
  case (Nd n cs ss)
  then obtain f' where f: "f = Suc f'" by (cases f) auto
  let ?c = "last cs"
  have l: "length cs = length ss + 1" using Nd.prems(2) by simp
  then have "cs \<noteq> []" by auto
  then have cs: "cs \<noteq> []" "?c \<in> set cs" "?c = cs ! length ss" using l by (simp_all add: last_conv_nth)
  have h: "height ?c \<le> f'" using Nd.prems(3) height_child [OF cs(2)] by (simp add: f)
  have "\<exists>q. last_leaf f' (disk s (root_of ?c)) s = (Inr q, s) \<and> ents q \<noteq> [] \<and> last (ents q) = last (leaves ?c)"
    by (rule Nd.IH [OF cs(2)]) (use Nd.prems cs(2) h in auto)
  then obtain q where q: "last_leaf f' (disk s (root_of ?c)) s = (Inr q, s)" "ents q \<noteq> []" "last (ents q) = last (leaves ?c)"
    by blast
  note pg = page_of_node [OF Nd.prems(1,2)]
  have pc: "root_of ?c < pagecnt s" using Nd.prems(5) cs(2) by auto
  have "e_pno (slot (disk s n) (length ss)) = root_of ?c"
    using pg(3) [of "length ss"] by (simp add: pn_def cs(3))
  then have "last_leaf f (disk s (root_of (Nd n cs ss))) s = (Inr q, s)"
    using pg(4) q(1) pc Nd.prems(4)
    by (simp add: f cm_simps page_reads pg(1) getpage_app)
  moreover have "last (leaves (Nd n cs ss)) = last (leaves ?c)"
    using Nd.prems(2) cs by (simp add: last_concat_leaves)
  ultimately show ?case using q(2,3) by auto
qed

lemma btlr_app:
  assumes "stored (disk s) t" and "shaped e t" and "height t \<le> f" and "granted s"
    and "\<forall>n\<in>set (pages t). n < pagecnt s" and "leaves t \<noteq> []"
  shows "btlr f (root_of t) rn s = (Inr (cmp_recno rn (fst (last (leaves t)))), s)"
proof -
  obtain q where q: "last_leaf f (disk s (root_of t)) s = (Inr q, s)" "ents q \<noteq> []" "last (ents q) = last (leaves t)"
    using last_leaf_app [OF assms] by blast
  have "root_of t < pagecnt s" using assms(5) root_in_pages [of t] by blast
  moreover have c: "entry_cnt q \<noteq> 0" using q(2) length_ents [of q] by (metis length_0_conv)
  moreover have "last (ents q) = rk q (entry_cnt q - 1)" using c q(2) by (simp add: last_conv_nth nth_ents)
  ultimately show ?thesis
    using q(1,3) assms(4) by (simp add: btlr_def cm_simps getpage_app page_reads rk_def)
qed


section \<open>Sorted entries\<close>

definition sorted_ents :: "('k \<Rightarrow> 'k \<Rightarrow> int) \<Rightarrow> (nat \<times> 'k) list \<Rightarrow> bool" where
  "sorted_ents kc = sorted_wrt (\<lambda>y z. side kc False y z < 0)"

lemma cmp_recno_swap: "cmp_recno b a = - cmp_recno a b"
  by (simp add: cmp_recno_def)

lemma rank_le: "rank kc uniq x ys \<le> length ys"
  by (simp add: rank_def length_takeWhile_le)

lemma rank_below: "i < rank kc uniq x ys \<Longrightarrow> 0 < side kc uniq x (ys ! i)"
  unfolding rank_def by (metis nth_mem set_takeWhileD takeWhile_nth)

lemma rank_stop: "rank kc uniq x ys < length ys \<Longrightarrow> side kc uniq x (ys ! rank kc uniq x ys) \<le> 0"
  unfolding rank_def by (metis leI nth_length_takeWhile)

lemma put_in_mid:
  assumes "\<And>y. y \<in> set A \<Longrightarrow> 0 < side kc uniq x y" and "\<And>y. y \<in> set C \<Longrightarrow> side kc uniq x y < 0"
  shows "put_in kc uniq x (A @ B @ C) = A @ put_in kc uniq x B @ C"
proof -
  have "takeWhile (\<lambda>y. 0 < side kc uniq x y) C = []" "dropWhile (\<lambda>y. 0 < side kc uniq x y) C = C"
    using assms(2) by (cases C; force)+
  moreover have "\<forall>y\<in>set A. 0 < side kc uniq x y" using assms(1) by blast
  ultimately show ?thesis
    by (cases "\<forall>y\<in>set B. 0 < side kc uniq x y")
      (auto simp: put_in_def takeWhile_append2 dropWhile_append2 takeWhile_append1 dropWhile_append1
        takeWhile_eq_all_conv [THEN iffD2] dropWhile_eq_Nil_conv)
qed

lemma last_put_in:
  assumes "ys \<noteq> []" and "side kc uniq x (last ys) < 0"
  shows "last (put_in kc uniq x ys) = last ys"
proof -
  let ?P = "\<lambda>y. 0 < side kc uniq x y"
  have d: "dropWhile ?P ys \<noteq> []"
    using assms last_in_set [OF assms(1)] unfolding dropWhile_eq_Nil_conv by (metis less_asym)
  have "last ys = last (takeWhile ?P ys @ dropWhile ?P ys)" by simp
  also have "\<dots> = last (dropWhile ?P ys)" using d by (rule last_appendR)
  finally show ?thesis using d by (simp add: put_in_def del: dropWhile_eq_Nil_conv)
qed

locale key_order =
  fixes kc :: "'k \<Rightarrow> 'k \<Rightarrow> int" and K :: "'k set"
  assumes kc_swap: "a \<in> K \<Longrightarrow> b \<in> K \<Longrightarrow> sgn (kc b a) = - sgn (kc a b)"
    and kc_trans: "a \<in> K \<Longrightarrow> b \<in> K \<Longrightarrow> c \<in> K \<Longrightarrow> kc a b \<le> 0 \<Longrightarrow> kc b c \<le> 0 \<Longrightarrow> kc a c \<le> 0"
begin

lemma kc_swap_iff:
  assumes "a \<in> K" and "b \<in> K"
  shows "kc b a \<le> 0 \<longleftrightarrow> 0 \<le> kc a b" "kc b a < 0 \<longleftrightarrow> 0 < kc a b" "kc b a = 0 \<longleftrightarrow> kc a b = 0"
  using kc_swap [OF assms] by (auto simp: sgn_if split: if_splits)

lemma side_swap: "snd x \<in> K \<Longrightarrow> snd y \<in> K \<Longrightarrow> side kc False y x = - side kc False x y"
  using kc_swap_iff [of "snd x" "snd y"] kc_swap [of "snd x" "snd y"]
  by (auto simp: side_def Let_def cmp_recno_swap [of "fst x" "fst y"])

lemma side_mono:
  assumes "snd x \<in> K" and "snd y \<in> K" and "snd z \<in> K" and "side kc False y z < 0"
  shows "side kc uniq x z \<le> side kc uniq x y"
proof -
  let ?x = "snd x" and ?y = "snd y" and ?z = "snd z"
  have yz: "kc ?y ?z \<le> 0" "kc ?y ?z = 0 \<Longrightarrow> fst y < fst z"
    using assms(4) by (auto simp: side_def Let_def cmp_recno_def sgn_if split: if_splits)
  have neg: "kc ?x ?z < 0" if "kc ?x ?y < 0"
    using that yz(1) kc_trans [of ?y ?z ?x] kc_swap_iff assms(1-3) by (meson leI not_le)
  have zero: "kc ?x ?z \<le> 0" if "kc ?x ?y = 0"
    using that yz(1) kc_trans [of ?x ?y ?z] assms(1-3) by simp
  have both: "fst y < fst z" if "kc ?x ?y = 0" "kc ?x ?z = 0"
    using that yz kc_trans [of ?z ?x ?y] kc_swap_iff assms(1-3) by (metis order_antisym order_refl)
  consider "0 < kc ?x ?y" | "kc ?x ?y = 0" | "kc ?x ?y < 0" by linarith
  then show ?thesis
  proof cases
    case 1
    then show ?thesis by (auto simp: side_def Let_def cmp_recno_def sgn_if)
  next
    case 2
    then show ?thesis using zero both by (auto simp: side_def Let_def cmp_recno_def sgn_if)
  next
    case 3
    then show ?thesis using neg by (simp add: side_def Let_def)
  qed
qed

lemma side_nth_mono:
  assumes "sorted_ents kc ys" and "snd ` set (x # ys) \<subseteq> K" and "i \<le> j" and "j < length ys"
  shows "side kc uniq x (ys ! j) \<le> side kc uniq x (ys ! i)"
proof (cases "i = j")
  case False
  then have "side kc False (ys ! i) (ys ! j) < 0"
    using assms(1,3,4) by (simp add: sorted_ents_def sorted_wrt_iff_nth_less)
  then show ?thesis using assms by (intro side_mono) (auto simp: image_subset_iff)
qed simp

lemma clash_iff_rank:
  assumes "sorted_ents kc ys" and "snd ` set (x # ys) \<subseteq> K"
  shows "(\<exists>y\<in>set ys. side kc uniq x y = 0)
    \<longleftrightarrow> rank kc uniq x ys < length ys \<and> side kc uniq x (ys ! rank kc uniq x ys) = 0" (is "?l \<longleftrightarrow> ?r")
proof
  let ?k = "rank kc uniq x ys"
  assume ?l
  then obtain i where i: "i < length ys" "side kc uniq x (ys ! i) = 0" by (auto simp: in_set_conv_nth)
  then have "?k \<le> i" using rank_below [of i kc uniq x ys] by (cases "?k \<le> i") auto
  then show ?r using side_nth_mono [OF assms, of ?k i uniq] i rank_stop [of kc uniq x ys] by simp
qed auto

lemma sorted_put_in:
  assumes "sorted_ents kc ys" and "snd ` set (x # ys) \<subseteq> K" and "\<And>y. y \<in> set ys \<Longrightarrow> side kc uniq x y \<noteq> 0"
  shows "sorted_ents kc (put_in kc uniq x ys)"
proof -
  let ?P = "\<lambda>y. 0 < side kc uniq x y"
  have up: "side kc False y x < 0" if "y \<in> set ys" "?P y" for y
  proof -
    have "0 < side kc False x y"
      using that by (auto simp: side_def Let_def split: if_splits)
    then show ?thesis using side_swap [of x y] assms(2) that(1) by auto
  qed
  have lo: "side kc False x y < 0" if y: "y \<in> set (dropWhile ?P ys)" for y
  proof -
    obtain i where i: "rank kc uniq x ys \<le> i" "i < length ys" "y = ys ! i"
    proof -
      have "y \<in> set (drop (rank kc uniq x ys) ys)" using y unfolding rank_def dropWhile_eq_drop .
      then obtain j where "j < length ys - rank kc uniq x ys" "y = ys ! (rank kc uniq x ys + j)"
        using rank_le [of kc uniq x ys] by (auto simp: in_set_conv_nth)
      then show ?thesis by (intro that [of "rank kc uniq x ys + j"]) auto
    qed
    then have "side kc uniq x y \<le> 0"
      using side_nth_mono [OF assms(1,2) i(1,2), of uniq] rank_stop [of kc uniq x ys] by simp
    then have "side kc uniq x y < 0" using assms(3) [of y] i by simp
    then show ?thesis by (auto simp: side_def Let_def split: if_splits)
  qed
  have tw: "\<And>y. y \<in> set (takeWhile ?P ys) \<Longrightarrow> side kc False y x < 0"
    using up by (meson set_takeWhileD)
  have "sorted_wrt (\<lambda>y z. side kc False y z < 0) (takeWhile ?P ys @ dropWhile ?P ys)"
    using assms(1) by (simp add: sorted_ents_def)
  then show ?thesis
    using tw lo unfolding sorted_ents_def put_in_def sorted_wrt_append by simp
qed

end

end
