(* ===== verification/Btree_Refines.thy ===== *)
theory Btree_Refines
  imports Btree_Tree
begin

text \<open>
  Inserting into an index refines inserting into the sorted list of its entries: btsrin by induction
  over the tree, insert_new for a whole index.
\<close>

section \<open>One page of a tree\<close>

definition became :: "'k ndx \<Rightarrow> nat set \<Rightarrow> nat \<Rightarrow> 'k ndx \<Rightarrow> 'k bt list \<Rightarrow> 'k entry \<Rightarrow> bool" where
  \<comment> \<open>the tree with the root page r0 on the pages P became the one or two trees ts, and t is what the caller has
    still to insert\<close>
  "became s P r0 s' ts t \<longleftrightarrow> frame s s' \<and> (\<forall>m. m < pagecnt s \<longrightarrow> m \<notin> P \<longrightarrow> disk s' m = disk s m)
     \<and> (\<forall>c\<in>set ts. stored (disk s') c \<and> wf_tree (norecpp s) c \<and> leaves c \<noteq> [])
     \<and> distinct (concat (map pages ts)) \<and> set (concat (map pages ts)) \<subseteq> P \<union> {pagecnt s ..< pagecnt s'}
     \<and> ((\<exists>l. ts = [l] \<and> root_of l = r0 \<and> e_recno t = 0 \<and> e_pno t = 0)
      \<or> (\<exists>l r. ts = [l, r] \<and> root_of l = r0 \<and> e_recno t \<noteq> 0 \<and> e_pno t = root_of r \<and> e_key t = snd (last (leaves l))))"

lemma ins_at_replicate: "k \<le> m \<Longrightarrow> ins_at k a (replicate m a) = replicate (Suc m) a"
  by (rule nth_equalityI) (auto simp: nth_ins_at nth_Cons')

lemma set_ins_at: "set (ins_at k a xs) = insert a (set xs)"
  by (simp add: ins_at_def) (metis append_take_drop_id set_append)

lemma last_take_Suc: "k < length xs \<Longrightarrow> last (take (Suc k) xs) = xs ! k"
  by (simp add: take_Suc_conv_app_nth)

lemma leaf_insert:
  assumes st: "stored (disk s) (Lf n es)" and wf: "wf_tree (norecpp s) (Lf n es)" and e: "2 \<le> norecpp s"
    and g: "granted s" and n: "n < pagecnt s" and r: "r \<le> length es" and t: "e_recno t \<noteq> 0" "e_pno t = 0"
  shows "\<exists>s' t' ts. insert_in_page n (disk s n) r t s = (Inr t', s') \<and> became s {n} n s' ts t'
    \<and> concat (map leaves ts) = ins_at r (e_recno t, e_key t) es"
proof -
  let ?p = "disk s n" and ?x = "(e_recno t, e_key t)"
  let ?es = "ins_at r ?x es"
  have p: "entry_cnt ?p = length es" "is_leaf ?p" using page_of_leaf [OF st] by simp_all
  have l: "ents ?p = es" "ptrs ?p = replicate (length es + 1) 0" "n \<noteq> 0" using st by simp_all
  have ps: "ins_at (r + 1) (e_pno t) (ptrs ?p) = replicate (length es + 2) 0"
    using ins_at_replicate [of "r + 1" "length es + 1" "0::nat"] r t(2) l(2) by simp
  have nz: "\<forall>y\<in>set ?es. fst y \<noteq> 0" using wf t(1) by (auto simp: set_ins_at)
  have ne: "n \<noteq> pagecnt s" using n by simp
  show ?thesis
  proof (cases "length es < norecpp s")
    case True
    obtain p' a b where 1: "insert_in_page n ?p r t s = (Inr (t\<lparr>e_recno := 0, e_pno := 0\<rparr>),
       s\<lparr>page_no := a, entry_no := b, disk := (disk s)(n := p')\<rparr>)" "ents p' = ins_at r ?x (ents ?p)"
      "ptrs p' = ins_at (r + 1) (e_pno t) (ptrs ?p)"
      by (rule insert_in_page_fits [of r ?p s t n]) (use True p r t in auto)
    have "became s {n} n (s\<lparr>page_no := a, entry_no := b, disk := (disk s)(n := p')\<rparr>) [Lf n ?es] (t\<lparr>e_recno := 0, e_pno := 0\<rparr>)"
      unfolding became_def using 1(2) 1(3) [unfolded ps] l nz True by (auto simp: frame_def simp flip: length_greater_0_conv)
    then show ?thesis using 1(1) by (intro exI conjI) auto
  next
    case False
    then have c: "length es = norecpp s" using wf by simp
    let ?n = "norecpp s div 2"
    obtain p' q' t' s' where 1: "insert_in_page n ?p r t s = (Inr t', s')" "frame s s'" "pagecnt s' = pagecnt s + 1"
      "disk s' = (disk s)(n := p', pagecnt s := q')" "e_pno t' = pagecnt s" "(e_recno t', e_key t') = ?es ! ?n"
      "ents p' = take (?n + 1) ?es" "ptrs p' = take (?n + 2) (replicate (length es + 2) 0)"
      "ents q' = drop (?n + 1) ?es" "ptrs q' = drop (?n + 1) (replicate (length es + 2) 0)"
      by (rule insert_in_page_splits [of r ?p s t n]) (use c p r t e g ne l ps in auto)
    have m: "?n < norecpp s" "?n + 1 \<le> length ?es" using e c by simp_all
    let ?l = "Lf n (take (?n + 1) ?es)" and ?r = "Lf (pagecnt s) (drop (?n + 1) ?es)"
    have L: "last (take (?n + 1) ?es) = ?es ! ?n" using m by (simp add: last_take_Suc)
    have "stored (disk s') ?l" "stored (disk s') ?r" using 1(4,7-10) l(3) ne n m c by (auto simp del: replicate_Suc)
    moreover have "wf_tree (norecpp s) ?l" "wf_tree (norecpp s) ?r"
      using m c nz by (auto dest: in_set_takeD in_set_dropD)
    moreover have "leaves ?l \<noteq> []" "leaves ?r \<noteq> []" using m c by (auto simp: ins_at_def)
    moreover have "e_recno t' \<noteq> 0" "e_key t' = snd (?es ! ?n)"
      using 1(6) nz m(2) by (metis Suc_eq_plus1 Suc_le_eq fst_conv nth_mem, metis snd_conv)
    ultimately have "became s {n} n s' [?l, ?r] t'"
      unfolding became_def using 1(2-5) ne n L by auto
    then show ?thesis using 1(1) by (intro exI conjI) auto
  qed
qed

lemma node_insert:
  assumes st: "\<And>c. c \<in> set cs \<Longrightarrow> stored (disk s) c" and wf: "\<And>c. c \<in> set cs \<Longrightarrow> wf_tree (norecpp s) c \<and> leaves c \<noteq> []"
    and d: "distinct (n # concat (map pages cs))" and lt: "\<And>m. m \<in> set (n # concat (map pages cs)) \<Longrightarrow> m < pagecnt s"
    and e: "2 \<le> norecpp s" and g: "granted s" and n: "n \<noteq> 0" and ss: "ents (disk s n) = ss" "length ss \<le> norecpp s"
    and i: "i \<le> length ss" and l: "length cs = length ss + 2"
    and ps: "map root_of cs = ins_at (i + 1) (e_pno t) (ptrs (disk s n))" and nl: "\<not> is_leaf (disk s n)"
    and t: "e_recno t \<noteq> 0" "e_pno t \<noteq> 0" and nz: "\<And>y. y \<in> set ss \<Longrightarrow> fst y \<noteq> 0"
    and k: "map snd (ins_at i (e_recno t, e_key t) ss) = map (\<lambda>c. snd (last (leaves c))) (butlast cs)"
  shows "\<exists>s' t' ts. insert_in_page n (disk s n) i t s = (Inr t', s')
    \<and> became s (insert n (set (concat (map pages cs)))) n s' ts t' \<and> concat (map leaves ts) = concat (map leaves cs)"
proof -
  let ?p = "disk s n" and ?P = "insert n (set (concat (map pages cs)))"
  define ss' where "ss' = ins_at i (e_recno t, e_key t) ss"
  let ?f = "\<lambda>c. snd (last (leaves c))"
  have p: "entry_cnt ?p = length ss" using ss(1) length_ents [of ?p] by simp
  have nz': "\<forall>y\<in>set ss'. fst y \<noteq> 0" using nz t(1) by (auto simp: ss'_def set_ins_at)
  have ne: "n \<noteq> pagecnt s" using lt [of n] by simp
  have l': "length ss' = length ss + 1" by (simp add: ss'_def)
  have new: "pagecnt s \<notin> set (pages c)" "n \<notin> set (pages c)" if "c \<in> set cs" for c
    using that lt [of "pagecnt s"] d by auto
  show ?thesis
  proof (cases "length ss < norecpp s")
    case True
    obtain p' a b where 1: "insert_in_page n ?p i t s = (Inr (t\<lparr>e_recno := 0, e_pno := 0\<rparr>),
       s\<lparr>page_no := a, entry_no := b, disk := (disk s)(n := p')\<rparr>)" "ents p' = ins_at i (e_recno t, e_key t) (ents ?p)"
      "ptrs p' = ins_at (i + 1) (e_pno t) (ptrs ?p)"
      by (rule insert_in_page_fits [of i ?p s t n]) (use True p i t in auto)
    let ?s' = "s\<lparr>page_no := a, entry_no := b, disk := (disk s)(n := p')\<rparr>"
    let ?t = "Nd n cs ss'"
    have "stored (disk ?s') c" if "c \<in> set cs" for c
      by (rule stored_cong [OF _ st [OF that]]) (use new [OF that] in auto)
    then have "stored (disk ?s') ?t" using 1(2,3) n ps ss(1) by (simp add: ss'_def)
    moreover have "wf_tree (norecpp s) ?t" using l l' True nz' wf k by (auto simp: ss'_def)
    moreover have "leaves ?t \<noteq> []" using wf l by (cases cs) auto
    ultimately have "became s ?P n ?s' [?t] (t\<lparr>e_recno := 0, e_pno := 0\<rparr>)"
      unfolding became_def using d by (auto simp: frame_def)
    moreover have "concat (map leaves [?t]) = concat (map leaves cs)" by simp
    ultimately show ?thesis using 1(1) by blast
  next
    case False
    then have c: "length ss = norecpp s" using ss(2) by simp
    define m where "m = norecpp s div 2"
    obtain p' q' t' s' where 1: "insert_in_page n ?p i t s = (Inr t', s')" "frame s s'" "pagecnt s' = pagecnt s + 1"
      "disk s' = (disk s)(n := p', pagecnt s := q')" "e_pno t' = pagecnt s" "(e_recno t', e_key t') = ss' ! m"
      "ents p' = take m ss'" "ptrs p' = take (m + 1) (map root_of cs)"
      "ents q' = drop (m + 1) ss'" "ptrs q' = drop (m + 1) (map root_of cs)"
      by (rule insert_in_page_splits [of i ?p s t n]) (use c p i t e g ne nl ps ss in \<open>auto simp: m_def ss'_def\<close>)
    have m: "m < length ss'" "m + 1 < length cs" "length cs = length ss' + 1" using e c l l' by (simp_all add: m_def)
    define L where "L = Nd n (take (m + 1) cs) (take m ss')"
    define R where "R = Nd (pagecnt s) (drop (m + 1) cs) (drop (m + 1) ss')"
    have "stored (disk s') c" if "c \<in> set cs" for c
      by (rule stored_cong [OF _ st [OF that]]) (use new [OF that] 1(4) in auto)
    then have sL: "stored (disk s') L" "stored (disk s') R"
      using 1(4,7-10) n ne lt [of n] by (auto simp: L_def R_def take_map drop_map dest: in_set_takeD in_set_dropD)
    have k': "map snd ss' = map ?f (butlast cs)" using k by (simp add: ss'_def)
    have kL: "map snd (take m ss') = map ?f (butlast (take (m + 1) cs))"
      using m arg_cong [OF k', of "take m"] by (simp add: take_map butlast_take take_butlast)
    have kR: "map snd (drop (m + 1) ss') = map ?f (butlast (drop (m + 1) cs))"
      using arg_cong [OF k', of "drop (m + 1)"] by (simp add: drop_map drop_butlast)
    have wL: "wf_tree (norecpp s) L" "wf_tree (norecpp s) R"
      using wf nz' kL kR m l l' c e unfolding L_def R_def wf_tree.simps
      by (auto simp: m_def dest: in_set_takeD in_set_dropD)
    have in_cs: "cs ! m \<in> set cs" "last cs \<in> set cs" using m by (simp, intro last_in_set) auto
    have tk: "last (take (m + 1) cs) = cs ! m" "take (m + 1) cs \<noteq> []" using m by (auto simp: last_take_Suc)
    then have in_tk: "cs ! m \<in> set (take (m + 1) cs)" by (metis last_in_set)
    have "last (leaves L) = last (leaves (cs ! m))"
      using tk wf [OF in_cs(1)] last_concat_leaves [of "take (m + 1) cs"] by (simp add: L_def)
    moreover have "leaves L \<noteq> []" using in_tk wf [OF in_cs(1)] by (auto simp: L_def)
    moreover have "leaves R \<noteq> []" 
    proof -
      have "last (drop (m + 1) cs) = last cs" "drop (m + 1) cs \<noteq> []" using m by simp_all
      then have "last cs \<in> set (drop (m + 1) cs)" by (metis last_in_set)
      then show ?thesis using wf [OF in_cs(2)] by (auto simp: R_def)
    qed
    moreover have "?f (cs ! m) = snd (ss' ! m)"
      using arg_cong [OF k', of "\<lambda>xs. xs ! m"] m by (simp add: nth_butlast)
    moreover have "e_recno t' \<noteq> 0" "e_key t' = snd (ss' ! m)"
      using 1(6) nz' m(1) by (metis fst_conv nth_mem, metis snd_conv)
    moreover have D: "concat (map pages cs) = concat (map pages (take (m + 1) cs)) @ concat (map pages (drop (m + 1) cs))"
      by (simp flip: concat_append map_append)
    moreover have "distinct (pages L @ pages R)" "set (pages L @ pages R) = insert (pagecnt s) ?P"
      using d lt [of "pagecnt s"] by (auto simp: L_def R_def D)
    ultimately have "became s ?P n s' [L, R] t'"
      unfolding became_def using 1(2-5) sL wL by (auto simp: L_def R_def D)
    moreover have "concat (map leaves [L, R]) = concat (map leaves cs)"
      by (simp add: L_def R_def flip: concat_append map_append)
    ultimately show ?thesis using 1(1) by blast
  qed
qed

section \<open>One child of a tree\<close>

lemma concat_split: "i < length xss \<Longrightarrow> concat xss = concat (take i xss) @ xss ! i @ concat (drop (Suc i) xss)"
  by (metis append_Cons concat.simps(2) concat_append id_take_nth_drop)

lemma sorted_wrt_concat:
  assumes "sorted_wrt P (concat xss)" and "i < j" and "j < length xss" and "u \<in> set (xss ! i)" and "v \<in> set (xss ! j)"
  shows "P u v"
proof -
  have "take j xss ! i = xss ! i" "i < length (take j xss)" using assms(2,3) by simp_all
  then have "xss ! i \<in> set (take j xss)" by (metis nth_mem)
  then have "u \<in> set (concat (take j xss))" using assms(4) by auto
  then show ?thesis
    using assms(1,5) unfolding concat_split [OF assms(3)] by (auto simp: sorted_wrt_append)
qed

lemma distinct_replace:
  assumes "distinct (n # A @ Y @ C)" and "distinct X" and "set X \<subseteq> set Y \<union> N" and "N \<inter> set (n # A @ Y @ C) = {}"
  shows "distinct (n # A @ X @ C)"
  using assms by auto

lemma child_replaced:
  assumes st: "stored (disk s) (Nd n cs ss)" and wf: "wf_tree (norecpp s) (Nd n cs ss)"
    and d: "distinct (pages (Nd n cs ss))" and lt: "\<And>m. m \<in> set (pages (Nd n cs ss)) \<Longrightarrow> m < pagecnt s"
    and i: "i < length cs" and b: "became s (set (pages (cs ! i))) (root_of (cs ! i)) s1 ts t1"
  defines "cs' \<equiv> take i cs @ ts @ drop (Suc i) cs"
  shows "c \<in> set cs' \<Longrightarrow> stored (disk s1) c" and "c \<in> set cs' \<Longrightarrow> wf_tree (norecpp s) c \<and> leaves c \<noteq> []"
    and "distinct (n # concat (map pages cs'))"
    and "set (n # concat (map pages cs')) \<subseteq> set (pages (Nd n cs ss)) \<union> {pagecnt s ..< pagecnt s1}"
    and "disk s1 n = disk s n"
proof -
  let ?A = "concat (map pages (take i cs))" and ?C = "concat (map pages (drop (Suc i) cs))"
  have P: "concat (map pages cs) = ?A @ pages (cs ! i) @ ?C"
    using concat_split [of i "map pages cs"] i by (simp add: take_map drop_map)
  have P': "concat (map pages cs') = ?A @ concat (map pages ts) @ ?C" by (simp add: cs'_def)
  have old: "\<forall>m. m < pagecnt s \<longrightarrow> m \<notin> set (pages (cs ! i)) \<longrightarrow> disk s1 m = disk s m"
    and new: "\<forall>c\<in>set ts. stored (disk s1) c \<and> wf_tree (norecpp s) c \<and> leaves c \<noteq> []"
    and dt: "distinct (concat (map pages ts))"
    and sub: "set (concat (map pages ts)) \<subseteq> set (pages (cs ! i)) \<union> {pagecnt s ..< pagecnt s1}"
    using b unfolding became_def by blast+
  have dis: "distinct (n # ?A @ pages (cs ! i) @ ?C)" using d by (simp only: pages.simps P)
  have lt': "\<And>m. m \<in> set (n # ?A @ pages (cs ! i) @ ?C) \<Longrightarrow> m < pagecnt s" using lt by (simp only: pages.simps P)
  have rest: "stored (disk s1) c \<and> wf_tree (norecpp s) c \<and> leaves c \<noteq> []" if c: "c \<in> set (take i cs) \<union> set (drop (Suc i) cs)" for c
  proof -
    have cc: "c \<in> set cs" using c by (auto dest: in_set_takeD in_set_dropD)
    have "disk s1 m = disk s m" if "m \<in> set (pages c)" for m
    proof -
      have m: "m \<in> set (?A @ ?C)" using c that by auto
      then have "m \<notin> set (pages (cs ! i))" using dis by auto
      moreover have "m < pagecnt s" by (rule lt') (use m in auto)
      ultimately show ?thesis using old by blast
    qed
    then have "stored (disk s1) c" using st cc by (intro stored_cong [of c "disk s1" "disk s"]) auto
    then show ?thesis using wf cc by simp
  qed
  show "c \<in> set cs' \<Longrightarrow> stored (disk s1) c" "c \<in> set cs' \<Longrightarrow> wf_tree (norecpp s) c \<and> leaves c \<noteq> []"
    using rest new by (auto simp: cs'_def)
  show "distinct (n # concat (map pages cs'))"
    unfolding P'
  proof (rule distinct_replace [OF dis dt sub])
    show "{pagecnt s ..< pagecnt s1} \<inter> set (n # ?A @ pages (cs ! i) @ ?C) = {}"
      using lt' by (meson atLeastLessThan_iff disjoint_iff leD)
  qed
  show "set (n # concat (map pages cs')) \<subseteq> set (pages (Nd n cs ss)) \<union> {pagecnt s ..< pagecnt s1}"
    using sub unfolding P' pages.simps P by auto
  show "disk s1 n = disk s n" using old dis lt' [of n] by auto
qed

lemma keys_one:
  assumes "map snd ss = map F (butlast cs)" and "length cs = length ss + 1" and "i \<le> length ss"
    and "i < length ss \<Longrightarrow> F l = F (cs ! i)"
  shows "map snd ss = map F (butlast (take i cs @ [l] @ drop (Suc i) cs))"
proof (cases "i = length ss")
  case True
  then show ?thesis using assms(1,2) by (simp add: butlast_append butlast_conv_take)
next
  case False
  then have i: "i < length ss" using assms(3) by simp
  have "map F (butlast cs) = map F (take i (butlast cs)) @ F (butlast cs ! i) # map F (drop (Suc i) (butlast cs))"
    using i assms(2) by (metis (no_types, lifting) add_diff_cancel_right' id_take_nth_drop length_butlast list.simps(9) map_append)
  then show ?thesis
    using i assms(1,2,4) by (simp add: butlast_append take_butlast drop_butlast nth_butlast)
qed

lemma keys_two:
  assumes "map snd ss = map F (butlast cs)" and "length cs = length ss + 1" and "i \<le> length ss"
    and "i < length ss \<Longrightarrow> F r = F (cs ! i)" and "k = F l"
  shows "map snd (ins_at i (m, k) ss) = map F (butlast (take i cs @ [l, r] @ drop (Suc i) cs))"
proof -
  have "map snd (ins_at i (m, k) ss) = ins_at i (F l) (map F (butlast cs))"
    using assms(1,5) by (simp add: ins_at_def flip: take_map drop_map)
  also have "\<dots> = map F (butlast (take i cs @ [l, r] @ drop (Suc i) cs))"
  proof (cases "i = length ss")
    case True
    then show ?thesis using assms(2) by (simp add: ins_at_def butlast_append butlast_conv_take)
  next
    case False
    then have i: "i < length (butlast cs)" "i < length ss" using assms(2,3) by simp_all
    have "drop i (butlast cs) = cs ! i # drop (Suc i) (butlast cs)"
      using Cons_nth_drop_Suc [OF i(1)] nth_butlast [OF i(1)] by simp
    then show ?thesis
      using i assms(2,4) by (simp add: ins_at_def butlast_append take_butlast drop_butlast take_map drop_map)
  qed
  finally show ?thesis .
qed

section \<open>The place of an entry\<close>

definition seps :: "'k bt list \<Rightarrow> (nat \<times> 'k) list" where
  \<comment> \<open>what the search compares with in an inner page\<close>
  "seps cs = map (\<lambda>c. last (leaves c)) (butlast cs)"

lemma btsrin_step:
  assumes "granted s" and "pno \<noteq> 0" and "pno < pagecnt s"
    and "find_slot kc uniq f t (disk s pno) (entry_cnt (disk s pno)) 0 (pn (disk s pno) 0) s = (Inr res, s)"
  shows "btsrin kc uniq (Suc f) pno t s = (case res of
      None \<Rightarrow> (Inr (db_no DUPKEY, t), s)
    | Some (r, pn3) \<Rightarrow> (case btsrin kc uniq f pn3 t s of
        (Inl e, s') \<Rightarrow> (Inl e, s')
      | (Inr (rc, t'), s') \<Rightarrow>
          if rc \<noteq> 0 then (Inr (rc, t'), s')
          else if e_recno t' \<noteq> 0 \<or> e_pno t' \<noteq> 0 then
            (case insert_in_page pno (disk s pno) r t' s' of (Inl e, s'') \<Rightarrow> (Inl e, s'') | (Inr t'', s'') \<Rightarrow> (Inr (0, t''), s''))
          else (Inr (0, t'), s')))"
proof (cases res)
  case None
  then show ?thesis using assms by (simp add: cm_simps getpage_app page_reads pn_def)
next
  case (Some a)
  obtain r pn3 where a: "a = (r, pn3)" by (rule prod.exhaust)
  have "btsrin kc uniq (Suc f) pno t s = bnd (btsrin kc uniq f pn3 t) (\<lambda>(rc, target).
          if rc \<noteq> 0 then ret (rc, target)
          else if e_recno target \<noteq> 0 \<or> e_pno target \<noteq> 0 then
            bnd (insert_in_page pno (disk s pno) r target) (\<lambda>target. ret (0, target))
          else ret (0, target)) s"
    using assms by (simp add: Some a bnd_app [of "getpage pno True"] bnd_app [of "ne_get_pageno (disk s pno) 0"]
        guard_def bnd_app [of "find_slot kc uniq f t (disk s pno) (entry_cnt (disk s pno)) 0 (e_pno (slot (disk s pno) 0))"]
        getpage_app page_reads pn_def)
  then show ?thesis
    by (auto simp: Some a cm_simps split: prod.split sum.split)
qed

context key_order
begin

lemma child_place:
  fixes cs :: "'k bt list" and x :: "nat \<times> 'k" and uniq :: bool
  defines "i \<equiv> rank kc uniq x (seps cs)"
  assumes cs: "cs \<noteq> []" "\<forall>c\<in>set cs. leaves c \<noteq> []" and so: "sorted_ents kc (concat (map leaves cs))"
    and K: "snd ` set (x # concat (map leaves cs)) \<subseteq> K"
    and nc: "\<not> (i < length (seps cs) \<and> side kc uniq x (seps cs ! i) = 0)"
  shows "i < length cs"
    and "y \<in> set (concat (map leaves (take i cs))) \<Longrightarrow> 0 < side kc uniq x y"
    and "y \<in> set (concat (map leaves (drop (Suc i) cs))) \<Longrightarrow> side kc uniq x y < 0"
    and "Suc i < length cs \<Longrightarrow> side kc uniq x (last (leaves (cs ! i))) < 0"
proof -
  have l: "length (seps cs) = length cs - 1" by (simp add: seps_def)
  show i: "i < length cs" using rank_le [of kc uniq x "seps cs"] cs(1) l unfolding i_def [symmetric] by (cases cs) auto
  have E: "seps cs ! j = last (leaves (cs ! j))" if "Suc j < length cs" for j
    using that nth_butlast [of j cs] by (simp add: seps_def less_diff_conv)
  have so': "sorted_wrt (\<lambda>y z. side kc False y z < 0) (leaves (cs ! j))" if "j < length cs" for j
    using so concat_split [of j "map leaves cs"] that by (simp add: sorted_ents_def sorted_wrt_append)
  have inK: "snd y \<in> K" if "y \<in> set (leaves (cs ! j))" "j < length cs" for y j
    using K that nth_mem by fastforce
  have xK: "snd x \<in> K" using K by simp
  have le_last: "y = last (leaves (cs ! j)) \<or> side kc False y (last (leaves (cs ! j))) < 0"
    if "y \<in> set (leaves (cs ! j))" "j < length cs" for y j
  proof -
    have "leaves (cs ! j) = butlast (leaves (cs ! j)) @ [last (leaves (cs ! j))]" using cs(2) that by simp
    then show ?thesis using so' [OF that(2)] that(1)
      by (metis (no_types, lifting) Un_iff append.right_neutral append_Cons list.set(1,2) set_append singletonD sorted_wrt_append insertI1)
  qed
  have lastK: "snd (last (leaves (cs ! j))) \<in> K" if "j < length cs" for j
    using inK [of "last (leaves (cs ! j))" j] cs(2) that by simp
  show lt: "Suc i < length cs \<Longrightarrow> side kc uniq x (last (leaves (cs ! i))) < 0"
    using nc rank_stop [of kc uniq x "seps cs"] E [of i] l unfolding i_def [symmetric] by fastforce
  have low: "0 < side kc uniq x y" if y: "y \<in> set (concat (map leaves (take i cs)))"
  proof -
    obtain j where j: "j < i" "y \<in> set (leaves (cs ! j))" 
    proof -
      obtain c where "c \<in> set (take i cs)" "y \<in> set (leaves c)" using y by auto
      then show ?thesis using that i by (auto simp: in_set_conv_nth [of c])
    qed
    have "0 < side kc uniq x (last (leaves (cs ! j)))"
      using rank_below [of j kc uniq x "seps cs"] j(1) i E [of j] by (simp add: i_def)
    then show ?thesis
      using le_last [of y j] side_mono [OF xK inK lastK, of y j j uniq] j i by fastforce
  qed
  then show "y \<in> set (concat (map leaves (take i cs))) \<Longrightarrow> 0 < side kc uniq x y" .
  have "side kc uniq x y < 0" if y: "y \<in> set (concat (map leaves (drop (Suc i) cs)))"
  proof -
    obtain j where j: "i < j" "j < length cs" "y \<in> set (leaves (cs ! j))"
    proof -
      obtain c where c: "c \<in> set (drop (Suc i) cs)" "y \<in> set (leaves c)" using y by auto
      then obtain k where "k < length cs - Suc i" "c = cs ! (Suc i + k)" by (auto simp: in_set_conv_nth [of c])
      then show ?thesis using that [of "Suc i + k"] c(2) by simp
    qed
    have "side kc False (last (leaves (cs ! i))) y < 0"
      by (rule sorted_wrt_concat [of _ "map leaves cs" i j]) (use so j i cs(2) in \<open>auto simp: sorted_ents_def\<close>)
    then have "side kc uniq x y \<le> side kc uniq x (last (leaves (cs ! i)))"
      by (intro side_mono) (use xK lastK [OF i] inK [OF j(3,2)] in auto)
    also have "\<dots> < 0" using lt j by simp
    finally show ?thesis .
  qed
  then show "y \<in> set (concat (map leaves (drop (Suc i) cs))) \<Longrightarrow> side kc uniq x y < 0" .
qed

end

section \<open>The insertion\<close>

lemma leaf_entries:
  assumes "stored d (Lf n es)" and "r < entry_cnt (d n)"
  shows "e_key (slot (d n) r) = snd (es ! r)" "e_recno (slot (d n) r) = fst (es ! r)" "pn (d n) r = 0"
  using page_of_leaf(1) [OF assms(1)] page_of_leaf(2,3) [OF assms(1), of r] assms(2)
  by (simp_all add: rk_def prod_eq_iff)

lemma find_slot_leaf:
  assumes st: "stored (disk s) (Lf n es)"
  defines "x \<equiv> \<lambda>t. (e_recno t, e_key t)"
  shows "find_slot kc uniq f t (disk s n) (entry_cnt (disk s n)) 0 (pn (disk s n) 0) s
    = (Inr (let i = rank kc uniq (x t) es in
        if i < length es \<and> side kc uniq (x t) (es ! i) = 0 then None else Some (i, 0)), s)"
proof -
  let ?p = "disk s n"
  note p = page_of_leaf [OF st]
  have "find_slot kc uniq f t ?p (entry_cnt ?p) 0 (pn ?p 0) s = (Inr (let i = 0 + rank kc uniq (x t) (drop 0 es) in
      if i < entry_cnt ?p \<and> side kc uniq (x t) (es ! i) = 0 then None else Some (i, pn ?p i)), s)"
    unfolding x_def by (rule find_slot_app) (use p(1) leaf_entries [OF st] in auto)
  then show ?thesis using p(3) [OF rank_le] p(1) by (simp add: Let_def)
qed

lemma node_entries:
  assumes st: "stored (disk s) (Nd n cs ss)" and wf: "shaped (norecpp s) (Nd n cs ss)" and g: "granted s"
    and h: "height (Nd n cs ss) \<le> Suc f" and lt: "\<forall>m\<in>set (pages (Nd n cs ss)). m < pagecnt s"
    and r: "r < entry_cnt (disk s n)"
  shows "e_key (slot (disk s n) r) = snd (seps cs ! r)" and "pn (disk s n) r \<noteq> 0"
    and "btlr f (pn (disk s n) r) rn s = (Inr (cmp_recno rn (fst (seps cs ! r))), s)"
proof -
  note p = page_of_node [OF st wf]
  have l: "length (seps cs) = length ss" "length cs = length ss + 1" using wf by (simp_all add: seps_def)
  have ks: "map snd ss = map snd (seps cs)" using wf by (simp add: seps_def)
  show "e_key (slot (disk s n) r) = snd (seps cs ! r)"
    using p(1) p(2) [of r] r arg_cong [OF ks, of "\<lambda>xs. xs ! r"] l by (simp add: rk_def prod_eq_iff)
  show "pn (disk s n) r \<noteq> 0" using p(5) [of r] p(1) r by simp
  have c: "cs ! r \<in> set cs" "r < length (butlast cs)" using r p(1) l by simp_all
  have lt': "\<forall>m\<in>set (pages (cs ! r)). m < pagecnt s" using lt c(1) by auto
  have "btlr f (root_of (cs ! r)) rn s = (Inr (cmp_recno rn (fst (last (leaves (cs ! r))))), s)"
    by (rule btlr_app) (use c st wf g h lt' height_child [OF c(1)] in auto)
  then show "btlr f (pn (disk s n) r) rn s = (Inr (cmp_recno rn (fst (seps cs ! r))), s)"
    using p(3) [of r] r p(1) c(2) nth_butlast [OF c(2)] by (simp add: seps_def)
qed

lemma find_slot_node:
  assumes st: "stored (disk s) (Nd n cs ss)" and wf: "wf_tree (norecpp s) (Nd n cs ss)" and g: "granted s"
    and h: "height (Nd n cs ss) \<le> Suc f" and lt: "\<forall>m\<in>set (pages (Nd n cs ss)). m < pagecnt s"
  defines "x \<equiv> \<lambda>t. (e_recno t, e_key t)"
  shows "find_slot kc uniq f t (disk s n) (entry_cnt (disk s n)) 0 (pn (disk s n) 0) s
    = (Inr (let i = rank kc uniq (x t) (seps cs) in
        if i < length (seps cs) \<and> side kc uniq (x t) (seps cs ! i) = 0 then None else Some (i, root_of (cs ! i))), s)"
proof -
  let ?p = "disk s n"
  note p = page_of_node [OF st wf_shaped [OF wf]]
  note en = node_entries [OF st wf_shaped [OF wf] g h lt]
  have l: "length (seps cs) = length ss" using wf by (simp add: seps_def)
  have "find_slot kc uniq f t ?p (entry_cnt ?p) 0 (pn ?p 0) s = (Inr (let i = 0 + rank kc uniq (x t) (drop 0 (seps cs)) in
      if i < entry_cnt ?p \<and> side kc uniq (x t) (seps cs ! i) = 0 then None else Some (i, pn ?p i)), s)"
    unfolding x_def by (rule find_slot_app) (use p(1) l en in auto)
  then show ?thesis
    using p(3) [of "rank kc uniq (x t) (seps cs)"] p(3) [of "length ss"] rank_le [of kc uniq "x t" "seps cs"] p(1) l
    by (simp add: Let_def)
qed

definition inserted :: "('k \<Rightarrow> 'k \<Rightarrow> int) \<Rightarrow> bool \<Rightarrow> nat \<Rightarrow> 'k bt \<Rightarrow> 'k entry \<Rightarrow> 'k ndx \<Rightarrow> bool" where
  \<comment> \<open>what btsrin does to the tree t when it inserts tg\<close>
  "inserted kc uniq f t tg s \<longleftrightarrow>
     (let x = (e_recno tg, e_key tg) in
      if \<exists>y\<in>set (leaves t). side kc uniq x y = 0 then btsrin kc uniq f (root_of t) tg s = (Inr (db_no DUPKEY, tg), s)
      else \<exists>s' t' ts. btsrin kc uniq f (root_of t) tg s = (Inr (0, t'), s') \<and> became s (set (pages t)) (root_of t) s' ts t'
         \<and> concat (map leaves ts) = put_in kc uniq x (leaves t))"

lemma inserted_dupI:
  "\<exists>y\<in>set (leaves t). side kc uniq (e_recno tg, e_key tg) y = 0 \<Longrightarrow>
   btsrin kc uniq f (root_of t) tg s = (Inr (db_no DUPKEY, tg), s) \<Longrightarrow> inserted kc uniq f t tg s"
  by (simp add: inserted_def)

lemma inserted_newI:
  "\<not> (\<exists>y\<in>set (leaves t). side kc uniq (e_recno tg, e_key tg) y = 0) \<Longrightarrow>
   btsrin kc uniq f (root_of t) tg s = (Inr (0, t'), s') \<Longrightarrow> became s (set (pages t)) (root_of t) s' ts t' \<Longrightarrow>
   concat (map leaves ts) = put_in kc uniq (e_recno tg, e_key tg) (leaves t) \<Longrightarrow> inserted kc uniq f t tg s"
  unfolding inserted_def Let_def by (simp only: if_False) blast

definition holds :: "'k ndx \<Rightarrow> 'k bt \<Rightarrow> bool" where
  \<comment> \<open>the index holds the tree\<close>
  "holds s t \<longleftrightarrow> stored (disk s) t \<and> wf_tree (norecpp s) t \<and> distinct (pages t) \<and> (\<forall>m\<in>set (pages t). m < pagecnt s)"

definition readable :: "'k ndx \<Rightarrow> 'k bt \<Rightarrow> bool" where
  "readable s t \<longleftrightarrow> stored (disk s) t \<and> shaped (norecpp s) t \<and> distinct (pages t) \<and> (\<forall>m\<in>set (pages t). m < pagecnt s)"

lemma holds_readable: "holds s t \<Longrightarrow> readable s t"
  by (simp add: holds_def readable_def wf_shaped)

lemma readable_child: "readable s (Nd n cs ss) \<Longrightarrow> c \<in> set cs \<Longrightarrow> readable s c"
  by (auto simp: readable_def in_set_conv_decomp [of c])

lemma holds_child: "holds s (Nd n cs ss) \<Longrightarrow> c \<in> set cs \<Longrightarrow> holds s c"
  by (auto simp: holds_def in_set_conv_decomp [of c])

context key_order
begin

lemma insert_leaf:
  assumes hd: "holds s (Lf n es)" and f: "1 < f" and g: "granted s" "2 \<le> norecpp s"
    and so: "sorted_ents kc es" and K: "snd ` set ((e_recno tg, e_key tg) # es) \<subseteq> K" and tg: "e_recno tg \<noteq> 0" "e_pno tg = 0"
  shows "inserted kc uniq f (Lf n es) tg s"
proof -
  let ?x = "(e_recno tg, e_key tg)"
  let ?i = "rank kc uniq ?x es"
  obtain f' where f': "f = Suc (Suc f')" using less_imp_Suc_add [OF f] by auto
  have st: "stored (disk s) (Lf n es)" and wf: "wf_tree (norecpp s) (Lf n es)" and n: "n \<noteq> 0" "n < pagecnt s"
    using hd by (auto simp: holds_def)
  note step = btsrin_step [OF g(1) n find_slot_leaf [OF st], of kc uniq "Suc f'" tg]
  have z: "btsrin kc uniq (Suc f') 0 tg s = (Inr (0, tg), s)" by (simp add: cm_simps)
  show ?thesis
  proof (cases "?i < length es \<and> side kc uniq ?x (es ! ?i) = 0")
    case True
    then have "\<exists>y\<in>set (leaves (Lf n es)). side kc uniq ?x y = 0"
      unfolding leaves.simps by (intro bexI [of _ "es ! ?i"]) (use True in \<open>simp_all only: nth_mem\<close>)
    moreover have "btsrin kc uniq f (root_of (Lf n es)) tg s = (Inr (db_no DUPKEY, tg), s)"
      unfolding f' root_of.simps step Let_def if_P [OF True] option.case ..
    ultimately show ?thesis by (rule inserted_dupI)
  next
    case False
    then have "\<not> (\<exists>y\<in>set (leaves (Lf n es)). side kc uniq ?x y = 0)" using clash_iff_rank [OF so K] by simp
    moreover obtain s' t' ts where 1: "insert_in_page n (disk s n) ?i tg s = (Inr t', s')" "became s {n} n s' ts t'"
      "concat (map leaves ts) = ins_at ?i ?x es"
      using leaf_insert [OF st wf g(2,1) n(2) rank_le tg] by blast
    moreover have "btsrin kc uniq f (root_of (Lf n es)) tg s = (Inr (0, t'), s')"
      unfolding f' root_of.simps step Let_def if_not_P [OF False] option.case prod.case z using 1(1) tg by simp
    ultimately show ?thesis
      by (intro inserted_newI) (simp_all add: put_in_rank)
  qed
qed

end

lemma became_trans:
  assumes "frame s s1" and "\<And>m. m < pagecnt s \<Longrightarrow> m \<notin> P \<Longrightarrow> disk s1 m = disk s m"
    and "P1 \<subseteq> P \<union> {pagecnt s ..< pagecnt s1}" and "became s1 P1 r0 s2 ts t"
  shows "became s P r0 s2 ts t"
proof -
  have f: "frame s1 s2" "pagecnt s \<le> pagecnt s1" "norecpp s1 = norecpp s" "pagecnt s1 \<le> pagecnt s2"
    using assms(1,4) by (simp_all add: became_def frame_def)
  have "frame s s2" using assms(1) f(1) by (rule frame_trans)
  moreover have "disk s2 m = disk s m" if "m < pagecnt s" "m \<notin> P" for m
  proof -
    have "m < pagecnt s1" "m \<notin> P1" using that f(2) assms(3) by auto
    then show ?thesis using assms(2) [OF that] assms(4) by (simp add: became_def)
  qed
  moreover have "set (concat (map pages ts)) \<subseteq> P \<union> {pagecnt s ..< pagecnt s2}"
  proof
    fix m
    assume "m \<in> set (concat (map pages ts))"
    then have "m \<in> P1 \<or> pagecnt s1 \<le> m \<and> m < pagecnt s2" using assms(4) unfolding became_def by auto
    then show "m \<in> P \<union> {pagecnt s ..< pagecnt s2}" using assms(3) f(2,4) by auto
  qed
  ultimately show ?thesis using assms(4) unfolding became_def f(3) by blast
qed

lemma frame_norecpp: "frame s s' \<Longrightarrow> norecpp s' = norecpp s" "frame s s' \<Longrightarrow> granted s' = granted s"
  "frame s s' \<Longrightarrow> pagecnt s \<le> pagecnt s'"
  by (simp_all add: frame_def granted_def)

lemma child_one:
  assumes hd: "holds s (Nd n cs ss)" and i: "i < length cs" and b: "became s (set (pages (cs ! i))) (root_of (cs ! i)) s1 [l] t1"
    and key: "Suc i < length cs \<Longrightarrow> snd (last (leaves l)) = snd (last (leaves (cs ! i)))"
  shows "became s (set (pages (Nd n cs ss))) n s1 [Nd n (take i cs @ [l] @ drop (Suc i) cs) ss] t1"
proof -
  let ?t = "Nd n cs ss" and ?cs = "take i cs @ [l] @ drop (Suc i) cs" and ?F = "\<lambda>c. snd (last (leaves c))"
  have st: "stored (disk s) ?t" and wf: "wf_tree (norecpp s) ?t" and d: "distinct (pages ?t)"
    and lt: "\<And>m. m \<in> set (pages ?t) \<Longrightarrow> m < pagecnt s" using hd by (auto simp: holds_def)
  note cr = child_replaced [OF st wf d lt i b]
  have l: "length cs = length ss + 1" "i \<le> length ss" using wf i by simp_all
  have fr: "frame s s1" and sh: "root_of l = root_of (cs ! i)" "e_recno t1 = 0" "e_pno t1 = 0"
    and old: "\<forall>m. m < pagecnt s \<longrightarrow> m \<notin> set (pages (cs ! i)) \<longrightarrow> disk s1 m = disk s m"
    using b unfolding became_def by auto
  have "map root_of cs = map root_of (take i cs @ [cs ! i] @ drop (Suc i) cs)"
    using id_take_nth_drop [OF i] by simp
  then have ro: "map root_of ?cs = map root_of cs" using sh(1) by simp
  have "stored (disk s1) (Nd n ?cs ss)"
    using st ro cr(1,5) by auto
  moreover have "map snd ss = map ?F (butlast ?cs)"
    by (rule keys_one) (use wf l key in auto)
  then have "wf_tree (norecpp s) (Nd n ?cs ss)" using wf l cr(2) i by simp
  moreover have "leaves (Nd n ?cs ss) \<noteq> []" using b by (auto simp: became_def)
  moreover have "set (pages (cs ! i)) \<subseteq> set (pages ?t)" using nth_mem [OF i] by auto
  then have "\<forall>m. m < pagecnt s \<longrightarrow> m \<notin> set (pages ?t) \<longrightarrow> disk s1 m = disk s m" using old by blast
  ultimately show ?thesis
    unfolding became_def using cr(3,4) sh fr by simp
qed

lemma child_two:
  assumes hd: "holds s (Nd n cs ss)" and i: "i < length cs" and b: "became s (set (pages (cs ! i))) (root_of (cs ! i)) s1 [l, r] t1"
    and key: "Suc i < length cs \<Longrightarrow> snd (last (leaves r)) = snd (last (leaves (cs ! i)))"
    and g: "granted s" "2 \<le> norecpp s"
  shows "\<exists>s' t' ts. insert_in_page n (disk s n) i t1 s1 = (Inr t', s') \<and> became s (set (pages (Nd n cs ss))) n s' ts t'
    \<and> concat (map leaves ts) = concat (map leaves (take i cs @ [l, r] @ drop (Suc i) cs))"
proof -
  let ?t = "Nd n cs ss" and ?cs = "take i cs @ [l, r] @ drop (Suc i) cs" and ?F = "\<lambda>c. snd (last (leaves c))"
  have st: "stored (disk s) ?t" and wf: "wf_tree (norecpp s) ?t" and d: "distinct (pages ?t)"
    and lt: "\<And>m. m \<in> set (pages ?t) \<Longrightarrow> m < pagecnt s" using hd by (auto simp: holds_def)
  note cr = child_replaced [OF st wf d lt i b]
  have l: "length cs = length ss + 1" "i \<le> length ss" using wf i by simp_all
  have fr: "frame s s1" and sh: "root_of l = root_of (cs ! i)" "e_recno t1 \<noteq> 0" "e_pno t1 = root_of r" "e_key t1 = ?F l"
    and old: "\<forall>m. m < pagecnt s \<longrightarrow> m \<notin> set (pages (cs ! i)) \<longrightarrow> disk s1 m = disk s m"
    using b unfolding became_def by auto
  note fr' = frame_norecpp [OF fr]
  have lt1: "m < pagecnt s1" if "m \<in> set (n # concat (map pages ?cs))" for m
  proof -
    have "m \<in> set (pages ?t) \<or> m < pagecnt s1" using subsetD [OF cr(4) that] by (simp only: Un_iff atLeastLessThan_iff) blast
    then show ?thesis using lt fr'(3) by (metis less_le_trans)
  qed
  have r0: "root_of r \<noteq> 0" using cr(1) [of r] stored_root by simp
  have "map root_of cs = map root_of (take i cs @ [cs ! i] @ drop (Suc i) cs)"
    using id_take_nth_drop [OF i] by simp
  then have "map root_of ?cs = ins_at (i + 1) (e_pno t1) (map root_of cs)"
    using sh(1,3) i by (simp add: ins_at_def take_map drop_map take_Suc_conv_app_nth)
  then have ps: "map root_of ?cs = ins_at (i + 1) (e_pno t1) (ptrs (disk s1 n))"
    using st cr(5) by simp
  have ks: "map snd (ins_at i (e_recno t1, e_key t1) ss) = map ?F (butlast ?cs)"
    by (rule keys_two) (use wf l key sh(4) in auto)
  obtain s' t' ts where 1: "insert_in_page n (disk s1 n) i t1 s1 = (Inr t', s')"
    "became s1 (insert n (set (concat (map pages ?cs)))) n s' ts t'" "concat (map leaves ts) = concat (map leaves ?cs)"
    using node_insert [of ?cs s1 n ss i t1] cr(1-3) lt1 fr' g ps ks sh(2,3) r0 st wf cr(5) l i page_of_node(4) [OF st wf_shaped [OF wf]]
    by auto
  have "became s (set (pages ?t)) n s' ts t'"
  proof (rule became_trans [OF fr _ _ 1(2)])
    have "set (pages (cs ! i)) \<subseteq> set (pages ?t)" using nth_mem [OF i] by auto
    then show "disk s1 m = disk s m" if "m < pagecnt s" "m \<notin> set (pages ?t)" for m using old that by blast
    show "insert n (set (concat (map pages ?cs))) \<subseteq> set (pages ?t) \<union> {pagecnt s ..< pagecnt s1}"
      using cr(4) by simp
  qed
  then show ?thesis using 1(1,3) cr(5) by auto
qed


context key_order
begin

lemma insert_node:
  assumes hd: "holds s (Nd n cs ss)" and h: "height (Nd n cs ss) \<le> Suc f" and g: "granted s" "2 \<le> norecpp s"
    and so: "sorted_ents kc (leaves (Nd n cs ss))" and K: "snd ` set ((e_recno tg, e_key tg) # leaves (Nd n cs ss)) \<subseteq> K"
    and IH: "\<And>c. c \<in> set cs \<Longrightarrow> inserted kc uniq f c tg s"
  shows "inserted kc uniq (Suc f) (Nd n cs ss) tg s"
proof -
  let ?t = "Nd n cs ss" and ?x = "(e_recno tg, e_key tg)"
  define i where "i = rank kc uniq ?x (seps cs)"
  have st: "stored (disk s) ?t" and wf: "wf_tree (norecpp s) ?t" and n: "n \<noteq> 0" "n < pagecnt s"
    and lt: "\<forall>m\<in>set (pages ?t). m < pagecnt s" using hd by (auto simp: holds_def)
  have ne: "cs \<noteq> []" "\<forall>c\<in>set cs. leaves c \<noteq> []" using wf by auto
  note step = btsrin_step [OF g(1) n find_slot_node [OF st wf g(1) h lt], of kc uniq tg, folded i_def]
  show ?thesis
  proof (cases "i < length (seps cs) \<and> side kc uniq ?x (seps cs ! i) = 0")
    case True
    have "\<exists>y\<in>set (leaves ?t). side kc uniq ?x y = 0"
    proof -
      have "seps cs ! i \<in> (\<lambda>c. last (leaves c)) ` set (butlast cs)" using True nth_mem [of i "seps cs"] by (simp add: seps_def)
      then obtain c where c: "c \<in> set cs" "seps cs ! i = last (leaves c)" by (auto dest: in_set_butlastD)
      then have "seps cs ! i \<in> set (leaves c)" using ne(2) by simp
      then show ?thesis using c(1) True by auto
    qed
    moreover have "btsrin kc uniq (Suc f) (root_of ?t) tg s = (Inr (db_no DUPKEY, tg), s)"
      unfolding root_of.simps step Let_def if_P [OF True] option.case ..
    ultimately show ?thesis by (rule inserted_dupI)
  next
    case False
    note place = child_place [OF ne so [unfolded leaves.simps] K [unfolded leaves.simps] False [unfolded i_def], folded i_def]
    let ?c = "cs ! i" and ?A = "concat (map leaves (take i cs))" and ?C = "concat (map leaves (drop (Suc i) cs))"
    have c: "?c \<in> set cs" using place(1) by simp
    have lv: "leaves ?t = ?A @ leaves ?c @ ?C"
      using concat_split [of i "map leaves cs"] place(1) by (simp add: take_map drop_map)
    have cl: "(\<exists>y\<in>set (leaves ?t). side kc uniq ?x y = 0) \<longleftrightarrow> (\<exists>y\<in>set (leaves ?c). side kc uniq ?x y = 0)"
      using place(2,3) unfolding lv by (auto simp del: set_concat) (metis less_irrefl)+
    have go: "btsrin kc uniq (Suc f) (root_of ?t) tg s = (case btsrin kc uniq f (root_of ?c) tg s of
        (Inl e, s') \<Rightarrow> (Inl e, s')
      | (Inr (rc, t'), s') \<Rightarrow>
          if rc \<noteq> 0 then (Inr (rc, t'), s')
          else if e_recno t' \<noteq> 0 \<or> e_pno t' \<noteq> 0 then
            (case insert_in_page n (disk s n) i t' s' of (Inl e, s'') \<Rightarrow> (Inl e, s'') | (Inr t'', s'') \<Rightarrow> (Inr (0, t''), s''))
          else (Inr (0, t'), s'))"
      unfolding root_of.simps step Let_def if_not_P [OF False] option.case prod.case ..
    show ?thesis
    proof (cases "\<exists>y\<in>set (leaves ?c). side kc uniq ?x y = 0")
      case True
      then have "btsrin kc uniq f (root_of ?c) tg s = (Inr (db_no DUPKEY, tg), s)"
        using IH [OF c] by (simp add: inserted_def)
      then have "btsrin kc uniq (Suc f) (root_of ?t) tg s = (Inr (db_no DUPKEY, tg), s)" unfolding go by simp
      then show ?thesis by (rule inserted_dupI [OF cl [THEN iffD2, OF True]])
    next
      case no: False
      then obtain s1 t1 ts where 1: "btsrin kc uniq f (root_of ?c) tg s = (Inr (0, t1), s1)"
        "became s (set (pages ?c)) (root_of ?c) s1 ts t1" "concat (map leaves ts) = put_in kc uniq ?x (leaves ?c)"
        using IH [OF c] unfolding inserted_def Let_def by (auto simp del: btsrin.simps)
      have nt: "\<not> (\<exists>y\<in>set (leaves ?t). side kc uniq ?x y = 0)" using cl no by blast
      have pin: "?A @ concat (map leaves ts) @ ?C = put_in kc uniq ?x (leaves ?t)"
        unfolding lv using put_in_mid [of ?A kc uniq ?x ?C "leaves ?c"] place(2,3) 1(3) by simp
      have key: "snd (last (concat (map leaves ts))) = snd (last (leaves ?c))" if "Suc i < length cs"
        using last_put_in [OF bspec [OF ne(2) c] place(4) [OF that]] 1(3) by simp
      consider l where "ts = [l]" "e_recno t1 = 0" "e_pno t1 = 0" | l r where "ts = [l, r]" "e_recno t1 \<noteq> 0" "leaves r \<noteq> []"
        using 1(2) unfolding became_def by auto
      then show ?thesis
      proof cases
        case one: 1
        have "became s (set (pages ?t)) (root_of ?t) s1 [Nd n (take i cs @ [l] @ drop (Suc i) cs) ss] t1"
          using child_one [OF hd place(1) 1(2) [unfolded one(1)]] key one(1) by simp
        moreover have "btsrin kc uniq (Suc f) (root_of ?t) tg s = (Inr (0, t1), s1)" unfolding go 1(1) using one by simp
        ultimately show ?thesis
          using pin one(1) by (intro inserted_newI [OF nt]) auto
      next
        case two: 2
        obtain s' t' ts' where 2: "insert_in_page n (disk s n) i t1 s1 = (Inr t', s')"
          "became s (set (pages ?t)) n s' ts' t'"
          "concat (map leaves ts') = concat (map leaves (take i cs @ [l, r] @ drop (Suc i) cs))"
          using child_two [OF hd place(1) 1(2) [unfolded two(1)] _ g] key two by auto
        have "btsrin kc uniq (Suc f) (root_of ?t) tg s = (Inr (0, t'), s')"
          unfolding go 1(1) using two(2) 2(1) by simp
        then show ?thesis
          using pin two(1) 2(2,3) by (intro inserted_newI [OF nt]) auto
      qed
    qed
  qed
qed

theorem btsrin_inserts:
  assumes "holds s t" and "height t < f" and "granted s" and "2 \<le> norecpp s" and "sorted_ents kc (leaves t)"
    and "snd ` set ((e_recno tg, e_key tg) # leaves t) \<subseteq> K" and "e_recno tg \<noteq> 0" and "e_pno tg = 0"
  shows "inserted kc uniq f t tg s"
  using assms
proof (induction t arbitrary: f)
  case (Lf n es)
  then show ?case by (intro insert_leaf) simp_all
next
  case (Nd n cs ss)
  then obtain f' where f: "f = Suc f'" by (cases f) auto
  have "inserted kc uniq f' c tg s" if c: "c \<in> set cs" for c
  proof (rule Nd.IH [OF c])
    show "holds s c" by (rule holds_child [OF Nd.prems(1) c])
    show "height c < f'" using Nd.prems(2) height_child [OF c] by (simp add: f)
    obtain A C where "cs = A @ c # C" using c by (metis in_set_conv_decomp)
    then show "sorted_ents kc (leaves c)" using Nd.prems(5) by (simp add: sorted_ents_def sorted_wrt_append)
    show "snd ` set ((e_recno tg, e_key tg) # leaves c) \<subseteq> K" using Nd.prems(6) c by auto
  qed (use Nd.prems in auto)
  then show ?case
    unfolding f using Nd.prems by (intro insert_node) (simp_all add: f)
qed

end

section \<open>A whole index\<close>

definition index_of :: "'k ndx \<Rightarrow> (nat \<times> 'k) list \<Rightarrow> bool" where
  \<comment> \<open>the entries of the index in order; a new index has no root page yet\<close>
  "index_of s xs \<longleftrightarrow>
     (if rootno s = 0 then xs = [] \<and> 1 \<le> pagecnt s else \<exists>t. holds s t \<and> root_of t = rootno s \<and> leaves t = xs)"

definition reads_as :: "'k ndx \<Rightarrow> (nat \<times> 'k) list \<Rightarrow> bool" where
  \<comment> \<open>the same for an index that is only read\<close>
  "reads_as s xs \<longleftrightarrow>
     (if rootno s = 0 then xs = [] \<and> 1 \<le> pagecnt s else \<exists>t. readable s t \<and> root_of t = rootno s \<and> leaves t = xs)"

lemma index_reads: "index_of s xs \<Longrightarrow> reads_as s xs"
  by (auto simp: index_of_def reads_as_def intro: holds_readable split: if_splits)

lemma stored_pages_nz: "stored d t \<Longrightarrow> 0 \<notin> set (pages t)"
  by (induction t) auto

lemma readable_height:
  assumes "readable s t"
  shows "height t < pagecnt s"
proof -
  have "set (pages t) \<subseteq> {1 ..< pagecnt s}"
    using assms stored_pages_nz [of "disk s" t] by (auto simp: readable_def) (metis One_nat_def Suc_leI neq0_conv)
  then have "card (set (pages t)) \<le> pagecnt s - 1" using card_mono [of "{1 ..< pagecnt s}"] by fastforce
  moreover have "card (set (pages t)) = length (pages t)" using assms by (simp add: readable_def distinct_card)
  moreover have "root_of t < pagecnt s" using assms root_in_pages [of t] by (auto simp: readable_def)
  ultimately show ?thesis using height_le_pages [of t] by simp
qed

lemmas height_less_pagecnt = readable_height [OF holds_readable]

lemma new_root:
  assumes b: "btsrin kc uniq f (rootno s) tg (s\<lparr>e_o_f := False\<rparr>) = (Inr (0, t), s1)" and g: "granted s1" and t: "e_recno t \<noteq> 0"
    and r: "rootno s1 \<noteq> 0 \<Longrightarrow> e_pno t \<noteq> 0"
  shows "\<exists>s2 p. insert_new kc uniq ex f tg s = (Inr 1, s2) \<and> disk s2 = (disk s1)(pagecnt s1 := p)
    \<and> rootno s2 = pagecnt s1 \<and> pagecnt s2 = pagecnt s1 + 1 \<and> norecpp s2 = norecpp s1 \<and> grants s2 = grants s1
    \<and> ents p = [(e_recno t, e_key t)] \<and> ptrs p = [rootno s1, e_pno t]"
proof -
  let ?c = "put_slot ((blank s1)\<lparr>entry_cnt := 1\<rparr>) 0 ((slot (blank s1) 0)\<lparr>e_pno := rootno s1\<rparr>)"
  let ?s = "s1\<lparr>rootno := pagecnt s1, pagecnt := pagecnt s1 + 1\<rparr>"
  have c: "entry_cnt ?c = 1" "pn ?c 0 = rootno s1" by simp_all
  have l: "is_leaf ?c \<longleftrightarrow> rootno s1 = 0" by (simp add: is_leaf_pn)
  obtain p a n where p: "insert_entry ?c 0 0 t ?s = (Inr p, ?s\<lparr>page_no := a, entry_no := n\<rparr>)"
    "entry_cnt p = entry_cnt ?c" "rk p = (rk ?c)(0 := (e_recno t, e_key t))" "pn p = (pn ?c)(0 + 1 := e_pno t)"
    using insert_entry_app [of 0 ?c t 0 ?s] t r l by auto
  let ?u = "?s\<lparr>page_no := a, entry_no := n, disk := (disk s1)(pagecnt s1 := p)\<rparr>"
  let ?v = "if ex then ?u\<lparr>w_hdr := True\<rparr> else ?u\<lparr>disk_hdr := (rootno ?u, pagecnt ?u)\<rparr>"
  have "ne_put_pageno ((blank s1)\<lparr>entry_cnt := 1\<rparr>) 0 (rootno s1) s1 = (Inr ?c, s1)"
    by (simp add: ne_put_pageno_def page_reads cm_simps)
  then have "insert_new kc uniq ex f tg s = (Inr 1, ?v)"
    using b p(1) t g by (simp add: insert_new_def new_root_page_def cm_simps getpage_app write_page_def write_ndx_hdr_def)
  moreover have "ents p = [(e_recno t, e_key t)]" "ptrs p = [rootno s1, e_pno t]"
    using p(2-4) by (simp_all add: ents_def ptrs_def)
  ultimately show ?thesis by (intro exI [of _ ?v] exI [of _ p]) simp
qed

context key_order
begin

lemma insert_new_refines:
  assumes ix: "index_of s xs" and f: "pagecnt s \<le> f" and g: "granted s" and e: "2 \<le> norecpp s" and so: "sorted_ents kc xs"
    and K: "snd ` set ((e_recno tg, e_key tg) # xs) \<subseteq> K" and tg: "e_recno tg \<noteq> 0" "e_pno tg = 0"
  defines "x \<equiv> (e_recno tg, e_key tg)"
  shows "(\<exists>y\<in>set xs. side kc uniq x y = 0) \<Longrightarrow> insert_new kc uniq ex f tg s = (Inr 0, s\<lparr>e_o_f := False\<rparr>)"
    and "\<not> (\<exists>y\<in>set xs. side kc uniq x y = 0) \<Longrightarrow> \<exists>s'. insert_new kc uniq ex f tg s = (Inr 1, s')
      \<and> index_of s' (put_in kc uniq x xs) \<and> granted s' \<and> norecpp s' = norecpp s"
proof -
  let ?s = "s\<lparr>e_o_f := False\<rparr>"
  have g': "granted ?s" using g by (simp add: granted_def)
  have ho: "holds ?s t \<longleftrightarrow> holds s t" for t by (simp add: holds_def)
  have ins: "inserted kc uniq f t tg ?s" if t: "holds s t" "leaves t = xs" for t
  proof (rule btsrin_inserts)
    show "height t < f" using height_less_pagecnt [OF t(1)] f by simp
  qed (use g' ho e so K tg t in auto)
  show "insert_new kc uniq ex f tg s = (Inr 0, ?s)" if cl: "\<exists>y\<in>set xs. side kc uniq x y = 0"
  proof -
    have "rootno s \<noteq> 0" using cl ix by (auto simp: index_of_def split: if_splits)
    then obtain t where t: "holds s t" "root_of t = rootno s" "leaves t = xs" using ix by (auto simp: index_of_def)
    have "btsrin kc uniq f (rootno s) tg ?s = (Inr (db_no DUPKEY, tg), ?s)"
      using ins [OF t(1,3)] cl t(2,3) by (simp add: inserted_def x_def)
    then show ?thesis by (simp add: insert_new_def cm_simps)
  qed
  assume nc: "\<not> (\<exists>y\<in>set xs. side kc uniq x y = 0)"
  show "\<exists>s'. insert_new kc uniq ex f tg s = (Inr 1, s') \<and> index_of s' (put_in kc uniq x xs) \<and> granted s' \<and> norecpp s' = norecpp s"
  proof (cases "rootno s = 0")
    case True
    then have xs: "xs = []" "1 \<le> pagecnt s" using ix by (auto simp: index_of_def)
    then obtain f' where "f = Suc f'" using f by (cases f) auto
    then have b: "btsrin kc uniq f (rootno s) tg ?s = (Inr (0, tg), ?s)" using True by (simp add: cm_simps)
    obtain s2 p where 2: "insert_new kc uniq ex f tg s = (Inr 1, s2)" "disk s2 = (disk s)(pagecnt s := p)"
      "rootno s2 = pagecnt s" "pagecnt s2 = pagecnt s + 1" "norecpp s2 = norecpp s" "grants s2 = grants s"
      "ents p = [x]" "ptrs p = [0, 0]"
      using new_root [OF b g' tg(1), of ex] True tg(2) by (auto simp: x_def)
    have "holds s2 (Lf (pagecnt s) [x])" using 2(2-8) xs(2) e tg(1) by (simp add: holds_def x_def)
    then have "index_of s2 [x]" using 2(3) xs(2) by (auto simp: index_of_def intro!: exI [of _ "Lf (pagecnt s) [x]"])
    then show ?thesis using 2(1,5,6) g xs(1) by (auto simp: granted_def put_in_def)
  next
    case False
    then obtain t where t: "holds s t" "root_of t = rootno s" "leaves t = xs" using ix by (auto simp: index_of_def)
    obtain s1 t1 ts where 1: "btsrin kc uniq f (rootno s) tg ?s = (Inr (0, t1), s1)"
      "became ?s (set (pages t)) (rootno s) s1 ts t1" "concat (map leaves ts) = put_in kc uniq x xs"
      using ins [OF t(1,3)] nc t(2,3) unfolding inserted_def Let_def by (auto simp: x_def simp del: btsrin.simps)
    have fr: "frame s s1" using 1(2) by (simp add: became_def frame_def)
    note fr' = frame_norecpp [OF fr]
    have lt: "m < pagecnt s1" if "c \<in> set ts" "m \<in> set (pages c)" for c m
    proof -
      have "m \<in> set (pages t) \<union> {pagecnt s ..< pagecnt s1}" using 1(2) that unfolding became_def by auto
      then show ?thesis using t(1) fr'(3) by (auto simp: holds_def)
    qed
    have st: "stored (disk s1) c" "wf_tree (norecpp s) c" "leaves c \<noteq> []" if "c \<in> set ts" for c
      using 1(2) that by (simp_all add: became_def)
    have dt: "distinct (concat (map pages ts))" using 1(2) by (simp add: became_def)
    consider l where "ts = [l]" "root_of l = rootno s" "e_recno t1 = 0" "e_pno t1 = 0"
      | l r where "ts = [l, r]" "root_of l = rootno s" "e_recno t1 \<noteq> 0" "e_pno t1 = root_of r" "e_key t1 = snd (last (leaves l))"
      using 1(2) unfolding became_def by auto
    then show ?thesis
    proof cases
      case one: 1
      have "holds s1 l" using one(1) st lt dt fr' by (simp add: holds_def)
      then have "index_of s1 (put_in kc uniq x xs)"
        using one(1,2) 1(3) False fr by (auto simp: index_of_def frame_def intro!: exI [of _ l])
      moreover have "insert_new kc uniq ex f tg s = (Inr 1, s1)" using 1(1) one(3,4) by (simp add: insert_new_def cm_simps)
      ultimately show ?thesis using fr' g by blast
    next
      case two: 2
      have rt: "rootno s1 = rootno s" using fr by (simp add: frame_def)
      have rr: "root_of r \<noteq> 0" using two(1) st(1) [of r] stored_root [of "disk s1" r] by simp
      obtain s2 p where 2: "insert_new kc uniq ex f tg s = (Inr 1, s2)" "disk s2 = (disk s1)(pagecnt s1 := p)"
        "rootno s2 = pagecnt s1" "pagecnt s2 = pagecnt s1 + 1" "norecpp s2 = norecpp s1" "grants s2 = grants s1"
        "ents p = [(e_recno t1, e_key t1)]" "ptrs p = [rootno s, root_of r]"
        using new_root [OF 1(1) _ two(3), of ex] g fr' rt rr two(4) by auto
      let ?t = "Nd (pagecnt s1) [l, r] [(e_recno t1, e_key t1)]"
      have "stored (disk s2) c" if "c \<in> set ts" for c
        by (rule stored_cong [OF _ st(1) [OF that]]) (use lt [OF that] 2(2) in auto)
      then have "stored (disk s2) l" "stored (disk s2) r" using two(1) by simp_all
      then have "stored (disk s2) ?t" using 2(2,7,8) two(2) height_less_pagecnt [OF t(1)] fr'(3) by simp
      moreover have "wf_tree (norecpp s2) ?t" using st(2,3) two(1,3,5) 2(5) fr'(1) e by simp
      moreover have ps: "\<forall>m\<in>set (pages l) \<union> set (pages r). m < pagecnt s1" using lt two(1) by auto
      then have "distinct (pages ?t)" using dt two(1) by auto
      moreover have "\<forall>m\<in>set (pages ?t). m < pagecnt s2" using ps by (auto simp: 2(4) less_Suc_eq)
      ultimately have "holds s2 ?t" by (simp only: holds_def)
      then have "index_of s2 (put_in kc uniq x xs)"
        using two(1) 1(3) 2(3) \<open>frame s s1\<close> ix False height_less_pagecnt [OF t(1)] fr'(3)
        by (auto simp: index_of_def intro!: exI [of _ ?t])
      then show ?thesis using 2(1,5,6) fr' g by (auto simp: granted_def)
    qed
  qed
qed

end

end
