(* ===== verification/Btree_Search.thy ===== *)
theory Btree_Search
  imports Btree_Refines
begin

text \<open>
  Searching an index with btsrch in the mode M_EQUAL: it finds the first entry of the index with the
  key, or the entry with the key and the record number, wherever the tree keeps it. The search only
  needs that the entries are sorted as seen from the target, so it also covers targets that are a
  prefix of a key.
\<close>

section \<open>The loop over one page\<close>

lemma scan_page_stop: "\<not> 0 < s_e v \<Longrightarrow> scan_page kc mode f t p n v s = (Inr v, s)"
  by (cases n) (simp_all add: cm_simps)

lemma scan_page_equal:
  assumes "length E = entry_cnt p" and "\<And>r. r < entry_cnt p \<Longrightarrow> e_key (slot p r) = snd (E ! r)"
    and "\<And>r. r < entry_cnt p \<Longrightarrow> pn p r = 0 \<Longrightarrow> e_recno (slot p r) = fst (E ! r)"
    and "\<And>r. r < entry_cnt p \<Longrightarrow> pn p r \<noteq> 0 \<Longrightarrow>
      btlr f (pn p r) (e_recno t) s = (Inr (cmp_recno (e_recno t) (fst (E ! r))), s)"
    and "r + n = entry_cnt p" and "0 < s_e v" and "s_r v = r" and "s_pn3 v = pn p r" and "s_found v = None"
  defines "x \<equiv> (e_recno t, e_key t)" and "u \<equiv> e_recno t = 0"
  shows "\<exists>v'. scan_page kc M_EQUAL f t p n v s = (Inr v', s)
    \<and> (let i = r + rank kc u x (drop r E) in s_r v' = i \<and> s_pn3 v' = pn p i
       \<and> s_found v' = (if i < entry_cnt p \<and> side kc u x (E ! i) = 0 \<and> pn p i = 0 then Some (Some i) else None))"
  using assms(5-9)
proof (induction n arbitrary: r v)
  case 0
  then show ?case using assms(1) by (simp add: cm_simps rank_def Let_def)
next
  case (Suc n)
  have r: "r < entry_cnt p" "r + 1 + n = entry_cnt p" using Suc.prems by simp_all
  have d: "drop r E = E ! r # drop (r + 1) E" using r assms(1) by (simp add: Cons_nth_drop_Suc)
  have k: "e_key (slot p r) = snd (E ! r)" by (rule assms(2) [OF r(1)])
  let ?e = "kc (e_key t) (snd (E ! r))"
  let ?c = "cmp_recno (e_recno t) (fst (E ! r))"
  have st: "scan_page kc M_EQUAL f t p (Suc n) v s =
     (if 0 < side kc u x (E ! r) then scan_page kc M_EQUAL f t p n (next_r (v\<lparr>s_e := if ?e = 0 then ?c else ?e,
          s_n3 := if ?e = 0 then e_recno t else s_n3 v\<rparr>) (pn p (r + 1))) s
      else (Inr (v\<lparr>s_e := (if ?e = 0 then if u then 0 else ?c else ?e), s_n3 := if ?e = 0 then e_recno t else s_n3 v,
          s_found := if side kc u x (E ! r) = 0 \<and> pn p r = 0 then Some (Some r) else None\<rparr>), s))"
  proof (cases "?e = 0")
    case True
    have b: "(if e_pno (slot p r) = 0 then e_recno (slot p r) = fst (E ! r)
        else btlr f (e_pno (slot p r)) (e_recno t) s = (Inr ?c, s))"
      using assms(3,4) [OF r(1)] by (simp add: pn_def)
    have v: "0 < s_e v" "s_r v = r" "s_pn3 v = e_pno (slot p r)" "s_found v = None" using Suc.prems by (simp_all add: pn_def)
    have c: "cmp_recno a b = 0 \<longleftrightarrow> a = b" "cmp_recno a a = 0" for a b by (simp_all add: cmp_recno_def)
    have si: "side kc u x (E ! r) = (if u then 0 else ?c)" using True by (simp add: side_def x_def)
    show ?thesis
    proof (cases "e_recno t = 0")
      case True
      then show ?thesis using \<open>?e = 0\<close> r k v si
        by (simp add: page_reads cm_simps Let_def u_def pn_def scan_page_stop)
    next
      case False
      then show ?thesis using \<open>?e = 0\<close> r k v b si
        by (cases "e_pno (slot p r) = 0"; cases "?c = 0")
          (simp_all add: page_reads cm_simps Let_def u_def pn_def scan_page_stop c)
    qed
  next
    case False
    then show ?thesis using r k Suc.prems
      by (simp add: page_reads cm_simps Let_def side_def x_def sgn_if pn_def scan_page_stop)
  qed
  have nx: "pn p (r + 1) = pn p (Suc r)" by simp
  let ?v = "next_r (v\<lparr>s_e := if ?e = 0 then ?c else ?e, s_n3 := if ?e = 0 then e_recno t else s_n3 v\<rparr>) (pn p (r + 1))"
  show ?case
  proof (cases "0 < side kc u x (E ! r)")
    case True
    then have "0 < s_e ?v" by (auto simp: side_def x_def next_r_def Let_def sgn_if split: if_splits)
    moreover have "s_r ?v = r + 1" "s_pn3 ?v = pn p (r + 1)" "s_found ?v = None" using Suc.prems by (simp_all add: next_r_def)
    ultimately obtain v' where "scan_page kc M_EQUAL f t p n ?v s = (Inr v', s)"
      "let i = r + 1 + rank kc u x (drop (r + 1) E) in s_r v' = i \<and> s_pn3 v' = pn p i
       \<and> s_found v' = (if i < entry_cnt p \<and> side kc u x (E ! i) = 0 \<and> pn p i = 0 then Some (Some i) else None)"
      using Suc.IH [OF r(2)] by blast
    then show ?thesis unfolding st d rank_Cons using True by (simp add: Let_def)
  next
    case False
    then show ?thesis unfolding st d rank_Cons using Suc.prems r(1) by (simp add: Let_def)
  qed
qed

section \<open>The search\<close>

definition seen_sorted :: "('k \<Rightarrow> 'k \<Rightarrow> int) \<Rightarrow> bool \<Rightarrow> nat \<times> 'k \<Rightarrow> (nat \<times> 'k) list \<Rightarrow> bool" where
  \<comment> \<open>first the entries below the target, then the ones that match it, then the ones above\<close>
  "seen_sorted kc u x = sorted_wrt (\<lambda>y z. side kc u x z \<le> side kc u x y)"

lemma rank_mid:
  assumes "\<And>y. y \<in> set A \<Longrightarrow> 0 < side kc u x y" and "C = [] \<or> B \<noteq> [] \<and> side kc u x (last B) \<le> 0"
  shows "rank kc u x (A @ B @ C) = length A + rank kc u x B"
proof -
  have "\<forall>y\<in>set A. 0 < side kc u x y" using assms(1) by blast
  moreover have "C = [] \<or> (\<exists>y\<in>set B. \<not> 0 < side kc u x y)" using assms(2) last_in_set [of B] by (auto simp: not_less)
  ultimately show ?thesis unfolding rank_def by (auto simp: takeWhile_append2 takeWhile_append1)
qed

lemma search_place:
  fixes cs :: "'k bt list"
  defines "i kc u x \<equiv> rank kc u x (seps cs)"
  assumes cs: "cs \<noteq> []" "\<forall>c\<in>set cs. leaves c \<noteq> []" and so: "seen_sorted kc u x (concat (map leaves cs))"
  shows "i kc u x < length cs"
    and "y \<in> set (concat (map leaves (take (i kc u x) cs))) \<Longrightarrow> 0 < side kc u x y"
    and "Suc (i kc u x) < length cs \<Longrightarrow> side kc u x (last (leaves (cs ! i kc u x))) \<le> 0"
proof -
  let ?i = "i kc u x"
  have l: "length (seps cs) = length cs - 1" by (simp add: seps_def)
  show i: "?i < length cs" using rank_le [of kc u x "seps cs"] cs(1) l unfolding i_def by (cases cs) auto
  have E: "seps cs ! j = last (leaves (cs ! j))" if "Suc j < length cs" for j
    using that nth_butlast [of j cs] by (simp add: seps_def less_diff_conv)
  show "Suc ?i < length cs \<Longrightarrow> side kc u x (last (leaves (cs ! ?i))) \<le> 0"
    using rank_stop [of kc u x "seps cs"] E [of ?i] l unfolding i_def by fastforce
  assume y: "y \<in> set (concat (map leaves (take ?i cs)))"
  then obtain c where "c \<in> set (take ?i cs)" and yc: "y \<in> set (leaves c)" by auto
  then obtain j where j: "j < ?i" "c = cs ! j" using i by (auto simp: in_set_conv_nth [of c])
  have "0 < side kc u x (last (leaves c))"
    using rank_below [of j kc u x "seps cs"] j i E [of j] by (simp add: i_def)
  moreover have "y = last (leaves c) \<or> side kc u x (last (leaves c)) \<le> side kc u x y"
  proof -
    have ne: "leaves c \<noteq> []" using yc by auto
    have "sorted_wrt (\<lambda>y z. side kc u x z \<le> side kc u x y) (leaves c)"
      using so concat_split [of j "map leaves cs"] j i by (simp add: seen_sorted_def sorted_wrt_append)
    then have "sorted_wrt (\<lambda>y z. side kc u x z \<le> side kc u x y) (butlast (leaves c) @ [last (leaves c)])" using ne by simp
    moreover have "y \<in> set (butlast (leaves c) @ [last (leaves c)])" using yc ne by simp
    ultimately show ?thesis by (auto simp: sorted_wrt_append)
  qed
  ultimately show "0 < side kc u x y" by auto
qed

definition finds :: "('k \<Rightarrow> 'k \<Rightarrow> int) \<Rightarrow> nat \<Rightarrow> 'k bt \<Rightarrow> 'k entry \<Rightarrow> 'k ndx \<Rightarrow> bool" where
  \<comment> \<open>what btsrch says about the tree t; a target with the record number 0 matches any record\<close>
  "finds kc f t tg s \<longleftrightarrow>
     (let u = (e_recno tg = 0); x = (e_recno tg, e_key tg); ys = leaves t; i = rank kc u x ys in
      if i < length ys \<and> side kc u x (ys ! i) = 0 then
        \<exists>pno j. btsrch kc M_EQUAL f (root_of t) tg s = (Inr (fst (ys ! i)), s\<lparr>page_no := pno, entry_no := j\<rparr>)
          \<and> pno \<in> set (pages t) \<and> j < entry_cnt (disk s pno) \<and> rk (disk s pno) j = ys ! i
      else btsrch kc M_EQUAL f (root_of t) tg s = (Inr 0, s))"

lemma btsrch_step:
  assumes "granted s" and "pno \<noteq> 0" and "pno < pagecnt s"
    and "scan_page kc M_EQUAL f t (disk s pno) (entry_cnt (disk s pno))
      \<lparr>s_e = 1, s_e2 = - 1, s_r = 0, s_r0 = None, s_pn0 = 0, s_pn3 = pn (disk s pno) 0, s_n3 = 0, s_found = None\<rparr> s = (Inr v, s)"
    and "s_found v = None \<or> s_found v = Some (Some r)"
  shows "btsrch kc M_EQUAL (Suc f) pno t s =
    (case s_found v of Some r \<Rightarrow> found pno (disk s pno) r s | None \<Rightarrow> btsrch kc M_EQUAL f (s_pn3 v) t s)"
proof -
  have "btsrch kc M_EQUAL (Suc f) pno t s = (case s_found v of
          Some None \<Rightarrow> ret (s_n3 v)
        | Some (Some r) \<Rightarrow> found pno (disk s pno) (Some r)
        | None \<Rightarrow> bnd (btsrch kc M_EQUAL f (s_pn3 v) t) ret) s"
    using assms by (simp add: cm_simps getpage_app page_reads pn_def cong: option.case_cong)
  also have "bnd (btsrch kc M_EQUAL f (s_pn3 v) t) ret = btsrch kc M_EQUAL f (s_pn3 v) t"
    by (auto simp: bnd_def ret_def fun_eq_iff split: prod.split sum.split)
  finally show ?thesis using assms(5) by auto
qed

lemma found_app: "j < entry_cnt p \<Longrightarrow> found pno p (Some j) s = (Inr (fst (rk p j)), s\<lparr>page_no := pno, entry_no := j\<rparr>)"
  by (simp add: found_def cm_simps page_reads rk_def)

lemma search_leaf:
  assumes hd: "readable s (Lf n es)" and g: "granted s" and f: "1 < f"
  shows "finds kc f (Lf n es) tg s"
proof -
  let ?x = "(e_recno tg, e_key tg)" and ?u = "e_recno tg = 0" and ?p = "disk s n"
  let ?i = "rank kc ?u ?x es"
  obtain f' where f': "f = Suc (Suc f')" using less_imp_Suc_add [OF f] by auto
  have st: "stored (disk s) (Lf n es)" and n: "n \<noteq> 0" "n < pagecnt s" using hd by (auto simp: readable_def)
  note p = page_of_leaf [OF st]
  let ?v = "\<lparr>s_e = 1, s_e2 = - 1, s_r = 0, s_r0 = None, s_pn0 = 0, s_pn3 = pn ?p 0, s_n3 = 0, s_found = None\<rparr> :: scan"
  have "\<exists>v'. scan_page kc M_EQUAL (Suc f') tg ?p (entry_cnt ?p) ?v s = (Inr v', s)
    \<and> (let i = 0 + rank kc ?u ?x (drop 0 es) in s_r v' = i \<and> s_pn3 v' = pn ?p i
       \<and> s_found v' = (if i < entry_cnt ?p \<and> side kc ?u ?x (es ! i) = 0 \<and> pn ?p i = 0 then Some (Some i) else None))"
    by (rule scan_page_equal) (use p(1) leaf_entries [OF st] in auto)
  then obtain v' where v: "scan_page kc M_EQUAL (Suc f') tg ?p (entry_cnt ?p) ?v s = (Inr v', s)" "s_pn3 v' = 0"
    "s_found v' = (if ?i < length es \<and> side kc ?u ?x (es ! ?i) = 0 then Some (Some ?i) else None)"
    using p(1) p(3) [OF rank_le, of kc ?u ?x] by (auto simp: Let_def)
  have "btsrch kc M_EQUAL f n tg s = (case s_found v' of Some r \<Rightarrow> found n ?p r s | None \<Rightarrow> btsrch kc M_EQUAL (Suc f') 0 tg s)"
    unfolding f' using btsrch_step [OF g n v(1), of ?i] v(2,3) by (simp split: if_splits del: btsrch.simps)
  then show ?thesis
    using v(3) p(1) p(2) [of ?i] found_app [of ?i ?p n s] by (auto simp: finds_def Let_def cm_simps split: if_splits)
qed

lemma search_node:
  assumes hd: "readable s (Nd n cs ss)" and g: "granted s" and h: "height (Nd n cs ss) \<le> Suc f"
    and so: "seen_sorted kc (e_recno tg = 0) (e_recno tg, e_key tg) (leaves (Nd n cs ss))"
    and IH: "\<And>c. c \<in> set cs \<Longrightarrow> finds kc f c tg s"
  shows "finds kc (Suc f) (Nd n cs ss) tg s"
proof -
  let ?t = "Nd n cs ss" and ?x = "(e_recno tg, e_key tg)" and ?u = "e_recno tg = 0" and ?p = "disk s n"
  define i where "i = rank kc ?u ?x (seps cs)"
  have st: "stored (disk s) ?t" and wf: "shaped (norecpp s) ?t" and n: "n \<noteq> 0" "n < pagecnt s"
    and lt: "\<forall>m\<in>set (pages ?t). m < pagecnt s" using hd by (auto simp: readable_def)
  have ne: "cs \<noteq> []" "\<forall>c\<in>set cs. leaves c \<noteq> []" using wf by auto
  note p = page_of_node [OF st wf] and en = node_entries [OF st wf g h lt]
  note place = search_place [OF ne so [unfolded leaves.simps], folded i_def]
  have l: "length (seps cs) = length ss" "length cs = length ss + 1" using wf by (simp_all add: seps_def)
  let ?v = "\<lparr>s_e = 1, s_e2 = - 1, s_r = 0, s_r0 = None, s_pn0 = 0, s_pn3 = pn ?p 0, s_n3 = 0, s_found = None\<rparr> :: scan"
  have "\<exists>v'. scan_page kc M_EQUAL f tg ?p (entry_cnt ?p) ?v s = (Inr v', s)
    \<and> (let i = 0 + rank kc ?u ?x (drop 0 (seps cs)) in s_r v' = i \<and> s_pn3 v' = pn ?p i
       \<and> s_found v' = (if i < entry_cnt ?p \<and> side kc ?u ?x (seps cs ! i) = 0 \<and> pn ?p i = 0 then Some (Some i) else None))"
    by (rule scan_page_equal) (use p(1) l en in auto)
  moreover have "i \<le> length ss" using place(1) l by simp
  ultimately obtain v' where v: "scan_page kc M_EQUAL f tg ?p (entry_cnt ?p) ?v s = (Inr v', s)"
    "s_pn3 v' = root_of (cs ! i)" "s_found v' = None"
    using p(3,5) [of i] by (auto simp: Let_def i_def)
  have go: "btsrch kc M_EQUAL (Suc f) (root_of ?t) tg s = btsrch kc M_EQUAL f (root_of (cs ! i)) tg s"
    using btsrch_step [OF g n v(1), of 0] v(2,3) by (simp del: btsrch.simps)
  let ?A = "concat (map leaves (take i cs))" and ?c = "cs ! i" and ?C = "concat (map leaves (drop (Suc i) cs))"
  have c: "?c \<in> set cs" using place(1) by simp
  have lv: "leaves ?t = ?A @ leaves ?c @ ?C"
    using concat_split [of i "map leaves cs"] place(1) by (simp add: take_map drop_map)
  let ?j = "rank kc ?u ?x (leaves ?c)"
  have last: "?C = [] \<or> leaves ?c \<noteq> [] \<and> side kc ?u ?x (last (leaves ?c)) \<le> 0"
  proof (cases "Suc i < length cs")
    case True
    then show ?thesis using place(3) ne(2) c by blast
  qed simp
  have rk: "rank kc ?u ?x (leaves ?t) = length ?A + ?j"
    unfolding lv using place(2) last by (rule rank_mid)
  have end': "?j = length (leaves ?c) \<Longrightarrow> ?C = []"
  proof -
    assume j: "?j = length (leaves ?c)"
    have "0 < side kc ?u ?x (last (leaves ?c))"
      using rank_below [of "length (leaves ?c) - 1" kc ?u ?x "leaves ?c"] j ne(2) c by (simp add: last_conv_nth)
    then show "?C = []" using last by auto
  qed
  have hit: "rank kc ?u ?x (leaves ?t) < length (leaves ?t) \<longleftrightarrow> ?j < length (leaves ?c)"
    using rank_le [of kc ?u ?x "leaves ?c"] end' unfolding rk unfolding lv length_append by (cases "?j = length (leaves ?c)") auto
  have at: "?j < length (leaves ?c) \<Longrightarrow> leaves ?t ! rank kc ?u ?x (leaves ?t) = leaves ?c ! ?j"
    unfolding rk unfolding lv by (simp add: nth_append)
  have sub: "set (pages ?c) \<subseteq> set (pages ?t)" using c by auto
  have cond: "rank kc ?u ?x (leaves ?t) < length (leaves ?t) \<and> side kc ?u ?x (leaves ?t ! rank kc ?u ?x (leaves ?t)) = 0
      \<longleftrightarrow> ?j < length (leaves ?c) \<and> side kc ?u ?x (leaves ?c ! ?j) = 0"
    unfolding hit using at by metis
  show ?thesis
  proof (cases "?j < length (leaves ?c) \<and> side kc ?u ?x (leaves ?c ! ?j) = 0")
    case True
    then obtain pno k where "btsrch kc M_EQUAL f (root_of ?c) tg s = (Inr (fst (leaves ?c ! ?j)), s\<lparr>page_no := pno, entry_no := k\<rparr>)"
      "pno \<in> set (pages ?c)" "k < entry_cnt (disk s pno)" "rk (disk s pno) k = leaves ?c ! ?j"
      using IH [OF c] unfolding finds_def Let_def if_P [OF True] by blast
    then have "\<exists>pno k. btsrch kc M_EQUAL (Suc f) (root_of ?t) tg s
        = (Inr (fst (leaves ?t ! rank kc ?u ?x (leaves ?t))), s\<lparr>page_no := pno, entry_no := k\<rparr>)
        \<and> pno \<in> set (pages ?t) \<and> k < entry_cnt (disk s pno) \<and> rk (disk s pno) k = leaves ?t ! rank kc ?u ?x (leaves ?t)"
      using at True sub unfolding go by (intro exI [of _ pno] exI [of _ k]) auto
    then show ?thesis unfolding finds_def Let_def if_P [OF cond [THEN iffD2, OF True]] .
  next
    case False
    then have "btsrch kc M_EQUAL (Suc f) (root_of ?t) tg s = (Inr 0, s)"
      using IH [OF c] unfolding finds_def Let_def if_not_P [OF False] go by blast
    then show ?thesis unfolding finds_def Let_def cond if_not_P [OF False] .
  qed
qed

theorem btsrch_equal:
  assumes "readable s t" and "granted s" and "height t < f"
    and "seen_sorted kc (e_recno tg = 0) (e_recno tg, e_key tg) (leaves t)"
  shows "finds kc f t tg s"
  using assms
proof (induction t arbitrary: f)
  case (Lf n es)
  then show ?case by (intro search_leaf) simp_all
next
  case (Nd n cs ss)
  then obtain f' where f: "f = Suc f'" by (cases f) auto
  have "finds kc f' c tg s" if c: "c \<in> set cs" for c
  proof (rule Nd.IH [OF c])
    show "readable s c" by (rule readable_child [OF Nd.prems(1) c])
    show "height c < f'" using Nd.prems(3) height_child [OF c] by (simp add: f)
    obtain A C where "cs = A @ c # C" using c by (metis in_set_conv_decomp)
    then show "seen_sorted kc (e_recno tg = 0) (e_recno tg, e_key tg) (leaves c)"
      using Nd.prems(4) by (simp add: seen_sorted_def sorted_wrt_append)
  qed (use Nd.prems in auto)
  then show ?case unfolding f using Nd.prems by (intro search_node) (simp_all add: f)
qed

context key_order
begin

lemma seen_sorted_keys:
  assumes "sorted_ents kc ys" and "snd ` set (x # ys) \<subseteq> K"
  shows "seen_sorted kc u x ys"
  unfolding seen_sorted_def sorted_wrt_iff_nth_less using side_nth_mono [OF assms] by auto

end

end
