(* ===== verification/Index_Keys.thy ===== *)
theory Index_Keys
  imports Btree_Search Values
begin

text \<open>
  Index keys (server/dbe/ndx.c): how a key expression makes a key (ndx_put_key, ndx_get_key) and how
  keys are compared (keycmp, nkcmp, skcmp). A key is the list of its parts, a string of the declared
  length or a double. keycmp orders the keys of an index, so the tree lemmas of Btree_Refines apply to
  it: this is the interpretation of key_order at the end.
\<close>

section \<open>Comparing keys\<close>

datatype kpart = KStr string | KNum dbl

type_synonym key = "kpart list"

abbreviation (input) CMBK :: nat where
  "CMBK \<equiv> 0x100"
abbreviation (input) MAXCMBK :: nat where
  "MAXCMBK \<equiv> 16"
abbreviation (input) MAXKEYSZ :: nat where
  "MAXKEYSZ \<equiv> 1024"

record key_hdr =
  keytyp :: nat
  keylen :: nat
  cmb_parts :: "(nat \<times> nat) list" \<comment> \<open>type and length; nparts is the length of the list\<close>
  cmb_keylen :: nat

definition nkcmp :: "dbl \<Rightarrow> dbl \<Rightarrow> int" where
  "nkcmp p q = num_rel (NReal p) (NReal q) TQUESTN"

fun skcmp_from :: "bool \<Rightarrow> string \<Rightarrow> string \<Rightarrow> int" where
  \<comment> \<open>the first argument is i != 0\<close>
  "skcmp_from i (c1 # p) (c2 # q) =
     (if i \<and> c1 = CHR 0x00 then 0
      else if (of_char c2 :: nat) < of_char c1 then 1
      else if (of_char c1 :: nat) < of_char c2 then - 1
      else skcmp_from True p q)"
| "skcmp_from i [] q = 0"
| "skcmp_from i p [] = 0"

definition skcmp :: "string \<Rightarrow> string \<Rightarrow> nat \<Rightarrow> int" where
  "skcmp p q len = skcmp_from False (take len p) (take len q)"

definition part_cmp :: "nat \<times> nat \<Rightarrow> kpart \<Rightarrow> kpart \<Rightarrow> int" where
  \<comment> \<open>keys of an index have parts of the types in its header\<close>
  "part_cmp t p q = (case (p, q) of
       (KStr a, KStr b) \<Rightarrow> if fst t = CHARCTR then skcmp a b (snd t) else 0
     | (KNum a, KNum b) \<Rightarrow> if fst t = CHARCTR then 0 else nkcmp a b
     | _ \<Rightarrow> 0)"

fun parts_cmp :: "(nat \<times> nat) list \<Rightarrow> key \<Rightarrow> key \<Rightarrow> int" where
  "parts_cmp (t # ts) (a # p) (b # q) = (let r = part_cmp t a b in if r \<noteq> 0 then r else parts_cmp ts p q)"
| "parts_cmp _ _ _ = 0"

definition keycmp :: "key_hdr \<Rightarrow> bool \<Rightarrow> key \<Rightarrow> key \<Rightarrow> int" where
  \<comment> \<open>exact is isset(EXACT_ON); the return of i == nparts is 1\<close>
  "keycmp h exact target source =
     (if keytyp h \<noteq> CMBK then parts_cmp [(if keytyp h \<noteq> 0 then NUMBER else CHARCTR, keylen h)] target source
      else
        let r = parts_cmp (cmb_parts h) target source in
        if r \<noteq> 0 then r else if \<not> exact then 0 else 1)"

section \<open>The comparison is an order\<close>

fun part_ok :: "nat \<times> nat \<Rightarrow> kpart \<Rightarrow> bool" where
  \<comment> \<open>strings of the full length without zero bytes; numbers from 0 on that are whole\<close>
  "part_ok t (KStr a) \<longleftrightarrow> fst t = CHARCTR \<and> length a = snd t \<and> CHR 0x00 \<notin> set a"
| "part_ok t (KNum x) \<longleftrightarrow> fst t \<noteq> CHARCTR \<and> (\<exists>n. 0 \<le> n \<and> n < 2 ^ 31 \<and> x = i2d n)"

definition key_types :: "key_hdr \<Rightarrow> (nat \<times> nat) list" where
  "key_types h = (if keytyp h \<noteq> CMBK then [(if keytyp h \<noteq> 0 then NUMBER else CHARCTR, keylen h)] else cmb_parts h)"

definition key_ok :: "key_hdr \<Rightarrow> key \<Rightarrow> bool" where
  "key_ok h k \<longleftrightarrow> list_all2 part_ok (key_types h) k"

lemma keycmp_types: "keycmp h False p q = parts_cmp (key_types h) p q"
  by (simp add: keycmp_def key_types_def Let_def)

lemma keycmp_exact: "keytyp h \<noteq> CMBK \<Longrightarrow> keycmp h exact = keycmp h False"
  by (simp add: keycmp_def fun_eq_iff)

lemma skcmp_swap: "length p = length q \<Longrightarrow> CHR 0x00 \<notin> set p \<Longrightarrow> CHR 0x00 \<notin> set q \<Longrightarrow>
  skcmp_from i q p = - skcmp_from i p q"
  by (induction i p q rule: skcmp_from.induct) auto

lemma skcmp_trans:
  "length p = length q \<Longrightarrow> length q = length r \<Longrightarrow> CHR 0x00 \<notin> set p \<Longrightarrow> CHR 0x00 \<notin> set q \<Longrightarrow>
   skcmp_from i p q \<le> 0 \<Longrightarrow> skcmp_from i q r \<le> 0 \<Longrightarrow> skcmp_from i p r \<le> 0"
proof (induction p arbitrary: i q r)
  case Nil
  then show ?case by simp
next
  case (Cons c1 p)
  obtain c2 q' where q: "q = c2 # q'" using Cons.prems(1) by (cases q) auto
  obtain c3 r' where r: "r = c3 # r'" using Cons.prems(2) q by (cases r) auto
  have z: "c1 \<noteq> CHR 0x00" "c2 \<noteq> CHR 0x00" using Cons.prems(3,4) q by auto
  have 1: "(of_char c1 :: nat) < of_char c2 \<or> (of_char c1 :: nat) = of_char c2 \<and> skcmp_from True p q' \<le> 0"
    using Cons.prems(5) z(1) unfolding q by (simp split: if_splits)
  have 2: "(of_char c2 :: nat) < of_char c3 \<or> (of_char c2 :: nat) = of_char c3 \<and> skcmp_from True q' r' \<le> 0"
    using Cons.prems(6) z(2) unfolding q r by (simp split: if_splits)
  have "skcmp_from True p r' \<le> 0" if "skcmp_from True p q' \<le> 0" "skcmp_from True q' r' \<le> 0"
    by (rule Cons.IH [OF _ _ _ _ that]) (use Cons.prems q r in auto)
  then show ?case using 1 2 z(1) unfolding r by auto
qed

lemma ilog2_p2: "ilog2 (p2 e) = e"
proof -
  note b = ilog2_bounds [OF p2_pos [of e]]
  have "\<not> e + 1 \<le> ilog2 (p2 e)"
  proof
    assume "e + 1 \<le> ilog2 (p2 e)"
    then have "p2 (e + 1) \<le> p2 e" using b(1) p2_mono order_trans by blast
    then show False using p2_succ [of e] p2_pos [of e] by linarith
  qed
  moreover have "\<not> ilog2 (p2 e) + 1 \<le> e"
    using b(2) p2_mono [of "ilog2 (p2 e) + 1" e] by auto
  ultimately show ?thesis by simp
qed

lemma tiny: "dmul DBL_EPSILON DBL_MIN = Fin False (p2 (- 1074))"
proof -
  have "p2 (- 52) * p2 (- 1022) = p2 (- 1074)" using p2_add [of "- 52" "- 1022"] by simp
  moreover have "\<not> p2 1024 \<le> p2 (- 1074)"
  proof
    assume "p2 1024 \<le> p2 (- 1074)"
    also have "p2 (- 1074) \<le> p2 1023" by (rule p2_mono) simp
    finally show False using p2_succ [of 1023] p2_pos [of 1023] by simp
  qed
  ultimately have "rnd False (p2 (- 52) * p2 (- 1022)) = Fin False (p2 (- 1074))"
    using rhe_of_int [of 1] by (simp add: rnd_def ilog2_p2)
  then show ?thesis by (simp add: DBL_EPSILON_def DBL_MIN_def)
qed

lemma dbl_isequal_ints:
  assumes a: "0 \<le> a" "a < 2 ^ 31" and b: "0 \<le> b" "b < 2 ^ 31"
  shows "dbl_isequal (i2d a) (i2d b) \<longleftrightarrow> a = b"
proof (cases "a = b")
  case True
  have "deq (i2d a) (i2d b)" using a True by (simp add: i2d_exact)
  then show ?thesis using True unfolding dbl_isequal_def Let_def by blast
next
  case False
  let ?d = "\<bar>a - b\<bar>" and ?s = "a + b"
  have i: "i2d a = Fin False (of_int a)" "i2d b = Fin False (of_int b)" using a b by (simp_all add: i2d_exact)
  have d: "dabs (dsub (i2d a) (i2d b)) = Fin False (of_int ?d)"
  proof -
    have "(of_int a - of_int b :: rat) = of_int (a - b)" by simp
    then have "dsub (i2d a) (i2d b) = rnd (a < b) (of_int ?d)"
      using False by (simp add: i dsub_def of_val_def del: of_int_diff) simp
    also have "\<dots> = Fin (a < b) (of_int ?d)" using a b by (intro rnd_of_int) auto
    finally show ?thesis by simp
  qed
  have s: "dadd (i2d a) (i2d b) = Fin False (of_int ?s)"
    using rnd_of_int [of ?s False] a b False by (simp add: i of_val_def)
  have one: "(1::rat) \<le> of_int ?d" using False by simp
  have lt1: "p2 (- n) \<le> 1" if "0 \<le> n" for n using p2_mono [of "- n" 0] that by (simp add: p2_def)
  have s0: "(0::rat) < of_int ?s" using a b False by simp
  have s1: "(of_int ?s :: rat) < 2 ^ 32"
  proof -
    have "?s < 2 ^ 32" using a b by simp
    then have "(of_int ?s :: rat) < of_int (2 ^ 32)" by (simp only: of_int_less_iff)
    then show ?thesis by simp
  qed
  have q: "\<not> dlt (ddiv (Fin False (of_int ?d)) (Fin False (of_int ?s))) DBL_EPSILON"
  proof -
    define x where "x = (of_int ?d / of_int ?s :: rat)"
    have lo: "1 / 2 ^ 32 \<le> x"
    proof -
      have "1 / 2 ^ 32 \<le> 1 / (of_int ?s :: rat)" using s0 s1 by (intro divide_left_mono) auto
      also have "\<dots> \<le> x" unfolding x_def using one s0 by (intro divide_right_mono) auto
      finally show ?thesis .
    qed
    have "(of_int ?d :: rat) \<le> of_int ?s" using a b by (simp only: of_int_le_iff)
    then have hi: "x \<le> 1" using s0 by (simp add: x_def)
    have "p2 (- 1022) \<le> p2 (- 32)" by (rule p2_mono) simp
    then have "p2 (- 1022) \<le> x" using lo by (simp add: p2_def [of "- 32"])
    moreover have "p2 1 \<le> p2 1000" by (rule p2_mono) simp
    then have "x < p2 1000" using hi by (simp add: p2_def [of 1])
    ultimately obtain v where v: "rnd False x = Fin False v" "\<bar>v - x\<bar> \<le> x * p2 (- 53)" using rnd_err by blast
    have "x * p2 (- 53) \<le> x * (1 / 2)" using lo by (intro mult_left_mono) (simp_all add: p2_def [of "- 53"])
    moreover have "x - v \<le> x * p2 (- 53)" using v(2) by linarith
    ultimately have "x / 2 \<le> v" by simp
    then have "1 / 2 ^ 33 \<le> v" using lo by simp
    moreover have "p2 (- 52) < 1 / 2 ^ 33" by (simp add: p2_def)
    moreover have "ddiv (Fin False (of_int ?d)) (Fin False (of_int ?s)) = rnd False x" unfolding x_def using s0 by simp
    ultimately show ?thesis by (simp only: v(1)) (simp add: DBL_EPSILON_def)
  qed
  have mx: "dmin (Fin False (of_int ?s)) DBL_MAX = Fin False (of_int ?s)"
  proof -
    have "p2 33 \<le> p2 1023" by (rule p2_mono) simp
    then have "1 * p2 33 \<le> (2 - p2 (- 52)) * p2 1023" using lt1 [of 52] less_imp_le [OF p2_pos [of 33]] by (intro mult_mono) auto
    then have "(2::rat) ^ 33 \<le> (2 - p2 (- 52)) * p2 1023" by (simp add: p2_def [of 33])
    then show ?thesis using s1 by (simp add: DBL_MAX_def)
  qed
  have t: "\<not> dlt (Fin False (of_int ?d)) (dmul DBL_EPSILON DBL_MIN)"
    using one lt1 [of 1074] unfolding tiny by simp
  have "\<not> deq (i2d a) (i2d b)" using False by (simp add: i)
  moreover have "dabs (i2d a) = i2d a" "dabs (i2d b) = i2d b" by (simp_all add: i)
  ultimately show ?thesis
    using False q t unfolding dbl_isequal_def Let_def by (simp only: d s mx) blast
qed


lemma nkcmp_ints:
  assumes "0 \<le> a" "a < 2 ^ 31" "0 \<le> b" "b < 2 ^ 31"
  shows "nkcmp (i2d a) (i2d b) = sgn (a - b)"
proof -
  have "dlt (i2d b) (i2d a) \<longleftrightarrow> b < a" using assms by (simp add: i2d_exact)
  then show ?thesis
    using assms by (auto simp: nkcmp_def num_rel_def num_dbl_def dbl_isequal_ints Let_def sgn_if)
qed

lemma part_cmp_swap:
  assumes "part_ok t p" and "part_ok t q"
  shows "part_cmp t q p = - part_cmp t p q"
proof (cases "fst t = CHARCTR")
  case True
  then obtain a b where "p = KStr a" "q = KStr b" using assms by (cases p; cases q) auto
  then show ?thesis using True assms skcmp_swap [of a b False] by (simp add: part_cmp_def skcmp_def)
next
  case False
  then obtain a b where "p = KNum (i2d a)" "q = KNum (i2d b)" "0 \<le> a" "a < 2 ^ 31" "0 \<le> b" "b < 2 ^ 31"
    using assms by (cases p; cases q) auto
  then show ?thesis using False by (simp add: part_cmp_def nkcmp_ints sgn_if)
qed

lemma part_cmp_trans:
  assumes "part_ok t p" and "part_ok t q" and "part_ok t r" and le: "part_cmp t p q \<le> 0" "part_cmp t q r \<le> 0"
  shows "part_cmp t p r \<le> 0"
proof (cases "fst t = CHARCTR")
  case True
  then obtain a b c where "p = KStr a" "q = KStr b" "r = KStr c" using assms(1-3) by (cases p; cases q; cases r) auto
  then show ?thesis using True assms skcmp_trans [of a b c False] by (simp add: part_cmp_def skcmp_def)
next
  case False
  then obtain a b c where *: "p = KNum (i2d a)" "q = KNum (i2d b)" "r = KNum (i2d c)"
    "0 \<le> a" "a < 2 ^ 31" "0 \<le> b" "b < 2 ^ 31" "0 \<le> c" "c < 2 ^ 31"
    using assms(1-3) by (cases p; cases q; cases r) auto
  then have "sgn (a - b) \<le> 0" "sgn (b - c) \<le> 0" using False le by (simp_all add: part_cmp_def nkcmp_ints)
  then have "sgn (a - c) \<le> 0" by (simp add: sgn_if split: if_splits)
  then show ?thesis using False * by (simp add: part_cmp_def nkcmp_ints)
qed

lemma parts_cmp_swap: "list_all2 part_ok ts p \<Longrightarrow> list_all2 part_ok ts q \<Longrightarrow> parts_cmp ts q p = - parts_cmp ts p q"
proof (induction ts arbitrary: p q)
  case (Cons t ts)
  then obtain a p' b q' where l: "p = a # p'" "q = b # q'" and ok: "part_ok t a" "part_ok t b"
    and rest: "list_all2 part_ok ts p'" "list_all2 part_ok ts q'" by (auto simp: list_all2_Cons1)
  show ?case using part_cmp_swap [OF ok] Cons.IH [OF rest] unfolding l by (simp add: Let_def)
qed simp

lemma parts_cmp_trans:
  "list_all2 part_ok ts p \<Longrightarrow> list_all2 part_ok ts q \<Longrightarrow> list_all2 part_ok ts r \<Longrightarrow>
   parts_cmp ts p q \<le> 0 \<Longrightarrow> parts_cmp ts q r \<le> 0 \<Longrightarrow> parts_cmp ts p r \<le> 0"
proof (induction ts arbitrary: p q r)
  case (Cons t ts)
  obtain a p' b q' c r' where l: "p = a # p'" "q = b # q'" "r = c # r'"
    and ok: "part_ok t a" "part_ok t b" "part_ok t c"
    and rest: "list_all2 part_ok ts p'" "list_all2 part_ok ts q'" "list_all2 part_ok ts r'"
    using Cons.prems(1-3) by (auto simp: list_all2_Cons1)
  have 1: "part_cmp t a b < 0 \<or> part_cmp t a b = 0 \<and> parts_cmp ts p' q' \<le> 0"
    using Cons.prems(4) unfolding l by (auto simp: Let_def split: if_splits)
  have 2: "part_cmp t b c < 0 \<or> part_cmp t b c = 0 \<and> parts_cmp ts q' r' \<le> 0"
    using Cons.prems(5) unfolding l by (auto simp: Let_def split: if_splits)
  have le: "part_cmp t a c \<le> 0" using part_cmp_trans [OF ok] 1 2 by auto
  have "parts_cmp ts p' r' \<le> 0" if "part_cmp t a c = 0"
  proof -
    have "part_cmp t c a \<le> 0" using that part_cmp_swap [OF ok(1,3)] by simp
    then have "0 \<le> part_cmp t b c" "0 \<le> part_cmp t a b"
      using part_cmp_trans [OF ok(3,1,2)] part_cmp_trans [OF ok(2,3,1)] part_cmp_swap [OF ok(2,3)] part_cmp_swap [OF ok(1,2)] 1 2
      by auto
    then show ?thesis using 1 2 Cons.IH [OF rest] by auto
  qed
  then show ?case using le unfolding l by (simp add: Let_def)
qed simp

interpretation index_keys: key_order "keycmp h False" "{k. key_ok h k}" for h
proof
  fix a b c
  assume k: "a \<in> {k. key_ok h k}" "b \<in> {k. key_ok h k}"
  then show "sgn (keycmp h False b a) = - sgn (keycmp h False a b)"
    using parts_cmp_swap [of "key_types h" a b] by (simp add: key_ok_def keycmp_types sgn_if)
  assume "c \<in> {k. key_ok h k}" "keycmp h False a b \<le> 0" "keycmp h False b c \<le> 0"
  then show "keycmp h False a c \<le> 0"
    using k parts_cmp_trans [of "key_types h" a b c] by (simp add: key_ok_def keycmp_types)
qed

section \<open>Inserting into an index\<close>

definition usable :: "key ndx \<Rightarrow> bool" where
  \<comment> \<open>locks are granted, and a page has room for two entries\<close>
  "usable s \<longleftrightarrow> granted s \<and> 2 \<le> norecpp s"

text \<open>C2: Inserting an entry into an index refines inserting it into the sorted list of its
  entries. Whatever well-formed tree of pages holds the list, insert_new either finds an entry with the same key (and,
  unless UNIQUE is on, the same record number), returns 0 and leaves the pages as they are, or returns 1 and
  leaves an index whose entries are the old ones with the new one in its place in the order of keys and record
  numbers, splitting pages up to the root where they are full. As many rounds of the recursion as there are
  pages are enough. A tree is well formed when each separator of an inner page has the last key of the child before it and
  a record number, as insertions leave it (neither a deletion nor qindex does); locks are granted, a page has room for two
  entries, the keys are strings of the declared length without NUL or whole numbers from 0 below 2^31 (key_ok), and EXACT is off for combined keys.\<close>
theorem insert_new_refines_sorted:
  assumes "index_of s xs" and "usable s" and "sorted_ents (keycmp h exact) xs"
    and "\<forall>y\<in>set xs. key_ok h (snd y)" and "key_ok h (e_key tg)" and "e_recno tg \<noteq> 0" and "e_pno tg = 0"
    and "keytyp h \<noteq> CMBK \<or> \<not> exact" and "pagecnt s \<le> f"
  shows "if \<exists>y\<in>set xs. side (keycmp h exact) uniq (e_recno tg, e_key tg) y = 0
    then insert_new (keycmp h exact) uniq ex f tg s = (Inr 0, s\<lparr>e_o_f := False\<rparr>)
    else \<exists>s'. insert_new (keycmp h exact) uniq ex f tg s = (Inr 1, s') \<and> usable s'
      \<and> index_of s' (put_in (keycmp h exact) uniq (e_recno tg, e_key tg) xs)
      \<and> sorted_ents (keycmp h exact) (put_in (keycmp h exact) uniq (e_recno tg, e_key tg) xs)"
proof -
  have k: "keycmp h exact = keycmp h False" using assms(8) keycmp_exact [of h exact] by (cases exact) auto
  have K: "snd ` set ((e_recno tg, e_key tg) # xs) \<subseteq> {k. key_ok h k}" using assms(4,5) by auto
  note so = assms(3) [unfolded k]
  have u: "granted s" "2 \<le> norecpp s" using assms(2) by (simp_all add: usable_def)
  note ins = index_keys.insert_new_refines [OF assms(1,9) u so K assms(6,7), of uniq ex]
  show ?thesis
  proof (cases "\<exists>y\<in>set xs. side (keycmp h False) uniq (e_recno tg, e_key tg) y = 0")
    case True
    then show ?thesis using ins(1) unfolding k by simp
  next
    case False
    then have "sorted_ents (keycmp h False) (put_in (keycmp h False) uniq (e_recno tg, e_key tg) xs)"
      using index_keys.sorted_put_in [OF so K] by blast
    then show ?thesis using False ins(2) u unfolding k by (auto simp: usable_def)
  qed
qed

definition str_hdr :: "nat \<Rightarrow> key_hdr" where
  "str_hdr n = \<lparr>keytyp = 0, keylen = n, cmb_parts = [], cmb_keylen = 0\<rparr>"

definition page1 :: "(nat \<times> key) list \<Rightarrow> key page" where
  \<comment> \<open>a leaf\<close>
  "page1 es = \<lparr>entry_cnt = length es,
     slot = \<lambda>i. \<lparr>e_pno = 0, e_recno = fst (es ! i), e_key = snd (es ! i)\<rparr>\<rparr>"

definition ndx1 :: "(nat \<times> key) list \<Rightarrow> key ndx" where
  \<comment> \<open>an index of one page\<close>
  "ndx1 es = \<lparr>disk = \<lambda>_. page1 es, rootno = 1, pagecnt = 2, norecpp = 3, page_no = 0, entry_no = 0, e_o_f = False, w_hdr = False,
     ndx_fsync = False, disk_hdr = (0, 0), zero_key = [KStr [CHR 0x00]], grants = \<lambda>_ _. True\<rparr>"

lemma page1_reads: "ents (page1 es) = es" "ptrs (page1 es) = replicate (length es + 1) 0"
proof -
  have "rk (page1 es) = (\<lambda>i. es ! i)" "pn (page1 es) = (\<lambda>i. 0)" by (simp_all add: rk_def pn_def page1_def fun_eq_iff)
  then show "ents (page1 es) = es" "ptrs (page1 es) = replicate (length es + 1) 0"
    by (simp_all add: ents_def ptrs_def page1_def map_nth map_replicate_const del: upt_Suc)
qed

lemma ndx1_index: "length es \<le> 3 \<Longrightarrow> \<forall>y\<in>set es. fst y \<noteq> 0 \<Longrightarrow> index_of (ndx1 es) es"
  using page1_reads [of es] by (auto simp: index_of_def ndx1_def holds_def intro!: exI [of _ "Lf 1 es"])

definition tg1 :: "nat \<Rightarrow> string \<Rightarrow> key entry" where
  "tg1 r k = \<lparr>e_pno = 0, e_recno = r, e_key = [KStr k]\<rparr>"

lemma insert_new_refines_sorted_witness:
  "\<exists>s'. insert_new (keycmp (str_hdr 1) False) False True 2 (tg1 5 ''C'') (ndx1 [(3, [KStr ''B'']), (1, [KStr ''C'']), (2, [KStr ''D''])])
      = (Inr 1, s')
    \<and> index_of s' [(3, [KStr ''B'']), (1, [KStr ''C'']), (5, [KStr ''C'']), (2, [KStr ''D''])]"
proof -
  let ?xs = "[(3, [KStr ''B'']), (1, [KStr ''C'']), (2, [KStr ''D''])] :: (nat \<times> key) list" and ?kc = "keycmp (str_hdr 1) False"
  have so: "sorted_ents ?kc ?xs" by code_simp
  have no: "\<not> (\<exists>y\<in>set ?xs. side ?kc False (e_recno (tg1 5 ''C''), e_key (tg1 5 ''C'')) y = 0)" by code_simp
  have pu: "put_in ?kc False (e_recno (tg1 5 ''C''), e_key (tg1 5 ''C'')) ?xs
      = [(3, [KStr ''B'']), (1, [KStr ''C'']), (5, [KStr ''C'']), (2, [KStr ''D''])]" by code_simp
  have ix: "index_of (ndx1 ?xs) ?xs" by (rule ndx1_index) simp_all
  have us: "usable (ndx1 ?xs)" "pagecnt (ndx1 ?xs) \<le> 2" by (simp_all add: usable_def granted_def ndx1_def)
  have ok: "\<forall>y\<in>set ?xs. key_ok (str_hdr 1) (snd y)" "key_ok (str_hdr 1) (e_key (tg1 5 ''C''))"
    "e_recno (tg1 5 ''C'') \<noteq> 0" "e_pno (tg1 5 ''C'') = 0" "keytyp (str_hdr 1) \<noteq> CMBK \<or> \<not> False"
    by (simp_all add: key_ok_def key_types_def str_hdr_def tg1_def)
  show ?thesis
    using insert_new_refines_sorted [OF ix us(1) so ok us(2), of False True] no unfolding pu by auto
qed


section \<open>A deletion that breaks a later insertion\<close>

definition mkpage :: "(nat \<times> string) list \<Rightarrow> nat list \<Rightarrow> key page" where
  "mkpage es ps = \<lparr>entry_cnt = length es, slot = \<lambda>i. \<lparr>e_pno = if i < length ps then ps ! i else 0,
     e_recno = if i < length es then fst (es ! i) else 0,
     e_key = [KStr (if i < length es then snd (es ! i) else [CHR 0x00])]\<rparr>\<rparr>"

definition tall_pages :: "key page list" where
  \<comment> \<open>the root 1 and its children 2 to 5 have entries for the leaves 6 to 15\<close>
  "tall_pages =
     [mkpage [(2, ''B''), (4, ''D''), (6, ''F'')] [2, 3, 4, 5],
      mkpage [(1, ''A'')] [6, 7], mkpage [(3, ''C'')] [8, 9], mkpage [(5, ''E'')] [10, 11],
      mkpage [(7, ''G''), (9, ''I''), (10, ''J'')] [12, 13, 14, 15],
      mkpage [(1, ''A'')] [0, 0], mkpage [(2, ''B'')] [0, 0], mkpage [(3, ''C'')] [0, 0], mkpage [(4, ''D'')] [0, 0],
      mkpage [(5, ''E'')] [0, 0], mkpage [(6, ''F'')] [0, 0], mkpage [(7, ''G'')] [0, 0],
      mkpage [(8, ''H''), (9, ''I'')] [0, 0, 0], mkpage [(10, ''J'')] [0, 0],
      mkpage [(11, ''K''), (12, ''L''), (13, ''M'')] [0, 0, 0, 0]]"

definition tall :: "key ndx" where
  "tall = (ndx1 [])\<lparr>disk := \<lambda>n. if 0 < n \<and> n \<le> 15 then tall_pages ! (n - 1) else mkpage [] [], pagecnt := 16\<rparr>"

definition strs :: "(nat \<times> string) list \<Rightarrow> (nat \<times> key) list" where
  "strs = map (\<lambda>(r, k). (r, [KStr k]))"

definition tall_tree :: "key bt" where
  "tall_tree = (let lf = \<lambda>n es. Lf n (strs es); nd = \<lambda>n cs ss. Nd n cs (strs ss) in
     nd 1 [nd 2 [lf 6 [(1, ''A'')], lf 7 [(2, ''B'')]] [(1, ''A'')], nd 3 [lf 8 [(3, ''C'')], lf 9 [(4, ''D'')]] [(3, ''C'')],
       nd 4 [lf 10 [(5, ''E'')], lf 11 [(6, ''F'')]] [(5, ''E'')],
       nd 5 [lf 12 [(7, ''G'')], lf 13 [(8, ''H''), (9, ''I'')], lf 14 [(10, ''J'')],
         lf 15 [(11, ''K''), (12, ''L''), (13, ''M'')]] [(7, ''G''), (9, ''I''), (10, ''J'')]]
       [(2, ''B''), (4, ''D''), (6, ''F'')])"

definition after_delete :: "key ndx" where
  "after_delete = snd (remove_old_insert_new (keycmp (str_hdr 1) False) False True 16 (Some (tg1 9 ''I'')) None tall)"

lemma tall_holds: "holds tall tall_tree" by code_simp

text \<open>A deletion can break a later insertion. The index tall is well formed, and inserting the key N
  into it splits pages up to the root and succeeds. Deleting the key I first leaves the record number 0 in the
  separator that takes its place; the same insertion then reaches insert_entry on a fresh page, which it takes
  for a leaf, and fails with INVALID_ENTRY after the lower pages are already split.\<close>
theorem delete_breaks_insert:
  "index_of tall (leaves tall_tree) \<and> sorted_ents (keycmp (str_hdr 1) False) (leaves tall_tree)
    \<and> fst (insert_new (keycmp (str_hdr 1) False) False True 16 (tg1 14 ''N'') tall) = Inr 1
    \<and> fst (remove_old_insert_new (keycmp (str_hdr 1) False) False True 16 (Some (tg1 9 ''I'')) None tall) = Inr 1
    \<and> fst (insert_new (keycmp (str_hdr 1) False) False True 16 (tg1 14 ''N'') after_delete) = Inl (Dbe INVALID_ENTRY)"
proof (intro conjI)
  have "rootno tall = 1" "root_of tall_tree = 1" by code_simp+
  then show "index_of tall (leaves tall_tree)" using tall_holds by (auto simp: index_of_def)
  show "sorted_ents (keycmp (str_hdr 1) False) (leaves tall_tree)" by code_simp
  show "fst (insert_new (keycmp (str_hdr 1) False) False True 16 (tg1 14 ''N'') tall) = Inr 1" by code_simp
  show "fst (remove_old_insert_new (keycmp (str_hdr 1) False) False True 16 (Some (tg1 9 ''I'')) None tall) = Inr 1" by code_simp
  show "fst (insert_new (keycmp (str_hdr 1) False) False True 16 (tg1 14 ''N'') after_delete) = Inl (Dbe INVALID_ENTRY)" by code_simp
qed

section \<open>Keys that compare equal or unequal against their meaning\<close>

text \<open>Nkcmp compares the absolute values of two numbers for equality: a number and its negative are
  the same key. An index on a numeric expression mixes the two up, and so does every comparison of doubles
  (num_rel).\<close>
theorem nkcmp_ignores_sign: "nkcmp (Fin s m) (Fin t m) = 0"
proof -
  have "dsub (dabs (Fin s m)) (dabs (Fin t m)) = Fin False 0" by (simp add: dsub_def of_val_def)
  moreover have "dlt (Fin False 0) (dmul DBL_EPSILON DBL_MIN)" unfolding tiny by simp
  moreover have "dlt (Fin False 0) DBL_MIN" by (simp add: DBL_MIN_def)
  ultimately have "dbl_isequal (Fin s m) (Fin t m)" unfolding dbl_isequal_def Let_def by simp
  then show ?thesis by (simp add: nkcmp_def num_rel_def num_dbl_def Let_def)
qed

text \<open>With EXACT on, a combined key compares as greater than itself: keycmp returns 1 where all parts
  are equal. So no combined key is found then, and equal keys are not recognised.\<close>
theorem exact_combined_key_differs:
  assumes "keytyp h = CMBK" and "key_ok h k"
  shows "keycmp h True k k = 1"
proof -
  have "parts_cmp (key_types h) k k = - parts_cmp (key_types h) k k" using assms(2) by (intro parts_cmp_swap) (simp_all add: key_ok_def)
  then show ?thesis using assms(1) by (simp add: keycmp_def key_types_def)
qed

lemma exact_combined_key_differs_witness:
  "keycmp \<lparr>keytyp = CMBK, keylen = 3, cmb_parts = [(CHARCTR, 1), (CHARCTR, 2)], cmb_keylen = 3\<rparr> True
     [KStr ''A'', KStr ''BC''] [KStr ''A'', KStr ''BC''] = 1"
  by (rule exact_combined_key_differs) (simp_all add: key_ok_def key_types_def)

end
