(* ===== verification/Index_Seek.thy ===== *)
theory Index_Seek
  imports Index_Keys "HOL-Library.Multiset"
begin

text \<open>
  Keys of records and keys to look for: ndx_get_key and push_ndx_entry of server/dbe/ndx.c and the
  part of find (server/dbe/db.c) that turns the arguments of SEEK into a key and searches for it.
  Running the key expression is a parameter of ndx_get_key (execute, modelled in Execution).
\<close>

section \<open>The key of a record\<close>

definition get_part :: "hbval \<Rightarrow> kpart sm" where
  \<comment> \<open>a string of another length than the declared one would move the parts behind it\<close>
  "get_part v = (case v of
       VDate (Some d) \<Rightarrow> ret (KNum (i2d (uint d)))
     | VNum n \<Rightarrow> ret (KNum (num_dbl n))
     | VChar w \<Rightarrow> ret (KStr w)
     | _ \<Rightarrow> raise (Dbe DB_INVALID_TYPE))"

primrec get_parts :: "env \<Rightarrow> nat \<Rightarrow> key option sm" where
  \<comment> \<open>for (i=nk; i; --i); None when a part is NULL\<close>
  "get_parts g 0 = ret (Some [])"
| "get_parts g (Suc i) =
     bnd (stack_peek g i) (\<lambda>v. bnd (deref v) (\<lambda>v.
     if valspec_len v = 0 then ret None
     else bnd (get_part v) (\<lambda>p. bnd (get_parts g i) (\<lambda>r. ret (map_option ((#) p) r)))))"

primrec pop_n :: "nat \<Rightarrow> unit sm" where
  \<comment> \<open>while (nk--) pop_stack(DONTCARE)\<close>
  "pop_n 0 = ret ()"
| "pop_n (Suc n) = bnd pop_any (\<lambda>_. pop_n n)"

definition nparts :: "key_hdr \<Rightarrow> nat" where
  "nparts h = (if keytyp h = CMBK then length (cmb_parts h) else 1)"

definition ndx_get_key :: "env \<Rightarrow> key_hdr \<Rightarrow> unit sm \<Rightarrow> bool \<Rightarrow> nat \<Rightarrow> key entry option sm" where
  \<comment> \<open>None is the result 0, for a NULL key\<close>
  "ndx_get_key g h execute clr_stack crntrec =
     bnd execute (\<lambda>_. bnd (get_parts g (nparts h)) (\<lambda>k.
     bnd (if clr_stack then pop_n (nparts h) else ret ()) (\<lambda>_.
     ret (map_option (\<lambda>k. \<lparr>e_pno = 0, e_recno = crntrec, e_key = k\<rparr>) k))))"

definition push_ndx_entry :: "key_hdr \<Rightarrow> key entry \<Rightarrow> unit sm" where
  "push_ndx_entry h ne = (case e_key ne of
       KNum r # _ \<Rightarrow> push_number (NReal r)
     | KStr w # _ \<Rightarrow> push_string w
     | [] \<Rightarrow> raise Undefined)"

section \<open>The key to look for\<close>

definition seek_part :: "bool \<Rightarrow> nat \<Rightarrow> key_hdr \<Rightarrow> nat \<Rightarrow> hbval \<Rightarrow> kpart option" where
  \<comment> \<open>the part i of the key; None is goto nofind. A string is padded with blanks, behind a NUL unless EXACT
    is on or the mode is TEQUAL\<close>
  "seek_part exact mode h i v =
     (let (ktyp2, len) = (if i < length (cmb_parts h) then cmb_parts h ! i else (0, 0));
          l2 = (if keytyp h = CMBK then len else keylen h)
      in if valspec_len v = 0 then None
      else case v of
        VChar w \<Rightarrow>
          if (if keytyp h \<noteq> 0 then keytyp h \<noteq> CMBK \<or> ktyp2 \<noteq> CHARCTR else l2 < length w) then None
          else Some (KStr (take l2 (w @ (if \<not> exact \<and> mode \<noteq> TEQUAL then [CHR 0x00] else []) @ replicate l2 (CHR '' ''))))
      | VDate (Some d) \<Rightarrow>
          if keytyp h = 0 \<or> keytyp h = CMBK \<and> ktyp2 \<noteq> DATE then None
          else Some (KNum (i2d (uint (ucast d :: 16 word))))
      | VNum n \<Rightarrow>
          if keytyp h = 0 \<or> keytyp h = CMBK \<and> ktyp2 \<noteq> NUMBER then None else Some (KNum (num_dbl n))
      | _ \<Rightarrow> None)"

primrec seek_parts :: "bool \<Rightarrow> nat \<Rightarrow> key_hdr \<Rightarrow> nat \<Rightarrow> hbval list \<Rightarrow> key option" where
  "seek_parts exact mode h i [] = Some []"
| "seek_parts exact mode h i (v # vs) = (case seek_part exact mode h i v of
       None \<Rightarrow> None
     | Some p \<Rightarrow> map_option ((#) p) (seek_parts exact mode h (Suc i) vs))"

definition seek_key :: "bool \<Rightarrow> nat \<Rightarrow> key_hdr \<Rightarrow> hbval list \<Rightarrow> err + key option" where
  \<comment> \<open>the arguments in their order\<close>
  "seek_key exact mode h vs =
     (if keytyp h \<noteq> CMBK \<and> 1 < length vs then Inl (Dbe NOTNDXCMBK) else Inr (seek_parts exact mode h 0 vs))"

definition seek :: "bool \<Rightarrow> nat \<Rightarrow> key_hdr \<Rightarrow> nat \<Rightarrow> hbval list \<Rightarrow> (key, nat) im" where
  \<comment> \<open>find up to the search, for the modes 0 and TEQUAL; 0 is goto nofind\<close>
  "seek exact mode h f vs =
     bnd (lift_res (seek_key exact mode h vs)) (\<lambda>k. case k of
       None \<Rightarrow> ret 0
     | Some k \<Rightarrow> bnd (getst rootno) (\<lambda>root.
         btsrch (keycmp h exact) M_EQUAL f root \<lparr>e_pno = 0, e_recno = 0, e_key = k\<rparr>))"

section \<open>Finding what was inserted\<close>

lemma find_rank:
  assumes "seen_sorted kc u x ys"
  shows "List.find (\<lambda>y. side kc u x y = 0) ys
    = (if rank kc u x ys < length ys \<and> side kc u x (ys ! rank kc u x ys) = 0 then Some (ys ! rank kc u x ys) else None)"
  using assms
proof (induction ys)
  case Nil
  then show ?case by simp
next
  case (Cons y ys)
  have so: "seen_sorted kc u x ys" and le: "\<And>z. z \<in> set ys \<Longrightarrow> side kc u x z \<le> side kc u x y"
    using Cons.prems by (auto simp: seen_sorted_def)
  have "List.find (\<lambda>z. side kc u x z = 0) ys = None" if "side kc u x y < 0"
    using le that by (fastforce simp: find_None_iff)
  then show ?case using Cons.IH [OF so] by (cases "side kc u x y" "0::int" rule: linorder_cases) (simp_all add: rank_Cons)
qed

lemma btsrch_index:
  assumes ix: "reads_as s xs" and us: "usable s" and f: "pagecnt s \<le> f"
    and so: "seen_sorted kc (e_recno tg = 0) (e_recno tg, e_key tg) xs"
  shows "\<exists>p j. btsrch kc M_EQUAL f (rootno s) tg s
    = (Inr (case List.find (\<lambda>y. side kc (e_recno tg = 0) (e_recno tg, e_key tg) y = 0) xs of None \<Rightarrow> 0 | Some y \<Rightarrow> fst y),
       s\<lparr>page_no := p, entry_no := j\<rparr>)"
proof (cases "rootno s = 0")
  case True
  then have "xs = []" "1 \<le> f" using ix f by (auto simp: reads_as_def)
  then have "btsrch kc M_EQUAL f (rootno s) tg s = (Inr 0, s)" using True by (cases f) (simp_all add: cm_simps)
  then show ?thesis
    using \<open>xs = []\<close> by (intro exI [of _ "page_no s"] exI [of _ "entry_no s"]) (simp del: btsrch.simps)
next
  case False
  then obtain t where t: "readable s t" "root_of t = rootno s" "leaves t = xs" using ix by (auto simp: reads_as_def)
  have "finds kc f t tg s"
    using us so readable_height [OF t(1)] f t by (intro btsrch_equal) (auto simp: usable_def)
  note fs = this [unfolded finds_def t(2,3) Let_def]
  let ?u = "e_recno tg = 0" and ?x = "(e_recno tg, e_key tg)"
  show ?thesis
  proof (cases "rank kc ?u ?x xs < length xs \<and> side kc ?u ?x (xs ! rank kc ?u ?x xs) = 0")
    case True
    then show ?thesis using fs unfolding find_rank [OF so] if_P [OF True] by auto
  next
    case False
    have "btsrch kc M_EQUAL f (rootno s) tg s = (Inr 0, s)" using fs unfolding if_not_P [OF False] .
    then show ?thesis unfolding find_rank [OF so] if_not_P [OF False] option.case
      by (intro exI [of _ "page_no s"] exI [of _ "entry_no s"]) (simp del: btsrch.simps)
  qed
qed








section \<open>SEEK\<close>

lemma skcmp_prefix:
  "w \<noteq> [] \<or> i \<Longrightarrow> CHR 0x00 \<notin> set w \<Longrightarrow> length w \<le> length s \<Longrightarrow>
   skcmp_from i (w @ CHR 0x00 # zs) s = skcmp_from i w (take (length w) s)"
proof (induction w arbitrary: i s)
  case Nil
  then show ?case by (cases s) simp_all
next
  case (Cons c w)
  then obtain d s' where "s = d # s'" by (cases s) auto
  then show ?case using Cons by auto
qed

lemma skcmp_take: "length p = length q \<Longrightarrow> CHR 0x00 \<notin> set p \<Longrightarrow> skcmp_from i p q \<le> 0 \<Longrightarrow> skcmp_from i (take m p) (take m q) \<le> 0"
proof (induction p arbitrary: i q m)
  case (Cons c p)
  then obtain d q' where q: "q = d # q'" by (cases q) auto
  show ?case
  proof (cases m)
    case (Suc k)
    have "skcmp_from True (take k p) (take k q') \<le> 0" if "skcmp_from True p q' \<le> 0"
      using Cons.IH [OF _ _ that] Cons.prems q by simp
    then show ?thesis using Cons.prems unfolding q Suc by (auto split: if_splits)
  qed simp
qed simp

lemma skcmp_zero: "length p = length q \<Longrightarrow> CHR 0x00 \<notin> set p \<Longrightarrow> skcmp_from i p q = 0 \<longleftrightarrow> p = q"
proof (induction i p q rule: skcmp_from.induct)
  case (1 i c1 p c2 q)
  then show ?case by (auto dest: of_char_eq_iff [THEN iffD1] simp: not_less order_antisym)
qed auto

lemma keycmp_str: "keytyp h = 0 \<Longrightarrow> keycmp h False [KStr a] [KStr b] = skcmp_from False (take (keylen h) a) (take (keylen h) b)"
  by (simp add: keycmp_def part_cmp_def skcmp_def Let_def)

lemma key_ok_str: "keytyp h = 0 \<Longrightarrow> key_ok h k \<longleftrightarrow> (\<exists>a. k = [KStr a] \<and> length a = keylen h \<and> CHR 0x00 \<notin> set a)"
proof
  assume h: "keytyp h = 0" and "key_ok h k"
  then obtain p where p: "k = [p]" "part_ok (CHARCTR, keylen h) p" by (auto simp: key_ok_def key_types_def list_all2_Cons1)
  then show "\<exists>a. k = [KStr a] \<and> length a = keylen h \<and> CHR 0x00 \<notin> set a" by (cases p) auto
qed (auto simp: key_ok_def key_types_def)

definition starts :: "string \<Rightarrow> nat \<times> key \<Rightarrow> bool" where
  \<comment> \<open>the key of the entry starts with w\<close>
  "starts w y \<longleftrightarrow> (\<exists>a. snd y = [KStr a] \<and> take (length w) a = w)"

lemma seen_sorted_prefix:
  assumes h: "keytyp h = 0" and w: "w \<noteq> []" "CHR 0x00 \<notin> set w" "length w \<le> keylen h"
    and a: "take (keylen h) a = w \<and> length w = keylen h \<or> (\<exists>zs. take (keylen h) a = w @ CHR 0x00 # zs)"
    and so: "sorted_ents (keycmp h False) ys" and ok: "\<forall>y\<in>set ys. key_ok h (snd y)"
  shows "seen_sorted (keycmp h False) True (0, [KStr a]) ys"
    and "y \<in> set ys \<Longrightarrow> side (keycmp h False) True (0, [KStr a]) y = 0 \<longleftrightarrow> starts w y"
proof -
  let ?m = "length w" and ?kc = "keycmp h False"
  let ?h = "str_hdr ?m"
  have h': "keytyp ?h = 0" "keylen ?h = ?m" by (simp_all add: str_hdr_def)
  have key: "\<exists>b. snd y = [KStr b] \<and> length b = keylen h \<and> CHR 0x00 \<notin> set b" if "y \<in> set ys" for y
    using ok that by (simp add: key_ok_str [OF h])
  have cut: "?kc [KStr a] [KStr b] = skcmp_from False w (take ?m b)" if "length b = keylen h" for b
    using a
  proof
    assume "\<exists>zs. take (keylen h) a = w @ CHR 0x00 # zs"
    then obtain zs where "take (keylen h) a = w @ CHR 0x00 # zs" by blast
    then show ?thesis using skcmp_prefix [of w False b zs] w that by (simp add: keycmp_str [OF h])
  qed (use that in \<open>simp add: keycmp_str [OF h]\<close>)
  have sd: "side ?kc True (0, [KStr a]) (r, [KStr b]) = side (keycmp ?h False) True (0, [KStr w]) (r, [KStr (take ?m b)])"
    if "length b = keylen h" for r b
    using cut [OF that] by (simp add: side_def keycmp_str [OF h'(1)] h'(2))
  show "side ?kc True (0, [KStr a]) y = 0 \<longleftrightarrow> starts w y" if y: "y \<in> set ys"
  proof -
    obtain b where b: "snd y = [KStr b]" "length b = keylen h" using key [OF y] by blast
    have "side ?kc True (0, [KStr a]) y = 0 \<longleftrightarrow> skcmp_from False w (take ?m b) = 0"
      using cut [OF b(2)] b(1) by (simp add: side_def Let_def sgn_0_0)
    also have "\<dots> \<longleftrightarrow> take ?m b = w" using skcmp_zero [of w "take ?m b" False] b(2) w by auto
    finally show ?thesis using b(1) by (simp add: starts_def)
  qed
  show "seen_sorted ?kc True (0, [KStr a]) ys"
    unfolding seen_sorted_def
  proof (rule sorted_wrt_mono_rel [OF _ so [unfolded sorted_ents_def]])
    fix y z
    assume yz: "y \<in> set ys" "z \<in> set ys" "side ?kc False y z < 0"
    obtain b where b: "snd y = [KStr b]" "length b = keylen h" "CHR 0x00 \<notin> set b" using key [OF yz(1)] by blast
    obtain c where c: "snd z = [KStr c]" "length c = keylen h" "CHR 0x00 \<notin> set c" using key [OF yz(2)] by blast
    let ?q = "take ?m b" and ?r = "take ?m c"
    have nz: "CHR 0x00 \<notin> set ?q" "CHR 0x00 \<notin> set ?r" using b(3) c(3) in_set_takeD by fast+
    have l: "length ?q = ?m" "length ?r = ?m" using b(2) c(2) w(3) by simp_all
    have "skcmp_from False b c \<le> 0"
      using yz(3) b c by (cases y; cases z) (auto simp: side_def keycmp_str [OF h] Let_def sgn_if split: if_splits)
    then have le: "skcmp_from False ?q ?r \<le> 0" using skcmp_take [of b c False ?m] b c by simp
    have "side (keycmp ?h False) True (0, [KStr w]) (fst z, [KStr ?r]) \<le> side (keycmp ?h False) True (0, [KStr w]) (fst y, [KStr ?q])"
    proof (cases "skcmp_from False ?q ?r = 0")
      case True
      then have "?q = ?r" using skcmp_zero [of ?q ?r False] l nz by simp
      then show ?thesis by (simp add: side_def)
    next
      case False
      show ?thesis
        by (rule index_keys.side_mono) (use False le l nz w h' in \<open>auto simp: key_ok_str side_def keycmp_str Let_def sgn_if\<close>)
    qed
    then show "side ?kc True (0, [KStr a]) z \<le> side ?kc True (0, [KStr a]) y"
      using sd [OF b(2), of "fst y"] sd [OF c(2), of "fst z"] b(1) c(1) by (metis prod.collapse)
  qed
qed

text \<open>C25: SEEK with a string finds the first record, in the order of the index, whose key starts with the
  string, when EXACT is off. With no such record the result is 0. The string is not empty, has no zero bytes
  and is at most as long as the key.\<close>
theorem seek_finds_first_prefix:
  assumes "reads_as s xs" and "usable s" and "sorted_ents (keycmp h False) xs"
    and "\<forall>y\<in>set xs. key_ok h (snd y)" and "keytyp h = 0"
    and "w \<noteq> []" and "CHR 0x00 \<notin> set w" and "length w \<le> keylen h" and "pagecnt s \<le> f"
  shows "fst (seek False 0 h f [VChar w] s) = Inr (case List.find (starts w) xs of None \<Rightarrow> 0 | Some y \<Rightarrow> fst y)"
proof -
  let ?a = "take (keylen h) (w @ [CHR 0x00] @ replicate (keylen h) (CHR '' ''))"
  let ?tg = "\<lparr>e_pno = 0, e_recno = 0, e_key = [KStr ?a]\<rparr> :: key entry"
  have a: "take (keylen h) ?a = w \<and> length w = keylen h \<or> (\<exists>zs. take (keylen h) ?a = w @ CHR 0x00 # zs)"
    using assms(8) by (cases "keylen h - length w") auto
  note sp = seen_sorted_prefix [OF assms(5-8) a assms(3,4)]
  have k: "seek_key False 0 h [VChar w] = Inr (Some [KStr ?a])"
    using assms(5,6,8) by (simp add: seek_key_def seek_part_def Let_def split: prod.split)
  have "seen_sorted (keycmp h False) (e_recno ?tg = 0) (e_recno ?tg, e_key ?tg) xs" using sp(1) by simp
  from btsrch_index [OF assms(1,2,9) this] obtain p j where
    "btsrch (keycmp h False) M_EQUAL f (rootno s) ?tg s
      = (Inr (case List.find (\<lambda>y. side (keycmp h False) (e_recno ?tg = 0) (e_recno ?tg, e_key ?tg) y = 0) xs of
          None \<Rightarrow> 0 | Some y \<Rightarrow> fst y), s\<lparr>page_no := p, entry_no := j\<rparr>)" by blast
  moreover have "List.find (\<lambda>y. side (keycmp h False) (e_recno ?tg = 0) (e_recno ?tg, e_key ?tg) y = 0) xs = List.find (starts w) xs"
    using sp(2) by (intro find_cong) simp_all
  ultimately show ?thesis by (simp add: seek_def k cm_simps del: btsrch.simps)
qed

lemma seek_finds_first_prefix_witness:
  "fst (seek False 0 (str_hdr 2) 2 [VChar ''B''] (ndx1 [(4, [KStr ''AB'']), (3, [KStr ''BA'']), (2, [KStr ''BC''])])) = Inr 3"
proof -
  let ?xs = "[(4, [KStr ''AB'']), (3, [KStr ''BA'']), (2, [KStr ''BC''])] :: (nat \<times> key) list"
  have so: "sorted_ents (keycmp (str_hdr 2) False) ?xs" by code_simp
  have ix: "index_of (ndx1 ?xs) ?xs" by (rule ndx1_index) simp_all
  have us: "usable (ndx1 ?xs)" "pagecnt (ndx1 ?xs) \<le> 2" by (simp_all add: usable_def granted_def ndx1_def)
  have ok: "\<forall>y\<in>set ?xs. key_ok (str_hdr 2) (snd y)" "keytyp (str_hdr 2) = 0"
    by (simp_all add: key_ok_def key_types_def str_hdr_def)
  have w: "''B'' \<noteq> []" "CHR 0x00 \<notin> set ''B''" "length ''B'' \<le> keylen (str_hdr 2)" by (simp_all add: str_hdr_def)
  show ?thesis
    using seek_finds_first_prefix [OF index_reads [OF ix] us(1) so ok w us(2)] by (simp add: starts_def)
qed

text \<open>SEEK of a date looks for another key than the one that the index has for the date: find reads
  16 of the 32 bits of the day number. A date from 65536 on, which is every date after the year -4533, is never
  found in an index on a date.\<close>
theorem seek_date_truncated:
  assumes "65536 \<le> uint d" and "uint d < 2 ^ 31" and "keytyp h \<noteq> 0" and "keytyp h \<noteq> CMBK"
  shows "\<exists>p q. seek_part exact mode h 0 (VDate (Some d)) = Some p \<and> get_part (VDate (Some d)) s = (Inr q, s)
    \<and> part_cmp (DATE, 8) p q = - 1"
proof -
  have u: "uint (ucast d :: 16 word) = uint d mod 2 ^ 16" by (simp add: unsigned_ucast_eq take_bit_eq_mod)
  then have lt: "uint (ucast d :: 16 word) < uint d" using assms(1) by simp
  have "nkcmp (i2d (uint (ucast d :: 16 word))) (i2d (uint d)) = - 1"
    using nkcmp_ints [of "uint (ucast d :: 16 word)" "uint d"] lt assms(2) by simp
  then show ?thesis
    using assms(3,4) by (auto simp: seek_part_def get_part_def part_cmp_def cm_simps Let_def split: prod.split)
qed

lemma seek_date_truncated_witness:
  "\<exists>p q. seek_part True TEQUAL \<lparr>keytyp = 1, keylen = 8, cmb_parts = [], cmb_keylen = 0\<rparr> 0 (VDate (Some 2458850)) = Some p
    \<and> get_part (VDate (Some 2458850)) [] = (Inr q, []) \<and> part_cmp (DATE, 8) p q = - 1"
  by (rule seek_date_truncated) simp_all

end
