(* ===== verification/Vsort.thy ===== *)
theory Vsort
  imports Prelude "HOL-Library.Multiset"
begin

text \<open>
  Sorting in memory: insort, _qsort_ and the pointers that qsort_ sets up (server/dbe/vsort.c). The state
  is keyptrs, the array of the records in the order of their pointers; reading or writing outside of it is
  Undefined. The comparison is a parameter (qcomp of qindex.c, modelled in Qindex). Indices are DWORDs and
  the array has less than 2^32 entries, so only the decrement of an index can wrap.
\<close>

section \<open>The array of pointers\<close>

definition rd :: "nat \<Rightarrow> ('r list, 'r) cm" where
  "rd i = bnd (getst length) (\<lambda>n. bnd (guard (i < n) Undefined) (\<lambda>_. getst (\<lambda>s. s ! i)))"

definition wr :: "nat \<Rightarrow> 'r \<Rightarrow> ('r list, unit) cm" where
  "wr i x = bnd (getst length) (\<lambda>n. bnd (guard (i < n) Undefined) (\<lambda>_. modst (\<lambda>s. s[i := x])))"

definition pred32 :: "nat \<Rightarrow> nat" where
  \<comment> \<open>--j of a DWORD\<close>
  "pred32 j = (if j = 0 then 2 ^ 32 - 1 else j - 1)"

definition vcmp :: "bool \<Rightarrow> ('r \<Rightarrow> 'r \<Rightarrow> int) \<Rightarrow> 'r \<Rightarrow> 'r \<Rightarrow> int" where
  "vcmp descending qcomp x y = (if descending then - qcomp x y else qcomp x y)"

section \<open>Sorting by insertion\<close>

primrec ins_down :: "('r \<Rightarrow> 'r \<Rightarrow> int) \<Rightarrow> 'r \<Rightarrow> nat \<Rightarrow> nat \<Rightarrow> ('r list, unit) cm" where
  \<comment> \<open>the loop on i, which is start + n - 1; n = 0 ends it\<close>
  "ins_down c x start 0 = wr start x"
| "ins_down c x start (Suc n) = bnd (rd (start + n)) (\<lambda>y.
     if c x y < 0 then bnd (wr (start + n + 1) y) (\<lambda>_. ins_down c x start n) else wr (start + n + 1) x)"

primrec insort_from :: "('r \<Rightarrow> 'r \<Rightarrow> int) \<Rightarrow> nat \<Rightarrow> nat \<Rightarrow> nat \<Rightarrow> ('r list, unit) cm" where
  \<comment> \<open>the rounds k, k + 1, ..; n of them\<close>
  "insort_from c start k 0 = ret ()"
| "insort_from c start k (Suc n) =
     bnd (rd (start + k)) (\<lambda>x. bnd (ins_down c x start k) (\<lambda>_. insort_from c start (k + 1) n))"

definition insort :: "('r \<Rightarrow> 'r \<Rightarrow> int) \<Rightarrow> nat \<Rightarrow> nat \<Rightarrow> ('r list, unit) cm" where
  "insort c start nitms = insort_from c start 1 (nitms - 1)"

section \<open>Quicksort\<close>

abbreviation (input) INSORTSZ :: nat where
  "INSORTSZ \<equiv> 256"

primrec scan_up :: "('r \<Rightarrow> 'r \<Rightarrow> int) \<Rightarrow> 'r \<Rightarrow> nat \<Rightarrow> nat \<Rightarrow> ('r list, nat) cm" where
  "scan_up c x 0 i = raise NoFuel"
| "scan_up c x (Suc f) i = bnd (rd i) (\<lambda>y. if c y x < 0 then scan_up c x f (i + 1) else ret i)"

primrec scan_down :: "('r \<Rightarrow> 'r \<Rightarrow> int) \<Rightarrow> 'r \<Rightarrow> nat \<Rightarrow> nat \<Rightarrow> ('r list, nat) cm" where
  "scan_down c x 0 j = raise NoFuel"
| "scan_down c x (Suc f) j = bnd (rd j) (\<lambda>y. if 0 < c y x then scan_down c x f (pred32 j) else ret j)"

definition swap :: "nat \<Rightarrow> nat \<Rightarrow> ('r list, unit) cm" where
  "swap i j = bnd (rd i) (\<lambda>tmp. bnd (rd j) (\<lambda>y. bnd (wr i y) (\<lambda>_. wr j tmp)))"

primrec partition_loop :: "('r \<Rightarrow> 'r \<Rightarrow> int) \<Rightarrow> 'r \<Rightarrow> nat \<Rightarrow> nat \<Rightarrow> nat \<Rightarrow> nat \<Rightarrow> ('r list, nat \<times> nat) cm" where
  \<comment> \<open>while (i<=j); m bounds the steps of a scan, the fuel the rounds\<close>
  "partition_loop c x m 0 i j = raise NoFuel"
| "partition_loop c x m (Suc f) i j =
     (if i \<le> j then
        bnd (scan_up c x m i) (\<lambda>i. bnd (scan_down c x m j) (\<lambda>j.
        if i \<le> j then bnd (swap i j) (\<lambda>_. partition_loop c x m f (i + 1) (pred32 j))
        else partition_loop c x m f i j))
      else ret (i, j))"

primrec quick :: "('r \<Rightarrow> 'r \<Rightarrow> int) \<Rightarrow> nat \<Rightarrow> nat \<Rightarrow> nat \<Rightarrow> ('r list, unit) cm" where
  \<comment> \<open>_qsort_; the fuel bounds the depth of the recursion\<close>
  "quick c 0 start nitms = raise NoFuel"
| "quick c (Suc f) start nitms =
     (if nitms < INSORTSZ then insort c start nitms
      else bnd (rd (start + nitms div 2)) (\<lambda>x.
        bnd (partition_loop c x nitms (Suc nitms) start (start + nitms - 1)) (\<lambda>(i, j).
        bnd (if start < j then quick c f start (j - start + 1) else ret ()) (\<lambda>_.
        if i < start + nitms - 1 then quick c f i (start + nitms - i) else ret ()))))"


section \<open>What the steps do\<close>

lemma rd_app: "rd i s = (if i < length s then (Inr (s ! i), s) else (Inl Undefined, s))"
  by (simp add: rd_def cm_simps)

lemma wr_app: "wr i x s = (if i < length s then (Inr (), s[i := x]) else (Inl Undefined, s))"
  by (simp add: wr_def cm_simps)

lemma swap_app: "i < length s \<Longrightarrow> j < length s \<Longrightarrow> swap i j s = (Inr (), s[i := s ! j, j := s ! i])"
  by (simp add: swap_def rd_app wr_app cm_simps)

definition ins_right :: "('r \<Rightarrow> 'r \<Rightarrow> int) \<Rightarrow> 'r \<Rightarrow> 'r list \<Rightarrow> 'r list" where
  \<comment> \<open>x behind the last element that is not greater\<close>
  "ins_right c x ys = rev (dropWhile (\<lambda>y. c x y < 0) (rev ys)) @ x # rev (takeWhile (\<lambda>y. c x y < 0) (rev ys))"

lemma ins_right_snoc: "ins_right c x (ys @ [y]) = (if c x y < 0 then ins_right c x ys @ [y] else ys @ [y, x])"
  by (simp add: ins_right_def)

lemma ins_down_app:
  "length A = start \<Longrightarrow> length P = n \<Longrightarrow> ins_down c x start n (A @ P @ z # B) = (Inr (), A @ ins_right c x P @ B)"
proof (induction n arbitrary: P z B)
  case 0
  then show ?case by (auto simp: wr_app ins_right_def)
next
  case (Suc n)
  then obtain P' y where P: "P = P' @ [y]" by (cases P rule: rev_cases) auto
  have "ins_down c x start n (A @ P' @ y # y # B) = (Inr (), A @ ins_right c x P' @ y # B)"
    using Suc P by (intro Suc.IH) simp_all
  then show ?case
    using Suc.prems by (auto simp: P rd_app wr_app cm_simps nth_append list_update_append ins_right_snoc)
qed

lemma mset_ins_right: "mset (ins_right c x ys) = add_mset x (mset ys)"
proof (induction ys rule: rev_induct)
  case Nil
  show ?case by (simp add: ins_right_def)
qed (simp add: ins_right_snoc)

lemma length_ins_right [simp]: "length (ins_right c x ys) = length ys + 1"
  using mset_ins_right [of c x ys, THEN arg_cong [where f = size]] by simp

lemma scan_up_app:
  assumes "i \<le> k" and "k < length s" and "0 \<le> c (s ! k) x" and "k < i + m"
  shows "\<exists>i'. scan_up c x m i s = (Inr i', s) \<and> i \<le> i' \<and> i' \<le> k \<and> 0 \<le> c (s ! i') x \<and> (\<forall>l. i \<le> l \<longrightarrow> l < i' \<longrightarrow> c (s ! l) x < 0)"
  using assms
proof (induction m arbitrary: i)
  case 0
  then show ?case by simp
next
  case (Suc m)
  show ?case
  proof (cases "c (s ! i) x < 0")
    case True
    then have "i + 1 \<le> k" using Suc.prems by (cases "i = k") auto
    then have "\<exists>i'. scan_up c x m (i + 1) s = (Inr i', s) \<and> i + 1 \<le> i' \<and> i' \<le> k \<and> 0 \<le> c (s ! i') x
        \<and> (\<forall>l. i + 1 \<le> l \<longrightarrow> l < i' \<longrightarrow> c (s ! l) x < 0)" by (rule Suc.IH) (use Suc.prems in simp_all)
    then obtain i' where i': "scan_up c x m (i + 1) s = (Inr i', s)" "i + 1 \<le> i'" "i' \<le> k" "0 \<le> c (s ! i') x"
      "\<And>l. i + 1 \<le> l \<Longrightarrow> l < i' \<Longrightarrow> c (s ! l) x < 0" by blast
    have "c (s ! l) x < 0" if "i \<le> l" "l < i'" for l using i'(5) [of l] True that by (cases "l = i") simp_all
    then show ?thesis
      using True Suc.prems i' by (intro exI [of _ i']) (simp add: rd_app cm_simps)
  next
    case False
    then show ?thesis using Suc.prems by (intro exI [of _ i]) (auto simp: rd_app cm_simps)
  qed
qed

lemma scan_down_app:
  assumes "k \<le> j" and "j < length s" and "c (s ! k) x \<le> 0" and "j < k + m"
  shows "\<exists>j'. scan_down c x m j s = (Inr j', s) \<and> k \<le> j' \<and> j' \<le> j \<and> c (s ! j') x \<le> 0 \<and> (\<forall>l. j' < l \<longrightarrow> l \<le> j \<longrightarrow> 0 < c (s ! l) x)"
  using assms
proof (induction m arbitrary: j)
  case 0
  then show ?case by simp
next
  case (Suc m)
  show ?case
  proof (cases "0 < c (s ! j) x")
    case True
    then have "k < j" using Suc.prems by (cases "j = k") auto
    then have j: "k \<le> j - 1" "pred32 j = j - 1" "0 < j" by (simp_all add: pred32_def)
    have "\<exists>j'. scan_down c x m (j - 1) s = (Inr j', s) \<and> k \<le> j' \<and> j' \<le> j - 1 \<and> c (s ! j') x \<le> 0
        \<and> (\<forall>l. j' < l \<longrightarrow> l \<le> j - 1 \<longrightarrow> 0 < c (s ! l) x)" by (rule Suc.IH) (use Suc.prems j in simp_all)
    then obtain j' where j': "scan_down c x m (j - 1) s = (Inr j', s)" "k \<le> j'" "j' \<le> j - 1" "c (s ! j') x \<le> 0"
      "\<And>l. j' < l \<Longrightarrow> l \<le> j - 1 \<Longrightarrow> 0 < c (s ! l) x" by blast
    have "0 < c (s ! l) x" if "j' < l" "l \<le> j" for l using j'(5) [of l] True that by (cases "l = j") simp_all
    then show ?thesis
      using True Suc.prems j j' by (intro exI [of _ j']) (simp add: rd_app cm_simps)
  next
    case False
    then show ?thesis using Suc.prems by (intro exI [of _ j]) (auto simp: rd_app cm_simps)
  qed
qed


definition parted :: "('r \<Rightarrow> 'r \<Rightarrow> int) \<Rightarrow> 'r \<Rightarrow> nat \<Rightarrow> nat \<Rightarrow> 'r list \<Rightarrow> nat \<Rightarrow> nat \<Rightarrow> bool" where
  \<comment> \<open>in the segment from b to e what is before i is at most x and what is behind j at least x\<close>
  "parted c x b e s i j \<longleftrightarrow> b \<le> i \<and> i \<le> e \<and> b \<le> j \<and> j < e \<and> e \<le> length s
     \<and> (\<forall>l. b \<le> l \<longrightarrow> l < i \<longrightarrow> c (s ! l) x \<le> 0) \<and> (\<forall>l. j < l \<longrightarrow> l < e \<longrightarrow> 0 \<le> c (s ! l) x)"

definition same_outside :: "nat \<Rightarrow> nat \<Rightarrow> 'r list \<Rightarrow> 'r list \<Rightarrow> bool" where
  "same_outside b e s t \<longleftrightarrow> mset t = mset s \<and> (\<forall>l. l < b \<or> e \<le> l \<longrightarrow> t ! l = s ! l)"

lemma parted_swap:
  assumes "parted c x b e s i j" and "i \<le> j" and "b < j" and "c (s ! j) x \<le> 0" and "0 \<le> c (s ! i) x"
  shows "parted c x b e (s[i := s ! j, j := s ! i]) (i + 1) (j - 1)"
    and "same_outside b e s (s[i := s ! j, j := s ! i])"
proof -
  let ?s = "s[i := s ! j, j := s ! i]"
  have ij: "i < length s" "j < length s" using assms(1,2) by (auto simp: parted_def)
  have "c (?s ! l) x \<le> 0" if "b \<le> l" "l < i + 1" for l
    using that assms ij by (cases "l = i") (auto simp: parted_def nth_list_update)
  moreover have "0 \<le> c (?s ! l) x" if "j - 1 < l" "l < e" for l
    using that assms ij by (cases "l = j") (auto simp: parted_def nth_list_update)
  ultimately show "parted c x b e ?s (i + 1) (j - 1)" using assms by (auto simp: parted_def)
  show "same_outside b e s ?s" using assms ij by (auto simp: same_outside_def parted_def mset_swap nth_list_update)
qed

lemma partition_loop_ok:
  assumes "parted c x b e s i j" and "e \<le> b + m" and "0 < f" and "j + 1 < i + f"
    and "i \<le> j \<longrightarrow> (\<exists>k. i \<le> k \<and> k < e \<and> 0 \<le> c (s ! k) x)"
    and "i \<le> j \<longrightarrow> (\<exists>k. b \<le> k \<and> k \<le> j \<and> c (s ! k) x \<le> 0 \<and> (b < k \<or> b < i))"
  shows "\<exists>s' i' j'. partition_loop c x m f i j s = (Inr (i', j'), s') \<and> same_outside b e s s' \<and> parted c x b e s' i' j'
    \<and> j' < i' \<and> i \<le> i' \<and> j' \<le> j \<and> ((\<exists>k. i \<le> k \<and> k \<le> j \<and> c (s ! k) x = 0) \<longrightarrow> i < i' \<and> j' < j)"
  using assms
proof (induction f arbitrary: i j s)
  case 0
  then show ?case by simp
next
  case (Suc f)
  show ?case
  proof (cases "i \<le> j")
    case False
    then show ?thesis
      using Suc.prems(1) by (intro exI [of _ s] exI [of _ i] exI [of _ j]) (auto simp: cm_simps same_outside_def)
  next
    case True
    note p = Suc.prems(1) [unfolded parted_def]
    obtain k1 where k1: "i \<le> k1" "k1 < e" "0 \<le> c (s ! k1) x" using Suc.prems(5) True by blast
    have "k1 < length s" "k1 < i + m" using k1 p Suc.prems(2) by linarith+
    from scan_up_app [where c = c and s = s, OF k1(1) this(1) k1(3) this(2)] obtain i1 where i1: "scan_up c x m i s = (Inr i1, s)" "i \<le> i1" "i1 \<le> k1"
      "0 \<le> c (s ! i1) x" "\<And>l. i \<le> l \<Longrightarrow> l < i1 \<Longrightarrow> c (s ! l) x < 0" by blast
    obtain k2 where k2: "b \<le> k2" "k2 \<le> j" "c (s ! k2) x \<le> 0" "b < k2 \<or> b < i" using Suc.prems(6) True by blast
    have "j < length s" "j < k2 + m" using k2 p Suc.prems(2) by linarith+
    from scan_down_app [where c = c and s = s, OF k2(2) this(1) k2(3) this(2)] obtain j1 where j1: "scan_down c x m j s = (Inr j1, s)" "k2 \<le> j1" "j1 \<le> j"
      "c (s ! j1) x \<le> 0" "\<And>l. j1 < l \<Longrightarrow> l \<le> j \<Longrightarrow> 0 < c (s ! l) x" by blast
    have lo: "c (s ! l) x \<le> 0" if "b \<le> l" "l < i1" for l
      using p i1(5) [of l] that by (cases "l < i") (auto simp: less_imp_le)
    have hi: "0 \<le> c (s ! l) x" if "j1 < l" "l < e" for l
      using p j1(5) [of l] that by (cases "j < l") (auto simp: less_imp_le)
    have pa: "parted c x b e s i1 j1"
      unfolding parted_def using p i1(2,3) k1(2) j1(2,3) k2(1) lo hi by auto
    have step: "partition_loop c x m (Suc f) i j s =
      (if i1 \<le> j1 then partition_loop c x m f (i1 + 1) (pred32 j1) (s[i1 := s ! j1, j1 := s ! i1]) else partition_loop c x m f i1 j1 s)"
      using True i1(1) j1(1) p i1(3) k1(2) j1(3) by (simp add: cm_simps swap_app)
    show ?thesis
    proof (cases "i1 \<le> j1")
      case False
      then have "\<exists>s' i' j'. partition_loop c x m f i1 j1 s = (Inr (i', j'), s') \<and> same_outside b e s s' \<and> parted c x b e s' i' j'
        \<and> j' < i' \<and> i1 \<le> i' \<and> j' \<le> j1 \<and> ((\<exists>k. i1 \<le> k \<and> k \<le> j1 \<and> c (s ! k) x = 0) \<longrightarrow> i1 < i' \<and> j' < j1)"
        using Suc.prems(2,4) True by (intro Suc.IH pa) simp_all
      moreover have "\<not> (\<exists>k. i \<le> k \<and> k \<le> j \<and> c (s ! k) x = 0)"
        using False i1(5) j1(5) by (metis less_irrefl le_less_linear le_less_trans less_imp_le)
      ultimately show ?thesis using False i1(2) j1(3) unfolding step by (auto intro: order_trans)
    next
      case True
      let ?s = "s[i1 := s ! j1, j1 := s ! i1]"
      have bj: "b < j1" using k2(4) j1(2) i1(2) True by linarith
      have pr: "pred32 j1 = j1 - 1" using bj by (simp add: pred32_def)
      note sw = parted_swap [OF pa True bj j1(4) i1(4)]
      have len: "i1 < length s" "j1 < length s" using p i1(3) k1(2) j1(3) by linarith+
      have "\<exists>s' i' j'. partition_loop c x m f (i1 + 1) (j1 - 1) ?s = (Inr (i', j'), s') \<and> same_outside b e ?s s' \<and> parted c x b e s' i' j'
        \<and> j' < i' \<and> i1 + 1 \<le> i' \<and> j' \<le> j1 - 1 \<and> ((\<exists>k. i1 + 1 \<le> k \<and> k \<le> j1 - 1 \<and> c (?s ! k) x = 0) \<longrightarrow> i1 + 1 < i' \<and> j' < j1 - 1)"
      proof (rule Suc.IH [OF sw(1) Suc.prems(2)])
        show "0 < f" "j1 - 1 + 1 < i1 + 1 + f" using Suc.prems(4) \<open>i \<le> j\<close> i1(2) j1(3) bj by linarith+
        show "i1 + 1 \<le> j1 - 1 \<longrightarrow> (\<exists>k. i1 + 1 \<le> k \<and> k < e \<and> 0 \<le> c (?s ! k) x)"
          using len j1(3) p i1(4) by (intro impI exI [of _ j1]) auto
        show "i1 + 1 \<le> j1 - 1 \<longrightarrow> (\<exists>k. b \<le> k \<and> k \<le> j1 - 1 \<and> c (?s ! k) x \<le> 0 \<and> (b < k \<or> b < i1 + 1))"
          using len p i1(2) j1(4) by (intro impI exI [of _ i1]) (auto simp: nth_list_update)
      qed
      then show ?thesis
        using sw(2) i1(2) j1(3) bj True unfolding step pr same_outside_def by (fastforce simp: if_P)
    qed
  qed
qed

section \<open>Sorting\<close>

definition sorted_by :: "('r \<Rightarrow> 'r \<Rightarrow> int) \<Rightarrow> 'r list \<Rightarrow> bool" where
  "sorted_by c xs \<longleftrightarrow> sorted_wrt (\<lambda>x y. c x y \<le> 0) xs"

text \<open>What is asked of the comparison: it orders the records of R linearly, up to records that it takes for equal.\<close>

locale cmp_order =
  fixes c :: "'r \<Rightarrow> 'r \<Rightarrow> int" and R :: "'r set"
  assumes cmp_sign: "x \<in> R \<Longrightarrow> y \<in> R \<Longrightarrow> sgn (c y x) = - sgn (c x y)"
    and cmp_trans: "x \<in> R \<Longrightarrow> y \<in> R \<Longrightarrow> z \<in> R \<Longrightarrow> c x y \<le> 0 \<Longrightarrow> c y z \<le> 0 \<Longrightarrow> c x z \<le> 0"
begin

lemma swap_sides: "x \<in> R \<Longrightarrow> y \<in> R \<Longrightarrow> 0 \<le> c y x \<longleftrightarrow> c x y \<le> 0"
  using cmp_sign [of x y] by (auto simp: sgn_if split: if_splits)

lemma cmp_refl: "x \<in> R \<Longrightarrow> c x x = 0"
  using cmp_sign [of x x] by (auto simp: sgn_if split: if_splits)

lemma sorted_ins_right: "sorted_by c P \<Longrightarrow> set P \<subseteq> R \<Longrightarrow> x \<in> R \<Longrightarrow> sorted_by c (ins_right c x P)"
proof (induction P rule: rev_induct)
  case Nil
  show ?case by (simp add: sorted_by_def ins_right_def)
next
  case (snoc y P)
  have st: "set (ins_right c x P) = insert x (set P)"
    using mset_ins_right [of c x P, THEN arg_cong [where f = set_mset]] by simp
  show ?case
  proof (cases "c x y < 0")
    case True
    then show ?thesis using snoc st by (auto simp: ins_right_snoc sorted_by_def sorted_wrt_append)
  next
    case False
    then have "c y x \<le> 0" using swap_sides [of y x] snoc.prems by simp
    moreover have "c z x \<le> 0" if "z \<in> set P" for z
      using cmp_trans [of z y x] that snoc.prems \<open>c y x \<le> 0\<close> by (auto simp: sorted_by_def sorted_wrt_append)
    ultimately show ?thesis using False snoc.prems by (auto simp: ins_right_snoc sorted_by_def sorted_wrt_append)
  qed
qed

lemma insort_from_ok:
  "length A = start \<Longrightarrow> length P = k \<Longrightarrow> length Q = n \<Longrightarrow> set P \<subseteq> R \<Longrightarrow> set Q \<subseteq> R \<Longrightarrow> sorted_by c P \<Longrightarrow>
   \<exists>ys. insort_from c start k n (A @ P @ Q @ B) = (Inr (), A @ ys @ B) \<and> mset ys = mset P + mset Q \<and> sorted_by c ys"
proof (induction n arbitrary: P Q k)
  case 0
  then show ?case by (simp add: cm_simps)
next
  case (Suc n)
  then obtain x Q' where Q: "Q = x # Q'" by (cases Q) auto
  let ?P = "ins_right c x P"
  have "\<exists>ys. insort_from c start (k + 1) n (A @ ?P @ Q' @ B) = (Inr (), A @ ys @ B) \<and> mset ys = mset ?P + mset Q' \<and> sorted_by c ys"
    using Suc.prems Q sorted_ins_right [of P x] mset_ins_right [of c x P, THEN arg_cong [where f = set_mset]]
    by (intro Suc.IH) auto
  moreover have "ins_down c x start k (A @ P @ x # Q' @ B) = (Inr (), A @ ?P @ Q' @ B)"
    using ins_down_app [of A start P k c x x "Q' @ B"] Suc.prems by simp
  ultimately show ?case
    using Suc.prems by (auto simp: Q rd_app cm_simps nth_append mset_ins_right)
qed

lemma insort_ok:
  assumes "length A = start" and "length xs = nitms" and "set xs \<subseteq> R"
  shows "\<exists>ys. insort c start nitms (A @ xs @ B) = (Inr (), A @ ys @ B) \<and> mset ys = mset xs \<and> sorted_by c ys"
proof (cases xs)
  case Nil
  then show ?thesis using assms by (intro exI [of _ "[]"]) (simp add: insort_def cm_simps sorted_by_def)
next
  case (Cons x Q)
  then show ?thesis
    using insort_from_ok [of A start "[x]" 1 Q "nitms - 1" B] assms by (simp add: insort_def sorted_by_def)
qed

lemma sorted_by_parts:
  assumes "sorted_by c L" and "sorted_by c T" and "x \<in> R" and "set (L @ M @ T) \<subseteq> R"
    and "\<forall>y\<in>set (L @ M). c y x \<le> 0" and "\<forall>y\<in>set (M @ T). c x y \<le> 0"
  shows "sorted_by c (L @ M @ T)"
proof -
  have le: "c y z \<le> 0" if "y \<in> set (L @ M)" "z \<in> set (M @ T)" for y z
    by (rule cmp_trans [of y x z]) (use assms that in auto)
  have "sorted_by c M" unfolding sorted_by_def sorted_wrt_iff_nth_less using le by auto
  then show ?thesis using assms(1,2) le by (auto simp: sorted_by_def sorted_wrt_append)
qed

lemma same_outside_parts:
  assumes "same_outside b (b + n) (A @ xs @ B) t" and "length A = b" and "length xs = n"
  shows "take b t = A" and "drop (b + n) t = B"
proof -
  have l: "length t = b + n + length B" using assms mset_eq_length [of t "A @ xs @ B"] by (simp add: same_outside_def)
  have "t ! k = A ! k" if "k < b" for k using assms that by (simp add: same_outside_def nth_append)
  then show "take b t = A" using assms(2) l by (intro nth_equalityI) simp_all
  have "t ! (b + n + k) = B ! k" for k using assms by (simp add: same_outside_def nth_append)
  then show "drop (b + n) t = B" using l by (intro nth_equalityI) simp_all
qed

lemma drop_split: "a \<le> b \<Longrightarrow> drop a s = take (b - a) (drop a s) @ drop b s"
  using append_take_drop_id [of "b - a" "drop a s"] by simp

lemma nth_mid: "length A = a \<Longrightarrow> n < length X \<Longrightarrow> (A @ X @ B) ! (a + n) = X ! n"
  by (auto simp: nth_append)

lemma partition_parts:
  assumes "length A = start" and "length xs = nitms" and "set xs \<subseteq> R" and "2 \<le> nitms"
  defines "x \<equiv> xs ! (nitms div 2)"
  shows "\<exists>i j L M T. partition_loop c x nitms (Suc nitms) start (start + nitms - 1) (A @ xs @ B) = (Inr (i, j), A @ L @ M @ T @ B)
    \<and> mset (L @ M @ T) = mset xs \<and> (\<forall>y\<in>set (L @ M). c y x \<le> 0) \<and> (\<forall>y\<in>set (M @ T). c x y \<le> 0)
    \<and> length L = j + 1 - start \<and> start \<le> j \<and> length (A @ L @ M) = i \<and> length T = start + nitms - i \<and> length L < nitms \<and> length T < nitms"
proof -
  let ?e = "start + nitms" and ?m = "start + nitms div 2" and ?s = "A @ xs @ B"
  have len: "0 < nitms" "?e \<le> length ?s" "nitms div 2 < nitms" "0 < nitms div 2" using assms by auto
  have xin: "?s ! ?m = x" "x \<in> set xs" using assms(1,2) len by (simp_all add: nth_append x_def)
  then have xR: "x \<in> R" and xx: "c (?s ! ?m) x = 0" using assms(3) cmp_refl by auto
  have "parted c x start ?e ?s start (?e - 1)" using len by (auto simp: parted_def)
  then have "\<exists>s' i' j'. partition_loop c x nitms (Suc nitms) start (?e - 1) ?s = (Inr (i', j'), s') \<and> same_outside start ?e ?s s'
    \<and> parted c x start ?e s' i' j' \<and> j' < i' \<and> start \<le> i' \<and> j' \<le> ?e - 1
    \<and> ((\<exists>k. start \<le> k \<and> k \<le> ?e - 1 \<and> c (?s ! k) x = 0) \<longrightarrow> start < i' \<and> j' < ?e - 1)"
    by (rule partition_loop_ok) (use len xx in \<open>auto intro!: exI [of _ ?m]\<close>)
  moreover have "start \<le> ?m \<and> ?m \<le> ?e - 1 \<and> c (?s ! ?m) x = 0" using len xx by simp
  ultimately obtain s' i j where pl: "partition_loop c x nitms (Suc nitms) start (?e - 1) ?s = (Inr (i, j), s')"
    "same_outside start ?e ?s s'" "parted c x start ?e s' i j" "j < i" "start < i" "j < ?e - 1" by blast
  note pt = pl(3) [unfolded parted_def]
  have ls: "length s' = length ?s" using pl(2) mset_eq_length unfolding same_outside_def by blast
  define L M T where "L = take (j + 1 - start) (drop start s')" and "M = take (i - (j + 1)) (drop (j + 1) s')" and "T = take (?e - i) (drop i s')"
  have l: "length L = j + 1 - start" "length (A @ L @ M) = i" "length T = ?e - i" "length (L @ M) = i - start"
    using ls pt pl(4-6) assms(1,2) by (auto simp: L_def M_def T_def min_def)
  have "take start s' = A" "drop ?e s' = B" using same_outside_parts [OF pl(2) assms(1,2)] by simp_all
  then have s': "s' = A @ (L @ M @ T) @ B"
    using drop_split [of start "j + 1" s'] drop_split [of "j + 1" i s'] drop_split [of i ?e s'] append_take_drop_id [of start s'] pt pl(4)
    unfolding L_def M_def T_def by simp
  have ms: "mset (L @ M @ T) = mset xs" using pl(2) unfolding s' same_outside_def by simp
  then have sub: "set (L @ M @ T) \<subseteq> R" using assms(3) by (metis set_mset_mset)
  have "c y x \<le> 0" if y: "y \<in> set (L @ M)" for y
  proof -
    obtain n where n: "y = (L @ M) ! n" "n < i - start" using y l(4) by (metis in_set_conv_nth)
    then have "y = s' ! (start + n)" using nth_mid [OF assms(1), of n "L @ M" "T @ B"] l(4) s' by simp
    then show ?thesis using n(2) pt by simp
  qed
  moreover have "c x y \<le> 0" if y: "y \<in> set (M @ T)" for y
  proof -
    obtain n where n: "y = (M @ T) ! n" "n < length (M @ T)" using y by (metis in_set_conv_nth)
    moreover have "length (A @ L) = j + 1" using l(1) assms(1) pt by simp
    ultimately have "y = s' ! (j + 1 + n)" using nth_mid [of "A @ L" "j + 1" n "M @ T" B] s' by simp
    then have "0 \<le> c y x" using n(2) l pt pl(4) assms(1) by simp
    then show ?thesis using swap_sides [of x y] xR sub y by auto
  qed
  moreover have "length L < nitms" "length T < nitms" "start \<le> j" using l pl(5,6) pt len by simp_all
  moreover have "partition_loop c x nitms (Suc nitms) start (?e - 1) ?s = (Inr (i, j), A @ L @ M @ T @ B)" using pl(1) s' by simp
  ultimately show ?thesis
    using ms l by (intro exI [of _ i] exI [of _ j] exI [of _ L] exI [of _ M] exI [of _ T] conjI ballI) assumption+
qed

lemma sort_part:
  \<comment> \<open>a recursive call, which is left out for a part of one element\<close>
  assumes "length A = start" and "b \<longleftrightarrow> 1 < length xs" and "set xs \<subseteq> R"
    and "b \<Longrightarrow> \<exists>ys. quick c f start (length xs) (A @ xs @ B) = (Inr (), A @ ys @ B) \<and> mset ys = mset xs \<and> sorted_by c ys"
  shows "\<exists>ys. (if b then quick c f start (length xs) else ret ()) (A @ xs @ B) = (Inr (), A @ ys @ B) \<and> mset ys = mset xs \<and> sorted_by c ys"
proof (cases b)
  case False
  then have "sorted_by c xs" using assms(2) by (cases xs) (auto simp: sorted_by_def)
  then show ?thesis using False by (auto simp: cm_simps)
qed (use assms in simp)

lemma quick_ok:
  assumes "length A = start" and "length xs = nitms" and "set xs \<subseteq> R" and "nitms < f"
  shows "\<exists>ys. quick c f start nitms (A @ xs @ B) = (Inr (), A @ ys @ B) \<and> mset ys = mset xs \<and> sorted_by c ys"
  using assms
proof (induction f arbitrary: A start xs nitms B)
  case 0
  then show ?case by simp
next
  case (Suc f)
  show ?case
  proof (cases "nitms < INSORTSZ")
    case True
    then show ?thesis using insort_ok [OF Suc.prems(1-3)] by simp
  next
    case False
    let ?x = "xs ! (nitms div 2)"
    have x: "start + nitms div 2 < length (A @ xs @ B)" "(A @ xs @ B) ! (start + nitms div 2) = ?x" "?x \<in> R"
      using False Suc.prems(1-3) by (auto simp: nth_append)
    from partition_parts [OF Suc.prems(1-3), of B] False obtain i j L M T where
      pl: "partition_loop c ?x nitms (Suc nitms) start (start + nitms - 1) (A @ xs @ B) = (Inr (i, j), A @ L @ M @ T @ B)"
      and ms: "mset (L @ M @ T) = mset xs" and lo: "\<forall>y\<in>set (L @ M). c y ?x \<le> 0" and hi: "\<forall>y\<in>set (M @ T). c ?x y \<le> 0"
      and l: "length L = j + 1 - start" "start \<le> j" "length (A @ L @ M) = i" "length T = start + nitms - i" "length L < nitms" "length T < nitms"
      by auto
    have sub: "set (L @ M @ T) \<subseteq> R" using Suc.prems(3) ms by (metis set_mset_mset)
    have len: "length L = j - start + 1" using l(1,2) by simp
    have "\<exists>L'. (if start < j then quick c f start (length L) else ret ()) (A @ L @ M @ T @ B) = (Inr (), A @ L' @ M @ T @ B)
        \<and> mset L' = mset L \<and> sorted_by c L'"
      by (rule sort_part [OF Suc.prems(1) _ _ Suc.IH [OF Suc.prems(1) refl]]) (use sub Suc.prems(4) l in auto)
    then obtain L' where L': "(if start < j then quick c f start (length L) else ret ()) (A @ L @ M @ T @ B) = (Inr (), (A @ L' @ M) @ T @ B)"
      "mset L' = mset L" "sorted_by c L'" by auto
    have lA: "length (A @ L' @ M) = i" using l(3) mset_eq_length [OF L'(2)] by simp
    have "\<exists>T'. (if i < start + nitms - 1 then quick c f i (length T) else ret ()) ((A @ L' @ M) @ T @ B) = (Inr (), (A @ L' @ M) @ T' @ B)
        \<and> mset T' = mset T \<and> sorted_by c T'"
      by (rule sort_part [OF lA _ _ Suc.IH [OF lA refl]]) (use sub Suc.prems(4) l in auto)
    then obtain T' where T': "(if i < start + nitms - 1 then quick c f i (length T) else ret ()) ((A @ L' @ M) @ T @ B) = (Inr (), (A @ L' @ M) @ T' @ B)"
      "mset T' = mset T" "sorted_by c T'" by blast
    have sets: "set L' = set L" "set T' = set T" using L'(2) T'(2) by (metis set_mset_mset)+
    have "sorted_by c (L' @ M @ T')"
      by (rule sorted_by_parts [OF L'(3) T'(3) x(3)]) (use sub lo hi sets in auto)
    moreover have "mset (L' @ M @ T') = mset xs" using ms L'(2) T'(2) by simp
    moreover have "quick c (Suc f) start nitms (A @ xs @ B) = (Inr (), A @ (L' @ M @ T') @ B)"
      using False pl L'(1) T'(1) x(1,2) unfolding len l(4) by (simp add: rd_app cm_simps del: partition_loop.simps)
    ultimately show ?thesis by blast
  qed
qed

end

end
