(* ===== verification/Vsort_Merge.thy ===== *)
theory Vsort_Merge
  imports Vsort
begin

text \<open>
  The external sort of server/dbe/vsort.c: segments of nkeys records are sorted in memory (qsort_) and
  written to a temporary file, passes of merge then double the length of the sorted runs from one
  temporary file to the other, and vsort_ drives both. Files and buffers hold whole records; positions
  count records. How a record and its key are read (get_record, get_key) and the comparison are
  parameters, as they are in the code. Errors of the disk are not modelled: reads and writes succeed.
\<close>

section \<open>The control block and its temporary files\<close>

record 'r vctl =
  nkeys :: nat
  descending :: bool
  rec_count :: nat
  tempvf :: "nat \<Rightarrow> 'r list"
  ones :: 'r \<comment> \<open>a record of 0xff bytes\<close>
  zeroes :: 'r \<comment> \<open>a record of zero bytes\<close>

definition vfio_write :: "nat \<Rightarrow> 'r list \<Rightarrow> nat \<Rightarrow> ('r vctl, unit) cm" where
  \<comment> \<open>a hole in the file reads as zero bytes\<close>
  "vfio_write f rs pos = modst (\<lambda>v. let F = tempvf v f in
     v\<lparr>tempvf := (tempvf v)(f := take pos F @ replicate (pos - length F) (zeroes v) @ rs @ drop (pos + length rs) F)\<rparr>)"

definition filled :: "'r list \<Rightarrow> nat \<Rightarrow> nat \<Rightarrow> 'r \<Rightarrow> 'r list" where
  "filled F k pos x = (let rr = take k (drop pos F) in rr @ replicate (k - length rr) x)"

definition fillbuf :: "nat \<Rightarrow> nat \<Rightarrow> ('r vctl, 'r list) cm" where
  "fillbuf f pos = getst (\<lambda>v. filled (tempvf v f) (nkeys v) pos (ones v))"

definition qsort :: "('r \<Rightarrow> 'r \<Rightarrow> int) \<Rightarrow> 'r list \<Rightarrow> nat \<Rightarrow> ('r vctl, unit) cm" where
  \<comment> \<open>vrecs holds nitms records\<close>
  "qsort qcomp vrecs segment = bnd (getst (\<lambda>v. v)) (\<lambda>v.
     case quick (vcmp (descending v) qcomp) (Suc (length vrecs)) 0 (length vrecs) vrecs of
       (Inl e, _) \<Rightarrow> raise e
     | (Inr _, keyptrs) \<Rightarrow> vfio_write 0 keyptrs (segment * nkeys v))"

section \<open>Merging\<close>

record 'r merging =
  kbuf1 :: "'r list"
  ptr_p :: nat
  kbuf2 :: "'r list"
  ptr_q :: nat
  kbuf :: "'r list" \<comment> \<open>the records before r\<close>
  titms :: nat
  titms1 :: nat
  titms2 :: nat
  pos1 :: nat
  pos2 :: nat
  tpos :: nat
  tpos1 :: nat
  tpos2 :: nat
  fill1 :: bool
  fill2 :: bool

definition rec_at :: "'r list \<Rightarrow> nat \<Rightarrow> ('r vctl, 'r) cm" where
  "rec_at buf i = bnd (guard (i < length buf) Undefined) (\<lambda>_. ret (buf ! i))"

definition which :: "('r \<Rightarrow> 'r \<Rightarrow> int) \<Rightarrow> 'r merging \<Rightarrow> ('r vctl, bool) cm" where
  \<comment> \<open>False takes from kbuf1\<close>
  "which qcomp m =
     (if fill1 m then ret True
      else if fill2 m then ret False
      else bnd (rec_at (kbuf1 m) (ptr_p m)) (\<lambda>x. bnd (rec_at (kbuf2 m) (ptr_q m)) (\<lambda>y.
        getst (\<lambda>v. 0 < vcmp (descending v) qcomp x y))))"

definition take1 :: "nat \<Rightarrow> nat \<Rightarrow> 'r merging \<Rightarrow> ('r vctl, 'r merging) cm" where
  "take1 n from m = bnd (rec_at (kbuf1 m) (ptr_p m)) (\<lambda>x. bnd (getst nkeys) (\<lambda>k.
     let m = m\<lparr>kbuf := kbuf m @ [x], titms1 := (titms1 m + 1) mod 2 ^ 32, ptr_p := ptr_p m + 1\<rparr>
     in if titms1 m = n then ret (m\<lparr>pos1 := pos1 m + 2 * n, fill1 := True\<rparr>)
        else if k \<le> ptr_p m then bnd (fillbuf from (tpos1 m + k)) (\<lambda>b. ret (m\<lparr>kbuf1 := b, ptr_p := 0, tpos1 := tpos1 m + k\<rparr>))
        else ret m))"

definition take2 :: "nat \<Rightarrow> nat \<Rightarrow> 'r merging \<Rightarrow> ('r vctl, 'r merging) cm" where
  "take2 n from m = bnd (rec_at (kbuf2 m) (ptr_q m)) (\<lambda>x. bnd (getst nkeys) (\<lambda>k.
     let m = m\<lparr>kbuf := kbuf m @ [x], titms2 := (titms2 m + 1) mod 2 ^ 32, ptr_q := ptr_q m + 1\<rparr>
     in if titms2 m = n then ret (m\<lparr>pos2 := pos2 m + 2 * n, fill2 := True\<rparr>)
        else if k \<le> ptr_q m then bnd (fillbuf from (tpos2 m + k)) (\<lambda>b. ret (m\<lparr>kbuf2 := b, ptr_q := 0, tpos2 := tpos2 m + k\<rparr>))
        else ret m))"

definition next_runs :: "nat \<Rightarrow> 'r merging \<Rightarrow> ('r vctl, 'r merging) cm" where
  \<comment> \<open>fsize is rec_count records\<close>
  "next_runs from m =
     (if fill1 m \<and> fill2 m then
        bnd (getst rec_count) (\<lambda>fsize.
        bnd (if pos1 m < fsize then bnd (fillbuf from (pos1 m)) (\<lambda>b.
            ret (m\<lparr>kbuf1 := b, ptr_p := 0, tpos1 := pos1 m, fill1 := False, titms1 := 0\<rparr>)) else ret m) (\<lambda>m.
        if pos2 m < fsize then bnd (fillbuf from (pos2 m)) (\<lambda>b.
            ret (m\<lparr>kbuf2 := b, ptr_q := 0, tpos2 := pos2 m, fill2 := False, titms2 := 0\<rparr>)) else ret m))
      else ret m)"

definition flush :: "nat \<Rightarrow> 'r merging \<Rightarrow> ('r vctl, 'r merging) cm" where
  "flush to m = bnd (getst nkeys) (\<lambda>k.
     if k \<le> length (kbuf m) then bnd (vfio_write to (kbuf m) (tpos m)) (\<lambda>_. ret (m\<lparr>kbuf := [], tpos := tpos m + k\<rparr>))
     else ret m)"

definition merge_step :: "('r \<Rightarrow> 'r \<Rightarrow> int) \<Rightarrow> nat \<Rightarrow> nat \<Rightarrow> nat \<Rightarrow> 'r merging \<Rightarrow> ('r vctl, 'r merging) cm" where
  "merge_step qcomp n from to m =
     bnd (which qcomp m) (\<lambda>w. bnd (if w then take2 n from m else take1 n from m) (\<lambda>m.
     bnd (next_runs from m) (\<lambda>m. bnd (flush to m) (\<lambda>m. ret (m\<lparr>titms := (titms m + 1) mod 2 ^ 32\<rparr>)))))"

primrec merge_loop :: "('r \<Rightarrow> 'r \<Rightarrow> int) \<Rightarrow> nat \<Rightarrow> nat \<Rightarrow> nat \<Rightarrow> nat \<Rightarrow> 'r merging \<Rightarrow> ('r vctl, 'r merging) cm" where
  \<comment> \<open>while (titms < v->rec_count)\<close>
  "merge_loop qcomp n from to 0 m = raise NoFuel"
| "merge_loop qcomp n from to (Suc f) m = bnd (getst rec_count) (\<lambda>cnt.
     if titms m < cnt then bnd (merge_step qcomp n from to m) (\<lambda>m. merge_loop qcomp n from to f m) else ret m)"

definition merge_pass :: "('r \<Rightarrow> 'r \<Rightarrow> int) \<Rightarrow> nat \<Rightarrow> nat \<Rightarrow> nat \<Rightarrow> nat \<Rightarrow> ('r vctl, unit) cm" where
  "merge_pass qcomp f n from to =
     bnd (fillbuf from 0) (\<lambda>b1. bnd (fillbuf from n) (\<lambda>b2.
     bnd (merge_loop qcomp n from to f \<lparr>kbuf1 = b1, ptr_p = 0, kbuf2 = b2, ptr_q = 0, kbuf = [], titms = 0, titms1 = 0, titms2 = 0,
       pos1 = 0, pos2 = n, tpos = 0, tpos1 = 0, tpos2 = n, fill1 = False, fill2 = False\<rparr>) (\<lambda>m.
     vfio_write to (kbuf m) (tpos m))))"

primrec merge :: "('r \<Rightarrow> 'r \<Rightarrow> int) \<Rightarrow> nat \<Rightarrow> nat \<Rightarrow> nat \<Rightarrow> nat \<Rightarrow> ('r vctl, nat) cm" where
  \<comment> \<open>the fuel bounds the passes; a pass gets as much as its records need\<close>
  "merge qcomp 0 n from to = raise NoFuel"
| "merge qcomp (Suc f) n from to = bnd (getst rec_count) (\<lambda>cnt.
     if cnt \<le> n then ret from
     else bnd (merge_pass qcomp (Suc cnt) n from to) (\<lambda>_. merge qcomp f (n * 2 mod 2 ^ 64) to from))"

section \<open>Sorting a file\<close>

primrec segments :: "(nat \<Rightarrow> bool) \<Rightarrow> (nat \<Rightarrow> 'r option) \<Rightarrow> ('r \<Rightarrow> 'r \<Rightarrow> int) \<Rightarrow> nat \<Rightarrow> nat \<Rightarrow> 'r list \<Rightarrow> nat \<Rightarrow> nat
    \<Rightarrow> ('r vctl, ('r list \<times> nat \<times> nat) option) cm" where
  \<comment> \<open>the records n, n + 1, .., left of them; kb is kbuf up to nkey. get_record says whether a record can be
    read, get_key is None for a key that is left out\<close>
  "segments get_record get_key qcomp n 0 kb segment cnt = ret (Some (kb, segment, cnt))"
| "segments get_record get_key qcomp n (Suc left) kb segment cnt =
     (if \<not> get_record n then ret None
      else case get_key n of
        None \<Rightarrow> segments get_record get_key qcomp (n + 1) left kb segment cnt
      | Some r \<Rightarrow> bnd (getst nkeys) (\<lambda>k.
          if length kb + 1 = k then
            bnd (qsort qcomp (kb @ [r]) segment) (\<lambda>_. segments get_record get_key qcomp (n + 1) left [] (segment + 1) (cnt + 1))
          else segments get_record get_key qcomp (n + 1) left (kb @ [r]) segment (cnt + 1)))"

fun verified :: "('r \<Rightarrow> 'r \<Rightarrow> int) \<Rightarrow> 'r list \<Rightarrow> bool" where
  "verified qcomp (x # y # F) \<longleftrightarrow> \<not> qcomp y x < 0 \<and> verified qcomp (y # F)"
| "verified qcomp F \<longleftrightarrow> True"

definition vsort :: "(nat \<Rightarrow> bool) \<Rightarrow> (nat \<Rightarrow> 'r option) \<Rightarrow> ('r \<Rightarrow> 'r \<Rightarrow> int) \<Rightarrow> nat \<Rightarrow> bool \<Rightarrow> ('r vctl, nat option) cm" where
  \<comment> \<open>None is the result -1\<close>
  "vsort get_record get_key qcomp n verify =
     bnd (segments get_record get_key qcomp 0 n [] 0 0) (\<lambda>r. case r of
       None \<Rightarrow> ret None
     | Some (kb, segment, cnt) \<Rightarrow>
         bnd (if kb = [] then ret () else qsort qcomp kb segment) (\<lambda>_.
         bnd (modst (\<lambda>v. v\<lparr>rec_count := cnt\<rparr>)) (\<lambda>_.
         bnd (getst nkeys) (\<lambda>k. bnd (merge qcomp (Suc cnt) k 0 1) (\<lambda>f.
         getst (\<lambda>v. if verify \<and> \<not> (rec_count v \<le> length (tempvf v f) \<and> verified qcomp (take (rec_count v) (tempvf v f))) then None else Some f))))))"

end
