(* ===== verification/Vsort_Sorts.thy ===== *)
theory Vsort_Sorts
  imports Vsort_Merge
begin

text \<open>
  What the external sort computes: merging two runs, passes over a file of runs, the invariant of the
  merging loop and, from them, that vsort sorts.
\<close>

section \<open>Runs\<close>

lemma vcmp_ascending [simp]: "vcmp False qcomp = qcomp"
  by (intro ext) (simp add: vcmp_def)

fun mrg :: "('r \<Rightarrow> 'r \<Rightarrow> int) \<Rightarrow> 'r list \<Rightarrow> 'r list \<Rightarrow> 'r list" where
  "mrg c (x # xs) (y # ys) = (if 0 < c x y then y # mrg c (x # xs) ys else x # mrg c xs (y # ys))"
| "mrg c [] ys = ys"
| "mrg c xs [] = xs"

function pairs :: "('r \<Rightarrow> 'r \<Rightarrow> int) \<Rightarrow> nat \<Rightarrow> 'r list \<Rightarrow> 'r list" where
  \<comment> \<open>the runs of n records of a file, merged two by two\<close>
  "pairs c n F = (if n = 0 \<or> F = [] then F else mrg c (take n F) (take n (drop n F)) @ pairs c n (drop (2 * n) F))"
  by pat_completeness auto
termination
  by (relation "measure (\<lambda>(c, n, F). length F)") auto

function runs :: "('r \<Rightarrow> 'r \<Rightarrow> int) \<Rightarrow> nat \<Rightarrow> 'r list \<Rightarrow> bool" where
  "runs c n F = (if n = 0 \<or> F = [] then True else sorted_by c (take n F) \<and> runs c n (drop n F))"
  by pat_completeness auto
termination
  by (relation "measure (\<lambda>(c, n, F). length F)") auto

declare pairs.simps [simp del] runs.simps [simp del]

lemma mrg_Nil [simp]: "mrg c xs [] = xs"
  by (cases xs) simp_all

lemma mset_mrg [simp]: "mset (mrg c xs ys) = mset xs + mset ys"
  by (induction c xs ys rule: mrg.induct) simp_all

lemma length_mrg [simp]: "length (mrg c xs ys) = length xs + length ys"
  by (induction c xs ys rule: mrg.induct) simp_all

lemma set_mrg [simp]: "set (mrg c xs ys) = set xs \<union> set ys"
  by (metis mset_mrg set_mset_mset set_mset_union)

lemma take_take_drop: "take n F @ take n (drop n F) @ drop (2 * n) F = F"
  by (metis append_take_drop_id drop_drop mult_2)

lemma mset_pairs [simp]: "mset (pairs c n F) = mset F"
proof (induction c n F rule: pairs.induct)
  case (1 c n F)
  have "mset (take n F) + mset (take n (drop n F)) + mset (drop (2 * n) F) = mset F"
    using arg_cong [OF take_take_drop [of n F], of mset] by (simp only: mset_append add.assoc)
  then show ?case using 1 by (auto simp: pairs.simps [of c n F] add.assoc)
qed

lemma length_pairs [simp]: "length (pairs c n F) = length F"
  by (metis mset_pairs size_mset)

lemma pairs_step:
  "0 < n \<Longrightarrow> F \<noteq> [] \<Longrightarrow> pairs c n F = mrg c (take n F) (take n (drop n F)) @ pairs c n (drop (2 * n) F)"
  by (simp add: pairs.simps [of c n F])

lemma pairs_Nil [simp]: "pairs c n [] = []"
  by (simp add: pairs.simps)

lemma runs_Nil [simp]: "runs c n []"
  by (simp add: runs.simps)

lemma runs_block: "length G = n \<Longrightarrow> 0 < n \<Longrightarrow> runs c n (G @ F) \<longleftrightarrow> sorted_by c G \<and> runs c n F"
  by (subst runs.simps) auto

lemma runs_last: "length G \<le> n \<Longrightarrow> sorted_by c G \<Longrightarrow> runs c n G"
  by (subst runs.simps) simp

lemma runs_append: "length G = k * n \<Longrightarrow> runs c n G \<Longrightarrow> runs c n F \<Longrightarrow> runs c n (G @ F)"
proof (induction k arbitrary: G)
  case 0
  then show ?case by simp
next
  case (Suc k)
  show ?case
  proof (cases "n = 0")
    case True
    then show ?thesis by (subst runs.simps) simp
  next
    case False
    have G: "G = take n G @ drop n G" "length (take n G) = n" using Suc.prems(1) by simp_all
    then have r: "sorted_by c (take n G)" "runs c n (drop n G)" using Suc.prems(2) runs_block [of "take n G" n c "drop n G"] False by auto
    have "runs c n (drop n G @ F)" using Suc.prems(1) by (intro Suc.IH r(2) Suc.prems(3)) simp
    then have "runs c n (take n G @ drop n G @ F)" using runs_block [of "take n G" n c "drop n G @ F"] G(2) r(1) False by simp
    then show ?thesis by (metis append.assoc append_take_drop_id)
  qed
qed

context cmp_order begin

lemma sorted_mrg:
  "sorted_by c xs \<Longrightarrow> sorted_by c ys \<Longrightarrow> set xs \<subseteq> R \<Longrightarrow> set ys \<subseteq> R \<Longrightarrow> sorted_by c (mrg c xs ys)"
proof (induction xs arbitrary: ys)
  case (Cons x xs)
  note IH = Cons.IH and xs = Cons.prems(1,3)
  show ?case using Cons.prems(2,4)
  proof (induction ys)
    case Nil
    then show ?case using xs by simp
  next
    case (Cons y ys)
    have xy: "x \<in> R" "y \<in> R" "set xs \<subseteq> R" "set ys \<subseteq> R" using xs Cons.prems by auto
    have s: "\<forall>z\<in>set xs. c x z \<le> 0" "\<forall>z\<in>set ys. c y z \<le> 0" "sorted_by c xs" "sorted_by c ys"
      using xs Cons.prems by (auto simp: sorted_by_def)
    show ?case
    proof (cases "0 < c x y")
      case True
      then have "c y x \<le> 0" using swap_sides [of y x] xy by simp
      then have "\<forall>z\<in>set xs. c y z \<le> 0" using cmp_trans [of y x] s(1) xy by blast
      then show ?thesis using True Cons.IH s(2,4) xy \<open>c y x \<le> 0\<close> by (auto simp: sorted_by_def)
    next
      case False
      then have "\<forall>z\<in>set ys. c x z \<le> 0" using cmp_trans [of x y] s(2) xy by (auto simp: not_less)
      moreover have "sorted_by c (mrg c xs (y # ys))" using Cons.prems s xy by (intro IH) auto
      ultimately show ?thesis using False s(1) by (auto simp: sorted_by_def)
    qed
  qed
qed simp

lemma runs_pairs: "0 < n \<Longrightarrow> set F \<subseteq> R \<Longrightarrow> runs c n F \<Longrightarrow> runs c (2 * n) (pairs c n F)"
proof (induction "length F" arbitrary: F rule: less_induct)
  case less
  show ?case
  proof (cases "F = []")
    case False
    let ?L = "take n F" and ?M = "take n (drop n F)" and ?T = "drop (2 * n) F"
    have "runs c n (drop n F)" "sorted_by c ?L" using less.prems False by (simp_all add: runs.simps [of c n F])
    moreover from this have "sorted_by c ?M \<and> runs c n ?T"
      using less.prems(1) by (cases "drop n F = []") (auto simp: runs.simps [of c n "drop n F"] sorted_by_def mult_2 add.commute)
    moreover have "set ?L \<subseteq> R" "set ?M \<subseteq> R" "set ?T \<subseteq> R" using less.prems(2) by (auto dest!: in_set_takeD in_set_dropD)
    ultimately have m: "sorted_by c (mrg c ?L ?M)" and t: "runs c (2 * n) (pairs c n ?T)"
      using less.hyps [of ?T] less.prems(1) False by (auto intro: sorted_mrg)
    have p: "pairs c n F = mrg c ?L ?M @ pairs c n ?T" using less.prems(1) False by (rule pairs_step)
    show ?thesis
    proof (cases "2 * n \<le> length F")
      case True
      then show ?thesis unfolding p using m t less.prems(1) by (subst runs_block) auto
    next
      case False
      then show ?thesis unfolding p using m by (intro runs_last) auto
    qed
  qed simp
qed

end


section \<open>The buffers of a pass\<close>

text \<open>The pass reads the file F, which has rec_count records; s is where the first run of the pair starts.
  A run's buffer holds the run's next record, or a record of ones behind the end of the file.\<close>

definition loaded :: "'r list \<Rightarrow> nat \<Rightarrow> 'r \<Rightarrow> 'r list \<Rightarrow> nat \<Rightarrow> nat \<Rightarrow> nat \<Rightarrow> bool" where
  "loaded F k one b i tp P \<longleftrightarrow> i < k \<and> b = filled F k tp one \<and> tp + i = P"

definition run1 :: "'r list \<Rightarrow> nat \<Rightarrow> 'r \<Rightarrow> nat \<Rightarrow> nat \<Rightarrow> 'r merging \<Rightarrow> bool" where
  "run1 F k one n s m \<longleftrightarrow> (if fill1 m then pos1 m = s + 2 * n \<and> titms1 m = n
     else pos1 m = s \<and> titms1 m < n \<and> loaded F k one (kbuf1 m) (ptr_p m) (tpos1 m) (s + titms1 m))"

definition run2 :: "'r list \<Rightarrow> nat \<Rightarrow> 'r \<Rightarrow> nat \<Rightarrow> nat \<Rightarrow> 'r merging \<Rightarrow> bool" where
  "run2 F k one n s m \<longleftrightarrow> (if fill2 m then titms2 m = n \<and> (pos2 m = s + 3 * n \<or> pos2 m = s + n \<and> length F \<le> s + n)
     else pos2 m = s + n \<and> titms2 m < n \<and> loaded F k one (kbuf2 m) (ptr_q m) (tpos2 m) (s + n + titms2 m))"

definition left1 :: "'r list \<Rightarrow> nat \<Rightarrow> nat \<Rightarrow> 'r merging \<Rightarrow> 'r list" where
  "left1 F n s m = (if fill1 m then [] else take (n - titms1 m) (drop (s + titms1 m) F))"

definition left2 :: "'r list \<Rightarrow> nat \<Rightarrow> nat \<Rightarrow> 'r merging \<Rightarrow> 'r list" where
  "left2 F n s m = (if fill2 m then [] else take (n - titms2 m) (drop (s + n + titms2 m) F))"

lemma length_filled [simp]: "length (filled F k tp one) = k"
  by (simp add: filled_def Let_def)

lemma nth_filled: "i < k \<Longrightarrow> filled F k tp one ! i = (if tp + i < length F then F ! (tp + i) else one)"
  by (auto simp: filled_def Let_def nth_append)

lemma rec_at_loaded:
  "loaded F k one b i tp P \<Longrightarrow> rec_at b i v = (Inr (if P < length F then F ! P else one), v)"
  by (auto simp: loaded_def rec_at_def nth_filled cm_simps)

lemma take_drop_Cons: "0 < j \<Longrightarrow> i < length F \<Longrightarrow> take j (drop i F) = F ! i # take (j - 1) (drop (i + 1) F)"
  by (cases j) (simp_all add: Cons_nth_drop_Suc [symmetric])

lemma fillbuf_app: "tempvf v f = F \<Longrightarrow> nkeys v = k \<Longrightarrow> ones v = one \<Longrightarrow> fillbuf f pos v = (Inr (filled F k pos one), v)"
  by (simp add: fillbuf_def cm_simps)

definition kept1 :: "'r merging \<Rightarrow> 'r merging \<Rightarrow> bool" where
  \<comment> \<open>taking from the first run changes nothing of the second\<close>
  "kept1 m m' \<longleftrightarrow> kbuf2 m' = kbuf2 m \<and> ptr_q m' = ptr_q m \<and> titms2 m' = titms2 m \<and> pos2 m' = pos2 m \<and> tpos2 m' = tpos2 m
     \<and> fill2 m' = fill2 m \<and> titms m' = titms m \<and> tpos m' = tpos m"

definition kept2 :: "'r merging \<Rightarrow> 'r merging \<Rightarrow> bool" where
  "kept2 m m' \<longleftrightarrow> kbuf1 m' = kbuf1 m \<and> ptr_p m' = ptr_p m \<and> titms1 m' = titms1 m \<and> pos1 m' = pos1 m \<and> tpos1 m' = tpos1 m
     \<and> fill1 m' = fill1 m \<and> titms m' = titms m \<and> tpos m' = tpos m"

lemma kept1D: "kept1 m m' \<Longrightarrow> run2 F k one n s m' = run2 F k one n s m \<and> left2 F n s m' = left2 F n s m"
  by (simp add: kept1_def run2_def left2_def)

lemma kept2D: "kept2 m m' \<Longrightarrow> run1 F k one n s m' = run1 F k one n s m \<and> left1 F n s m' = left1 F n s m"
  by (simp add: kept2_def run1_def left1_def)

lemma take1_app:
  assumes v: "tempvf v from = F" "nkeys v = k" "ones v = one" and n: "n < 2 ^ 32" and m: "run1 F k one n s m" "\<not> fill1 m" "left1 F n s m \<noteq> []"
  shows "\<exists>m'. take1 n from m v = (Inr m', v) \<and> kept1 m m' \<and> kbuf m' = kbuf m @ [hd (left1 F n s m)]
    \<and> run1 F k one n s m' \<and> left1 F n s m' = tl (left1 F n s m)"
proof -
  let ?P = "s + titms1 m" and ?L = "left1 F n s m"
  have t: "titms1 m < n" "loaded F k one (kbuf1 m) (ptr_p m) (tpos1 m) ?P" "pos1 m = s" using m by (simp_all add: run1_def)
  have P: "?P < length F" using m(2,3) by (simp add: left1_def)
  have l: "?L = F ! ?P # take (n - titms1 m - 1) (drop (?P + 1) F)"
    using m(2) t(1) P by (simp add: left1_def take_drop_Cons)
  have tm: "(titms1 m + 1) mod 2 ^ 32 = titms1 m + 1" using t(1) n by simp
  let ?m = "m\<lparr>kbuf := kbuf m @ [hd ?L], titms1 := titms1 m + 1, ptr_p := ptr_p m + 1\<rparr>"
  let ?n = "if titms1 m + 1 = n then ?m\<lparr>pos1 := pos1 m + 2 * n, fill1 := True\<rparr>
      else if k \<le> ptr_p m + 1 then ?m\<lparr>kbuf1 := filled F k (tpos1 m + k) one, ptr_p := 0, tpos1 := tpos1 m + k\<rparr> else ?m"
  have "take1 n from m v = (Inr ?n, v)"
    unfolding take1_def Let_def bnd_app rec_at_loaded [OF t(2)] getst_app prod.case sum.case tm using P l v
    by (simp add: fillbuf_app [OF v] cm_simps)
  moreover have "run1 F k one n s ?n" using t m(2) by (auto simp: run1_def loaded_def)
  moreover have "left1 F n s ?n = tl ?L" unfolding l using m(2) by (auto simp: left1_def)
  moreover have "kept1 m ?n" "kbuf ?n = kbuf m @ [hd ?L]" by (simp_all add: kept1_def)
  ultimately show ?thesis by blast
qed

lemma take2_app:
  assumes v: "tempvf v from = F" "nkeys v = k" "ones v = one" and n: "n < 2 ^ 32" and m: "run2 F k one n s m" "\<not> fill2 m" "left2 F n s m \<noteq> []"
  shows "\<exists>m'. take2 n from m v = (Inr m', v) \<and> kept2 m m' \<and> kbuf m' = kbuf m @ [hd (left2 F n s m)]
    \<and> run2 F k one n s m' \<and> left2 F n s m' = tl (left2 F n s m)"
proof -
  let ?P = "s + n + titms2 m" and ?L = "left2 F n s m"
  have t: "titms2 m < n" "loaded F k one (kbuf2 m) (ptr_q m) (tpos2 m) ?P" "pos2 m = s + n" using m by (simp_all add: run2_def)
  have P: "?P < length F" using m(2,3) by (simp add: left2_def)
  have l: "?L = F ! ?P # take (n - titms2 m - 1) (drop (?P + 1) F)"
    using m(2) t(1) P by (simp add: left2_def take_drop_Cons)
  have tm: "(titms2 m + 1) mod 2 ^ 32 = titms2 m + 1" using t(1) n by simp
  let ?m = "m\<lparr>kbuf := kbuf m @ [hd ?L], titms2 := titms2 m + 1, ptr_q := ptr_q m + 1\<rparr>"
  let ?n = "if titms2 m + 1 = n then ?m\<lparr>pos2 := pos2 m + 2 * n, fill2 := True\<rparr>
      else if k \<le> ptr_q m + 1 then ?m\<lparr>kbuf2 := filled F k (tpos2 m + k) one, ptr_q := 0, tpos2 := tpos2 m + k\<rparr> else ?m"
  have "take2 n from m v = (Inr ?n, v)"
    unfolding take2_def Let_def bnd_app rec_at_loaded [OF t(2)] getst_app prod.case sum.case tm using P l v
    by (simp add: fillbuf_app [OF v] cm_simps)
  moreover have "run2 F k one n s ?n" using t m(2) by (auto simp: run2_def loaded_def)
  moreover have "left2 F n s ?n = tl ?L" unfolding l using m(2) by (auto simp: left2_def)
  moreover have "kept2 m ?n" "kbuf ?n = kbuf m @ [hd ?L]" by (simp_all add: kept2_def)
  ultimately show ?thesis by blast
qed

definition done_runs :: "'r list \<Rightarrow> nat \<Rightarrow> nat \<Rightarrow> 'r merging \<Rightarrow> bool" where
  \<comment> \<open>both runs are empty only at the end of the file\<close>
  "done_runs F n s m \<longleftrightarrow> (fill1 m \<and> fill2 m \<longrightarrow> length F \<le> s + 2 * n)"

lemma next_runs_app:
  assumes v: "tempvf v from = F" "nkeys v = k" "ones v = one" "rec_count v = length F" and "0 < k" and "0 < n"
    and m: "run1 F k one n s m" "run2 F k one n s m"
  shows "\<exists>m' s'. next_runs from m v = (Inr m', v) \<and> run1 F k one n s' m' \<and> run2 F k one n s' m' \<and> done_runs F n s' m'
    \<and> kbuf m' = kbuf m \<and> titms m' = titms m \<and> tpos m' = tpos m
    \<and> mrg c (left1 F n s m) (left2 F n s m) @ pairs c n (drop (s + 2 * n) F)
      = mrg c (left1 F n s' m') (left2 F n s' m') @ pairs c n (drop (s' + 2 * n) F)"
proof (cases "fill1 m \<and> fill2 m \<and> pos1 m < length F")
  case False
  then have "next_runs from m v = (Inr m, v) \<and> done_runs F n s m"
    using m v by (auto simp: next_runs_def cm_simps run1_def run2_def done_runs_def split: if_splits)
  then show ?thesis using m by blast
next
  case True
  let ?s = "s + 2 * n" and ?F = "drop (s + 2 * n) F"
  have p: "pos1 m = ?s" "pos2 m = ?s + n" "titms2 m = n" using True m by (auto simp: run1_def run2_def)
  let ?m = "m\<lparr>kbuf1 := filled F k ?s one, ptr_p := 0, tpos1 := ?s, fill1 := False, titms1 := 0\<rparr>"
  let ?n = "if ?s + n < length F then ?m\<lparr>kbuf2 := filled F k (?s + n) one, ptr_q := 0, tpos2 := ?s + n, fill2 := False, titms2 := 0\<rparr> else ?m"
  have "next_runs from m v = (Inr ?n, v)"
    using True p v fillbuf_app [OF v(1-3)] by (simp add: next_runs_def cm_simps)
  moreover have "run1 F k one n ?s ?n" "run2 F k one n ?s ?n" "done_runs F n ?s ?n"
    using True p assms(5,6) by (auto simp: run1_def run2_def done_runs_def loaded_def)
  moreover have "left1 F n ?s ?n = take n ?F" "left2 F n ?s ?n = take n (drop n ?F)"
    using True by (auto simp: left1_def left2_def)
  moreover have "pairs c n ?F = mrg c (take n ?F) (take n (drop n ?F)) @ pairs c n (drop (?s + 2 * n) F)"
    using pairs_step [of n ?F c] assms(6) True p by (simp add: ac_simps)
  moreover have "left1 F n s m = []" "left2 F n s m = []" using True by (simp_all add: left1_def left2_def)
  moreover have "kbuf ?n = kbuf m \<and> titms ?n = titms m \<and> tpos ?n = tpos m" by simp
  ultimately show ?thesis by (metis append_Nil mrg.simps(2))
qed


section \<open>The merging loop\<close>

definition written :: "'r list \<Rightarrow> 'r list \<Rightarrow> 'r merging \<Rightarrow> bool" where
  \<comment> \<open>the records done so far are in the file and in kbuf\<close>
  "written T done m \<longleftrightarrow> tpos m \<le> length T \<and> take (tpos m) T = take (tpos m) done \<and> kbuf m = drop (tpos m) done \<and> tpos m \<le> length done"

definition merging_inv :: "('r \<Rightarrow> 'r \<Rightarrow> int) \<Rightarrow> 'r list \<Rightarrow> nat \<Rightarrow> 'r \<Rightarrow> nat \<Rightarrow> nat \<Rightarrow> 'r list \<Rightarrow> 'r list \<Rightarrow> 'r merging \<Rightarrow> bool" where
  "merging_inv c F k one n s T done m \<longleftrightarrow> run1 F k one n s m \<and> run2 F k one n s m \<and> done_runs F n s m
     \<and> done @ mrg c (left1 F n s m) (left2 F n s m) @ pairs c n (drop (s + 2 * n) F) = pairs c n F
     \<and> titms m = length done \<and> written T done m \<and> length T \<le> length F"

lemma which_app:
  assumes i: "merging_inv (vcmp (descending v) qcomp) F k one n s T done m" and l: "length done < length F"
    and one: "\<forall>x\<in>set F. vcmp (descending v) qcomp x one \<le> 0"
  defines "c \<equiv> vcmp (descending v) qcomp" and "A \<equiv> left1 F n s m" and "B \<equiv> left2 F n s m"
  shows "\<exists>w. which qcomp m v = (Inr w, v) \<and> (if w then \<not> fill2 m \<and> B \<noteq> [] \<and> mrg c A B = hd B # mrg c A (tl B)
    else \<not> fill1 m \<and> A \<noteq> [] \<and> mrg c A B = hd A # mrg c (tl A) B)"
proof -
  have r: "run1 F k one n s m" "run2 F k one n s m" "done_runs F n s m"
    and eq: "done @ mrg c A B @ pairs c n (drop (s + 2 * n) F) = pairs c n F"
    using i by (simp_all add: merging_inv_def c_def A_def B_def)
  have rest: "\<not> (A = [] \<and> B = [] \<and> length F \<le> s + 2 * n)"
  proof
    assume "A = [] \<and> B = [] \<and> length F \<le> s + 2 * n"
    then have "done = pairs c n F" using eq by simp
    then show False using l by simp
  qed
  have a: "length F \<le> s + titms1 m \<and> titms1 m < n" if "\<not> fill1 m" "A = []" using that r(1) by (simp add: A_def left1_def run1_def)
  have b: "length F \<le> s + n + titms2 m \<and> titms2 m < n" if "\<not> fill2 m" "B = []" using that r(2) by (simp add: B_def left2_def run2_def)
  show ?thesis
  proof (cases "fill1 m")
    case True
    then have A: "A = []" by (simp add: A_def left1_def)
    have f: "\<not> fill2 m" using rest A True r(3) by (auto simp: done_runs_def B_def left2_def)
    have "B \<noteq> []" using rest A b [OF f] by auto
    then show ?thesis using A True f by (intro exI [of _ True]) (simp add: which_def cm_simps)
  next
    case False
    have "B = []" if "length F \<le> s + titms1 m" "titms1 m < n" using that by (simp add: B_def left2_def)
    then have A: "A \<noteq> []" using rest a [OF False] by auto
    then have P: "s + titms1 m < length F" "A = F ! (s + titms1 m) # tl A"
      using False r(1) by (simp_all add: A_def left1_def run1_def take_drop_Cons)
    show ?thesis
    proof (cases "fill2 m")
      case True
      then show ?thesis using False A by (intro exI [of _ False]) (simp add: which_def cm_simps B_def left2_def)
    next
      case fill2: False
      let ?y = "if s + n + titms2 m < length F then F ! (s + n + titms2 m) else one"
      have ld: "loaded F k one (kbuf1 m) (ptr_p m) (tpos1 m) (s + titms1 m)" "loaded F k one (kbuf2 m) (ptr_q m) (tpos2 m) (s + n + titms2 m)"
        using r False fill2 by (simp_all add: run1_def run2_def)
      have w: "which qcomp m v = (Inr (0 < c (F ! (s + titms1 m)) ?y), v)"
        using P(1) False fill2 unfolding which_def bnd_app if_not_P [OF False] if_not_P [OF fill2] rec_at_loaded [OF ld(1)] rec_at_loaded [OF ld(2)]
        by (simp add: cm_simps c_def)
      show ?thesis
      proof (cases "B = []")
        case True
        then have "?y = one" "c (F ! (s + titms1 m)) one \<le> 0" using b [OF fill2] P(1) one by (simp_all add: c_def)
        then have "\<not> 0 < c (F ! (s + titms1 m)) ?y" by simp
        then show ?thesis using w True False A by auto
      next
        case B: False
        then have p: "s + n + titms2 m < length F" "B = F ! (s + n + titms2 m) # tl B"
          using fill2 r(2) by (simp_all add: B_def left2_def run2_def take_drop_Cons)
        obtain As where As: "A = F ! (s + titms1 m) # As" using P(2) by blast
        obtain Bs where Bs: "B = F ! (s + n + titms2 m) # Bs" using p(2) by blast
        have "if 0 < c (F ! (s + titms1 m)) ?y then \<not> fill2 m \<and> B \<noteq> [] \<and> mrg c A B = hd B # mrg c A (tl B)
            else \<not> fill1 m \<and> A \<noteq> [] \<and> mrg c A B = hd A # mrg c (tl A) B"
          unfolding As Bs if_P [OF p(1)] using False fill2 by simp
        then show ?thesis using w by blast
      qed
    qed
  qed
qed

lemma flush_app:
  assumes "nkeys v = k" and "tempvf v to = T" and "written T done m" and "length done \<le> tpos m + k"
  shows "\<exists>m' T'. flush to m v = (Inr m', v\<lparr>tempvf := (tempvf v)(to := T')\<rparr>) \<and> written T' done m' \<and> length T' \<le> max (length T) (length done)
    \<and> m' = m\<lparr>kbuf := kbuf m', tpos := tpos m'\<rparr> \<and> (0 < k \<longrightarrow> length (kbuf m') < k)"
proof (cases "k \<le> length (kbuf m)")
  case False
  then have "flush to m v = (Inr m, v\<lparr>tempvf := (tempvf v)(to := T)\<rparr>)" using assms by (auto simp: flush_def cm_simps)
  then show ?thesis using assms(3) False by (intro exI [of _ m] exI [of _ T]) simp
next
  case True
  let ?T = "take (tpos m) T @ kbuf m @ drop (tpos m + length (kbuf m)) T"
  have d: "done = take (tpos m) T @ kbuf m" "length (kbuf m) = k" "length done = tpos m + k"
    using assms(3,4) True by (auto simp: written_def)
  have "flush to m v = (Inr (m\<lparr>kbuf := [], tpos := tpos m + k\<rparr>), v\<lparr>tempvf := (tempvf v)(to := ?T)\<rparr>)"
    using True assms(1-3) by (simp add: flush_def cm_simps vfio_write_def Let_def written_def)
  moreover have "written ?T done (m\<lparr>kbuf := [], tpos := tpos m + k\<rparr>)"
    using d assms(3) by (simp add: written_def)
  moreover have "length ?T \<le> max (length T) (length done)" using d assms(3) by (auto simp: written_def)
  ultimately show ?thesis by (intro exI [of _ "m\<lparr>kbuf := [], tpos := tpos m + k\<rparr>"] exI [of _ ?T]) simp
qed


lemma written_snoc: "written T done m \<Longrightarrow> kbuf m' = kbuf m @ [x] \<Longrightarrow> tpos m' = tpos m \<Longrightarrow> written T (done @ [x]) m'"
  by (simp add: written_def)

definition with_to :: "nat \<Rightarrow> 'r list \<Rightarrow> 'r vctl \<Rightarrow> 'r vctl" where
  "with_to to T v = v\<lparr>tempvf := (tempvf v)(to := T)\<rparr>"

definition pass_of :: "'r vctl \<Rightarrow> nat \<Rightarrow> nat \<Rightarrow> nat \<Rightarrow> 'r list \<Rightarrow> bool" where
  \<comment> \<open>what holds during a pass from the file from, whose contents are F, to the file to\<close>
  "pass_of v n from to F \<longleftrightarrow> tempvf v from = F \<and> from \<noteq> to \<and> rec_count v = length F \<and> length F < 2 ^ 32 \<and> n < 2 ^ 32
     \<and> 0 < n \<and> 0 < nkeys v"

lemma with_to_simps [simp]:
  "nkeys (with_to to T v) = nkeys v" "ones (with_to to T v) = ones v" "rec_count (with_to to T v) = rec_count v"
  "descending (with_to to T v) = descending v" "tempvf (with_to to T v) to = T" "from \<noteq> to \<Longrightarrow> tempvf (with_to to T v) from = tempvf v from"
  "with_to to T' (with_to to T v) = with_to to T' v"
  by (simp_all add: with_to_def)

lemma merge_step_ok:
  fixes v :: "'r vctl"
  assumes ps: "pass_of v n from to F" and one: "\<forall>x\<in>set F. vcmp (descending v) qcomp x (ones v) \<le> 0"
    and i: "merging_inv (vcmp (descending v) qcomp) F (nkeys v) (ones v) n s T done m" and l: "length done < length F"
    and kb: "length (kbuf m) < nkeys v"
  shows "\<exists>m' s' T' x. merge_step qcomp n from to m (with_to to T v) = (Inr m', with_to to T' v)
    \<and> merging_inv (vcmp (descending v) qcomp) F (nkeys v) (ones v) n s' T' (done @ [x]) m' \<and> length (kbuf m') < nkeys v"
proof -
  let ?c = "vcmp (descending v) qcomp" and ?k = "nkeys v" and ?v = "with_to to T v"
  let ?A = "left1 F n s m" and ?B = "left2 F n s m"
  have v: "tempvf ?v from = F" "nkeys ?v = ?k" "ones ?v = ones v" "rec_count ?v = length F" and n: "n < 2 ^ 32" "0 < n" "0 < ?k"
    using ps by (simp_all add: pass_of_def)
  have r: "run1 F ?k (ones v) n s m" "run2 F ?k (ones v) n s m" "titms m = length done" "written T done m" "length T \<le> length F"
    and eq: "done @ mrg ?c ?A ?B @ pairs ?c n (drop (s + 2 * n) F) = pairs ?c n F"
    using i by (simp_all add: merging_inv_def)
  obtain w where w: "which qcomp m ?v = (Inr w, ?v)" "if w then \<not> fill2 m \<and> ?B \<noteq> [] \<and> mrg ?c ?A ?B = hd ?B # mrg ?c ?A (tl ?B)
      else \<not> fill1 m \<and> ?A \<noteq> [] \<and> mrg ?c ?A ?B = hd ?A # mrg ?c (tl ?A) ?B"
    using which_app [of ?v qcomp F ?k "ones v" n s T "done" m, unfolded with_to_simps, OF i l one] by blast
  have "\<exists>m1 x. (if w then take2 n from m else take1 n from m) ?v = (Inr m1, ?v) \<and> kbuf m1 = kbuf m @ [x] \<and> titms m1 = titms m \<and> tpos m1 = tpos m
      \<and> run1 F ?k (ones v) n s m1 \<and> run2 F ?k (ones v) n s m1 \<and> mrg ?c ?A ?B = x # mrg ?c (left1 F n s m1) (left2 F n s m1)"
  proof (cases w)
    case True
    then have B: "\<not> fill2 m" "?B \<noteq> []" "mrg ?c ?A ?B = hd ?B # mrg ?c ?A (tl ?B)" using w(2) by auto
    obtain m' where m': "take2 n from m ?v = (Inr m', ?v)" "kept2 m m'" "kbuf m' = kbuf m @ [hd ?B]" "run2 F ?k (ones v) n s m'"
      "left2 F n s m' = tl ?B" using take2_app [OF v(1-3) n(1) r(2) B(1,2)] by blast
    then show ?thesis unfolding if_P [OF True] using r(1) kept2D [OF m'(2), of F ?k "ones v" n s] m'(2) B(3)
      by (intro exI [of _ m'] exI [of _ "hd ?B"]) (simp add: kept2_def)
  next
    case False
    then have A: "\<not> fill1 m" "?A \<noteq> []" "mrg ?c ?A ?B = hd ?A # mrg ?c (tl ?A) ?B" using w(2) by auto
    obtain m' where m': "take1 n from m ?v = (Inr m', ?v)" "kept1 m m'" "kbuf m' = kbuf m @ [hd ?A]" "run1 F ?k (ones v) n s m'"
      "left1 F n s m' = tl ?A" using take1_app [OF v(1-3) n(1) r(1) A(1,2)] by blast
    then show ?thesis unfolding if_not_P [OF False] using r(2) kept1D [OF m'(2), of F ?k "ones v" n s] m'(2) A(3)
      by (intro exI [of _ m'] exI [of _ "hd ?A"]) (simp add: kept1_def)
  qed
  then obtain m1 x where m1: "(if w then take2 n from m else take1 n from m) ?v = (Inr m1, ?v)" "kbuf m1 = kbuf m @ [x]" "titms m1 = titms m"
    "tpos m1 = tpos m" "run1 F ?k (ones v) n s m1" "run2 F ?k (ones v) n s m1" "mrg ?c ?A ?B = x # mrg ?c (left1 F n s m1) (left2 F n s m1)" by blast
  obtain m2 s' where m2: "next_runs from m1 ?v = (Inr m2, ?v)" "run1 F ?k (ones v) n s' m2" "run2 F ?k (ones v) n s' m2" "done_runs F n s' m2"
    "kbuf m2 = kbuf m1" "titms m2 = titms m1" "tpos m2 = tpos m1"
    "mrg ?c (left1 F n s m1) (left2 F n s m1) @ pairs ?c n (drop (s + 2 * n) F)
      = mrg ?c (left1 F n s' m2) (left2 F n s' m2) @ pairs ?c n (drop (s' + 2 * n) F)"
    using next_runs_app [OF v n(3,2) m1(5,6)] by blast
  have wr: "written T (done @ [x]) m2" using written_snoc [OF r(4)] m1(2,4) m2(5,7) by simp
  moreover have "length (done @ [x]) \<le> tpos m2 + ?k" 
  proof -
    have "length (kbuf m2) = length (done @ [x]) - tpos m2" using wr unfolding written_def by (metis length_drop)
    then show ?thesis using kb m1(2) m2(5) by simp
  qed
  ultimately obtain m3 T' where m3: "flush to m2 ?v = (Inr m3, with_to to T' v)" "written T' (done @ [x]) m3"
    "length T' \<le> max (length T) (length (done @ [x]))" "m3 = m2\<lparr>kbuf := kbuf m3, tpos := tpos m3\<rparr>" "length (kbuf m3) < ?k"
    using flush_app [OF v(2), of to T "done @ [x]" m2] n(3) by (auto simp: with_to_def)
  let ?m = "m3\<lparr>titms := titms m + 1\<rparr>"
  have "titms m3 = titms m2" by (subst m3(4)) simp
  then have t: "(titms m3 + 1) mod 2 ^ 32 = titms m + 1" using m2(6) m1(3) r(3) l ps by (simp add: pass_of_def)
  have keep: "run1 F ?k (ones v) n s' ?m = run1 F ?k (ones v) n s' m2" "run2 F ?k (ones v) n s' ?m = run2 F ?k (ones v) n s' m2"
    "done_runs F n s' ?m = done_runs F n s' m2" "left1 F n s' ?m = left1 F n s' m2" "left2 F n s' ?m = left2 F n s' m2" "written T' (done @ [x]) ?m"
    using m3(2) by (subst m3(4), simp add: run1_def run2_def done_runs_def left1_def left2_def written_def)+
  have "merging_inv ?c F ?k (ones v) n s' T' (done @ [x]) ?m"
    using eq m1(7) m2(2-4,8) m3(3) r(3,5) l keep unfolding merging_inv_def by simp
  moreover have "merge_step qcomp n from to m ?v = (Inr ?m, with_to to T' v)"
    unfolding merge_step_def bnd_app w(1) prod.case sum.case m1(1) m2(1) m3(1) ret_app t ..
  ultimately show ?thesis using m3(5) by (intro exI [of _ ?m] exI [of _ s'] exI [of _ T'] exI [of _ x]) simp
qed


lemma merge_loop_ok:
  fixes v :: "'r vctl"
  assumes ps: "pass_of v n from to F" and one: "\<forall>x\<in>set F. vcmp (descending v) qcomp x (ones v) \<le> 0"
  shows "merging_inv (vcmp (descending v) qcomp) F (nkeys v) (ones v) n s T done m \<Longrightarrow> length (kbuf m) < nkeys v \<Longrightarrow>
    length F < f + length done \<Longrightarrow> length done \<le> length F \<Longrightarrow>
    \<exists>m' T'. merge_loop qcomp n from to f m (with_to to T v) = (Inr m', with_to to T' v)
      \<and> written T' (pairs (vcmp (descending v) qcomp) n F) m' \<and> length T' \<le> length F"
proof (induction f arbitrary: s T "done" m)
  case 0
  then show ?case by simp
next
  case (Suc f)
  let ?c = "vcmp (descending v) qcomp"
  have t: "titms m = length done" "rec_count v = length F" using Suc.prems(1) ps by (simp_all add: merging_inv_def pass_of_def)
  show ?case
  proof (cases "length done < length F")
    case True
    obtain m' s' T' x where st: "merge_step qcomp n from to m (with_to to T v) = (Inr m', with_to to T' v)"
      "merging_inv ?c F (nkeys v) (ones v) n s' T' (done @ [x]) m'" "length (kbuf m') < nkeys v"
      using merge_step_ok [OF ps one Suc.prems(1) True Suc.prems(2)] by blast
    have "merge_loop qcomp n from to (Suc f) m (with_to to T v) = merge_loop qcomp n from to f m' (with_to to T' v)"
      using True st(1) t by (simp add: cm_simps)
    then show ?thesis using Suc.IH [OF st(2,3)] Suc.prems(3) True by simp
  next
    case False
    let ?rest = "mrg ?c (left1 F n s m) (left2 F n s m) @ pairs ?c n (drop (s + 2 * n) F)"
    have eq: "done @ ?rest = pairs ?c n F" using Suc.prems(1) by (simp add: merging_inv_def)
    have "length (done @ ?rest) = length F" unfolding eq by simp
    then have "?rest = []" using False by (simp only: length_append length_0_conv [symmetric])
    then have "done = pairs ?c n F" using eq by (metis append_Nil2)
    then show ?thesis using False t Suc.prems(1) by (auto simp: merging_inv_def cm_simps)
  qed
qed

lemma merge_pass_ok:
  fixes v :: "'r vctl"
  assumes ps: "pass_of v n from to F" and one: "\<forall>x\<in>set F. vcmp (descending v) qcomp x (ones v) \<le> 0"
    and to: "length (tempvf v to) \<le> length F" and F: "F \<noteq> []"
  shows "merge_pass qcomp (Suc (length F)) n from to v = (Inr (), with_to to (pairs (vcmp (descending v) qcomp) n F) v)"
proof -
  let ?c = "vcmp (descending v) qcomp"
  let ?m = "\<lparr>kbuf1 = filled F (nkeys v) 0 (ones v), ptr_p = 0, kbuf2 = filled F (nkeys v) n (ones v), ptr_q = 0, kbuf = [],
    titms = 0, titms1 = 0, titms2 = 0, pos1 = 0, pos2 = n, tpos = 0, tpos1 = 0, tpos2 = n, fill1 = False, fill2 = False\<rparr>"
  have v: "with_to to (tempvf v to) v = v" by (simp add: with_to_def)
  have fb: "fillbuf from pos v = (Inr (filled F (nkeys v) pos (ones v)), v)" for pos
    using ps by (intro fillbuf_app) (simp_all add: pass_of_def)
  have "pairs ?c n F = mrg ?c (take n F) (take n (drop n F)) @ pairs ?c n (drop (2 * n) F)"
    using F ps by (intro pairs_step) (simp_all add: pass_of_def)
  then have "merging_inv ?c F (nkeys v) (ones v) n 0 (tempvf v to) [] ?m"
    using ps to by (simp add: merging_inv_def run1_def run2_def loaded_def done_runs_def written_def left1_def left2_def pass_of_def)
  from merge_loop_ok [OF ps one this, of "Suc (length F)"] obtain m T where
    m: "merge_loop qcomp n from to (Suc (length F)) ?m v = (Inr m, with_to to T v)" "written T (pairs ?c n F) m" "length T \<le> length F"
    using ps v by (auto simp: pass_of_def)
  have k: "tpos m + length (kbuf m) = length F" using m(2) by (simp add: written_def)
  have "take (tpos m) T @ kbuf m = pairs ?c n F" using m(2) by (simp add: written_def)
  then have "vfio_write to (kbuf m) (tpos m) (with_to to T v) = (Inr (), with_to to (pairs ?c n F) v)"
    using m(2,3) k by (simp add: vfio_write_def cm_simps Let_def written_def with_to_def)
  then show ?thesis unfolding merge_pass_def bnd_app fb prod.case sum.case m(1) by simp
qed

context cmp_order begin

lemma merge_ok:
  fixes v :: "'r vctl"
  assumes "c = vcmp (descending v) qcomp" and "tempvf v from = F" and "from \<noteq> to" and "rec_count v = length F" and "length F < 2 ^ 32"
    and "0 < n" and "0 < nkeys v" and "length (tempvf v to) \<le> length F" and "runs c n F" and "set F \<subseteq> R" and "\<forall>x\<in>R. c x (ones v) \<le> 0"
    and "0 < f" and "length F < n + f"
  shows "\<exists>r v'. merge qcomp f n from to v = (Inr r, v') \<and> mset (tempvf v' r) = mset F \<and> sorted_by c (tempvf v' r) \<and> rec_count v' = length F
    \<and> nkeys v' = nkeys v"
  using assms
proof (induction f arbitrary: n "from" to F v)
  case 0
  then show ?case by simp
next
  case (Suc f)
  note c = Suc.prems(1)
  show ?case
  proof (cases "length F \<le> n")
    case True
    then have "sorted_by c F" using Suc.prems(6,9) by (cases "F = []") (simp_all add: runs.simps [of c n F] sorted_by_def)
    then show ?thesis using True Suc.prems(2,4) by (intro exI [of _ "from"] exI [of _ v]) (simp add: cm_simps)
  next
    case False
    let ?P = "pairs c n F"
    let ?v = "with_to to ?P v"
    have ps: "pass_of v n from to F" using Suc.prems False by (simp add: pass_of_def)
    have F: "F \<noteq> []" "\<forall>x\<in>set F. vcmp (descending v) qcomp x (ones v) \<le> 0" using Suc.prems(10,11) False c by auto
    have w: "n * 2 mod 2 ^ 64 = 2 * n" using False Suc.prems(5) by simp
    have "merge qcomp (Suc f) n from to v = merge qcomp f (2 * n) to from ?v"
      using merge_pass_ok [OF ps F(2) Suc.prems(8) F(1), folded c] False Suc.prems(4) w by (simp add: cm_simps del: merge_pass_def)
    moreover have "\<exists>r v'. merge qcomp f (2 * n) to from ?v = (Inr r, v') \<and> mset (tempvf v' r) = mset ?P \<and> sorted_by c (tempvf v' r)
        \<and> rec_count v' = length ?P \<and> nkeys v' = nkeys ?v"
    proof (rule Suc.IH)
      have "set ?P = set F" by (metis mset_pairs set_mset_mset)
      then show "set ?P \<subseteq> R" using Suc.prems(10) by simp
      show "runs c (2 * n) ?P" by (rule runs_pairs [OF Suc.prems(6,10,9)])
    qed (use Suc.prems False in simp_all)
    ultimately show ?thesis by simp
  qed
qed

lemma qsort_ok:
  fixes v :: "'r vctl"
  assumes c: "c = vcmp (descending v) qcomp" and "set xs \<subseteq> R" and G: "length (tempvf v 0) = segment * nkeys v"
  shows "\<exists>ys. qsort qcomp xs segment v = (Inr (), with_to 0 (tempvf v 0 @ ys) v) \<and> mset ys = mset xs \<and> sorted_by c ys"
proof -
  obtain ys where "quick c (Suc (length xs)) 0 (length xs) xs = (Inr (), ys)" "mset ys = mset xs" "sorted_by c ys"
    using quick_ok [of "[]" 0 xs "length xs" "Suc (length xs)" "[]"] assms(2) by auto
  then show ?thesis
    using G by (intro exI [of _ ys]) (simp add: qsort_def cm_simps vfio_write_def Let_def with_to_def flip: c del: quick.simps)
qed

lemma segments_ok:
  fixes v :: "'r vctl"
  assumes "c = vcmp (descending v) qcomp" and "\<forall>i. n \<le> i \<longrightarrow> i < n + left \<longrightarrow> get_record i"
    and "set (List.map_filter get_key [n..<n + left]) \<subseteq> R" and "set kb \<subseteq> R" and "length kb < nkeys v"
    and "length (tempvf v 0) = segment * nkeys v" and "runs c (nkeys v) (tempvf v 0)"
  shows "\<exists>G kb' segment'. segments get_record get_key qcomp n left kb segment cnt v
      = (Inr (Some (kb', segment', cnt + length (List.map_filter get_key [n..<n + left]))), with_to 0 G v)
    \<and> length G = segment' * nkeys v \<and> runs c (nkeys v) G \<and> length kb' < nkeys v
    \<and> mset (G @ kb') = mset (tempvf v 0 @ kb @ List.map_filter get_key [n..<n + left])"
  using assms
proof (induction left arbitrary: n kb segment cnt v)
  case 0
  then show ?case
    by (intro exI [of _ "tempvf v 0"] exI [of _ kb] exI [of _ segment]) (simp add: cm_simps with_to_def List.map_filter_def)
next
  case (Suc left)
  let ?k = "nkeys v"
  have up: "[n..<n + Suc left] = n # [n + 1..<n + 1 + left]" by (simp add: upt_conv_Cons)
  have g: "get_record n" "\<forall>i. n + 1 \<le> i \<longrightarrow> i < n + 1 + left \<longrightarrow> get_record i" using Suc.prems(2) by auto
  show ?case
  proof (cases "get_key n")
    case None
    then have mf: "List.map_filter get_key [n..<n + Suc left] = List.map_filter get_key [n + 1..<n + 1 + left]"
      unfolding up by (simp add: List.map_filter_def)
    show ?thesis using Suc.IH [OF Suc.prems(1) g(2) _ Suc.prems(4-7), of cnt] Suc.prems(3) g(1) None unfolding mf by simp
  next
    case (Some r)
    have mf: "List.map_filter get_key [n..<n + Suc left] = r # List.map_filter get_key [n + 1..<n + 1 + left]"
      using Some unfolding up by (simp add: List.map_filter_def)
    have R: "set (List.map_filter get_key [n + 1..<n + 1 + left]) \<subseteq> R" "set (kb @ [r]) \<subseteq> R" using Suc.prems(3,4) unfolding mf by auto
    show ?thesis
    proof (cases "length kb + 1 = ?k")
      case True
      obtain ys where ys: "qsort qcomp (kb @ [r]) segment v = (Inr (), with_to 0 (tempvf v 0 @ ys) v)" "mset ys = mset (kb @ [r])" "sorted_by c ys"
        using qsort_ok [OF Suc.prems(1) R(2) Suc.prems(6)] by blast
      let ?v = "with_to 0 (tempvf v 0 @ ys) v"
      have ly: "length ys = ?k" using ys(2) True by (metis size_mset length_append_singleton Suc_eq_plus1)
      have "runs c ?k (tempvf v 0 @ ys)" using runs_append [OF Suc.prems(6,7)] runs_last [of ys ?k c] ys(3) ly by simp
      then have "\<exists>G kb' segment'. segments get_record get_key qcomp (n + 1) left [] (segment + 1) (cnt + 1) ?v
          = (Inr (Some (kb', segment', cnt + 1 + length (List.map_filter get_key [n + 1..<n + 1 + left]))), with_to 0 G ?v)
        \<and> length G = segment' * nkeys ?v \<and> runs c (nkeys ?v) G \<and> length kb' < nkeys ?v
        \<and> mset (G @ kb') = mset (tempvf ?v 0 @ [] @ List.map_filter get_key [n + 1..<n + 1 + left])"
        using Suc.prems(1,5,6) R(1) g(2) ly by (intro Suc.IH) simp_all
      then show ?thesis using g(1) Some True ys(1,2) unfolding mf by (fastforce simp: cm_simps)
    next
      case False
      have "length (kb @ [r]) < ?k" using False Suc.prems(5) by simp
      from Suc.IH [OF Suc.prems(1) g(2) R this Suc.prems(6,7), of "cnt + 1"]
      show ?thesis using g(1) Some False unfolding mf by (auto simp: cm_simps)
    qed
  qed
qed

lemma verified_sorted: "sorted_by c F \<Longrightarrow> set F \<subseteq> R \<Longrightarrow> verified c F"
proof (induction F)
  case (Cons x F)
  then show ?case using swap_sides [of x "hd F"] by (cases F) (auto simp: sorted_by_def)
qed simp

lemma vsort_sorts:
  fixes v :: "'r vctl"
  assumes "c = vcmp (descending v) qcomp" and "\<forall>x\<in>R. c x (ones v) \<le> 0" and "0 < nkeys v" and "tempvf v 0 = []" and "tempvf v 1 = []"
    and "\<forall>i<n. get_record i" and "set (List.map_filter get_key [0..<n]) \<subseteq> R" and "n < 2 ^ 32"
    and "verify \<longrightarrow> \<not> descending v"
  shows "\<exists>f v'. vsort get_record get_key qcomp n verify v = (Inr (Some f), v') \<and> rec_count v' = length (tempvf v' f)
    \<and> mset (tempvf v' f) = mset (List.map_filter get_key [0..<n]) \<and> sorted_by c (tempvf v' f) \<and> nkeys v' = nkeys v"
proof -
  let ?K = "List.map_filter get_key [0..<n]" and ?k = "nkeys v"
  have sg: "\<exists>G kb' segment'. segments get_record get_key qcomp 0 n [] 0 0 v
      = (Inr (Some (kb', segment', 0 + length (List.map_filter get_key [0..<0 + n]))), with_to 0 G v)
    \<and> length G = segment' * nkeys v \<and> runs c (nkeys v) G \<and> length kb' < nkeys v
    \<and> mset (G @ kb') = mset (tempvf v 0 @ [] @ List.map_filter get_key [0..<0 + n])"
    by (rule segments_ok) (use assms in simp_all)
  then obtain G kb segment where G: "segments get_record get_key qcomp 0 n [] 0 0 v = (Inr (Some (kb, segment, length ?K)), with_to 0 G v)"
    "length G = segment * ?k" "runs c ?k G" "length kb < ?k" "mset (G @ kb) = mset ?K" using assms(4) by auto
  let ?w = "with_to 0 G v"
  have "set (G @ kb) = set ?K" using G(5) by (metis set_mset_mset)
  then have R: "set kb \<subseteq> R" "set G \<subseteq> R" using assms(7) by auto
  have "\<exists>ys. (if kb = [] then ret () else qsort qcomp kb segment) ?w = (Inr (), with_to 0 (G @ ys) v) \<and> mset ys = mset kb \<and> sorted_by c ys"
    using qsort_ok [of ?w qcomp kb segment] assms(1) R(1) G(2) by (auto simp: cm_simps sorted_by_def)
  then obtain ys where ys: "(if kb = [] then ret () else qsort qcomp kb segment) ?w = (Inr (), with_to 0 (G @ ys) v)" "mset ys = mset kb" "sorted_by c ys"
    by blast
  let ?F = "G @ ys" and ?u = "(with_to 0 (G @ ys) v)\<lparr>rec_count := length ?K\<rparr>"
  have mF: "mset ?F = mset ?K" using G(5) ys(2) by simp
  then have lF: "length ?F = length ?K" by (rule mset_eq_length)
  have sF: "set ?F = set ?K" using mF by (metis set_mset_mset)
  have "length ?K \<le> n" using length_filter_le [of "\<lambda>x. get_key x \<noteq> None" "[0..<n]"] by (simp add: List.map_filter_def comp_def)
  have "runs c ?k ys" using ys(2,3) G(4) by (intro runs_last) (auto dest: mset_eq_length)
  then have rF: "runs c ?k ?F" by (rule runs_append [OF G(2,3)])
  have "\<exists>r v'. merge qcomp (Suc (length ?K)) ?k 0 1 ?u = (Inr r, v') \<and> mset (tempvf v' r) = mset ?F \<and> sorted_by c (tempvf v' r) \<and> rec_count v' = length ?F
      \<and> nkeys v' = nkeys ?u"
  proof (rule merge_ok)
    show "length (tempvf ?u 1) \<le> length ?F" using assms(5) by (simp add: with_to_def)
    show "set ?F \<subseteq> R" using assms(7) sF by simp
  qed (use assms(1-3,8) lF rF \<open>length ?K \<le> n\<close> in simp_all)
  then obtain r v' where m: "merge qcomp (Suc (length ?K)) ?k 0 1 ?u = (Inr r, v')" "mset (tempvf v' r) = mset ?F"
    "sorted_by c (tempvf v' r)" "rec_count v' = length ?F" "nkeys v' = ?k" by auto
  have "set (tempvf v' r) \<subseteq> R" using m(2) sF assms(7) by (metis set_mset_mset)
  then have "verify \<longrightarrow> verified qcomp (tempvf v' r)" using assms(1,9) verified_sorted [OF m(3)] by auto
  then have "vsort get_record get_key qcomp n verify v = (Inr (Some r), v')"
    unfolding vsort_def bnd_app G(1) prod.case sum.case option.case ys(1)
    using m(1,4) mset_eq_length [OF m(2)] by (simp add: cm_simps del: merge.simps)
  then show ?thesis using m(2-5) mF mset_eq_length [OF m(2)] by auto
qed

end

end
