(* ===== verification/Qindex.thy ===== *)
theory Qindex
  imports Index_Seek Vsort_Sorts
begin

text \<open>
  INDEX by sorting: server/dbe/qindex.c. qcomp compares the records of the sort, nextkeyent reads the
  sorted file back (without duplicates when UNIQUE is on), build_bt loads the pages of the index from
  it, level by level of the recursion, and qindex does all of it. The key of a record (qindex_get_rec and
  ndx_get_key, modelled in Index_Seek) is a parameter. The recursion of build_bt takes fuel.
\<close>

section \<open>The records of the sort\<close>

record vrec =
  rec_no :: nat
  vkey :: key

definition recno_diff :: "nat \<Rightarrow> nat \<Rightarrow> int" where
  \<comment> \<open>p->rec_no - q->rec_no, an unsigned long returned as an int\<close>
  "recno_diff a b = sint (word_of_int (int a - int b) :: 32 word)"

definition MAX_RECNO :: nat where
  \<comment> \<open>(recno_t)-1\<close>
  "MAX_RECNO = 2 ^ 64 - 1"

definition qcomp :: "bool \<Rightarrow> key_hdr \<Rightarrow> vrec \<Rightarrow> vrec \<Rightarrow> int" where
  \<comment> \<open>the first argument is isset(UNIQUE_ON)\<close>
  "qcomp uniq h p q =
     (if rec_no p = rec_no q then 0
      else if rec_no p = 0 \<or> rec_no q = MAX_RECNO then - 1
      else if rec_no q = 0 \<or> rec_no p = MAX_RECNO then 1
      else
        let r = (if keytyp h = CMBK then parts_cmp (cmb_parts h) (vkey p) (vkey q)
                 else parts_cmp [(if keytyp h \<noteq> 0 then NUMBER else CHARCTR, keylen h)] (vkey p) (vkey q))
        in if r \<noteq> 0 then r else if uniq then 0 else recno_diff (rec_no p) (rec_no q))"

definition qindex_get_key :: "(nat \<Rightarrow> key option) \<Rightarrow> nat \<Rightarrow> vrec option" where
  \<comment> \<open>key_of is the key of a record by its number, None for NULL; None is the result -1\<close>
  "qindex_get_key key_of n = map_option (\<lambda>k. \<lparr>rec_no = n + 1, vkey = k\<rparr>) (key_of (n + 1))"

section \<open>Reading the sorted file\<close>

record loader =
  ndx :: "key ndx"
  fd_left :: "vrec list" \<comment> \<open>what is not read from the file yet\<close>
  kbuf_left :: "vrec list" \<comment> \<open>from keyptrs[0] to keyptrs[1]\<close>
  last_ent :: vrec \<comment> \<open>kbuf1\<close>
  passed_up :: "key entry" \<comment> \<open>kbuf2\<close>
  rec_prcd :: nat
  load_count :: nat \<comment> \<open>rec_count\<close>
  load_nkeys :: nat

primrec nextkeyent :: "(vrec \<Rightarrow> vrec \<Rightarrow> int) \<Rightarrow> bool \<Rightarrow> nat \<Rightarrow> (loader, vrec option) cm" where
  \<comment> \<open>each load takes one unit of fuel; None is NULL\<close>
  "nextkeyent q uniq 0 = raise NoFuel"
| "nextkeyent q uniq (Suc f) = bnd (getst (\<lambda>l. l)) (\<lambda>l.
     if kbuf_left l = [] \<and> fd_left l = [] then ret None
     else
       let (kb, fd) = (if kbuf_left l = [] then (take (load_nkeys l) (fd_left l), drop (load_nkeys l) (fd_left l))
                       else (kbuf_left l, fd_left l));
           kb = (if uniq then dropWhile (\<lambda>r. q (last_ent l) r = 0) kb else kb)
       in case kb of
            [] \<Rightarrow> bnd (modst (\<lambda>l. l\<lparr>kbuf_left := [], fd_left := fd\<rparr>)) (\<lambda>_. nextkeyent q uniq f)
          | r # kb \<Rightarrow> bnd (modst (\<lambda>l. l\<lparr>kbuf_left := kb, fd_left := fd, last_ent := r\<rparr>)) (\<lambda>_. ret (Some r)))"

definition next_ent :: "(vrec \<Rightarrow> vrec \<Rightarrow> int) \<Rightarrow> bool \<Rightarrow> (loader, vrec option) cm" where
  "next_ent q uniq = bnd (getst (\<lambda>l. length (fd_left l))) (\<lambda>n. nextkeyent q uniq (Suc (Suc n)))"

section \<open>Loading the pages\<close>

definition on_ndx :: "(key, 'a) im \<Rightarrow> (loader, 'a) cm" where
  "on_ndx m = (\<lambda>l. case m (ndx l) of (r, s) \<Rightarrow> (r, l\<lparr>ndx := s\<rparr>))"

primrec fill_leaf :: "(vrec \<Rightarrow> vrec \<Rightarrow> int) \<Rightarrow> bool \<Rightarrow> nat \<Rightarrow> nat \<Rightarrow> key page \<Rightarrow> (loader, key page) cm" where
  \<comment> \<open>for (i=0; i<recpp; ++i); n rounds are left\<close>
  "fill_leaf q uniq i 0 cpg = ret cpg"
| "fill_leaf q uniq i (Suc n) cpg =
     bnd (on_ndx (ne_put_pageno cpg i 0)) (\<lambda>cpg.
     bnd (next_ent q uniq) (\<lambda>k. case k of
       None \<Rightarrow> ret cpg
     | Some k \<Rightarrow>
         bnd (on_ndx (ne_put_key cpg i (vkey k))) (\<lambda>cpg.
         bnd (on_ndx (ne_put_recno cpg i (rec_no k))) (\<lambda>cpg.
         bnd (modst (\<lambda>l. l\<lparr>rec_prcd := rec_prcd l + 1\<rparr>)) (\<lambda>_.
         fill_leaf q uniq (i + 1) n (cpg\<lparr>entry_cnt := entry_cnt cpg + 1\<rparr>))))))"

definition load_leaf :: "(vrec \<Rightarrow> vrec \<Rightarrow> int) \<Rightarrow> bool \<Rightarrow> nat \<Rightarrow> nat \<Rightarrow> key page \<Rightarrow> (loader, bool) cm" where
  \<comment> \<open>the key before the first entry fails in get_entry\<close>
  "load_leaf q uniq recpp pno cpg =
     bnd (getst (\<lambda>l. load_count l - rec_prcd l)) (\<lambda>nrec.
     let lastpg = (nrec \<le> recpp) in
     bnd (fill_leaf q uniq 0 (if lastpg then nrec else recpp) cpg) (\<lambda>cpg.
     bnd (on_ndx (ne_put_pageno cpg (entry_cnt cpg) 0)) (\<lambda>cpg.
     bnd (guard (entry_cnt cpg \<noteq> 0) (Dbe INVALID_ENTRY)) (\<lambda>_.
     bnd (on_ndx (ne_get_key cpg (entry_cnt cpg - 1))) (\<lambda>k.
     bnd (modst (\<lambda>l. l\<lparr>passed_up := \<lparr>e_pno = pno, e_recno = 0, e_key = k\<rparr>\<rparr>)) (\<lambda>_.
     bnd (on_ndx (write_page pno cpg)) (\<lambda>_. ret lastpg)))))))"

primrec load_children :: "(nat \<Rightarrow> (loader, bool) cm) \<Rightarrow> nat \<Rightarrow> nat \<Rightarrow> nat \<Rightarrow> (loader, bool) cm" where
  \<comment> \<open>for (;;), which ends after recpp + 1 children at the latest\<close>
  "load_children build recpp pno 0 = raise NoFuel"
| "load_children build recpp pno (Suc n) =
     bnd (getst (\<lambda>l. pagecnt (ndx l))) (\<lambda>tpg. bnd (build tpg) (\<lambda>lastpg.
     bnd (on_ndx (getpage pno True)) (\<lambda>cpg. bnd (getst passed_up) (\<lambda>p.
     if lastpg \<or> entry_cnt cpg = recpp then
       bnd (on_ndx (ne_put_pageno cpg (entry_cnt cpg) (e_pno p))) (\<lambda>cpg.
       bnd (modst (\<lambda>l. l\<lparr>passed_up := p\<lparr>e_pno := pno\<rparr>\<rparr>)) (\<lambda>_.
       bnd (on_ndx (write_page pno cpg)) (\<lambda>_. ret lastpg)))
     else
       bnd (on_ndx (get_entry cpg (entry_cnt cpg))) (\<lambda>_.
       bnd (on_ndx (write_page pno ((put_slot cpg (entry_cnt cpg) p)\<lparr>entry_cnt := entry_cnt cpg + 1\<rparr>))) (\<lambda>_.
       load_children build recpp pno n))))))"

primrec build_bt :: "(vrec \<Rightarrow> vrec \<Rightarrow> int) \<Rightarrow> bool \<Rightarrow> nat \<Rightarrow> nat \<Rightarrow> nat \<Rightarrow> nat \<Rightarrow> (loader, bool) cm" where
  "build_bt q uniq recpp 0 tpage pno = raise NoFuel"
| "build_bt q uniq recpp (Suc f) tpage pno =
     bnd (on_ndx (getpage pno True)) (\<lambda>cpg.
     bnd (on_ndx (modst (\<lambda>s. if pno = pagecnt s then s\<lparr>pagecnt := pagecnt s + 1\<rparr> else s))) (\<lambda>_.
     bnd (getst load_count) (\<lambda>cnt.
     if cnt \<le> tpage * recpp then load_leaf q uniq recpp pno cpg
     else load_children (build_bt q uniq recpp f (tpage * (recpp + 1))) recpp pno (Suc recpp))))"

primrec count_ents :: "(vrec \<Rightarrow> vrec \<Rightarrow> int) \<Rightarrow> bool \<Rightarrow> nat \<Rightarrow> (loader, nat) cm" where
  \<comment> \<open>while (nextkeyent(v, fd)) ++count\<close>
  "count_ents q uniq 0 = raise NoFuel"
| "count_ents q uniq (Suc f) = bnd (next_ent q uniq) (\<lambda>k. case k of
       None \<Rightarrow> ret 0
     | Some _ \<Rightarrow> bnd (count_ents q uniq f) (\<lambda>n. ret (Suc n)))"

definition qindex :: "bool \<Rightarrow> key_hdr \<Rightarrow> (nat \<Rightarrow> key option) \<Rightarrow> nat \<Rightarrow> vrec vctl \<Rightarrow> (key, unit) im" where
  \<comment> \<open>v is the result of vsort_init; reccnt the number of records of the table\<close>
  "qindex uniq h key_of reccnt v =
     bnd (modst (\<lambda>s. s\<lparr>e_o_f := False\<rparr>)) (\<lambda>_.
     case vsort (\<lambda>_. True) (qindex_get_key key_of) (qcomp uniq h) reccnt False v of
       (Inl e, _) \<Rightarrow> raise e
     | (Inr None, _) \<Rightarrow> ret ()
     | (Inr (Some f), v) \<Rightarrow>
         let start = \<lambda>s n. \<lparr>ndx = s, fd_left = tempvf v f, kbuf_left = [], last_ent = \<lparr>rec_no = 0, vkey = []\<rparr>,
               passed_up = \<lparr>e_pno = 0, e_recno = 0, e_key = []\<rparr>, rec_prcd = 0, load_count = n, load_nkeys = nkeys v\<rparr>;
             q = qcomp uniq h in
         bnd (getst (\<lambda>s. s)) (\<lambda>s.
         bnd (if uniq then lift_res (fst (count_ents q uniq (Suc (Suc (rec_count v))) (start s 0))) else ret (rec_count v)) (\<lambda>n.
         bnd (modst (\<lambda>s. s\<lparr>rootno := pagecnt s\<rparr>)) (\<lambda>_.
         bnd (\<lambda>s. case build_bt q uniq (norecpp s) (Suc (Suc n)) 1 (pagecnt s) (start s n) of (r, l) \<Rightarrow> (r, ndx l)) (\<lambda>_.
         modst (\<lambda>s. s\<lparr>w_hdr := True\<rparr>))))))"

end
