(* ===== verification/Qindex_Loads.thy ===== *)
theory Qindex_Loads
  imports Qindex
begin

text \<open>
  What INDEX by sorting builds: the comparison of qindex orders the records, nextkeyent reads them in
  order, build_bt makes a tree of them, and the index that qindex leaves reads as the sorted list of the
  keys of the table.
\<close>

section \<open>The order of the records\<close>

definition ent :: "vrec \<Rightarrow> nat \<times> key" where
  "ent r = (rec_no r, vkey r)"

definition recs_of :: "key_hdr \<Rightarrow> (nat \<Rightarrow> key option) \<Rightarrow> vrec set" where
  \<comment> \<open>the records of a table with less than 2^31 records\<close>
  "recs_of h key_of = {r. 0 < rec_no r \<and> rec_no r < 2 ^ 31 \<and> key_of (rec_no r) = Some (vkey r) \<and> key_ok h (vkey r)}"

lemma recno_diff_small: "a < 2 ^ 31 \<Longrightarrow> b < 2 ^ 31 \<Longrightarrow> recno_diff a b = int a - int b"
  unfolding recno_diff_def sint_sbintrunc' by (simp add: signed_take_bit_int_eq_self)

lemma qcomp_side:
  assumes "x \<in> recs_of h key_of" and "y \<in> recs_of h key_of"
  shows "sgn (qcomp False h x y) = side (keycmp h False) False (ent x) (ent y)"
proof (cases "rec_no x = rec_no y")
  case True
  then have "vkey x = vkey y" using assms by (auto simp: recs_of_def)
  moreover have "side (keycmp h False) False (ent y) (ent y) = 0"
    using index_keys.side_swap [where x = "ent y" and y = "ent y" and h = h] assms by (simp add: recs_of_def ent_def)
  ultimately show ?thesis using True by (simp add: qcomp_def ent_def)
next
  case False
  have n: "0 < rec_no x" "0 < rec_no y" "rec_no x < 2 ^ 31" "rec_no y < 2 ^ 31" using assms by (simp_all add: recs_of_def)
  then have "rec_no x \<noteq> MAX_RECNO" "rec_no y \<noteq> MAX_RECNO" by (simp_all add: MAX_RECNO_def)
  then have "qcomp False h x y = (let r = keycmp h False (vkey x) (vkey y) in if r \<noteq> 0 then r else int (rec_no x) - int (rec_no y))"
    using False n unfolding qcomp_def keycmp_types key_types_def by (simp add: recno_diff_small Let_def)
  then show ?thesis using False by (auto simp: side_def ent_def Let_def cmp_recno_def sgn_if)
qed

lemma ent_inj: "x \<in> recs_of h key_of \<Longrightarrow> y \<in> recs_of h key_of \<Longrightarrow> rec_no x = rec_no y \<Longrightarrow> x = y"
  by (auto simp: recs_of_def)

interpretation sorting: cmp_order "qcomp False h" "recs_of h key_of" for h key_of
proof
  fix x y z
  assume xy: "x \<in> recs_of h key_of" "y \<in> recs_of h key_of"
  then have k: "snd (ent x) \<in> {k. key_ok h k}" "snd (ent y) \<in> {k. key_ok h k}" by (simp_all add: recs_of_def ent_def)
  show "sgn (qcomp False h y x) = - sgn (qcomp False h x y)"
    using index_keys.side_swap [OF k] xy by (simp add: qcomp_side)
  assume z: "z \<in> recs_of h key_of" and le: "qcomp False h x y \<le> 0" "qcomp False h y z \<le> 0"
  have s: "sgn i \<le> 0 \<longleftrightarrow> i \<le> 0" for i :: int by (simp add: sgn_if)
  have le': "side (keycmp h False) False (ent x) (ent y) \<le> 0" "side (keycmp h False) False (ent y) (ent z) \<le> 0"
    using le xy z s by (simp_all flip: qcomp_side)
  have "side (keycmp h False) False (ent x) (ent z) \<le> 0"
  proof (cases "side (keycmp h False) False (ent y) (ent z) = 0")
    case True
    then have "rec_no y = rec_no z" by (simp add: side_zero_iff ent_def)
    then have "y = z" using ent_inj xy(2) z by blast
    then show ?thesis using le'(1) by simp
  next
    case False
    have "snd (ent z) \<in> {k. key_ok h k}" using z by (simp add: recs_of_def ent_def)
    then show ?thesis using index_keys.side_mono [where x = "ent x" and y = "ent y" and z = "ent z" and h = h and uniq = False] k le' False by simp
  qed
  then show "qcomp False h x z \<le> 0" using xy z s by (simp flip: qcomp_side)
qed

lemma sorted_recs:
  assumes "sorted_by (qcomp False h) rs" and "set rs \<subseteq> recs_of h key_of" and "distinct (map rec_no rs)"
  shows "sorted_ents (keycmp h False) (map ent rs)"
proof -
  have "side (keycmp h False) False (ent x) (ent y) < 0"
    if xy: "x \<in> set rs" "y \<in> set rs" "qcomp False h x y \<le> 0" "rec_no x \<noteq> rec_no y" for x y
  proof -
    have r: "x \<in> recs_of h key_of" "y \<in> recs_of h key_of" using xy assms(2) by auto
    have "side (keycmp h False) False (ent x) (ent y) \<noteq> 0" using xy(4) by (simp add: side_zero_iff ent_def)
    moreover have "sgn (qcomp False h x y) \<le> 0" using xy(3) by (simp add: sgn_if)
    ultimately show ?thesis by (simp add: qcomp_side [OF r])
  qed
  moreover have "rec_no (rs ! i) \<noteq> rec_no (rs ! j)" if "i < j" "j < length rs" for i j
    using assms(3) that nth_eq_iff_index_eq [of "map rec_no rs" i j] by simp
  ultimately show ?thesis
    using assms(1) by (simp add: sorted_ents_def sorted_by_def sorted_wrt_iff_nth_less)
qed

section \<open>Reading the sorted file\<close>

primrec stream_of :: "(vrec \<Rightarrow> vrec \<Rightarrow> int) \<Rightarrow> bool \<Rightarrow> vrec \<Rightarrow> vrec list \<Rightarrow> vrec list" where
  "stream_of q uniq x [] = []"
| "stream_of q uniq x (r # rs) = (if uniq \<and> q x r = 0 then stream_of q uniq x rs else r # stream_of q uniq r rs)"

definition stream :: "(vrec \<Rightarrow> vrec \<Rightarrow> int) \<Rightarrow> bool \<Rightarrow> loader \<Rightarrow> vrec list" where
  \<comment> \<open>what nextkeyent still delivers\<close>
  "stream q uniq l = stream_of q uniq (last_ent l) (kbuf_left l @ fd_left l)"

lemma stream_of_all [simp]: "stream_of q False x rs = rs"
  by (induction rs arbitrary: x) auto

lemma stream_of_dropWhile:
  "stream_of q uniq x (rs @ zs) = stream_of q uniq x ((if uniq then dropWhile (\<lambda>r. q x r = 0) rs else rs) @ zs)"
  by (induction rs) auto

lemma nextkeyent_app:
  assumes "length (fd_left l) + (if kbuf_left l = [] then 0 else 1) < f" and "0 < load_nkeys l"
  shows "\<exists>kb fd. nextkeyent q uniq f l = (case stream q uniq l of
       [] \<Rightarrow> (Inr None, l\<lparr>kbuf_left := kb, fd_left := fd\<rparr>)
     | r # _ \<Rightarrow> (Inr (Some r), l\<lparr>kbuf_left := kb, fd_left := fd, last_ent := r\<rparr>))
    \<and> (\<forall>r rs. stream q uniq l = r # rs \<longrightarrow> stream_of q uniq r (kb @ fd) = rs)"
  using assms
proof (induction f arbitrary: l)
  case 0
  then show ?case by simp
next
  case (Suc f)
  show ?case
  proof (cases "kbuf_left l = [] \<and> fd_left l = []")
    case True
    then show ?thesis by (intro exI [of _ "[]"]) (simp add: cm_simps stream_def)
  next
    case False
    define kb0 fd0 where "kb0 = (if kbuf_left l = [] then take (load_nkeys l) (fd_left l) else kbuf_left l)"
      and "fd0 = (if kbuf_left l = [] then drop (load_nkeys l) (fd_left l) else fd_left l)"
    define kb1 where "kb1 = (if uniq then dropWhile (\<lambda>r. q (last_ent l) r = 0) kb0 else kb0)"
    have all: "kbuf_left l @ fd_left l = kb0 @ fd0" by (simp add: kb0_def fd0_def)
    then have st: "stream q uniq l = stream_of q uniq (last_ent l) (kb1 @ fd0)"
      unfolding stream_def kb1_def by (metis stream_of_dropWhile)
    have pair: "(if kbuf_left l = [] then (take (load_nkeys l) (fd_left l), drop (load_nkeys l) (fd_left l)) else (kbuf_left l, fd_left l)) = (kb0, fd0)"
      by (simp add: kb0_def fd0_def)
    have e: "nextkeyent q uniq (Suc f) l = (case kb1 of
         [] \<Rightarrow> nextkeyent q uniq f (l\<lparr>kbuf_left := [], fd_left := fd0\<rparr>)
       | r # kb \<Rightarrow> (Inr (Some r), l\<lparr>kbuf_left := kb, fd_left := fd0, last_ent := r\<rparr>))"
      unfolding nextkeyent.simps bnd_app getst_app prod.case sum.case if_not_P [OF False] pair Let_def kb1_def [symmetric]
      by (cases kb1) (simp_all add: cm_simps)
    show ?thesis
    proof (cases kb1)
      case Nil
      let ?l = "l\<lparr>kbuf_left := [], fd_left := fd0\<rparr>"
      have "length (fd_left ?l) + (if kbuf_left ?l = [] then 0 else 1) < f"
        using Suc.prems False by (cases "fd_left l") (auto simp: fd0_def)
      moreover have "stream q uniq ?l = stream q uniq l" by (simp add: st Nil) (simp add: stream_def)
      ultimately show ?thesis using Suc.IH [of ?l] Suc.prems(2) by (cases "stream q uniq l") (simp_all add: e Nil del: nextkeyent.simps)
    next
      case (Cons r kb)
      have "uniq \<Longrightarrow> q (last_ent l) r \<noteq> 0"
        using dropWhile_eq_Cons_conv [of "\<lambda>r. q (last_ent l) r = 0" kb0 r kb] Cons by (simp add: kb1_def)
      then have "stream q uniq l = r # stream_of q uniq r (kb @ fd0)" by (auto simp: st Cons)
      then show ?thesis by (intro exI [of _ kb] exI [of _ fd0]) (simp add: e Cons del: nextkeyent.simps)
    qed
  qed
qed

lemma next_ent_app:
  assumes "0 < load_nkeys l" and "stream q uniq l = r # rs"
  shows "\<exists>kb fd. next_ent q uniq l = (Inr (Some r), l\<lparr>kbuf_left := kb, fd_left := fd, last_ent := r\<rparr>) \<and> stream_of q uniq r (kb @ fd) = rs"
  using nextkeyent_app [of l "Suc (Suc (length (fd_left l)))" q uniq] assms by (auto simp: next_ent_def cm_simps simp del: nextkeyent.simps)

lemma next_ent_end:
  assumes "0 < load_nkeys l" and "stream q uniq l = []"
  shows "\<exists>kb fd. next_ent q uniq l = (Inr None, l\<lparr>kbuf_left := kb, fd_left := fd\<rparr>)"
  using nextkeyent_app [of l "Suc (Suc (length (fd_left l)))" q uniq] assms by (auto simp: next_ent_def cm_simps simp del: nextkeyent.simps)


section \<open>Loading a leaf\<close>

lemma on_ndx_app: "on_ndx m l = (case m (ndx l) of (r, s) \<Rightarrow> (r, l\<lparr>ndx := s\<rparr>))"
  by (simp add: on_ndx_def)

lemma puts_app:
  assumes "i \<le> entry_cnt p"
  shows "ne_put_pageno p i n s = (Inr (put_slot p i ((slot p i)\<lparr>e_pno := n\<rparr>)), s)"
    and "ne_put_recno p i n s = (Inr (put_slot p i ((slot p i)\<lparr>e_recno := n\<rparr>)), s)"
    and "ne_put_key p i k s = (Inr (put_slot p i ((slot p i)\<lparr>e_key := k\<rparr>)), s)"
    and "ne_get_key p i s = (Inr (snd (rk p i)), s)"
  using assms by (simp_all add: ne_put_pageno_def ne_put_recno_def ne_put_key_def ne_get_key_def get_entry_def cm_simps rk_def)

definition set_ent :: "key page \<Rightarrow> nat \<Rightarrow> nat \<times> key \<Rightarrow> key page" where
  \<comment> \<open>the page with the entry i behind the pointer i, which is 0\<close>
  "set_ent p i e = (let p = put_slot p i ((slot p i)\<lparr>e_pno := 0\<rparr>); p = put_slot p i ((slot p i)\<lparr>e_key := snd e\<rparr>);
     p = put_slot p i ((slot p i)\<lparr>e_recno := fst e\<rparr>) in p\<lparr>entry_cnt := entry_cnt p + 1\<rparr>)"

lemma set_ent_reads [simp]:
  "entry_cnt (set_ent p i e) = entry_cnt p + 1" "rk (set_ent p i e) = (rk p)(i := e)" "pn (set_ent p i e) = (pn p)(i := 0)"
  by (auto simp: set_ent_def Let_def put_slot_def rk_def pn_def fun_eq_iff)

definition same_index :: "loader \<Rightarrow> loader \<Rightarrow> bool" where
  "same_index l l' \<longleftrightarrow> ndx l' = ndx l \<and> load_count l' = load_count l \<and> load_nkeys l' = load_nkeys l \<and> passed_up l' = passed_up l"

lemma fill_leaf_app:
  "0 < load_nkeys l \<Longrightarrow> n \<le> length (stream q uniq l) \<Longrightarrow> entry_cnt p = i \<Longrightarrow>
   \<exists>p' l'. fill_leaf q uniq i n p l = (Inr p', l') \<and> same_index l l' \<and> stream q uniq l' = drop n (stream q uniq l)
     \<and> rec_prcd l' = rec_prcd l + n \<and> entry_cnt p' = i + n \<and> ents p' = ents p @ map ent (take n (stream q uniq l))
     \<and> (\<forall>j<i + n. pn p' j = (if j < i then pn p j else 0))"
proof (induction n arbitrary: i p l)
  case 0
  then show ?case by (intro exI [of _ p] exI [of _ l]) (simp add: cm_simps same_index_def)
next
  case (Suc n)
  then obtain r rs where st: "stream q uniq l = r # rs" by (cases "stream q uniq l") auto
  obtain kb fd where k: "\<And>l'. l' = l \<Longrightarrow> next_ent q uniq l' = (Inr (Some r), l\<lparr>kbuf_left := kb, fd_left := fd, last_ent := r\<rparr>)"
    "stream_of q uniq r (kb @ fd) = rs" using next_ent_app [OF Suc.prems(1) st] by blast
  let ?l = "l\<lparr>kbuf_left := kb, fd_left := fd, last_ent := r, rec_prcd := rec_prcd l + 1\<rparr>" and ?p = "set_ent p i (ent r)"
  have st': "stream q uniq ?l = rs" using k(2) by (simp add: stream_def)
  have l: "l\<lparr>ndx := ndx l\<rparr> = l" by simp
  have e: "fill_leaf q uniq i (Suc n) p l = fill_leaf q uniq (i + 1) n ?p ?l"
    using Suc.prems(3) by (simp add: cm_simps on_ndx_app puts_app k(1) set_ent_def Let_def ent_def)
  have "\<exists>p' l'. fill_leaf q uniq (i + 1) n ?p ?l = (Inr p', l') \<and> same_index ?l l' \<and> stream q uniq l' = drop n (stream q uniq ?l)
     \<and> rec_prcd l' = rec_prcd ?l + n \<and> entry_cnt p' = i + 1 + n \<and> ents p' = ents ?p @ map ent (take n (stream q uniq ?l))
     \<and> (\<forall>j<i + 1 + n. pn p' j = (if j < i + 1 then pn ?p j else 0))"
    using Suc.prems st st' by (intro Suc.IH) simp_all
  then obtain p' l' where f: "fill_leaf q uniq (i + 1) n ?p ?l = (Inr p', l')" "same_index ?l l'" "stream q uniq l' = drop n rs"
    "rec_prcd l' = rec_prcd l + 1 + n" "entry_cnt p' = i + 1 + n" "ents p' = ents ?p @ map ent (take n rs)"
    "\<forall>j<i + 1 + n. pn p' j = (if j < i + 1 then pn ?p j else 0)" unfolding st' by auto
  have "ents ?p = ents p @ [ent r]" using Suc.prems(3) by (simp add: ents_def)
  moreover have "\<forall>j<i + Suc n. pn p' j = (if j < i then pn p j else 0)" using f(7) by auto
  moreover have "same_index l l'" using f(2) by (simp add: same_index_def)
  ultimately show ?case using f(1,3-6) st unfolding e by (intro exI [of _ p'] exI [of _ l']) simp
qed


section \<open>Loading the tree\<close>

definition ready :: "(vrec \<Rightarrow> vrec \<Rightarrow> int) \<Rightarrow> bool \<Rightarrow> nat \<Rightarrow> loader \<Rightarrow> bool" where
  \<comment> \<open>the pages from pagecnt on have not been written: they read as zero bytes\<close>
  "ready q uniq recpp l \<longleftrightarrow> granted (ndx l) \<and> norecpp (ndx l) = recpp \<and> 1 \<le> recpp \<and> 1 \<le> pagecnt (ndx l)
     \<and> (\<forall>n. pagecnt (ndx l) \<le> n \<longrightarrow> disk (ndx l) n = blank (ndx l)) \<and> 0 < load_nkeys l
     \<and> rec_prcd l + length (stream q uniq l) = load_count l \<and> (\<forall>r\<in>set (stream q uniq l). rec_no r \<noteq> 0)"

definition built :: "(vrec \<Rightarrow> vrec \<Rightarrow> int) \<Rightarrow> bool \<Rightarrow> nat \<Rightarrow> loader \<Rightarrow> loader \<Rightarrow> vrec list \<Rightarrow> key bt \<Rightarrow> bool" where
  \<comment> \<open>the records xs have gone into the tree t, whose pages are new\<close>
  "built q uniq recpp l l' xs t \<longleftrightarrow> ready q uniq recpp l' \<and> load_count l' = load_count l \<and> frame (ndx l) (ndx l')
     \<and> stream q uniq l = xs @ stream q uniq l' \<and> xs \<noteq> []
     \<and> (\<forall>n<pagecnt (ndx l). disk (ndx l') n = disk (ndx l) n)
     \<and> stored (disk (ndx l')) t \<and> shaped recpp t \<and> leaves t = map ent xs \<and> root_of t = pagecnt (ndx l)
     \<and> distinct (pages t) \<and> set (pages t) \<subseteq> {pagecnt (ndx l)..<pagecnt (ndx l')}
     \<and> passed_up l' = \<lparr>e_pno = root_of t, e_recno = 0, e_key = vkey (last xs)\<rparr>"

lemma blank_frame: "frame s s' \<Longrightarrow> blank s' = blank s"
  by (simp add: blank_def frame_def)

lemma blank_reads: "entry_cnt (blank s) = 0" "ents (blank s) = []" "pn (blank s) i = 0" "is_leaf (blank s)"
  by (simp_all add: blank_def ents_def pn_def is_leaf_def)

definition opened :: "loader \<Rightarrow> loader" where
  \<comment> \<open>build_bt takes the next page\<close>
  "opened l = l\<lparr>ndx := (ndx l)\<lparr>pagecnt := pagecnt (ndx l) + 1\<rparr>\<rparr>"

lemma build_bt_opens:
  assumes "ready q uniq recpp l"
  shows "build_bt q uniq recpp (Suc f) tpage (pagecnt (ndx l)) l =
    (if load_count l \<le> tpage * recpp then load_leaf q uniq recpp (pagecnt (ndx l)) (blank (ndx l))
     else load_children (build_bt q uniq recpp f (tpage * (recpp + 1))) recpp (pagecnt (ndx l)) (Suc recpp)) (opened l)"
  using assms by (simp add: cm_simps on_ndx_app getpage_app ready_def opened_def)

lemma stream_opened [simp]: "stream q uniq (opened l) = stream q uniq l"
  "stream q uniq (l\<lparr>passed_up := u\<rparr>) = stream q uniq l" "stream q uniq (l\<lparr>ndx := s\<rparr>) = stream q uniq l"
  by (simp_all add: stream_def opened_def)

fun branching :: "'k bt \<Rightarrow> bool" where
  \<comment> \<open>the root page has an entry\<close>
  "branching (Lf n es) \<longleftrightarrow> es \<noteq> []"
| "branching (Nd n cs ss) \<longleftrightarrow> ss \<noteq> []"

lemma load_leaf_ok:
  assumes r: "ready q uniq recpp l" and ne: "stream q uniq l \<noteq> []"
  shows "\<exists>l' t. load_leaf q uniq recpp (pagecnt (ndx l)) (blank (ndx l)) (opened l) = (Inr (length (stream q uniq l) \<le> recpp), l')
    \<and> built q uniq recpp l l' (take recpp (stream q uniq l)) t \<and> branching t"
proof -
  let ?S = "stream q uniq l" and ?pno = "pagecnt (ndx l)" and ?b = "blank (ndx l)"
  let ?xs = "take recpp (stream q uniq l)"
  define n where "n = min recpp (length ?S)"
  have lc: "load_count l - rec_prcd l = length ?S" using r by (auto simp: ready_def)
  have xs: "?xs \<noteq> []" "length ?xs = n" using ne r by (auto simp: ready_def n_def)
  have b: "entry_cnt ?b = 0" "ents ?b = []" by (simp_all add: blank_reads)
  have "\<exists>p' l'. fill_leaf q uniq 0 n ?b (opened l) = (Inr p', l') \<and> same_index (opened l) l' \<and> stream q uniq l' = drop n (stream q uniq (opened l))
     \<and> rec_prcd l' = rec_prcd (opened l) + n \<and> entry_cnt p' = 0 + n \<and> ents p' = ents ?b @ map ent (take n (stream q uniq (opened l)))
     \<and> (\<forall>j<0 + n. pn p' j = (if j < 0 then pn ?b j else 0))"
    by (rule fill_leaf_app) (use r b in \<open>simp_all add: ready_def opened_def n_def\<close>)
  then obtain p l1 where f: "fill_leaf q uniq 0 n ?b (opened l) = (Inr p, l1)" "same_index (opened l) l1" "stream q uniq l1 = drop recpp ?S"
    "rec_prcd l1 = rec_prcd l + n" "entry_cnt p = n" "ents p = map ent ?xs" "\<forall>j<n. pn p j = 0"
    using b(2) by (auto simp: opened_def n_def min_def)
  let ?p = "put_slot p n ((slot p n)\<lparr>e_pno := 0\<rparr>)"
  have n0: "0 < n" using xs by (metis length_greater_0_conv)
  have p: "entry_cnt ?p = n" "ents ?p = map ent ?xs" "ptrs ?p = replicate (n + 1) 0"
  proof -
    show c: "entry_cnt ?p = n" by (simp add: f(5))
    show "ents ?p = map ent ?xs" using f(5,6) by (simp add: ents_def)
    show "ptrs ?p = replicate (n + 1) 0"
      by (rule nth_equalityI) (use c f(7) in \<open>auto simp: nth_ptrs less_Suc_eq simp del: replicate_Suc put_slot_reads(1)\<close>)
  qed
  have k: "snd (rk ?p (n - 1)) = vkey (last ?xs)"
  proof -
    have "ents ?p ! (n - 1) = rk ?p (n - 1)" by (rule nth_ents) (metis diff_less n0 p(1) zero_less_one)
    moreover have "map ent ?xs ! (n - 1) = ent (last ?xs)" using n0 xs by (metis last_conv_nth diff_less nth_map zero_less_one)
    ultimately have "rk ?p (n - 1) = ent (last ?xs)" using p(2) by metis
    then show ?thesis by (simp only: ent_def snd_conv)
  qed
  let ?l = "l1\<lparr>passed_up := \<lparr>e_pno = ?pno, e_recno = 0, e_key = vkey (last ?xs)\<rparr>, ndx := (ndx l1)\<lparr>disk := (disk (ndx l1))(?pno := ?p)\<rparr>\<rparr>"
  have e: "load_leaf q uniq recpp ?pno ?b (opened l) = (Inr (length ?S \<le> recpp), ?l)"
  proof -
    have mn: "load_count (opened l) - rec_prcd (opened l) = length ?S" "(if length ?S \<le> recpp then length ?S else recpp) = n"
      using lc by (auto simp: opened_def n_def)
    show ?thesis
      unfolding load_leaf_def bnd_app getst_app prod.case sum.case Let_def mn f(1)
      using n0 k f(5) by (simp add: cm_simps on_ndx_app puts_app write_page_def)
  qed
  have "built q uniq recpp l ?l ?xs (Lf ?pno (map ent ?xs))"
  proof -
    have s1: "ndx l1 = (ndx l)\<lparr>pagecnt := ?pno + 1\<rparr>" "load_count l1 = load_count l" "load_nkeys l1 = load_nkeys l"
      using f(2) by (simp_all add: same_index_def opened_def)
    have nl: "n + (length ?S - recpp) = length ?S" by (simp add: n_def min_def)
    have st: "stream q uniq ?l = drop recpp ?S" using f(3) by (simp add: stream_def)
    have "ready q uniq recpp ?l"
      using r f(4) st nl unfolding ready_def by (auto simp: s1 granted_def blank_def dest: in_set_dropD)
    moreover have "\<forall>y\<in>set (map ent ?xs). fst y \<noteq> 0" using r by (auto simp: ready_def ent_def dest: in_set_takeD)
    moreover have "stored (disk (ndx ?l)) (Lf ?pno (map ent ?xs))" using p r xs(2) by (simp add: ready_def)
    ultimately show ?thesis using xs st r unfolding built_def by (auto simp: s1 frame_def)
  qed
  moreover have "branching (Lf ?pno (map ent ?xs))" using xs(1) by simp
  ultimately show ?thesis using e by blast
qed


definition children :: "(vrec \<Rightarrow> vrec \<Rightarrow> int) \<Rightarrow> bool \<Rightarrow> nat \<Rightarrow> loader \<Rightarrow> loader \<Rightarrow> vrec list \<Rightarrow> key bt list \<Rightarrow> bool" where
  \<comment> \<open>from l0 on the records xs have gone into the trees cs, the children of the page pagecnt l0\<close>
  "children q uniq recpp l0 l xs cs \<longleftrightarrow> ready q uniq recpp l \<and> load_count l = load_count l0 \<and> frame (ndx l0) (ndx l)
     \<and> stream q uniq l0 = xs @ stream q uniq l \<and> pagecnt (ndx l0) < pagecnt (ndx l)
     \<and> (\<forall>n<pagecnt (ndx l0). disk (ndx l) n = disk (ndx l0) n)
     \<and> (\<forall>c\<in>set cs. stored (disk (ndx l)) c \<and> shaped recpp c \<and> leaves c \<noteq> []) \<and> concat (map leaves cs) = map ent xs
     \<and> distinct (concat (map pages cs)) \<and> set (concat (map pages cs)) \<subseteq> {pagecnt (ndx l0) + 1..<pagecnt (ndx l)}"

definition parent :: "key page \<Rightarrow> key bt list \<Rightarrow> bool" where
  "parent p cs \<longleftrightarrow> entry_cnt p = length cs \<and> ents p = map (\<lambda>c. (0, snd (last (leaves c)))) cs
     \<and> (\<forall>i<length cs. pn p i = root_of (cs ! i))"

lemma child_loaded:
  fixes l1 :: loader
  assumes c: "children q uniq recpp l0 l xs cs" and b: "built q uniq recpp l l1 ys c"
  defines "l' p u \<equiv> l1\<lparr>passed_up := u, ndx := (ndx l1)\<lparr>disk := (disk (ndx l1))(pagecnt (ndx l0) := p)\<rparr>\<rparr>"
  shows "children q uniq recpp l0 (l' p u) (xs @ ys) (cs @ [c])"
    and "stream q uniq (l' p u) = stream q uniq l1" and "disk (ndx l1) (pagecnt (ndx l0)) = disk (ndx l) (pagecnt (ndx l0))"
proof -
  let ?pno = "pagecnt (ndx l0)" and ?l = "l' p u"
  note c' = c [unfolded children_def] and b' = b [unfolded built_def]
  have pno: "?pno < pagecnt (ndx l)" "pagecnt (ndx l) \<le> pagecnt (ndx l1)" using c' b' by (simp_all add: frame_def)
  show st: "stream q uniq ?l = stream q uniq l1" by (simp add: l'_def)
  show "disk (ndx l1) ?pno = disk (ndx l) ?pno" using b' pno by blast
  have old: "n < pagecnt (ndx l) \<Longrightarrow> n \<noteq> ?pno \<Longrightarrow> disk (ndx ?l) n = disk (ndx l) n" for n using b' by (simp add: l'_def)
  have new: "pagecnt (ndx l) \<le> n \<Longrightarrow> disk (ndx ?l) n = disk (ndx l1) n" for n using pno by (auto simp: l'_def)
  have r: "ready q uniq recpp ?l"
    using b' pno st unfolding ready_def by (auto simp: l'_def granted_def blank_def)
  have cs: "stored (disk (ndx ?l)) a \<and> shaped recpp a \<and> leaves a \<noteq> []" if a: "a \<in> set cs" for a
  proof -
    have "disk (ndx ?l) n = disk (ndx l) n" if "n \<in> set (pages a)" for n
    proof (rule old)
      have "n \<in> {?pno + 1..<pagecnt (ndx l)}" using c' a that by auto
      then show "n < pagecnt (ndx l)" "n \<noteq> ?pno" by auto
    qed
    then show ?thesis using c' a stored_cong [of a "disk (ndx ?l)" "disk (ndx l)"] by blast
  qed
  have "disk (ndx ?l) n = disk (ndx l1) n" if "n \<in> set (pages c)" for n
    using b' that by (intro new) auto
  then have sc: "stored (disk (ndx ?l)) c" using b' stored_cong [of c "disk (ndx ?l)" "disk (ndx l1)"] by blast
  have lc: "shaped recpp c" "leaves c = map ent ys" "leaves c \<noteq> []" using b' by auto
  have pg: "set (pages c) \<subseteq> {pagecnt (ndx l)..<pagecnt (ndx l1)}" "distinct (pages c)" using b' by simp_all
  have pc: "set (concat (map pages cs)) \<subseteq> {?pno + 1..<pagecnt (ndx l)}" "distinct (concat (map pages cs))" using c' by simp_all
  have "distinct (concat (map pages (cs @ [c])))" using pg pc by auto fastforce
  moreover have "set (concat (map pages (cs @ [c]))) \<subseteq> {?pno + 1..<pagecnt (ndx ?l)}"
    using pg(1) pc(1) pno by (auto simp: l'_def)
  moreover have "frame (ndx l0) (ndx ?l)" using c' b' by (auto simp: frame_def l'_def)
  moreover have "\<forall>n<?pno. disk (ndx ?l) n = disk (ndx l0) n" using c' old pno by auto
  ultimately show "children q uniq recpp l0 ?l (xs @ ys) (cs @ [c])"
    using r cs sc lc c' b' pno st unfolding children_def by (auto simp: l'_def)
qed


lemma parent_add:
  assumes "parent p cs" and "e_pno e = root_of c" and "e_recno e = 0" and "e_key e = snd (last (leaves c))"
  shows "parent ((put_slot p (entry_cnt p) e)\<lparr>entry_cnt := entry_cnt p + 1\<rparr>) (cs @ [c])"
proof -
  have "ents ((put_slot p (entry_cnt p) e)\<lparr>entry_cnt := entry_cnt p + 1\<rparr>) = ents p @ [(0, e_key e)]"
    using assms(3) by (simp add: ents_def)
  then show ?thesis using assms by (auto simp: parent_def nth_append less_Suc_eq)
qed

lemma parent_close:
  fixes c :: "key bt"
  assumes "parent p cs"
  defines "p' \<equiv> put_slot p (entry_cnt p) ((slot p (entry_cnt p))\<lparr>e_pno := root_of c\<rparr>)"
  shows "ents p' = map (\<lambda>c. (0, snd (last (leaves c)))) cs" and "ptrs p' = map root_of (cs @ [c])"
proof -
  have l: "entry_cnt p = length cs" using assms(1) by (simp add: parent_def)
  have "ents p' = ents p" by (simp add: ents_def p'_def)
  then show "ents p' = map (\<lambda>c. (0, snd (last (leaves c)))) cs" using assms(1) by (simp add: parent_def)
  show "ptrs p' = map root_of (cs @ [c])"
  proof (rule nth_equalityI)
    show "length (ptrs p') = length (map root_of (cs @ [c]))" by (simp add: p'_def l)
  next
    fix i assume "i < length (ptrs p')"
    then have i: "i \<le> length cs" by (simp add: p'_def l)
    then have "ptrs p' ! i = pn p' i" by (intro nth_ptrs) (simp add: p'_def l)
    then show "ptrs p' ! i = map root_of (cs @ [c]) ! i"
      using i assms(1) by (auto simp: p'_def l parent_def nth_append)
  qed
qed

lemma children_close:
  assumes c: "children q uniq recpp l0 l xs cs" and r: "ready q uniq recpp l0" and cs: "cs \<noteq> []" "length cs \<le> recpp + 1" and xs: "xs \<noteq> []"
    and p: "ents (disk (ndx l) (pagecnt (ndx l0))) = map (\<lambda>c. (0, snd (last (leaves c)))) (butlast cs)"
      "ptrs (disk (ndx l) (pagecnt (ndx l0))) = map root_of cs"
    and up: "passed_up l = \<lparr>e_pno = pagecnt (ndx l0), e_recno = 0, e_key = vkey (last xs)\<rparr>"
  shows "built q uniq recpp l0 l xs (Nd (pagecnt (ndx l0)) cs (map (\<lambda>c. (0, snd (last (leaves c)))) (butlast cs)))"
  using assms unfolding children_def built_def by (auto simp: ready_def comp_def)

lemma load_children_ok:
  fixes build :: "nat \<Rightarrow> (loader, bool) cm"
  assumes IH: "\<And>l. ready q uniq recpp l \<Longrightarrow> stream q uniq l \<noteq> [] \<Longrightarrow> load_count l = cnt \<Longrightarrow>
      \<exists>l' t. build (pagecnt (ndx l)) l = (Inr (length (stream q uniq l) \<le> C), l') \<and> built q uniq recpp l l' (take C (stream q uniq l)) t"
    and r0: "ready q uniq recpp l0" and cnt: "load_count l0 = cnt" and C: "0 < C"
  shows "children q uniq recpp l0 l xs cs \<Longrightarrow> stream q uniq l \<noteq> [] \<Longrightarrow> parent (disk (ndx l) (pagecnt (ndx l0))) cs \<Longrightarrow>
    length xs = length cs * C \<Longrightarrow> length cs + n = recpp + 1 \<Longrightarrow> 0 < n \<Longrightarrow>
    \<exists>l' t. load_children build recpp (pagecnt (ndx l0)) n l = (Inr (length (stream q uniq l0) \<le> (recpp + 1) * C), l')
      \<and> built q uniq recpp l0 l' (take ((recpp + 1) * C) (stream q uniq l0)) t
      \<and> (cs \<noteq> [] \<or> C < length (stream q uniq l) \<longrightarrow> branching t)"
proof (induction n arbitrary: l xs cs)
  case 0
  then show ?case by simp
next
  case (Suc n)
  let ?pno = "pagecnt (ndx l0)" and ?S = "stream q uniq l"
  let ?P = "disk (ndx l) ?pno" and ?ys = "take C (stream q uniq l)"
  note ch = Suc.prems(1) [unfolded children_def]
  have "ready q uniq recpp l" "load_count l = cnt" using ch cnt by simp_all
  from IH [OF this(1) Suc.prems(2) this(2)] obtain l1 c where
    b: "build (pagecnt (ndx l)) l = (Inr (length ?S \<le> C), l1)" "built q uniq recpp l l1 ?ys c" by blast
  note b' = b(2) [unfolded built_def]
  have P1: "disk (ndx l1) ?pno = ?P" by (rule child_loaded(3) [OF Suc.prems(1) b(2)])
  have g: "granted (ndx l1)" "?pno < pagecnt (ndx l1)" using b' ch by (auto simp: ready_def frame_def)
  have get: "on_ndx (getpage ?pno True) l1 = (Inr ?P, l1)" using g P1 by (simp add: on_ndx_app getpage_app)
  have cntP: "entry_cnt ?P = length cs" using Suc.prems(3) by (simp add: parent_def)
  have up: "passed_up l1 = \<lparr>e_pno = root_of c, e_recno = 0, e_key = snd (last (leaves c))\<rparr>"
    using b' by (simp add: last_map ent_def)
  then have rc: "e_pno (passed_up l1) = root_of c" by simp
  have S0: "stream q uniq l0 = xs @ ?S" using ch by simp
  define l' where "l' p u = l1\<lparr>passed_up := u, ndx := (ndx l1)\<lparr>disk := (disk (ndx l1))(?pno := p)\<rparr>\<rparr>" for p u
  note cl = child_loaded(1,2) [OF Suc.prems(1) b(2), folded l'_def]
  show ?case
  proof (cases "length ?S \<le> C \<or> length cs = recpp")
    case True
    let ?p = "put_slot ?P (length cs) ((slot ?P (length cs))\<lparr>e_pno := root_of c\<rparr>)" and ?u = "(passed_up l1)\<lparr>e_pno := ?pno\<rparr>"
    let ?cs = "cs @ [c]" and ?xs = "xs @ ?ys"
    have e: "load_children build recpp ?pno (Suc n) l = (Inr (length ?S \<le> C), l' ?p ?u)"
      unfolding load_children.simps bnd_app getst_app prod.case sum.case b(1) get
      using True cntP rc by (simp add: puts_app on_ndx_app cm_simps write_page_def l'_def)
    have "built q uniq recpp l0 (l' ?p ?u) ?xs (Nd ?pno ?cs (map (\<lambda>c. (0, snd (last (leaves c)))) (butlast ?cs)))"
    proof (rule children_close [OF cl(1) r0])
      show "ents (disk (ndx (l' ?p ?u)) ?pno) = map (\<lambda>c. (0, snd (last (leaves c)))) (butlast ?cs)"
        "ptrs (disk (ndx (l' ?p ?u)) ?pno) = map root_of ?cs"
        using parent_close [OF Suc.prems(3), of c] by (simp_all add: l'_def cntP)
      show "passed_up (l' ?p ?u) = \<lparr>e_pno = ?pno, e_recno = 0, e_key = vkey (last ?xs)\<rparr>" using b' by (simp add: l'_def)
    qed (use Suc.prems b' in auto)
    moreover have "?xs = take ((recpp + 1) * C) (xs @ ?S)" "length ?S \<le> C \<longleftrightarrow> length (xs @ ?S) \<le> (recpp + 1) * C"
    proof -
      have m: "length xs + C \<le> (recpp + 1) * C" using Suc.prems(4,5) mult_le_mono1 [of "length cs" recpp C] by simp
      have last: "length xs + C = (recpp + 1) * C" if "length cs = recpp" using Suc.prems(4) that by simp
      show "?xs = take ((recpp + 1) * C) (xs @ ?S)"
      proof (cases "length cs = recpp")
        case True
        then show ?thesis unfolding last [OF True, symmetric] by simp
      qed (use True m in simp)
      show "length ?S \<le> C \<longleftrightarrow> length (xs @ ?S) \<le> (recpp + 1) * C"
      proof (cases "length cs = recpp")
        case True
        then show ?thesis unfolding last [OF True, symmetric] by simp
      qed (use True m in simp)
    qed
    moreover have "branching (Nd ?pno ?cs (map (\<lambda>c. (0, snd (last (leaves c)))) (butlast ?cs)))"
      if "cs \<noteq> [] \<or> C < length ?S" using that True r0 by (auto simp: ready_def)
    ultimately show ?thesis unfolding S0 e by (intro exI conjI) auto
  next
    case False
    let ?p = "(put_slot ?P (length cs) (passed_up l1))\<lparr>entry_cnt := length cs + 1\<rparr>"
    have e: "load_children build recpp ?pno (Suc n) l = load_children build recpp ?pno n (l' ?p (passed_up l1))"
      unfolding load_children.simps bnd_app getst_app prod.case sum.case b(1) get
      using False cntP by (simp add: get_entry_def on_ndx_app cm_simps write_page_def l'_def)
    have "\<exists>m t. load_children build recpp ?pno n (l' ?p (passed_up l1)) = (Inr (length (stream q uniq l0) \<le> (recpp + 1) * C), m)
      \<and> built q uniq recpp l0 m (take ((recpp + 1) * C) (stream q uniq l0)) t
      \<and> (cs @ [c] \<noteq> [] \<or> C < length (stream q uniq (l' ?p (passed_up l1))) \<longrightarrow> branching t)"
    proof (rule Suc.IH [OF cl(1)])
      show "stream q uniq (l' ?p (passed_up l1)) \<noteq> []" using False b' cl(2) by (metis append_Nil2 length_take min.absorb2 nat_le_linear nless_le)
      show "parent (disk (ndx (l' ?p (passed_up l1))) ?pno) (cs @ [c])"
        using parent_add [OF Suc.prems(3), of "passed_up l1" c] up by (simp add: l'_def cntP)
      show "length (xs @ ?ys) = length (cs @ [c]) * C" using Suc.prems(4) False by simp
      show "length (cs @ [c]) + n = recpp + 1" using Suc.prems(5) by simp
      show "0 < n" using False Suc.prems(5) by (cases n) auto
    qed
    then show ?thesis unfolding e by blast
  qed
qed


lemma build_bt_ok:
  "ready q uniq recpp l \<Longrightarrow> stream q uniq l \<noteq> [] \<Longrightarrow> load_count l = cnt \<Longrightarrow> h < f \<Longrightarrow>
   cnt \<le> tpage * (recpp + 1) ^ h * recpp \<Longrightarrow> (\<And>g. g < h \<Longrightarrow> tpage * (recpp + 1) ^ g * recpp < cnt) \<Longrightarrow>
   \<exists>l' t. build_bt q uniq recpp f tpage (pagecnt (ndx l)) l = (Inr (length (stream q uniq l) \<le> (recpp + 1) ^ h * recpp), l')
     \<and> built q uniq recpp l l' (take ((recpp + 1) ^ h * recpp) (stream q uniq l)) t
     \<and> (\<forall>g. h = Suc g \<longrightarrow> (recpp + 1) ^ g * recpp < length (stream q uniq l) \<longrightarrow> branching t) \<and> (h = 0 \<longrightarrow> branching t)"
proof (induction h arbitrary: f tpage l)
  case 0
  then obtain f' where "f = Suc f'" by (cases f) auto
  then show ?case using build_bt_opens [OF 0(1)] load_leaf_ok [OF 0(1,2)] 0(3,5) by simp
next
  case (Suc h)
  obtain f' where f: "f = Suc f'" using Suc.prems(4) by (cases f) auto
  let ?C = "(recpp + 1) ^ h * recpp"
  have "0 < ?C" using Suc.prems(1) by (simp add: ready_def)
  have "tpage * recpp < cnt" using Suc.prems(6) [of 0] by simp
  then have e: "build_bt q uniq recpp f tpage (pagecnt (ndx l)) l
      = load_children (build_bt q uniq recpp f' (tpage * (recpp + 1))) recpp (pagecnt (ndx l)) (Suc recpp) (opened l)"
    unfolding f build_bt_opens [OF Suc.prems(1)] using Suc.prems(3) by simp
  have "\<exists>l' t. load_children (build_bt q uniq recpp f' (tpage * (recpp + 1))) recpp (pagecnt (ndx l)) (Suc recpp) (opened l)
      = (Inr (length (stream q uniq l) \<le> (recpp + 1) * ?C), l') \<and> built q uniq recpp l l' (take ((recpp + 1) * ?C) (stream q uniq l)) t
        \<and> ([] \<noteq> ([] :: key bt list) \<or> ?C < length (stream q uniq (opened l)) \<longrightarrow> branching t)"
  proof (rule load_children_ok [OF _ Suc.prems(1,3) \<open>0 < ?C\<close>])
    fix k :: loader
    assume k: "ready q uniq recpp k" "stream q uniq k \<noteq> []" "load_count k = cnt"
    show "\<exists>l' t. build_bt q uniq recpp f' (tpage * (recpp + 1)) (pagecnt (ndx k)) k = (Inr (length (stream q uniq k) \<le> ?C), l')
        \<and> built q uniq recpp k l' (take ?C (stream q uniq k)) t"
    proof -
      have "h < f'" using Suc.prems(4) f by simp
      moreover have "cnt \<le> tpage * (recpp + 1) * (recpp + 1) ^ h * recpp" using Suc.prems(5) by (simp only: power_Suc mult.assoc)
      moreover have "tpage * (recpp + 1) * (recpp + 1) ^ g * recpp < cnt" if "g < h" for g
        using Suc.prems(6) [of "Suc g"] that by (simp only: power_Suc mult.assoc Suc_less_eq)
      ultimately show ?thesis using Suc.IH [OF k] by blast
    qed
  next
    show "children q uniq recpp l (opened l) [] []"
      using Suc.prems(1) by (auto simp: children_def ready_def opened_def frame_def granted_def blank_def stream_def)
    show "parent (disk (ndx (opened l)) (pagecnt (ndx l))) []"
      using Suc.prems(1) by (simp add: parent_def ready_def opened_def blank_reads)
  qed (use Suc.prems in simp_all)
  then show ?case unfolding e stream_opened by (simp only: power_Suc mult.assoc nat.inject nat.distinct) blast
qed

section \<open>The index\<close>

lemma levels:
  fixes recpp cnt :: nat
  assumes "1 \<le> recpp"
  obtains h where "h < Suc (Suc cnt)" and "cnt \<le> 1 * (recpp + 1) ^ h * recpp" and "\<And>g. g < h \<Longrightarrow> 1 * (recpp + 1) ^ g * recpp < cnt"
proof
  let ?h = "LEAST h. cnt \<le> 1 * (recpp + 1) ^ h * recpp"
  have "cnt < (recpp + 1) ^ cnt" using assms by (intro less_le_trans [OF less_exp power_mono]) simp_all
  also have "\<dots> \<le> 1 * (recpp + 1) ^ cnt * recpp" using assms by simp
  finally have P: "cnt \<le> 1 * (recpp + 1) ^ cnt * recpp" by simp
  show "cnt \<le> 1 * (recpp + 1) ^ ?h * recpp" by (rule LeastI [of "\<lambda>h. cnt \<le> 1 * (recpp + 1) ^ h * recpp", OF P])
  have "?h \<le> cnt" using P by (rule Least_le)
  then show "?h < Suc (Suc cnt)" by simp
  show "1 * (recpp + 1) ^ g * recpp < cnt" if "g < ?h" for g using not_less_Least [OF that] by simp
qed

definition fresh_sort :: "vrec vctl \<Rightarrow> bool" where
  \<comment> \<open>what vsort_init returns\<close>
  "fresh_sort v \<longleftrightarrow> 0 < nkeys v \<and> \<not> descending v \<and> tempvf v 0 = [] \<and> tempvf v 1 = [] \<and> rec_no (ones v) = MAX_RECNO"

definition fresh_file :: "key ndx \<Rightarrow> bool" where
  \<comment> \<open>an index file that openidx has just created: nothing is written behind the header\<close>
  "fresh_file s \<longleftrightarrow> 1 \<le> pagecnt s \<and> (\<forall>n. pagecnt s \<le> n \<longrightarrow> disk s n = blank s)"

definition table_keys :: "(nat \<Rightarrow> key option) \<Rightarrow> nat \<Rightarrow> (nat \<times> key) list" where
  \<comment> \<open>the keys of the records that have one\<close>
  "table_keys key_of n = List.map_filter (\<lambda>i. map_option (Pair i) (key_of i)) [1..<Suc n]"

lemma table_recs: "map ent (List.map_filter (qindex_get_key key_of) [0..<n]) = table_keys key_of n"
proof -
  have "[1..<Suc n] = map Suc [0..<n]" by (simp add: map_Suc_upt)
  then show ?thesis
    by (simp add: table_keys_def List.map_filter_def qindex_get_key_def filter_map comp_def ent_def) 
      (auto simp: ent_def split: option.split intro!: map_cong)
qed


lemma branching_root: "stored d t \<Longrightarrow> branching t \<Longrightarrow> entry_cnt (d (root_of t)) \<noteq> 0"
  by (cases t) (auto simp flip: length_ents)

lemma build_index:
  fixes s :: "key ndx"
  assumes g: "granted s" "1 \<le> norecpp s" and fr: "fresh_file s" and rs: "rs \<noteq> []" "\<forall>r\<in>set rs. rec_no r \<noteq> 0" and k: "0 < k"
  defines "s1 \<equiv> s\<lparr>rootno := pagecnt s\<rparr>"
    and "l0 \<equiv> \<lparr>ndx = s\<lparr>rootno := pagecnt s\<rparr>, fd_left = rs, kbuf_left = [], last_ent = \<lparr>rec_no = 0, vkey = []\<rparr>,
      passed_up = \<lparr>e_pno = 0, e_recno = 0, e_key = []\<rparr>, rec_prcd = 0, load_count = length rs, load_nkeys = k\<rparr>"
  shows "\<exists>l. build_bt q False (norecpp s) (Suc (Suc (length rs))) 1 (pagecnt s1) l0 = (Inr True, l) \<and> reads_as (ndx l) (map ent rs)
    \<and> granted (ndx l) \<and> norecpp (ndx l) = norecpp s \<and> entry_cnt (disk (ndx l) (rootno (ndx l))) \<noteq> 0"
proof -
  let ?e = "norecpp s"
  have r: "ready q False ?e l0" and st: "stream q False l0 = rs" and pc: "pagecnt (ndx l0) = pagecnt s1" "rootno (ndx l0) = pagecnt s"
    using g fr rs k by (auto simp: ready_def stream_def l0_def s1_def fresh_file_def granted_def blank_def)
  obtain h where h: "h < Suc (Suc (length rs))" "length rs \<le> 1 * (?e + 1) ^ h * ?e" "\<And>g. g < h \<Longrightarrow> 1 * (?e + 1) ^ g * ?e < length rs"
    using levels [OF g(2), of "length rs"] by blast
  have lc: "load_count l0 = length rs" and ne: "stream q False l0 \<noteq> []" using st rs(1) by (simp_all add: l0_def)
  from build_bt_ok [OF r ne lc h] obtain l t where
    b: "build_bt q False ?e (Suc (Suc (length rs))) 1 (pagecnt (ndx l0)) l0 = (Inr (length rs \<le> (?e + 1) ^ h * ?e), l)"
      "built q False ?e l0 l (take ((?e + 1) ^ h * ?e) rs) t"
      "\<forall>g. h = Suc g \<longrightarrow> (?e + 1) ^ g * ?e < length rs \<longrightarrow> branching t" "h = 0 \<longrightarrow> branching t" unfolding st by blast
  have br: "branching t" using b(3,4) h(3) [of "h - 1"] by (cases h) simp_all
  have all: "length rs \<le> (?e + 1) ^ h * ?e" using h(2) by simp
  note b' = b(2) [unfolded built_def take_all [OF all]]
  have n: "norecpp (ndx l) = ?e" "granted (ndx l)" "1 \<le> pagecnt s" using b' r by (simp_all add: ready_def l0_def)
  have "readable (ndx l) t" using b' n by (auto simp: readable_def)
  moreover have "root_of t = rootno (ndx l)" "rootno (ndx l) \<noteq> 0" using b' pc n(3) by (simp_all add: frame_def s1_def)
  moreover have "entry_cnt (disk (ndx l) (root_of t)) \<noteq> 0" using b' br branching_root [of "disk (ndx l)" t] by blast
  ultimately have "reads_as (ndx l) (map ent rs) \<and> entry_cnt (disk (ndx l) (rootno (ndx l))) \<noteq> 0" using b' unfolding reads_as_def by auto
  then show ?thesis using b(1) all pc(1) n(1,2) by auto
qed

lemma reads_as_hdr: "reads_as (s\<lparr>w_hdr := b\<rparr>) = reads_as s"
  by (simp add: reads_as_def readable_def fun_eq_iff)

lemma sort_keys:
  assumes v: "fresh_sort v" "reccnt < 2 ^ 31" and K: "set (List.map_filter (qindex_get_key key_of) [0..<reccnt]) \<subseteq> recs_of h key_of"
  obtains f v' where "vsort (\<lambda>_. True) (qindex_get_key key_of) (qcomp False h) reccnt False v = (Inr (Some f), v')"
    and "rec_count v' = length (tempvf v' f)" and "mset (tempvf v' f) = mset (List.map_filter (qindex_get_key key_of) [0..<reccnt])"
    and "sorted_by (qcomp False h) (tempvf v' f)" and "nkeys v' = nkeys v"
proof -
  have d: "vcmp (descending v) (qcomp False h) = qcomp False h" using v by (simp add: fresh_sort_def)
  have one: "\<forall>x\<in>recs_of h key_of. qcomp False h x (ones v) \<le> 0"
    using v by (auto simp: recs_of_def qcomp_def fresh_sort_def MAX_RECNO_def)
  show ?thesis
    using sorting.vsort_sorts [where v = v and qcomp = "qcomp False h" and h = h and key_of = key_of and n = reccnt and get_record = "\<lambda>_. True"
        and get_key = "qindex_get_key key_of" and verify = False] d one K v that by (auto simp: fresh_sort_def)
qed

lemma qindex_index:
  assumes "granted s" and "1 \<le> norecpp s" and "fresh_file s" and "fresh_sort v" and "reccnt < 2 ^ 31"
    and "\<forall>i k. 1 \<le> i \<longrightarrow> i \<le> reccnt \<longrightarrow> key_of i = Some k \<longrightarrow> key_ok h k" and "table_keys key_of reccnt \<noteq> []"
  shows "\<exists>s' ys. qindex False h key_of reccnt v s = (Inr (), s') \<and> reads_as s' ys
    \<and> sorted_ents (keycmp h False) ys \<and> mset ys = mset (table_keys key_of reccnt) \<and> granted s' \<and> norecpp s' = norecpp s
    \<and> entry_cnt (disk s' (rootno s')) \<noteq> 0"
proof -
  let ?q = "qcomp False h" and ?K = "List.map_filter (qindex_get_key key_of) [0..<reccnt]"
  have ok: "key_ok h k" if "key_of (Suc i) = Some k" "i < reccnt" for i k
    using assms(6) [rule_format, of "Suc i" k] that by simp
  have K: "set ?K \<subseteq> recs_of h key_of"
    using assms(5) ok by (auto simp: List.map_filter_def qindex_get_key_def recs_of_def)
  from sort_keys [OF assms(4,5) K] obtain f v' where v': "vsort (\<lambda>_. True) (qindex_get_key key_of) ?q reccnt False v = (Inr (Some f), v')"
    "rec_count v' = length (tempvf v' f)" "mset (tempvf v' f) = mset ?K" "sorted_by ?q (tempvf v' f)" "nkeys v' = nkeys v" .
  let ?rs = "tempvf v' f"
  have ms: "mset (map ent ?rs) = mset (table_keys key_of reccnt)" using v'(3) table_recs [of key_of reccnt] by (metis mset_map)
  have sub: "set ?rs \<subseteq> recs_of h key_of" using v'(3) K by (metis set_mset_mset)
  have "mset (map rec_no ?rs) = mset (map rec_no ?K)" using v'(3) by simp
  moreover have "distinct (map rec_no ?K)"
    by (auto simp: distinct_map inj_on_def List.map_filter_def qindex_get_key_def)
  ultimately have "distinct (map rec_no ?rs)" by (metis mset_eq_imp_distinct_iff)
  then have so: "sorted_ents (keycmp h False) (map ent ?rs)" using v'(4) sub by (rule sorted_recs [rotated 2])
  let ?s = "s\<lparr>e_o_f := False\<rparr>"
  have "\<exists>l. build_bt ?q False (norecpp ?s) (Suc (Suc (length ?rs))) 1 (pagecnt (?s\<lparr>rootno := pagecnt ?s\<rparr>)) \<lparr>ndx = ?s\<lparr>rootno := pagecnt ?s\<rparr>,
      fd_left = ?rs, kbuf_left = [], last_ent = \<lparr>rec_no = 0, vkey = []\<rparr>, passed_up = \<lparr>e_pno = 0, e_recno = 0, e_key = []\<rparr>, rec_prcd = 0,
      load_count = length ?rs, load_nkeys = nkeys v'\<rparr> = (Inr True, l) \<and> reads_as (ndx l) (map ent ?rs) \<and> granted (ndx l) \<and> norecpp (ndx l) = norecpp ?s
      \<and> entry_cnt (disk (ndx l) (rootno (ndx l))) \<noteq> 0"
  proof (rule build_index)
    show "?rs \<noteq> []" using ms assms(7) by auto
    show "\<forall>r\<in>set ?rs. rec_no r \<noteq> 0" using sub by (auto simp: recs_of_def)
  qed (use assms(1-4) v'(5) in \<open>auto simp: granted_def fresh_file_def blank_def fresh_sort_def\<close>)
  then obtain l where l: "build_bt ?q False (norecpp ?s) (Suc (Suc (length ?rs))) 1 (pagecnt (?s\<lparr>rootno := pagecnt ?s\<rparr>)) \<lparr>ndx = ?s\<lparr>rootno := pagecnt ?s\<rparr>,
      fd_left = ?rs, kbuf_left = [], last_ent = \<lparr>rec_no = 0, vkey = []\<rparr>, passed_up = \<lparr>e_pno = 0, e_recno = 0, e_key = []\<rparr>, rec_prcd = 0,
      load_count = length ?rs, load_nkeys = nkeys v'\<rparr> = (Inr True, l)" "reads_as (ndx l) (map ent ?rs)" "granted (ndx l)" "norecpp (ndx l) = norecpp ?s"
    "entry_cnt (disk (ndx l) (rootno (ndx l))) \<noteq> 0" by blast
  let ?t = "(ndx l)\<lparr>w_hdr := True\<rparr>"
  have "qindex False h key_of reccnt v s = (Inr (), ?t)"
    unfolding qindex_def using l(1) v'(1,2) by (simp add: cm_simps Let_def del: build_bt.simps)
  moreover have "reads_as ?t (map ent ?rs)" using l(2) by (simp add: reads_as_hdr)
  ultimately show ?thesis using so ms l(3-5) by (intro exI [of _ ?t] exI [of _ "map ent ?rs"]) (simp add: granted_def)
qed

text \<open>C8: INDEX by sorting builds the index of the table. On a new index file, and with UNIQUE off, qindex sorts
  the keys of the records that have one and loads them into pages that read as the sorted list of exactly these keys
  with their record numbers: external sort, merge passes and the loading of the tree all end and lose nothing. The
  table has less than 2^31 records and at least one key, locks are granted, and the keys are strings of the declared length without NUL or whole numbers from 0
  below 2^31 (key_ok): on other numbers the comparison of keys is no order.\<close>
theorem qindex_builds_index:
  assumes "granted s" and "1 \<le> norecpp s" and "fresh_file s" and "fresh_sort v" and "reccnt < 2 ^ 31"
    and "\<forall>i k. 1 \<le> i \<longrightarrow> i \<le> reccnt \<longrightarrow> key_of i = Some k \<longrightarrow> key_ok h k" and "table_keys key_of reccnt \<noteq> []"
  shows "\<exists>s' ys. qindex False h key_of reccnt v s = (Inr (), s') \<and> reads_as s' ys
    \<and> sorted_ents (keycmp h False) ys \<and> mset ys = mset (table_keys key_of reccnt) \<and> granted s' \<and> norecpp s' = norecpp s"
  using qindex_index [OF assms] by blast

definition new_sort :: "vrec vctl" where
  "new_sort = \<lparr>nkeys = 65536, descending = False, rec_count = 0, tempvf = \<lambda>_. [], ones = \<lparr>rec_no = MAX_RECNO, vkey = []\<rparr>,
     zeroes = \<lparr>rec_no = 0, vkey = []\<rparr>\<rparr>"

definition new_ndx :: "nat \<Rightarrow> key ndx" where
  "new_ndx e = \<lparr>disk = \<lambda>_. \<lparr>entry_cnt = 0, slot = \<lambda>_. \<lparr>e_pno = 0, e_recno = 0, e_key = []\<rparr>\<rparr>, rootno = 0, pagecnt = 1, norecpp = e,
     page_no = 0, entry_no = 0, e_o_f = False, w_hdr = False, ndx_fsync = False, disk_hdr = (0, 1), zero_key = [], grants = \<lambda>_ _. True\<rparr>"

lemma new_ok: "fresh_sort new_sort" "fresh_file (new_ndx e)" "granted (new_ndx e)" "norecpp (new_ndx e) = e"
  by (simp_all add: fresh_sort_def new_sort_def fresh_file_def new_ndx_def granted_def blank_def)

definition two_keys :: "nat \<Rightarrow> key option" where
  "two_keys n = (if n = 1 then Some [KStr ''B''] else if n = 3 then Some [KStr ''A''] else None)"

lemma two_keys_ok: "table_keys two_keys 3 = [(1, [KStr ''B'']), (3, [KStr ''A''])]"
  "\<forall>i k. 1 \<le> i \<longrightarrow> i \<le> 3 \<longrightarrow> two_keys i = Some k \<longrightarrow> key_ok (str_hdr 1) k"
  by (code_simp, auto simp: two_keys_def key_ok_def key_types_def str_hdr_def split: if_splits)

lemma qindex_builds_index_witness:
  "\<exists>s' ys. qindex False (str_hdr 1) two_keys 3 new_sort (new_ndx 2) = (Inr (), s') \<and> reads_as s' ys
    \<and> sorted_ents (keycmp (str_hdr 1) False) ys \<and> mset ys = mset (table_keys two_keys 3) \<and> granted s' \<and> norecpp s' = norecpp (new_ndx 2)"
  by (rule qindex_builds_index [OF new_ok(3) _ new_ok(2,1) _ two_keys_ok(2)]) (simp_all add: new_ok two_keys_ok(1))

text \<open>INDEX by sorting fails on a table without a key, such as an empty table: build_bt asks for the key
  before the first entry of the page.\<close>
theorem qindex_empty_fails:
  assumes "granted s" and "fresh_sort v" and "reccnt < 2 ^ 31" and "table_keys key_of reccnt = []"
  shows "fst (qindex False h key_of reccnt v s) = Inl (Dbe INVALID_ENTRY)"
proof -
  let ?q = "qcomp False h" and ?K = "List.map_filter (qindex_get_key key_of) [0..<reccnt]"
  have K: "?K = []" using table_recs [of key_of reccnt] assms(4) by simp
  have "set ?K \<subseteq> recs_of h key_of" using K by simp
  from sort_keys [OF assms(2,3) this] obtain f v' where v': "vsort (\<lambda>_. True) (qindex_get_key key_of) ?q reccnt False v = (Inr (Some f), v')"
    "rec_count v' = length (tempvf v' f)" "mset (tempvf v' f) = mset ?K" .
  have F: "tempvf v' f = []" "rec_count v' = 0" using v' K by simp_all
  have g: "granted (s\<lparr>e_o_f := False\<rparr>)" "granted (s\<lparr>e_o_f := False, rootno := n\<rparr>)" for n using assms(1) by (simp_all add: granted_def)
  show ?thesis
    unfolding qindex_def bnd_app modst_app prod.case sum.case v'(1) option.case Let_def
    using g by (simp add: cm_simps F on_ndx_app getpage_app load_leaf_def puts_app blank_def Let_def)
qed

lemma qindex_empty_fails_witness: "fst (qindex False (str_hdr 1) (\<lambda>_. None) 3 new_sort (new_ndx 2)) = Inl (Dbe INVALID_ENTRY)"
  by (rule qindex_empty_fails [OF new_ok(3,1)]) (simp_all add: new_ok table_keys_def List.map_filter_def)

end
