(* ===== verification/Index_Visits.thy ===== *)
theory Index_Visits
  imports Index_Walk Qindex_Loads
begin

text \<open>
  Walking forward through an index visits its entries in order. The leaf pages of the tree from left to
  right (lpages) carry the entries; btxrch finds the page behind a leaf by the last entry of the leaf,
  and nextndx checks the step with memcmp, which has to order keys as keycmp does: byte_order states
  that.
\<close>

section \<open>Leaf pages\<close>

primrec lpages :: "'k bt \<Rightarrow> (nat \<times> (nat \<times> 'k) list) list" where
  "lpages (Lf n es) = [(n, es)]"
| "lpages (Nd n cs ss) = concat (map lpages cs)"

lemma leaves_lpages: "leaves t = concat (map snd (lpages t))"
proof (induction t)
  case (Nd n cs ss)
  then show ?case by (induction cs) auto
qed simp

lemma lpages_ne: "shaped e t \<Longrightarrow> lpages t \<noteq> []"
proof (induction t)
  case (Nd n cs ss)
  then show ?case by (cases cs) auto
qed simp

lemma lpages_stored: "stored d t \<Longrightarrow> (n, es) \<in> set (lpages t) \<Longrightarrow> stored d (Lf n es) \<and> n \<in> set (pages t)"
  by (induction t) auto

lemma lpages_full: "shaped e t \<Longrightarrow> leaves t \<noteq> [] \<Longrightarrow> (n, es) \<in> set (lpages t) \<Longrightarrow> es \<noteq> []"
  by (induction t) auto

lemma nth_concat_at: "i < length (concat xss) \<Longrightarrow>
    \<exists>j k. j < length xss \<and> k < length (xss ! j) \<and> i = length (concat (take j xss)) + k"
proof (induction xss arbitrary: i)
  case (Cons xs xss)
  show ?case
  proof (cases "i < length xs")
    case True
    then show ?thesis by (intro exI [of _ 0] exI [of _ i]) simp
  next
    case False
    then have "i - length xs < length (concat xss)" using Cons.prems by simp
    from Cons.IH [OF this] obtain j k where "j < length xss" "k < length (xss ! j)" "i - length xs = length (concat (take j xss)) + k"
      by blast
    then show ?thesis using False by (intro exI [of _ "Suc j"] exI [of _ k]) auto
  qed
qed simp

lemma nth_concat_in: "j < length xss \<Longrightarrow> k < length (xss ! j) \<Longrightarrow> concat xss ! (length (concat (take j xss)) + k) = xss ! j ! k"
  by (simp add: concat_split [of j] nth_append)

lemma rankI:
  assumes "j \<le> length ys" and "\<And>r. r < j \<Longrightarrow> 0 < side kc u x (ys ! r)" and "j < length ys \<Longrightarrow> side kc u x (ys ! j) \<le> 0"
  shows "rank kc u x ys = j"
proof -
  have "takeWhile (\<lambda>y. 0 < side kc u x y) ys = take j ys"
    by (rule takeWhile_eq_take_P_nth) (use assms(2,3) in \<open>auto simp: not_less\<close>)
  then show ?thesis using assms(1) by (simp add: rank_def)
qed

section \<open>The page behind a leaf\<close>

lemma cross_scan_app:
  assumes "length E = entry_cnt p" and "\<And>r. r < entry_cnt p \<Longrightarrow> e_key (slot p r) = snd (E ! r)"
    and "\<And>r. r < entry_cnt p \<Longrightarrow> btlr f (pn p r) (e_recno t) s = (Inr (cmp_recno (e_recno t) (fst (E ! r))), s)"
    and "r + n = entry_cnt p"
  defines "x \<equiv> (e_recno t, e_key t)"
  shows "cross_scan kc f t p n r (pn p r) s = (Inr (let i = r + rank kc False x (drop r E) in
       if i < entry_cnt p \<and> side kc False x (E ! i) = 0 then Inl (pn p (i + 1)) else Inr (pn p i)), s)"
  using assms(4)
proof (induction n arbitrary: r)
  case 0
  then show ?case using assms(1) by (simp add: cm_simps rank_def Let_def)
next
  case (Suc n)
  have r: "r < entry_cnt p" "r + 1 + n = entry_cnt p" using Suc.prems by simp_all
  have d: "drop r E = E ! r # drop (r + 1) E" using r assms(1) by (simp add: Cons_nth_drop_Suc)
  have k: "e_key (slot p r) = snd (E ! r)" by (rule assms(2) [OF r(1)])
  have b: "btlr f (e_pno (slot p r)) (e_recno t) s = (Inr (cmp_recno (e_recno t) (fst (E ! r))), s)"
    using assms(3) [OF r(1)] by (simp add: pn_def)
  have s1: "cross_scan kc f t p (Suc n) r (pn p r) s = (if 0 < side kc False x (E ! r)
      then cross_scan kc f t p n (r + 1) (pn p (r + 1)) s
      else (Inr (if side kc False x (E ! r) = 0 then Inl (pn p (r + 1)) else Inr (pn p r)), s))"
    using r k b by (auto simp: page_reads cm_simps Let_def side_def x_def sgn_if pn_def)
  show ?case
    unfolding s1 d rank_Cons Suc.IH [OF r(2)] using r by (auto simp: Let_def)
qed

lemma first_child:
  assumes "readable s (Nd n cs ss)" and "height (Nd n cs ss) \<le> Suc f"
  obtains c where "c \<in> set cs" and "readable s c" and "height c \<le> f" and "root_of c < pagecnt s" and "root_of c \<noteq> 0"
    and "\<not> is_leaf (disk s n)" and "e_pno (slot (disk s n) 0) = root_of c"
    and "hd (lpages (Nd n cs ss)) = hd (lpages c)"
proof -
  have st: "stored (disk s) (Nd n cs ss)" "shaped (norecpp s) (Nd n cs ss)" using assms(1) by (auto simp: readable_def)
  then obtain c cs' where cs: "cs = c # cs'" by (cases cs) auto
  then have c: "c \<in> set cs" by simp
  note p = page_of_node [OF st]
  show ?thesis
  proof (rule that [OF c readable_child [OF assms(1) c]])
    show "height c \<le> f" using assms(2) height_child [OF c] by simp
    show "root_of c < pagecnt s" using assms(1) c by (auto simp: readable_def)
    show "root_of c \<noteq> 0" using st(1) c stored_root by auto
    show "\<not> is_leaf (disk s n)" by (rule p(4))
    show "e_pno (slot (disk s n) 0) = root_of c" using p(3) [of 0] by (simp add: pn_def cs)
    show "hd (lpages (Nd n cs ss)) = hd (lpages c)" using st(2) lpages_ne [of "norecpp s" c] by (simp add: cs)
  qed
qed

lemma first_leaf_app:
  assumes "readable s t" and "granted s" and "height t \<le> f"
  shows "first_leaf f (root_of t) (disk s (root_of t)) s = (Inr (fst (hd (lpages t)), disk s (fst (hd (lpages t)))), s)"
    and "down_leaf FORWARD f (root_of t) (disk s (root_of t)) s
      = (Inr (Some (fst (hd (lpages t)), disk s (fst (hd (lpages t))))), s)"
proof -
  from assms have "first_leaf f (root_of t) (disk s (root_of t)) s = (Inr (fst (hd (lpages t)), disk s (fst (hd (lpages t)))), s)
    \<and> down_leaf FORWARD f (root_of t) (disk s (root_of t)) s
      = (Inr (Some (fst (hd (lpages t)), disk s (fst (hd (lpages t))))), s)"
  proof (induction t arbitrary: f)
    case (Lf n es)
    then obtain f' where f: "f = Suc f'" by (cases f) auto
    have "is_leaf (disk s n)" using Lf.prems(1) page_of_leaf(4) [of "disk s" n es] by (simp add: readable_def)
    then show ?case by (simp add: f cm_simps page_reads is_leaf_def)
  next
    case (Nd n cs ss)
    then obtain f' where f: "f = Suc f'" by (cases f) auto
    from Nd.prems(3) have "height (Nd n cs ss) \<le> Suc f'" by (simp add: f)
    with Nd.prems(1) obtain c where c: "c \<in> set cs" "readable s c" "height c \<le> f'" "root_of c < pagecnt s" "root_of c \<noteq> 0"
      "\<not> is_leaf (disk s n)" "e_pno (slot (disk s n) 0) = root_of c" "hd (lpages (Nd n cs ss)) = hd (lpages c)"
      by (rule first_child)
    show ?case unfolding c(8) f
      using c(4-7) Nd.prems(2) Nd.IH [OF c(1,2) Nd.prems(2) c(3)] by (simp add: cm_simps page_reads getpage_app)
  qed
  then show "first_leaf f (root_of t) (disk s (root_of t)) s = (Inr (fst (hd (lpages t)), disk s (fst (hd (lpages t)))), s)"
    and "down_leaf FORWARD f (root_of t) (disk s (root_of t)) s
      = (Inr (Some (fst (hd (lpages t)), disk s (fst (hd (lpages t))))), s)" by blast+
qed

context key_order
begin

lemma side_self: "snd y \<in> K \<Longrightarrow> side kc False y y = 0"
  using side_swap [of y y] by simp

lemma rank_of_child:
  assumes so: "sorted_ents kc (concat (map leaves cs))" and K: "snd ` set (concat (map leaves cs)) \<subseteq> K"
    and ne: "\<forall>c\<in>set cs. leaves c \<noteq> []" and j: "j < length cs" and x: "x \<in> set (leaves (cs ! j))"
  shows "rank kc False x (seps cs) = j"
    and "Suc j < length cs \<Longrightarrow> side kc False x (seps cs ! j) = 0 \<longleftrightarrow> x = last (leaves (cs ! j))"
proof -
  have l: "length (seps cs) = length cs - 1" by (simp add: seps_def)
  have E: "seps cs ! r = last (leaves (cs ! r))" "last (leaves (cs ! r)) \<in> set (leaves (cs ! r))" if "Suc r < length cs" for r
    using that nth_butlast [of r cs] ne by (simp_all add: seps_def less_diff_conv)
  have so': "sorted_wrt (\<lambda>y z. side kc False y z < 0) (concat (map leaves cs))" using so by (simp add: sorted_ents_def)
  have inK: "snd y \<in> K" if "y \<in> set (leaves c)" "c \<in> set cs" for y c using K that by auto
  have before: "0 < side kc False x (seps cs ! r)" if "r < j" for r
  proof -
    have r: "Suc r < length cs" using that j by simp
    have "side kc False (last (leaves (cs ! r))) x < 0"
      by (rule sorted_wrt_concat [OF so', of r j]) (use that j x E [OF r] in auto)
    then show ?thesis using side_swap [of "last (leaves (cs ! r))" x] inK [OF E(2) [OF r]] inK [OF x] r j E(1) [OF r] by simp
  qed
  have at: "side kc False x (seps cs ! j) = (if x = last (leaves (cs ! j)) then 0 else side kc False x (last (leaves (cs ! j))))
      \<and> (x \<noteq> last (leaves (cs ! j)) \<longrightarrow> side kc False x (last (leaves (cs ! j))) < 0)" if r: "Suc j < length cs"
  proof -
    let ?L = "leaves (cs ! j)"
    have "sorted_wrt (\<lambda>y z. side kc False y z < 0) ?L"
      using so' concat_split [of j "map leaves cs"] j by (simp add: sorted_wrt_append)
    moreover have L: "?L = butlast ?L @ [last ?L]" using ne j by simp
    ultimately have "sorted_wrt (\<lambda>y z. side kc False y z < 0) (butlast ?L @ [last ?L])" by simp
    moreover have "x = last ?L \<or> x \<in> set (butlast ?L)" using x L by (metis UnE empty_iff insert_iff list.set set_append)
    moreover have "side kc False (last ?L) (last ?L) = 0" by (rule side_self) (use inK E(2) [OF r] j in auto)
    ultimately show ?thesis using E(1) [OF r] by (auto simp: sorted_wrt_append)
  qed
  show "rank kc False x (seps cs) = j"
    by (rule rankI) (use before at j l in \<open>auto split: if_splits intro: less_imp_le\<close>)
  show "Suc j < length cs \<Longrightarrow> side kc False x (seps cs ! j) = 0 \<longleftrightarrow> x = last (leaves (cs ! j))" using at by auto
qed

lemma last_leaf_iff:
  assumes so: "sorted_ents kc (leaves t)" and K: "snd ` set (leaves t) \<subseteq> K" and wf: "shaped e t" and ne: "leaves t \<noteq> []"
    and i: "i < length (lpages t)"
  shows "last (snd (lpages t ! i)) = last (leaves t) \<longleftrightarrow> Suc i = length (lpages t)"
proof -
  let ?L = "map snd (lpages t)" and ?n = "length (lpages t) - 1"
  have full: "snd (lpages t ! k) \<noteq> []" if "k < length (lpages t)" for k
    using lpages_full [OF wf ne, of "fst (lpages t ! k)"] nth_mem [OF that] by simp
  have n: "?n < length (lpages t)" using i by simp
  obtain ps p where ps: "lpages t = ps @ [p]" using i by (cases "lpages t" rule: rev_cases) auto
  then have "lpages t ! ?n = p" by simp
  then have la: "last (leaves t) = last (snd (lpages t ! ?n))" using full [OF n] by (simp add: leaves_lpages ps)
  show ?thesis
  proof (cases "Suc i = length (lpages t)")
    case True
    then show ?thesis using la by (metis diff_Suc_1)
  next
    case False
    have "side kc False (last (snd (lpages t ! i))) (last (snd (lpages t ! ?n))) < 0"
      by (rule sorted_wrt_concat [of _ ?L i ?n])
        (use so i n False full [OF i] full [OF n] in \<open>auto simp: sorted_ents_def leaves_lpages\<close>)
    moreover have "snd (last (leaves t)) \<in> K" using K ne by (simp add: image_subset_iff)
    ultimately show ?thesis using la False side_self [of "last (leaves t)"] by auto
  qed
qed

definition next_page :: "'k ndx \<Rightarrow> 'k bt \<Rightarrow> nat \<Rightarrow> nat \<Rightarrow> bool" where
  \<comment> \<open>q is the root of what follows the leaf i, or 0\<close>
  "next_page s t i q \<longleftrightarrow>
     (if Suc i < length (lpages t)
      then \<exists>c. readable s c \<and> root_of c = q \<and> hd (lpages c) = lpages t ! Suc i \<and> height c \<le> height t
      else q = 0)"

lemma btxrch_forward:
  assumes "readable s t" and "granted s" and "height t \<le> f" and "sorted_ents kc (leaves t)" and "snd ` set (leaves t) \<subseteq> K"
    and "leaves t \<noteq> []" and "i < length (lpages t)" and "(e_recno tg, e_key tg) = last (snd (lpages t ! i))"
  shows "\<exists>q. btxrch kc FORWARD f (root_of t) tg s = (Inr q, s) \<and> next_page s t i q"
  using assms
proof (induction t arbitrary: f i)
  case (Lf n es)
  then obtain f' where f: "f = Suc f'" by (cases f) auto
  have "is_leaf (disk s n)" "n < pagecnt s" using Lf.prems(1) page_of_leaf(4) [of "disk s" n es] by (auto simp: readable_def)
  then show ?case using Lf.prems(2,7) by (simp add: f cm_simps getpage_app next_page_def)
next
  case (Nd n cs ss)
  let ?t = "Nd n cs ss" and ?x = "(e_recno tg, e_key tg)" and ?p = "disk s n"
  obtain f' where f: "f = Suc f'" using Nd.prems(3) by (cases f) auto
  have st: "stored (disk s) ?t" and wf: "shaped (norecpp s) ?t" and lt: "\<forall>m\<in>set (pages ?t). m < pagecnt s"
    using Nd.prems(1) by (auto simp: readable_def)
  have cl: "length cs = length ss + 1" and ne: "\<forall>c\<in>set cs. leaves c \<noteq> []" using wf by auto
  note p = page_of_node [OF st wf] and en = node_entries [OF st wf Nd.prems(2) Nd.prems(3) [unfolded f] lt]
  let ?P = "map lpages cs"
  obtain j k where j: "j < length cs" "k < length (lpages (cs ! j))" "i = length (concat (take j ?P)) + k"
    using nth_concat_at [of i ?P] Nd.prems(7) by auto
  let ?c = "cs ! j"
  have c: "?c \<in> set cs" using j(1) by simp
  have li: "lpages ?t ! i = lpages ?c ! k" using nth_concat_in [of j ?P k] j by simp
  let ?R = "concat (map lpages (drop (Suc j) cs))"
  have lp: "lpages ?t = concat (take j ?P) @ lpages ?c @ ?R"
    using concat_split [of j ?P] j(1) by (simp add: drop_map)
  have R: "?R = (if Suc j < length cs then lpages (cs ! Suc j) @ concat (map lpages (drop (Suc (Suc j)) cs)) else [])"
    by (simp add: Cons_nth_drop_Suc [symmetric])
  have R0: "Suc j < length cs \<Longrightarrow> lpages (cs ! Suc j) \<noteq> [] \<and> 0 < length (lpages (cs ! Suc j))"
    using wf lpages_ne [of "norecpp s" "cs ! Suc j"] by simp
  have nxt: "lpages ?t ! Suc i = (if Suc k < length (lpages ?c) then lpages ?c ! Suc k else hd (lpages (cs ! Suc j)))"
    and more: "Suc i < length (lpages ?t)" if "Suc k < length (lpages ?c) \<or> Suc j < length cs"
    using that j(2,3) R R0 unfolding lp by (auto simp: nth_append hd_conv_nth neq_Nil_conv)
  have none: "\<not> Suc i < length (lpages ?t)" if "Suc k = length (lpages ?c)" "\<not> Suc j < length cs"
    using that j(3) R unfolding lp by simp
  have sub: "sorted_ents kc (leaves ?c)" "snd ` set (leaves ?c) \<subseteq> K" "leaves ?c \<noteq> []"
    using Nd.prems(4,5) concat_split [of j "map leaves cs"] j(1) ne c
    by (auto simp: sorted_ents_def sorted_wrt_append)
  have wfc: "shaped (norecpp s) ?c" using wf c by auto
  have full: "snd (lpages ?c ! k) \<noteq> []" "snd (lpages ?c ! k) \<in> set (map snd (lpages ?c))"
    using lpages_full [OF wfc sub(3), of "fst (lpages ?c ! k)"] nth_mem [OF j(2)] by simp_all
  have "?x \<in> set (snd (lpages ?c ! k))" using Nd.prems(8) li last_in_set [OF full(1)] by simp
  then have xin: "?x \<in> set (leaves ?c)" using full(2) unfolding leaves_lpages set_concat by blast
  have rk: "rank kc False ?x (seps cs) = j" "Suc j < length cs \<Longrightarrow> side kc False ?x (seps cs ! j) = 0 \<longleftrightarrow> ?x = last (leaves ?c)"
    using rank_of_child [OF _ _ ne j(1) xin] Nd.prems(4,5) by simp_all
  have h: "height ?c \<le> f'" using Nd.prems(3) height_child [OF c] by (simp add: f)
  have IH: "\<exists>q. btxrch kc FORWARD f' (root_of ?c) tg s = (Inr q, s) \<and> next_page s ?c k q"
    by (rule Nd.IH [OF c readable_child [OF Nd.prems(1) c] Nd.prems(2) h sub j(2)]) (use Nd.prems(8) li in simp)
  have ll: "?x = last (leaves ?c) \<longleftrightarrow> Suc k = length (lpages ?c)"
    using last_leaf_iff [OF sub(1,2) _ sub(3) j(2), of "norecpp s"] wf c li Nd.prems(8) by auto
  have sc: "cross_scan kc f' tg ?p (entry_cnt ?p) 0 (pn ?p 0) s = (Inr (if Suc j < length cs \<and> Suc k = length (lpages ?c)
      then Inl (root_of (cs ! Suc j)) else Inr (root_of ?c)), s)"
  proof -
    have "pn ?p (Suc j) = root_of (cs ! Suc j)" if "Suc j < length cs" using p(3) [of "Suc j"] that cl by simp
    moreover have "pn ?p j = root_of ?c" using p(3) [of j] j(1) cl by simp
    moreover have "cross_scan kc f' tg ?p (entry_cnt ?p) 0 (pn ?p 0) s = (Inr (let i = 0 + rank kc False ?x (drop 0 (seps cs)) in
         if i < entry_cnt ?p \<and> side kc False ?x (seps cs ! i) = 0 then Inl (pn ?p (i + 1)) else Inr (pn ?p i)), s)"
      by (rule cross_scan_app) (use p(1) cl en in \<open>auto simp: seps_def\<close>)
    ultimately show ?thesis using rk ll p(1) cl by (auto simp: Let_def)
  qed
  have n: "n < pagecnt s" using lt by simp
  have step: "btxrch kc FORWARD f (root_of ?t) tg s = (if Suc j < length cs \<and> Suc k = length (lpages ?c)
      then (Inr (root_of (cs ! Suc j)), s) else btxrch kc FORWARD f' (root_of ?c) tg s)"
    using sc n p(4) Nd.prems(2) by (simp add: f cm_simps getpage_app page_reads pn_def)
  show ?case
  proof (cases "Suc j < length cs \<and> Suc k = length (lpages ?c)")
    case True
    let ?d = "cs ! Suc j"
    have d: "?d \<in> set cs" using True by simp
    have "height ?d \<le> height ?t" using height_child [OF d] by simp
    then have "next_page s ?t i (root_of ?d)"
      using True nxt more readable_child [OF Nd.prems(1) d] unfolding next_page_def by auto
    then show ?thesis unfolding step using True by simp
  next
    case False
    obtain q where q: "btxrch kc FORWARD f' (root_of ?c) tg s = (Inr q, s)" "next_page s ?c k q" using IH by blast
    have "next_page s ?t i q"
    proof (cases "Suc k < length (lpages ?c)")
      case True
      then obtain d where "readable s d" "root_of d = q" "hd (lpages d) = lpages ?c ! Suc k" "height d \<le> height ?c"
        using q(2) by (auto simp: next_page_def)
      moreover have "height ?c \<le> height ?t" using height_child [OF c] by simp
      ultimately show ?thesis using True nxt more unfolding next_page_def by (auto intro: order_trans)
    next
      case k: False
      then have "q = 0" using q(2) by (simp add: next_page_def)
      then show ?thesis using none False k j(2) by (simp add: next_page_def)
    qed
    then show ?thesis unfolding step if_not_P [OF False] using q(1) by blast
  qed
qed

end

section \<open>Steps\<close>

primrec walk :: "('k \<Rightarrow> 'k \<Rightarrow> int) \<Rightarrow> ('k \<Rightarrow> 'k \<Rightarrow> int) \<Rightarrow> nat \<Rightarrow> bool \<Rightarrow> nat \<Rightarrow> ('k, nat) im" where
  \<comment> \<open>the record number after k forward steps from the top\<close>
  "walk kc mc f shared 0 = ndxtop f shared"
| "walk kc mc f shared (Suc k) =
     bnd (walk kc mc f shared k) (\<lambda>_. bnd (nextndx kc mc f shared FORWARD None) (\<lambda>(r, _). ret r))"

definition leaf_pos :: "'k ndx \<Rightarrow> 'k bt \<Rightarrow> nat \<Rightarrow> nat \<Rightarrow> bool" where
  \<comment> \<open>the position is entry j of leaf i\<close>
  "leaf_pos s t i j \<longleftrightarrow> i < length (lpages t) \<and> page_no s = fst (lpages t ! i) \<and> entry_no s = j \<and> j < length (snd (lpages t ! i))"

lemma leaf_page:
  assumes "readable s t" and "i < length (lpages t)"
  shows "fst (lpages t ! i) \<noteq> 0" and "fst (lpages t ! i) < pagecnt s"
    and "entry_cnt (disk s (fst (lpages t ! i))) = length (snd (lpages t ! i))"
    and "m < length (snd (lpages t ! i)) \<Longrightarrow> rk (disk s (fst (lpages t ! i))) m = snd (lpages t ! i) ! m"
proof -
  obtain n es where l: "lpages t ! i = (n, es)" by fastforce
  have "stored (disk s) (Lf n es)" "n \<in> set (pages t)"
    using lpages_stored [of "disk s" t n es] assms nth_mem [OF assms(2)] l by (auto simp: readable_def)
  then show "fst (lpages t ! i) \<noteq> 0" and "fst (lpages t ! i) < pagecnt s"
    and "entry_cnt (disk s (fst (lpages t ! i))) = length (snd (lpages t ! i))"
    and "m < length (snd (lpages t ! i)) \<Longrightarrow> rk (disk s (fst (lpages t ! i))) m = snd (lpages t ! i) ! m"
    using page_of_leaf [of "disk s" n es] assms(1) l by (auto simp: readable_def)
qed

context key_order
begin

lemma lfind_forward:
  assumes "readable s t" and "granted s" and "height t \<le> f" and "sorted_ents kc (leaves t)" and "snd ` set (leaves t) \<subseteq> K"
    and "leaves t \<noteq> []" and "i < length (lpages t)" and "(e_recno ne, e_key ne) = last (snd (lpages t ! i))" and "root_of t = rootno s"
  shows "Suc i < length (lpages t) \<Longrightarrow> let q = fst (lpages t ! Suc i) in
      lfind kc FORWARD f ne s = (Inr (Some (slot (disk s q) 0)), s\<lparr>page_no := q, entry_no := 0\<rparr>)"
    and "\<not> Suc i < length (lpages t) \<Longrightarrow> lfind kc FORWARD f ne s = (Inr None, s)"
proof -
  obtain q where q: "btxrch kc FORWARD f (root_of t) (ne\<lparr>e_pno := 0\<rparr>) s = (Inr q, s)" "next_page s t i q"
    using btxrch_forward [OF assms(1-7), of "ne\<lparr>e_pno := 0\<rparr>"] assms(8) by auto
  show "Suc i < length (lpages t) \<Longrightarrow> let q = fst (lpages t ! Suc i) in
      lfind kc FORWARD f ne s = (Inr (Some (slot (disk s q) 0)), s\<lparr>page_no := q, entry_no := 0\<rparr>)"
  proof -
    assume "Suc i < length (lpages t)"
    then obtain c where c: "readable s c" "root_of c = q" "hd (lpages c) = lpages t ! Suc i" "height c \<le> height t"
      using q(2) by (auto simp: next_page_def)
    have "q \<noteq> 0" "q < pagecnt s" using c(1) stored_root [of "disk s" c] root_in_pages [of c] by (auto simp: readable_def c(2))
    then show ?thesis
      using q(1) first_leaf_app(2) [OF c(1) assms(2), of f] c assms(2,3,9)
      by (simp add: lfind_def cm_simps getpage_app page_reads)
  qed
  show "\<not> Suc i < length (lpages t) \<Longrightarrow> lfind kc FORWARD f ne s = (Inr None, s)"
    using q assms(9) by (simp add: lfind_def cm_simps next_page_def)
qed

end

locale byte_order = key_order +
  fixes mc :: "'a \<Rightarrow> 'a \<Rightarrow> int"
  assumes mc_agrees: "a \<in> K \<Longrightarrow> b \<in> K \<Longrightarrow> sgn (mc a b) = sgn (kc a b)"
begin

lemma nextndx_forward:
  assumes t: "readable s t" "granted s" "height t \<le> f" "sorted_ents kc (leaves t)" "snd ` set (leaves t) \<subseteq> K" "leaves t \<noteq> []"
      "root_of t = rootno s" and sh: "shared \<longrightarrow> disk_hdr s = (rootno s, pagecnt s)" and pos: "leaf_pos s t i j"
  shows "Suc j < length (snd (lpages t ! i)) \<Longrightarrow> \<exists>e. nextndx kc mc f shared FORWARD cur s
      = (Inr (fst (snd (lpages t ! i) ! Suc j), e), s\<lparr>entry_no := Suc j\<rparr>)"
    and "Suc j = length (snd (lpages t ! i)) \<Longrightarrow> Suc i < length (lpages t) \<Longrightarrow> \<exists>e. nextndx kc mc f shared FORWARD cur s
      = (Inr (fst (snd (lpages t ! Suc i) ! 0), e), s\<lparr>page_no := fst (lpages t ! Suc i), entry_no := 0\<rparr>)"
    and "Suc j = length (snd (lpages t ! i)) \<Longrightarrow> \<not> Suc i < length (lpages t) \<Longrightarrow> \<exists>e. nextndx kc mc f shared FORWARD cur s = (Inr (0, e), s)"
proof -
  let ?p = "disk s (page_no s)"
  have i: "i < length (lpages t)" and j: "j < length (snd (lpages t ! i))" "entry_no s = j" "page_no s = fst (lpages t ! i)"
    using pos by (auto simp: leaf_pos_def)
  note lp = leaf_page [OF t(1) i, folded j(3)]
  have hdr: "read_ndx_hdr shared s = (Inr (), s)" using sh by (cases s) (simp add: read_ndx_hdr_def cm_simps)
  show "Suc j < length (snd (lpages t ! i)) \<Longrightarrow> \<exists>e. nextndx kc mc f shared FORWARD cur s
      = (Inr (fst (snd (lpages t ! i) ! Suc j), e), s\<lparr>entry_no := Suc j\<rparr>)"
    using lp(1-3) lp(4) [of "Suc j", THEN arg_cong [of _ _ fst]] t(2) j(2) hdr
    by (simp add: nextndx_def cm_simps getpage_app page_reads rk_def)
  let ?tg = "slot ?p (entry_cnt ?p - 1)"
  have tg: "(e_recno ?tg, e_key ?tg) = last (snd (lpages t ! i))"
    using lp(3) lp(4) [of "entry_cnt ?p - 1"] j(1) by (cases "snd (lpages t ! i) = []") (auto simp: rk_def last_conv_nth)
  note lf = lfind_forward [OF t(1-6) i tg t(7)]
  have go: "Suc j = length (snd (lpages t ! i)) \<Longrightarrow> nextndx kc mc f shared FORWARD cur s = bnd (lfind kc FORWARD f ?tg) (\<lambda>ne. case ne of
           None \<Rightarrow> ret (0, None)
         | Some ne \<Rightarrow>
             let c = mc (e_key ne) (e_key ?tg);
                 c = (if c \<noteq> 0 then c else cmp_recno (e_recno ne) (e_recno ?tg)) in
             if c \<le> 0 then ret (0, None) else ret (e_recno ne, None)) s"
  proof -
    assume "Suc j = length (snd (lpages t ! i))"
    then have "entry_cnt ?p = Suc j" using lp(3) by simp
    then show ?thesis using lp(1,2) t(2) j(2) hdr
      by (simp add: nextndx_def cm_simps getpage_app page_reads Let_def split: prod.split sum.split option.split)
  qed
  show "Suc j = length (snd (lpages t ! i)) \<Longrightarrow> \<not> Suc i < length (lpages t) \<Longrightarrow> \<exists>e. nextndx kc mc f shared FORWARD cur s = (Inr (0, e), s)"
    using go lf(2) by (simp add: cm_simps)
  show "\<exists>e. nextndx kc mc f shared FORWARD cur s
      = (Inr (fst (snd (lpages t ! Suc i) ! 0), e), s\<lparr>page_no := fst (lpages t ! Suc i), entry_no := 0\<rparr>)"
    if e: "Suc j = length (snd (lpages t ! i))" and n: "Suc i < length (lpages t)"
  proof -
    let ?q = "fst (lpages t ! Suc i)" and ?L = "map snd (lpages t)"
    let ?ne = "slot (disk s ?q) 0"
    have full: "snd (lpages t ! k) \<noteq> []" if "k < length (lpages t)" for k
      using lpages_full [of "norecpp s" t "fst (lpages t ! k)"] t(1,6) nth_mem [OF that] by (simp add: readable_def)
    have ne: "(e_recno ?ne, e_key ?ne) = snd (lpages t ! Suc i) ! 0"
      using leaf_page(4) [OF t(1) n, of 0] full [OF n] by (simp add: rk_def)
    have "side kc False (last (snd (lpages t ! i))) (snd (lpages t ! Suc i) ! 0) < 0"
      by (rule sorted_wrt_concat [of _ ?L i "Suc i"])
        (use t(4) i n full [OF i] full [OF n] in \<open>auto simp: sorted_ents_def leaves_lpages\<close>)
    then have lt: "side kc False (e_recno ?tg, e_key ?tg) (e_recno ?ne, e_key ?ne) < 0" unfolding ne tg .
    have K: "e_key ?ne \<in> K" "e_key ?tg \<in> K"
    proof -
      have sub: "set (snd (lpages t ! k)) \<subseteq> set (leaves t)" if "k < length (lpages t)" for k
        using nth_mem [OF that] unfolding leaves_lpages by auto
      have "(e_recno ?ne, e_key ?ne) \<in> set (leaves t)" "(e_recno ?tg, e_key ?tg) \<in> set (leaves t)"
        unfolding ne tg using sub [OF n] sub [OF i] full [OF n] full [OF i] by auto
      then show "e_key ?ne \<in> K" "e_key ?tg \<in> K" using t(5) by (auto simp: image_subset_iff)
    qed
    let ?c = "mc (e_key ?ne) (e_key ?tg)"
    have "\<not> (if ?c \<noteq> 0 then ?c else cmp_recno (e_recno ?ne) (e_recno ?tg)) \<le> 0"
      using lt mc_agrees [OF K] kc_swap [OF K]
      by (auto simp: side_def cmp_recno_def Let_def sgn_if split: if_splits)
    then show ?thesis using go [OF e] lf(1) [OF n] arg_cong [OF ne, of fst] by (auto simp: cm_simps Let_def split: if_splits)
  qed
qed

lemma walk_ok:
  assumes t: "readable s t" "granted s" "height t \<le> f" "sorted_ents kc (leaves t)" "snd ` set (leaves t) \<subseteq> K"
      "root_of t = rootno s" and sh: "shared \<longrightarrow> disk_hdr s = (rootno s, pagecnt s)" and r: "entry_cnt (disk s (rootno s)) \<noteq> 0"
    and k: "k < length (leaves t)"
  shows "\<exists>i j. walk kc mc f shared k s = (Inr (fst (leaves t ! k)), s\<lparr>page_no := fst (lpages t ! i), entry_no := j\<rparr>)
    \<and> i < length (lpages t) \<and> j < length (snd (lpages t ! i)) \<and> k = length (concat (take i (map snd (lpages t)))) + j"
  using k
proof (induction k)
  case 0
  then have ne: "leaves t \<noteq> []" by auto
  have l: "0 < length (lpages t)" using t(1) lpages_ne [of _ t] by (auto simp: readable_def)
  have hdr: "read_ndx_hdr shared s = (Inr (), s)" using sh by (cases s) (simp add: read_ndx_hdr_def cm_simps)
  have full: "snd (lpages t ! 0) \<noteq> []"
    using lpages_full [of "norecpp s" t "fst (lpages t ! 0)"] t(1) ne nth_mem [OF l] by (simp add: readable_def)
  have root: "rootno s < pagecnt s" using t(1,6) root_in_pages [of t] by (auto simp: readable_def)
  have hd: "hd (lpages t) = lpages t ! 0" using l by (simp add: hd_conv_nth)
  have "ndxtop f shared s = (Inr (fst (snd (lpages t ! 0) ! 0)), s\<lparr>page_no := fst (lpages t ! 0), entry_no := 0\<rparr>)"
    using hdr r root t(2) first_leaf_app(1) [OF t(1-3)] leaf_page(4) [OF t(1) l, of 0, THEN arg_cong [of _ _ fst]] full
    by (simp add: ndxtop_def cm_simps getpage_app t(6) page_reads hd rk_def)
  moreover have "leaves t ! 0 = snd (lpages t ! 0) ! 0"
    using full l unfolding leaves_lpages by (cases "lpages t") (auto simp: nth_append)
  ultimately show ?case using l full by (intro exI [of _ 0]) simp
next
  case (Suc k)
  then obtain i j where w: "walk kc mc f shared k s = (Inr (fst (leaves t ! k)), s\<lparr>page_no := fst (lpages t ! i), entry_no := j\<rparr>)"
    and ij: "i < length (lpages t)" "j < length (snd (lpages t ! i))" "k = length (concat (take i (map snd (lpages t)))) + j"
    by auto
  let ?s = "s\<lparr>page_no := fst (lpages t ! i), entry_no := j\<rparr>" and ?L = "map snd (lpages t)"
  have ne: "leaves t \<noteq> []" using Suc.prems by auto
  have at: "leaves t ! (length (concat (take i ?L)) + m) = snd (lpages t ! i) ! m"
    if "i < length (lpages t)" "m < length (snd (lpages t ! i))" for i m
    using nth_concat_in [of i ?L m] that by (simp add: leaves_lpages)
  have s: "readable ?s t" "granted ?s" "root_of t = rootno ?s" "shared \<longrightarrow> disk_hdr ?s = (rootno ?s, pagecnt ?s)"
    using t(1,2,6) sh by (simp_all add: readable_def granted_def)
  have "leaf_pos ?s t i j" using ij by (simp add: leaf_pos_def)
  note nx = nextndx_forward [OF s(1,2) t(3-5) ne s(3,4) this]
  show ?case
  proof (cases "Suc j < length (snd (lpages t ! i))")
    case True
    then show ?thesis using nx(1) [OF True, of None] w ij at [OF ij(1) True]
      by (intro exI [of _ i] exI [of _ "Suc j"]) (auto simp: cm_simps)
  next
    case False
    then have e: "Suc j = length (snd (lpages t ! i))" using ij(2) by simp
    have tk: "take (Suc i) ?L = take i ?L @ [snd (lpages t ! i)]" using ij(1) by (simp add: take_Suc_conv_app_nth)
    have n: "Suc i < length (lpages t)"
    proof (rule ccontr)
      assume "\<not> Suc i < length (lpages t)"
      then have "leaves t = concat (take (Suc i) ?L)" by (simp add: leaves_lpages)
      then have "leaves t = concat (take i ?L) @ snd (lpages t ! i)" unfolding tk by simp
      then show False using Suc.prems ij(3) e by simp
    qed
    have full: "0 < length (snd (lpages t ! Suc i))"
      using lpages_full [of "norecpp s" t "fst (lpages t ! Suc i)"] t(1) ne nth_mem [OF n] by (simp add: readable_def)
    have sk: "Suc k = length (concat (take (Suc i) ?L))" using e ij(3) tk by simp
    obtain x where x: "nextndx kc mc f shared FORWARD None ?s = (Inr (fst (snd (lpages t ! Suc i) ! 0), x), ?s\<lparr>page_no := fst (lpages t ! Suc i), entry_no := 0\<rparr>)"
      using nx(2) [OF e n] by blast
    have "leaves t ! Suc k = snd (lpages t ! Suc i) ! 0" using at [OF n full] sk by simp
    then have "walk kc mc f shared (Suc k) s = (Inr (fst (leaves t ! Suc k)), s\<lparr>page_no := fst (lpages t ! Suc i), entry_no := 0\<rparr>)"
      using w x by (simp add: cm_simps)
    then show ?thesis using n full sk by (intro exI [of _ "Suc i"] exI [of _ 0]) simp
  qed
qed

lemma walk_end:
  assumes t: "readable s t" "granted s" "height t \<le> f" "sorted_ents kc (leaves t)" "snd ` set (leaves t) \<subseteq> K"
      "root_of t = rootno s" and sh: "shared \<longrightarrow> disk_hdr s = (rootno s, pagecnt s)" and r: "entry_cnt (disk s (rootno s)) \<noteq> 0"
    and ne: "leaves t \<noteq> []"
  shows "\<exists>s'. walk kc mc f shared (length (leaves t)) s = (Inr 0, s')"
proof -
  obtain k where k: "length (leaves t) = Suc k" using ne by (cases "leaves t") auto
  obtain i j where w: "walk kc mc f shared k s = (Inr (fst (leaves t ! k)), s\<lparr>page_no := fst (lpages t ! i), entry_no := j\<rparr>)"
    and ij: "i < length (lpages t)" "j < length (snd (lpages t ! i))" "k = length (concat (take i (map snd (lpages t)))) + j"
    using walk_ok [OF t sh r, where k = k] k by auto
  let ?s = "s\<lparr>page_no := fst (lpages t ! i), entry_no := j\<rparr>" and ?L = "map snd (lpages t)"
  have s: "readable ?s t" "granted ?s" "root_of t = rootno ?s" "shared \<longrightarrow> disk_hdr ?s = (rootno ?s, pagecnt ?s)"
    using t(1,2,6) sh by (simp_all add: readable_def granted_def)
  have "leaf_pos ?s t i j" using ij by (simp add: leaf_pos_def)
  note nx = nextndx_forward [OF s(1,2) t(3-5) ne s(3,4) this]
  have cs: "concat ?L = concat (take i ?L) @ snd (lpages t ! i) @ concat (drop (Suc i) ?L)"
    using concat_split [of i ?L] ij(1) by simp
  have "Suc k = length (concat ?L)" using k by (simp add: leaves_lpages)
  then have "Suc j = length (snd (lpages t ! i)) + length (concat (drop (Suc i) ?L))" using ij(3) unfolding cs by simp
  then have "length (concat (drop (Suc i) ?L)) = 0" and e: "Suc j = length (snd (lpages t ! i))" using ij(2) by linarith+
  then have c0: "concat (drop (Suc i) ?L) = []" unfolding length_0_conv by blast
  have n: "\<not> Suc i < length (lpages t)"
  proof
    assume n: "Suc i < length (lpages t)"
    then have "snd (lpages t ! Suc i) \<noteq> []"
      using lpages_full [of "norecpp s" t "fst (lpages t ! Suc i)"] t(1) ne nth_mem [OF n] by (simp add: readable_def)
    moreover have "drop (Suc i) ?L = snd (lpages t ! Suc i) # drop (Suc (Suc i)) ?L"
      using n Cons_nth_drop_Suc [of "Suc i" ?L] by simp
    ultimately show False using c0 by auto
  qed
  show ?thesis unfolding k using nx(3) [OF e n, of None] w by (auto simp: cm_simps)
qed

end

section \<open>String keys\<close>

lemma memcmp_strings:
  "length a = length b \<Longrightarrow> CHR 0x00 \<notin> set a \<Longrightarrow> sgn (memcmp (map of_char a) (map of_char b)) = sgn (skcmp_from i a b)"
  by (induction i a b rule: skcmp_from.induct) auto

lemma keymem_strings:
  assumes "keytyp h = 0" and "key_ok h a" and "key_ok h b"
  shows "sgn (keymem (keylen h) a b) = sgn (keycmp h False a b)"
proof -
  obtain u v where k: "a = [KStr u]" "b = [KStr v]" "length u = keylen h" "length v = keylen h" "CHR 0x00 \<notin> set u"
    using assms by (auto simp: key_ok_str)
  then show ?thesis using memcmp_strings [of u v False] assms(1)
    by (simp add: keymem_def key_bytes_def part_bytes_def keycmp_str)
qed

interpretation string_keys: byte_order "keycmp (h\<lparr>keytyp := 0\<rparr>) False" "{k. key_ok (h\<lparr>keytyp := 0\<rparr>) k}" "keymem (keylen h)" for h
  by unfold_locales (use keymem_strings [of "h\<lparr>keytyp := 0\<rparr>"] in auto)

lemma key_ok_types: "keytyp h = 0 \<Longrightarrow> h\<lparr>keytyp := 0\<rparr> = h"
  by (cases h) simp

lemma walk_strings:
  assumes "reads_as s ys" and "granted s" and "pagecnt s \<le> f" and "sorted_ents (keycmp h False) ys"
    and "\<forall>y\<in>set ys. key_ok h (snd y)" and "keytyp h = 0" and "ys \<noteq> []" and "entry_cnt (disk s (rootno s)) \<noteq> 0"
    and "shared \<longrightarrow> disk_hdr s = (rootno s, pagecnt s)" and "k \<le> length ys"
  shows "\<exists>s'. walk (keycmp h False) (keymem (keylen h)) f shared k s = (Inr (if k < length ys then fst (ys ! k) else 0), s')"
proof -
  obtain t where t: "readable s t" "root_of t = rootno s" "leaves t = ys"
    using assms(1,7) by (auto simp: reads_as_def split: if_splits)
  have h: "height t \<le> f" using readable_height [OF t(1)] assms(3) by simp
  have K: "snd ` set (leaves t) \<subseteq> {k. key_ok h k}" using assms(5) t(3) by auto
  note w = string_keys.walk_ok [of s t f h, unfolded key_ok_types [OF assms(6)], OF t(1) assms(2) h assms(4) [folded t(3)] K t(2) assms(9,8)]
    and e = string_keys.walk_end [of s t f h, unfolded key_ok_types [OF assms(6)], OF t(1) assms(2) h assms(4) [folded t(3)] K t(2) assms(9,8)]
  show ?thesis
  proof (cases "k < length ys")
    case True
    then show ?thesis using w [of k] t(3) by auto
  next
    case False
    then have "k = length ys" using assms(10) by simp
    then show ?thesis using e assms(7) t(3) by auto
  qed
qed

text \<open>C14: walking forward visits the whole index in order. In an index with string keys, the record number
  that ndxtop and k calls of nextndx give is the one of entry k, and the call behind the last entry gives 0.
  (The root page has an entry, and a table in shared use has the header of the file in memory.)\<close>
theorem walk_visits_in_order:
  assumes "reads_as s ys" and "granted s" and "pagecnt s \<le> f" and "sorted_ents (keycmp h False) ys"
    and "\<forall>y\<in>set ys. key_ok h (snd y)" and "keytyp h = 0" and "ys \<noteq> []" and "entry_cnt (disk s (rootno s)) \<noteq> 0"
    and "shared \<longrightarrow> disk_hdr s = (rootno s, pagecnt s)" and "k \<le> length ys"
  shows "\<exists>s'. walk (keycmp h False) (keymem (keylen h)) f shared k s = (Inr (if k < length ys then fst (ys ! k) else 0), s')"
  by (rule walk_strings [OF assms])

lemma walk_visits_in_order_witness:
  "\<exists>s'. walk (keycmp (str_hdr 1) False) (keymem (keylen (str_hdr 1))) 2 False 1 (ndx1 [(3, [KStr ''B'']), (1, [KStr ''C''])]) = (Inr 1, s')"
proof -
  let ?ys = "[(3, [KStr ''B'']), (1, [KStr ''C''])] :: (nat \<times> key) list"
  have "reads_as (ndx1 ?ys) ?ys" by (rule index_reads [OF ndx1_index]) simp_all
  moreover have "granted (ndx1 ?ys)" "pagecnt (ndx1 ?ys) \<le> 2" "keytyp (str_hdr 1) = 0" "entry_cnt (disk (ndx1 ?ys) (rootno (ndx1 ?ys))) \<noteq> 0"
    by (simp_all add: granted_def ndx1_def page1_def str_hdr_def)
  moreover have "sorted_ents (keycmp (str_hdr 1) False) ?ys"
    by (simp add: sorted_ents_def side_def keycmp_str str_hdr_def)
  moreover have "\<forall>y\<in>set ?ys. key_ok (str_hdr 1) (snd y)" by (simp add: key_ok_str str_hdr_def)
  ultimately show ?thesis using walk_visits_in_order [of "ndx1 ?ys" ?ys 2 "str_hdr 1" False 1] by simp
qed

text \<open>C5: INDEX by sorting on a string key, with UNIQUE off, and then listing in index order gives every record with a key once, sorted by its key
  and then by its number: qindex builds an index that ndxtop and nextndx walk through in this order, and the step behind the last record returns 0. The
  table has less than 2^31 records and at least one key, the keys have the declared length and no NUL (key_ok), the index file is new, and locks are granted. For
  numeric keys nextndx compares bytes, and this does not hold.\<close>
theorem index_then_list:
  assumes "granted s" and "1 \<le> norecpp s" and "fresh_file s" and "fresh_sort v" and "reccnt < 2 ^ 31"
    and "\<forall>i k. 1 \<le> i \<longrightarrow> i \<le> reccnt \<longrightarrow> key_of i = Some k \<longrightarrow> key_ok h k" and "table_keys key_of reccnt \<noteq> []" and "keytyp h = 0"
  shows "\<exists>s' ys. qindex False h key_of reccnt v s = (Inr (), s') \<and> sorted_ents (keycmp h False) ys \<and> mset ys = mset (table_keys key_of reccnt)
    \<and> (\<forall>f k. pagecnt s' \<le> f \<longrightarrow> k \<le> length ys \<longrightarrow>
        (\<exists>t. walk (keycmp h False) (keymem (keylen h)) f False k s' = (Inr (if k < length ys then fst (ys ! k) else 0), t)))"
proof -
  obtain s' ys where q: "qindex False h key_of reccnt v s = (Inr (), s')" "reads_as s' ys" "sorted_ents (keycmp h False) ys"
    "mset ys = mset (table_keys key_of reccnt)" "granted s'" "entry_cnt (disk s' (rootno s')) \<noteq> 0"
    using qindex_index [OF assms(1-7)] by blast
  have "set ys = set (table_keys key_of reccnt)" using q(4) by (rule mset_eq_setD)
  moreover have "key_ok h (snd y)" if "y \<in> set (table_keys key_of reccnt)" for y
    using that assms(6) by (auto simp: table_keys_def List.map_filter_def)
  ultimately have "\<forall>y\<in>set ys. key_ok h (snd y)" by simp
  moreover have "ys \<noteq> []" using q(4) assms(7) by auto
  ultimately show ?thesis
    using walk_strings [OF q(2,5) _ q(3) _ assms(8) _ q(6), where shared = False] q(1,3,4) by blast
qed

lemma index_then_list_witness:
  "\<exists>s' ys. qindex False (str_hdr 1) two_keys 3 new_sort (new_ndx 2) = (Inr (), s') \<and> sorted_ents (keycmp (str_hdr 1) False) ys
    \<and> mset ys = mset (table_keys two_keys 3)
    \<and> (\<forall>f k. pagecnt s' \<le> f \<longrightarrow> k \<le> length ys \<longrightarrow>
        (\<exists>t. walk (keycmp (str_hdr 1) False) (keymem (keylen (str_hdr 1))) f False k s' = (Inr (if k < length ys then fst (ys ! k) else 0), t)))"
  by (rule index_then_list [OF new_ok(3) _ new_ok(2,1) _ two_keys_ok(2)]) (simp_all add: new_ok two_keys_ok(1) str_hdr_def)

end
