(* ===== verification/Table_Header.thy ===== *)
theory Table_Header
  imports C_Text
begin

text \<open>
  The header of a table file: read_db_hdr and write_db_hdr of server/dbe/db.c with the numbers of
  server/hb/port.c, for the formats DB3 and DB5. A file and a buffer are strings of bytes; numbers lie
  in them little endian. The main result is that a header that is written reads back as it was, for
  fields of at most 255 bytes; wider ones do not fit their byte in the file.
\<close>

section \<open>Numbers in a buffer\<close>

fun put_le :: "nat \<Rightarrow> nat \<Rightarrow> string" where
  "put_le 0 n = []"
| "put_le (Suc k) n = char_of (n mod 256) # put_le k (n div 256)"

fun get_le :: "string \<Rightarrow> nat" where
  "get_le [] = 0"
| "get_le (c # cs) = cval c + 256 * get_le cs"

definition byte_at :: "string \<Rightarrow> nat \<Rightarrow> char" where
  \<comment> \<open>buffers are as long as what is read from them\<close>
  "byte_at buf i = (if i < length buf then buf ! i else CHR 0x00)"

definition num_at :: "nat \<Rightarrow> string \<Rightarrow> nat \<Rightarrow> nat" where
  \<comment> \<open>read_word, read_dword and read_lword for k = 2, 4 and 8\<close>
  "num_at k buf i = get_le (map (byte_at buf) [i ..< i + k])"

definition int32 :: "nat \<Rightarrow> int" where
  \<comment> \<open>a DWORD stored in an int\<close>
  "int32 n = sint (of_nat n :: 32 word)"

section \<open>Headers\<close>

abbreviation (input) MKR_MASK :: nat where "MKR_MASK \<equiv> 7"
abbreviation (input) DB3_MKR :: nat where "DB3_MKR \<equiv> 3"
abbreviation (input) DB5_MKR :: nat where "DB5_MKR \<equiv> 5"
abbreviation (input) HD3SZ :: nat where "HD3SZ \<equiv> 32"
abbreviation (input) HDRSZ :: nat where "HDRSZ \<equiv> 64"
abbreviation (input) FLD3WD :: nat where "FLD3WD \<equiv> 32"
abbreviation (input) FLDWD :: nat where "FLDWD \<equiv> 64"
abbreviation (input) FLD3NAMLEN :: nat where "FLD3NAMLEN \<equiv> 10"
abbreviation (input) FLDNAMELEN :: nat where "FLDNAMELEN \<equiv> 20"
abbreviation (input) MAXFLD :: nat where "MAXFLD \<equiv> 1023"
abbreviation (input) MAXRECSZ :: nat where "MAXRECSZ \<equiv> 65536"
abbreviation (input) MAXHDLEN :: nat where "MAXHDLEN \<equiv> 65536"
abbreviation (input) MAXSTRLEN :: nat where "MAXSTRLEN \<equiv> 2046"
abbreviation (input) MAXDIGITS :: nat where "MAXDIGITS \<equiv> 20"
abbreviation (input) DATELEN :: nat where "DATELEN \<equiv> 8"
abbreviation (input) MEMOLEN :: nat where "MEMOLEN \<equiv> 10"
abbreviation (input) EOH :: char where "EOH \<equiv> CHR 0x0d"
abbreviation (input) META_HDR_ALIGN :: nat where "META_HDR_ALIGN \<equiv> 3"
abbreviation (input) MIN_META_LEN :: nat where "MIN_META_LEN \<equiv> 37"

record field =
  fld_name :: string
  fld_type :: char
  fld_tlength :: nat
  fld_dlength :: nat

record table_hdr =
  hd_id :: nat
  hd_reccnt :: nat
  hd_hdlen :: nat
  hd_doffset :: int
  hd_meta_len :: int
  hd_byprec :: nat
  hd_fdlist :: "field list" \<comment> \<open>fldcnt is its length\<close>

definition hd_mkr :: "nat \<Rightarrow> nat" where
  "hd_mkr n = n mod (MKR_MASK + 1)"

definition read_data_offset :: "nat \<Rightarrow> string \<Rightarrow> int" where
  "read_data_offset mkr b =
     (if mkr = DB3_MKR then int (num_at 2 b 8) else if mkr = DB5_MKR then int32 (num_at 4 b 12) else - 1)"

definition read_bytes_per_record :: "nat \<Rightarrow> string \<Rightarrow> int" where
  "read_bytes_per_record mkr b =
     (if mkr = DB3_MKR then int (num_at 2 b 10) else if mkr = DB5_MKR then int32 (num_at 4 b 16) else - 1)"

definition read_record_count :: "nat \<Rightarrow> string \<Rightarrow> nat" where
  "read_record_count mkr b =
     (if mkr = DB3_MKR then num_at 4 b 4 else if mkr = DB5_MKR then num_at 8 b 4 else 2 ^ 64 - 1)"

definition is_valid_field :: "field \<Rightarrow> bool" where
  "is_valid_field f =
     (if fld_type f = CHR ''C'' then fld_dlength f = 0 \<and> 1 \<le> fld_tlength f \<and> fld_tlength f \<le> MAXSTRLEN
      else if fld_type f = CHR ''N'' then 1 \<le> fld_tlength f \<and> fld_tlength f \<le> MAXDIGITS \<and> fld_dlength f < fld_tlength f
      else if fld_type f = CHR ''L'' then fld_dlength f = 0 \<and> fld_tlength f = 1
      else if fld_type f = CHR ''D'' then fld_dlength f = 0 \<and> fld_tlength f = DATELEN
      else if fld_type f = CHR ''M'' then fld_dlength f = 0 \<and> fld_tlength f = MEMOLEN
      else False)"

definition c_str :: "string \<Rightarrow> string" where
  "c_str s = takeWhile (\<lambda>c. c \<noteq> CHR 0x00) s"

definition read_field :: "nat \<Rightarrow> string \<Rightarrow> nat \<Rightarrow> field" where
  \<comment> \<open>fldnamelen and the position tp; the else of read_db_hdr covers tlength only, so dlength is the byte
    behind it in both cases\<close>
  "read_field nl b tp =
     (let ty = byte_at b (tp + nl + 1); b6 = cval (byte_at b (tp + nl + 6)); b7 = cval (byte_at b (tp + nl + 7)) in
      \<lparr>fld_name = c_str (map (byte_at b) [tp ..< tp + nl]), fld_type = ty,
       fld_tlength = (if ty = CHR ''C'' then b7 * 256 + b6 else b6), fld_dlength = b7\<rparr>)"

primrec read_fields :: "nat \<Rightarrow> nat \<Rightarrow> string \<Rightarrow> nat \<Rightarrow> nat \<Rightarrow> nat \<Rightarrow> field list \<Rightarrow> (field list \<times> nat) option" where
  \<comment> \<open>do .. while (fcount < MAXFLD); n fields may follow. None is the return of -1\<close>
  "read_fields nl wd b bufsz 0 tp fs = Some (fs, tp)"
| "read_fields nl wd b bufsz (Suc n) tp fs =
     (if byte_at b tp = EOH \<or> bufsz < tp + wd then Some (fs, tp)
      else
        let f = read_field nl b tp in
        if \<not> is_valid_field f then None else read_fields nl wd b bufsz n (tp + wd) (fs @ [f]))"

definition meta_room :: "int \<Rightarrow> nat \<Rightarrow> nat \<Rightarrow> int" where
  \<comment> \<open>meta_len is an int, but MIN_META_LEN an unsigned long: a negative room is not small\<close>
  "meta_room doffset hdlen fcount =
     (let m = doffset - int hdlen - (if fcount < MAXFLD then int META_HDR_ALIGN else 0)
      in if 0 \<le> m \<and> m < int MIN_META_LEN then 0 else m)"

definition read_db_hdr :: "table_hdr \<Rightarrow> string \<Rightarrow> nat \<Rightarrow> bool \<Rightarrow> table_hdr \<times> int" where
  \<comment> \<open>the header and the return value; the fields of a header that cannot be read are not used\<close>
  "read_db_hdr hdr b bufsz fixed =
     (let n = cval (byte_at b 0); mkr = hd_mkr n; is_db3 = (mkr = DB3_MKR) in
      if mkr \<noteq> DB3_MKR \<and> mkr \<noteq> DB5_MKR then (hdr, - 1)
      else if is_db3 \<and> bufsz < HD3SZ \<or> bufsz < HDRSZ then (hdr, - 1)
      else
        let offset = read_data_offset mkr b; byprec = read_bytes_per_record mkr b in
        if offset < 0 then (hdr, - 1)
        else if byprec < 0 \<or> int MAXRECSZ < byprec then (hdr, - 1)
        else
          let hdr = hdr\<lparr>hd_id := n, hd_reccnt := read_record_count mkr b\<rparr> in
          if hd_reccnt hdr = 2 ^ 64 - 1 then (hdr, - 1)
          else
            let hdr = hdr\<lparr>hd_doffset := offset, hd_byprec := nat byprec\<rparr>;
                nl = (if is_db3 then FLD3NAMLEN else FLDNAMELEN); wd = (if is_db3 then FLD3WD else FLDWD);
                hdrsz = (if is_db3 then HD3SZ else HDRSZ) in
            if fixed then (hdr, int hdrsz)
            else case read_fields nl wd b bufsz MAXFLD hdrsz [] of
              None \<Rightarrow> (hdr, - 1)
            | Some (fs, tp) \<Rightarrow>
                if fs = [] then (hdr, - 1)
                else
                  let hdr = hdr\<lparr>hd_fdlist := fs\<rparr> in
                  if length fs < MAXFLD \<and> byte_at b tp \<noteq> EOH then (hdr, - 1)
                  else
                    let hdlen = (if length fs < MAXFLD then tp + 1 else tp); hdr = hdr\<lparr>hd_hdlen := hdlen\<rparr> in
                    if hd_doffset hdr < int hdlen then (hdr, - 1)
                    else (hdr\<lparr>hd_meta_len := meta_room (hd_doffset hdr) hdlen (length fs)\<rparr>, int hdlen))"

definition zpadded :: "nat \<Rightarrow> string \<Rightarrow> string" where
  \<comment> \<open>the buffer was cleared before\<close>
  "zpadded n s = s @ replicate (n - length s) (CHR 0x00)"

definition write_field :: "nat \<Rightarrow> nat \<Rightarrow> field \<Rightarrow> string" where
  "write_field nl wd f = zpadded wd (zpadded (nl + 1) (take nl (c_str (fld_name f))) @ [fld_type f]
     @ put_le 2 0 @ put_le 2 0 @ put_le 1 (fld_tlength f) @ put_le 1 (fld_dlength f))"

definition write_db_hdr :: "table_hdr \<Rightarrow> nat \<Rightarrow> table_hdr \<times> string option" where
  \<comment> \<open>the header with its doffset adjusted and the bytes up to tp; None is the return of -1. The 80, 1, 1 are
    LEGACY_YY, LEGACY_MM and LEGACY_DD\<close>
  "write_db_hdr hdr bufsz =
     (let mkr = hd_mkr (hd_id hdr); is_db3 = (mkr = DB3_MKR) in
      if mkr \<noteq> DB3_MKR \<and> mkr \<noteq> DB5_MKR then (hdr, None)
      else
        let d = (if hd_doffset hdr < 0 then int MAXHDLEN else hd_doffset hdr); d = max d (int (hd_hdlen hdr));
            hdr = hdr\<lparr>hd_doffset := d\<rparr>;
            nl = (if is_db3 then FLD3NAMLEN else FLDNAMELEN); wd = (if is_db3 then FLD3WD else FLDWD);
            hdrsz = (if is_db3 then HD3SZ else HDRSZ);
            n = length (hd_fdlist hdr) in
        if n \<noteq> 0 \<and> bufsz \<le> hdrsz + n * wd then (hdr, None)
        else (hdr, Some (zpadded hdrsz (put_le 1 (hd_id hdr) @ put_le 1 80 @ put_le 1 1 @ put_le 1 1
            @ (if is_db3 then put_le 4 (hd_reccnt hdr) @ put_le 2 (nat d) @ put_le 2 (hd_byprec hdr)
               else put_le 8 (hd_reccnt hdr) @ put_le 4 (nat d) @ put_le 4 (hd_byprec hdr))
            ) @ concat (map (write_field nl wd) (hd_fdlist hdr)) @ (if n < MAXFLD then [EOH] else []))))"

section \<open>A written header reads back\<close>

lemma length_put_le [simp]: "length (put_le k n) = k"
  by (induction k arbitrary: n) auto

lemma get_put_le: "get_le (put_le k n) = n mod 256 ^ k"
  by (induction k arbitrary: n) (simp_all add: mod_mult2_eq)

lemma byte_at_append: "byte_at (a @ b) i = (if i < length a then byte_at a i else byte_at b (i - length a))"
  by (auto simp: byte_at_def nth_append)

lemma num_at_put: "num_at k (a @ put_le k n @ c) (length a) = n mod 256 ^ k"
proof -
  have "map (byte_at (a @ put_le k n @ c)) [length a ..< length a + k] = put_le k n"
    by (rule nth_equalityI) (auto simp: byte_at_def nth_append)
  then show ?thesis by (simp add: num_at_def get_put_le)
qed

lemma c_str_padded: "CHR 0x00 \<notin> set w \<Longrightarrow> c_str (w @ replicate n (CHR 0x00)) = w"
  by (induction w) (auto simp: c_str_def)

lemma c_str_id: "CHR 0x00 \<notin> set w \<Longrightarrow> c_str w = w"
  by (induction w) (auto simp: c_str_def)

lemma length_zpadded: "length (zpadded n s) = max n (length s)"
  by (simp add: zpadded_def)

definition name_ok :: "nat \<Rightarrow> string \<Rightarrow> bool" where
  "name_ok nl s \<longleftrightarrow> length s \<le> nl \<and> CHR 0x00 \<notin> set s \<and> s \<noteq> [] \<and> hd s \<noteq> EOH"

definition field_ok :: "nat \<Rightarrow> field \<Rightarrow> bool" where
  "field_ok nl f \<longleftrightarrow> is_valid_field f \<and> fld_tlength f < 256 \<and> name_ok nl (fld_name f)"

lemma write_field_parts:
  assumes "name_ok nl (fld_name f)"
  shows "write_field nl wd f = zpadded wd (fld_name f @ replicate (nl + 1 - length (fld_name f)) (CHR 0x00) @ [fld_type f]
     @ put_le 2 0 @ put_le 2 0 @ put_le 1 (fld_tlength f) @ put_le 1 (fld_dlength f))"
  using assms by (simp add: write_field_def zpadded_def name_ok_def c_str_id)

lemma read_write_valid:
  assumes f: "name_ok nl (fld_name f)" "is_valid_field f" and wd: "nl + 8 \<le> wd"
  shows "read_field nl (a @ write_field nl wd f @ c) (length a) = f\<lparr>fld_tlength := fld_tlength f mod 256\<rparr>"
    and "byte_at (a @ write_field nl wd f @ c) (length a) \<noteq> EOH" and "length (write_field nl wd f) = wd"
proof -
  let ?w = "fld_name f @ replicate (nl + 1 - length (fld_name f)) (CHR 0x00)"
  let ?v = "write_field nl wd f" and ?n = "length (fld_name f)"
  have nm: "?n \<le> nl" "CHR 0x00 \<notin> set (fld_name f)" "fld_name f \<noteq> []" "hd (fld_name f) \<noteq> EOH" using f by (simp_all add: name_ok_def)
  have v: "?v = (?w @ [fld_type f] @ put_le 2 0 @ put_le 2 0 @ put_le 1 (fld_tlength f) @ put_le 1 (fld_dlength f))
      @ replicate (wd - (nl + 8)) (CHR 0x00)"
    unfolding write_field_parts [OF f(1)] zpadded_def using nm(1) by simp
  show l: "length ?v = wd" unfolding v using nm(1) wd by simp
  have at: "byte_at (a @ ?v @ c) (length a + i) = ?v ! i" if "i < wd" for i
    using that l by (simp add: byte_at_def nth_append)
  have w: "?v ! i = ?w ! i" if "i < nl + 1" for i unfolding v using that nm(1) by (auto simp: nth_append)
  have "map (byte_at (a @ ?v @ c)) [length a ..< length a + nl] = take nl ?w"
  proof (rule nth_equalityI)
    fix j assume "j < length (map (byte_at (a @ ?v @ c)) [length a ..< length a + nl])"
    then have j: "j < nl" by simp
    then have "map (byte_at (a @ ?v @ c)) [length a ..< length a + nl] ! j = ?w ! j" using at [of j] w [of j] wd by simp
    also have "?w ! j = take nl ?w ! j" using j by (rule nth_take [symmetric])
    finally show "map (byte_at (a @ ?v @ c)) [length a ..< length a + nl] ! j = take nl ?w ! j" .
  qed (use nm(1) in simp)
  also have "take nl ?w = fld_name f @ replicate (nl - ?n) (CHR 0x00)" using nm(1) by simp
  finally have name: "c_str (map (byte_at (a @ ?v @ c)) [length a ..< length a + nl]) = fld_name f"
    using nm(2) by (simp add: c_str_padded)
  have b: "?v ! (nl + 1) = fld_type f" "?v ! (nl + 6) = char_of (fld_tlength f mod 256)" "?v ! (nl + 7) = char_of (fld_dlength f)"
  proof -
    let ?X = "[fld_type f, CHR 0x00, CHR 0x00, CHR 0x00, CHR 0x00, char_of (fld_tlength f mod 256), char_of (fld_dlength f mod 256)]
      @ replicate (wd - (nl + 8)) (CHR 0x00)"
    have "put_le 2 0 = [CHR 0x00, CHR 0x00]" "put_le 1 n = [char_of (n mod 256)]" for n
      by (simp_all add: numeral_2_eq_2 char_of_def)
    then have "?v = ?w @ ?X" unfolding v by simp
    moreover have "length ?w = nl + 1" using nm(1) by simp
    ultimately have "?v ! (nl + 1 + i) = ?X ! i" for i by (metis nth_append_length_plus)
    from this [of 0] this [of 5] this [of 6]
    show "?v ! (nl + 1) = fld_type f" "?v ! (nl + 6) = char_of (fld_tlength f mod 256)" "?v ! (nl + 7) = char_of (fld_dlength f)"
      by (simp_all add: add.commute)
  qed
  have d: "fld_dlength f < 256" "fld_type f = CHR ''C'' \<longrightarrow> fld_dlength f = 0"
    using f(2) by (auto simp: is_valid_field_def split: if_splits)
  show "read_field nl (a @ ?v @ c) (length a) = f\<lparr>fld_tlength := fld_tlength f mod 256\<rparr>"
  proof -
    have t: "byte_at (a @ ?v @ c) (length a + nl + 1) = fld_type f"
      "cval (byte_at (a @ ?v @ c) (length a + nl + 6)) = fld_tlength f mod 256"
      "cval (byte_at (a @ ?v @ c) (length a + nl + 7)) = fld_dlength f"
      using b d wd at [of "nl + 1"] at [of "nl + 6"] at [of "nl + 7"] by (simp_all add: add.assoc)
    show ?thesis unfolding read_field_def Let_def t name using d(2) by (intro field.equality) auto
  qed
  show "byte_at (a @ ?v @ c) (length a) \<noteq> EOH"
    using at [of 0] w [of 0] wd nm(3,4) by (simp add: nth_append hd_conv_nth)
qed

lemma read_write_field:
  assumes f: "field_ok nl f" and wd: "nl + 8 \<le> wd"
  shows "read_field nl (a @ write_field nl wd f @ c) (length a) = f"
    and "byte_at (a @ write_field nl wd f @ c) (length a) \<noteq> EOH" and "length (write_field nl wd f) = wd"
proof -
  have "name_ok nl (fld_name f)" "is_valid_field f" "fld_tlength f < 256" using f by (simp_all add: field_ok_def)
  then show "read_field nl (a @ write_field nl wd f @ c) (length a) = f"
    "byte_at (a @ write_field nl wd f @ c) (length a) \<noteq> EOH" "length (write_field nl wd f) = wd"
    using read_write_valid [OF _ _ wd] by simp_all
qed

lemma read_fields_app:
  assumes "\<forall>f\<in>set gs. field_ok nl f" and wd: "nl + 8 \<le> wd" and "length gs \<le> n"
    and "length a + length gs * wd \<le> bufsz" and "length gs < n \<longrightarrow> c \<noteq> [] \<and> hd c = EOH"
  shows "read_fields nl wd (a @ concat (map (write_field nl wd) gs) @ c) bufsz n (length a) fs
    = Some (fs @ gs, length a + length gs * wd)"
  using assms(1,3-5)
proof (induction gs arbitrary: a n fs)
  case Nil
  then show ?case by (cases n) (auto simp: byte_at_def nth_append hd_conv_nth)
next
  case (Cons g gs)
  obtain m where n: "n = Suc m" using Cons.prems(2) by (cases n) auto
  have g: "field_ok nl g" using Cons.prems(1) by simp
  then have ok: "is_valid_field g" by (simp add: field_ok_def)
  note rw3 = read_write_field(3) [OF g wd] and rw = read_write_field(1,2) [OF g wd, where a = a and c = "concat (map (write_field nl wd) gs) @ c"]
  have "read_fields nl wd ((a @ write_field nl wd g) @ concat (map (write_field nl wd) gs) @ c) bufsz m (length (a @ write_field nl wd g)) (fs @ [g])
    = Some ((fs @ [g]) @ gs, length (a @ write_field nl wd g) + length gs * wd)"
    by (rule Cons.IH) (use Cons.prems n rw3 in auto)
  then show ?case using rw rw3 ok Cons.prems(3) n by (simp add: Let_def)
qed

definition hdr_ok :: "table_hdr \<Rightarrow> bool" where
  \<comment> \<open>what dbcreate makes and the file can hold\<close>
  "hdr_ok h \<longleftrightarrow>
     (let is_db3 = (hd_mkr (hd_id h) = DB3_MKR); nl = (if is_db3 then FLD3NAMLEN else FLDNAMELEN); n = length (hd_fdlist h) in
      (is_db3 \<or> hd_mkr (hd_id h) = DB5_MKR) \<and> hd_id h < 256
      \<and> (if is_db3 then hd_reccnt h < 2 ^ 32 \<and> hd_doffset h < 2 ^ 16 \<and> hd_byprec h < 2 ^ 16
         else hd_reccnt h < 2 ^ 64 - 1 \<and> hd_doffset h < 2 ^ 31 \<and> hd_byprec h \<le> MAXRECSZ)
      \<and> 1 \<le> n \<and> n \<le> MAXFLD \<and> (\<forall>f\<in>set (hd_fdlist h). field_ok nl f)
      \<and> hd_hdlen h = (if is_db3 then HD3SZ else HDRSZ) + n * (if is_db3 then FLD3WD else FLDWD) + (if n < MAXFLD then 1 else 0)
      \<and> int (hd_hdlen h) \<le> hd_doffset h \<and> hd_meta_len h = meta_room (hd_doffset h) (hd_hdlen h) n)"

lemma int32_small: "n < 2 ^ 31 \<Longrightarrow> int32 n = int n"
  by (simp add: int32_def signed_of_nat signed_take_bit_int_eq_self)

definition fixed_part :: "nat \<Rightarrow> nat \<Rightarrow> nat \<Rightarrow> nat \<Rightarrow> nat \<Rightarrow> nat \<Rightarrow> nat \<Rightarrow> string" where
  "fixed_part sz i k cnt kd d b = zpadded sz (put_le 1 i @ put_le 1 80 @ put_le 1 1 @ put_le 1 1 @ put_le k cnt @ put_le kd d @ put_le kd b)"

lemma fixed_part_reads:
  assumes "4 + k + kd + kd \<le> sz"
  shows "byte_at (fixed_part sz i k cnt kd d b @ c) 0 = char_of (i mod 256)"
    and "num_at k (fixed_part sz i k cnt kd d b @ c) 4 = cnt mod 256 ^ k"
    and "num_at kd (fixed_part sz i k cnt kd d b @ c) (4 + k) = d mod 256 ^ kd"
    and "num_at kd (fixed_part sz i k cnt kd d b @ c) (4 + k + kd) = b mod 256 ^ kd"
    and "length (fixed_part sz i k cnt kd d b) = sz"
proof -
  define H where "H = put_le 1 i @ put_le 1 80 @ put_le 1 1 @ put_le 1 1"
  let ?z = "replicate (sz - (4 + k + kd + kd)) (CHR 0x00) @ c"
  have e: "fixed_part sz i k cnt kd d b @ c = H @ put_le k cnt @ put_le kd d @ put_le kd b @ ?z"
    by (simp add: fixed_part_def zpadded_def H_def)
  have l: "length H = 4" "H ! 0 = char_of (i mod 256)" by (simp_all add: H_def)
  show "byte_at (fixed_part sz i k cnt kd d b @ c) 0 = char_of (i mod 256)" using l by (simp add: e byte_at_def nth_append)
  show "num_at k (fixed_part sz i k cnt kd d b @ c) 4 = cnt mod 256 ^ k"
    using num_at_put [of k H cnt] l(1) by (simp add: e)
  show "num_at kd (fixed_part sz i k cnt kd d b @ c) (4 + k) = d mod 256 ^ kd"
    using num_at_put [of kd "H @ put_le k cnt" d "put_le kd b @ ?z"] l(1) by (simp add: e)
  show "num_at kd (fixed_part sz i k cnt kd d b @ c) (4 + k + kd) = b mod 256 ^ kd"
    using num_at_put [of kd "H @ put_le k cnt @ put_le kd d" b ?z] l(1) by (simp add: e add.assoc)
  show "length (fixed_part sz i k cnt kd d b) = sz" using assms by (simp add: fixed_part_def length_zpadded)
qed

lemma hdr_roundtrip:
  assumes ok: "hdr_ok h" and w: "write_db_hdr h bufsz = (h', Some w)" and m: "length w \<le> m"
  shows "h' = h" and "read_db_hdr h0 (w @ r) m False = (h, int (hd_hdlen h))" and "int (length w) \<le> hd_doffset h"
    and "length w = hd_hdlen h"
proof -
  let ?n = "length (hd_fdlist h)" and ?d = "nat (hd_doffset h)"
  define db3 where "db3 \<longleftrightarrow> hd_mkr (hd_id h) = DB3_MKR"
  define nl where "nl = (if db3 then FLD3NAMLEN else FLDNAMELEN)"
  define wd where "wd = (if db3 then FLD3WD else FLDWD)"
  define hz where "hz = (if db3 then HD3SZ else HDRSZ)"
  define k where "k = (if db3 then 4 else 8 :: nat)"
  define kd where "kd = (if db3 then 2 else 4 :: nat)"
  note defs = db3_def nl_def wd_def hz_def k_def kd_def
  let ?F = "fixed_part hz (hd_id h) k (hd_reccnt h) kd ?d (hd_byprec h)" and ?G = "concat (map (write_field nl wd) (hd_fdlist h))"
    and ?E = "if ?n < MAXFLD then [EOH] else []"
  have o: "1 \<le> ?n" "?n \<le> MAXFLD" "\<forall>f\<in>set (hd_fdlist h). field_ok nl f" "hd_id h < 256" "int (hd_hdlen h) \<le> hd_doffset h"
    "hd_hdlen h = hz + ?n * wd + (if ?n < MAXFLD then 1 else 0)" "hd_meta_len h = meta_room (hd_doffset h) (hd_hdlen h) ?n"
    "db3 \<or> hd_mkr (hd_id h) = DB5_MKR"
    using ok unfolding hdr_ok_def Let_def defs by blast+
  have bounds: "hd_reccnt h < 256 ^ k" "?d < 256 ^ kd" "hd_byprec h < 256 ^ kd" "hd_byprec h \<le> MAXRECSZ" "\<not> db3 \<longrightarrow> hd_doffset h < 2 ^ 31"
    "hd_reccnt h \<noteq> 2 ^ 64 - 1"
    using ok o(5) by (auto simp: hdr_ok_def Let_def defs split: if_splits)
  have h': "h\<lparr>hd_doffset := hd_doffset h\<rparr> = h" "max (hd_doffset h) (int (hd_hdlen h)) = hd_doffset h" "\<not> hd_doffset h < 0"
    using o(5) by simp_all
  have we: "h' = h \<and> w = ?F @ ?G @ ?E"
  proof (cases db3)
    case True
    then show ?thesis using w o(1) h' by (auto simp: write_db_hdr_def Let_def fixed_part_def defs split: if_splits)
  next
    case False
    then show ?thesis using w o(1,8) h' by (auto simp: write_db_hdr_def Let_def fixed_part_def defs split: if_splits)
  qed
  show "h' = h" using we ..
  have sz: "4 + k + kd + kd \<le> hz" "nl + 8 \<le> wd" by (simp_all add: defs)
  note fp = fixed_part_reads(1-4) [OF sz(1), where c = "(?G @ ?E) @ r" and i = "hd_id h" and cnt = "hd_reccnt h" and d = ?d and b = "hd_byprec h"]
    and lF = fixed_part_reads(5) [OF sz(1), where i = "hd_id h" and cnt = "hd_reccnt h" and d = ?d and b = "hd_byprec h"]
  have lG: "length ?G = ?n * wd"
  proof -
    have "\<forall>f\<in>set (hd_fdlist h). length (write_field nl wd f) = wd" using o(3) read_write_field(3) [OF _ sz(2)] by blast
    then show ?thesis by (induction "hd_fdlist h" rule: list.induct; simp add: length_concat sum_list_triv cong: map_cong)
  qed
  show lw: "length w = hd_hdlen h" using we lF lG o(6) by simp
  then show "int (length w) \<le> hd_doffset h" using o(5) by simp
  have W: "w @ r = ?F @ (?G @ ?E) @ r" using we by simp
  have d: "read_data_offset (hd_mkr (hd_id h)) (w @ r) = hd_doffset h"
    unfolding read_data_offset_def W using fp(3) bounds o(5,8) by (cases db3) (auto simp: defs int32_small)
  have b: "read_bytes_per_record (hd_mkr (hd_id h)) (w @ r) = int (hd_byprec h)"
    unfolding read_bytes_per_record_def W using fp(4) bounds o(8) by (cases db3) (auto simp: defs int32_small)
  have c: "read_record_count (hd_mkr (hd_id h)) (w @ r) = hd_reccnt h"
    unfolding read_record_count_def W using fp(2) bounds o(8) by (cases db3) (auto simp: defs)
  have i: "cval (byte_at (w @ r) 0) = hd_id h" unfolding W fp(1) using o(4) by simp
  have f: "read_fields nl wd (w @ r) m MAXFLD hz [] = Some (hd_fdlist h, hz + ?n * wd)"
  proof -
    have "read_fields nl wd (?F @ ?G @ (?E @ r)) m MAXFLD (length ?F) [] = Some ([] @ hd_fdlist h, length ?F + ?n * wd)"
      by (rule read_fields_app) (use o(2,3) sz(2) m lw o(6) lF in \<open>auto split: if_splits\<close>)
    then show ?thesis unfolding W using lF by simp
  qed
  have e: "?n < MAXFLD \<longrightarrow> byte_at (w @ r) (hz + ?n * wd) = EOH"
    unfolding W using lF lG by (auto simp: byte_at_def nth_append)
  show "read_db_hdr h0 (w @ r) m False = (h, int (hd_hdlen h))"
  proof (cases db3)
    case True
    have z: "HDRSZ \<le> m" using lw m o(1,6) True by (simp add: defs split: if_splits)
    show ?thesis using True z o(1,2,5,6,7) bounds(4,6) f e h'
      unfolding read_db_hdr_def Let_def i d b c by (cases h; cases h0; auto simp: defs)
  next
    case False
    have z: "HDRSZ \<le> m" using lw m o(6) False by (simp add: defs split: if_splits)
    show ?thesis using False z o(1,2,5,6,7,8) bounds(4,6) f e h'
      unfolding read_db_hdr_def Let_def i d b c by (cases h; cases h0; auto simp: defs)
  qed
qed

text \<open>C11: A table header made by the server reads back as it was written: write_db_hdr leaves it unchanged and
writes exactly hdlen bytes, which end before the data, and read_db_hdr on those bytes, whatever follows them,
gives the same format, record count, offsets, record length, fields and room for meta data, as long as no
field is wider than 255 bytes.\<close>
theorem header_roundtrip:
  assumes "hdr_ok h" and "write_db_hdr h bufsz = (h', Some w)" and "length w \<le> m"
  shows "h' = h \<and> length w = hd_hdlen h \<and> int (length w) \<le> hd_doffset h \<and> read_db_hdr h0 (w @ r) m False = (h, int (hd_hdlen h))"
  using hdr_roundtrip [OF assms] by blast

definition sample_hdr :: table_hdr where
  "sample_hdr = \<lparr>hd_id = 3, hd_reccnt = 7, hd_hdlen = 97, hd_doffset = 200, hd_meta_len = 100, hd_byprec = 9,
     hd_fdlist = [\<lparr>fld_name = ''A'', fld_type = CHR ''C'', fld_tlength = 3, fld_dlength = 0\<rparr>,
       \<lparr>fld_name = ''BC'', fld_type = CHR ''N'', fld_tlength = 5, fld_dlength = 2\<rparr>]\<rparr>"

theorem header_roundtrip_witness:
  "\<exists>w. write_db_hdr sample_hdr 1000 = (sample_hdr, Some w) \<and> length w = 97 \<and> read_db_hdr sample_hdr (w @ ''xyz'') 97 False = (sample_hdr, 97)"
proof -
  have "\<exists>w. write_db_hdr sample_hdr 1000 = (sample_hdr, Some w) \<and> length w = 97"
    by (simp add: write_db_hdr_def sample_hdr_def hd_mkr_def Let_def length_zpadded write_field_def length_concat del: One_nat_def put_le.simps)
  then obtain w where w: "write_db_hdr sample_hdr 1000 = (sample_hdr, Some w)" "length w = 97" by blast
  have "hdr_ok sample_hdr"
    by (simp add: hdr_ok_def sample_hdr_def hd_mkr_def field_ok_def is_valid_field_def name_ok_def meta_room_def)
  from header_roundtrip [OF this w(1), of 97 sample_hdr "''xyz''"] show ?thesis using w by (simp add: sample_hdr_def)
qed

text \<open>C40: A character field may be up to 2046 bytes wide, and the reader takes its width from two bytes, but the
writer stores the width in one byte and zero in the other: a valid field reads back with its width modulo 256.\<close>
theorem wide_field_cut:
  assumes "is_valid_field f" and "name_ok nl (fld_name f)" and "nl + 8 \<le> wd"
  shows "read_field nl (a @ write_field nl wd f @ c) (length a) = f\<lparr>fld_tlength := fld_tlength f mod 256\<rparr>"
  using read_write_valid(1) [OF assms(2,1,3)] .

theorem wide_field_cut_witness:
  "read_field FLDNAMELEN (write_field FLDNAMELEN FLDWD \<lparr>fld_name = ''NOTE'', fld_type = CHR ''C'', fld_tlength = 300, fld_dlength = 0\<rparr>) 0
     = \<lparr>fld_name = ''NOTE'', fld_type = CHR ''C'', fld_tlength = 44, fld_dlength = 0\<rparr>"
  using wide_field_cut [of "\<lparr>fld_name = ''NOTE'', fld_type = CHR ''C'', fld_tlength = 300, fld_dlength = 0\<rparr>" FLDNAMELEN FLDWD "[]" "[]"]
  by (simp add: is_valid_field_def name_ok_def)

end
