(* ===== verification/Locks.thy ===== *)
theory Locks
  imports Prelude
begin

text \<open>
  Record and file locks: server/dbe/lock.c, with the locking part of s_open (server/dbe/fio.c).
  Every client is a process of its own with a lock state for its table; what they share is the
  table of byte-range locks that the kernel keeps for a file (fcntl F_SETLK and F_GETLK, as POSIX
  defines them). The main result is the protocol's safety: two clients never both believe that they
  hold a record for writing. Offsets are unbounded numbers here, off_t in the code.
\<close>

section \<open>The kernel's locks on one file\<close>

record seg =
  seg_pid :: nat
  seg_start :: nat
  seg_end :: "nat option" \<comment> \<open>None: to the end of the file and beyond\<close>
  seg_wr :: bool

type_synonym kernel = "seg list"

definition covers :: "seg \<Rightarrow> nat \<Rightarrow> bool" where
  "covers g b \<longleftrightarrow> seg_start g \<le> b \<and> (case seg_end g of None \<Rightarrow> True | Some e \<Rightarrow> b < e)"

definition before_end :: "nat \<Rightarrow> nat option \<Rightarrow> bool" where
  "before_end b e = (case e of None \<Rightarrow> True | Some n \<Rightarrow> b < n)"

definition overlaps :: "nat \<Rightarrow> nat option \<Rightarrow> seg \<Rightarrow> bool" where
  "overlaps s e g \<longleftrightarrow> before_end (max s (seg_start g)) e \<and> before_end (max s (seg_start g)) (seg_end g)"

definition conflicts :: "nat \<Rightarrow> nat \<Rightarrow> nat option \<Rightarrow> bool \<Rightarrow> kernel \<Rightarrow> bool" where
  "conflicts me s e wr k \<longleftrightarrow> list_ex (\<lambda>g. seg_pid g \<noteq> me \<and> (wr \<or> seg_wr g) \<and> overlaps s e g) k"

definition min_end :: "nat option \<Rightarrow> nat \<Rightarrow> nat" where
  "min_end e n = (case e of None \<Rightarrow> n | Some m \<Rightarrow> min m n)"

definition cut :: "nat \<Rightarrow> nat option \<Rightarrow> seg \<Rightarrow> kernel" where
  \<comment> \<open>what is left of g outside the range\<close>
  "cut s e g =
     (if seg_start g < s then [g\<lparr>seg_end := Some (min_end (seg_end g) s)\<rparr>] else [])
     @ (case e of
          None \<Rightarrow> []
        | Some n \<Rightarrow> if before_end (max n (seg_start g)) (seg_end g) then [g\<lparr>seg_start := max n (seg_start g)\<rparr>] else [])"

definition unlock_range :: "nat \<Rightarrow> nat \<Rightarrow> nat option \<Rightarrow> kernel \<Rightarrow> kernel" where
  "unlock_range me s e k = concat (map (\<lambda>g. if seg_pid g = me then cut s e g else [g]) k)"

definition lock_range :: "nat \<Rightarrow> nat \<Rightarrow> nat option \<Rightarrow> bool \<Rightarrow> kernel \<Rightarrow> kernel option" where
  \<comment> \<open>F_SETLK: the lock replaces what the process holds in the range, unless another one conflicts\<close>
  "lock_range me s e wr k =
     (if conflicts me s e wr k then None
      else Some (\<lparr>seg_pid = me, seg_start = s, seg_end = e, seg_wr = wr\<rparr> # unlock_range me s e k))"

definition held :: "kernel \<Rightarrow> nat \<Rightarrow> nat \<Rightarrow> bool \<Rightarrow> bool" where
  "held k p b wr \<longleftrightarrow> (\<exists>g \<in> set k. seg_pid g = p \<and> covers g b \<and> seg_wr g = wr)"

definition exclusion :: "kernel \<Rightarrow> bool" where
  "exclusion k \<longleftrightarrow> (\<forall>p q b wr. held k p b True \<longrightarrow> held k q b wr \<longrightarrow> p = q)"

definition in_range :: "nat \<Rightarrow> nat option \<Rightarrow> nat \<Rightarrow> bool" where
  "in_range s e b \<longleftrightarrow> s \<le> b \<and> before_end b e"

lemma covers_cut: "(\<exists>h \<in> set (cut s e g). covers h b) \<longleftrightarrow> covers g b \<and> \<not> in_range s e b"
  by (auto simp: cut_def covers_def in_range_def before_end_def min_end_def split: option.splits if_splits)

lemma cut_same: "h \<in> set (cut s e g) \<Longrightarrow> seg_pid h = seg_pid g \<and> seg_wr h = seg_wr g"
  by (auto simp: cut_def split: option.splits if_splits)

lemma held_unlock_range:
  "held (unlock_range me s e k) p b wr \<longleftrightarrow> held k p b wr \<and> (p = me \<longrightarrow> \<not> in_range s e b)"
proof
  assume "held (unlock_range me s e k) p b wr"
  then obtain h g where g: "g \<in> set k" "h \<in> set (if seg_pid g = me then cut s e g else [g])"
    "seg_pid h = p" "covers h b" "seg_wr h = wr"
    by (auto simp: held_def unlock_range_def)
  show "held k p b wr \<and> (p = me \<longrightarrow> \<not> in_range s e b)"
  proof (cases "seg_pid g = me")
    case True
    then have "h \<in> set (cut s e g)" using g(2) by simp
    then have "covers g b \<and> \<not> in_range s e b" "seg_pid g = p" "seg_wr g = wr"
      using covers_cut [of s e g b] cut_same [of h s e g] g(3-5) by auto
    then show ?thesis using g(1) by (auto simp: held_def)
  next
    case False
    then show ?thesis using g by (auto simp: held_def)
  qed
next
  assume *: "held k p b wr \<and> (p = me \<longrightarrow> \<not> in_range s e b)"
  then obtain g where g: "g \<in> set k" "seg_pid g = p" "covers g b" "seg_wr g = wr"
    by (auto simp: held_def)
  show "held (unlock_range me s e k) p b wr"
  proof (cases "p = me")
    case True
    then have "\<not> in_range s e b" using * by simp
    then obtain h where h: "h \<in> set (cut s e g)" "covers h b" using covers_cut [of s e g b] g(3) by blast
    then have "h \<in> set (unlock_range me s e k)"
      using g True by (auto simp: unlock_range_def)
    then show ?thesis using h cut_same [OF h(1)] g unfolding held_def by metis
  next
    case False
    then show ?thesis using g by (auto simp: held_def unlock_range_def)
  qed
qed

lemma held_lock_range:
  "lock_range me s e w k = Some k' \<Longrightarrow>
   held k' p b wr \<longleftrightarrow> (if p = me \<and> in_range s e b then wr = w else held k p b wr)"
proof -
  assume "lock_range me s e w k = Some k'"
  then have k': "k' = \<lparr>seg_pid = me, seg_start = s, seg_end = e, seg_wr = w\<rparr> # unlock_range me s e k"
    by (simp add: lock_range_def split: if_splits)
  have "held k' p b wr \<longleftrightarrow> (me = p \<and> in_range s e b \<and> w = wr) \<or> held (unlock_range me s e k) p b wr"
    by (simp add: k' held_def covers_def in_range_def before_end_def)
  then show ?thesis by (auto simp: held_unlock_range)
qed

lemma no_conflict:
  assumes "\<not> conflicts me s e w k" and "held k q b wr" and "in_range s e b" and "q \<noteq> me"
  shows "\<not> w \<and> \<not> wr"
proof -
  obtain g where g: "g \<in> set k" "seg_pid g = q" "covers g b" "seg_wr g = wr"
    using assms(2) by (auto simp: held_def)
  have "overlaps s e g"
    using g(3) assms(3) by (auto simp: overlaps_def covers_def in_range_def before_end_def split: option.splits)
  then show ?thesis using assms(1,4) g by (auto simp: conflicts_def list_ex_iff)
qed

lemma exclusion_unlock: "exclusion k \<Longrightarrow> exclusion (unlock_range me s e k)"
  by (auto simp: exclusion_def held_unlock_range)

lemma exclusion_lock:
  assumes "exclusion k" and l: "lock_range me s e w k = Some k'"
  shows "exclusion k'"
proof -
  have n: "\<not> conflicts me s e w k" using l by (simp add: lock_range_def split: if_splits)
  show ?thesis
    unfolding exclusion_def
  proof (intro allI impI)
    fix p q b wr
    assume 1: "held k' p b True" and 2: "held k' q b wr"
    show "p = q"
    proof (cases "in_range s e b \<and> (p = me \<or> q = me)")
      case True
      then show ?thesis
        using 1 2 no_conflict [OF n, of q b wr] no_conflict [OF n, of p b True]
        by (auto simp: held_lock_range [OF l] split: if_splits)
    next
      case False
      then have "held k p b True" "held k q b wr"
        using 1 2 by (auto simp: held_lock_range [OF l] split: if_splits)
      then show ?thesis using assms(1) by (auto simp: exclusion_def)
    qed
  qed
qed

section \<open>The state of a client\<close>

datatype lock_type = HB_UNLCK | HB_RDLCK | HB_WRLCK | HB_FWLCK | HB_FRLCK

record client =
  in_use :: bool
  is_readonly :: bool
  is_exclusive :: bool
  is_denywrite :: bool
  do_fsync :: bool
  lock_recno :: nat
  lock_type :: lock_type
  lock_mode :: nat
  byprec :: nat
  doffset :: nat

type_synonym 'a lm = "(client \<times> kernel, 'a) cm"

abbreviation (input) LRETRY :: nat where
  "LRETRY \<equiv> 100"
abbreviation (input) HD3SZ :: nat where
  "HD3SZ \<equiv> 32"
abbreviation (input) HDRSZ :: nat where
  "HDRSZ \<equiv> 64"

definition range_end :: "nat \<Rightarrow> nat \<Rightarrow> nat option" where
  \<comment> \<open>l_len 0 is to the end of the file\<close>
  "range_end offset len = (if len = 0 then None else Some (offset + len))"

definition setlk :: "nat \<Rightarrow> nat \<Rightarrow> nat \<Rightarrow> lock_type \<Rightarrow> int lm" where
  \<comment> \<open>fcntl(fd, F_SETLK, ..)\<close>
  "setlk me offset len type = (\<lambda>(c, k).
     if type = HB_UNLCK then (Inr 0, (c, unlock_range me offset (range_end offset len) k))
     else case lock_range me offset (range_end offset len) (type = HB_WRLCK) k of
            None \<Rightarrow> (Inr (- 1), (c, k))
          | Some k' \<Rightarrow> (Inr 0, (c, k')))"

definition rlock :: "nat \<Rightarrow> nat \<Rightarrow> nat \<Rightarrow> lock_type \<Rightarrow> int lm" where
  "rlock me offset len type =
     (if type = HB_RDLCK \<or> type = HB_WRLCK \<or> type = HB_UNLCK then setlk me offset len type
      else raise (Dbe UNKNOWNLOCK))"

definition is_rec_locked :: "client \<Rightarrow> nat \<Rightarrow> lock_type \<Rightarrow> bool" where
  "is_rec_locked c recno type \<longleftrightarrow>
     type = HB_WRLCK \<and> lock_type c = HB_FWLCK
     \<or> type = HB_RDLCK \<and> (lock_type c = HB_FWLCK \<or> lock_type c = HB_FRLCK)
     \<or> (lock_recno c = 0 \<or> lock_recno c = recno) \<and> (lock_type c = type \<or> lock_type c = HB_WRLCK)"

primrec lock_loop :: "(nat \<Rightarrow> kernel \<Rightarrow> kernel) \<Rightarrow> int lm \<Rightarrow> bool \<Rightarrow> nat \<Rightarrow> int lm" where
  \<comment> \<open>attempts; wait tells what the other processes do to the kernel's locks during usleep\<close>
  "lock_loop wait attempt do_retry 0 = ret (- 1)"
| "lock_loop wait attempt do_retry (Suc n) =
     bnd attempt (\<lambda>rc.
       if 0 \<le> rc \<or> \<not> do_retry then ret rc
       else bnd (modst (\<lambda>(c, k). (c, wait n k))) (\<lambda>_. lock_loop wait attempt do_retry n))"

definition rec_offset :: "client \<Rightarrow> nat \<Rightarrow> nat" where
  "rec_offset c recno = (recno - 1) * byprec c + doffset c"

definition r_lock :: "nat \<Rightarrow> (nat \<Rightarrow> kernel \<Rightarrow> kernel) \<Rightarrow> nat \<Rightarrow> lock_type \<Rightarrow> bool \<Rightarrow> int lm" where
  "r_lock me wait recno type do_retry =
     bnd (getst fst) (\<lambda>c.
       if \<not> in_use c then ret (- 1)
       else if recno = 0 then ret (- 1)
       else if is_readonly c \<and> type = HB_WRLCK then ret (- 1)
       else if is_exclusive c then ret 0
       else if is_denywrite c \<and> type = HB_RDLCK then ret 0
       else if is_rec_locked c recno type then ret 0
       else
         bnd (lock_loop wait (rlock me (rec_offset c recno) (byprec c) type) do_retry LRETRY) (\<lambda>rc.
         bnd (modst (\<lambda>(c, k). if rc = 0
                then (c\<lparr>lock_recno := recno, lock_type := type,
                        lock_mode := (if type = HB_UNLCK then 0 else lock_mode c)\<rparr>, k)
                else (c, k))) (\<lambda>_. ret rc)))"

definition unlock_all :: "nat \<Rightarrow> unit lm" where
  \<comment> \<open>the body of the loop, for one table\<close>
  "unlock_all me =
     bnd (getst fst) (\<lambda>c.
       if in_use c then
         bnd (setlk me 0 0 HB_UNLCK) (\<lambda>_.
         modst (\<lambda>(c, k). (c\<lparr>lock_type := HB_UNLCK, lock_recno := 0, lock_mode := 0\<rparr>, k)))
       else ret ())"

definition f_unlock :: "nat \<Rightarrow> unit lm" where
  "f_unlock me =
     bnd (getst fst) (\<lambda>c.
       if is_exclusive c \<or> is_denywrite c then ret ()
       else bnd (setlk me 0 0 HB_UNLCK) (\<lambda>rc.
         if rc = 0 then modst (\<lambda>(c, k). (c\<lparr>lock_type := HB_UNLCK, do_fsync := True\<rparr>, k)) else ret ()))"

definition f_lock :: "nat \<Rightarrow> (nat \<Rightarrow> kernel \<Rightarrow> kernel) \<Rightarrow> bool \<Rightarrow> int lm" where
  "f_lock me wait ex =
     bnd (getst fst) (\<lambda>c.
       if \<not> in_use c then ret (- 1)
       else if is_readonly c \<and> ex then ret (- 1)
       else if is_exclusive c \<or> lock_type c = HB_FWLCK then ret 0
       else if \<not> ex \<and> (is_denywrite c \<or> lock_type c = HB_FWLCK \<or> lock_type c = HB_FRLCK) then ret 0
       else
         bnd (f_unlock me) (\<lambda>_.
         bnd (lock_loop wait (setlk me 0 0 (if ex then HB_WRLCK else HB_RDLCK)) True LRETRY) (\<lambda>rc.
         bnd (modst (\<lambda>(c, k). if rc = 0
                then (c\<lparr>lock_type := (if ex then HB_FWLCK else HB_FRLCK), lock_recno := 0,
                        do_fsync := (if ex then False else do_fsync c)\<rparr>, k)
                else (c, k))) (\<lambda>_. ret rc))))"

text \<open>The header of the table file, with the flag is_hdr_locked of the header in memory.\<close>

definition lock_hdr :: "nat \<Rightarrow> (nat \<Rightarrow> kernel \<Rightarrow> kernel) \<Rightarrow> bool \<Rightarrow> nat \<Rightarrow> bool lm" where
  \<comment> \<open>the result is the new flag; dbread and read_db_hdr are not part of the lock\<close>
  "lock_hdr me wait locked hdrsz =
     bnd (getst fst) (\<lambda>c.
       if is_exclusive c \<or> is_denywrite c then ret locked
       else bnd (if locked then ret 0 else lock_loop wait (rlock me 0 hdrsz HB_RDLCK) True LRETRY) (\<lambda>rc.
         if rc \<noteq> 0 then raise (Syn NORLOCK) else ret True))"

definition unlock_hdr :: "nat \<Rightarrow> bool \<Rightarrow> bool lm" where
  "unlock_hdr me locked =
     bnd (getst fst) (\<lambda>c.
       if is_exclusive c \<or> is_denywrite c then ret locked
       else bnd (if locked then rlock me 0 HD3SZ HB_UNLCK else ret 0) (\<lambda>_. ret False))"

definition test_lock_hdr :: "nat \<Rightarrow> lock_type \<Rightarrow> int lm" where
  \<comment> \<open>F_GETLK: 1 when another process holds a conflicting lock\<close>
  "test_lock_hdr me type = (\<lambda>(c, k).
     if type = HB_RDLCK \<or> type = HB_WRLCK
     then (Inr (if conflicts me 0 (Some HD3SZ) (type = HB_WRLCK) k then 1 else 0), (c, k))
     else (Inl (Dbe UNKNOWNLOCK), (c, k)))"

text \<open>Index pages; the kernel's locks are those of the index file.\<close>

abbreviation (input) HBPAGESIZE :: nat where
  "HBPAGESIZE \<equiv> 4096"

definition ndx_lock :: "nat \<Rightarrow> (nat \<Rightarrow> kernel \<Rightarrow> kernel) \<Rightarrow> nat \<Rightarrow> lock_type \<Rightarrow> unit lm" where
  "ndx_lock me wait pno type =
     bnd (getst fst) (\<lambda>c.
       if is_exclusive c \<or> type = HB_RDLCK \<and> is_denywrite c then ret ()
       else bnd (lock_loop wait (rlock me (pno * HBPAGESIZE) HBPAGESIZE type) True LRETRY) (\<lambda>rc.
         if rc \<noteq> 0 then raise (Dbe NONDXLOCK) else ret ()))"

definition ndx_unlock :: "nat \<Rightarrow> unit lm" where
  "ndx_unlock me =
     bnd (getst fst) (\<lambda>c.
       if is_exclusive c \<or> is_denywrite c then ret ()
       else bnd (rlock me 0 0 HB_UNLCK) (\<lambda>_. ret ()))"

definition s_open_lock :: "nat \<Rightarrow> bool \<Rightarrow> bool \<Rightarrow> unit lm" where
  \<comment> \<open>s_open, from the test of EXCL and DENYWRITE on: one attempt\<close>
  "s_open_lock me excl denyw =
     (if excl \<or> denyw then
        bnd (setlk me 0 0 (if excl then HB_WRLCK else HB_RDLCK)) (\<lambda>rc.
          if rc \<noteq> 0 then raise (Syn NOFLOCK) else ret ())
      else ret ())"

section \<open>Several clients on one table\<close>

text \<open>While a client sleeps between two attempts the others take their steps; an attempt that fails
  changes nothing, so a retried lock is one successful attempt or none.\<close>

abbreviation no_wait :: "nat \<Rightarrow> kernel \<Rightarrow> kernel" where
  "no_wait \<equiv> \<lambda>_ k. k"

lemma lock_loop_setlk:
  "lock_loop no_wait (setlk me s len t) retry (Suc n) (c, k) = setlk me s len t (c, k)"
proof (induction n)
  case 0
  show ?case by (auto simp: setlk_def cm_simps split: option.splits)
next
  case (Suc n)
  show ?case
    using Suc by (subst lock_loop.simps) (auto simp: setlk_def cm_simps split: option.splits)
qed

lemma lock_loop_LRETRY:
  "lock_loop no_wait (setlk me s len t) retry LRETRY (c, k) = setlk me s len t (c, k)"
  using lock_loop_setlk [of me s len t retry 99 c k] by simp

lemma rlock_setlk: "t = HB_RDLCK \<or> t = HB_WRLCK \<or> t = HB_UNLCK \<Longrightarrow> rlock me s len t = setlk me s len t"
  by (simp add: rlock_def)

definition rec_bytes :: "client \<Rightarrow> nat \<Rightarrow> nat set" where
  "rec_bytes c n = {rec_offset c n ..< rec_offset c n + byprec c}"

definition own :: "nat \<Rightarrow> client \<Rightarrow> kernel \<Rightarrow> bool" where
  \<comment> \<open>what a client believes about its locks is what the kernel has\<close>
  "own p c k \<longleftrightarrow>
     (is_exclusive c \<longrightarrow> (\<forall>b. held k p b True))
     \<and> (is_denywrite c \<longrightarrow> (\<forall>b \<ge> doffset c. \<exists>w. held k p b w))
     \<and> (lock_type c = HB_FWLCK \<longrightarrow> (\<forall>b \<ge> doffset c. held k p b True))
     \<and> (lock_type c = HB_FRLCK \<longrightarrow> (\<forall>b \<ge> doffset c. \<exists>w. held k p b w))
     \<and> (lock_type c = HB_WRLCK \<longrightarrow> lock_recno c \<noteq> 0 \<and> (\<forall>b \<in> rec_bytes c (lock_recno c). held k p b True))
     \<and> (lock_type c = HB_RDLCK \<longrightarrow> lock_recno c \<noteq> 0 \<and> (\<forall>b \<in> rec_bytes c (lock_recno c). \<exists>w. held k p b w))"

definition geometry :: "client \<Rightarrow> nat \<times> nat" where
  "geometry c = (byprec c, doffset c)"

definition step_ok :: "nat \<Rightarrow> client \<Rightarrow> kernel \<Rightarrow> client \<times> kernel \<Rightarrow> bool" where
  "step_ok p c k ck' \<longleftrightarrow> (case ck' of (c', k') \<Rightarrow>
     own p c' k' \<and> exclusion k' \<and> (\<forall>q b w. q \<noteq> p \<longrightarrow> held k' q b w = held k q b w) \<and> geometry c' = geometry c)"

lemma step_ok_refl: "own p c k \<Longrightarrow> exclusion k \<Longrightarrow> step_ok p c k (c, k)"
  by (simp add: step_ok_def)

lemma setlk_cases:
  obtains (fail) "t \<noteq> HB_UNLCK" "setlk me s len t (c, k) = (Inr (- 1), (c, k))"
  | (granted) k' where "setlk me s len t (c, k) = (Inr 0, (c, k'))"
      "exclusion k \<Longrightarrow> exclusion k'"
      "\<And>p b wr. held k' p b wr \<longleftrightarrow>
         (if p = me \<and> in_range s (range_end s len) b then t \<noteq> HB_UNLCK \<and> wr = (t = HB_WRLCK) else held k p b wr)"
proof (cases "t = HB_UNLCK")
  case True
  then show ?thesis
    using granted [of "unlock_range me s (range_end s len) k"]
    by (simp add: setlk_def exclusion_unlock held_unlock_range)
next
  case False
  show ?thesis
  proof (cases "lock_range me s (range_end s len) (t = HB_WRLCK) k")
    case None
    then show ?thesis using False fail by (simp add: setlk_def)
  next
    case (Some k')
    then show ?thesis
      using False granted [of k'] exclusion_lock [OF _ Some] held_lock_range [OF Some]
      by (simp add: setlk_def)
  qed
qed

lemma in_range_all [simp]: "in_range 0 (range_end 0 0) b"
  by (simp add: in_range_def range_end_def before_end_def)

lemma in_range_rec: "0 < byprec c \<Longrightarrow>
  in_range (rec_offset c n) (range_end (rec_offset c n) (byprec c)) b \<longleftrightarrow> b \<in> rec_bytes c n"
  by (auto simp: in_range_def range_end_def before_end_def rec_bytes_def)

lemma rec_bytes_above: "b \<in> rec_bytes c n \<Longrightarrow> doffset c \<le> b"
  by (simp add: rec_bytes_def rec_offset_def)

lemma step_r_lock:
  assumes o: "own p c k" "exclusion k" "0 < byprec c"
    and t: "t = HB_RDLCK \<or> t = HB_WRLCK \<or> t = HB_UNLCK \<and> \<not> is_denywrite c"
  shows "step_ok p c k (snd (r_lock p no_wait n t retry (c, k)))"
proof (cases "in_use c \<and> n \<noteq> 0 \<and> \<not> (is_readonly c \<and> t = HB_WRLCK) \<and> \<not> is_exclusive c
    \<and> \<not> (is_denywrite c \<and> t = HB_RDLCK) \<and> \<not> is_rec_locked c n t")
  case False
  then have "snd (r_lock p no_wait n t retry (c, k)) = (c, k)"
    by (auto simp: r_lock_def cm_simps)
  then show ?thesis using o by (simp add: step_ok_refl)
next
  case True
  have rl: "rlock p (rec_offset c n) (byprec c) t = setlk p (rec_offset c n) (byprec c) t"
    using t by (intro rlock_setlk) auto
  have r: "r_lock p no_wait n t retry (c, k) =
      (case setlk p (rec_offset c n) (byprec c) t (c, k) of (r, c', k') \<Rightarrow>
         case r of Inl e \<Rightarrow> (Inl e, (c', k'))
         | Inr rc \<Rightarrow> (Inr rc, (if rc = 0 then c'\<lparr>lock_recno := n, lock_type := t,
                        lock_mode := (if t = HB_UNLCK then 0 else lock_mode c')\<rparr> else c', k')))"
    using True
    by (auto simp: r_lock_def cm_simps rl lock_loop_LRETRY split: prod.splits sum.splits)
  show ?thesis
  proof (cases rule: setlk_cases [of t p "rec_offset c n" "byprec c" c k])
    case fail
    then show ?thesis using o by (simp add: r step_ok_refl)
  next
    case (granted k')
    note h = granted(3) [unfolded in_range_rec [OF o(3)]]
    let ?c = "c\<lparr>lock_recno := n, lock_type := t, lock_mode := (if t = HB_UNLCK then 0 else lock_mode c)\<rparr>"
    have "rec_bytes ?c n = rec_bytes c n" by (simp add: rec_bytes_def rec_offset_def)
    moreover have any: "(\<exists>w. held k' p b w) \<longleftrightarrow> b \<in> rec_bytes c n \<or> (\<exists>w. held k p b w)" if "t \<noteq> HB_UNLCK" for b
      using that by (auto simp: h)
    moreover have "\<forall>b \<ge> doffset c. \<exists>w. held k' p b w" if "is_denywrite c"
    proof -
      have "t \<noteq> HB_UNLCK" using t that by auto
      moreover have "\<forall>b \<ge> doffset c. \<exists>w. held k p b w" using o(1) that by (simp add: own_def)
      ultimately show ?thesis by (simp add: any)
    qed
    moreover have "Ex Not" by (rule exI [of _ False]) simp
    ultimately have "own p ?c k'"
      using True t by (cases t) (simp_all add: own_def h)
    then show ?thesis
      using granted(1,2) h o(2) by (simp add: r step_ok_def geometry_def)
  qed
qed

lemma step_unlock_table:
  assumes "own p c k" "exclusion k" "\<not> is_exclusive c" "\<not> is_denywrite c"
    and c': "lock_type c' = HB_UNLCK" "\<not> is_exclusive c'" "\<not> is_denywrite c'" "geometry c' = geometry c"
  shows "step_ok p c k (c', unlock_range p 0 None k)"
  using assms by (simp add: step_ok_def own_def exclusion_unlock held_unlock_range)

lemma setlk_unlock_all: "setlk p 0 0 HB_UNLCK (c, k) = (Inr 0, (c, unlock_range p 0 None k))"
  by (simp add: setlk_def range_end_def)

lemma step_f_unlock:
  assumes "own p c k" "exclusion k"
  shows "step_ok p c k (snd (f_unlock p (c, k)))"
  using assms
  by (auto simp: f_unlock_def cm_simps setlk_unlock_all geometry_def
      intro!: step_ok_refl step_unlock_table)

lemma step_unlock_all:
  assumes "own p c k" "exclusion k" "\<not> is_exclusive c" "\<not> is_denywrite c"
  shows "step_ok p c k (snd (unlock_all p (c, k)))"
  using assms
  by (auto simp: unlock_all_def cm_simps setlk_unlock_all geometry_def
      intro!: step_ok_refl step_unlock_table)

lemma step_trans:
  "step_ok p c k (c', k') \<Longrightarrow> step_ok p c' k' z \<Longrightarrow> step_ok p c k z"
  by (auto simp: step_ok_def split: prod.splits)

lemma f_unlock_flags:
  "f_unlock p (c, k) = (r, (c', k')) \<Longrightarrow> is_exclusive c' = is_exclusive c \<and> is_denywrite c' = is_denywrite c \<and> r = Inr ()"
  by (auto simp: f_unlock_def cm_simps setlk_unlock_all split: if_splits)

lemma own_lock_table:
  assumes o: "own p c k" and e: "exclusion k" and x: "\<not> is_exclusive c" and d: "is_denywrite c \<longrightarrow> ex"
    and h: "\<And>q b wr. held k' q b wr \<longleftrightarrow> (if q = p then wr = ex else held k q b wr)" "exclusion k'"
  shows "step_ok p c k (c\<lparr>lock_type := (if ex then HB_FWLCK else HB_FRLCK), lock_recno := 0, do_fsync := f\<rparr>, k')"
proof -
  have "Ex (held k' p b)" for b by (rule exI [of _ ex]) (simp add: h(1))
  then show ?thesis
    using assms by (simp add: step_ok_def own_def geometry_def)
qed

lemma step_f_lock:
  assumes o: "own p c k" "exclusion k"
  shows "step_ok p c k (snd (f_lock p no_wait ex (c, k)))"
proof (cases "in_use c \<and> \<not> (is_readonly c \<and> ex) \<and> \<not> is_exclusive c \<and> lock_type c \<noteq> HB_FWLCK
    \<and> (ex \<or> \<not> is_denywrite c \<and> lock_type c \<noteq> HB_FRLCK)")
  case False
  then have "snd (f_lock p no_wait ex (c, k)) = (c, k)"
    by (auto simp: f_lock_def cm_simps)
  then show ?thesis using o by (simp add: step_ok_refl)
next
  case True
  obtain r c1 k1 where u: "f_unlock p (c, k) = (r, (c1, k1))" by (metis prod.exhaust)
  have 1: "step_ok p c k (c1, k1)" using step_f_unlock [OF o] by (simp add: u)
  then have o1: "own p c1 k1" "exclusion k1" by (simp_all add: step_ok_def)
  have fl: "is_exclusive c1 = is_exclusive c" "is_denywrite c1 = is_denywrite c" "r = Inr ()"
    using f_unlock_flags [OF u] by simp_all
  let ?t = "if ex then HB_WRLCK else HB_RDLCK"
  have f: "f_lock p no_wait ex (c, k) =
      (case setlk p 0 0 ?t (c1, k1) of (r, c', k') \<Rightarrow>
         case r of Inl e \<Rightarrow> (Inl e, (c', k'))
         | Inr rc \<Rightarrow> (Inr rc, (if rc = 0 then c'\<lparr>lock_type := (if ex then HB_FWLCK else HB_FRLCK), lock_recno := 0,
                        do_fsync := (if ex then False else do_fsync c')\<rparr> else c', k')))"
    using True
    by (auto simp: f_lock_def cm_simps u fl lock_loop_LRETRY split: prod.splits sum.splits)
  show ?thesis
  proof (cases rule: setlk_cases [of ?t p 0 0 c1 k1])
    case fail
    then show ?thesis using 1 by (simp add: f)
  next
    case (granted k')
    have "held k' q b wr \<longleftrightarrow> (if q = p then wr = ex else held k1 q b wr)" for q b wr
      by (simp add: granted(3))
    then have "step_ok p c1 k1 (c1\<lparr>lock_type := (if ex then HB_FWLCK else HB_FRLCK), lock_recno := 0,
        do_fsync := (if ex then False else do_fsync c1)\<rparr>, k')"
      using granted(2) o1 fl True by (intro own_lock_table) auto
    then show ?thesis using step_trans [OF 1] by (simp add: f granted(1))
  qed
qed

lemma step_lock_hdr:
  assumes o: "own p c k" "exclusion k" and g: "hdrsz \<le> doffset c" "0 < hdrsz"
  shows "step_ok p c k (snd (lock_hdr p no_wait locked hdrsz (c, k)))"
proof (cases "is_exclusive c \<or> is_denywrite c \<or> locked")
  case True
  then have "snd (lock_hdr p no_wait locked hdrsz (c, k)) = (c, k)"
    by (auto simp: lock_hdr_def cm_simps)
  then show ?thesis using o by (simp add: step_ok_refl)
next
  case False
  then have l: "snd (lock_hdr p no_wait locked hdrsz (c, k)) = snd (setlk p 0 hdrsz HB_RDLCK (c, k))"
    by (auto simp: lock_hdr_def cm_simps rlock_setlk lock_loop_LRETRY split: prod.splits sum.splits)
  show ?thesis
  proof (cases rule: setlk_cases [of HB_RDLCK p 0 hdrsz c k])
    case fail
    then show ?thesis using o by (simp add: l step_ok_refl)
  next
    case (granted k')
    have "held k' q b w = held k q b w" if "q \<noteq> p \<or> doffset c \<le> b" for q b w
      using that g by (auto simp: granted(3) in_range_def range_end_def before_end_def)
    moreover have "doffset c \<le> b" if "b \<in> rec_bytes c n" for b n using that by (rule rec_bytes_above)
    ultimately have "own p c k'" using o(1) False unfolding own_def by metis
    with granted o(2) show ?thesis
      by (auto simp: l step_ok_def in_range_def range_end_def before_end_def)
  qed
qed

lemma step_unlock_hdr:
  assumes o: "own p c k" "exclusion k" and g: "HD3SZ \<le> doffset c"
  shows "step_ok p c k (snd (unlock_hdr p locked (c, k)))"
proof (cases "is_exclusive c \<or> is_denywrite c \<or> \<not> locked")
  case True
  then have "snd (unlock_hdr p locked (c, k)) = (c, k)"
    by (auto simp: unlock_hdr_def cm_simps)
  then show ?thesis using o by (simp add: step_ok_refl)
next
  case False
  then have l: "snd (unlock_hdr p locked (c, k)) = (c, unlock_range p 0 (Some HD3SZ) k)"
    by (auto simp: unlock_hdr_def cm_simps rlock_setlk setlk_def range_end_def)
  have "held (unlock_range p 0 (Some HD3SZ) k) q b w = held k q b w" if "q \<noteq> p \<or> doffset c \<le> b" for q b w
    using that g by (auto simp: held_unlock_range in_range_def before_end_def)
  moreover have "doffset c \<le> b" if "b \<in> rec_bytes c n" for b n using that by (rule rec_bytes_above)
  ultimately have "own p c (unlock_range p 0 (Some HD3SZ) k)" using o(1) False unfolding own_def by metis
  with o(2) show ?thesis
    by (simp add: l step_ok_def exclusion_unlock held_unlock_range)
qed

text \<open>Opening and closing, as far as locks go: use, opendb, cleandb and closedb of server/dbe/db.c.
  Closing the descriptor drops the process's locks on the file (POSIX). cleandb leaves the lock state
  and the flag denywrite of the context as they are.\<close>

definition open_table :: "nat \<Rightarrow> bool \<Rightarrow> bool \<Rightarrow> bool \<Rightarrow> bool \<Rightarrow> unit lm" where
  \<comment> \<open>U_SHARED, U_EXCL or SET EXCLUSIVE ON, U_DENYW, U_READONLY or SET READONLY ON\<close>
  "open_table me shared excl denyw ro =
     bnd (modst (\<lambda>(c, k). (c\<lparr>is_exclusive := (if shared then False else excl \<or> is_exclusive c),
            is_denywrite := denyw \<or> is_denywrite c, is_readonly := ro \<or> is_readonly c\<rparr>, k))) (\<lambda>_.
     bnd (getst fst) (\<lambda>c.
     bnd (s_open_lock me (is_exclusive c) (is_denywrite c)) (\<lambda>_.
     bnd (test_lock_hdr me (if is_readonly c then HB_RDLCK else HB_WRLCK)) (\<lambda>busy.
       if busy \<noteq> 0 then raise (Dbe TBLLOCKED)
       else modst (\<lambda>(c, k). (c\<lparr>in_use := True, do_fsync := \<not> (is_exclusive c \<or> is_denywrite c)\<rparr>, k))))))"

definition close_table :: "nat \<Rightarrow> unit lm" where
  "close_table me = modst (\<lambda>(c, k).
     if in_use c then (c\<lparr>in_use := False, is_exclusive := False, is_readonly := False\<rparr>, unlock_range me 0 None k)
     else (c, k))"

section \<open>Safety\<close>

text \<open>The state of the system and its steps. A client asks for record locks of the three types that
  the code uses; a header has hdrsz bytes and lies before the records. Two rules have a condition that
  the code does not check: unlock_all only where no table is exclusive or denies writing, and a record
  is unlocked only in a table that does not deny writing; open starts from a context whose last table
  left no lock and no denywrite behind. The last three theorems show that none can be dropped.\<close>

record sys =
  clients :: "nat \<Rightarrow> client"
  locks :: kernel

definition apply_op :: "nat \<Rightarrow> 'a lm \<Rightarrow> sys \<Rightarrow> sys" where
  "apply_op p m s = (case snd (m (clients s p, locks s)) of
     (c, k) \<Rightarrow> \<lparr>clients = (clients s)(p := c), locks = k\<rparr>)"

inductive lock_step :: "sys \<Rightarrow> sys \<Rightarrow> bool" where
  open_step: "\<not> in_use (clients s p) \<Longrightarrow> lock_type (clients s p) = HB_UNLCK \<Longrightarrow> \<not> is_denywrite (clients s p)
     \<Longrightarrow> \<not> is_exclusive (clients s p) \<Longrightarrow> fst (open_table p shared excl denyw ro (clients s p, locks s)) = Inr ()
     \<Longrightarrow> lock_step s (apply_op p (open_table p shared excl denyw ro) s)"
| r_lock_step: "t = HB_RDLCK \<or> t = HB_WRLCK \<or> t = HB_UNLCK \<and> \<not> is_denywrite (clients s p)
     \<Longrightarrow> lock_step s (apply_op p (r_lock p no_wait n t retry) s)"
| f_lock_step: "lock_step s (apply_op p (f_lock p no_wait ex) s)"
| f_unlock_step: "lock_step s (apply_op p (f_unlock p) s)"
| unlock_all_step: "\<not> is_exclusive (clients s p) \<Longrightarrow> \<not> is_denywrite (clients s p)
     \<Longrightarrow> lock_step s (apply_op p (unlock_all p) s)"
| lock_hdr_step: "0 < hdrsz \<Longrightarrow> hdrsz \<le> doffset (clients s p)
     \<Longrightarrow> lock_step s (apply_op p (lock_hdr p no_wait locked hdrsz) s)"
| unlock_hdr_step: "HD3SZ \<le> doffset (clients s p) \<Longrightarrow> lock_step s (apply_op p (unlock_hdr p locked) s)"
| close_step: "lock_type (clients s p) = HB_UNLCK \<Longrightarrow> \<not> is_denywrite (clients s p)
     \<Longrightarrow> lock_step s (apply_op p (close_table p) s)"

definition fresh_client :: "nat \<times> nat \<Rightarrow> client" where
  "fresh_client g = \<lparr>in_use = False, is_readonly = False, is_exclusive = False, is_denywrite = False,
     do_fsync = False, lock_recno = 0, lock_type = HB_UNLCK, lock_mode = 0, byprec = fst g, doffset = snd g\<rparr>"

definition start :: "nat \<times> nat \<Rightarrow> sys" where
  "start g = \<lparr>clients = \<lambda>_. fresh_client g, locks = []\<rparr>"

abbreviation reachable :: "nat \<times> nat \<Rightarrow> sys \<Rightarrow> bool" where
  "reachable g s \<equiv> lock_step\<^sup>*\<^sup>* (start g) s"

definition may_write :: "client \<Rightarrow> nat \<Rightarrow> bool" where
  "may_write c n \<longleftrightarrow> is_exclusive c \<or> is_rec_locked c n HB_WRLCK"

definition may_read_locked :: "client \<Rightarrow> nat \<Rightarrow> bool" where
  "may_read_locked c n \<longleftrightarrow> is_exclusive c \<or> is_denywrite c \<or> is_rec_locked c n HB_RDLCK"

definition sys_ok :: "nat \<times> nat \<Rightarrow> sys \<Rightarrow> bool" where
  "sys_ok g s \<longleftrightarrow> exclusion (locks s) \<and> (\<forall>p. own p (clients s p) (locks s) \<and> geometry (clients s p) = g)"

lemma own_cong:
  "own q c k \<Longrightarrow> (\<And>b w. held k' q b w = held k q b w) \<Longrightarrow> own q c k'"
  by (simp add: own_def)

lemma sys_ok_apply:
  assumes "sys_ok g s" and "step_ok p (clients s p) (locks s) (snd (m (clients s p, locks s)))"
  shows "sys_ok g (apply_op p m s)"
proof -
  obtain c k where m: "snd (m (clients s p, locks s)) = (c, k)" by fastforce
  then have k: "own p c k" "exclusion k" "geometry c = geometry (clients s p)"
    "\<And>q b w. q \<noteq> p \<Longrightarrow> held k q b w = held (locks s) q b w"
    using assms(2) by (auto simp: step_ok_def)
  have "own q (clients s q) k" if "q \<noteq> p" for q
    using assms(1) k(4) [OF that] own_cong by (metis sys_ok_def)
  then show ?thesis
    using assms(1) k by (simp add: sys_ok_def apply_op_def m)
qed

lemma s_open_lock_cases:
  assumes "s_open_lock p ex dw (c, k) = (r, (c', k'))" "exclusion k"
  shows "c' = c \<and> exclusion k' \<and> (\<forall>q b w. q \<noteq> p \<longrightarrow> held k' q b w = held k q b w)
    \<and> (r = Inr () \<and> (ex \<or> dw) \<longrightarrow> (\<forall>b w. held k' p b w \<longleftrightarrow> w = ex)) \<and> (\<not> ex \<and> \<not> dw \<longrightarrow> k' = k)"
proof (cases "ex \<or> dw")
  case False
  then show ?thesis using assms by (simp add: s_open_lock_def cm_simps)
next
  case True
  show ?thesis
  proof (cases rule: setlk_cases [of "if ex then HB_WRLCK else HB_RDLCK" p 0 0 c k])
    case fail
    then show ?thesis using assms True by (auto simp: s_open_lock_def cm_simps)
  next
    case (granted k1)
    then show ?thesis using assms True by (auto simp: s_open_lock_def cm_simps)
  qed
qed

lemma step_open:
  assumes o: "own p c k" "exclusion k" and c: "lock_type c = HB_UNLCK" "\<not> is_denywrite c" "\<not> is_exclusive c"
    and r: "fst (open_table p shared excl denyw ro (c, k)) = Inr ()"
  shows "step_ok p c k (snd (open_table p shared excl denyw ro (c, k)))"
proof -
  let ?c = "c\<lparr>is_exclusive := (if shared then False else excl \<or> is_exclusive c),
      is_denywrite := denyw \<or> is_denywrite c, is_readonly := ro \<or> is_readonly c\<rparr>"
  obtain r' c1 k1 where s: "s_open_lock p (is_exclusive ?c) (is_denywrite ?c) (?c, k) = (r', (c1, k1))"
    by (metis prod.exhaust)
  have r': "r' = Inr ()" and t: "snd (open_table p shared excl denyw ro (c, k)) = (c1\<lparr>in_use := True,
      do_fsync := \<not> (is_exclusive c1 \<or> is_denywrite c1)\<rparr>, k1)"
    using r s by (auto simp: open_table_def cm_simps test_lock_hdr_def split: sum.splits if_splits)
  note p = s_open_lock_cases [OF s o(2)]
  have "own p (c1\<lparr>in_use := True, do_fsync := \<not> (is_exclusive c1 \<or> is_denywrite c1)\<rparr>) k1"
    using p r' c by (auto simp: own_def)
  then show ?thesis using p by (simp add: t step_ok_def geometry_def)
qed

lemma step_close:
  assumes "own p c k" "exclusion k" "lock_type c = HB_UNLCK" "\<not> is_denywrite c"
  shows "step_ok p c k (snd (close_table p (c, k)))"
  using assms
  by (auto simp: close_table_def cm_simps step_ok_def own_def exclusion_unlock held_unlock_range geometry_def)

lemma lock_step_ok:
  assumes "lock_step s s'" and "sys_ok g s" and "0 < fst g"
  shows "sys_ok g s'"
proof -
  have own: "own p (clients s p) (locks s)" and ex: "exclusion (locks s)"
    and len: "0 < byprec (clients s p)" for p
    using assms(2,3) by (auto simp: sys_ok_def geometry_def)
  show ?thesis
    using assms(1,2)
    by (cases rule: lock_step.cases)
      (auto intro!: sys_ok_apply step_open step_r_lock step_f_lock step_f_unlock step_unlock_all
        step_lock_hdr step_unlock_hdr step_close own ex len)
qed

lemma reachable_ok: "reachable g s \<Longrightarrow> 0 < fst g \<Longrightarrow> sys_ok g s"
proof (induction rule: rtranclp_induct)
  case base
  show ?case by (simp add: sys_ok_def start_def fresh_client_def own_def exclusion_def held_def geometry_def)
next
  case (step s s')
  then show ?case using lock_step_ok by blast
qed

text \<open>C10: Two clients of a table, with the same record length and data offset, never both believe that they may
  write the same record, nor does one hold it for reading while another may write it, in any interleaving of
  these steps, with lock requests that do not wait: a successful opening by a client that keeps no lock state
  from an earlier table, locks of records, of the file and of the header, which ends before the data, and their release, except the release of a record by a client that denies others
  writing, UNLOCK ALL of a table that is neither exclusive nor denying writing, and closing without a lock held and
  not denying writing. Steps that are left out do break it: see unlock_all_drops_exclusive, denywrite_lost_by_unlock and
  lock_state_survives_close.\<close>

theorem record_locks_exclude:
  assumes "reachable g s" and "0 < fst g" and "0 < n" and "p \<noteq> q"
    and w: "may_write (clients s p) n"
  shows "\<not> may_write (clients s q) n \<and> \<not> may_read_locked (clients s q) n"
proof -
  have ok: "sys_ok g s" using assms(1,2) by (rule reachable_ok)
  let ?b = "rec_offset (clients s p) n"
  have g: "geometry (clients s r) = g" for r using ok by (simp add: sys_ok_def)
  have b: "?b \<in> rec_bytes (clients s r) n" "doffset (clients s r) \<le> ?b" for r
    using assms(2) g [of r] g [of p] by (auto simp: rec_bytes_def rec_offset_def geometry_def)
  have o: "own r (clients s r) (locks s)" for r using ok by (simp add: sys_ok_def)
  have 1: "held (locks s) p ?b True"
    using w o [of p] b [of p] assms(3) by (auto simp: may_write_def is_rec_locked_def own_def)
  have 2: "\<exists>x. held (locks s) q ?b x" if "may_write (clients s q) n \<or> may_read_locked (clients s q) n"
    using that o [of q] b [of q] assms(3)
    by (auto simp: may_write_def may_read_locked_def is_rec_locked_def own_def)
  show ?thesis using 1 2 assms(4) ok unfolding sys_ok_def exclusion_def by blast
qed

definition sys_run :: "(sys \<Rightarrow> sys) list \<Rightarrow> sys" where
  "sys_run fs = fold (\<lambda>f s. f s) fs (start (10, 64))"

theorem record_locks_exclude_witness:
  "\<exists>s. reachable (10, 64) s \<and> may_write (clients s 1) 5
     \<and> \<not> may_write (clients s 2) 5 \<and> \<not> may_read_locked (clients s 2) 5"
proof (intro exI conjI)
  let ?s1 = "apply_op 1 (open_table 1 False False False False) (start (10, 64))"
  let ?s = "apply_op 1 (r_lock 1 no_wait 5 HB_WRLCK False) ?s1"
  have f: "fst (open_table 1 False False False False (clients (start (10, 64)) 1, locks (start (10, 64)))) = Inr ()"
    by code_simp
  have 1: "lock_step (start (10, 64)) ?s1"
    using open_step [of "start (10, 64)" 1 False False False False] f
    by (simp add: start_def fresh_client_def)
  have 2: "lock_step ?s1 ?s" by (rule r_lock_step) simp
  show r: "reachable (10, 64) ?s"
    by (rule converse_rtranclp_into_rtranclp [where r = lock_step, OF 1 r_into_rtranclp [where r = lock_step, OF 2]])
  show w: "may_write (clients ?s 1) 5" by code_simp
  show "\<not> may_write (clients ?s 2) 5" "\<not> may_read_locked (clients ?s 2) 5"
    using record_locks_exclude [OF r _ _ _ w, of 2] by simp_all
qed

text \<open>Unlock_all unlocks the file of an exclusive table too, but the table stays exclusive for its
  client: after USE .. EXCLUSIVE and UNLOCK ALL, a second client that opens the table shared gets the
  write lock on a record that the first one still writes without asking.\<close>

theorem unlock_all_drops_exclusive:
  "let s = sys_run
     [apply_op 1 (open_table 1 False True False False), apply_op 1 (unlock_all 1),
      apply_op 2 (open_table 2 False False False False), apply_op 2 (r_lock 2 no_wait 5 HB_WRLCK False)]
   in may_write (clients s 1) 5 \<and> may_write (clients s 2) 5"
  by code_simp

text \<open>In a table that denies others writing, unlocking a record takes it out of the range that keeps
  writers away: a client that has the table open for writing gets the write lock on it, though the
  first one still takes the whole table as locked for reading.\<close>

lemma denywrite_lost_by_unlock:
  "let s = sys_run
     [apply_op 2 (open_table 2 False False False False), apply_op 1 (open_table 1 False False True False),
      apply_op 1 (r_lock 1 no_wait 5 HB_WRLCK False), apply_op 1 (r_lock 1 no_wait 6 HB_WRLCK False),
      apply_op 1 (r_lock 1 no_wait 5 HB_UNLCK False), apply_op 2 (r_lock 2 no_wait 5 HB_WRLCK False)]
   in may_read_locked (clients s 1) 5 \<and> may_write (clients s 2) 5"
  by code_simp

text \<open>A record that is locked for writing cannot be unlocked by r_lock: is_rec_locked takes a write
  lock as a lock of the type HB_UNLCK too, so r_lock returns 0 and changes nothing.\<close>

theorem unlock_record_ignored:
  assumes "in_use c" and "recno \<noteq> 0" and "lock_type c = HB_WRLCK" and "lock_recno c = recno"
  shows "r_lock p wait recno HB_UNLCK retry (c, k) = (Inr 0, (c, k))"
  using assms by (simp add: r_lock_def cm_simps is_rec_locked_def)

theorem unlock_record_ignored_witness:
  "r_lock 1 no_wait 5 HB_UNLCK False ((fresh_client (10, 64))\<lparr>in_use := True, lock_type := HB_WRLCK, lock_recno := 5\<rparr>, [])
   = (Inr 0, ((fresh_client (10, 64))\<lparr>in_use := True, lock_type := HB_WRLCK, lock_recno := 5\<rparr>, []))"
  by (rule unlock_record_ignored) (simp_all add: fresh_client_def)

text \<open>Closing a table keeps the context's lock state: after FLOCK and USE of the next table (the same
  file again here), the context believes that the file is locked, though the kernel holds nothing,
  and a second client locks the same record for writing.\<close>

theorem lock_state_survives_close:
  "let s = sys_run
     [apply_op 1 (open_table 1 False False False False), apply_op 1 (f_lock 1 no_wait True),
      apply_op 1 (close_table 1), apply_op 1 (open_table 1 False False False False),
      apply_op 2 (open_table 2 False False False False), apply_op 2 (r_lock 2 no_wait 5 HB_WRLCK False)]
   in may_write (clients s 1) 5 \<and> may_write (clients s 2) 5"
  by code_simp

end
