(* ===== verification/Tables.thy ===== *)
theory Tables
  imports Table_Header Locks
begin

text \<open>
  An open table and its cursor: dbread and dbwrite of server/dbe/fio.c, the flags of server/dbe/db.c and
  the movements of server/dbe/rec.c, for a table without an active index, relation or memo file. The
  main results: SKIP visits exactly the records that SET DELETED and SET FILTER leave visible, in order
  and with an end, as do GO TOP, GO BOTTOM and LOCATE; and what happens beyond the first record.
\<close>

section \<open>State\<close>

record session =
  \<comment> \<open>what the operations depend on: the process, what others do to the locks and the file while it sleeps,
    SET DELETED, SET FILTER as a condition on a record number and a record, transaction_active(), and what
    the uninitialised variable of gotop holds\<close>
  me :: nat
  wait :: "nat \<Rightarrow> kernel \<Rightarrow> kernel"
  others :: "nat \<Rightarrow> string \<Rightarrow> string"
  delete_on :: bool
  fltr :: "(nat \<Rightarrow> string \<Rightarrow> bool) option"
  in_trans :: bool
  junk :: nat

record tbl =
  \<comment> \<open>one context: the flags exclusive, readonly, denywrite, fsync and the lock are in lk; rbk_fd is the
    content of the rollback file, None for fd -1, and rbk_pos its file position\<close>
  lk :: client
  kern :: kernel
  tfile :: string
  thdr :: table_hdr
  hdr_locked :: bool
  access :: nat
  recbuf :: string
  rbk_buf :: string
  rbk_recno :: nat
  rbk_fd :: "string option"
  rbk_pos :: nat
  crntrec :: nat
  e_o_f :: bool
  t_o_f :: bool
  rec_found :: bool
  fextd :: bool
  dbmdfy :: bool

type_synonym 'a tm = "(tbl, 'a) cm"

abbreviation reccnt :: "tbl \<Rightarrow> nat" where "reccnt t \<equiv> hd_reccnt (thdr t)"
abbreviation recsz :: "tbl \<Rightarrow> nat" where "recsz t \<equiv> hd_byprec (thdr t)"
abbreviation exclusive :: "tbl \<Rightarrow> bool" where "exclusive t \<equiv> is_exclusive (lk t)"

abbreviation (input) VAL_MKR :: char where "VAL_MKR \<equiv> CHR '' ''"
abbreviation (input) DEL_MKR :: char where "DEL_MKR \<equiv> CHR ''*''"
abbreviation (input) TRANS_MKR :: char where "TRANS_MKR \<equiv> CHR ''!''"
abbreviation (input) EOF_MKR :: char where "EOF_MKR \<equiv> CHR 0x1a"
abbreviation (input) RECNO_MOD :: nat where "RECNO_MOD \<equiv> 18446744073709551616"

definition set_reccnt :: "nat \<Rightarrow> tbl \<Rightarrow> tbl" where
  "set_reccnt n t = t\<lparr>thdr := (thdr t)\<lparr>hd_reccnt := n\<rparr>\<rparr>"

definition on_lock :: "'a lm \<Rightarrow> 'a tm" where
  \<comment> \<open>the lock operations take the record length and the data offset from the header\<close>
  "on_lock m = (\<lambda>t. case m ((lk t)\<lparr>byprec := recsz t, doffset := nat (hd_doffset (thdr t))\<rparr>, kern t) of
     (r, (c, k)) \<Rightarrow> (r, t\<lparr>lk := c\<lparr>byprec := byprec (lk t), doffset := doffset (lk t)\<rparr>, kern := k\<rparr>))"

section \<open>Files\<close>

abbreviation (input) IOBUFSIZE :: nat where "IOBUFSIZE \<equiv> 16384"

primrec read_chunks :: "nat \<Rightarrow> string \<Rightarrow> nat \<Rightarrow> nat \<Rightarrow> nat \<times> nat \<times> bool" where
  \<comment> \<open>the loop of dbread: i, j and whether it was left by goto end\<close>
  "read_chunks 0 s i j = (i, j, False)"
| "read_chunks (Suc n) s i j =
     (let j = min IOBUFSIZE (length s) in
      if j < IOBUFSIZE then (i, j, True) else read_chunks n (drop IOBUFSIZE s) (Suc i) j)"

definition dbread_count :: "string \<Rightarrow> nat \<Rightarrow> nat" where
  \<comment> \<open>j is what the loop left in it when there is no rest to read; nbytes is not 0\<close>
  "dbread_count s nbytes =
     (case read_chunks (nbytes div IOBUFSIZE) s 0 0 of
        (i, j, short) \<Rightarrow>
          let k = nbytes mod IOBUFSIZE; j = (if \<not> short \<and> 0 < k then min k (length s - i * IOBUFSIZE) else j)
          in i * IOBUFSIZE + j)"

definition dbread :: "int \<Rightarrow> nat \<Rightarrow> (string \<times> nat) tm" where
  \<comment> \<open>the bytes that arrive in the buffer, and the return value\<close>
  "dbread offset nbytes =
     (if offset < 0 then raise (Dbe DBSEEK)
      else bnd (getst tfile) (\<lambda>f. let s = drop (nat offset) f in ret (take nbytes s, dbread_count s nbytes)))"

definition patch :: "nat \<Rightarrow> string \<Rightarrow> string \<Rightarrow> string" where
  \<comment> \<open>write after lseek: a gap is filled with zeros, and writing nothing changes nothing\<close>
  "patch off d f =
     (if d = [] then f else take off f @ replicate (off - length f) (CHR 0x00) @ d @ drop (off + length d) f)"

definition dbwrite :: "string \<Rightarrow> int \<Rightarrow> unit tm" where
  "dbwrite d offset =
     (if offset < 0 then raise (Dbe DBSEEK) else modst (\<lambda>t. t\<lparr>tfile := patch (nat offset) d (tfile t)\<rparr>))"

definition rec_off :: "tbl \<Rightarrow> nat \<Rightarrow> int" where
  \<comment> \<open>(off_t)(recno - 1) * byprec + doffset, in 64 bits\<close>
  "rec_off t recno = sint (of_int ((int recno - 1) * int (recsz t) + hd_doffset (thdr t)) :: 64 word)"

section \<open>Flags and locks\<close>

definition etof :: "direction option \<Rightarrow> tbl \<Rightarrow> bool" where
  "etof dir t = (case dir of None \<Rightarrow> e_o_f t \<or> t_o_f t | Some FORWARD \<Rightarrow> e_o_f t | Some BACKWARD \<Rightarrow> t_o_f t)"

definition tr_lock :: "session \<Rightarrow> nat \<Rightarrow> lock_type \<Rightarrow> bool \<Rightarrow> int tm" where
  "tr_lock S recno type retry = on_lock (r_lock (me S) (wait S) recno type retry)"

definition clretof :: "session \<Rightarrow> direction option \<Rightarrow> unit tm" where
  "clretof S dir =
     (case dir of
        Some FORWARD \<Rightarrow> modst (\<lambda>t. t\<lparr>e_o_f := False\<rparr>)
      | None \<Rightarrow> bnd (getst crntrec) (\<lambda>r. bnd (tr_lock S r HB_UNLCK False) (\<lambda>_. modst (\<lambda>t. t\<lparr>e_o_f := False, t_o_f := False\<rparr>)))
      | Some BACKWARD \<Rightarrow> modst (\<lambda>t. t\<lparr>t_o_f := False\<rparr>))"

definition setetof :: "direction option \<Rightarrow> unit tm" where
  "setetof dir = modst (\<lambda>t.
     case dir of
       None \<Rightarrow> t\<lparr>e_o_f := True, t_o_f := True\<rparr>
     | Some FORWARD \<Rightarrow> t\<lparr>e_o_f := True, crntrec := (reccnt t + 1) mod RECNO_MOD\<rparr>
     | Some BACKWARD \<Rightarrow> t\<lparr>t_o_f := True, crntrec := 0\<rparr>)"

definition valid_chk :: "unit tm" where
  "valid_chk = bnd (getst id) (\<lambda>t.
     if \<not> in_use (lk t) then raise (Dbe NOTINUSE)
     else if \<not> etof None t \<and> reccnt t \<noteq> 0 \<and> crntrec t = 0 then raise (Dbe OUTOFRANGE)
     else ret ())"

definition lock_tbl_hdr :: "session \<Rightarrow> unit tm" where
  \<comment> \<open>lock_hdr; the macro is_db3 compares the whole id, which has the lock flag, with DB3_MKR\<close>
  "lock_tbl_hdr S = bnd (getst id) (\<lambda>t.
     if is_exclusive (lk t) \<or> is_denywrite (lk t) then ret ()
     else
       let hdrsz = (if hd_id (thdr t) = DB3_MKR \<and> \<not> hdr_locked t then HD3SZ else HDRSZ) in
       bnd (on_lock (lock_hdr (me S) (wait S) (hdr_locked t) hdrsz)) (\<lambda>_.
       bnd (dbread 0 hdrsz) (\<lambda>(b, _).
       modst (\<lambda>t. t\<lparr>thdr := fst (read_db_hdr (thdr t) b hdrsz True), hdr_locked := True\<rparr>))))"

definition unlock_tbl_hdr :: "session \<Rightarrow> unit tm" where
  "unlock_tbl_hdr S = bnd (getst id) (\<lambda>t.
     if is_exclusive (lk t) \<or> is_denywrite (lk t) then ret ()
     else
       bnd (on_lock (unlock_hdr (me S) (hdr_locked t))) (\<lambda>_.
       modst (\<lambda>t. t\<lparr>hdr_locked := False\<rparr>)))"

section \<open>Movements\<close>

definition gorec :: "nat \<Rightarrow> unit tm" where
  "gorec recno =
     (if recno = 0 then ret ()
      else bnd (getst id) (\<lambda>t.
        if recno \<le> reccnt t then
          bnd (dbread (rec_off t recno) (recsz t)) (\<lambda>(b, n).
          bnd (modst (\<lambda>t. t\<lparr>recbuf := b @ drop (length b) (recbuf t)\<rparr>)) (\<lambda>_.
          if n \<noteq> recsz t then raise (Dbe DBREAD) else modst (\<lambda>t. t\<lparr>crntrec := recno\<rparr>)))
        else modst (\<lambda>t. t\<lparr>recbuf := replicate (recsz t) (CHR '' ''), crntrec := recno\<rparr>)))"

definition get_db_rec :: "string tm" where
  \<comment> \<open>the record buffer, read again unless it is locked\<close>
  "get_db_rec = bnd (getst id) (\<lambda>t.
     if etof None t then raise (Dbe OUTOFRANGE)
     else bnd (if \<not> exclusive t \<and> \<not> is_rec_locked (lk t) (crntrec t) HB_RDLCK then gorec (crntrec t) else ret ()) (\<lambda>_.
     getst recbuf))"

definition isdelete :: "tbl \<Rightarrow> bool" where
  "isdelete t \<longleftrightarrow> byte_at (recbuf t) 0 = DEL_MKR"

definition hidden :: "session \<Rightarrow> tbl \<Rightarrow> bool" where
  \<comment> \<open>(isset(DELETE_ON) && isdelete()) || (filterisset() && !cond(..))\<close>
  "hidden S t \<longleftrightarrow> delete_on S \<and> isdelete t \<or> (case fltr S of None \<Rightarrow> False | Some f \<Rightarrow> \<not> f (crntrec t) (recbuf t))"

definition go :: "session \<Rightarrow> nat \<Rightarrow> bool tm" where
  "go S recno =
     bnd (modst (\<lambda>t. t\<lparr>rec_found := False\<rparr>)) (\<lambda>_.
     if recno < 1 then bnd (setetof (Some BACKWARD)) (\<lambda>_. ret False)
     else
       bnd (lock_tbl_hdr S) (\<lambda>_. bnd (unlock_tbl_hdr S) (\<lambda>_.
       bnd (getst reccnt) (\<lambda>n.
       if n < recno then bnd (setetof (Some FORWARD)) (\<lambda>_. ret False)
       else
         bnd (clretof S None) (\<lambda>_. bnd (gorec recno) (\<lambda>_.
         bnd (getst (hidden S)) (\<lambda>h. if h then bnd (setetof (Some FORWARD)) (\<lambda>_. ret False) else ret True)))))))"

definition move :: "session \<Rightarrow> direction \<Rightarrow> unit tm" where
  \<comment> \<open>next; record numbers are unsigned\<close>
  "move S dir =
     bnd (modst (\<lambda>t. t\<lparr>rec_found := False\<rparr>)) (\<lambda>_.
     bnd (getst crntrec) (\<lambda>r0.
     bnd (clretof S (Some dir)) (\<lambda>_.
     let r = (if dir = FORWARD then r0 + 1 else r0 + (RECNO_MOD - 1)) mod RECNO_MOD in
     bnd (if r = 0 then setetof (Some dir)
          else bnd (getst reccnt) (\<lambda>n.
            if n < r then
              bnd (lock_tbl_hdr S) (\<lambda>_. bnd (unlock_tbl_hdr S) (\<lambda>_.
              bnd (getst reccnt) (\<lambda>n. if n < r then setetof (Some FORWARD) else ret ())))
            else ret ())) (\<lambda>_.
     bnd (getst (etof (Some dir))) (\<lambda>e.
     bnd (if e then ret ()
          else bnd (gorec r) (\<lambda>_. clretof S (Some (if dir = FORWARD then BACKWARD else FORWARD)))) (\<lambda>_.
     modst (\<lambda>t. t\<lparr>crntrec := r\<rparr>)))))))"

primrec settle :: "session \<Rightarrow> direction \<Rightarrow> nat \<Rightarrow> unit tm" where
  \<comment> \<open>the loops of gotop and gobot\<close>
  "settle S dir 0 = raise NoFuel"
| "settle S dir (Suc k) = bnd (getst id) (\<lambda>t.
     if etof (Some dir) t then ret ()
     else if hidden S t then bnd (move S dir) (\<lambda>_. settle S dir k)
     else ret ())"

definition gobot :: "session \<Rightarrow> nat \<Rightarrow> unit tm" where
  "gobot S k =
     bnd (modst (\<lambda>t. t\<lparr>rec_found := False\<rparr>)) (\<lambda>_.
     bnd (clretof S None) (\<lambda>_.
     bnd (lock_tbl_hdr S) (\<lambda>_.
     bnd (getst reccnt) (\<lambda>r.
     bnd (unlock_tbl_hdr S) (\<lambda>_.
     bnd (if r = 0 then setetof None else gorec r) (\<lambda>_. settle S BACKWARD k))))))"

definition gotop :: "session \<Rightarrow> nat \<Rightarrow> unit tm" where
  \<comment> \<open>in an empty table curr_recno is tested without having been set\<close>
  "gotop S k =
     bnd (modst (\<lambda>t. t\<lparr>rec_found := False\<rparr>)) (\<lambda>_.
     bnd (clretof S None) (\<lambda>_.
     bnd (lock_tbl_hdr S) (\<lambda>_.
     bnd (unlock_tbl_hdr S) (\<lambda>_.
     bnd (getst reccnt) (\<lambda>n.
     bnd (if n = 0 then setetof None else ret ()) (\<lambda>_.
     let r = (if n = 0 then junk S else 1) in
     bnd (if r = 0 then setetof None else gorec r) (\<lambda>_. settle S FORWARD k)))))))"

primrec skip_loop :: "session \<Rightarrow> direction \<Rightarrow> nat \<Rightarrow> nat \<Rightarrow> nat tm" where
  \<comment> \<open>while (n): the number that is left\<close>
  "skip_loop S dir 0 n = raise NoFuel"
| "skip_loop S dir (Suc k) n =
     (if n = 0 then ret 0
      else bnd (move S dir) (\<lambda>_. bnd (getst id) (\<lambda>t.
        if etof (Some dir) t then ret (n - 1)
        else if hidden S t then skip_loop S dir k n
        else skip_loop S dir k (n - 1))))"

definition skip :: "session \<Rightarrow> nat \<Rightarrow> int \<Rightarrow> nat tm" where
  \<comment> \<open>the number of records that were skipped\<close>
  "skip S k n =
     (if n = 0 then ret 0
      else
        let dir = (if 0 < n then FORWARD else BACKWARD); cnt = nat \<bar>n\<bar> in
        bnd (getst (etof (Some (if dir = FORWARD then BACKWARD else FORWARD)))) (\<lambda>e.
        if e then
          bnd (if dir = FORWARD then gotop S k else gobot S k) (\<lambda>_.
          bnd (getst (etof None)) (\<lambda>e.
          if e then ret 0 else bnd (skip_loop S dir k (cnt - 1)) (\<lambda>left. ret (cnt - left))))
        else bnd (skip_loop S dir k cnt) (\<lambda>left. ret (cnt - left))))"

primrec locate_rec :: "session \<Rightarrow> (nat \<Rightarrow> string \<Rightarrow> bool) \<Rightarrow> direction \<Rightarrow> nat \<Rightarrow> nat \<Rightarrow> bool tm" where
  \<comment> \<open>_locate; the condition as a function of the record\<close>
  "locate_rec S cond dir m 0 = raise NoFuel"
| "locate_rec S cond dir m (Suc k) = bnd (getst id) (\<lambda>t.
     if cond (crntrec t) (recbuf t) then bnd (modst (\<lambda>t. t\<lparr>rec_found := True\<rparr>)) (\<lambda>_. ret True)
     else
       bnd (skip S m (if dir = FORWARD then 1 else - 1)) (\<lambda>_.
       bnd (getst (etof (Some dir))) (\<lambda>e. if e then ret False else locate_rec S cond dir m k)))"

section \<open>Reading\<close>

lemma read_chunks_eq:
  "read_chunks n s i j =
     (if n * IOBUFSIZE \<le> length s then (i + n, if n = 0 then j else IOBUFSIZE, False)
      else (i + length s div IOBUFSIZE, length s mod IOBUFSIZE, True))"
proof (induction n arbitrary: s i j)
  case 0
  show ?case by simp
next
  case (Suc n)
  show ?case
  proof (cases "length s < IOBUFSIZE")
    case True
    then show ?thesis by simp
  next
    case False
    then obtain d where d: "length s = IOBUFSIZE + d" by (metis le_add_diff_inverse linorder_not_less)
    have "length (drop IOBUFSIZE s) = d" using d by simp
    then show ?thesis using Suc [of "drop IOBUFSIZE s" "Suc i" IOBUFSIZE] d by (auto simp: Let_def)
  qed
qed

lemma dbread_count_rest:
  assumes "n mod IOBUFSIZE \<noteq> 0"
  shows "dbread_count s n = min n (length s)"
proof -
  have n: "n = n div IOBUFSIZE * IOBUFSIZE + n mod IOBUFSIZE" by simp
  show ?thesis
  proof (cases "n div IOBUFSIZE * IOBUFSIZE \<le> length s")
    case True
    then have "dbread_count s n = n div IOBUFSIZE * IOBUFSIZE + min (n mod IOBUFSIZE) (length s - n div IOBUFSIZE * IOBUFSIZE)"
      using assms by (simp add: dbread_count_def read_chunks_eq)
    then show ?thesis using n True by linarith
  next
    case False
    then have "length s < n" using n by linarith
    then show ?thesis using False by (simp add: dbread_count_def read_chunks_eq)
  qed
qed

lemma dbread_count_whole:
  assumes "n mod IOBUFSIZE = 0" and "0 < n" and "n \<le> length s"
  shows "dbread_count s n = n + IOBUFSIZE"
proof -
  have "n div IOBUFSIZE * IOBUFSIZE = n" using assms(1) by (metis add.right_neutral div_mult_mod_eq)
  then show ?thesis using assms by (auto simp: dbread_count_def read_chunks_eq Let_def)
qed

section \<open>Tables in exclusive use\<close>

definition rec_at :: "tbl \<Rightarrow> nat \<Rightarrow> string" where
  "rec_at t r = take (recsz t) (drop (nat (hd_doffset (thdr t)) + (r - 1) * recsz t) (tfile t))"

definition tbl_ok :: "tbl \<Rightarrow> bool" where
  "tbl_ok t \<longleftrightarrow> exclusive t \<and> in_use (lk t) \<and> 2 \<le> recsz t \<and> recsz t mod IOBUFSIZE \<noteq> 0 \<and> int (hd_hdlen (thdr t)) \<le> hd_doffset (thdr t)
     \<and> nat (hd_doffset (thdr t)) + reccnt t * recsz t \<le> length (tfile t)
     \<and> nat (hd_doffset (thdr t)) + (reccnt t + 1) * recsz t < 2 ^ 63 \<and> length (recbuf t) = recsz t"

lemma tr_lock_excl: "exclusive t \<Longrightarrow> \<exists>z. tr_lock S r y retry t = (Inr z, t)"
  by (simp add: tr_lock_def on_lock_def r_lock_def cm_simps)

lemma tr_lock_excl_0: "exclusive t \<Longrightarrow> in_use (lk t) \<Longrightarrow> r \<noteq> 0 \<Longrightarrow> \<not> is_readonly (lk t) \<Longrightarrow> tr_lock S r y retry t = (Inr 0, t)"
  by (simp add: tr_lock_def on_lock_def r_lock_def cm_simps)

lemma clretof_None: "exclusive t \<Longrightarrow> clretof S None t = (Inr (), t\<lparr>e_o_f := False, t_o_f := False\<rparr>)"
  using tr_lock_excl [of t S "crntrec t" HB_UNLCK False] by (auto simp: clretof_def cm_simps)

lemma clretof_Some: "clretof S (Some d) = modst (\<lambda>t. if d = FORWARD then t\<lparr>e_o_f := False\<rparr> else t\<lparr>t_o_f := False\<rparr>)"
  by (cases d) (simp_all add: clretof_def)

lemma hdr_excl: "exclusive t \<Longrightarrow> lock_tbl_hdr S t = (Inr (), t)" "exclusive t \<Longrightarrow> unlock_tbl_hdr S t = (Inr (), t)"
  by (simp_all add: lock_tbl_hdr_def unlock_tbl_hdr_def cm_simps)

lemma sint_64: "0 \<le> x \<Longrightarrow> x < 2 ^ 63 \<Longrightarrow> sint (of_int x :: 64 word) = x"
  by (simp add: signed_of_int signed_take_bit_int_eq_self)

lemma rec_off_in:
  assumes "tbl_ok t" and "1 \<le> r" and "r \<le> reccnt t + 1"
  shows "rec_off t r = hd_doffset (thdr t) + int ((r - 1) * recsz t)" and "0 \<le> rec_off t r"
    and "nat (rec_off t r) = nat (hd_doffset (thdr t)) + (r - 1) * recsz t"
proof -
  let ?d = "hd_doffset (thdr t)" and ?x = "(r - 1) * recsz t"
  have d: "0 \<le> ?d" "nat ?d + (reccnt t + 1) * recsz t < 2 ^ 63" using assms(1) by (auto simp: tbl_ok_def)
  define X where "X = ?x"
  define Y where "Y = (reccnt t + 1) * recsz t"
  have "X \<le> Y" using assms(3) unfolding X_def Y_def by (intro mult_le_mono1) simp
  moreover have "nat ?d + Y < 9223372036854775808" using d(2) by (simp add: Y_def)
  ultimately have "?d + int X < 9223372036854775808" using d(1) by linarith
  then have b: "?d + int ?x < 2 ^ 63" by (simp add: X_def)
  have e: "(int r - 1) * int (recsz t) = int ?x" using assms(2) by (simp add: of_nat_diff)
  have "sint (of_int (?d + int ?x) :: 64 word) = ?d + int ?x"
    by (rule sint_64) (use b d(1) in simp_all)
  then show o: "rec_off t r = ?d + int ?x" unfolding rec_off_def e by (simp add: add.commute)
  show "0 \<le> rec_off t r" using o d by simp
  show "nat (rec_off t r) = nat ?d + ?x" unfolding o using d by (simp add: nat_add_distrib del: of_nat_mult)
qed

lemma length_rec_at:
  assumes "tbl_ok t" and "1 \<le> r" and "r \<le> reccnt t"
  shows "length (rec_at t r) = recsz t"
proof -
  have "(r - 1) * recsz t + recsz t = r * recsz t" using assms(2) by (cases r) auto
  also have "\<dots> \<le> reccnt t * recsz t" using assms(3) by (rule mult_le_mono1)
  finally have "(r - 1) * recsz t + recsz t \<le> reccnt t * recsz t" .
  moreover have "nat (hd_doffset (thdr t)) + reccnt t * recsz t \<le> length (tfile t)" using assms(1) by (simp add: tbl_ok_def)
  ultimately have "recsz t \<le> length (drop (nat (hd_doffset (thdr t)) + (r - 1) * recsz t) (tfile t))"
    unfolding length_drop by linarith
  then show ?thesis by (simp add: rec_at_def)
qed

lemma gorec_in:
  assumes t: "tbl_ok t" and r: "1 \<le> r" "r \<le> reccnt t"
  shows "gorec r t = (Inr (), t\<lparr>recbuf := rec_at t r, crntrec := r\<rparr>)"
proof -
  note o = rec_off_in [OF t r(1)]
  have l: "length (rec_at t r) = recsz t" by (rule length_rec_at [OF t r])
  have "recsz t \<le> length (drop (nat (rec_off t r)) (tfile t))" using l o(3) r(2) by (simp add: rec_at_def min_def split: if_splits)
  then have "dbread_count (drop (nat (rec_off t r)) (tfile t)) (recsz t) = recsz t"
    using t by (subst dbread_count_rest) (auto simp: tbl_ok_def)
  moreover have "take (recsz t) (drop (nat (rec_off t r)) (tfile t)) = rec_at t r" using o(3) r(2) by (simp add: rec_at_def)
  ultimately show ?thesis
    using t r l o(2) by (simp add: gorec_def cm_simps dbread_def tbl_ok_def)
qed

lemma gorec_out: "reccnt t < r \<Longrightarrow> gorec r t = (Inr (), t\<lparr>recbuf := replicate (recsz t) (CHR '' ''), crntrec := r\<rparr>)"
  by (simp add: gorec_def cm_simps)

section \<open>Steps\<close>

definition at :: "tbl \<Rightarrow> nat \<Rightarrow> tbl" where
  "at t r = t\<lparr>recbuf := rec_at t r, crntrec := r, e_o_f := False, t_o_f := False, rec_found := False\<rparr>"

definition stop :: "direction \<Rightarrow> tbl \<Rightarrow> tbl" where
  "stop dir t = (if dir = FORWARD then t\<lparr>rec_found := False, e_o_f := True, crntrec := reccnt t + 1\<rparr>
     else t\<lparr>rec_found := False, t_o_f := True, crntrec := 0\<rparr>)"

definition path :: "direction \<Rightarrow> tbl \<Rightarrow> nat list" where
  \<comment> \<open>the records ahead of the current one\<close>
  "path dir t = (if dir = FORWARD then [crntrec t + 1 ..< reccnt t + 1] else rev [1 ..< crntrec t])"

definition inside :: "direction \<Rightarrow> tbl \<Rightarrow> bool" where
  "inside dir t \<longleftrightarrow> crntrec t \<le> reccnt t \<or> dir = BACKWARD \<and> crntrec t = reccnt t + 1"

definition visible :: "session \<Rightarrow> tbl \<Rightarrow> nat \<Rightarrow> bool" where
  "visible S t r \<longleftrightarrow> \<not> hidden S (at t r)"

lemma at_simps [simp]:
  "at (at t r) r' = at t r'" "crntrec (at t r) = r" "thdr (at t r) = thdr t" "lk (at t r) = lk t" "tfile (at t r) = tfile t"
  "recbuf (at t r) = rec_at t r" "\<not> e_o_f (at t r)" "\<not> t_o_f (at t r)" "\<not> rec_found (at t r)" "rec_at (at t r) r' = rec_at t r'"
  by (simp_all add: at_def rec_at_def)

lemma visible_at [simp]: "visible S (at t r) = visible S t"
  by (rule ext) (simp add: visible_def)

lemma etof_at [simp]: "\<not> etof d (at t r)"
  by (auto simp: etof_def split: option.split direction.split)

lemma etof_stop [simp]: "etof (Some d) (stop d t)"
  by (cases d) (simp_all add: etof_def stop_def)

lemma tbl_ok_at: "tbl_ok t \<Longrightarrow> 1 \<le> r \<Longrightarrow> r \<le> reccnt t \<Longrightarrow> tbl_ok (at t r)"
  using length_rec_at [of t r] by (simp add: tbl_ok_def)

lemma inside_at: "r \<le> reccnt t \<Longrightarrow> inside d (at t r)"
  by (simp add: inside_def)

lemma reccnt_small: "tbl_ok t \<Longrightarrow> reccnt t + 1 < RECNO_MOD - 1"
proof -
  assume "tbl_ok t"
  then have "(reccnt t + 1) * recsz t < 2 ^ 63" "2 \<le> recsz t" by (auto simp: tbl_ok_def)
  moreover have "(reccnt t + 1) * 2 \<le> (reccnt t + 1) * recsz t" using calculation(2) by (rule mult_le_mono2)
  ultimately show ?thesis by simp
qed

lemma move_step:
  assumes t: "tbl_ok t" and r: "1 \<le> r" "r \<le> reccnt t" and c: "crntrec t = (if dir = FORWARD then r - 1 else r + 1)"
  shows "move S dir t = (Inr (), at t r)"
proof -
  have n: "(if dir = FORWARD then crntrec t + 1 else crntrec t + (RECNO_MOD - 1)) mod RECNO_MOD = r"
    using c r reccnt_small [OF t] by auto
  let ?u = "t\<lparr>rec_found := False\<rparr>" and ?v = "if dir = FORWARD then t\<lparr>rec_found := False, e_o_f := False\<rparr> else t\<lparr>rec_found := False, t_o_f := False\<rparr>"
  have v: "tbl_ok ?v" "reccnt ?v = reccnt t" "rec_at ?v r = rec_at t r" using t by (auto simp: tbl_ok_def rec_at_def)
  have g: "gorec r ?v = (Inr (), ?v\<lparr>recbuf := rec_at t r, crntrec := r\<rparr>)" using gorec_in [OF v(1) r(1)] r(2) v by simp
  show ?thesis
    using r n g v
    by (cases dir) (auto simp: move_def cm_simps clretof_Some Let_def etof_def at_def split: if_splits)
qed

lemma move_end:
  assumes t: "tbl_ok t" and c: "if dir = FORWARD then crntrec t = reccnt t else crntrec t = 1"
  shows "move S dir t = (Inr (), stop dir t)"
  using c reccnt_small [OF t] t
  by (cases dir) (auto simp: move_def cm_simps clretof_Some Let_def etof_def stop_def setetof_def hdr_excl tbl_ok_def)

lemma path_cases:
  assumes "inside dir t" and "dir = BACKWARD \<longrightarrow> crntrec t \<noteq> 0"
  obtains "path dir t = []" "if dir = FORWARD then crntrec t = reccnt t else crntrec t = 1"
  | r where "path dir t = r # path dir (at t r)" "1 \<le> r" "r \<le> reccnt t" "crntrec t = (if dir = FORWARD then r - 1 else r + 1)"
proof (cases dir)
  case FORWARD
  show ?thesis
  proof (cases "crntrec t = reccnt t")
    case True
    then show ?thesis using that(1) FORWARD by (simp add: path_def)
  next
    case False
    then have "crntrec t < reccnt t" using assms FORWARD by (simp add: inside_def)
    then show ?thesis using that(2) [of "crntrec t + 1"] FORWARD by (simp add: path_def upt_conv_Cons)
  qed
next
  case BACKWARD
  show ?thesis
  proof (cases "crntrec t = 1")
    case True
    then show ?thesis using that(1) BACKWARD by (simp add: path_def)
  next
    case False
    then obtain c where c: "crntrec t = Suc (Suc c)" using assms BACKWARD by (metis One_nat_def not0_implies_Suc)
    then show ?thesis using that(2) [of "Suc c"] BACKWARD assms(1) by (auto simp: path_def inside_def)
  qed
qed

definition final :: "direction \<Rightarrow> tbl \<Rightarrow> tbl" where
  \<comment> \<open>after the last record ahead\<close>
  "final dir t = stop dir (if path dir t = [] then t else at t (last (path dir t)))"

lemma skip_loop_visits:
  assumes "tbl_ok t" and "inside dir t" and "dir = BACKWARD \<longrightarrow> crntrec t \<noteq> 0" and "length (path dir t) < k"
  shows "skip_loop S dir k n t =
    (let vs = filter (visible S t) (path dir t) in
     if n = 0 then (Inr 0, t) else if n \<le> length vs then (Inr 0, at t (vs ! (n - 1)))
     else (Inr (n - length vs - 1), final dir t))"
  using assms
proof (induction "path dir t" arbitrary: t k n)
  case Nil
  obtain m where k: "k = Suc m" using Nil.prems(4) by (cases k) auto
  have "if dir = FORWARD then crntrec t = reccnt t else crntrec t = 1"
    using path_cases [OF Nil.prems(2,3)] Nil.hyps by (metis list.distinct(1))
  then have "move S dir t = (Inr (), stop dir t)" by (rule move_end [OF Nil.prems(1)])
  then show ?case using Nil.hyps [symmetric] k by (simp add: cm_simps final_def)
next
  case (Cons r rs)
  obtain m where k: "k = Suc m" using Cons.prems(4) by (cases k) auto
  obtain r' where "path dir t = r' # path dir (at t r')" "1 \<le> r'" "r' \<le> reccnt t" "crntrec t = (if dir = FORWARD then r' - 1 else r' + 1)"
    using path_cases [OF Cons.prems(2,3)] Cons.hyps(2) by (metis list.distinct(1))
  then have r: "path dir (at t r) = rs" "1 \<le> r" "r \<le> reccnt t" "crntrec t = (if dir = FORWARD then r - 1 else r + 1)"
    using Cons.hyps(2) by simp_all
  have mv: "move S dir t = (Inr (), at t r)" by (rule move_step [OF Cons.prems(1) r(2-4)])
  have a: "tbl_ok (at t r)" "inside dir (at t r)" using tbl_ok_at [OF Cons.prems(1) r(2,3)] inside_at [OF r(3)] by simp_all
  have lp: "length (path dir (at t r)) < m" using Cons.prems(4) Cons.hyps(2) [symmetric] k r(1) by simp
  note ih = Cons.hyps(1) [OF r(1) [symmetric] a _ lp]
  have fin: "final dir (at t r) = final dir t" using Cons.hyps(2) [symmetric] r(1) by (simp add: final_def)
  have ih': "skip_loop S dir m j (at t r) = (let vs = filter (visible S t) rs in
     if j = 0 then (Inr 0, at t r) else if j \<le> length vs then (Inr 0, at t (vs ! (j - 1)))
     else (Inr (j - length vs - 1), final dir t))" for j
    using ih [of j] r fin by (simp add: Let_def)
  show ?case
  proof (cases "n = 0")
    case True
    then show ?thesis by (simp add: k cm_simps)
  next
    case False
    have hv: "hidden S (at t r) = (\<not> visible S t r)" by (simp add: visible_def)
    show ?thesis
      using Cons.hyps(2) [symmetric] mv False
      by (cases n) (auto simp: k cm_simps ih' hv Let_def nth_Cons' simp del: skip_loop.simps(1) split: if_splits)
  qed
qed

lemma stop_simps [simp]:
  "thdr (stop d t) = thdr t" "lk (stop d t) = lk t" "tfile (stop d t) = tfile t" "recbuf (stop d t) = recbuf t"
  "rec_at (stop d t) r = rec_at t r"
  by (simp_all add: stop_def rec_at_def)

definition all_ahead :: "direction \<Rightarrow> tbl \<Rightarrow> nat list" where
  \<comment> \<open>the records from the current one on\<close>
  "all_ahead dir t = crntrec t # path dir t"

lemma settle_visits:
  assumes "tbl_ok t" and "1 \<le> r" and "r \<le> reccnt t" and "length (path dir (at t r)) + 2 \<le> k"
  shows "settle S dir k (at t r) = (Inr (), case filter (visible S t) (r # path dir (at t r)) of
     [] \<Rightarrow> stop dir (at t (last (r # path dir (at t r)))) | v # _ \<Rightarrow> at t v)"
  using assms
proof (induction "path dir (at t r)" arbitrary: r k)
  case Nil
  obtain m where k: "k = Suc (Suc m)" using Nil.prems(4) by (metis add_2_eq_Suc' le_iff_add plus_nat.simps(2))
  have a: "tbl_ok (at t r)" "inside dir (at t r)" using tbl_ok_at [OF Nil.prems(1-3)] inside_at [OF Nil.prems(3)] by simp_all
  have "if dir = FORWARD then crntrec (at t r) = reccnt (at t r) else crntrec (at t r) = 1"
    using path_cases [OF a(2)] Nil.hyps Nil.prems(2) by (metis at_simps(2) list.distinct(1) not_one_le_zero)
  then have "move S dir (at t r) = (Inr (), stop dir (at t r))" by (rule move_end [OF a(1)])
  then show ?case using Nil.hyps [symmetric] by (simp add: k cm_simps visible_def)
next
  case (Cons q qs)
  obtain m where k: "k = Suc m" using Cons.prems(4) by (cases k) auto
  have a: "tbl_ok (at t r)" "inside dir (at t r)" using tbl_ok_at [OF Cons.prems(1-3)] inside_at [OF Cons.prems(3)] by simp_all
  obtain r' where "path dir (at t r) = r' # path dir (at (at t r) r')" "1 \<le> r'" "r' \<le> reccnt (at t r)"
      "crntrec (at t r) = (if dir = FORWARD then r' - 1 else r' + 1)"
    using path_cases [OF a(2)] Cons.hyps(2) Cons.prems(2) by (metis at_simps(2) list.distinct(1) not_one_le_zero)
  then have q: "path dir (at t q) = qs" "1 \<le> q" "q \<le> reccnt (at t r)" "crntrec (at t r) = (if dir = FORWARD then q - 1 else q + 1)"
    using Cons.hyps(2) by simp_all
  have mv: "move S dir (at t r) = (Inr (), at t q)" using move_step [OF a(1) q(2-4)] by simp
  have "settle S dir m (at t q) = (Inr (), case filter (visible S t) (q # path dir (at t q)) of
     [] \<Rightarrow> stop dir (at t (last (q # path dir (at t q)))) | v # _ \<Rightarrow> at t v)"
    by (rule Cons.hyps(1)) (use q Cons.prems Cons.hyps(2) [symmetric] k in simp_all)
  then show ?case using Cons.hyps(2) [symmetric] mv q(1) by (simp add: k cm_simps visible_def split: list.split)
qed

lemma gotop_visits:
  assumes "tbl_ok t" and "0 < reccnt t" and "reccnt t + 2 \<le> k"
  shows "gotop S k t = (Inr (), case filter (visible S t) [1 ..< reccnt t + 1] of
     [] \<Rightarrow> stop FORWARD (at t (reccnt t)) | v # _ \<Rightarrow> at t v)"
proof -
  let ?u = "t\<lparr>rec_found := False, e_o_f := False, t_o_f := False\<rparr>"
  have u: "tbl_ok ?u" "reccnt ?u = reccnt t" "rec_at ?u 1 = rec_at t 1" "at ?u 1 = at t 1" using assms(1) by (auto simp: tbl_ok_def rec_at_def at_def)
  have ex: "exclusive (t\<lparr>rec_found := False\<rparr>)" "exclusive ?u" using assms(1) by (simp_all add: tbl_ok_def)
  have g: "gorec 1 ?u = (Inr (), at t 1)" using gorec_in [OF u(1), of 1] assms(2) u by (simp add: at_def)
  have p: "1 # path FORWARD (at t 1) = [1 ..< reccnt t + 1]" using assms(2) by (simp add: path_def upt_conv_Cons)
  have l: "last [1 ..< reccnt t + 1] = reccnt t" using assms(2) by simp
  have st: "settle S FORWARD k (at t 1) = (Inr (), case filter (visible S t) [1 ..< reccnt t + 1] of
     [] \<Rightarrow> stop FORWARD (at t (reccnt t)) | v # _ \<Rightarrow> at t v)"
    using settle_visits [OF assms(1), of 1 FORWARD k S] assms(2,3) unfolding p l by (simp add: path_def del: upt_Suc)
  show ?thesis
    using assms(2) ex g st by (simp del: upt_Suc add: gotop_def cm_simps clretof_None hdr_excl)
qed

lemma gobot_visits:
  assumes "tbl_ok t" and "0 < reccnt t" and "reccnt t + 2 \<le> k"
  shows "gobot S k t = (Inr (), case filter (visible S t) (rev [1 ..< reccnt t + 1]) of
     [] \<Rightarrow> stop BACKWARD (at t 1) | v # _ \<Rightarrow> at t v)"
proof -
  let ?n = "reccnt t" and ?u = "t\<lparr>rec_found := False, e_o_f := False, t_o_f := False\<rparr>"
  have u: "tbl_ok ?u" "reccnt ?u = ?n" "rec_at ?u ?n = rec_at t ?n" "at ?u ?n = at t ?n" using assms(1) by (auto simp: tbl_ok_def rec_at_def at_def)
  have ex: "exclusive (t\<lparr>rec_found := False\<rparr>)" "exclusive ?u" using assms(1) by (simp_all add: tbl_ok_def)
  have g: "gorec ?n ?u = (Inr (), at t ?n)" using gorec_in [OF u(1), of ?n] assms(2) u by (simp add: at_def)
  have p: "?n # path BACKWARD (at t ?n) = rev [1 ..< ?n + 1]" using assms(2) by (simp add: path_def)
  have l: "last (rev [1 ..< ?n + 1]) = 1" using assms(2) by (simp add: last_rev upt_conv_Cons del: upt_Suc)
  have st: "settle S BACKWARD k (at t ?n) = (Inr (), case filter (visible S t) (rev [1 ..< ?n + 1]) of
     [] \<Rightarrow> stop BACKWARD (at t 1) | v # _ \<Rightarrow> at t v)"
    using settle_visits [OF assms(1), of ?n BACKWARD k S] assms(2,3) unfolding p l by (simp add: path_def del: upt_Suc)
  show ?thesis
    using assms(2) ex g st by (simp del: upt_Suc add: gobot_def cm_simps clretof_None hdr_excl)
qed

lemma path_suffix:
  assumes "tbl_ok t" and "1 \<le> c" and "c \<le> reccnt t" and "path dir (at t c) = us @ v # ws"
  shows "path dir (at t v) = ws" and "1 \<le> v" and "v \<le> reccnt t"
  using assms
proof (atomize (full), induction us arbitrary: c)
  case (Cons u us)
  have a: "inside dir (at t c)" "dir = BACKWARD \<longrightarrow> crntrec (at t c) \<noteq> 0" using Cons.prems inside_at by simp_all
  obtain r where "path dir (at t c) = r # path dir (at (at t c) r)" "1 \<le> r" "r \<le> reccnt (at t c)"
    using path_cases [OF a] Cons.prems(4) by (metis append_is_Nil_conv list.distinct(1))
  then have u: "path dir (at t u) = us @ v # ws" "1 \<le> u" "u \<le> reccnt t" using Cons.prems(4) by simp_all
  show ?case by (rule Cons.IH [OF Cons.prems(1) u(2,3,1)])
next
  case Nil
  have a: "inside dir (at t c)" "dir = BACKWARD \<longrightarrow> crntrec (at t c) \<noteq> 0" using Nil.prems inside_at by simp_all
  obtain r where "path dir (at t c) = r # path dir (at (at t c) r)" "1 \<le> r" "r \<le> reccnt (at t c)"
    using path_cases [OF a] Nil.prems(4) by (metis append_is_Nil_conv list.distinct(1))
  then show ?case using Nil.prems(4) by simp
qed

lemma visible_suffix:
  assumes "tbl_ok t" and "1 \<le> c" and "c \<le> reccnt t" and "filter (visible S t) (path dir (at t c)) = v # vs"
  shows "filter (visible S t) (path dir (at t v)) = vs" and "1 \<le> v" and "v \<le> reccnt t"
    and "final dir (at t v) = final dir (at t c)" and "length (path dir (at t v)) < length (path dir (at t c))"
proof -
  obtain us ws where p: "path dir (at t c) = us @ v # ws" "vs = filter (visible S t) ws"
    using assms(4) by (metis filter_eq_ConsD)
  note s = path_suffix [OF assms(1-3) p(1)]
  show "filter (visible S t) (path dir (at t v)) = vs" "1 \<le> v" "v \<le> reccnt t" using s p by simp_all
  show "length (path dir (at t v)) < length (path dir (at t c))" using s p by simp
  show "final dir (at t v) = final dir (at t c)" using s p by (auto simp: final_def)
qed

lemma skip_forward_or_back:
  assumes "tbl_ok t" and "inside dir t" and "dir = BACKWARD \<longrightarrow> crntrec t \<noteq> 0"
    and "\<not> etof (Some (if dir = FORWARD then BACKWARD else FORWARD)) t" and "0 < n" and "length (path dir t) < k"
  shows "skip S k (if dir = FORWARD then int n else - int n) t =
    (let vs = filter (visible S t) (path dir t) in
     if n \<le> length vs then (Inr n, at t (vs ! (n - 1))) else (Inr (length vs + 1), final dir t))"
proof -
  have "skip_loop S dir k n t = (let vs = filter (visible S t) (path dir t) in
     if n \<le> length vs then (Inr 0, at t (vs ! (n - 1))) else (Inr (n - length vs - 1), final dir t))"
    using skip_loop_visits [OF assms(1-3,6), of S n] assms(5) by simp
  then show ?thesis
    using assms(4,5) by (cases dir) (auto simp: skip_def cm_simps Let_def)
qed

lemma filter_upt_nth:
  assumes "i < length (filter P [a ..< b])"
  shows "filter P [a ..< filter P [a ..< b] ! i] = take i (filter P [a ..< b])"
proof -
  let ?vs = "filter P [a ..< b]" let ?v = "?vs ! i"
  have v: "P ?v" "a \<le> ?v" "?v < b" using nth_mem [OF assms] by auto
  have "[a ..< b] = [a ..< ?v] @ ?v # [Suc ?v ..< b]"
    using v by (metis less_imp_le_nat upt_conv_Cons upt_add_eq_append le_iff_add)
  then have s: "?vs = filter P [a ..< ?v] @ ?v # filter P [Suc ?v ..< b]" using v(1) by (metis filter.simps(2) filter_append)
  have l: "length (filter P [a ..< ?v]) < length ?vs" by (subst s) simp
  have "?vs ! length (filter P [a ..< ?v]) = ?v" by (subst s) simp
  then have "length (filter P [a ..< ?v]) = i" using l assms by (simp add: nth_eq_iff_index_eq)
  then show ?thesis by (metis append_eq_conv_conj s)
qed

section \<open>What the movements do\<close>

definition three :: tbl where
  \<comment> \<open>three records of two bytes, the second one deleted\<close>
  "three = \<lparr>lk = (fresh_client (2, 4))\<lparr>in_use := True, is_exclusive := True\<rparr>, kern = [], tfile = ''head a*b c'',
     thdr = \<lparr>hd_id = 5, hd_reccnt = 3, hd_hdlen = 4, hd_doffset = 4, hd_meta_len = 0, hd_byprec = 2, hd_fdlist = []\<rparr>,
     hdr_locked = False, access = 255, recbuf = '' a'', rbk_buf = [CHR 0x00, CHR 0x00], rbk_recno = 0, rbk_fd = None, rbk_pos = 0,
     crntrec = 1, e_o_f = False, t_o_f = False, rec_found = False, fextd = False, dbmdfy = False\<rparr>"

definition alone :: session where
  \<comment> \<open>SET DELETED ON and no filter\<close>
  "alone = \<lparr>me = 1, wait = (\<lambda>_ k. k), others = (\<lambda>_ f. f), delete_on = True, fltr = None, in_trans = False, junk = 0\<rparr>"

lemma three_ok: "tbl_ok three" "at three 1 = three" "reccnt three = 3" "crntrec three = 1" "\<not> t_o_f three" "\<not> e_o_f three"
  by (simp_all add: tbl_ok_def three_def fresh_client_def at_def rec_at_def)

lemma three_visible: "visible alone three 1" "\<not> visible alone three 2" "visible alone three 3"
  by (simp_all add: visible_def hidden_def alone_def isdelete_def byte_at_def rec_at_def three_def)

lemma three_path: "path FORWARD three = [2, 3]" "path BACKWARD three = []"
  by (simp_all add: path_def three_ok upt_rec)

text \<open>C7: SKIP n and SKIP -n with n > 0, in a table in exclusive use, from a cursor inside the table: on a record, or for SKIP -n also
just behind the last one, or for SKIP n above the first one, with the flag of the end that is left behind not set. The cursor ends on the n-th record ahead that SET DELETED
and SET FILTER leave visible, with both end flags cleared; when there are fewer, it ends beyond the last or
the first record with the flag of that end, and the step onto the end counts as one record. The loops end.\<close>
theorem skip_visits:
  assumes "tbl_ok t" and "inside dir t" and "dir = BACKWARD \<longrightarrow> crntrec t \<noteq> 0"
    and "\<not> etof (Some (if dir = FORWARD then BACKWARD else FORWARD)) t" and "0 < n" and "length (path dir t) < k"
  shows "skip S k (if dir = FORWARD then int n else - int n) t =
    (let vs = filter (visible S t) (path dir t) in
     if n \<le> length vs then (Inr n, at t (vs ! (n - 1))) else (Inr (length vs + 1), final dir t))"
  by (rule skip_forward_or_back [OF assms])

theorem skip_visits_witness: "skip alone 5 1 three = (Inr 1, at three 3)"
  using skip_visits [OF three_ok(1), of FORWARD 1 5 alone] three_visible three_path three_ok
  by (simp add: inside_def etof_def)

text \<open>C16: In a table in exclusive use, SKIP n followed by SKIP -n leads back: from a visible record with n visible records ahead of it, the
second command skips n records too and ends on the record where the first one began.\<close>
theorem skip_there_and_back:
  assumes "tbl_ok t" and "1 \<le> c" and "c \<le> reccnt t" and "visible S t c" and "0 < n"
    and "n \<le> length (filter (visible S t) (path FORWARD (at t c)))" and "reccnt t < k"
  shows "bnd (skip S k (int n)) (\<lambda>_. skip S k (- int n)) (at t c) = (Inr n, at t c)"
proof -
  let ?vs = "filter (visible S t) [c + 1 ..< reccnt t + 1]"
  have n: "n \<le> length ?vs" "n - 1 < length ?vs" using assms(5,6) by (simp_all add: path_def)
  define v where "v = ?vs ! (n - 1)"
  have "v \<in> set ?vs" unfolding v_def by (rule nth_mem [OF n(2)])
  then have v: "c < v" "v \<le> reccnt t" by auto
  have f: "skip S k (int n) (at t c) = (Inr n, at t v)"
    using skip_forward_or_back [of "at t c" FORWARD n k S] tbl_ok_at [OF assms(1-3)] inside_at [OF assms(3)] assms n
    by (simp add: path_def v_def Let_def del: upt_Suc)
  have "[1 ..< v] = [1 ..< c] @ c # [c + 1 ..< v]"
    using assms(2) v(1) by (metis Suc_eq_plus1 le_add_diff_inverse less_imp_le_nat upt_add_eq_append upt_conv_Cons)
  then have "filter (visible S t) [1 ..< v] = filter (visible S t) [1 ..< c] @ c # take (n - 1) ?vs"
    using assms(4) filter_upt_nth [OF n(2)] by (simp add: v_def del: upt_Suc)
  then have p: "filter (visible S t) (path BACKWARD (at t v)) = rev (take (n - 1) ?vs) @ c # rev (filter (visible S t) [1 ..< c])"
    by (simp add: path_def rev_filter [symmetric])
  have "length (rev (take (n - 1) ?vs)) = n - 1" using n(2) by simp
  then have "filter (visible S t) (path BACKWARD (at t v)) ! (n - 1) = c" unfolding p by (metis nth_append_length)
  moreover have "n \<le> length (filter (visible S t) (path BACKWARD (at t v)))" unfolding p using n assms(5) by simp
  moreover have "length (path BACKWARD (at t v)) < k" using v assms(7) by (simp add: path_def)
  ultimately have "skip S k (- int n) (at t v) = (Inr n, at t c)"
    using skip_forward_or_back [of "at t v" BACKWARD n k S] tbl_ok_at [of t v] inside_at [of v t] assms(1,5) v by simp
  then show ?thesis using f by (simp add: cm_simps)
qed

theorem skip_there_and_back_witness:
  "bnd (skip alone 5 1) (\<lambda>_. skip alone 5 (- 1)) three = (Inr 1, three)"
  using skip_there_and_back [OF three_ok(1), of 1 alone 1 5] three_visible three_path by (simp add: three_ok [simplified])

text \<open>C15: In a table in exclusive use LOCATE always comes to an end and finds what there is to find: from a record on, it stops with FOUND at
the first record that satisfies the condition among that record and the visible ones ahead of it, and
returns false at the end of the table only when there is none.\<close>
theorem locate_finds:
  assumes "tbl_ok t" and "1 \<le> c" and "c \<le> reccnt t" and "reccnt t < m" and "length (path dir (at t c)) < k"
  shows "locate_rec S cond dir m k (at t c) =
    (case filter (\<lambda>r. cond r (rec_at t r)) (c # filter (visible S t) (path dir (at t c))) of
       [] \<Rightarrow> (Inr False, final dir (at t c)) | v # _ \<Rightarrow> (Inr True, (at t v)\<lparr>rec_found := True\<rparr>))"
  using assms(2,3,5)
proof (induction k arbitrary: c)
  case (Suc k)
  have a: "tbl_ok (at t c)" "inside dir (at t c)" using tbl_ok_at [OF assms(1) Suc.prems(1,2)] inside_at [OF Suc.prems(2)] by simp_all
  have "length (path dir (at t c)) \<le> reccnt t" using Suc.prems(2) by (auto simp: path_def)
  then have m: "length (path dir (at t c)) < m" using assms(4) by simp
  have sk: "skip S m (if dir = FORWARD then 1 else - 1) (at t c) =
      (case filter (visible S t) (path dir (at t c)) of [] \<Rightarrow> (Inr 1, final dir (at t c)) | v # _ \<Rightarrow> (Inr 1, at t v))"
    using skip_forward_or_back [OF a _ _ _ m, of 1 S] Suc.prems(1) by (cases dir) (simp_all add: Let_def Suc_le_eq split: list.split)
  show ?case
  proof (cases "cond c (rec_at t c)")
    case True
    then show ?thesis by (simp add: cm_simps)
  next
    case False
    show ?thesis
    proof (cases "filter (visible S t) (path dir (at t c))")
      case Nil
      then show ?thesis using False sk by (simp add: cm_simps final_def)
    next
      case (Cons v vs)
      note s = visible_suffix [OF assms(1) Suc.prems(1,2) Cons]
      have "locate_rec S cond dir m k (at t v) =
        (case filter (\<lambda>r. cond r (rec_at t r)) (v # filter (visible S t) (path dir (at t v))) of
           [] \<Rightarrow> (Inr False, final dir (at t v)) | v # _ \<Rightarrow> (Inr True, (at t v)\<lparr>rec_found := True\<rparr>))"
        by (rule Suc.IH) (use s Suc.prems(3) in simp_all)
      then show ?thesis using False sk Cons s(1,4) by (simp add: cm_simps split: list.split)
    qed
  qed
qed simp

theorem locate_finds_witness:
  "locate_rec alone (\<lambda>_ b. b = ''*b'' \<or> b = '' c'') FORWARD 5 5 three = (Inr True, (at three 3)\<lparr>rec_found := True\<rparr>)"
proof -
  have "rec_at three 1 = '' a''" "rec_at three 3 = '' c''" by (simp_all add: rec_at_def three_def)
  then show ?thesis
    using locate_finds [OF three_ok(1), of 1 5 FORWARD 5 alone "\<lambda>_ b. b = ''*b'' \<or> b = '' c''"] three_visible three_path
    by (simp add: three_ok [simplified])
qed

text \<open>C38: In a table in exclusive use without a filter, SKIP -1 on the first record leads to the top of the file, but a second SKIP -1 does not stay there: the
record number 0 is decremented to 2 ^ 64 - 1, the record is read as one behind the end of the table, and
both end flags are cleared. The table then seems to be on a blank record with that number.\<close>
theorem skip_above_top:
  assumes "tbl_ok t" and "t_o_f t" and "\<not> e_o_f t" and "crntrec t = 0" and "fltr S = None" and "2 \<le> k"
  shows "skip S k (- 1) t = (Inr 1, t\<lparr>recbuf := replicate (recsz t) (CHR '' ''), crntrec := RECNO_MOD - 1,
    e_o_f := False, t_o_f := False, rec_found := False\<rparr>)"
proof -
  obtain m where k: "k = Suc (Suc m)" using assms(6) by (metis add_2_eq_Suc le_Suc_ex)
  have "reccnt t < RECNO_MOD - 1" "exclusive t" "2 \<le> recsz t" using reccnt_small [OF assms(1)] assms(1) by (simp_all add: tbl_ok_def)
  then show ?thesis
    using assms(2-5)
    by (auto simp: skip_def k cm_simps etof_def move_def clretof_Some hdr_excl setetof_def gorec_out hidden_def isdelete_def byte_at_def)
qed

theorem skip_above_top_witness:
  "\<exists>t. skip alone 5 (- 1) three = (Inr 1, t) \<and> t_o_f t \<and> skip alone 5 (- 1) t = (Inr 1, t\<lparr>recbuf := ''  '', crntrec := RECNO_MOD - 1,
     e_o_f := False, t_o_f := False, rec_found := False\<rparr>)"
proof (intro exI conjI)
  let ?t = "three\<lparr>rec_found := False, t_o_f := True, crntrec := 0\<rparr>"
  show "skip alone 5 (- 1) three = (Inr 1, ?t)"
    using skip_forward_or_back [of three BACKWARD 1 5 alone] three_ok three_path
    by (simp add: inside_def etof_def final_def stop_def)
  have "tbl_ok ?t" using three_ok(1) by (simp add: tbl_ok_def)
  from skip_above_top [OF this, of alone 5]
  show "skip alone 5 (- 1) ?t = (Inr 1, ?t\<lparr>recbuf := ''  '', crntrec := RECNO_MOD - 1, e_o_f := False, t_o_f := False, rec_found := False\<rparr>)"
    by (simp add: alone_def three_def numeral_2_eq_2)
qed simp

text \<open>dbread counts one unit too many when the size is a multiple of 16384, so a table with such records
  opens and cannot be read.\<close>

lemma gorec_16384_fails:
  assumes "recsz t mod IOBUFSIZE = 0" and "0 < recsz t" and "0 \<le> rec_off t r"
    and "nat (rec_off t r) + recsz t \<le> length (tfile t)" and "1 \<le> r" and "r \<le> reccnt t"
  shows "fst (gorec r t) = Inl (Dbe DBREAD)"
  using assms dbread_count_whole [OF assms(1,2), of "drop (nat (rec_off t r)) (tfile t)"]
  by (simp add: gorec_def cm_simps dbread_def)

text \<open>In shared use lock_hdr reads the header again, but gives read_db_hdr the 32 bytes of a DB3 header, which
  that rejects: the record count of a shared DB3 table is never refreshed.\<close>

lemma shared_db3_header_stale:
  assumes "hd_id (thdr t) = DB3_MKR" and "\<not> hdr_locked t" and "lock_tbl_hdr S t = (Inr (), t')"
  shows "thdr t' = thdr t"
proof -
  have r: "fst (read_db_hdr h b 32 True) = h" for h b by (simp add: read_db_hdr_def Let_def)
  have l: "thdr (snd (on_lock m t)) = thdr t" for m :: "'b lm" by (simp add: on_lock_def split: prod.split)
  show ?thesis
    using assms l [of "lock_hdr (me S) (wait S) False 32"] r
    by (auto simp: lock_tbl_hdr_def cm_simps dbread_def Let_def split: if_splits prod.splits sum.splits)
qed

end
