(* ===== verification/Crc.thy ===== *)
theory Crc
  imports C_Text
begin

text \<open>
  The checksum of the rollback log: crc_32 of misc/libcrc-2.0/src/crc32.c, which computes eight bits at a
  time from a table. It agrees with the computation bit by bit, and no change of a single byte escapes it.
\<close>

unbundle bit_operations_syntax

abbreviation (input) CRC_POLY_32 :: "32 word" where "CRC_POLY_32 \<equiv> 0xEDB88320"
abbreviation (input) CRC_START_32 :: "32 word" where "CRC_START_32 \<equiv> 0xFFFFFFFF"

definition crc_bit :: "32 word \<Rightarrow> 32 word" where
  \<comment> \<open>the inner loop of init_crc32_tab\<close>
  "crc_bit crc = (if bit crc 0 then drop_bit 1 crc XOR CRC_POLY_32 else drop_bit 1 crc)"

definition crc_tab32 :: "32 word \<Rightarrow> 32 word" where
  "crc_tab32 i = (crc_bit ^^ 8) i"

definition crc_byte :: "32 word \<Rightarrow> char \<Rightarrow> 32 word" where
  "crc_byte crc c = (let tmp = crc XOR of_nat (cval c) in drop_bit 8 crc XOR crc_tab32 (tmp AND 0xff))"

definition crc_32 :: "string \<Rightarrow> 32 word" where
  "crc_32 s = foldl crc_byte CRC_START_32 s XOR 0xFFFFFFFF"

section \<open>Bit by bit\<close>

lemma crc_bit_xor: "crc_bit (a XOR b) = crc_bit a XOR crc_bit b"
  by (rule bit_word_eqI) (auto simp: crc_bit_def bit_simps)

lemma crc_bits_xor: "(crc_bit ^^ n) (a XOR b) = (crc_bit ^^ n) a XOR (crc_bit ^^ n) b"
  by (induction n) (simp_all add: crc_bit_xor)

lemma crc_bits_high: "n \<le> 8 \<Longrightarrow> (\<forall>i<8. \<not> bit a i) \<Longrightarrow> (crc_bit ^^ n) a = drop_bit n a"
proof (induction n)
  case (Suc n)
  have "\<not> bit (drop_bit n a) 0" using Suc.prems by (simp add: bit_simps)
  then have "crc_bit (drop_bit n a) = drop_bit (Suc n) a" by (simp add: crc_bit_def)
  then show ?case using Suc by simp
qed simp

lemma byte_bits: "bit (of_nat (cval c) :: 32 word) i \<Longrightarrow> i < 8"
proof -
  assume "bit (of_nat (cval c) :: 32 word) i"
  then have "bit (cval c) i" by (simp add: bit_simps)
  moreover have "cval c = take_bit 8 (cval c)" using nat_of_char_less_256 [of c] by (simp add: take_bit_eq_mod)
  ultimately have "bit (take_bit 8 (cval c)) i" by metis
  then show "i < 8" by (simp add: bit_simps)
qed

lemma crc_byte_bits: "crc_byte crc c = (crc_bit ^^ 8) (crc XOR of_nat (cval c))"
proof -
  define x where "x = crc XOR of_nat (cval c)"
  have s: "x = (x AND NOT 0xff) XOR (x AND 0xff)"
    by (rule bit_word_eqI) (auto simp: bit_simps)
  have m: "bit (0xff :: 32 word) i \<longleftrightarrow> i < 8" for i
  proof -
    have e: "(0xff :: 32 word) = mask 8" by (simp add: mask_eq_exp_minus_1)
    show ?thesis unfolding e by (auto simp: bit_simps simp del: mask_numeral)
  qed
  have "(crc_bit ^^ 8) (x AND NOT 0xff) = drop_bit 8 (x AND NOT 0xff)"
  proof (rule crc_bits_high)
    show "\<forall>i<8. \<not> bit (x AND NOT 0xff) i" by (simp only: bit_and_iff bit_not_iff m) simp
  qed simp
  also have "\<dots> = drop_bit 8 crc"
  proof (rule bit_word_eqI)
    fix n assume "n < LENGTH(32)"
    have "bit x (8 + n) = bit crc (8 + n)" using byte_bits [of c "8 + n"] by (simp only: x_def bit_xor_iff) auto
    moreover have "8 + n < 32" if "bit crc (8 + n)" using bit_imp_le_length [OF that] by simp
    ultimately show "bit (drop_bit 8 (x AND NOT 0xff)) n = bit (drop_bit 8 crc) n"
      by (simp only: bit_drop_bit_eq comp_apply bit_and_iff bit_not_iff m) auto
  qed
  finally have "(crc_bit ^^ 8) x = drop_bit 8 crc XOR (crc_bit ^^ 8) (x AND 0xff)"
    by (subst s) (simp add: crc_bits_xor)
  then show ?thesis by (simp add: crc_byte_def crc_tab32_def x_def)
qed

lemma xor_cancel: "a XOR c = b XOR c \<Longrightarrow> a = (b :: 32 word)"
  by (metis xor.assoc xor_self_eq xor.right_neutral)

lemma crc_bit_inj: "crc_bit a = crc_bit b \<Longrightarrow> a = b"
proof -
  assume e: "crc_bit a = crc_bit b"
  have t: "bit (crc_bit x) 31 = bit x 0" for x using bit_imp_le_length [of x 32] by (auto simp: crc_bit_def bit_simps)
  have 0: "bit a 0 = bit b 0" using e t by metis
  have "drop_bit 1 a = drop_bit 1 b"
  proof (cases "bit a 0")
    case True
    then have "drop_bit 1 a XOR CRC_POLY_32 = drop_bit 1 b XOR CRC_POLY_32" using e 0 unfolding crc_bit_def by simp
    then show ?thesis by (rule xor_cancel)
  next
    case False
    then show ?thesis using e 0 by (simp add: crc_bit_def)
  qed
  then have "bit a (Suc i) = bit b (Suc i)" for i by (metis bit_drop_bit_eq comp_apply plus_1_eq_Suc)
  then show "a = b" using 0 by (intro bit_word_eqI) (metis not0_implies_Suc)
qed

lemma crc_bits_inj: "(crc_bit ^^ n) a = (crc_bit ^^ n) b \<Longrightarrow> a = b"
  by (induction n) (auto dest: crc_bit_inj)

lemma crc_rest_inj: "foldl crc_byte a s = foldl crc_byte b s \<Longrightarrow> a = b"
  by (induction s arbitrary: a b) (auto simp: crc_byte_bits dest!: crc_bits_inj xor_cancel)

text \<open>C27: The checksum that is computed from the table is that of the shift register: the register takes in each
byte and is shifted eight times, with the polynomial added whenever a one falls out.\<close>
theorem crc_32_bitwise:
  "crc_32 s = foldl (\<lambda>crc c. (crc_bit ^^ 8) (crc XOR of_nat (cval c))) CRC_START_32 s XOR 0xFFFFFFFF"
proof -
  have "crc_byte = (\<lambda>crc c. (crc_bit ^^ 8) (crc XOR of_nat (cval c)))" by (intro ext crc_byte_bits)
  then show ?thesis by (simp add: crc_32_def)
qed

text \<open>Two texts that differ in exactly one byte never have the same checksum, so a log entry with one damaged
byte is not taken for an original record.\<close>
theorem crc_32_one_byte:
  assumes "c \<noteq> d"
  shows "crc_32 (s @ c # t) \<noteq> crc_32 (s @ d # t)"
proof
  assume "crc_32 (s @ c # t) = crc_32 (s @ d # t)"
  then have "foldl crc_byte (crc_byte (foldl crc_byte CRC_START_32 s) c) t = foldl crc_byte (crc_byte (foldl crc_byte CRC_START_32 s) d) t"
    unfolding crc_32_def by (simp add: xor_cancel)
  then have "crc_byte (foldl crc_byte CRC_START_32 s) c = crc_byte (foldl crc_byte CRC_START_32 s) d" by (rule crc_rest_inj)
  then have "foldl crc_byte CRC_START_32 s XOR of_nat (cval c) = foldl crc_byte CRC_START_32 s XOR of_nat (cval d)"
    unfolding crc_byte_bits by (rule crc_bits_inj)
  then have e: "(of_nat (cval c) :: 32 word) = of_nat (cval d)" by (metis xor.commute xor_cancel)
  have "unat (of_nat (cval x) :: 32 word) = cval x" for x
    using less_trans [OF nat_of_char_less_256 [of x], of "2 ^ 32"] by (simp add: unat_of_nat)
  then have "cval c = cval d" using e by metis
  then show False using assms by simp
qed

theorem crc_32_one_byte_witness: "crc_32 (''ab'' @ CHR ''c'' # ''de'') \<noteq> crc_32 (''ab'' @ CHR ''x'' # ''de'')"
  by (rule crc_32_one_byte) simp

end
