(* ===== verification/Table_Update.thy ===== *)
theory Table_Update
  imports Tables Crc
begin

text \<open>
  Changing a table: the record and header writes of server/dbe/db.c, _apblank of server/dbe/append.c, dbpack
  of server/dbe/pack.c and the log of original records that server/dbe/transac.c keeps for a rollback. The
  main results: what APPEND BLANK, DELETE, RECALL, REPLACE and PACK leave in the file, as operations on the
  list of the table's records, and that the header in the file agrees with it.
\<close>

section \<open>Writing\<close>

abbreviation (input) MAXBUFSZ :: nat where "MAXBUFSZ \<equiv> 65536"
abbreviation (input) MAXNRECS :: nat where "MAXNRECS \<equiv> 18446744073709551614"
abbreviation (input) R_APPEND :: nat where "R_APPEND \<equiv> 1"
abbreviation (input) R_UPDATE :: nat where "R_UPDATE \<equiv> 2"
abbreviation (input) R_PACK :: nat where "R_PACK \<equiv> 3"
abbreviation (input) R_DELRCAL :: nat where "R_DELRCAL \<equiv> 4"

definition may_modify :: "tbl \<Rightarrow> bool" where
  \<comment> \<open>access & HBMODIFY\<close>
  "may_modify t \<longleftrightarrow> odd (access t div 2)"

definition may_append :: "tbl \<Rightarrow> bool" where
  \<comment> \<open>access & HBAPPEND\<close>
  "may_append t \<longleftrightarrow> odd (access t div 8)"

definition end_file :: "nat \<Rightarrow> string \<Rightarrow> string" where
  \<comment> \<open>lseek, write of two EOF_MKR, chsize to the position behind them\<close>
  "end_file off f = take (off + 2) (patch off [EOF_MKR, EOF_MKR] f)"

definition update_hdr :: "session \<Rightarrow> bool \<Rightarrow> unit tm" where
  \<comment> \<open>the record count is the one from before the header is locked and read again. A header that
    write_db_hdr refuses is written with the length -1: undefined. The names of index files (setndx)
    are not modelled\<close>
  "update_hdr S do_lock =
     bnd (getst reccnt) (\<lambda>n.
     bnd (if do_lock then lock_tbl_hdr S else ret ()) (\<lambda>_.
     bnd (getst fextd) (\<lambda>ext.
     bnd (if ext then
            bnd (modst (set_reccnt n)) (\<lambda>_.
            bnd (getst (\<lambda>t. rec_off t (n + 1))) (\<lambda>off.
            if off < 0 then raise Undefined
            else modst (\<lambda>t. t\<lparr>tfile := end_file (nat off) (tfile t), fextd := False\<rparr>)))
          else ret ()) (\<lambda>_.
     bnd (getst id) (\<lambda>t.
     bnd (if dbmdfy t then
            (case write_db_hdr (thdr t) MAXBUFSZ of
               (h, None) \<Rightarrow> raise Undefined
             | (h, Some w) \<Rightarrow>
                 bnd (modst (\<lambda>t. t\<lparr>thdr := h\<rparr>)) (\<lambda>_. bnd (dbwrite w 0) (\<lambda>_. modst (\<lambda>t. t\<lparr>dbmdfy := False\<rparr>))))
          else ret ()) (\<lambda>_.
     if do_lock then unlock_tbl_hdr S else ret ()))))))"

definition write_rec :: "bool \<Rightarrow> unit tm" where
  "write_rec mark_only =
     bnd (getst id) (\<lambda>t. dbwrite (take (if mark_only then 1 else recsz t) (recbuf t)) (rec_off t (crntrec t)))"

definition set_mark :: "char \<Rightarrow> unit tm" where
  \<comment> \<open>*get_rec_buf() = mark\<close>
  "set_mark c = modst (\<lambda>t. t\<lparr>recbuf := c # tl (recbuf t)\<rparr>)"

definition rbk_entry :: "nat \<Rightarrow> string \<Rightarrow> string" where
  \<comment> \<open>checksum, record number and record\<close>
  "rbk_entry recno b = put_le 4 (unat (crc_32 (put_le 8 recno @ b))) @ put_le 8 recno @ b"

definition rbk_write :: "session \<Rightarrow> unit tm" where
  "rbk_write S =
     bnd (getst id) (\<lambda>t.
     case rbk_fd t of
       None \<Rightarrow> raise (Dbe DBWRITE)
     | Some f \<Rightarrow>
         let f' = f @ rbk_entry (rbk_recno t) (rbk_buf t) in
         modst (\<lambda>t. t\<lparr>rbk_fd := Some f', rbk_pos := length f'\<rparr>))"

primrec save_lock :: "session \<Rightarrow> nat \<Rightarrow> nat \<Rightarrow> unit tm" where
  \<comment> \<open>from the label lck on, with the retries that are left\<close>
  "save_lock S mode 0 = raise (Dbe TRANSAC_EXCL)"
| "save_lock S mode (Suc k) =
     bnd (getst crntrec) (\<lambda>r.
     bnd (tr_lock S r HB_WRLCK False) (\<lambda>rc.
     if rc < 0 then raise (Syn NORLOCK)
     else if mode \<noteq> R_UPDATE then ret ()
     else
       bnd get_db_rec (\<lambda>b.
       if byte_at b 0 = TRANS_MKR then
         bnd (tr_lock S r HB_UNLCK False) (\<lambda>_.
         if k = 0 then raise (Dbe TRANSAC_EXCL)
         else bnd (modst (\<lambda>t. t\<lparr>kern := wait S k (kern t), tfile := others S k (tfile t)\<rparr>)) (\<lambda>_. save_lock S mode k))
       else if byte_at b 0 \<noteq> VAL_MKR then raise (Dbe INVALID_REC)
       else
         bnd (modst (\<lambda>t. t\<lparr>rbk_buf := take (recsz t) b, rbk_recno := crntrec t\<rparr>)) (\<lambda>_.
         if in_trans S then bnd (rbk_write S) (\<lambda>_. bnd (set_mark TRANS_MKR) (\<lambda>_. write_rec True)) else ret ()))))"

definition save_rec :: "session \<Rightarrow> nat \<Rightarrow> unit tm" where
  "save_rec S mode =
     bnd (getst id) (\<lambda>t.
     if is_readonly (lk t) then raise (Dbe DB_READONLY)
     else
       bnd (if mode = R_UPDATE \<or> mode = R_DELRCAL \<or> mode = R_APPEND
            then if \<not> may_modify t then raise (Dbe DB_ACCESS) else save_lock S mode LRETRY
            else ret ()) (\<lambda>_.
       modst (\<lambda>t. t\<lparr>lk := (lk t)\<lparr>lock_mode := mode\<rparr>\<rparr>)))"

definition store_rec :: "session \<Rightarrow> unit tm" where
  \<comment> \<open>without an active index: the key of the record is not updated\<close>
  "store_rec S =
     bnd (getst (\<lambda>t. lock_mode (lk t))) (\<lambda>mode.
     bnd (write_rec False) (\<lambda>_.
     bnd (modst (\<lambda>t. t\<lparr>dbmdfy := True\<rparr>)) (\<lambda>_.
     bnd (if mode = R_APPEND then
            bnd (modst (\<lambda>t. (set_reccnt ((reccnt t + 1) mod RECNO_MOD) t)\<lparr>fextd := True\<rparr>)) (\<lambda>_.
            bnd (update_hdr S False) (\<lambda>_.
            modst (\<lambda>t. t\<lparr>lk := (lk t)\<lparr>lock_mode := 0\<rparr>\<rparr>)))
          else ret ()) (\<lambda>_.
     if mode = R_PACK then ret ()
     else
       bnd (if mode = R_UPDATE then modst (\<lambda>t. t\<lparr>rbk_recno := 0\<rparr>) else ret ()) (\<lambda>_.
       bnd (getst id) (\<lambda>t.
       if mode = R_APPEND \<or> blkcmp (tl (recbuf t)) (tl (rbk_buf t)) (recsz t - 1) \<noteq> 0
       then bnd (tr_lock S (crntrec t) HB_UNLCK False) (\<lambda>_. ret ())
       else ret ()))))))"

section \<open>Deleting, appending, packing\<close>

definition del_recall :: "session \<Rightarrow> char \<Rightarrow> bool tm" where
  "del_recall S mark =
     bnd valid_chk (\<lambda>_.
     bnd (getst id) (\<lambda>t.
     if \<not> etof None t \<and> byte_at (recbuf t) 0 \<noteq> mark then
       bnd (save_rec S R_DELRCAL) (\<lambda>_.
       bnd (set_mark mark) (\<lambda>_.
       bnd (write_rec True) (\<lambda>_.
       bnd (tr_lock S (crntrec t) HB_UNLCK False) (\<lambda>_. ret True))))
     else ret False))"

definition del_recall_op :: "session \<Rightarrow> nat \<Rightarrow> nat \<Rightarrow> unit tm" where
  \<comment> \<open>the instruction DEL_RECALL, without the count of the records it reports: the mark, with 0x80 for the last call\<close>
  "del_recall_op S k mode =
     (let mark = char_of (mode mod 128) in
      if mode div 128 mod 2 = 0 then bnd (del_recall S mark) (\<lambda>_. ret ())
      else if mark = DEL_MKR \<and> delete_on S then
        bnd (skip S k 1) (\<lambda>_. bnd (getst e_o_f) (\<lambda>e. if e then gobot S k else ret ()))
      else ret ())"

definition mark_cmd :: "session \<Rightarrow> nat \<Rightarrow> char \<Rightarrow> unit tm" where
  \<comment> \<open>DELETE and RECALL without a scope, as they are compiled\<close>
  "mark_cmd S k m = bnd (del_recall_op S k (of_char m)) (\<lambda>_. del_recall_op S k (128 + of_char m))"

primrec append_loop :: "session \<Rightarrow> bool \<Rightarrow> nat \<Rightarrow> unit tm" where
  "append_loop S mode 0 = ret ()"
| "append_loop S mode (Suc nrec) =
     bnd (getst reccnt) (\<lambda>n.
     bnd (gorec ((n + 1) mod RECNO_MOD)) (\<lambda>_.
     bnd (getst crntrec) (\<lambda>r.
     bnd (if mode then tr_lock S r HB_WRLCK False else ret 0) (\<lambda>rc.
     if rc < 0 then raise (Syn NORLOCK)
     else
       bnd (modst (\<lambda>t. t\<lparr>recbuf := replicate (recsz t) (CHR '' '')\<rparr>)) (\<lambda>_.
       bnd (save_rec S R_APPEND) (\<lambda>_.
       bnd (if mode then store_rec S else ret ()) (\<lambda>_. append_loop S mode nrec)))))))"

definition apblank :: "session \<Rightarrow> bool \<Rightarrow> nat \<Rightarrow> unit tm" where
  \<comment> \<open>mode 0 leaves the record to be filled and stored by the caller; nrec is the number of the batch, else 1\<close>
  "apblank S mode nrec =
     bnd valid_chk (\<lambda>_.
     bnd (getst id) (\<lambda>t.
     if is_readonly (lk t) then raise (Dbe DB_READONLY)
     else if MAXNRECS \<le> reccnt t then raise (Dbe TOOMANYRECS)
     else if \<not> may_append t then raise (Dbe DB_ACCESS)
     else
       bnd (lock_tbl_hdr S) (\<lambda>_.
       bnd (clretof S None) (\<lambda>_.
       bnd (append_loop S mode nrec) (\<lambda>_. unlock_tbl_hdr S)))))"

primrec pack_find :: "session \<Rightarrow> nat \<Rightarrow> nat \<Rightarrow> nat \<Rightarrow> nat tm" where
  \<comment> \<open>for (; from <= treccnt; ++from): k records are left; the value of from at the end\<close>
  "pack_find S to frm 0 = ret frm"
| "pack_find S to frm (Suc k) =
     bnd (gorec frm) (\<lambda>_.
     bnd (getst isdelete) (\<lambda>d.
     if d then pack_find S to (frm + 1) k
     else
       bnd (getst recbuf) (\<lambda>b.
       bnd (del_recall S DEL_MKR) (\<lambda>_.
       bnd (gorec to) (\<lambda>_.
       bnd (modst (\<lambda>t. t\<lparr>recbuf := b\<rparr>)) (\<lambda>_.
       bnd (save_rec S R_PACK) (\<lambda>_.
       bnd (store_rec S) (\<lambda>_. ret frm))))))))"

primrec pack_loop :: "session \<Rightarrow> nat \<Rightarrow> nat \<Rightarrow> nat \<Rightarrow> nat \<Rightarrow> nat tm" where
  \<comment> \<open>for (to = 1, from = 0; to <= treccnt; ++to): the value of to at the end\<close>
  "pack_loop S n to frm 0 = ret to"
| "pack_loop S n to frm (Suc k) =
     bnd (gorec to) (\<lambda>_.
     bnd (getst isdelete) (\<lambda>d.
     if d then
       let frm = (if frm = 0 then to + 1 else frm) in
       bnd (pack_find S to frm (n + 1 - frm)) (\<lambda>frm.
       if n < frm then ret to else pack_loop S n (to + 1) frm k)
     else pack_loop S n (to + 1) frm k))"

definition dbpack :: "session \<Rightarrow> nat \<Rightarrow> unit tm" where
  \<comment> \<open>of a table without memo fields and without an active index; the record count is that of the header in memory.
    fuel is for gotop\<close>
  "dbpack S fuel =
     bnd valid_chk (\<lambda>_.
     bnd (on_lock (f_lock (me S) (wait S) True)) (\<lambda>rc.
     if rc < 0 then raise (Syn NOFLOCK)
     else
       bnd (getst reccnt) (\<lambda>n.
       bnd (pack_loop S n 1 0 n) (\<lambda>to.
       bnd (modst (set_reccnt (to - 1))) (\<lambda>_.
       bnd (if to - 1 = 0 then setetof None else ret ()) (\<lambda>_.
       bnd (modst (\<lambda>t. t\<lparr>fextd := True, dbmdfy := True\<rparr>)) (\<lambda>_.
       bnd (update_hdr S False) (\<lambda>_.
       bnd (gotop S fuel) (\<lambda>_. on_lock (f_unlock (me S)))))))))))"

section \<open>A table file as a list of records\<close>

definition recs :: "tbl \<Rightarrow> string list" where
  "recs t = map (rec_at t) [1 ..< reccnt t + 1]"

definition lay :: "tbl \<Rightarrow> string \<Rightarrow> string list \<Rightarrow> string \<Rightarrow> bool" where
  \<comment> \<open>the file is the header area, the records and what is behind them\<close>
  "lay t H rs T \<longleftrightarrow> tfile t = H @ concat rs @ T \<and> length H = nat (hd_doffset (thdr t)) \<and> length rs = reccnt t
     \<and> (\<forall>r\<in>set rs. length r = recsz t)"

lemma length_concat_const: "\<forall>r\<in>set rs. length r = k \<Longrightarrow> length (concat rs) = length rs * k"
  by (induction rs) auto

lemma concat_chunks:
  "n * k \<le> length f \<Longrightarrow> f = concat (map (\<lambda>i. take k (drop (i * k) f)) [0 ..< n]) @ drop (n * k) f"
proof (induction n)
  case (Suc n)
  have "drop (n * k) f = take k (drop (n * k) f) @ drop (Suc n * k) f"
    by (metis add.commute append_take_drop_id drop_drop mult_Suc)
  then show ?case using Suc by simp
qed simp

lemma lay_length: "lay t H rs T \<Longrightarrow> nat (hd_doffset (thdr t)) + reccnt t * recsz t \<le> length (tfile t)"
  using length_concat_const [of rs "recsz t"] by (simp add: lay_def)

lemma tbl_ok_lay:
  "tbl_ok t \<Longrightarrow> lay t' H rs T \<Longrightarrow> thdr t' = thdr t \<Longrightarrow> exclusive t' \<Longrightarrow> in_use (lk t')
    \<Longrightarrow> length (recbuf t') = recsz t' \<Longrightarrow> tbl_ok t'"
  using lay_length [of t' H rs T] by (simp add: tbl_ok_def)

lemma lay_recs:
  assumes "lay t H rs T"
  shows "recs t = rs"
proof (rule nth_equalityI)
  show "length (recs t) = length rs" using assms by (simp add: recs_def lay_def)
  fix i assume "i < length (recs t)"
  then have i: "i < length rs" using assms by (simp add: recs_def lay_def del: upt_Suc)
  have l: "\<forall>r\<in>set (take i rs). length r = recsz t" "length (rs ! i) = recsz t"
    using assms i in_set_takeD unfolding lay_def by fastforce+
  have "tfile t = (H @ concat (take i rs)) @ rs ! i @ concat (drop (Suc i) rs) @ T"
    using assms i by (simp add: lay_def) (metis append.assoc concat.simps(2) concat_append id_take_nth_drop)
  moreover have "length (H @ concat (take i rs)) = nat (hd_doffset (thdr t)) + i * recsz t"
    using assms i length_concat_const [OF l(1)] by (simp add: lay_def)
  ultimately have "rec_at t (Suc i) = rs ! i"
    unfolding rec_at_def using l(2) by (metis append_eq_conv_conj diff_Suc_1)
  then show "recs t ! i = rs ! i" using i assms by (simp add: recs_def lay_def del: upt_Suc)
qed

lemma lay_ex:
  assumes "tbl_ok t"
  obtains H T where "lay t H (recs t) T"
proof
  let ?d = "nat (hd_doffset (thdr t))" and ?f = "drop (nat (hd_doffset (thdr t))) (tfile t)"
  have l: "?d + reccnt t * recsz t \<le> length (tfile t)" using assms by (simp add: tbl_ok_def)
  have "map (rec_at t) [1 ..< reccnt t + 1] = map (\<lambda>i. rec_at t (Suc i)) [0 ..< reccnt t]"
    by (rule nth_equalityI) (simp_all del: upt_Suc)
  also have "\<dots> = map (\<lambda>i. take (recsz t) (drop (i * recsz t) ?f)) [0 ..< reccnt t]"
    by (simp add: rec_at_def add.commute)
  finally have m: "recs t = map (\<lambda>i. take (recsz t) (drop (i * recsz t) ?f)) [0 ..< reccnt t]" by (simp only: recs_def)
  have "reccnt t * recsz t \<le> length ?f" using l by simp
  then have "?f = concat (recs t) @ drop (reccnt t * recsz t) ?f" unfolding m by (rule concat_chunks)
  then have "tfile t = take ?d (tfile t) @ concat (recs t) @ drop (reccnt t * recsz t) ?f"
    by (metis append_take_drop_id)
  moreover have "\<forall>r\<in>set (recs t). length r = recsz t"
    using length_rec_at [OF assms] by (auto simp: recs_def)
  ultimately show "lay t (take ?d (tfile t)) (recs t) (drop (reccnt t * recsz t) ?f)"
    using l by (simp add: lay_def recs_def min_def)
qed

lemma lay_rec_at:
  assumes "lay t H rs T" and "1 \<le> r" and "r \<le> reccnt t"
  shows "rec_at t r = rs ! (r - 1)"
proof -
  have "recs t ! (r - 1) = rec_at t r" using assms(2,3) by (simp add: recs_def del: upt_Suc)
  then show ?thesis using lay_recs [OF assms(1)] by simp
qed

lemma patch_inside: "length d = length x \<Longrightarrow> patch (length A) d (A @ x @ B) = A @ d @ B"
  by (cases "d = []") (simp_all add: patch_def)

lemma patch_at: "d \<noteq> [] \<Longrightarrow> patch (length A) d (A @ B) = A @ d @ drop (length d) B"
  by (simp add: patch_def)

lemma patch_front: "length w \<le> length A \<Longrightarrow> patch 0 w (A @ B) = (w @ drop (length w) A) @ B"
  by (cases "w = []") (simp_all add: patch_def)

lemma lay_split:
  assumes "lay t H rs T" and "i < length rs"
  shows "tfile t = (H @ concat (take i rs)) @ rs ! i @ concat (drop (Suc i) rs) @ T"
    and "length (H @ concat (take i rs)) = nat (hd_doffset (thdr t)) + i * recsz t"
proof -
  have l: "\<forall>r\<in>set (take i rs). length r = recsz t" using assms in_set_takeD unfolding lay_def by fastforce
  show "tfile t = (H @ concat (take i rs)) @ rs ! i @ concat (drop (Suc i) rs) @ T"
    using assms by (simp add: lay_def) (metis append.assoc concat.simps(2) concat_append id_take_nth_drop)
  show "length (H @ concat (take i rs)) = nat (hd_doffset (thdr t)) + i * recsz t"
    using assms length_concat_const [OF l] by (simp add: lay_def)
qed

definition with_recs :: "tbl \<Rightarrow> string \<Rightarrow> string list \<Rightarrow> string \<Rightarrow> tbl" where
  "with_recs t H rs T = t\<lparr>tfile := H @ concat rs @ T\<rparr>"

lemma write_rec_at:
  assumes t: "tbl_ok t" and l: "lay t H rs T" and c: "1 \<le> crntrec t" "crntrec t \<le> reccnt t"
  shows "write_rec False t = (Inr (), with_recs t H (rs[crntrec t - 1 := recbuf t]) T)"
    and "write_rec True t = (Inr (), with_recs t H (rs[crntrec t - 1 := hd (recbuf t) # tl (rs ! (crntrec t - 1))]) T)"
proof -
  let ?i = "crntrec t - 1"
  have i: "?i < length rs" using l c by (simp add: lay_def)
  note o = rec_off_in [OF t c(1)] and s = lay_split [OF l i]
  have b: "length (recbuf t) = recsz t" "length (rs ! ?i) = recsz t" "2 \<le> recsz t" using t l i by (auto simp: tbl_ok_def lay_def)
  have off: "nat (rec_off t (crntrec t)) = length (H @ concat (take ?i rs))" "\<not> rec_off t (crntrec t) < 0"
    using o(2,3) c s(2) by simp_all
  have u: "concat (rs[?i := x]) = concat (take ?i rs) @ x @ concat (drop (Suc ?i) rs)" for x
    using i by (simp add: upd_conv_take_nth_drop)
  have f: "patch (nat (rec_off t (crntrec t))) (recbuf t) (tfile t) = H @ concat (rs[?i := recbuf t]) @ T"
    unfolding off s(1) u using b by (subst patch_inside) simp_all
  show "write_rec False t = (Inr (), with_recs t H (rs[?i := recbuf t]) T)"
    using off b f by (simp add: write_rec_def dbwrite_def cm_simps with_recs_def)
  obtain x y where xy: "recbuf t = x # y" using b by (cases "recbuf t") auto
  obtain v w where vw: "rs ! ?i = v # w" using b by (cases "rs ! ?i") auto
  have "patch (nat (rec_off t (crntrec t))) [x] (tfile t) = H @ concat (rs[?i := x # w]) @ T"
    unfolding off s(1) u vw using patch_inside [of "[x]" "[v]" "H @ concat (take ?i rs)"] by simp
  then show "write_rec True t = (Inr (), with_recs t H (rs[?i := hd (recbuf t) # tl (rs ! ?i)]) T)"
    using off xy vw by (simp add: write_rec_def dbwrite_def cm_simps with_recs_def)
qed

lemma write_rec_append:
  assumes t: "tbl_ok t" and l: "lay t H rs T" and c: "crntrec t = reccnt t + 1"
  shows "write_rec False t = (Inr (), with_recs t H (rs @ [recbuf t]) (drop (recsz t) T))"
proof -
  have o: "nat (rec_off t (crntrec t)) = length (H @ concat rs)" "\<not> rec_off t (crntrec t) < 0"
    using rec_off_in [OF t, of "crntrec t"] c l length_concat_const [of rs "recsz t"] by (simp_all add: lay_def)
  have b: "length (recbuf t) = recsz t" "recbuf t \<noteq> []" using t by (auto simp: tbl_ok_def)
  have "tfile t = (H @ concat rs) @ T" using l by (simp add: lay_def)
  then have "patch (nat (rec_off t (crntrec t))) (recbuf t) (tfile t) = H @ concat (rs @ [recbuf t]) @ drop (recsz t) T"
    using patch_at [OF b(2), of "H @ concat rs" T] o(1) b(1) by simp
  then show ?thesis using o b by (simp add: write_rec_def dbwrite_def cm_simps with_recs_def)
qed

section \<open>The header in the file\<close>

definition hdr_fits :: "table_hdr \<Rightarrow> bool" where
  "hdr_fits h \<longleftrightarrow> hdr_ok h \<and> length (hd_fdlist h) < MAXFLD"

definition on_disk :: "tbl \<Rightarrow> bool" where
  \<comment> \<open>what a client that opens the file reads is the header in memory\<close>
  "on_disk t \<longleftrightarrow> (\<forall>h. read_db_hdr h (tfile t) (length (tfile t)) False = (thdr t, int (hd_hdlen (thdr t))))"

lemma write_hdr_some:
  assumes "hdr_fits h"
  obtains w where "write_db_hdr h MAXBUFSZ = (h, Some w)" "length w = hd_hdlen h" "int (length w) \<le> hd_doffset h"
    "\<And>h0 r. read_db_hdr h0 (w @ r) (length (w @ r)) False = (h, int (hd_hdlen h))"
proof -
  have ok: "hdr_ok h" and n: "length (hd_fdlist h) < MAXFLD" using assms by (simp_all add: hdr_fits_def)
  have m: "hd_mkr (hd_id h) = DB3_MKR \<or> hd_mkr (hd_id h) = DB5_MKR" "1 \<le> length (hd_fdlist h)"
    using ok unfolding hdr_ok_def Let_def by blast+
  have "\<exists>h' w. write_db_hdr h MAXBUFSZ = (h', Some w)"
    using m n by (auto simp: write_db_hdr_def Let_def)
  then obtain h' w where w: "write_db_hdr h MAXBUFSZ = (h', Some w)" by blast
  note r = hdr_roundtrip [OF ok w]
  show thesis using that [of w] w r(1,3,4) [OF order_refl] r(2) by simp
qed

lemma end_file_at: "end_file (length A) (A @ B) = A @ [EOF_MKR, EOF_MKR]"
  by (simp add: end_file_def patch_at)

definition filed :: "tbl \<Rightarrow> string list \<Rightarrow> bool" where
  \<comment> \<open>the file holds these records, an end mark and a header that agrees\<close>
  "filed t rs \<longleftrightarrow> recs t = rs \<and> on_disk t
     \<and> tfile t = take (nat (hd_doffset (thdr t))) (tfile t) @ concat rs @ [EOF_MKR, EOF_MKR]"

lemma recs_cong: "tfile t' = tfile t \<Longrightarrow> thdr t' = thdr t \<Longrightarrow> recs t' = recs t"
  by (simp add: recs_def rec_at_def del: upt_Suc cong: map_cong)

lemma filed_cong: "filed t rs \<Longrightarrow> tfile t' = tfile t \<Longrightarrow> thdr t' = thdr t \<Longrightarrow> filed t' rs"
  using recs_cong [of t' t] by (simp add: filed_def on_disk_def)

lemma update_hdr_files:
  assumes t: "tbl_ok t" and f: "fextd t" "dbmdfy t" "hdr_fits (thdr t)" and l: "lay t H rs T"
  obtains H' where "update_hdr S False t = (Inr (), (with_recs t H' rs [EOF_MKR, EOF_MKR])\<lparr>fextd := False, dbmdfy := False\<rparr>)"
    and "length H' = length H" and "filed (with_recs t H' rs [EOF_MKR, EOF_MKR]) rs"
proof -
  obtain w where w: "write_db_hdr (thdr t) MAXBUFSZ = (thdr t, Some w)" "int (length w) \<le> hd_doffset (thdr t)"
    "\<And>h0 r. read_db_hdr h0 (w @ r) (length (w @ r)) False = (thdr t, int (hd_hdlen (thdr t)))"
    using write_hdr_some [OF f(3)] by metis
  define H' where "H' = w @ drop (length w) H"
  have lw: "length w \<le> length H" using w(2) l by (simp add: lay_def)
  have n: "length rs = reccnt t" "tfile t = (H @ concat rs) @ T" "length H = nat (hd_doffset (thdr t))" using l by (simp_all add: lay_def)
  have lc: "length (concat rs) = reccnt t * recsz t" using l length_concat_const [of rs "recsz t"] by (simp add: lay_def)
  have o: "nat (rec_off t (reccnt t + 1)) = length (H @ concat rs)" "\<not> rec_off t (reccnt t + 1) < 0"
    using rec_off_in [OF t, of "reccnt t + 1"] lc n(3) by simp_all
  have e: "end_file (nat (rec_off t (reccnt t + 1))) (tfile t) = H @ concat rs @ [EOF_MKR, EOF_MKR]"
    unfolding o(1) n(2) end_file_at by simp
  have p: "patch 0 w (H @ concat rs @ [EOF_MKR, EOF_MKR]) = H' @ concat rs @ [EOF_MKR, EOF_MKR]"
    using patch_front [OF lw] by (simp add: H'_def)
  have id: "t\<lparr>thdr := thdr t\<lparr>hd_reccnt := reccnt t\<rparr>\<rparr> = t" by simp
  have u: "update_hdr S False t = (Inr (), (with_recs t H' rs [EOF_MKR, EOF_MKR])\<lparr>fextd := False, dbmdfy := False\<rparr>)"
    using f o(2) e p w(1)
    by (simp add: update_hdr_def cm_simps set_reccnt_def dbwrite_def with_recs_def)
  have "lay (with_recs t H' rs [EOF_MKR, EOF_MKR]) H' rs [EOF_MKR, EOF_MKR]"
    using l lw by (simp add: lay_def with_recs_def H'_def)
  then have r: "recs (with_recs t H' rs [EOF_MKR, EOF_MKR]) = rs" by (rule lay_recs)
  have d: "on_disk (with_recs t H' rs [EOF_MKR, EOF_MKR])"
    unfolding on_disk_def with_recs_def using w(3) [of _ "drop (length w) H @ concat rs @ [EOF_MKR, EOF_MKR]"]
    by (simp add: H'_def)
  have "filed (with_recs t H' rs [EOF_MKR, EOF_MKR]) rs"
    using r d n(3) lw by (simp add: filed_def) (simp add: with_recs_def H'_def)
  then show thesis using that [OF u] lw by (simp add: H'_def)
qed

section \<open>Appending\<close>

definition writable :: "tbl \<Rightarrow> bool" where
  "writable t \<longleftrightarrow> \<not> is_readonly (lk t) \<and> may_modify t"

lemma save_rec_excl:
  assumes "exclusive t" "in_use (lk t)" "writable t" "crntrec t \<noteq> 0" "mode \<noteq> R_UPDATE"
  shows "save_rec S mode t = (Inr (), t\<lparr>lk := (lk t)\<lparr>lock_mode := mode\<rparr>\<rparr>)"
proof -
  have "save_lock S mode (Suc 99) t = (Inr (), t)"
    using assms tr_lock_excl_0 [of t "crntrec t" S HB_WRLCK False]
    by (simp only: save_lock.simps) (simp add: cm_simps writable_def)
  then have "save_lock S mode LRETRY t = (Inr (), t)" by simp
  then show ?thesis using assms by (auto simp: save_rec_def cm_simps writable_def)
qed

definition room :: "tbl \<Rightarrow> bool" where
  "room t \<longleftrightarrow> nat (hd_doffset (thdr t)) + (reccnt t + 2) * recsz t < 2 ^ 63"

definition on_record :: "tbl \<Rightarrow> bool" where
  \<comment> \<open>valid_chk passes\<close>
  "on_record t \<longleftrightarrow> etof None t \<or> crntrec t \<noteq> 0 \<or> reccnt t = 0"

lemma valid_chk_ok: "in_use (lk t) \<Longrightarrow> on_record t \<Longrightarrow> valid_chk t = (Inr (), t)"
  by (auto simp: valid_chk_def cm_simps on_record_def)

lemma apblank_files:
  assumes t: "tbl_ok t" and "room t" and w: "writable t" "may_append t" and "on_record t"
    and fits: "hdr_fits ((thdr t)\<lparr>hd_reccnt := reccnt t + 1\<rparr>)"
  obtains t' where "apblank S True 1 t = (Inr (), t')" "filed t' (recs t @ [replicate (recsz t) (CHR '' '')])"
    "tbl_ok t'" "crntrec t' = reccnt t + 1" "reccnt t' = reccnt t + 1" "\<not> etof None t'" "recsz t' = recsz t"
    "recbuf t' = replicate (recsz t) (CHR '' '')"
proof -
  let ?n = "reccnt t" and ?b = "replicate (recsz t) (CHR '' '')"
  have x: "exclusive t" "in_use (lk t)" "2 \<le> recsz t" using t by (simp_all add: tbl_ok_def)
  have n: "?n + 1 < RECNO_MOD - 1" by (rule reccnt_small [OF t])
  obtain H T where l: "lay t H (recs t) T" by (rule lay_ex [OF t])
  define t1 where "t1 = t\<lparr>e_o_f := False, t_o_f := False, recbuf := ?b, crntrec := ?n + 1, lk := (lk t)\<lparr>lock_mode := R_APPEND\<rparr>\<rparr>"
  let ?rs = "recs t @ [?b]" and ?T = "drop (recsz t) T"
  define t2 where "t2 = (with_recs t1 H ?rs ?T)\<lparr>dbmdfy := True, thdr := (thdr t)\<lparr>hd_reccnt := ?n + 1\<rparr>, fextd := True\<rparr>"
  have t1: "tbl_ok t1" using t by (auto simp: tbl_ok_def t1_def)
  have l1: "lay t1 H (recs t) T" using l by (simp add: lay_def t1_def)
  have wr: "write_rec False t1 = (Inr (), with_recs t1 H ?rs ?T)"
    using write_rec_append [OF t1 l1] by (simp add: t1_def)
  have l2: "lay t2 H ?rs ?T" using l by (auto simp: lay_def t2_def with_recs_def)
  have "length (tfile t2) = nat (hd_doffset (thdr t2)) + (?n + 1) * recsz t + length ?T"
    using l2 length_concat_const [of ?rs "recsz t"] by (simp add: lay_def t2_def)
  then have t2: "tbl_ok t2"
    using t1 assms(2) by (auto simp: tbl_ok_def t2_def with_recs_def t1_def room_def algebra_simps)
  have e2: "fextd t2" "dbmdfy t2" "hdr_fits (thdr t2)" using fits by (simp_all add: t2_def)
  obtain H' where u: "update_hdr S False t2 = (Inr (), (with_recs t2 H' ?rs [EOF_MKR, EOF_MKR])\<lparr>fextd := False, dbmdfy := False\<rparr>)"
    "length H' = length H" "filed (with_recs t2 H' ?rs [EOF_MKR, EOF_MKR]) ?rs"
    by (rule update_hdr_files [OF t2 e2 l2])
  define t3 where "t3 = (with_recs t2 H' ?rs [EOF_MKR, EOF_MKR])\<lparr>fextd := False, dbmdfy := False, lk := (lk t)\<lparr>lock_mode := 0\<rparr>\<rparr>"
  have x3: "exclusive t3" using x by (simp add: t3_def)
  obtain z where z: "tr_lock S (?n + 1) HB_UNLCK False t3 = (Inr z, t3)" using tr_lock_excl [OF x3] by blast
  have st: "store_rec S t1 = (Inr (), t3)"
    using wr u(1) z n by (simp add: store_rec_def cm_simps t1_def set_reccnt_def t2_def t3_def with_recs_def)
  let ?u = "t\<lparr>e_o_f := False, t_o_f := False, crntrec := ?n + 1, recbuf := ?b\<rparr>"
  let ?v = "t\<lparr>e_o_f := False, t_o_f := False, recbuf := ?b, crntrec := ?n + 1\<rparr>"
  have lk: "tr_lock S (?n + 1) HB_WRLCK False ?v = (Inr 0, ?v)"
    using x w by (intro tr_lock_excl_0) (simp_all add: writable_def)
  have sv: "save_rec S R_APPEND ?u = (Inr (), t1)"
    using save_rec_excl [of ?u R_APPEND S] x w by (simp add: t1_def writable_def may_modify_def)
  have ap: "apblank S True 1 t = (Inr (), t3)"
    using x n w lk sv st x3
    by (simp add: apblank_def cm_simps valid_chk_ok [OF x(2) assms(5)] writable_def hdr_excl clretof_None gorec_out)
  have "filed t3 ?rs" by (rule filed_cong [OF u(3)]) (simp_all add: t3_def)
  moreover have "tbl_ok t3"
  proof (rule tbl_ok_lay [OF t2])
    show "lay t3 H' ?rs [EOF_MKR, EOF_MKR]" using l2 u(2) by (simp add: lay_def t3_def with_recs_def)
  qed (use x in \<open>simp_all add: t3_def t2_def t1_def with_recs_def\<close>)
  ultimately show thesis
    using that [OF ap] by (simp add: t3_def t2_def t1_def with_recs_def etof_def)
qed

section \<open>Deleting and recalling\<close>

definition marked :: "char \<Rightarrow> string \<Rightarrow> string" where
  "marked c r = c # tl r"

definition deleted :: "string \<Rightarrow> bool" where
  "deleted r \<longleftrightarrow> byte_at r 0 = DEL_MKR"

lemma deleted_marked [simp]: "deleted (marked DEL_MKR r)"
  by (simp add: deleted_def marked_def byte_at_def)

lemma length_marked [simp]: "r \<noteq> [] \<Longrightarrow> length (marked c r) = length r"
  by (simp add: marked_def)

lemma del_recall_marks:
  assumes t: "tbl_ok t" and l: "lay t H rs T" and w: "writable t" and c: "\<not> etof None t" "1 \<le> crntrec t" "crntrec t \<le> reccnt t"
    and m: "byte_at (recbuf t) 0 \<noteq> mark"
  shows "del_recall S mark t = (Inr True, (with_recs t H (rs[crntrec t - 1 := marked mark (rs ! (crntrec t - 1))]) T)
    \<lparr>recbuf := marked mark (recbuf t), lk := (lk t)\<lparr>lock_mode := R_DELRCAL\<rparr>\<rparr>)"
proof -
  let ?u = "t\<lparr>lk := (lk t)\<lparr>lock_mode := R_DELRCAL\<rparr>, recbuf := marked mark (recbuf t)\<rparr>"
  have x: "exclusive t" "in_use (lk t)" "length (recbuf t) = recsz t" "2 \<le> recsz t" using t by (simp_all add: tbl_ok_def)
  then have u: "tbl_ok ?u" "lay ?u H rs T" using t l by (auto simp: tbl_ok_def lay_def marked_def)
  have wr: "write_rec True ?u = (Inr (), with_recs ?u H (rs[crntrec t - 1 := marked mark (rs ! (crntrec t - 1))]) T)"
    using write_rec_at(2) [OF u] c by (simp add: marked_def)
  have ex: "exclusive (with_recs ?u H (rs[crntrec t - 1 := marked mark (rs ! (crntrec t - 1))]) T)" using x by (simp add: with_recs_def)
  obtain z where z: "tr_lock S (crntrec t) HB_UNLCK False (with_recs ?u H (rs[crntrec t - 1 := marked mark (rs ! (crntrec t - 1))]) T)
      = (Inr z, with_recs ?u H (rs[crntrec t - 1 := marked mark (rs ! (crntrec t - 1))]) T)"
    using tr_lock_excl [OF ex] by blast
  have sv: "save_rec S R_DELRCAL t = (Inr (), t\<lparr>lk := (lk t)\<lparr>lock_mode := R_DELRCAL\<rparr>\<rparr>)"
    using save_rec_excl [of t R_DELRCAL S] x w c by simp
  have v: "valid_chk t = (Inr (), t)" using x c by (intro valid_chk_ok) (simp_all add: on_record_def)
  show ?thesis
    using c m v sv wr z by (simp add: del_recall_def cm_simps set_mark_def marked_def) (simp add: with_recs_def)
qed

section \<open>Packing\<close>

definition packing :: "tbl \<Rightarrow> tbl \<Rightarrow> string \<Rightarrow> string list \<Rightarrow> string \<Rightarrow> bool" where
  \<comment> \<open>a state of the packing of t0, with these records now\<close>
  "packing t0 t H rs T \<longleftrightarrow> tbl_ok t \<and> lay t H rs T \<and> writable t \<and> etof None t = etof None t0 \<and> thdr t = thdr t0"

lemma packing_gorec:
  assumes p: "packing t0 t H (A @ x # C) T"
  obtains t' where "gorec (length A + 1) t = (Inr (), t')" "packing t0 t' H (A @ x # C) T" "crntrec t' = length A + 1" "recbuf t' = x"
proof -
  have t: "tbl_ok t" and l: "lay t H (A @ x # C) T" using p by (simp_all add: packing_def)
  have r: "1 \<le> length A + 1" "length A + 1 \<le> reccnt t" using l by (auto simp: lay_def)
  have a: "rec_at t (length A + 1) = x" using lay_rec_at [OF l r] by simp
  let ?u = "t\<lparr>recbuf := rec_at t (length A + 1), crntrec := length A + 1\<rparr>"
  have "gorec (length A + 1) t = (Inr (), ?u)" by (rule gorec_in [OF t r])
  moreover have "packing t0 ?u H (A @ x # C) T"
    using p length_rec_at [OF t r] by (auto simp: packing_def tbl_ok_def lay_def writable_def may_modify_def etof_def)
  ultimately show thesis using that a by simp
qed

lemma packing_move:
  assumes p: "packing t0 t H (A @ d # B @ x # C) T" and c: "crntrec t = length A + length B + 2" "recbuf t = x" "\<not> deleted x"
    and ne: "\<not> etof None t0"
  obtains t' where "bnd (del_recall S DEL_MKR) (\<lambda>_. bnd (gorec (length A + 1)) (\<lambda>_. bnd (modst (\<lambda>t. t\<lparr>recbuf := x\<rparr>)) (\<lambda>_.
      bnd (save_rec S R_PACK) (\<lambda>_. store_rec S)))) t = (Inr (), t')"
    "packing t0 t' H (A @ x # B @ marked DEL_MKR x # C) T"
proof -
  have t: "tbl_ok t" "writable t" "\<not> etof None t" and l: "lay t H (A @ d # B @ x # C) T" using p ne by (simp_all add: packing_def)
  have r: "1 \<le> crntrec t" "crntrec t \<le> reccnt t" using l c by (auto simp: lay_def)
  have lx: "length x = recsz t" "2 \<le> recsz t" "exclusive t" "in_use (lk t)" using l t(1) by (auto simp: lay_def tbl_ok_def)
  have i: "(A @ d # B @ x # C) ! (crntrec t - 1) = x"
    "(A @ d # B @ x # C)[crntrec t - 1 := marked DEL_MKR x] = A @ d # B @ marked DEL_MKR x # C"
    using c(1) by (simp_all add: nth_append list_update_append)
  define u where "u = (with_recs t H (A @ d # B @ marked DEL_MKR x # C) T)\<lparr>recbuf := marked DEL_MKR x, lk := (lk t)\<lparr>lock_mode := R_DELRCAL\<rparr>\<rparr>"
  have del: "del_recall S DEL_MKR t = (Inr True, u)"
    using del_recall_marks [OF t(1) l t(2,3) r] c(2,3) i by (simp add: u_def deleted_def)
  have lu: "lay u H (A @ d # B @ marked DEL_MKR x # C) T" using l lx by (auto simp: lay_def u_def with_recs_def marked_def)
  have tu: "tbl_ok u"
    by (rule tbl_ok_lay [OF t(1) lu]) (use lx in \<open>auto simp: u_def with_recs_def marked_def\<close>)
  have pu: "packing t0 u H (A @ d # (B @ marked DEL_MKR x # C)) T"
    using p tu lu by (simp add: packing_def u_def with_recs_def writable_def may_modify_def etof_def)
  obtain v where v: "gorec (length A + 1) u = (Inr (), v)" "packing t0 v H (A @ d # (B @ marked DEL_MKR x # C)) T" "crntrec v = length A + 1"
    by (rule packing_gorec [OF pu])
  define y where "y = v\<lparr>recbuf := x, lk := (lk v)\<lparr>lock_mode := R_PACK\<rparr>\<rparr>"
  have lv: "recsz v = recsz t" "lay v H (A @ d # (B @ marked DEL_MKR x # C)) T" "tbl_ok v" using v(2) p by (simp_all add: packing_def)
  have ty: "tbl_ok y" "lay y H (A @ d # (B @ marked DEL_MKR x # C)) T" using lv lx by (auto simp: tbl_ok_def lay_def y_def)
  have ry: "1 \<le> crntrec y" "crntrec y \<le> reccnt y" using ty(2) v(3) by (auto simp: lay_def y_def)
  have wy: "write_rec False y = (Inr (), with_recs y H (A @ x # B @ marked DEL_MKR x # C) T)"
    using write_rec_at(1) [OF ty ry] v(3) by (simp add: y_def)
  define z where "z = (with_recs y H (A @ x # B @ marked DEL_MKR x # C) T)\<lparr>dbmdfy := True\<rparr>"
  have sv: "save_rec S R_PACK (v\<lparr>recbuf := x\<rparr>) = (Inr (), y)"
    using v(2) by (simp add: save_rec_def cm_simps y_def packing_def writable_def)
  have st: "store_rec S y = (Inr (), z)"
    using wy by (simp add: store_rec_def cm_simps z_def) (simp add: y_def with_recs_def)
  have lz: "lay z H (A @ x # B @ marked DEL_MKR x # C) T"
    using ty(2) lv lx by (auto simp: lay_def z_def with_recs_def y_def)
  have "tbl_ok z" by (rule tbl_ok_lay [OF ty(1) lz]) (use ty(1) in \<open>auto simp: z_def with_recs_def tbl_ok_def\<close>)
  then have "packing t0 z H (A @ x # B @ marked DEL_MKR x # C) T"
    using lz v(2) by (simp add: packing_def z_def y_def with_recs_def writable_def may_modify_def etof_def)
  moreover have "bnd (del_recall S DEL_MKR) (\<lambda>_. bnd (gorec (length A + 1)) (\<lambda>_. bnd (modst (\<lambda>t. t\<lparr>recbuf := x\<rparr>)) (\<lambda>_.
      bnd (save_rec S R_PACK) (\<lambda>_. store_rec S)))) t = (Inr (), z)"
    using del v(1) sv st by (simp add: cm_simps)
  ultimately show thesis using that by blast
qed

lemma pack_find_result:
  assumes ne: "\<not> etof None t0" and "packing t0 t H (A @ d # M @ R) T"
  shows "\<exists>t'. case dropWhile deleted R of
      [] \<Rightarrow> pack_find S (length A + 1) (length A + length M + 2) (length R) t = (Inr (length A + length M + 2 + length R), t')
        \<and> packing t0 t' H (A @ d # M @ R) T
    | x # C \<Rightarrow> pack_find S (length A + 1) (length A + length M + 2) (length R) t
          = (Inr (length A + length (M @ takeWhile deleted R) + 2), t')
        \<and> packing t0 t' H (A @ x # (M @ takeWhile deleted R) @ marked DEL_MKR x # C) T"
  using assms(2)
proof (induction R arbitrary: M t)
  case Nil
  then show ?case by (simp add: cm_simps)
next
  case (Cons r R)
  have p: "packing t0 t H ((A @ d # M) @ r # R) T" using Cons.prems by simp
  obtain u where u: "gorec (length (A @ d # M) + 1) t = (Inr (), u)" "packing t0 u H ((A @ d # M) @ r # R) T"
    "crntrec u = length (A @ d # M) + 1" "recbuf u = r"
    by (rule packing_gorec [OF p])
  have g: "gorec (length A + length M + 2) t = (Inr (), u)" using u(1) by simp
  have isd: "isdelete u = deleted r" using u(4) by (simp add: isdelete_def deleted_def)
  show ?case
  proof (cases "deleted r")
    case True
    have "packing t0 u H (A @ d # (M @ [r]) @ R) T" using u(2) by simp
    from Cons.IH [OF this] show ?thesis
      using g isd True by (cases "dropWhile deleted R") (simp_all add: cm_simps del: dropWhile_eq_Nil_conv)
  next
    case False
    have pu: "packing t0 u H (A @ d # M @ r # R) T" using u(2) by simp
    have cu: "crntrec u = length A + length M + 2" using u(3) by simp
    obtain v where v: "bnd (del_recall S DEL_MKR) (\<lambda>_. bnd (gorec (length A + 1)) (\<lambda>_. bnd (modst (\<lambda>t. t\<lparr>recbuf := r\<rparr>)) (\<lambda>_.
        bnd (save_rec S R_PACK) (\<lambda>_. store_rec S)))) u = (Inr (), v)" "packing t0 v H (A @ r # M @ marked DEL_MKR r # R) T"
      by (rule packing_move [OF pu cu u(4) False ne])
    have e: "bnd (del_recall S DEL_MKR) (\<lambda>_. bnd (gorec (length A + 1)) (\<lambda>_. bnd (modst (\<lambda>t. t\<lparr>recbuf := r\<rparr>)) (\<lambda>_.
        bnd (save_rec S R_PACK) (\<lambda>_. bnd (store_rec S) (\<lambda>_. ret f))))) = bnd (bnd (del_recall S DEL_MKR) (\<lambda>_. bnd (gorec (length A + 1)) (\<lambda>_.
        bnd (modst (\<lambda>t. t\<lparr>recbuf := r\<rparr>)) (\<lambda>_. bnd (save_rec S R_PACK) (\<lambda>_. store_rec S))))) (\<lambda>_. ret f)" for f :: nat
      by (simp add: bnd_assoc)
    have "pack_find S (length A + 1) (length A + length M + 2) (length (r # R)) t = (Inr (length A + length M + 2), v)"
      using g isd False u(4) v(1) by (simp add: bnd_app [of "gorec (Suc (Suc _))"] bnd_app [of "getst _"] getst_app e [simplified] ret_app)
         (simp add: bnd_app ret_app)
    then show ?thesis using v(2) False by auto
  qed
qed

lemma packing_count: "packing t0 t H rs T \<Longrightarrow> length rs = reccnt t0"
  by (simp add: packing_def lay_def)

lemma packing_gorec_deleted:
  assumes p: "packing t0 t H (A @ D @ R) T" and D: "D = B @ [d]" "deleted d" and k: "k = length R"
  obtains u where "pack_find S to (length A + length D) (Suc k) t = pack_find S to (length A + length D + 1) k u"
    "packing t0 u H (A @ D @ R) T"
proof -
  have "packing t0 t H ((A @ B) @ d # R) T" using p D(1) by simp
  then obtain u where u: "gorec (length (A @ B) + 1) t = (Inr (), u)" "packing t0 u H ((A @ B) @ d # R) T" "recbuf u = d"
    by (rule packing_gorec)
  have g: "gorec (length A + length D) t = (Inr (), u)" using u(1) D(1) by simp
  have "isdelete u" using u(3) D(2) by (simp add: isdelete_def deleted_def)
  then have "pack_find S to (length A + length D) (Suc k) t = pack_find S to (length A + length D + 1) k u"
    using g by (simp add: cm_simps)
  then show thesis using that u(2) D(1) by simp
qed

definition kept :: "string list \<Rightarrow> string list" where
  "kept rs = filter (\<lambda>r. \<not> deleted r) rs"

lemma kept_simps [simp]:
  "kept [] = []" "kept (x # xs) = (if deleted x then kept xs else x # kept xs)" "kept (xs @ ys) = kept xs @ kept ys"
  by (simp_all add: kept_def)

lemma kept_none: "\<forall>x\<in>set xs. deleted x \<Longrightarrow> kept xs = []"
  by (induction xs) auto

lemma kept_all: "\<forall>x\<in>set xs. \<not> deleted x \<Longrightarrow> kept xs = xs"
  by (induction xs) auto

lemma dropWhile_deleted:
  "dropWhile deleted R = x # C \<Longrightarrow> R = takeWhile deleted R @ x # C \<and> \<not> deleted x \<and> kept R = x # kept C"
proof -
  assume d: "dropWhile deleted R = x # C"
  have R: "R = takeWhile deleted R @ x # C" using d by (metis takeWhile_dropWhile_id)
  have x: "\<not> deleted x" using d by (metis hd_dropWhile list.distinct(1) list.sel(1))
  have "kept (takeWhile deleted R) = []" by (rule kept_none) (auto dest: set_takeWhileD)
  then have "kept R = x # kept C" using x by (subst R) simp
  then show ?thesis using R x by blast
qed

lemma pack_loop_filled:
  assumes ne: "\<not> etof None t0" and "packing t0 t H (A @ D @ R) T" and "\<forall>x\<in>set A. \<not> deleted x" and "\<forall>x\<in>set D. deleted x" and "D \<noteq> []"
    and "n = length A + length D + length R" and "k = length D + length R"
  shows "\<exists>t' rs. pack_loop S n (length A + 1) (length A + length D) k t = (Inr (length (kept (A @ D @ R)) + 1), t')
    \<and> packing t0 t' H rs T \<and> take (length (kept (A @ D @ R))) rs = kept (A @ D @ R)"
  using assms(2-)
proof (induction R arbitrary: t A D k rule: length_induct)
  case (1 R)
  obtain d M where D: "D = d # M" using 1(5) by (cases D) auto
  have "packing t0 t H (A @ d # (M @ R)) T" using 1(2) D by simp
  then obtain u where u: "gorec (length A + 1) t = (Inr (), u)" "packing t0 u H (A @ d # (M @ R)) T" "recbuf u = d"
    by (rule packing_gorec)
  have du: "isdelete u" using u(3) 1(4) D by (simp add: isdelete_def deleted_def)
  have pu: "packing t0 u H (A @ D @ R) T" using u(2) D by simp
  obtain B e where B: "D = B @ [e]" using 1(5) by (metis rev_exhaust)
  have de: "deleted e" using 1(4) B by simp
  obtain v where v: "pack_find S (length A + 1) (length A + length D) (Suc (length R)) u
      = pack_find S (length A + 1) (length A + length D + 1) (length R) v" "packing t0 v H (A @ D @ R) T"
    by (rule packing_gorec_deleted [OF pu B de refl])
  have pv: "packing t0 v H (A @ d # M @ R) T" using v(2) D by simp
  have m: "n + 1 - (length A + length D) = Suc (length R)" "length A + length D + 1 = length A + length M + 2"
    "length A + length D \<noteq> 0" "k = Suc (length M + length R)" using 1(6,7) D by simp_all
  note pf = pack_find_result [OF ne pv, of S]
  have kA: "kept A = A" "kept D = []" using 1(3,4) by (simp_all add: kept_all kept_none)
  have step: "pack_loop S n (length A + 1) (length A + length D) k t =
      bnd (pack_find S (length A + 1) (length A + length M + 2) (length R)) (\<lambda>frm. if n < frm then ret (Suc (length A))
        else pack_loop S n (Suc (length A) + 1) frm (length M + length R)) v"
    using u(1) du v(1) m D by (simp add: bnd_app getst_app Let_def)
  show ?case
  proof (cases "dropWhile deleted R")
    case Nil
    obtain w where w: "pack_find S (length A + 1) (length A + length M + 2) (length R) v = (Inr (length A + length M + 2 + length R), w)"
      "packing t0 w H (A @ d # M @ R) T" using pf unfolding Nil by auto
    have "kept R = []" using Nil by (simp add: kept_none)
    then have kp: "kept (A @ D @ R) = A" using kA by simp
    have "pack_loop S n (length A + 1) (length A + length D) k t = (Inr (length A + 1), w)"
      using w(1) m 1(6) D unfolding step by (simp add: bnd_app ret_app)
    then show ?thesis using w(2) unfolding kp by (intro exI [of _ w] exI [of _ "A @ d # M @ R"]) simp
  next
    case (Cons x C)
    note dx = dropWhile_deleted [OF Cons]
    let ?D = "M @ takeWhile deleted R @ [marked DEL_MKR x]"
    obtain w where w: "pack_find S (length A + 1) (length A + length M + 2) (length R) v
        = (Inr (length A + length (M @ takeWhile deleted R) + 2), w)"
      "packing t0 w H (A @ x # (M @ takeWhile deleted R) @ marked DEL_MKR x # C) T" using pf unfolding Cons by auto
    have lR: "length R = length (takeWhile deleted R) + 1 + length C" using dx by (metis One_nat_def add.assoc length_append list.size(4) add.commute plus_1_eq_Suc)
    have "\<exists>t' rs. pack_loop S n (length (A @ [x]) + 1) (length (A @ [x]) + length ?D) (length ?D + length C) w
        = (Inr (length (kept ((A @ [x]) @ ?D @ C)) + 1), t')
      \<and> packing t0 t' H rs T \<and> take (length (kept ((A @ [x]) @ ?D @ C))) rs = kept ((A @ [x]) @ ?D @ C)"
    proof (rule 1(1) [rule_format])
      show "length C < length R" using lR by simp
      show "packing t0 w H ((A @ [x]) @ ?D @ C) T" using w(2) by simp
      show "\<not> deleted y" if "y \<in> set (A @ [x])" for y using 1(3) dx that by auto
      show "deleted y" if "y \<in> set ?D" for y using 1(4) D that by (auto dest: set_takeWhileD)
      show "?D \<noteq> []" by simp
      show "n = length (A @ [x]) + length ?D + length C" using 1(6) D lR by simp
      show "length ?D + length C = length ?D + length C" ..
    qed
    moreover have k: "kept ((A @ [x]) @ ?D @ C) = kept (A @ D @ R)"
    proof -
      have "kept (takeWhile deleted R) = []" "kept M = []"
        using 1(4) D by (auto intro!: kept_none dest: set_takeWhileD)
      then show ?thesis using dx kA by simp
    qed
    moreover have e: "length (A @ [x]) + length ?D = length A + length (M @ takeWhile deleted R) + 2" "length ?D + length C = length M + length R"
      "length (A @ [x]) + 1 = Suc (length A) + 1" using lR by simp_all
    moreover have "\<not> n < length A + length (M @ takeWhile deleted R) + 2" using 1(6) D lR by simp
    then have "pack_loop S n (length A + 1) (length A + length D) k t = pack_loop S n (Suc (length A) + 1)
        (length A + length (M @ takeWhile deleted R) + 2) (length M + length R) w"
      using w(1) unfolding step bnd_app by (simp only: prod.case sum.case if_False)
    ultimately show ?thesis by (simp only: k e)
  qed
qed

lemma pack_loop_keeps:
  assumes ne: "\<not> etof None t0" and "packing t0 t H (A @ R) T" and "\<forall>x\<in>set A. \<not> deleted x" and "n = length A + length R"
  shows "\<exists>t' rs. pack_loop S n (length A + 1) 0 (length R) t = (Inr (length (kept (A @ R)) + 1), t')
    \<and> packing t0 t' H rs T \<and> take (length (kept (A @ R))) rs = kept (A @ R)"
  using assms(2-)
proof (induction R arbitrary: t A)
  case Nil
  then show ?case by (intro exI [of _ t] exI [of _ A]) (simp add: kept_all ret_app)
next
  case (Cons r R)
  obtain u where u: "gorec (length A + 1) t = (Inr (), u)" "packing t0 u H (A @ r # R) T" "recbuf u = r"
    by (rule packing_gorec [OF Cons.prems(1)])
  have isd: "isdelete u = deleted r" using u(3) by (simp add: isdelete_def deleted_def)
  show ?case
  proof (cases "deleted r")
    case False
    have "\<exists>t' rs. pack_loop S n (length (A @ [r]) + 1) 0 (length R) u = (Inr (length (kept ((A @ [r]) @ R)) + 1), t')
      \<and> packing t0 t' H rs T \<and> take (length (kept ((A @ [r]) @ R))) rs = kept ((A @ [r]) @ R)"
      by (rule Cons.IH) (use u(2) Cons.prems False in simp_all)
    then show ?thesis using u(1) isd False by (simp add: bnd_app getst_app)
  next
    case True
    have pv: "packing t0 u H (A @ r # [] @ R) T" using u(2) by simp
    note pf = pack_find_result [OF ne pv, of S]
    have kA: "kept A = A" using Cons.prems(2) by (simp add: kept_all)
    have m: "n + 1 - (length A + 1 + 1) = length R" using Cons.prems(3) by simp
    have step: "pack_loop S n (length A + 1) 0 (length (r # R)) t =
        bnd (pack_find S (length A + 1) (length A + 2) (length R)) (\<lambda>frm. if n < frm then ret (Suc (length A))
          else pack_loop S n (Suc (length A) + 1) frm (length R)) u"
      using u(1) isd True m by (simp add: bnd_app getst_app Let_def)
    show ?thesis
    proof (cases "dropWhile deleted R")
      case Nil
      obtain w where w: "pack_find S (length A + 1) (length A + 2) (length R) u = (Inr (length A + 2 + length R), w)"
        "packing t0 w H (A @ r # R) T" using pf unfolding Nil by auto
      have "kept R = []" using Nil by (simp add: kept_none)
      then have kp: "kept (A @ r # R) = A" using kA True by simp
      have "pack_loop S n (length A + 1) 0 (length (r # R)) t = (Inr (length A + 1), w)"
        using w(1) Cons.prems(3) unfolding step by (simp add: bnd_app ret_app)
      then show ?thesis using w(2) unfolding kp by (intro exI [of _ w] exI [of _ "A @ r # R"]) simp
    next
      case (Cons x C)
      note dx = dropWhile_deleted [OF Cons]
      let ?D = "takeWhile deleted R @ [marked DEL_MKR x]"
      obtain w where w: "pack_find S (length A + 1) (length A + 2) (length R) u = (Inr (length A + length (takeWhile deleted R) + 2), w)"
        "packing t0 w H (A @ x # takeWhile deleted R @ marked DEL_MKR x # C) T" using pf unfolding Cons by auto
      have lR: "length R = length (takeWhile deleted R) + 1 + length C" using dx by (metis One_nat_def add.assoc length_append list.size(4) add.commute plus_1_eq_Suc)
      have "\<exists>t' rs. pack_loop S n (length (A @ [x]) + 1) (length (A @ [x]) + length ?D) (length ?D + length C) w
          = (Inr (length (kept ((A @ [x]) @ ?D @ C)) + 1), t')
        \<and> packing t0 t' H rs T \<and> take (length (kept ((A @ [x]) @ ?D @ C))) rs = kept ((A @ [x]) @ ?D @ C)"
      proof (rule pack_loop_filled [OF ne])
        show "packing t0 w H ((A @ [x]) @ ?D @ C) T" using w(2) by simp
        show "\<forall>y\<in>set (A @ [x]). \<not> deleted y" using Cons.prems dx \<open>\<forall>x\<in>set A. \<not> deleted x\<close> by simp
        show "\<forall>y\<in>set ?D. deleted y" by (auto dest: set_takeWhileD)
        show "n = length (A @ [x]) + length ?D + length C" using \<open>n = length A + length (r # R)\<close> lR by simp
      qed simp_all
      moreover have k: "kept ((A @ [x]) @ ?D @ C) = kept (A @ r # R)"
      proof -
        have "kept (takeWhile deleted R) = []" by (auto intro!: kept_none dest: set_takeWhileD)
        then show ?thesis using dx kA True by simp
      qed
      moreover have e: "length (A @ [x]) + length ?D = length A + length (takeWhile deleted R) + 2" "length ?D + length C = length R"
        "length (A @ [x]) + 1 = Suc (length A) + 1" using lR by simp_all
      moreover have "\<not> n < length A + length (takeWhile deleted R) + 2" using \<open>n = length A + length (r # R)\<close> lR by simp
      then have "pack_loop S n (length A + 1) 0 (length (r # R)) t = pack_loop S n (Suc (length A) + 1)
          (length A + length (takeWhile deleted R) + 2) (length R) w"
        using w(1) unfolding step bnd_app by (simp only: prod.case sum.case if_False)
      ultimately show ?thesis by (simp only: k e)
    qed
  qed
qed

lemma gotop_files:
  assumes "tbl_ok t" and "reccnt t + 2 \<le> k"
  obtains t' where "gotop S k t = (Inr (), t')" "tfile t' = tfile t" "thdr t' = thdr t" "lk t' = lk t"
proof (cases "reccnt t = 0")
  case False
  then have "0 < reccnt t" by simp
  from gotop_visits [OF assms(1) this assms(2), of S] show thesis
    using that by (cases "filter (visible S t) [1 ..< reccnt t + 1]") simp_all
next
  case True
  obtain m where k: "k = Suc m" using assms(2) by (cases k) auto
  have "exclusive t" using assms(1) by (simp add: tbl_ok_def)
  then show thesis
    using that True by (cases "junk S = 0")
      (auto simp: gotop_def k cm_simps clretof_None hdr_excl setetof_def etof_def gorec_out)
qed

lemma dbpack_from:
  assumes t: "tbl_ok t" and w: "writable t" and c: "on_record t"
    and pl: "pack_loop S (reccnt t) 1 0 (reccnt t) t = (Inr (length ks + 1), t1)" and p: "packing t t1 H rs T" and k: "take (length ks) rs = ks"
    and fits: "hdr_fits ((thdr t)\<lparr>hd_reccnt := length ks\<rparr>)" and fuel: "length ks + 2 \<le> fuel"
  obtains t' where "dbpack S fuel t = (Inr (), t')" "filed t' ks" "reccnt t' = length ks"
proof -
  let ?m = "length ks"
  have x: "exclusive t" "in_use (lk t)" using t by (simp_all add: tbl_ok_def)
  have t1: "tbl_ok t1" "lay t1 H rs T" "thdr t1 = thdr t" using p by (simp_all add: packing_def)
  have m: "?m \<le> reccnt t" using k packing_count [OF p] by (metis length_take min.cobounded1)
  define t2 where "t2 = (if ?m = 0 then (set_reccnt ?m t1)\<lparr>e_o_f := True, t_o_f := True\<rparr> else set_reccnt ?m t1)\<lparr>fextd := True, dbmdfy := True\<rparr>"
  have s: "tfile t2 = tfile t1" "lk t2 = lk t1" "recbuf t2 = recbuf t1" "thdr t2 = (thdr t)\<lparr>hd_reccnt := ?m\<rparr>" "fextd t2" "dbmdfy t2"
    using t1(3) by (simp_all add: t2_def set_reccnt_def)
  have "rs = ks @ drop ?m rs" using k by (metis append_take_drop_id)
  then have cc: "concat rs = concat ks @ concat (drop ?m rs)" by (metis concat_append)
  have l2: "lay t2 H ks (concat (drop ?m rs) @ T)"
    using t1 s cc k by (auto simp: lay_def dest!: arg_cong [of _ _ set] in_set_takeD)
  have "(?m + 1) * recsz t \<le> (reccnt t + 1) * recsz t" using m by (intro mult_le_mono1) simp
  then have b: "nat (hd_doffset (thdr t)) + (?m + 1) * recsz t < 2 ^ 63" using t unfolding tbl_ok_def by linarith
  have t2: "tbl_ok t2"
    unfolding tbl_ok_def using t1 s lay_length [OF l2] b by (simp add: tbl_ok_def)
  have f2: "hdr_fits (thdr t2)" using fits s by simp
  obtain H' where u: "update_hdr S False t2 = (Inr (), (with_recs t2 H' ks [EOF_MKR, EOF_MKR])\<lparr>fextd := False, dbmdfy := False\<rparr>)"
    "length H' = length H" "filed (with_recs t2 H' ks [EOF_MKR, EOF_MKR]) ks"
    by (rule update_hdr_files [OF t2 s(5,6) f2 l2])
  define t3 where "t3 = (with_recs t2 H' ks [EOF_MKR, EOF_MKR])\<lparr>fextd := False, dbmdfy := False\<rparr>"
  have l3: "lay t3 H' ks [EOF_MKR, EOF_MKR]" using l2 u(2) by (simp add: lay_def t3_def with_recs_def)
  have t3: "tbl_ok t3" by (rule tbl_ok_lay [OF t2 l3]) (use t2 in \<open>simp_all add: t3_def with_recs_def tbl_ok_def\<close>)
  have n3: "reccnt t3 = ?m" using s by (simp add: t3_def with_recs_def)
  obtain t4 where g: "gotop S fuel t3 = (Inr (), t4)" "tfile t4 = tfile t3" "thdr t4 = thdr t3" "lk t4 = lk t3"
    using gotop_files [OF t3, of fuel S] fuel n3 by auto
  have x4: "exclusive t4" using t3 g by (simp add: tbl_ok_def)
  have fl: "on_lock (f_lock (me S) (wait S) True) t = (Inr 0, t)"
    using x w by (simp add: on_lock_def f_lock_def cm_simps writable_def)
  have fu: "on_lock (f_unlock (me S)) t4 = (Inr (), t4)" using x4 by (simp add: on_lock_def f_unlock_def cm_simps)
  have "dbpack S fuel t = (Inr (), t4)"
    using fl fu pl u(1) g(1)
    by (simp add: dbpack_def cm_simps valid_chk_ok [OF x(2) c] setetof_def t2_def t3_def split: if_splits)
  moreover have "filed t4 ks" by (rule filed_cong [OF u(3)]) (use g in \<open>simp_all add: t3_def\<close>)
  moreover have "reccnt t4 = ?m" using g n3 by simp
  ultimately show thesis by (rule that)
qed

section \<open>What the commands leave in the file\<close>

text \<open>C12: APPEND BLANK, in a table in exclusive use with room: the records in the file are the old ones and a blank
one, followed by the end mark; the header in the file reads back as the one in memory, which counts one
record more; the cursor is on the new record.\<close>
theorem append_blank_appends:
  assumes "tbl_ok t" and "room t" and "writable t" and "may_append t" and "on_record t"
    and "hdr_fits ((thdr t)\<lparr>hd_reccnt := reccnt t + 1\<rparr>)"
  shows "\<exists>t'. apblank S True 1 t = (Inr (), t') \<and> filed t' (recs t @ [replicate (recsz t) (CHR '' '')]) \<and> tbl_ok t'
    \<and> crntrec t' = reccnt t + 1 \<and> reccnt t' = reccnt t + 1 \<and> \<not> etof None t'"
  by (rule apblank_files [OF assms, of S]) blast

definition small_hdr :: table_hdr where
  "small_hdr = \<lparr>hd_id = 5, hd_reccnt = 2, hd_hdlen = 129, hd_doffset = 130, hd_meta_len = meta_room 130 129 1, hd_byprec = 2,
     hd_fdlist = [\<lparr>fld_name = ''A'', fld_type = CHR ''C'', fld_tlength = 1, fld_dlength = 0\<rparr>]\<rparr>"

definition small :: tbl where
  \<comment> \<open>two records, the first one deleted; the header area has not been written yet\<close>
  "small = three\<lparr>thdr := small_hdr, tfile := replicate 130 (CHR 0x00) @ ''*x b'', recbuf := '' b'', crntrec := 2\<rparr>"

lemma small_ok: "tbl_ok small" "room small" "writable small" "may_append small" "on_record small" "\<not> etof None small"
  by (simp_all add: tbl_ok_def small_def three_def small_hdr_def fresh_client_def room_def writable_def may_modify_def
      may_append_def on_record_def etof_def)

lemma small_fits: "n < 2 ^ 63 \<Longrightarrow> hdr_fits (small_hdr\<lparr>hd_reccnt := n\<rparr>)"
  by (simp add: hdr_fits_def hdr_ok_def small_hdr_def hd_mkr_def field_ok_def is_valid_field_def name_ok_def)

lemma small_thdr: "thdr small = small_hdr" "reccnt small = 2" "recsz small = 2"
  by (simp_all add: small_def small_hdr_def)

lemma small_recs: "recs small = [''*x'', '' b'']"
  by (simp add: recs_def small_thdr rec_at_def upt_rec) (simp add: small_def small_hdr_def)

theorem append_blank_appends_witness:
  "\<exists>t'. apblank alone True 1 small = (Inr (), t') \<and> filed t' [''*x'', '' b'', ''  '']"
proof -
  have "replicate 2 (CHR '' '') = ''  ''" by (simp add: numeral_2_eq_2)
  moreover have "reccnt small + 1 = 3" by (simp add: small_thdr(2))
  moreover have hb: "hd_byprec small_hdr = 2" by (simp add: small_hdr_def)
  ultimately show ?thesis
    using append_blank_appends [OF small_ok(1-5), of alone] small_fits [of 3] by (auto simp: small_thdr(1) small_recs hb)
qed

text \<open>DELETE and RECALL of the current record, as commands.\<close>

lemma mark_cmd_marks:
  assumes t: "tbl_ok t" "writable t" "\<not> etof None t" and c: "1 \<le> crntrec t" "crntrec t \<le> reccnt t"
    and b: "recbuf t = rec_at t (crntrec t)" "byte_at (recbuf t) 0 \<noteq> m" and m: "of_char m < (128 :: nat)"
    and l: "lay t H (recs t) T"
  obtains u where "del_recall_op S k (of_char m) t = (Inr (), u)" "tbl_ok u" "writable u" "\<not> etof None u" "thdr u = thdr t"
    "crntrec u = crntrec t" "recbuf u = marked m (recbuf t)" "recbuf u = rec_at u (crntrec u)"
    "recs u = (recs t)[crntrec t - 1 := marked m (recbuf t)]"
    "lay u H ((recs t)[crntrec t - 1 := marked m (recbuf t)]) T"
proof -
  let ?i = "crntrec t - 1" let ?rs = "(recs t)[?i := marked m (recbuf t)]"
  have i: "?i < length (recs t)" using l c by (simp add: lay_def)
  have lb: "length (recbuf t) = recsz t" "2 \<le> recsz t" "exclusive t" "in_use (lk t)" using t(1) by (simp_all add: tbl_ok_def)
  have r: "recs t ! ?i = recbuf t" using lay_rec_at [OF l c] b(1) by simp
  define u where "u = (with_recs t H ?rs T)\<lparr>recbuf := marked m (recbuf t), lk := (lk t)\<lparr>lock_mode := R_DELRCAL\<rparr>\<rparr>"
  have "del_recall S m t = (Inr True, u)" using del_recall_marks [OF t(1) l t(2,3) c, of m S] b(2) r by (simp add: u_def)
  then have d: "del_recall_op S k (of_char m) t = (Inr (), u)" using m by (simp add: del_recall_op_def Let_def cm_simps)
  have lm: "length (marked m (recbuf t)) = recsz t" using lb by (auto simp: marked_def)
  have lu: "lay u H ?rs T"
    using l lm set_update_subset_insert [of "recs t" ?i "marked m (recbuf t)"] by (auto simp: lay_def u_def with_recs_def)
  have tu: "tbl_ok u" by (rule tbl_ok_lay [OF t(1) lu]) (use lb lm in \<open>simp_all add: u_def with_recs_def\<close>)
  have cu: "crntrec u = crntrec t" "thdr u = thdr t" by (simp_all add: u_def with_recs_def)
  have "rec_at u (crntrec u) = marked m (recbuf t)" using lay_rec_at [OF lu] c i cu by simp
  then show thesis
    by (intro that [OF d tu]) (use t(2,3) cu lay_recs [OF lu] lu in
      \<open>simp_all add: u_def with_recs_def writable_def may_modify_def etof_def\<close>)
qed

lemma mark_codes [simp]: "of_char DEL_MKR = (42 :: nat)" "of_char VAL_MKR = (32 :: nat)"
  by simp_all

lemma final_call:
  "\<not> delete_on S \<or> m \<noteq> DEL_MKR \<Longrightarrow> of_char m < (128 :: nat) \<Longrightarrow> del_recall_op S k (128 + of_char m) = ret ()"
  by (auto simp: del_recall_op_def Let_def)

text \<open>C17: With SET DELETED OFF, in a table in exclusive use that may be changed, the command DELETE on a valid record writes the deletion mark of this
record, leaves all other records as they are and stays on the record, and a RECALL after it brings the file
back, byte for byte.\<close>
theorem recall_undoes_delete:
  assumes t: "tbl_ok t" "writable t" "\<not> etof None t" and c: "1 \<le> crntrec t" "crntrec t \<le> reccnt t"
    and b: "recbuf t = rec_at t (crntrec t)" "byte_at (recbuf t) 0 = VAL_MKR" and S: "\<not> delete_on S"
  shows "\<exists>u t'. mark_cmd S k DEL_MKR t = (Inr (), u) \<and> recs u = (recs t)[crntrec t - 1 := marked DEL_MKR (rec_at t (crntrec t))]
    \<and> crntrec u = crntrec t \<and> mark_cmd S k VAL_MKR u = (Inr (), t') \<and> tfile t' = tfile t \<and> crntrec t' = crntrec t"
proof -
  obtain H T where l: "lay t H (recs t) T" by (rule lay_ex [OF t(1)])
  obtain u where u: "del_recall_op S k (of_char DEL_MKR) t = (Inr (), u)" "tbl_ok u" "writable u" "\<not> etof None u" "thdr u = thdr t"
    "crntrec u = crntrec t" "recbuf u = marked DEL_MKR (recbuf t)" "recbuf u = rec_at u (crntrec u)"
    "recs u = (recs t)[crntrec t - 1 := marked DEL_MKR (recbuf t)]"
    "lay u H ((recs t)[crntrec t - 1 := marked DEL_MKR (recbuf t)]) T"
    by (rule mark_cmd_marks [OF t c b(1), of DEL_MKR H T S k]) (use b(2) l in simp_all)
  have lu: "lay u H (recs u) T" using u(9,10) by simp
  have cu: "1 \<le> crntrec u" "crntrec u \<le> reccnt u" using c u(5,6) by simp_all
  obtain v where v: "del_recall_op S k (of_char VAL_MKR) u = (Inr (), v)" "crntrec v = crntrec u"
    "lay v H ((recs u)[crntrec u - 1 := marked VAL_MKR (recbuf u)]) T"
    by (rule mark_cmd_marks [OF u(2-4) cu u(8), of VAL_MKR H T S k]) (use lu in \<open>simp_all add: u(7) marked_def byte_at_def\<close>)
  have "marked VAL_MKR (recbuf u) = recbuf t"
    using b(2) t(1) u(7) by (cases "recbuf t") (auto simp: marked_def byte_at_def tbl_ok_def)
  moreover have "recs t ! (crntrec t - 1) = recbuf t" using lay_rec_at [OF l c] b(1) by simp
  ultimately have "(recs u)[crntrec u - 1 := marked VAL_MKR (recbuf u)] = recs t" using u(6,9) by (metis list_update_id list_update_overwrite)
  then have "tfile v = tfile t" using v(3) l by (simp add: lay_def)
  moreover have "del_recall_op S k 170 = ret ()" "del_recall_op S k 160 = ret ()"
    using final_call [of S DEL_MKR k] final_call [of S VAL_MKR k] S by simp_all
  ultimately show ?thesis
    using u(1,6,9) v(1,2) b(1) by (simp add: mark_cmd_def bnd_app ret_app)
qed

theorem recall_undoes_delete_witness:
  "\<exists>u t'. mark_cmd (alone\<lparr>delete_on := False\<rparr>) 5 DEL_MKR small = (Inr (), u) \<and> recs u = [''*x'', ''*b''] \<and> crntrec u = 2
    \<and> mark_cmd (alone\<lparr>delete_on := False\<rparr>) 5 VAL_MKR u = (Inr (), t') \<and> tfile t' = tfile small \<and> crntrec t' = 2"
proof -
  have s: "crntrec small = 2" "recbuf small = '' b''" "rec_at small 2 = '' b''" "\<not> delete_on (alone\<lparr>delete_on := False\<rparr>)"
    by (simp_all add: small_def small_hdr_def rec_at_def)
  have n: "1 \<le> crntrec small" "crntrec small \<le> reccnt small" unfolding s(1) small_thdr by (simp_all add: small_hdr_def)
  have b: "recbuf small = rec_at small (crntrec small)" "byte_at (recbuf small) 0 = VAL_MKR" by (simp_all only: s) (simp add: byte_at_def)
  from recall_undoes_delete [OF small_ok(1,3,6) n b s(4), of 5]
  show ?thesis by (simp add: s small_recs marked_def)
qed

text \<open>With SET DELETED ON a DELETE also moves: the deleted record is no longer visible, and the cursor ends on the
  next visible one.\<close>

theorem delete_moves_on:
  assumes t: "tbl_ok t" "writable t" "\<not> etof None t" and c: "1 \<le> crntrec t" "crntrec t \<le> reccnt t"
    and b: "recbuf t = rec_at t (crntrec t)" "byte_at (recbuf t) 0 = VAL_MKR"
    and S: "delete_on S" and v: "filter (visible S t) (path FORWARD t) = v # vs" and k: "reccnt t < k"
  shows "\<exists>u. mark_cmd S k DEL_MKR t = (Inr (), u) \<and> recs u = (recs t)[crntrec t - 1 := marked DEL_MKR (rec_at t (crntrec t))] \<and> crntrec u = v"
proof -
  obtain H T where l: "lay t H (recs t) T" by (rule lay_ex [OF t(1)])
  let ?rs = "(recs t)[crntrec t - 1 := marked DEL_MKR (recbuf t)]"
  obtain u where u: "del_recall_op S k (of_char DEL_MKR) t = (Inr (), u)" "tbl_ok u" "\<not> etof None u" "thdr u = thdr t"
    "crntrec u = crntrec t" "recs u = ?rs" "lay u H ?rs T"
    by (rule mark_cmd_marks [OF t c b(1), of DEL_MKR H T S k]) (use b(2) l in simp_all)
  have p: "path FORWARD u = path FORWARD t" using u(4,5) by (simp add: path_def)
  have "visible S u r = visible S t r" if "r \<in> set (path FORWARD t)" for r
  proof -
    have r: "crntrec t < r" "1 \<le> r" "r \<le> reccnt t" using that by (auto simp: path_def)
    have "rec_at u r = ?rs ! (r - 1)" using lay_rec_at [OF u(7)] r u(4) by simp
    also have "\<dots> = recs t ! (r - 1)" using r c by (intro nth_list_update_neq) linarith
    also have "\<dots> = rec_at t r" using lay_rec_at [OF l r(2,3)] by simp
    finally show ?thesis by (simp add: visible_def hidden_def isdelete_def split: option.split)
  qed
  then have f: "filter (visible S u) (path FORWARD u) = v # vs" using v unfolding p by (metis (mono_tags, lifting) filter_cong)
  have "inside FORWARD u" using c u(4,5) by (simp add: inside_def)
  moreover have "length (path FORWARD u) < k" using k u(4) by (simp add: path_def del: upt_Suc)
  moreover have "\<not> etof (Some BACKWARD) u" using u(3) by (simp add: etof_def)
  ultimately have sk: "skip S k 1 u = (Inr 1, at u v)"
    using skip_forward_or_back [of u FORWARD 1 k S] u(2) f by simp
  have "char_of (42 :: nat) = DEL_MKR" by (metis char_of_char mark_codes(1))
  then have "del_recall_op S k 170 u = (Inr (), at u v)" using sk S by (simp add: del_recall_op_def Let_def cm_simps)
  moreover have "recs (at u v) = ?rs" using u(6) by (simp add: recs_cong [of "at u v" u])
  ultimately show ?thesis using u(1) b(1) by (simp add: mark_cmd_def cm_simps)
qed

text \<open>C4: PACK, from a record of a table in exclusive use without memo fields and active index: afterwards the file holds exactly the records that were
not marked as deleted, in their order, followed by the end mark, and the header in the file reads back as the
one in memory, with their number.\<close>
theorem pack_keeps_undeleted:
  assumes "tbl_ok t" and "writable t" and "on_record t" and "\<not> etof None t"
    and "hdr_fits ((thdr t)\<lparr>hd_reccnt := length (kept (recs t))\<rparr>)" and "length (kept (recs t)) + 2 \<le> fuel"
  shows "\<exists>t'. dbpack S fuel t = (Inr (), t') \<and> filed t' (kept (recs t)) \<and> reccnt t' = length (kept (recs t))"
proof -
  obtain H T where l: "lay t H (recs t) T" by (rule lay_ex [OF assms(1)])
  have p: "packing t t H ([] @ recs t) T" using assms l by (simp add: packing_def)
  obtain t1 rs where "pack_loop S (reccnt t) 1 0 (reccnt t) t = (Inr (length (kept (recs t)) + 1), t1)" "packing t t1 H rs T"
      "take (length (kept (recs t))) rs = kept (recs t)"
    using pack_loop_keeps [OF assms(4) p, of "reccnt t" S] l by (auto simp: lay_def)
  from dbpack_from [OF assms(1-3) this assms(5,6)] show ?thesis by blast
qed

theorem pack_keeps_undeleted_witness: "\<exists>t'. dbpack alone 5 small = (Inr (), t') \<and> filed t' ['' b''] \<and> reccnt t' = 1"
proof -
  have k: "kept (recs small) = ['' b'']" by (simp add: small_recs deleted_def byte_at_def)
  show ?thesis using pack_keeps_undeleted [OF small_ok(1,3,5,6), of 5 alone] small_fits [of 1] by (simp add: k small_thdr)
qed

text \<open>C37: PACK with the cursor beyond the last record goes wrong: it copies the record behind a deleted one onto it,
but del_recall does nothing at the end of a file, so the copied record stays too. Of a deleted and a valid
record, two copies of the valid one remain and none is removed.\<close>
theorem pack_at_end_duplicates:
  assumes "tbl_ok t" and "writable t" and "e_o_f t" and "recs t = [d, r]" and "deleted d" and "\<not> deleted r"
    and "hdr_fits (thdr t)" and "4 \<le> fuel"
  shows "\<exists>t'. dbpack S fuel t = (Inr (), t') \<and> filed t' [r, r] \<and> reccnt t' = 2"
proof -
  obtain H T where l: "lay t H (recs t) T" by (rule lay_ex [OF assms(1)])
  have n: "reccnt t = 2" using l assms(4) by (simp add: lay_def)
  have e: "etof None t" "on_record t" using assms(3) by (simp_all add: etof_def on_record_def)
  have p0: "packing t t H ([] @ d # [r]) T" using assms l by (simp add: packing_def)
  obtain u where u: "gorec 1 t = (Inr (), u)" "packing t u H ([] @ d # [r]) T" "recbuf u = d"
    using packing_gorec [OF p0] by auto
  have pu: "packing t u H ([d] @ r # []) T" using u(2) by simp
  obtain v where v: "gorec 2 u = (Inr (), v)" "packing t v H ([d] @ r # []) T" "recbuf v = r"
    using packing_gorec [OF pu] by (auto simp: numeral_2_eq_2)
  have pv: "packing t v H ([] @ d # [r]) T" using v(2) by simp
  have tv: "tbl_ok v" "etof None v" using pv e by (simp_all add: packing_def)
  have dv: "del_recall S DEL_MKR v = (Inr False, v)"
    using tv valid_chk_ok [of v] by (simp add: del_recall_def cm_simps tbl_ok_def on_record_def)
  obtain w where w: "gorec 1 v = (Inr (), w)" "packing t w H ([] @ d # [r]) T" "crntrec w = 1"
    using packing_gorec [OF pv] by auto
  define y where "y = w\<lparr>recbuf := r, lk := (lk w)\<lparr>lock_mode := R_PACK\<rparr>\<rparr>"
  have lw: "lay w H [d, r] T" "tbl_ok w" using w(2) by (simp_all add: packing_def)
  have ty: "tbl_ok y" "lay y H [d, r] T" using lw by (auto simp: tbl_ok_def lay_def y_def)
  have ry: "1 \<le> crntrec y" "crntrec y \<le> reccnt y" using ty(2) w(3) by (auto simp: lay_def y_def)
  define z where "z = (with_recs y H [r, r] T)\<lparr>dbmdfy := True\<rparr>"
  have sv: "save_rec S R_PACK (w\<lparr>recbuf := r\<rparr>) = (Inr (), y)" using w(2) by (simp add: save_rec_def cm_simps y_def packing_def writable_def)
  have st: "store_rec S y = (Inr (), z)"
    using write_rec_at(1) [OF ty ry] w(3) by (simp add: store_rec_def cm_simps z_def) (simp add: y_def with_recs_def)
  have lz: "lay z H [r, r] T" using ty(2) by (auto simp: lay_def z_def with_recs_def)
  have "tbl_ok z" by (rule tbl_ok_lay [OF ty(1) lz]) (use ty(1) in \<open>auto simp: z_def with_recs_def tbl_ok_def\<close>)
  then have pz: "packing t z H ([r] @ r # []) T"
    using lz w(2) by (simp add: packing_def z_def y_def with_recs_def writable_def may_modify_def etof_def)
  obtain q where q: "gorec 2 z = (Inr (), q)" "packing t q H ([r] @ r # []) T" "recbuf q = r"
    using packing_gorec [OF pz] by (auto simp: numeral_2_eq_2)
  have isd: "isdelete u" "\<not> isdelete v" "\<not> isdelete q" using u(3) v(3) q(3) assms(5,6) by (simp_all add: isdelete_def deleted_def)
  have s1: "Suc 0 + 1 = 2" "Suc (Suc 0) = 2" by simp_all
  have "pack_loop S 2 1 0 2 t = (Inr (length [r, r] + 1), q)"
    using u(1) isd v(1,3) dv w(1) sv st q(1)
    by (simp add: numeral_2_eq_2 cm_simps)
  then have pl: "pack_loop S (reccnt t) 1 0 (reccnt t) t = (Inr (length [r, r] + 1), q)" unfolding n .
  have "(thdr t)\<lparr>hd_reccnt := length [r, r]\<rparr> = thdr t" using n by simp
  then have "hdr_fits ((thdr t)\<lparr>hd_reccnt := length [r, r]\<rparr>)" using assms(7) by metis
  from dbpack_from [OF assms(1,2) e(2) pl q(2) _ this, of fuel] assms(8) show ?thesis by (auto simp: numeral_2_eq_2)
qed

theorem pack_at_end_duplicates_witness:
  "\<exists>t'. dbpack alone 5 (small\<lparr>e_o_f := True\<rparr>) = (Inr (), t') \<and> filed t' ['' b'', '' b''] \<and> reccnt t' = 2"
proof -
  have "recs (small\<lparr>e_o_f := True\<rparr>) = [''*x'', '' b'']" using small_recs by (subst recs_cong [of _ small]) simp_all
  moreover have "tbl_ok (small\<lparr>e_o_f := True\<rparr>)" using small_ok(1) by (simp add: tbl_ok_def)
  moreover have "writable (small\<lparr>e_o_f := True\<rparr>)" using small_ok(3) by (simp add: writable_def may_modify_def)
  moreover have "hdr_fits (thdr (small\<lparr>e_o_f := True\<rparr>))" using small_fits [of 2] by (simp add: small_def) (simp add: small_hdr_def)
  ultimately show ?thesis using pack_at_end_duplicates [of "small\<lparr>e_o_f := True\<rparr>" "''*x''" "'' b''" 5 alone]
    by (simp add: deleted_def byte_at_def)
qed

text \<open>C39: When the data of a table begin at least two record lengths into the file, a record that is written with
the number 2 ^ 64 - 1, which SKIP -1 above the top of the table leads to, goes into the header: the 64-bit
offset wraps to two record lengths before the data. (With longer records the offset is negative and the write fails.)\<close>
theorem write_above_top_hits_header:
  assumes "tbl_ok t" and "crntrec t = RECNO_MOD - 1" and "int (2 * recsz t) \<le> hd_doffset (thdr t)"
  shows "write_rec False t = (Inr (), t\<lparr>tfile := patch (nat (hd_doffset (thdr t)) - 2 * recsz t) (recbuf t) (tfile t)\<rparr>)"
proof -
  let ?d = "hd_doffset (thdr t)" and ?n = "recsz t"
  have "nat ?d + (reccnt t + 1) * ?n < 9223372036854775808" using assms(1) by (simp add: tbl_ok_def)
  then have "?d < 9223372036854775808" by linarith
  then have b: "?d < 2 ^ 63" "length (recbuf t) = ?n" using assms(1) by (simp_all add: tbl_ok_def)
  have "(int (RECNO_MOD - 1) - 1) * int ?n + ?d = (?d - 2 * int ?n) + 2 ^ 64 * int ?n" by (simp add: algebra_simps)
  then have "(of_int ((int (RECNO_MOD - 1) - 1) * int ?n + ?d) :: 64 word) = of_int (?d - 2 * int ?n) + of_int (2 ^ 64 * int ?n)"
    by (simp only: of_int_add)
  also have "(of_int (2 ^ 64 * int ?n) :: 64 word) = 2 ^ 64 * of_int (int ?n)" by (simp only: of_int_mult of_int_power of_int_numeral)
  also have "(2 ^ 64 :: 64 word) = 0" by (subst exp_eq_zero_iff) simp
  finally have "rec_off t (crntrec t) = sint (of_int (?d - 2 * int ?n) :: 64 word)" by (simp only: rec_off_def assms(2) mult_zero_left add_0_right)
  also have "\<dots> = ?d - 2 * int ?n" using assms(3) b(1) by (intro sint_64) simp_all
  finally have o: "rec_off t (crntrec t) = ?d - 2 * int ?n" .
  have "nat (?d - 2 * int ?n) = nat ?d - 2 * ?n" using assms(3) by (simp add: nat_diff_distrib nat_mult_distrib)
  then show ?thesis using o assms(3) b(2) by (simp add: write_rec_def dbwrite_def cm_simps)
qed

theorem write_above_top_hits_header_witness:
  "write_rec False (three\<lparr>crntrec := RECNO_MOD - 1, recbuf := ''  ''\<rparr>)
     = (Inr (), three\<lparr>crntrec := RECNO_MOD - 1, recbuf := ''  '', tfile := ''  ad a*b c''\<rparr>)"
proof -
  have "tbl_ok (three\<lparr>crntrec := RECNO_MOD - 1, recbuf := ''  ''\<rparr>)" using three_ok(1) by (simp add: tbl_ok_def) (simp add: three_def)
  from write_above_top_hits_header [OF this] show ?thesis by (simp add: patch_def) (simp add: three_def)
qed

end
