(* ===== verification/Transactions.thy ===== *)
theory Transactions
  imports Table_Update
begin

text \<open>
  Transactions on a table: the rollback log of server/dbe/transac.c, with the part of dbstore (server/dbe/db.c)
  that saves a record before its first change. The main result: after any replacements of different records
  that each change something, a rollback leaves the file as it was, byte for byte; and three cases where
  transactions go wrong. Transaction names, their directory and the lists of tables are not modelled: a
  transaction concerns the one table of the context.
\<close>

section \<open>Replacing fields\<close>

definition dbstore_at :: "session \<Rightarrow> nat \<Rightarrow> string \<Rightarrow> unit tm" where
  \<comment> \<open>dbstore once the field is found and may be changed: off is its offset, d the text of its length that the value
    becomes; an unknown or protected field and a value of another type, which end in an error, are not modelled\<close>
  "dbstore_at S off d =
     bnd (getst (etof None)) (\<lambda>e.
     if e then ret ()
     else
       bnd get_db_rec (\<lambda>_.
       bnd (getst (\<lambda>t. rbk_recno t = crntrec t)) (\<lambda>saved.
       bnd (if saved then ret () else save_rec S R_UPDATE) (\<lambda>_.
       modst (\<lambda>t. t\<lparr>recbuf := patch off d (recbuf t)\<rparr>)))))"

definition replace_at :: "session \<Rightarrow> nat \<Rightarrow> nat \<Rightarrow> string \<Rightarrow> unit tm" where
  \<comment> \<open>REPLACE on a record: dbstore and store_rec\<close>
  "replace_at S r off d = bnd (gorec r) (\<lambda>_. bnd (dbstore_at S off d) (\<lambda>_. store_rec S))"

section \<open>The log\<close>

definition begin_table :: "tbl \<Rightarrow> tbl" where
  \<comment> \<open>rbk_open with NEW_FILE, for a table that transaction_start finds in use and a log file that does not exist yet\<close>
  "begin_table t = t\<lparr>rbk_fd := Some [], rbk_pos := 0\<rparr>"

definition rbk_read :: "string \<Rightarrow> nat \<Rightarrow> bool tm" where
  \<comment> \<open>the common part of rbk_read_last and rbk_read_prev: the entry that ends at pos\<close>
  "rbk_read f pos =
     bnd (getst recsz) (\<lambda>n.
     let sz = 4 + 8 + n in
     if pos = 0 then ret False
     else if pos < sz then raise (Dbe RBK_INVAL)
     else
       let b = take sz (drop (pos - sz) f) in
       if length b \<noteq> sz \<or> get_le (take 4 b) \<noteq> unat (crc_32 (drop 4 b)) then raise (Dbe RBK_INVAL)
       else
         bnd (modst (\<lambda>t. t\<lparr>rbk_pos := pos - sz, rbk_recno := get_le (take 8 (drop 4 b)), rbk_buf := drop 12 b\<rparr>)) (\<lambda>_. ret True))"

definition rbk_read_last :: "bool tm" where
  "rbk_read_last = bnd (getst rbk_fd) (\<lambda>f. case f of None \<Rightarrow> raise (Dbe DBSEEK) | Some f \<Rightarrow> rbk_read f (length f))"

definition rbk_read_prev :: "bool tm" where
  "rbk_read_prev = bnd (getst id) (\<lambda>t. case rbk_fd t of None \<Rightarrow> raise (Dbe DBSEEK) | Some f \<Rightarrow> rbk_read f (rbk_pos t))"

definition rbk_close :: "unit tm" where
  "rbk_close = modst (\<lambda>t. t\<lparr>rbk_fd := None, rbk_recno := 0\<rparr>)"

definition commit_rec :: "session \<Rightarrow> nat \<Rightarrow> unit tm" where
  \<comment> \<open>the body of the loop of transaction_commit\<close>
  "commit_rec S r =
     bnd (tr_lock S r HB_WRLCK True) (\<lambda>rc.
     if rc \<noteq> 0 then raise (Syn NORLOCK)
     else
       bnd (gorec r) (\<lambda>_.
       bnd (set_mark VAL_MKR) (\<lambda>_.
       bnd (write_rec True) (\<lambda>_.
       bnd (tr_lock S r HB_UNLCK False) (\<lambda>_. ret ())))))"

definition rollback_rec :: "session \<Rightarrow> nat \<Rightarrow> unit tm" where
  \<comment> \<open>the body of the loop of rbk_rollback, without an active index\<close>
  "rollback_rec S r =
     bnd (tr_lock S r HB_WRLCK True) (\<lambda>rc.
     if rc \<noteq> 0 then raise (Syn NORLOCK)
     else
       bnd (gorec r) (\<lambda>_.
       bnd (getst id) (\<lambda>t.
       bnd (if blkcmp (tl (rbk_buf t)) (tl (recbuf t)) (recsz t - 1) \<noteq> 0 then
              bnd (modst (\<lambda>t. case swapmem (recbuf t) (rbk_buf t) (recsz t) of (b, b') \<Rightarrow> t\<lparr>recbuf := b, rbk_buf := b'\<rparr>)) (\<lambda>_.
              write_rec False)
            else ret ()) (\<lambda>_.
       bnd (tr_lock S r HB_UNLCK False) (\<lambda>_. ret ())))))"

primrec log_loop :: "(nat \<Rightarrow> unit tm) \<Rightarrow> nat \<Rightarrow> unit tm" where
  \<comment> \<open>do .. while (rbk_read_prev(..)), from the entry that is in the buffer\<close>
  "log_loop body 0 = raise NoFuel"
| "log_loop body (Suc k) =
     bnd (getst rbk_recno) (\<lambda>r.
     bnd (body r) (\<lambda>_.
     bnd rbk_read_prev (\<lambda>more. if more then log_loop body k else ret ())))"

definition log_pass :: "(nat \<Rightarrow> unit tm) \<Rightarrow> nat \<Rightarrow> unit tm" where
  "log_pass body k = bnd rbk_read_last (\<lambda>more. bnd (if more then log_loop body k else ret ()) (\<lambda>_. rbk_close))"

definition transaction_commit :: "session \<Rightarrow> nat \<Rightarrow> unit tm" where
  \<comment> \<open>for one table\<close>
  "transaction_commit S k = bnd (getst rbk_fd) (\<lambda>f. if f = None then ret () else log_pass (commit_rec S) k)"

definition rbk_rollback :: "session \<Rightarrow> nat \<Rightarrow> unit tm" where
  "rbk_rollback S k = bnd (getst rbk_fd) (\<lambda>f. if f = None then raise (Dbe TRANSAC_NORBK) else log_pass (rollback_rec S) k)"

section \<open>Entries read back\<close>

lemma length_entry: "length (rbk_entry r x) = 4 + 8 + length x"
  by (simp add: rbk_entry_def)

lemma rbk_read_entry:
  assumes "length x = recsz t" and "r < 2 ^ 64"
  shows "rbk_read (L @ rbk_entry r x @ R) (length (L @ rbk_entry r x)) t
    = (Inr True, t\<lparr>rbk_pos := length L, rbk_recno := r, rbk_buf := x\<rparr>)"
proof -
  let ?e = "rbk_entry r x" let ?c = "crc_32 (put_le 8 r @ x)"
  have l: "length (L @ ?e) = length L + (4 + 8 + recsz t)" using assms(1) by (simp add: length_entry)
  have b: "take (4 + 8 + recsz t) (drop (length L) (L @ ?e @ R)) = ?e" using assms(1) by (simp add: length_entry)
  have e: "take 4 ?e = put_le 4 (unat ?c)" "drop 4 ?e = put_le 8 r @ x" "take 8 (drop 4 ?e) = put_le 8 r" "drop 12 ?e = x"
    by (simp_all add: rbk_entry_def)
  have "unat ?c < 256 ^ 4" using unsigned_less [of ?c] by simp
  then have g: "get_le (put_le 4 (unat ?c)) = unat ?c" "get_le (put_le 8 r) = r" using assms(2) by (simp_all add: get_put_le)
  have "length (L @ ?e) - (4 + 8 + recsz t) = length L" using l by simp
  then show ?thesis
    unfolding rbk_read_def using l b e g assms(1) by (simp add: cm_simps Let_def length_entry del: append_assoc)
qed

lemma rbk_read_none: "rbk_read f 0 t = (Inr False, t)"
  by (simp add: rbk_read_def cm_simps)

section \<open>A logged replacement\<close>

definition logging :: "tbl \<Rightarrow> tbl \<Rightarrow> string \<Rightarrow> string list \<Rightarrow> string \<Rightarrow> string \<Rightarrow> bool" where
  \<comment> \<open>a state with these records and this log, with no record saved\<close>
  "logging t0 t H rs T L \<longleftrightarrow> tbl_ok t \<and> lay t H rs T \<and> writable t \<and> \<not> etof None t \<and> thdr t = thdr t0
     \<and> rbk_fd t = Some L \<and> rbk_recno t = 0"

lemma length_patch: "off + length d \<le> length x \<Longrightarrow> length (patch off d x) = length x"
  by (auto simp: patch_def)

lemma marked_marked [simp]: "marked c (marked d x) = marked c x"
  by (simp add: marked_def)

definition stored :: "char \<Rightarrow> nat \<Rightarrow> string \<Rightarrow> string \<Rightarrow> string" where
  \<comment> \<open>the record with the new text and this marker\<close>
  "stored c off d x = marked c (patch off d x)"

lemma patch_stored: "1 \<le> off \<Longrightarrow> off + length d \<le> length x \<Longrightarrow> patch off d (marked c x) = stored c off d x"
  by (cases x; cases off) (auto simp: patch_def marked_def stored_def)

lemma save_rec_logs:
  assumes p: "logging t0 t H rs T L" and i: "in_trans S" and c: "1 \<le> crntrec t" "crntrec t \<le> reccnt t"
    and b: "recbuf t = rs ! (crntrec t - 1)" "byte_at (recbuf t) 0 = VAL_MKR"
  obtains t' where "save_rec S R_UPDATE t = (Inr (), t')" "tbl_ok t'" "lay t' H (rs[crntrec t - 1 := marked TRANS_MKR (recbuf t)]) T"
    "writable t'" "\<not> etof None t'" "thdr t' = thdr t" "rbk_fd t' = Some (L @ rbk_entry (crntrec t) (recbuf t))"
    "crntrec t' = crntrec t" "recbuf t' = marked TRANS_MKR (recbuf t)" "lock_mode (lk t') = R_UPDATE"
proof -
  let ?x = "recbuf t" and ?r = "crntrec t"
  have t: "tbl_ok t" and l: "lay t H rs T" and w: "writable t" "\<not> etof None t" and f: "rbk_fd t = Some L"
    using p by (simp_all add: logging_def)
  have x: "exclusive t" "in_use (lk t)" "length ?x = recsz t" "2 \<le> recsz t" using t by (simp_all add: tbl_ok_def)
  define L' where "L' = L @ rbk_entry ?r ?x"
  define u where "u = t\<lparr>rbk_buf := ?x, rbk_recno := ?r, rbk_fd := Some L', rbk_pos := length L', recbuf := marked TRANS_MKR ?x\<rparr>"
  have lm: "length (marked TRANS_MKR ?x) = recsz t" using x by (auto simp: marked_def)
  have u: "tbl_ok u" "lay u H rs T" using t l lm by (auto simp: tbl_ok_def lay_def u_def)
  have cu: "1 \<le> crntrec u" "crntrec u \<le> reccnt u" using c by (simp_all add: u_def)
  let ?rs = "rs[?r - 1 := marked TRANS_MKR ?x]"
  have wr: "write_rec True u = (Inr (), with_recs u H ?rs T)"
    using write_rec_at(2) [OF u cu] b(1) by (simp add: u_def marked_def)
  have lk: "tr_lock S ?r HB_WRLCK False t = (Inr 0, t)" using x w c by (intro tr_lock_excl_0) (simp_all add: writable_def)
  have gd: "get_db_rec t = (Inr ?x, t)" using x w by (simp add: get_db_rec_def cm_simps)
  have nt: "byte_at ?x 0 \<noteq> TRANS_MKR" using b(2) by simp
  have "save_lock S R_UPDATE (Suc 99) t = (Inr (), with_recs u H ?rs T)"
    using lk gd b(2) i f x wr
    by (simp only: save_lock.simps) (simp add: cm_simps rbk_write_def set_mark_def Let_def u_def L'_def marked_def)
  then have sl: "save_lock S R_UPDATE LRETRY t = (Inr (), with_recs u H ?rs T)" by simp
  define v where "v = (with_recs u H ?rs T)\<lparr>lk := (lk t)\<lparr>lock_mode := R_UPDATE\<rparr>\<rparr>"
  have sv: "save_rec S R_UPDATE t = (Inr (), v)" using sl w by (simp add: save_rec_def cm_simps writable_def v_def with_recs_def u_def)
  have lv: "lay v H ?rs T"
    using l lm set_update_subset_insert [of rs "?r - 1" "marked TRANS_MKR ?x"] by (auto simp: lay_def v_def with_recs_def u_def)
  have tv: "tbl_ok v" by (rule tbl_ok_lay [OF t lv]) (use x lm in \<open>simp_all add: v_def with_recs_def u_def\<close>)
  show thesis
    by (rule that [OF sv tv lv]) (use w in \<open>simp_all add: v_def with_recs_def u_def L'_def writable_def may_modify_def etof_def\<close>)
qed

lemma store_rec_update:
  assumes t: "tbl_ok t" "lay t H rs T" and c: "1 \<le> crntrec t" "crntrec t \<le> reccnt t" and m: "lock_mode (lk t) = R_UPDATE"
  shows "store_rec S t = (Inr (), (with_recs t H (rs[crntrec t - 1 := recbuf t]) T)\<lparr>dbmdfy := True, rbk_recno := 0\<rparr>)"
proof -
  let ?u = "(with_recs t H (rs[crntrec t - 1 := recbuf t]) T)\<lparr>dbmdfy := True, rbk_recno := 0\<rparr>"
  have ex: "exclusive ?u" using t by (simp add: tbl_ok_def with_recs_def)
  obtain z where z: "tr_lock S (crntrec t) HB_UNLCK False ?u = (Inr z, ?u)" using tr_lock_excl [OF ex] by blast
  have "crntrec ?u = crntrec t" by (simp add: with_recs_def)
  then show ?thesis using write_rec_at(1) [OF t c] m z by (simp add: store_rec_def cm_simps)
qed

lemma replace_logs:
  assumes p: "logging t0 t H rs T L" and i: "in_trans S" and r: "1 \<le> r" "r \<le> reccnt t" and b: "byte_at (rs ! (r - 1)) 0 = VAL_MKR"
    and d: "1 \<le> off" "off + length d \<le> recsz t"
  obtains t' where "replace_at S r off d t = (Inr (), t')"
    "logging t0 t' H (rs[r - 1 := stored TRANS_MKR off d (rs ! (r - 1))]) T (L @ rbk_entry r (rs ! (r - 1)))"
proof -
  let ?x = "rs ! (r - 1)"
  have t: "tbl_ok t" and l: "lay t H rs T" and f: "rbk_recno t = 0" using p by (simp_all add: logging_def)
  have x: "rec_at t r = ?x" by (rule lay_rec_at [OF l r])
  define u where "u = t\<lparr>recbuf := ?x, crntrec := r\<rparr>"
  have g: "gorec r t = (Inr (), u)" using gorec_in [OF t r] x by (simp add: u_def)
  have lx: "length ?x = recsz t" using length_rec_at [OF t r] x by simp
  have pu: "logging t0 u H rs T L" using p lx by (auto simp: logging_def tbl_ok_def lay_def u_def writable_def may_modify_def etof_def)
  have cu: "1 \<le> crntrec u" "crntrec u \<le> reccnt u" "recbuf u = rs ! (crntrec u - 1)" "byte_at (recbuf u) 0 = VAL_MKR"
    using r b by (simp_all add: u_def)
  obtain v where v: "save_rec S R_UPDATE u = (Inr (), v)" "tbl_ok v" "lay v H (rs[r - 1 := marked TRANS_MKR ?x]) T" "writable v" "\<not> etof None v"
      "thdr v = thdr t" "rbk_fd v = Some (L @ rbk_entry r ?x)" "crntrec v = r" "recbuf v = marked TRANS_MKR ?x" "lock_mode (lk v) = R_UPDATE"
    by (rule save_rec_logs [OF pu i cu]) (simp add: u_def)
  have gd: "get_db_rec u = (Inr ?x, u)" using pu by (simp add: get_db_rec_def cm_simps logging_def tbl_ok_def u_def)
  define w where "w = v\<lparr>recbuf := stored TRANS_MKR off d ?x\<rparr>"
  have st: "patch off d (recbuf v) = stored TRANS_MKR off d ?x" using patch_stored d lx v(9) by simp
  have "\<not> etof None u" "rbk_recno u \<noteq> crntrec u" using pu f r by (simp_all add: logging_def u_def)
  then have ds: "dbstore_at S off d u = (Inr (), w)" using gd v(1) st by (simp add: dbstore_at_def cm_simps w_def)
  have ls: "length (stored TRANS_MKR off d ?x) = recsz t"
    using d lx length_patch [of off d ?x] by (auto simp: stored_def marked_def)
  have tw: "tbl_ok w" "lay w H (rs[r - 1 := marked TRANS_MKR ?x]) T" using v(2,3,6) ls by (auto simp: w_def tbl_ok_def lay_def)
  have cw: "1 \<le> crntrec w" "crntrec w \<le> reccnt w" "lock_mode (lk w) = R_UPDATE" using v r by (simp_all add: w_def)
  let ?rs = "rs[r - 1 := stored TRANS_MKR off d ?x]"
  define y where "y = (with_recs w H ?rs T)\<lparr>dbmdfy := True, rbk_recno := 0\<rparr>"
  have sr: "store_rec S w = (Inr (), y)" using store_rec_update [OF tw cw, of S] v(8) by (simp add: y_def) (simp add: w_def)
  have ly: "lay y H ?rs T"
    using l ls v(6) set_update_subset_insert [of rs "r - 1" "stored TRANS_MKR off d ?x"] by (auto simp: lay_def y_def with_recs_def w_def)
  have "tbl_ok y" by (rule tbl_ok_lay [OF tw(1) ly]) (use tw(1) in \<open>simp_all add: y_def with_recs_def tbl_ok_def\<close>)
  then have "logging t0 y H ?rs T (L @ rbk_entry r ?x)"
    using ly v p by (simp add: logging_def y_def with_recs_def w_def writable_def may_modify_def etof_def)
  moreover have "replace_at S r off d t = (Inr (), y)" using g ds sr by (simp add: replace_at_def cm_simps)
  ultimately show thesis using that by blast
qed

section \<open>A pass over the log\<close>

definition log_of :: "(nat \<times> string) list \<Rightarrow> string" where
  "log_of es = concat (map (\<lambda>(r, x). rbk_entry r x) es)"

lemma log_of_simps [simp]: "log_of [] = []" "log_of ((r, x) # es) = rbk_entry r x @ log_of es" "log_of (es @ es') = log_of es @ log_of es'"
  by (simp_all add: log_of_def)

definition entries_ok :: "tbl \<Rightarrow> (nat \<times> string) list \<Rightarrow> bool" where
  "entries_ok t es \<longleftrightarrow> (\<forall>(r, x)\<in>set es. 1 \<le> r \<and> r \<le> reccnt t \<and> length x = recsz t)"

text \<open>What a commit and a rollback have in common: a body that changes the records by one entry, applied to
  the entries from the last to the first.\<close>

locale log_reader =
  fixes body :: "nat \<Rightarrow> unit tm" and act :: "nat \<times> string \<Rightarrow> string list \<Rightarrow> string list"
  assumes body_act: "\<lbrakk>tbl_ok t; lay t H rs T; writable t; rbk_buf t = x; 1 \<le> r; r \<le> reccnt t; length x = recsz t\<rbrakk>
    \<Longrightarrow> \<exists>t'. body r t = (Inr (), t') \<and> tbl_ok t' \<and> lay t' H (act (r, x) rs) T \<and> writable t' \<and> thdr t' = thdr t
      \<and> rbk_fd t' = rbk_fd t \<and> rbk_pos t' = rbk_pos t \<and> etof None t' = etof None t"
begin

lemma read_entry:
  assumes "tbl_ok t" and "rbk_fd t = Some (log_of (es @ [(r, x)]) @ R)" and "entries_ok t (es @ [(r, x)])"
  shows "rbk_read (log_of (es @ [(r, x)]) @ R) (length (log_of (es @ [(r, x)]))) t
    = (Inr True, t\<lparr>rbk_pos := length (log_of es), rbk_recno := r, rbk_buf := x\<rparr>)"
proof -
  have e: "length x = recsz t" "r \<le> reccnt t" using assms(3) by (auto simp: entries_ok_def)
  then have "r < 2 ^ 64" using reccnt_small [OF assms(1)] by simp
  from rbk_read_entry [OF e(1) this, of "log_of es" R] show ?thesis by simp
qed

lemma loop_acts:
  assumes "tbl_ok t" and "lay t H rs T" and "writable t" and "rbk_fd t = Some (log_of (es @ [(r, x)]) @ R)"
    and "rbk_pos t = length (log_of es)" and "rbk_recno t = r" and "rbk_buf t = x"
    and "entries_ok t (es @ [(r, x)])" and "length es < k"
  shows "\<exists>t'. log_loop body k t = (Inr (), t') \<and> tbl_ok t' \<and> lay t' H (foldr act (es @ [(r, x)]) rs) T \<and> thdr t' = thdr t
    \<and> writable t' \<and> etof None t' = etof None t"
  using assms
proof (induction es arbitrary: t rs r x R k rule: rev_induct)
  case Nil
  obtain m where k: "k = Suc m" using Nil.prems(9) by (cases k) auto
  have e: "1 \<le> r" "r \<le> reccnt t" "length x = recsz t" using Nil.prems(8) by (simp_all add: entries_ok_def)
  obtain u where u: "body r t = (Inr (), u)" "tbl_ok u" "lay u H (act (r, x) rs) T" "thdr u = thdr t"
      "rbk_fd u = rbk_fd t" "rbk_pos u = rbk_pos t" "writable u" "etof None u = etof None t"
    using body_act [OF Nil.prems(1-3,7) e] by blast
  have "rbk_read_prev u = (Inr False, u)"
    using u(5,6) Nil.prems(4,5) by (simp add: rbk_read_prev_def bnd_app getst_app rbk_read_none)
  then have "log_loop body k t = (Inr (), u)" using u(1) k Nil.prems(6) by (simp add: bnd_app getst_app ret_app)
  then show ?case using u by auto
next
  case (snoc e es)
  obtain r' x' where e': "e = (r', x')" by (cases e)
  obtain m where k: "k = Suc m" using snoc.prems(9) by (cases k) auto
  have e: "1 \<le> r" "r \<le> reccnt t" "length x = recsz t" using snoc.prems(8) by (auto simp: entries_ok_def)
  obtain u where u: "body r t = (Inr (), u)" "tbl_ok u" "lay u H (act (r, x) rs) T" "writable u" "thdr u = thdr t"
      "rbk_fd u = rbk_fd t" "rbk_pos u = rbk_pos t" "etof None u = etof None t"
    using body_act [OF snoc.prems(1-3,7) e] by blast
  have fu: "rbk_fd u = Some (log_of (es @ [(r', x')]) @ (rbk_entry r x @ R))" using u(6) snoc.prems(4) e' by simp
  have eu: "entries_ok u (es @ [(r', x')])" using snoc.prems(8) u(5) e' by (simp add: entries_ok_def)
  have pu: "rbk_pos u = length (log_of (es @ [(r', x')]))" using u(7) snoc.prems(5) e' by simp
  define v where "v = u\<lparr>rbk_pos := length (log_of es), rbk_recno := r', rbk_buf := x'\<rparr>"
  have rd: "rbk_read_prev u = (Inr True, v)"
    using read_entry [OF u(2) fu eu] fu pu by (simp add: rbk_read_prev_def bnd_app getst_app v_def)
  have v: "tbl_ok v" "lay v H (act (r, x) rs) T" "writable v" "thdr v = thdr t" "entries_ok v (es @ [(r', x')])"
    using u eu by (auto simp: v_def tbl_ok_def lay_def writable_def may_modify_def entries_ok_def)
  have ev: "etof None v = etof None t" using u(8) by (simp add: v_def etof_def)
  have fv: "rbk_fd v = Some (log_of (es @ [(r', x')]) @ (rbk_entry r x @ R))" using fu by (simp add: v_def)
  have "\<exists>t'. log_loop body m v = (Inr (), t') \<and> tbl_ok t' \<and> lay t' H (foldr act (es @ [(r', x')]) (act (r, x) rs)) T \<and> thdr t' = thdr v
      \<and> writable t' \<and> etof None t' = etof None v"
    by (rule snoc.IH [OF v(1,2,3) fv _ _ _ v(5)]) (use snoc.prems(9) k in \<open>simp_all add: v_def\<close>)
  then show ?case using u(1) rd k v(4) ev e' snoc.prems(6) by (simp add: bnd_app getst_app)
qed

lemma pass_acts:
  assumes "tbl_ok t" and "lay t H rs T" and "writable t" and "rbk_fd t = Some (log_of es)" and "entries_ok t es" and "length es \<le> k"
  shows "\<exists>t'. log_pass body k t = (Inr (), t') \<and> lay t' H (foldr act es rs) T \<and> thdr t' = thdr t
    \<and> tbl_ok t' \<and> writable t' \<and> etof None t' = etof None t \<and> rbk_recno t' = 0"
proof (cases es rule: rev_cases)
  case Nil
  then show ?thesis
    using assms by (auto simp: log_pass_def rbk_read_last_def bnd_app getst_app ret_app rbk_read_none rbk_close_def modst_app lay_def
        tbl_ok_def writable_def may_modify_def etof_def)
next
  case (snoc es' e)
  obtain r x where e: "e = (r, x)" by (cases e)
  have f: "rbk_fd t = Some (log_of (es' @ [(r, x)]) @ [])" and eo: "entries_ok t (es' @ [(r, x)])" using assms snoc e by simp_all
  define v where "v = t\<lparr>rbk_pos := length (log_of es'), rbk_recno := r, rbk_buf := x\<rparr>"
  have rd: "rbk_read_last t = (Inr True, v)"
    using read_entry [OF assms(1) f eo] f by (simp add: rbk_read_last_def bnd_app getst_app v_def)
  have v: "tbl_ok v" "lay v H rs T" "writable v" "thdr v = thdr t" "entries_ok v (es' @ [(r, x)])" "rbk_fd v = Some (log_of (es' @ [(r, x)]) @ [])"
    using assms eo f by (auto simp: v_def tbl_ok_def lay_def writable_def may_modify_def entries_ok_def)
  obtain u where u: "log_loop body k v = (Inr (), u)" "lay u H (foldr act (es' @ [(r, x)]) rs) T" "thdr u = thdr v"
      "tbl_ok u" "writable u" "etof None u = etof None v"
    using loop_acts [OF v(1-3,6) _ _ _ v(5), of k] assms(6) snoc by (auto simp: v_def)
  have "log_pass body k t = (Inr (), u\<lparr>rbk_fd := None, rbk_recno := 0\<rparr>)"
    using rd u(1) by (simp add: log_pass_def bnd_app rbk_close_def modst_app)
  then show ?thesis using u v(4) snoc e by (auto simp: lay_def tbl_ok_def writable_def may_modify_def etof_def v_def)
qed

end

definition undo :: "nat \<times> string \<Rightarrow> string list \<Rightarrow> string list" where
  \<comment> \<open>what a rollback makes of the records with one entry\<close>
  "undo e rs = (case e of (r, x) \<Rightarrow> if tl x = tl (rs ! (r - 1)) then rs else rs[r - 1 := x])"

definition validate :: "nat \<times> string \<Rightarrow> string list \<Rightarrow> string list" where
  \<comment> \<open>and a commit\<close>
  "validate e rs = (case e of (r, _) \<Rightarrow> rs[r - 1 := marked VAL_MKR (rs ! (r - 1))])"

lemma at_record:
  assumes t: "tbl_ok t" "lay t H rs T" "writable t" and r: "1 \<le> r" "r \<le> reccnt t" and y: "y = rs ! (r - 1)"
  shows "tr_lock S r HB_WRLCK True t = (Inr 0, t)" and "gorec r t = (Inr (), t\<lparr>recbuf := y, crntrec := r\<rparr>)"
    and "tbl_ok (t\<lparr>recbuf := y, crntrec := r\<rparr>)" and "lay (t\<lparr>recbuf := y, crntrec := r\<rparr>) H rs T" and "length y = recsz t"
proof -
  have x: "rec_at t r = y" using lay_rec_at [OF t(2) r] y by simp
  show ly: "length y = recsz t" using length_rec_at [OF t(1) r] x by simp
  show "tr_lock S r HB_WRLCK True t = (Inr 0, t)" using t r by (intro tr_lock_excl_0) (simp_all add: writable_def tbl_ok_def)
  show "gorec r t = (Inr (), t\<lparr>recbuf := y, crntrec := r\<rparr>)" using gorec_in [OF t(1) r] x by simp
  show "tbl_ok (t\<lparr>recbuf := y, crntrec := r\<rparr>)" "lay (t\<lparr>recbuf := y, crntrec := r\<rparr>) H rs T" using t ly by (auto simp: tbl_ok_def lay_def)
qed

interpretation rollback: log_reader "rollback_rec S" undo for S
proof
  fix t H rs T x and r :: nat
  assume t: "tbl_ok t" "lay t H rs T" "writable t" and x: "rbk_buf t = x" "1 \<le> r" "r \<le> reccnt t" "length x = recsz t"
  define y where "y = rs ! (r - 1)"
  note a = at_record(1) [OF t x(2,3) y_def, of S] at_record(2-5) [OF t x(2,3) y_def]
  have xc: "2 \<le> recsz t" "exclusive t" using t(1) by (simp_all add: tbl_ok_def)
  have bc: "blkcmp (tl x) (tl y) (recsz t - 1) = 0 \<longleftrightarrow> tl x = tl y" using a(5) x(4) by (subst blkcmp_eq_0) auto
  have ul: "\<exists>z. tr_lock S r HB_UNLCK False v = (Inr z, v)" if "exclusive v" for v by (rule tr_lock_excl [OF that])
  let ?u = "t\<lparr>recbuf := y, crntrec := r\<rparr>"
  show "\<exists>t'. rollback_rec S r t = (Inr (), t') \<and> tbl_ok t' \<and> lay t' H (undo (r, x) rs) T \<and> writable t' \<and> thdr t' = thdr t
      \<and> rbk_fd t' = rbk_fd t \<and> rbk_pos t' = rbk_pos t \<and> etof None t' = etof None t"
  proof (cases "tl x = tl y")
    case True
    obtain z where z: "tr_lock S r HB_UNLCK False ?u = (Inr z, ?u)" using ul [of ?u] xc by auto
    have "rollback_rec S r t = (Inr (), ?u)" using a bc True z x by (simp add: rollback_rec_def bnd_app getst_app ret_app)
    then show ?thesis using a(3,4) t True by (simp add: undo_def y_def writable_def may_modify_def etof_def)
  next
    case False
    define v where "v = ?u\<lparr>recbuf := x, rbk_buf := y\<rparr>"
    have v: "tbl_ok v" "lay v H rs T" using a(3,4) x(4) by (auto simp: tbl_ok_def lay_def v_def)
    have cv: "1 \<le> crntrec v" "crntrec v \<le> reccnt v" using x by (simp_all add: v_def)
    define w where "w = with_recs v H (rs[r - 1 := x]) T"
    have wr: "write_rec False v = (Inr (), w)" using write_rec_at(1) [OF v cv] by (simp add: v_def w_def)
    have lw: "lay w H (rs[r - 1 := x]) T"
      using t(2) x(4) set_update_subset_insert [of rs "r - 1" x] by (auto simp: lay_def w_def with_recs_def v_def)
    have tw: "tbl_ok w" by (rule tbl_ok_lay [OF v(1) lw]) (use v(1) in \<open>simp_all add: w_def with_recs_def tbl_ok_def\<close>)
    obtain z where z: "tr_lock S r HB_UNLCK False w = (Inr z, w)" using ul [of w] tw by (auto simp: tbl_ok_def)
    have sw: "swapmem y x (recsz t) = (x, y)" using a(5) x(4) by (simp add: swapmem_def)
    have "rollback_rec S r t = (Inr (), w)"
      using a bc False z x wr sw by (simp add: rollback_rec_def bnd_app getst_app ret_app modst_app v_def)
    then show ?thesis using tw lw t False by (simp add: w_def v_def with_recs_def undo_def y_def writable_def may_modify_def etof_def)
  qed
qed

interpretation commit: log_reader "commit_rec S" validate for S
proof
  fix t H rs T x and r :: nat
  assume t: "tbl_ok t" "lay t H rs T" "writable t" and x: "rbk_buf t = x" "1 \<le> r" "r \<le> reccnt t" "length x = recsz t"
  define y where "y = rs ! (r - 1)"
  note a = at_record(1) [OF t x(2,3) y_def, of S] at_record(2-5) [OF t x(2,3) y_def]
  have xc: "2 \<le> recsz t" using t(1) by (simp add: tbl_ok_def)
  define v where "v = t\<lparr>crntrec := r, recbuf := marked VAL_MKR y\<rparr>"
  have lm: "length (marked VAL_MKR y) = recsz t" using a(5) xc by (auto simp: marked_def)
  have v: "tbl_ok v" "lay v H rs T" using a(3,4) lm by (auto simp: tbl_ok_def lay_def v_def)
  have cv: "1 \<le> crntrec v" "crntrec v \<le> reccnt v" using x by (simp_all add: v_def)
  define w where "w = with_recs v H (rs[r - 1 := marked VAL_MKR y]) T"
  have wr: "write_rec True v = (Inr (), w)" using write_rec_at(2) [OF v cv] by (simp add: v_def w_def y_def marked_def)
  have lw: "lay w H (rs[r - 1 := marked VAL_MKR y]) T"
    using t(2) lm set_update_subset_insert [of rs "r - 1" "marked VAL_MKR y"] by (auto simp: lay_def w_def with_recs_def v_def)
  have tw: "tbl_ok w" by (rule tbl_ok_lay [OF v(1) lw]) (use v(1) in \<open>simp_all add: w_def with_recs_def tbl_ok_def\<close>)
  then have "exclusive w" by (simp add: tbl_ok_def)
  then obtain z where z: "tr_lock S r HB_UNLCK False w = (Inr z, w)" using tr_lock_excl by blast
  have "commit_rec S r t = (Inr (), w)"
    using a z wr by (simp add: commit_rec_def bnd_app getst_app ret_app modst_app set_mark_def v_def marked_def)
  then show "\<exists>t'. commit_rec S r t = (Inr (), t') \<and> tbl_ok t' \<and> lay t' H (validate (r, x) rs) T \<and> writable t' \<and> thdr t' = thdr t
      \<and> rbk_fd t' = rbk_fd t \<and> rbk_pos t' = rbk_pos t \<and> etof None t' = etof None t"
    using tw lw t by (simp add: w_def v_def with_recs_def validate_def y_def writable_def may_modify_def etof_def)
qed

section \<open>Whole transactions\<close>

primrec replaces :: "session \<Rightarrow> (nat \<times> nat \<times> string) list \<Rightarrow> unit tm" where
  \<comment> \<open>REPLACE of one field in each of these records\<close>
  "replaces S [] = ret ()"
| "replaces S (u # us) = (case u of (r, off, d) \<Rightarrow> bnd (replace_at S r off d) (\<lambda>_. replaces S us))"

definition entries :: "string list \<Rightarrow> (nat \<times> nat \<times> string) list \<Rightarrow> (nat \<times> string) list" where
  "entries rs us = map (\<lambda>(r, _). (r, rs ! (r - 1))) us"

definition changes :: "tbl \<Rightarrow> string list \<Rightarrow> (nat \<times> nat \<times> string) list \<Rightarrow> bool" where
  \<comment> \<open>different valid records, fields within the record\<close>
  "changes t rs us \<longleftrightarrow> distinct (map fst us)
     \<and> (\<forall>(r, off, d)\<in>set us. 1 \<le> r \<and> r \<le> reccnt t \<and> 1 \<le> off \<and> off + length d \<le> recsz t \<and> byte_at (rs ! (r - 1)) 0 = VAL_MKR)"

definition store_all :: "char \<Rightarrow> (nat \<times> nat \<times> string) list \<Rightarrow> string list \<Rightarrow> string list" where
  "store_all c us rs = foldl (\<lambda>rs (r, off, d). rs[r - 1 := stored c off d (rs ! (r - 1))]) rs us"

lemma store_all_simps [simp]:
  "store_all c [] rs = rs" "store_all c ((r, off, d) # us) rs = store_all c us (rs[r - 1 := stored c off d (rs ! (r - 1))])"
  by (simp_all add: store_all_def)

lemma entries_simps [simp]: "entries rs [] = []" "entries rs ((r, off, d) # us) = (r, rs ! (r - 1)) # entries rs us"
  by (simp_all add: entries_def)

lemma other_record: "1 \<le> (r :: nat) \<Longrightarrow> 1 \<le> q \<Longrightarrow> q \<noteq> r \<Longrightarrow> rs[r - 1 := x] ! (q - 1) = rs ! (q - 1)"
  by (intro nth_list_update_neq) linarith

lemma changes_update:
  assumes "changes t rs ((r, off, d) # us)"
  shows "changes t (rs[r - 1 := x]) us" and "entries (rs[r - 1 := x]) us = entries rs us"
proof -
  have *: "rs[r - 1 := x] ! (q - 1) = rs ! (q - 1)" if "(q, z) \<in> set us" for q z
  proof -
    have "q \<in> fst ` set us" using that by force
    then have "q \<noteq> r" "1 \<le> q" "1 \<le> r" using assms that unfolding changes_def by auto
    then show ?thesis by (intro other_record)
  qed
  show "changes t (rs[r - 1 := x]) us" using assms * unfolding changes_def by fastforce
  show "entries (rs[r - 1 := x]) us = entries rs us" unfolding entries_def by (rule map_cong) (use * in auto)
qed

lemma replaces_log:
  assumes "logging t0 t H rs T (log_of es)" and "in_trans S" and "changes t rs us"
  shows "\<exists>t'. replaces S us t = (Inr (), t') \<and> logging t0 t' H (store_all TRANS_MKR us rs) T (log_of (es @ entries rs us))"
  using assms
proof (induction us arbitrary: t rs es)
  case Nil
  then show ?case by (simp add: ret_app)
next
  case (Cons u us)
  obtain r off d where u: "u = (r, off, d)" by (cases u)
  have c: "1 \<le> r" "r \<le> reccnt t" "byte_at (rs ! (r - 1)) 0 = VAL_MKR" "1 \<le> off" "off + length d \<le> recsz t"
    using Cons.prems(3) u by (simp_all add: changes_def)
  let ?rs = "rs[r - 1 := stored TRANS_MKR off d (rs ! (r - 1))]"
  obtain t1 where t1: "replace_at S r off d t = (Inr (), t1)" "logging t0 t1 H ?rs T (log_of es @ rbk_entry r (rs ! (r - 1)))"
    by (rule replace_logs [OF Cons.prems(1,2) c])
  have l1: "logging t0 t1 H ?rs T (log_of (es @ [(r, rs ! (r - 1))]))" using t1(2) by simp
  have th: "thdr t1 = thdr t" using t1(2) Cons.prems(1) by (simp add: logging_def)
  have "changes t1 ?rs us" using changes_update(1) Cons.prems(3) u th by (simp add: changes_def)
  from Cons.IH [OF l1 Cons.prems(2) this]
  show ?case using t1(1) u changes_update(2) Cons.prems(3) by (simp add: bnd_app)
qed

definition altered :: "string list \<Rightarrow> (nat \<times> nat \<times> string) list \<Rightarrow> bool" where
  \<comment> \<open>each replacement changes something\<close>
  "altered rs us \<longleftrightarrow> (\<forall>(r, off, d)\<in>set us. tl (patch off d (rs ! (r - 1))) \<noteq> tl (rs ! (r - 1)))"

lemma tl_stored [simp]: "tl (stored c off d x) = tl (patch off d x)"
  by (simp add: stored_def marked_def)

lemma undo_all:
  assumes "changes t rs us" and "altered rs us" and "length rs = reccnt t"
  shows "foldr undo (entries rs us) (store_all TRANS_MKR us rs) = rs"
  using assms
proof (induction us arbitrary: rs)
  case (Cons u us)
  obtain r off d where u: "u = (r, off, d)" by (cases u)
  let ?y = "stored TRANS_MKR off d (rs ! (r - 1))" let ?rs = "rs[r - 1 := ?y]"
  have r: "1 \<le> r" "r - 1 < length rs" using Cons.prems u by (auto simp: changes_def)
  note cu = changes_update [OF Cons.prems(1) [unfolded u], of ?y]
  have "altered ?rs us"
    unfolding altered_def
  proof (clarify)
    fix q o' d' assume m: "(q, o', d') \<in> set us" and e: "tl (patch o' d' (?rs ! (q - 1))) = tl (?rs ! (q - 1))"
    have "q \<in> fst ` set us" using m by force
    then have "q \<noteq> r" "1 \<le> q" using Cons.prems(1) m u unfolding changes_def by auto
    then have "?rs ! (q - 1) = rs ! (q - 1)" using r by (intro other_record)
    then show False using e m Cons.prems(2) by (auto simp: altered_def)
  qed
  then have ih: "foldr undo (entries rs us) (store_all TRANS_MKR us ?rs) = ?rs"
    using Cons.IH [OF cu(1)] Cons.prems(3) unfolding cu(2) by simp
  have "tl (rs ! (r - 1)) \<noteq> tl ?y" using Cons.prems(2) u by (auto simp: altered_def)
  then have "undo (r, rs ! (r - 1)) ?rs = rs" using r by (simp add: undo_def)
  then show ?case using ih u by simp
qed simp

lemma store_all_update:
  "\<forall>(q, _)\<in>set us. 1 \<le> q \<and> q \<noteq> r \<Longrightarrow> 1 \<le> r \<Longrightarrow> (store_all c us rs)[r - 1 := x] = store_all c us (rs[r - 1 := x])
    \<and> store_all c us rs ! (r - 1) = rs ! (r - 1)"
proof (induction us arbitrary: rs)
  case (Cons u us)
  obtain q off d where u: "u = (q, off, d)" by (cases u)
  have q: "q - 1 \<noteq> r - 1" using Cons.prems u by auto
  have "rs[r - 1 := x] ! (q - 1) = rs ! (q - 1)" using q by (intro nth_list_update_neq) simp
  moreover have "rs[q - 1 := y, r - 1 := x] = rs[r - 1 := x, q - 1 := y]" for y using q by (rule list_update_swap)
  ultimately show ?case using Cons u q by simp
qed simp

lemma validate_all:
  assumes "changes t rs us" and "length rs = reccnt t"
  shows "foldr validate (entries rs us) (store_all TRANS_MKR us rs) = store_all VAL_MKR us rs"
  using assms
proof (induction us arbitrary: rs)
  case (Cons u us)
  obtain r off d where u: "u = (r, off, d)" by (cases u)
  let ?y = "stored TRANS_MKR off d (rs ! (r - 1))" let ?rs = "rs[r - 1 := ?y]"
  have r: "1 \<le> r" "r - 1 < length rs" using Cons.prems u by (auto simp: changes_def)
  note cu = changes_update [OF Cons.prems(1) [unfolded u], of ?y]
  have ih: "foldr validate (entries rs us) (store_all TRANS_MKR us ?rs) = store_all VAL_MKR us ?rs"
    using Cons.IH [OF cu(1)] Cons.prems(2) unfolding cu(2) by simp
  have o: "\<forall>(q, _)\<in>set us. 1 \<le> q \<and> q \<noteq> r" using Cons.prems(1) u unfolding changes_def by force
  have m: "marked VAL_MKR ?y = stored VAL_MKR off d (rs ! (r - 1))" by (simp add: stored_def)
  have "validate (r, rs ! (r - 1)) (store_all VAL_MKR us ?rs) = store_all VAL_MKR us (rs[r - 1 := stored VAL_MKR off d (rs ! (r - 1))])"
    using m r store_all_update [OF o r(1), of VAL_MKR ?rs] by (simp add: validate_def)
  then show ?case using ih u by simp
qed simp

lemma begin_logging:
  assumes "tbl_ok t" and "writable t" and "\<not> etof None t" and "rbk_recno t = 0"
  obtains H T where "logging t (begin_table t) H (recs t) T (log_of [])" "tfile t = H @ concat (recs t) @ T" "length (recs t) = reccnt t"
proof -
  obtain H T where l: "lay t H (recs t) T" by (rule lay_ex [OF assms(1)])
  then have "logging t (begin_table t) H (recs t) T (log_of [])"
    using assms by (simp add: logging_def begin_table_def tbl_ok_def lay_def writable_def may_modify_def etof_def)
  then show thesis using that l by (simp add: lay_def)
qed

lemma transaction_logged:
  assumes t: "tbl_ok t" "writable t" "\<not> etof None t" "rbk_recno t = 0" and s: "in_trans S" and us: "changes t (recs t) us"
  obtains t1 H T where "bnd (modst begin_table) (\<lambda>_. replaces S us) t = (Inr (), t1)" "tbl_ok t1" "writable t1" "thdr t1 = thdr t"
    "lay t1 H (store_all TRANS_MKR us (recs t)) T" "rbk_fd t1 = Some (log_of (entries (recs t) us))"
    "entries_ok t1 (entries (recs t) us)" "tfile t = H @ concat (recs t) @ T" "length (recs t) = reccnt t" "\<not> etof None t1"
proof -
  obtain H T where b: "logging t (begin_table t) H (recs t) T (log_of [])" "tfile t = H @ concat (recs t) @ T" "length (recs t) = reccnt t"
    by (rule begin_logging [OF t])
  have "thdr (begin_table t) = thdr t" by (simp add: begin_table_def)
  then have "changes (begin_table t) (recs t) us" using us by (simp add: changes_def)
  then obtain t1 where r: "replaces S us (begin_table t) = (Inr (), t1)"
      "logging t t1 H (store_all TRANS_MKR us (recs t)) T (log_of ([] @ entries (recs t) us))"
    using replaces_log [OF b(1) s] by blast
  have "\<forall>r\<in>set (recs t). length r = recsz t" using length_rec_at [OF t(1)] by (auto simp: recs_def)
  then have "entries_ok t1 (entries (recs t) us)"
    using us r(2) b(3) by (auto simp: entries_ok_def entries_def changes_def logging_def)
  then show thesis
    by (intro that [of t1 H T]) (use r b in \<open>simp_all add: bnd_app modst_app logging_def\<close>)
qed

text \<open>C3: ROLLBACK restores the table, which is in exclusive use: after a transaction that replaces fields in any number of different valid
records, each time with something else, the file has the bytes it had before the transaction began.\<close>
theorem rollback_restores:
  assumes "tbl_ok t" and "writable t" and "\<not> etof None t" and "rbk_recno t = 0" and "in_trans S"
    and "changes t (recs t) us" and "altered (recs t) us" and "length us \<le> k"
  shows "\<exists>t'. bnd (bnd (modst begin_table) (\<lambda>_. replaces S us)) (\<lambda>_. rbk_rollback S k) t = (Inr (), t') \<and> tfile t' = tfile t"
proof -
  obtain t1 H T where r: "bnd (modst begin_table) (\<lambda>_. replaces S us) t = (Inr (), t1)" "tbl_ok t1" "writable t1" "thdr t1 = thdr t"
    "lay t1 H (store_all TRANS_MKR us (recs t)) T" "rbk_fd t1 = Some (log_of (entries (recs t) us))"
    "entries_ok t1 (entries (recs t) us)" "tfile t = H @ concat (recs t) @ T" "length (recs t) = reccnt t"
    by (rule transaction_logged [OF assms(1-6)])
  have "length (entries (recs t) us) \<le> k" using assms(8) by (simp add: entries_def)
  then obtain t2 where p: "log_pass (rollback_rec S) k t1 = (Inr (), t2)"
      "lay t2 H (foldr undo (entries (recs t) us) (store_all TRANS_MKR us (recs t))) T"
    using rollback.pass_acts [OF r(2,5,3,6,7)] by blast
  have "tfile t2 = tfile t" using p(2) r(8,9) undo_all [OF assms(6,7)] by (simp add: lay_def)
  then show ?thesis using p(1) r(1,6) by (simp add: rbk_rollback_def bnd_app [of _ "\<lambda>_. bnd _ _"] bnd_app [of "bnd _ _"] getst_app bnd_app [of "getst _"])
qed

text \<open>C13: COMMIT keeps the transaction's values, in a table in exclusive use: afterwards every replaced record holds the new text and is valid
again, and all other records are as they were.\<close>
theorem commit_keeps:
  assumes "tbl_ok t" and "writable t" and "\<not> etof None t" and "rbk_recno t = 0" and "in_trans S"
    and "changes t (recs t) us" and "length us \<le> k"
  shows "\<exists>t'. bnd (bnd (modst begin_table) (\<lambda>_. replaces S us)) (\<lambda>_. transaction_commit S k) t = (Inr (), t')
    \<and> recs t' = store_all VAL_MKR us (recs t)"
proof -
  obtain t1 H T where r: "bnd (modst begin_table) (\<lambda>_. replaces S us) t = (Inr (), t1)" "tbl_ok t1" "writable t1" "thdr t1 = thdr t"
    "lay t1 H (store_all TRANS_MKR us (recs t)) T" "rbk_fd t1 = Some (log_of (entries (recs t) us))"
    "entries_ok t1 (entries (recs t) us)" "tfile t = H @ concat (recs t) @ T" "length (recs t) = reccnt t"
    by (rule transaction_logged [OF assms(1-6)])
  have "length (entries (recs t) us) \<le> k" using assms(7) by (simp add: entries_def)
  then obtain t2 where p: "log_pass (commit_rec S) k t1 = (Inr (), t2)"
      "lay t2 H (foldr validate (entries (recs t) us) (store_all TRANS_MKR us (recs t))) T"
    using commit.pass_acts [OF r(2,5,3,6,7)] by blast
  have "recs t2 = store_all VAL_MKR us (recs t)" using lay_recs [OF p(2)] validate_all [OF assms(6) r(9)] by simp
  then show ?thesis using p(1) r(1,6) by (simp add: transaction_commit_def bnd_app [of "bnd _ _"] getst_app bnd_app [of "getst _"])
qed

section \<open>Where transactions go wrong\<close>

lemma save_lock_refuses:
  "exclusive t \<Longrightarrow> in_use (lk t) \<Longrightarrow> writable t \<Longrightarrow> \<not> etof None t \<Longrightarrow> crntrec t \<noteq> 0 \<Longrightarrow> byte_at (recbuf t) 0 = TRANS_MKR
    \<Longrightarrow> fst (save_lock S R_UPDATE k t) = Inl (Dbe TRANSAC_EXCL)"
proof (induction k arbitrary: t)
  case (Suc k)
  have a: "tr_lock S (crntrec t) HB_WRLCK False t = (Inr 0, t)" using Suc.prems by (intro tr_lock_excl_0) (simp_all add: writable_def)
  obtain z where z: "tr_lock S (crntrec t) HB_UNLCK False t = (Inr z, t)" using tr_lock_excl [OF Suc.prems(1)] by blast
  have g: "get_db_rec t = (Inr (recbuf t), t)" using Suc.prems by (simp add: get_db_rec_def cm_simps)
  show ?case
  proof (cases "k = 0")
    case True
    then show ?thesis using a z g Suc.prems by (simp add: cm_simps)
  next
    case False
    let ?u = "t\<lparr>kern := wait S k (kern t), tfile := others S k (tfile t)\<rparr>"
    have "fst (save_lock S R_UPDATE k ?u) = Inl (Dbe TRANSAC_EXCL)"
      by (rule Suc.IH) (use Suc.prems in \<open>simp_all add: writable_def may_modify_def etof_def\<close>)
    then show ?thesis using False a z g Suc.prems by (simp add: cm_simps)
  qed
qed (simp add: cm_simps)

lemma replace_marked_refused:
  assumes "tbl_ok t" and "writable t" and "\<not> etof None t" and "rbk_recno t = 0" and "1 \<le> r" and "r \<le> reccnt t"
    and "byte_at (rec_at t r) 0 = TRANS_MKR"
  shows "fst (replace_at S r off d t) = Inl (Dbe TRANSAC_EXCL)"
proof -
  let ?u = "t\<lparr>recbuf := rec_at t r, crntrec := r\<rparr>"
  have g: "gorec r t = (Inr (), ?u)" by (rule gorec_in [OF assms(1,5,6)])
  have x: "exclusive t" "in_use (lk t)" using assms(1) by (simp_all add: tbl_ok_def)
  have w: "writable ?u" "\<not> etof None ?u" using assms(2,3) by (simp_all add: writable_def may_modify_def etof_def)
  have "fst (save_lock S R_UPDATE LRETRY ?u) = Inl (Dbe TRANSAC_EXCL)"
    by (rule save_lock_refuses) (use x w assms in simp_all)
  then obtain v where v: "save_lock S R_UPDATE LRETRY ?u = (Inl (Dbe TRANSAC_EXCL), v)" by (metis prod.collapse)
  have "save_rec S R_UPDATE ?u = (Inl (Dbe TRANSAC_EXCL), v)" using v w by (simp add: save_rec_def cm_simps writable_def)
  moreover have "get_db_rec ?u = (Inr (rec_at t r), ?u)" using x w by (simp add: get_db_rec_def cm_simps)
  ultimately show ?thesis using g w assms(4,5) by (simp add: replace_at_def dbstore_at_def cm_simps)
qed

text \<open>C35: A transaction cannot change a record twice: the mark of the first change makes the second one wait for the
end of the transaction, which is its own, and fail with TRANSAC_EXCL.\<close>
theorem second_change_refused:
  assumes t: "tbl_ok t" "writable t" "\<not> etof None t" "rbk_recno t = 0" and s: "in_trans S" and c: "changes t (recs t) [(r, off, d)]"
  shows "fst (bnd (bnd (modst begin_table) (\<lambda>_. replaces S [(r, off, d)])) (\<lambda>_. replace_at S r off' d') t) = Inl (Dbe TRANSAC_EXCL)"
proof -
  obtain H T where b: "logging t (begin_table t) H (recs t) T (log_of [])" "length (recs t) = reccnt t" by (rule begin_logging [OF t])
  have "thdr (begin_table t) = thdr t" by (simp add: begin_table_def)
  then have "changes (begin_table t) (recs t) [(r, off, d)]" using c by (simp add: changes_def)
  then obtain u where u: "replaces S [(r, off, d)] (begin_table t) = (Inr (), u)"
      "logging t u H ((recs t)[r - 1 := stored TRANS_MKR off d (recs t ! (r - 1))]) T (log_of ([] @ entries (recs t) [(r, off, d)]))"
    using replaces_log [OF b(1) s, of "[(r, off, d)]"] by (auto simp del: replaces.simps entries_simps)
  have r: "1 \<le> r" "r \<le> reccnt u" "r - 1 < length (recs t)" using c u(2) b(2) by (auto simp: changes_def logging_def)
  have l: "lay u H ((recs t)[r - 1 := stored TRANS_MKR off d (recs t ! (r - 1))]) T" using u(2) by (simp add: logging_def)
  have "byte_at (rec_at u r) 0 = TRANS_MKR"
    using lay_rec_at [OF l r(1,2)] r(3) by (simp add: stored_def marked_def byte_at_def)
  then have "fst (replace_at S r off' d' u) = Inl (Dbe TRANSAC_EXCL)"
    using replace_marked_refused u(2) r by (simp add: logging_def)
  then show ?thesis using u(1) by (simp add: bnd_app modst_app del: replaces.simps)
qed

text \<open>C36: A rollback skips a record whose bytes behind the marker are the original ones, and with it the marker: when
a transaction replaced a field by the value it had, the rollback leaves the records as they were except that this one keeps the mark of a transaction that is over,
and after it every REPLACE of any field of this record, in a transaction or not, fails with TRANSAC_EXCL. The table is in exclusive use.\<close>
theorem rollback_leaves_mark:
  assumes t: "tbl_ok t" "writable t" "\<not> etof None t" "rbk_recno t = 0" and s: "in_trans S"
    and c: "changes t (recs t) [(r, off, d)]" and same: "patch off d (rec_at t r) = rec_at t r" and k: "1 \<le> k"
  shows "\<exists>t'. bnd (bnd (modst begin_table) (\<lambda>_. replaces S [(r, off, d)])) (\<lambda>_. rbk_rollback S k) t = (Inr (), t')
    \<and> recs t' = (recs t)[r - 1 := marked TRANS_MKR (rec_at t r)]
    \<and> (\<forall>S' off' d'. fst (replace_at S' r off' d' t') = Inl (Dbe TRANSAC_EXCL))"
proof -
  obtain t1 H T where b: "bnd (modst begin_table) (\<lambda>_. replaces S [(r, off, d)]) t = (Inr (), t1)" "tbl_ok t1" "writable t1"
    "lay t1 H (store_all TRANS_MKR [(r, off, d)] (recs t)) T" "rbk_fd t1 = Some (log_of (entries (recs t) [(r, off, d)]))"
    "entries_ok t1 (entries (recs t) [(r, off, d)])" "length (recs t) = reccnt t" "\<not> etof None t1" "thdr t1 = thdr t"
    by (rule transaction_logged [OF t s c])
  have r: "1 \<le> r" "r \<le> reccnt t" using c by (simp_all add: changes_def)
  then have x: "recs t ! (r - 1) = rec_at t r" by (simp add: recs_def del: upt_Suc)
  let ?rs = "(recs t)[r - 1 := marked TRANS_MKR (rec_at t r)]"
  have st: "store_all TRANS_MKR [(r, off, d)] (recs t) = ?rs" using x same by (simp add: stored_def)
  have "undo (r, rec_at t r) ?rs = ?rs" using r b(7) by (simp add: undo_def marked_def)
  then have "foldr undo (entries (recs t) [(r, off, d)]) (store_all TRANS_MKR [(r, off, d)] (recs t)) = ?rs"
    unfolding st using x by simp
  moreover have "length (entries (recs t) [(r, off, d)]) \<le> k" using k by simp
  ultimately obtain t2 where p: "log_pass (rollback_rec S) k t1 = (Inr (), t2)" "lay t2 H ?rs T"
      "thdr t2 = thdr t1" "tbl_ok t2" "writable t2" "\<not> etof None t2" "rbk_recno t2 = 0"
    using rollback.pass_acts [OF b(2,4,3,5,6)] b(8) by metis
  have r2: "r \<le> reccnt t2" using r(2) p(3) b(9) by simp
  have "rec_at t2 r = marked TRANS_MKR (rec_at t r)" using lay_rec_at [OF p(2) r(1) r2] r b(7) by simp
  then have "fst (replace_at S' r off' d' t2) = Inl (Dbe TRANSAC_EXCL)" for S' off' d'
    by (intro replace_marked_refused [OF p(4-7) r(1) r2]) (simp add: marked_def byte_at_def)
  then show ?thesis
    using lay_recs [OF p(2)] p(1) b(1,5) by (simp add: rbk_rollback_def bnd_app [of "bnd _ _"] getst_app bnd_app [of "getst _"] del: replaces.simps entries_simps)
qed

definition pair :: tbl where
  \<comment> \<open>two valid records of three bytes\<close>
  "pair = three\<lparr>thdr := (thdr three)\<lparr>hd_reccnt := 2, hd_byprec := 3\<rparr>, tfile := ''head ab cd'', recbuf := '' ab''\<rparr>"

definition in_transaction :: session where
  "in_transaction = alone\<lparr>in_trans := True\<rparr>"

lemma pair_ok: "tbl_ok pair" "writable pair" "\<not> etof None pair" "rbk_recno pair = 0" "in_trans in_transaction"
  by (simp_all add: tbl_ok_def pair_def three_def fresh_client_def writable_def may_modify_def etof_def in_transaction_def)

lemma pair_recs: "recs pair = ['' ab'', '' cd'']" "rec_at pair 1 = '' ab''"
  by (simp_all add: recs_def rec_at_def pair_def three_def upt_rec)

lemma pair_size: "reccnt pair = 2" "recsz pair = 3"
  by (simp_all add: pair_def)

theorem rollback_restores_witness:
  "\<exists>t'. bnd (bnd (modst begin_table) (\<lambda>_. replaces in_transaction [(2, 1, ''x''), (1, 2, ''y'')])) (\<lambda>_. rbk_rollback in_transaction 2) pair
     = (Inr (), t') \<and> tfile t' = tfile pair"
  by (rule rollback_restores [OF pair_ok])
    (simp_all add: changes_def altered_def pair_recs pair_size byte_at_def patch_def numeral_2_eq_2)

theorem commit_keeps_witness:
  "\<exists>t'. bnd (bnd (modst begin_table) (\<lambda>_. replaces in_transaction [(2, 1, ''x''), (1, 2, ''y'')])) (\<lambda>_. transaction_commit in_transaction 2) pair
     = (Inr (), t') \<and> recs t' = ['' ay'', '' xd'']"
proof -
  have "changes pair (recs pair) [(2, 1, ''x''), (1, 2, ''y'')]"
    by (simp add: changes_def pair_recs pair_size byte_at_def)
  moreover have "store_all VAL_MKR [(2, 1, ''x''), (1, 2, ''y'')] (recs pair) = ['' ay'', '' xd'']"
    by (simp add: pair_recs stored_def marked_def patch_def numeral_2_eq_2)
  ultimately show ?thesis using commit_keeps [OF pair_ok, of "[(2, 1, ''x''), (1, 2, ''y'')]" 2] by simp
qed

theorem second_change_refused_witness:
  "fst (bnd (bnd (modst begin_table) (\<lambda>_. replaces in_transaction [(1, 1, ''x'')])) (\<lambda>_. replace_at in_transaction 1 2 ''y'') pair)
     = Inl (Dbe TRANSAC_EXCL)"
  by (rule second_change_refused [OF pair_ok]) (simp add: changes_def pair_recs pair_size byte_at_def)

theorem rollback_leaves_mark_witness:
  "\<exists>t'. bnd (bnd (modst begin_table) (\<lambda>_. replaces in_transaction [(1, 1, ''a'')])) (\<lambda>_. rbk_rollback in_transaction 1) pair
     = (Inr (), t') \<and> recs t' = [''!ab'', '' cd''] \<and> (\<forall>S' off' d'. fst (replace_at S' 1 off' d' t') = Inl (Dbe TRANSAC_EXCL))"
proof -
  have "changes pair (recs pair) [(1, 1, ''a'')]" "patch 1 ''a'' (rec_at pair 1) = rec_at pair 1"
    by (simp_all add: changes_def pair_recs [simplified] pair_recs(1) pair_size byte_at_def patch_def)
  from rollback_leaves_mark [OF pair_ok this, of 1] show ?thesis by (simp add: pair_recs [simplified] pair_recs(1) marked_def)
qed

end
