(* ===== verification/Table_Types.thy ===== *)
theory Table_Types
  imports Transactions
begin

text \<open>
  Tables stay well formed: from a state in which the header in memory fits the file and the record buffer has
  the length of a record, every movement and every change of a record ends in such a state, whatever error
  it may end with.
\<close>

definition keeps :: "'a tm \<Rightarrow> bool" where
  "keeps m \<longleftrightarrow> (\<forall>t. tbl_ok t \<longrightarrow> tbl_ok (snd (m t)))"

named_theorems keep "operations that keep a table well formed"

lemma keeps_bnd [keep]: "keeps m \<Longrightarrow> (\<And>x. keeps (f x)) \<Longrightarrow> keeps (bnd m f)"
  by (auto simp: keeps_def bnd_def split: prod.split sum.split)

lemma keeps_if [keep]: "keeps m \<Longrightarrow> keeps m' \<Longrightarrow> keeps (if b then m else m')"
  by simp

lemma keeps_basic [keep]: "keeps (ret x)" "keeps (raise e)" "keeps (getst f)"
  by (simp_all add: keeps_def cm_simps)

lemma keeps_read: "(\<And>t. tbl_ok t \<Longrightarrow> tbl_ok (snd (f (g t) t))) \<Longrightarrow> keeps (bnd (getst g) f)"
  by (simp add: keeps_def bnd_app getst_app)

lemma keep_modst: "(\<And>t. tbl_ok t \<Longrightarrow> tbl_ok (f t)) \<Longrightarrow> keeps (modst f)"
  by (simp add: keeps_def modst_app)

lemma keep_flags [keep]:
  "keeps (modst (\<lambda>t. t\<lparr>rec_found := b\<rparr>))" "keeps (modst (\<lambda>t. t\<lparr>crntrec := r\<rparr>))" "keeps (modst (\<lambda>t. t\<lparr>dbmdfy := b\<rparr>))"
  "keeps (modst (\<lambda>t. t\<lparr>rbk_recno := r\<rparr>))" "keeps (modst (\<lambda>t. t\<lparr>lk := (lk t)\<lparr>lock_mode := n\<rparr>\<rparr>))"
  by (rule keep_modst; simp add: tbl_ok_def)+

lemma keep_lock [keep]: "keeps (tr_lock S r y retry)"
  unfolding keeps_def
proof (intro allI impI)
  fix t assume t: "tbl_ok t"
  then have "exclusive t" by (simp add: tbl_ok_def)
  then obtain z where "tr_lock S r y retry t = (Inr z, t)" using tr_lock_excl by blast
  then show "tbl_ok (snd (tr_lock S r y retry t))" using t by simp
qed

lemma keep_hdr [keep]: "keeps (lock_tbl_hdr S)" "keeps (unlock_tbl_hdr S)"
  by (auto simp: keeps_def tbl_ok_def hdr_excl)

lemma keep_clretof [keep]: "keeps (clretof S d)"
  by (cases d) (auto simp: keeps_def clretof_Some modst_app tbl_ok_def clretof_None)

lemma keep_setetof [keep]: "keeps (setetof d)"
  by (auto simp: keeps_def setetof_def modst_app tbl_ok_def split: option.split direction.split)

lemma keep_gorec [keep]: "keeps (gorec r)"
  unfolding keeps_def
proof (intro allI impI)
  fix t assume t: "tbl_ok t"
  have "tbl_ok (t\<lparr>recbuf := take (recsz t) f @ drop (min (length f) (recsz t)) (recbuf t)\<rparr>)" for f
    using t by (simp add: tbl_ok_def)
  from this [of "drop n (tfile t)" for n] have "tbl_ok (t\<lparr>recbuf := take (recsz t) (drop n (tfile t))
      @ drop (min (length (tfile t) - n) (recsz t)) (recbuf t)\<rparr>)" for n by simp
  moreover have "tbl_ok (t\<lparr>crntrec := x\<rparr>) = tbl_ok t" "tbl_ok (t\<lparr>recbuf := c, crntrec := x\<rparr>) = tbl_ok (t\<lparr>recbuf := c\<rparr>)" for c x
    by (simp_all add: tbl_ok_def)
  moreover have "tbl_ok (t\<lparr>recbuf := replicate (recsz t) (CHR '' '')\<rparr>)" using t by (simp add: tbl_ok_def)
  ultimately show "tbl_ok (snd (gorec r t))"
    using t by (simp add: gorec_def cm_simps dbread_def Let_def)
qed

lemma length_patch_ge: "length f \<le> length (patch off d f)"
  by (auto simp: patch_def)

lemma keep_write_rec [keep]: "keeps (write_rec b)"
  unfolding keeps_def
proof (intro allI impI)
  fix t assume t: "tbl_ok t"
  have "tbl_ok (t\<lparr>tfile := patch off d (tfile t)\<rparr>)" for off d
    using t length_patch_ge [of "tfile t" off d] by (simp add: tbl_ok_def)
  then show "tbl_ok (snd (write_rec b t))"
    using t by (simp add: write_rec_def dbwrite_def cm_simps)
qed

lemma keep_set_mark [keep]: "keeps (set_mark c)"
  unfolding set_mark_def by (rule keep_modst) (auto simp: tbl_ok_def)

lemma keep_get_db_rec [keep]: "keeps get_db_rec"
  unfolding get_db_rec_def
  by (intro keep)

lemma keep_valid_chk [keep]: "keeps valid_chk"
  unfolding valid_chk_def by (intro keep)

section \<open>Movements\<close>

lemma keep_move [keep]: "keeps (move S d)"
  unfolding move_def Let_def
  by (intro keep)

lemma keep_go: "keeps (go S r)"
  unfolding go_def by (intro keep)

lemma keep_settle [keep]: "keeps (settle S d k)"
  by (induction k) (auto intro!: keep)

lemma keep_gotop [keep]: "keeps (gotop S k)"
  unfolding gotop_def Let_def by (intro keep)

lemma keep_gobot [keep]: "keeps (gobot S k)"
  unfolding gobot_def by (intro keep)

lemma keep_skip_loop [keep]: "keeps (skip_loop S d k n)"
  by (induction k arbitrary: n) (auto intro!: keep)

lemma keep_skip [keep]: "keeps (skip S k n)"
  unfolding skip_def Let_def by (intro keep)

lemma keep_locate: "keeps (locate_rec S c d m k)"
  by (induction k) (auto intro!: keep)

section \<open>Changes\<close>

definition others_harmless :: "session \<Rightarrow> bool" where
  \<comment> \<open>nobody shortens the file while this process sleeps\<close>
  "others_harmless S \<longleftrightarrow> (\<forall>k f. length f \<le> length (others S k f))"

lemma keep_rbk_write [keep]: "keeps (rbk_write S)"
  unfolding rbk_write_def Let_def
  by (rule keeps_read) (auto simp: cm_simps tbl_ok_def split: option.split)

lemma keep_save_lock [keep]:
  assumes "others_harmless S"
  shows "keeps (save_lock S m k)"
proof (induction k)
  case 0
  show ?case by (simp add: keep)
next
  case (Suc k)
  have o: "keeps (modst (\<lambda>t. t\<lparr>kern := wait S k (kern t), tfile := others S k (tfile t)\<rparr>))"
  proof (rule keep_modst)
    fix t assume "tbl_ok t"
    moreover have "length (tfile t) \<le> length (others S k (tfile t))" using assms by (simp add: others_harmless_def)
    ultimately show "tbl_ok (t\<lparr>kern := wait S k (kern t), tfile := others S k (tfile t)\<rparr>)" by (simp add: tbl_ok_def)
  qed
  have b: "keeps (modst (\<lambda>t. t\<lparr>rbk_buf := take (recsz t) c, rbk_recno := crntrec t\<rparr>))" for c
    by (rule keep_modst) (simp add: tbl_ok_def)
  show ?case
    unfolding save_lock.simps by (intro keep o b Suc)
qed

lemma keep_save_rec [keep]: "others_harmless S \<Longrightarrow> keeps (save_rec S m)"
  unfolding save_rec_def by (intro keep)

lemma keep_del_recall: "others_harmless S \<Longrightarrow> keeps (del_recall S c)"
  unfolding del_recall_def by (intro keep)

lemma keep_store_rec:
  assumes "tbl_ok t" and "lock_mode (lk t) \<noteq> R_APPEND"
  shows "tbl_ok (snd (store_rec S t))"
proof -
  define m where "m = lock_mode (lk t)"
  have "keeps (bnd (write_rec False) (\<lambda>_.
     bnd (modst (\<lambda>t. t\<lparr>dbmdfy := True\<rparr>)) (\<lambda>_.
     bnd (ret ()) (\<lambda>_.
     if m = R_PACK then ret ()
     else
       bnd (if m = R_UPDATE then modst (\<lambda>t. t\<lparr>rbk_recno := 0\<rparr>) else ret ()) (\<lambda>_.
       bnd (getst id) (\<lambda>t.
       if m = R_APPEND \<or> blkcmp (tl (recbuf t)) (tl (rbk_buf t)) (recsz t - 1) \<noteq> 0
       then bnd (tr_lock S (crntrec t) HB_UNLCK False) (\<lambda>_. ret ())
       else ret ()))))))"
    by (intro keep)
  moreover have "m \<noteq> R_APPEND" using assms(2) by (simp add: m_def)
  ultimately show ?thesis
    using assms(1) unfolding store_rec_def keeps_def bnd_app [of "getst (\<lambda>t. lock_mode (lk t))"] getst_app prod.case sum.case m_def [symmetric]
    by (simp only: if_False)
qed

text \<open>What every one of these operations keeps, also when it ends with an error: the header fits the file, the table
  is in exclusive use and the record buffer holds one record (for the operations that save or store a record:
  when the writes of other processes keep the length of the file, and no blank record waits to be stored).\<close>

theorem tables_stay_well_formed:
  assumes "tbl_ok t" and "others_harmless S" and "lock_mode (lk t) \<noteq> R_APPEND"
  shows "tbl_ok (snd (go S r t)) \<and> tbl_ok (snd (skip S k n t)) \<and> tbl_ok (snd (gotop S k t)) \<and> tbl_ok (snd (gobot S k t))
    \<and> tbl_ok (snd (locate_rec S c d k k t)) \<and> tbl_ok (snd (del_recall S mark t)) \<and> tbl_ok (snd (save_rec S m t))
    \<and> tbl_ok (snd (store_rec S t))"
  using keep_go keep_skip keep_gotop keep_gobot keep_locate keep_del_recall [OF assms(2)] keep_save_rec [OF assms(2)]
    keep_store_rec [OF assms(1,3)] assms(1)
  unfolding keeps_def by metis

theorem tables_stay_well_formed_witness:
  "tbl_ok (snd (go alone 7 three)) \<and> tbl_ok (snd (skip alone 3 (- 9) three)) \<and> tbl_ok (snd (store_rec alone three))"
proof -
  have "others_harmless alone" "lock_mode (lk three) \<noteq> R_APPEND"
    by (simp_all add: others_harmless_def alone_def three_def fresh_client_def)
  from tables_stay_well_formed [OF three_ok(1) this, of 7 3 "- 9"] show ?thesis by blast
qed

end
