(* ===== verification/Procedures.thy ===== *)
theory Procedures
  imports Execution
begin

text \<open>
  Procedures: server/hb/proc.c. compile_proc turns a program file into an object file: a sequence of
  code blocks and long jumps, in which the targets of forward jumps are filled in later (ec and its helpers),
  and references to procedures when they are found (add_do_list). exec_ runs an object file. The lines of a
  program come with their command and the code block of their expression or command (get_command, expression
  and emit, modelled in Lexer and Parser). Offsets are those of the file and stay below 2 ^ 31, as
  cpos_t requires.
\<close>

section \<open>Object files\<close>

abbreviation (input) JBLOCKSZ :: nat where "JBLOCKSZ \<equiv> 6"
abbreviation (input) PLACE_HOLDER :: int where "PLACE_HOLDER \<equiv> - 1"
abbreviation (input) PROC_LEVELS :: nat where "PROC_LEVELS \<equiv> 32"
abbreviation (input) STRBUFSZ :: nat where "STRBUFSZ \<equiv> 2048"
abbreviation (input) MAXMCOUNT :: nat where "MAXMCOUNT \<equiv> 32767"
abbreviation (input) OBJ_LIB :: nat where "OBJ_LIB \<equiv> 0x87"
abbreviation (input) PRG_REG :: nat where "PRG_REG \<equiv> 0"
abbreviation (input) PRG_PROC :: nat where "PRG_PROC \<equiv> 1"
abbreviation (input) PRG_FUNC :: nat where "PRG_FUNC \<equiv> 2"

abbreviation (input) LOOP :: nat where "LOOP \<equiv> 0x5b"
abbreviation (input) CASE_CTL :: nat where "CASE_CTL \<equiv> 0x80"
abbreviation (input) ELSE_CTL :: nat where "ELSE_CTL \<equiv> 0x82"
abbreviation (input) ELSEIF_CTL :: nat where "ELSEIF_CTL \<equiv> 0x83"
abbreviation (input) EXIT_CTL :: nat where "EXIT_CTL \<equiv> 0x87"
abbreviation (input) IF_CTL :: nat where "IF_CTL \<equiv> 0x89"
abbreviation (input) LOOP_CTL :: nat where "LOOP_CTL \<equiv> 0x8a"
abbreviation (input) OTHERWISE_CTL :: nat where "OTHERWISE_CTL \<equiv> 0x8b"
abbreviation (input) WHILE_CTL :: nat where "WHILE_CTL \<equiv> 0x8e"

datatype item = Blk code_block | LJmp nat int

definition item_sz :: "item \<Rightarrow> nat" where
  "item_sz it = (case it of
       Blk b \<Rightarrow> block_sz b
     | LJmp jc _ \<Rightarrow> if jc = RETURN_OP \<or> jc = FCNRTN_OP then 2 else JBLOCKSZ)"

record nesting =
  \<comment> \<open>an entry of neststack: the control word and the bits 0x1000 and 0x2000\<close>
  ctl :: nat
  s_case :: bool
  nf_case :: bool

record do_entry =
  \<comment> \<open>faddr is negative for a procedure that is referenced, but not defined yet\<close>
  proc_name :: string
  ptype :: nat
  faddr :: int

record cgen =
  \<comment> \<open>outf maps an offset of the file to the item that begins there, and fend is its length. jmp_addr and
    neststack have their top first\<close>
  outf :: "nat \<Rightarrow> item option"
  fend :: nat
  jmp_addr :: "int list"
  neststack :: "nesting list"
  do_list :: "do_entry list"

type_synonym 'a gm = "(cgen, 'a) cm"

definition put_item :: "item \<Rightarrow> unit gm" where
  \<comment> \<open>fwrite at the end of the file\<close>
  "put_item it = modst (\<lambda>g. g\<lparr>outf := (outf g)(fend g \<mapsto> it), fend := fend g + item_sz it\<rparr>)"

definition dbg_block :: "bool \<Rightarrow> code_block \<Rightarrow> code_block" where
  \<comment> \<open>a line number behind the block\<close>
  "dbg_block dbg b = (if dbg then b\<lparr>block_sz := block_sz b + 4\<rparr> else b)"

definition write_block :: "bool \<Rightarrow> code_block \<Rightarrow> unit gm" where
  "write_block dbg b = put_item (Blk (dbg_block dbg b))"

definition cgen_ljmp :: "nat \<Rightarrow> int \<Rightarrow> unit gm" where
  "cgen_ljmp jcode pos = put_item (LJmp jcode pos)"

definition push_addr :: "int \<Rightarrow> unit gm" where
  \<comment> \<open>the entry 0 of the array is not used\<close>
  "push_addr pos = bnd (getst (\<lambda>g. length (jmp_addr g))) (\<lambda>n.
     if PROC_LEVELS \<le> n + 1 then raise (Sys STACK_FAULT)
     else modst (\<lambda>g. g\<lparr>jmp_addr := pos # jmp_addr g\<rparr>))"

definition pop_addr :: "int gm" where
  "pop_addr = bnd (getst jmp_addr) (\<lambda>a. case a of
       [] \<Rightarrow> raise (Sys STACK_FAULT)
     | p # ps \<Rightarrow> bnd (modst (\<lambda>g. g\<lparr>jmp_addr := ps\<rparr>)) (\<lambda>_. ret p))"

definition get_addr :: "int \<Rightarrow> int gm" where
  \<comment> \<open>fread of the address at an offset, which lies 2 bytes behind the start of a jump\<close>
  "get_addr p = bnd (getst outf) (\<lambda>F. case F (nat (p - 2)) of Some (LJmp jc a) \<Rightarrow> ret a | _ \<Rightarrow> raise Undefined)"

definition set_addr :: "int \<Rightarrow> int \<Rightarrow> unit gm" where
  "set_addr p a = bnd (getst outf) (\<lambda>F. case F (nat (p - 2)) of
       Some (LJmp jc _) \<Rightarrow> modst (\<lambda>g. g\<lparr>outf := F(nat (p - 2) \<mapsto> LJmp jc a)\<rparr>)
     | _ \<Rightarrow> raise Undefined)"

definition ftell :: "int gm" where
  "ftell = getst (\<lambda>g. int (fend g))"

definition mod_addr :: "unit gm" where
  "mod_addr = bnd ftell (\<lambda>pos. bnd pop_addr (\<lambda>p. set_addr p pos))"

definition mod_jmp :: "unit gm" where
  "mod_jmp = bnd pop_addr (\<lambda>pos. bnd mod_addr (\<lambda>_. push_addr pos))"

definition push_slot :: "unit gm" where
  \<comment> \<open>push_addr(ftell(outfp) - sizeof(cpos_t))\<close>
  "push_slot = bnd ftell (\<lambda>pos. push_addr (pos - 4))"

definition jmp_codegen :: "unit gm" where
  "jmp_codegen = bnd (cgen_ljmp JUMP_OP PLACE_HOLDER) (\<lambda>_. bnd mod_addr (\<lambda>_. push_slot))"

definition cond_codegen :: "bool \<Rightarrow> code_block \<Rightarrow> unit gm" where
  "cond_codegen dbg b = bnd (write_block dbg b) (\<lambda>_. bnd (cgen_ljmp JMP_FALSE_OP PLACE_HOLDER) (\<lambda>_. push_slot))"

section \<open>Control structures\<close>

definition crntlevel :: "cgen \<Rightarrow> nat" where
  "crntlevel g = (case neststack g of [] \<Rightarrow> 0 | n # _ \<Rightarrow> ctl n)"

definition flag :: "(nesting \<Rightarrow> bool) \<Rightarrow> cgen \<Rightarrow> bool" where
  "flag f g = (case neststack g of [] \<Rightarrow> False | n # _ \<Rightarrow> f n)"

definition pushlevel :: "nat \<Rightarrow> unit gm" where
  "pushlevel what = bnd (getst (\<lambda>g. length (neststack g))) (\<lambda>n.
     if n + 1 = PROC_LEVELS then raise (Syn TOOMANY_LEVELS)
     else modst (\<lambda>g. g\<lparr>neststack := \<lparr>ctl = what, s_case = False, nf_case = False\<rparr> # neststack g\<rparr>))"

definition poplevel :: "unit gm" where
  "poplevel = modst (\<lambda>g. g\<lparr>neststack := tl (neststack g)\<rparr>)"

definition on_level :: "(nesting \<Rightarrow> nesting) \<Rightarrow> unit gm" where
  "on_level f = modst (\<lambda>g. g\<lparr>neststack := (case neststack g of [] \<Rightarrow> [] | n # ns \<Rightarrow> f n # ns)\<rparr>)"

definition chglevel :: "nat \<Rightarrow> unit gm" where
  "chglevel what = on_level (\<lambda>_. \<lparr>ctl = what, s_case = False, nf_case = False\<rparr>)"

fun loop_frame :: "nesting list \<Rightarrow> nat \<Rightarrow> err + nat" where
  \<comment> \<open>the search of EXIT and LOOP for the enclosing DO WHILE: how many addresses lie above its own ones\<close>
  "loop_frame [] d = Inl (Syn UNBAL_LOOP)"
| "loop_frame (n # ns) d =
     (if ctl n = IF_CTL \<or> ctl n = ELSE_CTL then loop_frame ns (d + 1)
      else if ctl n = ELSEIF_CTL then loop_frame ns (d + 2)
      else if ctl n = CASE_CTL \<or> ctl n = OTHERWISE_CTL then
        loop_frame ns (d + (if s_case n then 1 else 0) + (if nf_case n then 1 else 0))
      else if ctl n = WHILE_CTL then Inr d
      else Inl (Syn UNBAL_LOOP))"

definition exit_loop :: "nat \<Rightarrow> unit gm" where
  \<comment> \<open>the case EXIT_CTL, LOOP_CTL of ec: cmd is the command of the line, which is compared with LOOP\<close>
  "exit_loop cmd =
     bnd (getst (\<lambda>g. (loop_frame (neststack g) 0, jmp_addr g))) (\<lambda>(r, as).
     case r of
       Inl e \<Rightarrow> raise e
     | Inr d \<Rightarrow>
         if cmd = LOOP then
           (if d + 1 < length as then cgen_ljmp JUMP_OP (as ! (d + 1)) else raise Undefined)
         else if \<not> d < length as then raise Undefined
         else
           bnd ftell (\<lambda>pos. bnd (set_addr (as ! d) pos) (\<lambda>_. bnd (cgen_ljmp JUMP_OP PLACE_HOLDER) (\<lambda>_.
           bnd ftell (\<lambda>pos. modst (\<lambda>g. g\<lparr>jmp_addr := (jmp_addr g)[d := pos - 4]\<rparr>))))))"

datatype line =
    LNull
  | LComment
  | LUnknown
  | LHead bool string \<comment> \<open>PROCEDURE or FUNCTION (True) and its name\<close>
  | LSimple code_block
  | LDo string code_block
  | LReturn "code_block option"
  | LWhile code_block | LEnddo | LLoop | LExit
  | LIf code_block | LElseif code_block | LElse | LEndif
  | LDoCase | LCase code_block | LOtherwise | LEndcase

section \<open>References to procedures\<close>

definition same_name :: "string \<Rightarrow> string \<Rightarrow> bool" where
  \<comment> \<open>!strcasecmp(a, b)\<close>
  "same_name a b \<longleftrightarrow> map to_lower a = map to_lower b"

primrec resolve :: "nat \<Rightarrow> int \<Rightarrow> int \<Rightarrow> unit gm" where
  \<comment> \<open>do .. while (dr->de.faddr != 0): fills the places of the references, each of which names the one before it\<close>
  "resolve 0 p a = raise NoFuel"
| "resolve (Suc n) p a =
     bnd (get_addr (- p)) (\<lambda>q. bnd (set_addr (- p) a) (\<lambda>_. if q \<noteq> 0 then resolve n q a else ret ()))"

definition add_do_list :: "string \<Rightarrow> nat \<Rightarrow> int \<Rightarrow> unit gm" where
  \<comment> \<open>a negative address is that of a reference\<close>
  "add_do_list name type fa =
     bnd (getst id) (\<lambda>g.
     case List.find (\<lambda>i. same_name (proc_name (do_list g ! i)) name) [0 ..< length (do_list g)] of
       None \<Rightarrow>
         bnd (if fa < 0 then set_addr (- fa) 0 else ret ()) (\<lambda>_.
         modst (\<lambda>g. g\<lparr>do_list := do_list g @ [\<lparr>proc_name = name, ptype = type, faddr = fa\<rparr>]\<rparr>))
     | Some i \<Rightarrow>
         let de = do_list g ! i in
         if fa < 0 then
           bnd (set_addr (- fa) (faddr de)) (\<lambda>_.
           if faddr de < 0 then modst (\<lambda>g. g\<lparr>do_list := (do_list g)[i := de\<lparr>faddr := fa\<rparr>]\<rparr>) else ret ())
         else if 0 < faddr de then raise (Syn MULTI_DEF)
         else if ptype de \<noteq> type then raise (Syn PROC_MISMATCH)
         else
           bnd (resolve (fend g) (faddr de) fa) (\<lambda>_.
           modst (\<lambda>g. g\<lparr>do_list := (do_list g)[i := de\<lparr>faddr := fa\<rparr>]\<rparr>)))"

section \<open>Compiling\<close>

definition ec_line :: "bool \<Rightarrow> bool \<Rightarrow> line \<Rightarrow> unit gm" where
  \<comment> \<open>the switch of ec. A RETURN with a value is compiled in functions only\<close>
  "ec_line isfcn dbg l = bnd (getst id) (\<lambda>g. case l of
       LNull \<Rightarrow> ret ()
     | LComment \<Rightarrow> ret ()
     | LUnknown \<Rightarrow> raise (Syn COMMAND_UNKNOWN)
     | LHead _ _ \<Rightarrow> ret ()
     | LSimple b \<Rightarrow> write_block dbg b
     | LDo name b \<Rightarrow>
         bnd (write_block dbg b) (\<lambda>_. bnd (cgen_ljmp CALL_OP PLACE_HOLDER) (\<lambda>_.
         bnd ftell (\<lambda>pos. add_do_list name PRG_PROC (- (pos - 4)))))
     | LReturn (Some b) \<Rightarrow>
         if \<not> isfcn then raise (Syn EXCESS_SYNTAX)
         else bnd (write_block dbg b) (\<lambda>_. cgen_ljmp FCNRTN_OP 0)
     | LReturn None \<Rightarrow> if isfcn then raise (Syn BAD_EXP) else cgen_ljmp RETURN_OP 0
     | LWhile b \<Rightarrow>
         bnd (pushlevel WHILE_CTL) (\<lambda>_. bnd ftell (\<lambda>pos. bnd (push_addr pos) (\<lambda>_. cond_codegen dbg b)))
     | LEnddo \<Rightarrow>
         if crntlevel g \<noteq> WHILE_CTL then raise (Syn UNBAL_ENDDO)
         else
           bnd poplevel (\<lambda>_. bnd pop_addr (\<lambda>pos. bnd pop_addr (\<lambda>start.
           bnd (cgen_ljmp JUMP_OP start) (\<lambda>_. bnd (push_addr pos) (\<lambda>_. mod_addr)))))
     | LExit \<Rightarrow> exit_loop EXIT_CTL
     | LLoop \<Rightarrow> exit_loop LOOP_CTL
     | LIf b \<Rightarrow> bnd (pushlevel IF_CTL) (\<lambda>_. cond_codegen dbg b)
     | LElseif b \<Rightarrow>
         bnd (if crntlevel g = IF_CTL then bnd jmp_codegen (\<lambda>_. chglevel ELSEIF_CTL)
              else if crntlevel g = ELSEIF_CTL then bnd mod_jmp (\<lambda>_. jmp_codegen)
              else raise (Syn MISSING_IF)) (\<lambda>_. cond_codegen dbg b)
     | LElse \<Rightarrow>
         bnd (if crntlevel g = IF_CTL then jmp_codegen
              else if crntlevel g = ELSEIF_CTL then bnd mod_jmp (\<lambda>_. jmp_codegen)
              else raise (Syn MISSING_IF)) (\<lambda>_. chglevel ELSE_CTL)
     | LEndif \<Rightarrow>
         bnd (if crntlevel g = IF_CTL \<or> crntlevel g = ELSE_CTL then mod_addr
              else if crntlevel g = ELSEIF_CTL then bnd mod_jmp (\<lambda>_. mod_addr)
              else raise (Syn UNBAL_ENDIF)) (\<lambda>_. poplevel)
     | LDoCase \<Rightarrow> pushlevel CASE_CTL
     | LCase b \<Rightarrow>
         if crntlevel g \<noteq> CASE_CTL then raise (Syn MISSING_CASE)
         else
           bnd (if flag nf_case g then
                  bnd (if flag s_case g then mod_jmp else ret ()) (\<lambda>_.
                  bnd (on_level (\<lambda>n. n\<lparr>s_case := True\<rparr>)) (\<lambda>_. jmp_codegen))
                else ret ()) (\<lambda>_.
           bnd (on_level (\<lambda>n. n\<lparr>nf_case := True\<rparr>)) (\<lambda>_. cond_codegen dbg b))
     | LOtherwise \<Rightarrow>
         if crntlevel g \<noteq> CASE_CTL then raise (Syn MISSING_CASE)
         else
           bnd (if flag nf_case g then bnd (if flag s_case g then mod_jmp else ret ()) (\<lambda>_. jmp_codegen) else ret ()) (\<lambda>_.
           bnd (chglevel OTHERWISE_CTL) (\<lambda>_.
           if flag nf_case g then on_level (\<lambda>n. n\<lparr>nf_case := True\<rparr>) else ret ()))
     | LEndcase \<Rightarrow>
         if crntlevel g \<noteq> CASE_CTL \<and> crntlevel g \<noteq> OTHERWISE_CTL then raise (Syn UNBAL_ENDCASE)
         else
           bnd (if flag nf_case g then bnd (if flag s_case g then mod_jmp else ret ()) (\<lambda>_. mod_addr) else ret ()) (\<lambda>_. poplevel))"

primrec ec_lines :: "nat \<Rightarrow> bool \<Rightarrow> bool \<Rightarrow> line list \<Rightarrow> line list gm" where
  \<comment> \<open>the loop of ec with seen_ret; the result is the header it stops at and what follows\<close>
  "ec_lines type dbg seen [] = bnd (getst neststack) (\<lambda>n. case n of
       [] \<Rightarrow> ret []
     | n # _ \<Rightarrow> raise (Syn (if ctl n = IF_CTL then UNBAL_IF else if ctl n = WHILE_CTL then UNBAL_DOWHILE
         else if ctl n = CASE_CTL then UNBAL_CASE else UNKNOWN_CONTROL)))"
| "ec_lines type dbg seen (l # ls) = (case l of
       LHead _ _ \<Rightarrow>
         if type = PRG_REG then raise (Syn ILL_SYNTAX)
         else if type = PRG_FUNC \<and> \<not> seen then raise (Syn MISSING_RETURN)
         else ret (l # ls)
     | _ \<Rightarrow> bnd (ec_line (type = PRG_FUNC) dbg l) (\<lambda>_.
         ec_lines type dbg (seen \<or> (case l of LReturn _ \<Rightarrow> True | _ \<Rightarrow> False)) ls))"

definition ec :: "nat \<Rightarrow> bool \<Rightarrow> line list \<Rightarrow> line list gm" where
  "ec type dbg ls =
     bnd (modst (\<lambda>g. g\<lparr>neststack := []\<rparr>)) (\<lambda>_.
     bnd (ec_lines type dbg False ls) (\<lambda>rest.
     bnd (cgen_ljmp RETURN_OP 0) (\<lambda>_. ret rest)))"

primrec compile_lines :: "nat \<Rightarrow> bool \<Rightarrow> nat \<Rightarrow> line list \<Rightarrow> unit gm" where
  \<comment> \<open>while (ln_init(..)) { .. while (cmd) switch (cmd) .. } with the number of modules so far. A comment leaves
    the switch with break, and cmd is what it was\<close>
  "compile_lines 0 dbg m ls = raise NoFuel"
| "compile_lines (Suc k) dbg m ls = (case ls of
       [] \<Rightarrow> ret ()
     | LNull # ls \<Rightarrow> compile_lines k dbg m ls
     | LComment # ls \<Rightarrow> compile_lines k dbg m (LComment # ls)
     | LHead isf name # ls \<Rightarrow>
         if MAXMCOUNT \<le> m then raise (Syn TOOMANYPROCS)
         else
           let type = (if isf then PRG_FUNC else PRG_PROC) in
           bnd ftell (\<lambda>pos. bnd (add_do_list name type pos) (\<lambda>_.
           bnd (ec type dbg ls) (\<lambda>rest. compile_lines k dbg (m + 1) rest)))
     | _ # _ \<Rightarrow> raise (Syn MISSING_PROC))"

primrec last_ref :: "nat \<Rightarrow> int \<Rightarrow> int gm" where
  "last_ref 0 p = raise NoFuel"
| "last_ref (Suc n) p = bnd (get_addr (- p)) (\<lambda>q. if q = 0 then ret p else last_ref n q)"

primrec count_unresolved :: "do_entry list \<Rightarrow> nat \<Rightarrow> nat gm" where
  \<comment> \<open>the number of an unresolved procedure goes to the place of its first reference\<close>
  "count_unresolved [] n = ret n"
| "count_unresolved (de # des) n =
     (if faddr de < 0 then
        bnd (getst fend) (\<lambda>k. bnd (last_ref k (faddr de)) (\<lambda>p.
        bnd (set_addr (- p) (int n + 1)) (\<lambda>_. count_unresolved des (n + 1))))
      else count_unresolved des n)"

definition write_rtable :: "nat gm" where
  \<comment> \<open>the table itself is written behind the code; only its place is modelled\<close>
  "write_rtable =
     bnd (getst do_list) (\<lambda>des. bnd ftell (\<lambda>pos. bnd (count_unresolved des 0) (\<lambda>n.
     bnd (set_addr 2 pos) (\<lambda>_. ret n))))"

definition compile_proc :: "nat \<Rightarrow> bool \<Rightarrow> line list \<Rightarrow> nat gm" where
  "compile_proc k dbg ls =
     bnd (modst (\<lambda>g. g\<lparr>outf := Map.empty, fend := 0, do_list := []\<rparr>)) (\<lambda>_.
     bnd (cgen_ljmp OBJ_LIB 0) (\<lambda>_.
     bnd (compile_lines k dbg 0 ls) (\<lambda>_. write_rtable)))"

section \<open>Running\<close>

record 'r rt =
  \<comment> \<open>jmp_addr holds the return addresses now; curr_lvl is the length of pcount, and top_caddr that of
    call_addr\<close>
  mch :: "'r machine"
  ret_addr :: "int list"
  pcount :: "nat list"
  call_addr :: "int list"
  escape :: bool

record 'r rops =
  \<comment> \<open>what running a block depends on (execute, with its fuel), and release(R_ALL | R_PROC) at a level\<close>
  r_ops :: "'r ops"
  r_scope :: "('r machine, bool) cm"
  r_fuel :: nat
  r_release :: "nat \<Rightarrow> ('r machine, unit) cm"

type_synonym ('r, 'a) rm = "('r rt, 'a) cm"

definition on_mch :: "('r machine, 'a) cm \<Rightarrow> ('r, 'a) rm" where
  "on_mch m = (\<lambda>t. case m (mch t) of (r, w) \<Rightarrow> (r, t\<lparr>mch := w\<rparr>))"

definition run_block :: "'r rops \<Rightarrow> code_block \<Rightarrow> ('r machine, unit) cm" where
  "run_block R b = execute (r_ops R) (r_scope R) b (r_fuel R)"

definition push_call :: "nat \<Rightarrow> int \<Rightarrow> ('r, unit) rm" where
  \<comment> \<open>push_pcount(n) and push_call_addr(a)\<close>
  "push_call n a =
     bnd (getst id) (\<lambda>t.
     if PROC_LEVELS < length (pcount t) + 1 then raise (Syn TOOMANY_LEVELS)
     else if length (pcount t) + 1 = PROC_LEVELS then raise Undefined
     else
       bnd (modst (\<lambda>t. t\<lparr>pcount := n # pcount t\<rparr>)) (\<lambda>_.
       if PROC_LEVELS \<le> length (call_addr t) + 1 then raise (Sys STACK_FAULT)
       else modst (\<lambda>t. t\<lparr>call_addr := a # call_addr t\<rparr>)))"

definition push_ret :: "int \<Rightarrow> ('r, unit) rm" where
  "push_ret a = bnd (getst (\<lambda>t. length (ret_addr t))) (\<lambda>n.
     if PROC_LEVELS \<le> n + 1 then raise (Sys STACK_FAULT) else modst (\<lambda>t. t\<lparr>ret_addr := a # ret_addr t\<rparr>))"

primrec pop_parms :: "nat \<Rightarrow> unit sm" where
  \<comment> \<open>while (!stack_empty() && pcount--) pop_stack(DONTCARE)\<close>
  "pop_parms 0 = ret ()"
| "pop_parms (Suc n) = bnd (getst (\<lambda>s. s = [])) (\<lambda>e. if e then ret () else bnd pop_any (\<lambda>_. pop_parms n))"

definition pop_value :: "hbval sm" where
  \<comment> \<open>memcpy(rtv, topstack, topstack->valspec.len + 2) into a buffer of STRBUFSZ bytes, and pop_stack\<close>
  "pop_value = bnd (getst id) (\<lambda>s. case s of
       [] \<Rightarrow> raise Undefined
     | v # _ \<Rightarrow> if STRBUFSZ < valspec_len v + 2 then raise Undefined else pop_any)"

definition go_back :: "'r rops \<Rightarrow> bool \<Rightarrow> ('r, int) rm" where
  \<comment> \<open>the cases FCNRTN and RETURN of exec_\<close>
  "go_back R fcn =
     bnd (if fcn then bnd (on_mch (on_stk pop_value)) (\<lambda>v. ret (Some v)) else ret None) (\<lambda>v.
     bnd (getst id) (\<lambda>t. case ret_addr t of
       [] \<Rightarrow> raise (Sys STACK_FAULT)
     | newpos # as \<Rightarrow>
         bnd (modst (\<lambda>t. t\<lparr>ret_addr := as\<rparr>)) (\<lambda>_.
         bnd (on_mch (r_release R (length (pcount t)))) (\<lambda>_.
         bnd (getst pcount) (\<lambda>p. case p of
           [] \<Rightarrow> raise (Sys STACK_FAULT)
         | n # ps \<Rightarrow>
             bnd (modst (\<lambda>t. t\<lparr>pcount := ps\<rparr>)) (\<lambda>_.
             bnd (on_mch (on_stk (pop_parms n))) (\<lambda>_.
             bnd (getst call_addr) (\<lambda>c. case c of
               [] \<Rightarrow> raise (Sys STACK_FAULT)
             | _ # cs \<Rightarrow>
                 bnd (modst (\<lambda>t. t\<lparr>call_addr := cs\<rparr>)) (\<lambda>_.
                 bnd (case v of None \<Rightarrow> ret () | Some v \<Rightarrow> on_mch (on_stk (push v))) (\<lambda>_.
                 ret newpos))))))))))"

definition target :: "int \<Rightarrow> ('r, nat option) rm" where
  \<comment> \<open>None: back to the interactive level\<close>
  "target a = (if a = - 1 then ret None else if a < 0 then raise Undefined else ret (Some (nat a)))"

definition first_byte :: "item \<Rightarrow> nat" where
  \<comment> \<open>of what lies in the file: the 0 of a long jump, or the low byte of block_sz\<close>
  "first_byte it = (case it of Blk b \<Rightarrow> block_sz b mod 256 | LJmp _ _ \<Rightarrow> 0)"

definition exec_step :: "'r rops \<Rightarrow> (nat \<Rightarrow> item option) \<Rightarrow> nat \<Rightarrow> ('r, nat option) rm" where
  \<comment> \<open>one round of the loop of exec_ at next_pbuf. is_ljump looks at the first byte only, so that a block whose size is
    a multiple of 256 is taken for a long jump. Its second byte is the code then, and no code below 0x80 is known:
    blocks of 32768 bytes and more, which emit does not write, are left out\<close>
  "exec_step R F p = (case F p of
       None \<Rightarrow> raise Undefined
     | Some (Blk b) \<Rightarrow>
         if first_byte (Blk b) = 0 then (if 0x80 \<le> block_sz b div 256 then raise Undefined else ret (Some p))
         else bnd (on_mch (run_block R b)) (\<lambda>_. ret (Some (p + block_sz b)))
     | Some (LJmp jc a) \<Rightarrow>
         let jump = bnd (getst escape) (\<lambda>e. if e then ret None else target a) in
         if jc = JMP_FALSE_OP then
           bnd (on_mch (on_stk istrue)) (\<lambda>t. if t then ret (Some (p + JBLOCKSZ)) else jump)
         else if jc = JUMP_OP then jump
         else if jc = CALL_OP then
           bnd (getst escape) (\<lambda>e.
           if e then ret None
           else
             bnd (push_ret (int (p + JBLOCKSZ))) (\<lambda>_.
             bnd (on_mch (on_stk (pop_int 0 255))) (\<lambda>n.
             bnd (push_call (nat n) a) (\<lambda>_. target a))))
         else if jc = FCNRTN_OP then bnd (go_back R True) target
         else if jc = RETURN_OP then bnd (go_back R False) target
         else ret (Some p))"

primrec exec_code :: "'r rops \<Rightarrow> (nat \<Rightarrow> item option) \<Rightarrow> nat \<Rightarrow> nat \<Rightarrow> ('r, unit) rm" where
  \<comment> \<open>exec_\<close>
  "exec_code R F 0 p = raise NoFuel"
| "exec_code R F (Suc k) p =
     bnd (exec_step R F p) (\<lambda>n. case n of None \<Rightarrow> ret () | Some q \<Rightarrow> exec_code R F k q)"

function proc_bin_srch :: "do_entry list \<Rightarrow> string \<Rightarrow> int \<Rightarrow> int \<Rightarrow> nat option" where
  "proc_bin_srch tab name start stop =
     (if stop < start then None
      else
        let mid = (start + stop) div 2;
            i = namecmp (proc_name (tab ! nat mid)) name (length name) ID_FNAME in
        if i = 0 then Some (nat mid)
        else if i < 0 then proc_bin_srch tab name (mid + 1) stop
        else proc_bin_srch tab name start (mid - 1))"
  by pat_completeness auto
termination
  by (relation "measure (\<lambda>(tab, name, start, stop). nat (stop + 1 - start))") auto

declare proc_bin_srch.simps [simp del]

definition execute_proc :: "'r rops \<Rightarrow> do_entry list \<Rightarrow> (nat \<Rightarrow> item option) \<Rightarrow> nat \<Rightarrow> string \<Rightarrow> nat \<Rightarrow> nat \<Rightarrow> ('r, bool) rm" where
  \<comment> \<open>for the library with the table tab and the code F; False is the return of -1\<close>
  "execute_proc R tab F k name type n =
     (case proc_bin_srch tab name 0 (int (length tab) - 1) of
       None \<Rightarrow> ret False
     | Some i \<Rightarrow>
         if ptype (tab ! i) \<noteq> type then ret False
         else
           bnd (push_ret (- 1)) (\<lambda>_. bnd (push_call n (faddr (tab ! i))) (\<lambda>_.
           bnd (modst (\<lambda>t. t\<lparr>escape := False\<rparr>)) (\<lambda>_.
           bnd (exec_code R F k (nat (faddr (tab ! i)))) (\<lambda>_. ret True)))))"

end
