(* ===== verification/Control_Flow.thy ===== *)
theory Control_Flow
  imports Procedures
begin

text \<open>
  What the control structures of a procedure mean, and that the compiler of Procedures gives them this
  meaning. A structured statement (stmt) has lines, a meaning as a computation on the machine (sem), and a shape as
  code in an object file (coded). The lines compile to code of the shape, with the jumps of EXIT and of the
  branches chained and filled in; code of the shape runs as the statement means. Calls of procedures are
  not part of the statements.
\<close>

section \<open>Structured statements\<close>

datatype stmt =
    SNop
  | SSeq stmt stmt
  | SBlock code_block
  | SIf code_block stmt branches
  | SWhile code_block stmt
  | SCase stmt branches \<comment> \<open>the statement stands between DO CASE and the first CASE\<close>
  | SExit
  | SReturn "code_block option"
and branches = BEnd | BElse stmt | BWhen code_block stmt branches

primrec lines_of :: "stmt \<Rightarrow> line list" and br_lines :: "branches \<Rightarrow> bool \<Rightarrow> line list" where
  \<comment> \<open>the flag tells CASE from IF\<close>
  "lines_of SNop = []"
| "lines_of (SSeq s r) = lines_of s @ lines_of r"
| "lines_of (SBlock b) = [LSimple b]"
| "lines_of (SIf c s br) = LIf c # lines_of s @ br_lines br False"
| "lines_of (SWhile c s) = LWhile c # lines_of s @ [LEnddo]"
| "lines_of (SCase s br) = LDoCase # lines_of s @ br_lines br True"
| "lines_of SExit = [LExit]"
| "lines_of (SReturn b) = [LReturn b]"
| "br_lines BEnd cs = [if cs then LEndcase else LEndif]"
| "br_lines (BElse s) cs = (if cs then LOtherwise else LElse) # lines_of s @ [if cs then LEndcase else LEndif]"
| "br_lines (BWhen c s br) cs = (if cs then LCase c else LElseif c) # lines_of s @ br_lines br cs"

datatype outcome = Fell | Broke | Returned bool

definition test :: "'r rops \<Rightarrow> code_block \<Rightarrow> ('r machine, bool) cm" where
  "test R c = bnd (run_block R c) (\<lambda>_. on_stk istrue)"

primrec while_loop :: "('s, bool) cm \<Rightarrow> ('s, outcome) cm \<Rightarrow> nat \<Rightarrow> ('s, outcome) cm" where
  "while_loop c b 0 = raise NoFuel"
| "while_loop c b (Suc k) = bnd c (\<lambda>t.
     if \<not> t then ret Fell
     else bnd b (\<lambda>r. case r of Fell \<Rightarrow> while_loop c b k | Broke \<Rightarrow> ret Fell | Returned f \<Rightarrow> ret (Returned f)))"

primrec sem :: "'r rops \<Rightarrow> nat \<Rightarrow> stmt \<Rightarrow> ('r machine, outcome) cm"
  and sem_br :: "'r rops \<Rightarrow> nat \<Rightarrow> branches \<Rightarrow> ('r machine, outcome) cm" where
  \<comment> \<open>k bounds the rounds of each loop\<close>
  "sem R k SNop = ret Fell"
| "sem R k (SSeq s r) = bnd (sem R k s) (\<lambda>x. if x = Fell then sem R k r else ret x)"
| "sem R k (SBlock b) = bnd (run_block R b) (\<lambda>_. ret Fell)"
| "sem R k (SIf c s br) = bnd (test R c) (\<lambda>t. if t then sem R k s else sem_br R k br)"
| "sem R k (SWhile c s) = while_loop (test R c) (sem R k s) k"
| "sem R k (SCase s br) = bnd (sem R k s) (\<lambda>x. if x = Fell then sem_br R k br else ret x)"
| "sem R k SExit = ret Broke"
| "sem R k (SReturn b) = (case b of None \<Rightarrow> ret (Returned False) | Some b \<Rightarrow> bnd (run_block R b) (\<lambda>_. ret (Returned True)))"
| "sem_br R k BEnd = ret Fell"
| "sem_br R k (BElse s) = sem R k s"
| "sem_br R k (BWhen c s br) = bnd (test R c) (\<lambda>t. if t then sem R k s else sem_br R k br)"

section \<open>The shape of the code\<close>

inductive leads :: "(nat \<Rightarrow> item option) \<Rightarrow> int \<Rightarrow> nat \<Rightarrow> bool" for F where
  leads_here: "leads F (int e) e"
| leads_hop: "F p = Some (LJmp JUMP_OP a) \<Longrightarrow> leads F a e \<Longrightarrow> leads F (int p) e"

definition runnable :: "bool \<Rightarrow> code_block \<Rightarrow> bool" where
  \<comment> \<open>the block is not taken for a long jump\<close>
  "runnable dbg b \<longleftrightarrow> first_byte (Blk (dbg_block dbg b)) \<noteq> 0"

lemma runnable_pos: "runnable dbg b \<Longrightarrow> 0 < block_sz (dbg_block dbg b)"
  by (rule gr0I) (simp add: runnable_def first_byte_def)

definition cond_at :: "bool \<Rightarrow> (nat \<Rightarrow> item option) \<Rightarrow> code_block \<Rightarrow> nat \<Rightarrow> int \<Rightarrow> nat \<Rightarrow> bool" where
  \<comment> \<open>a condition from p to q, with the target of its jump\<close>
  "cond_at dbg F c p a q \<longleftrightarrow> runnable dbg c \<and>
     (let c = dbg_block dbg c; r = p + block_sz c in
      F p = Some (Blk c) \<and> F r = Some (LJmp JMP_FALSE_OP a) \<and> q = r + JBLOCKSZ)"

fun coded :: "bool \<Rightarrow> (nat \<Rightarrow> item option) \<Rightarrow> nat \<Rightarrow> stmt \<Rightarrow> nat \<Rightarrow> nat \<Rightarrow> bool"
  and coded_br :: "bool \<Rightarrow> (nat \<Rightarrow> item option) \<Rightarrow> nat \<Rightarrow> branches \<Rightarrow> int \<Rightarrow> nat \<Rightarrow> nat \<Rightarrow> bool"
  and coded_first :: "bool \<Rightarrow> (nat \<Rightarrow> item option) \<Rightarrow> nat \<Rightarrow> branches \<Rightarrow> nat \<Rightarrow> nat \<Rightarrow> bool" where
  \<comment> \<open>code of a statement from p to q; e is where EXIT leads. Branches stand behind a branch whose condition
    jumps to a; the first branches of a CASE stand behind none\<close>
  "coded dbg F e SNop p q \<longleftrightarrow> q = p"
| "coded dbg F e (SSeq s r) p q \<longleftrightarrow> (\<exists>m. coded dbg F e s p m \<and> coded dbg F e r m q)"
| "coded dbg F e (SBlock b) p q \<longleftrightarrow> runnable dbg b \<and> F p = Some (Blk (dbg_block dbg b)) \<and> q = p + block_sz (dbg_block dbg b)"
| "coded dbg F e (SIf c s br) p q \<longleftrightarrow>
     (\<exists>a l m. cond_at dbg F c p a l \<and> coded dbg F e s l m \<and> coded_br dbg F e br a m q)"
| "coded dbg F e (SWhile c s) p q \<longleftrightarrow>
     (\<exists>a l m. cond_at dbg F c p a l \<and> coded dbg F q s l m \<and> F m = Some (LJmp JUMP_OP (int p)) \<and> q = m + JBLOCKSZ
        \<and> leads F a q)"
| "coded dbg F e (SCase s br) p q \<longleftrightarrow> (\<exists>m. coded dbg F e s p m \<and> coded_first dbg F e br m q)"
| "coded dbg F e SExit p q \<longleftrightarrow> (\<exists>a. F p = Some (LJmp JUMP_OP a) \<and> leads F a e \<and> q = p + JBLOCKSZ)"
| "coded dbg F e (SReturn None) p q \<longleftrightarrow> F p = Some (LJmp RETURN_OP 0) \<and> q = p + 2"
| "coded dbg F e (SReturn (Some b)) p q \<longleftrightarrow> runnable dbg b \<and>
     (let b = dbg_block dbg b; r = p + block_sz b in
      F p = Some (Blk b) \<and> F r = Some (LJmp FCNRTN_OP 0) \<and> q = r + 2)"
| "coded_br dbg F e BEnd a p q \<longleftrightarrow> q = p \<and> a = int p"
| "coded_br dbg F e (BElse s) a p q \<longleftrightarrow>
     (\<exists>j. F p = Some (LJmp JUMP_OP j) \<and> leads F j q \<and> a = int (p + JBLOCKSZ) \<and> coded dbg F e s (p + JBLOCKSZ) q)"
| "coded_br dbg F e (BWhen c s br) a p q \<longleftrightarrow>
     (\<exists>j a' l m. F p = Some (LJmp JUMP_OP j) \<and> leads F j q \<and> a = int (p + JBLOCKSZ)
        \<and> cond_at dbg F c (p + JBLOCKSZ) a' l \<and> coded dbg F e s l m \<and> coded_br dbg F e br a' m q)"
| "coded_first dbg F e BEnd p q \<longleftrightarrow> q = p"
| "coded_first dbg F e (BElse s) p q \<longleftrightarrow> coded dbg F e s p q"
| "coded_first dbg F e (BWhen c s br) p q \<longleftrightarrow>
     (\<exists>a l m. cond_at dbg F c p a l \<and> coded dbg F e s l m \<and> coded_br dbg F e br a m q)"

section \<open>Code of the shape runs as the statement means\<close>

definition runs :: "'r rops \<Rightarrow> (nat \<Rightarrow> item option) \<Rightarrow> nat \<Rightarrow> 'r rt \<Rightarrow> nat \<Rightarrow> 'r rt \<Rightarrow> bool" where
  "runs R F p t q u \<longleftrightarrow> (\<exists>n. \<forall>k. exec_code R F (n + k) p t = exec_code R F k q u)"

lemma runs_refl [simp]: "runs R F p t p t"
  unfolding runs_def by (rule exI [of _ 0]) simp

lemma runs_trans: "runs R F p t q u \<Longrightarrow> runs R F q u r v \<Longrightarrow> runs R F p t r v"
  unfolding runs_def by (metis add.assoc)

lemma runs_step:
  assumes "exec_step R F p t = (Inr (Some q), u)"
  shows "runs R F p t q u"
  unfolding runs_def by (rule exI [of _ 1]) (simp add: assms cm_simps)

definition stops :: "'r rops \<Rightarrow> (nat \<Rightarrow> item option) \<Rightarrow> nat \<Rightarrow> 'r rt \<Rightarrow> err \<Rightarrow> 'r rt \<Rightarrow> bool" where
  "stops R F p t x u \<longleftrightarrow> (\<exists>n. \<forall>k. exec_code R F (n + k) p t = (Inl x, u))"

lemma stops_step:
  assumes "exec_step R F p t = (Inl x, u)"
  shows "stops R F p t x u"
  unfolding stops_def by (rule exI [of _ 1]) (simp add: assms cm_simps)

lemma runs_stops: "runs R F p t q u \<Longrightarrow> stops R F q u x v \<Longrightarrow> stops R F p t x v"
  unfolding runs_def stops_def by (metis add.assoc)

lemma runs_leads:
  assumes "leads F a q" and "\<not> escape t"
  shows "\<exists>p. a = int p \<and> runs R F p t q t"
  using assms
proof (induction rule: leads.induct)
  case (leads_here e)
  show ?case by auto
next
  case (leads_hop p a e)
  then obtain r where r: "a = int r" "runs R F r t e t" by blast
  have "exec_step R F p t = (Inr (Some r), t)"
    using leads_hop r(1) by (simp add: exec_step_def target_def cm_simps)
  then show ?case using runs_trans [OF runs_step r(2)] by blast
qed

definition ends_as :: "'r rops \<Rightarrow> (nat \<Rightarrow> item option) \<Rightarrow> nat \<Rightarrow> nat \<Rightarrow> nat \<Rightarrow> 'r rt \<Rightarrow> (err + outcome) \<times> 'r machine \<Rightarrow> bool" where
  \<comment> \<open>from p on, the machine does what the outcome and the new state say\<close>
  "ends_as R F e p q t r \<longleftrightarrow> (case r of (v, w) \<Rightarrow> (case v of
       Inl x \<Rightarrow> x \<noteq> NoFuel \<longrightarrow> stops R F p t x (t\<lparr>mch := w\<rparr>)
     | Inr Fell \<Rightarrow> runs R F p t q (t\<lparr>mch := w\<rparr>)
     | Inr Broke \<Rightarrow> runs R F p t e (t\<lparr>mch := w\<rparr>)
     | Inr (Returned f) \<Rightarrow>
         (\<exists>r. F r = Some (LJmp (if f then FCNRTN_OP else RETURN_OP) 0) \<and> runs R F p t r (t\<lparr>mch := w\<rparr>))))"

lemma ends_simps [simp]:
  "ends_as R F e p q t (Inl x, w) \<longleftrightarrow> (x \<noteq> NoFuel \<longrightarrow> stops R F p t x (t\<lparr>mch := w\<rparr>))"
  "ends_as R F e p q t (Inr Fell, w) \<longleftrightarrow> runs R F p t q (t\<lparr>mch := w\<rparr>)"
  "ends_as R F e p q t (Inr Broke, w) \<longleftrightarrow> runs R F p t e (t\<lparr>mch := w\<rparr>)"
  "ends_as R F e p q t (Inr (Returned f), w) \<longleftrightarrow>
     (\<exists>r. F r = Some (LJmp (if f then FCNRTN_OP else RETURN_OP) 0) \<and> runs R F p t r (t\<lparr>mch := w\<rparr>))"
  by (simp_all add: ends_as_def)

lemma ends_cases:
  obtains (fails) x w where "r = (Inl x, w)" | (falls) w where "r = (Inr Fell, w)"
    | (breaks) w where "r = (Inr Broke, w)" | (returns) f w where "r = (Inr (Returned f), w)"
  by (metis old.prod.exhaust outcome.exhaust sumE)

lemma ends_after:
  assumes "runs R F p t m (t\<lparr>mch := w\<rparr>)" and "ends_as R F e m q (t\<lparr>mch := w\<rparr>) r"
  shows "ends_as R F e p q t r"
proof (cases r rule: ends_cases)
  case (fails x u)
  then show ?thesis using assms(2) runs_stops [OF assms(1), of x "t\<lparr>mch := u\<rparr>"] by simp
next
  case (falls u)
  then show ?thesis using assms(2) runs_trans [OF assms(1), of q "t\<lparr>mch := u\<rparr>"] by simp
next
  case (breaks u)
  then show ?thesis using assms(2) runs_trans [OF assms(1), of e "t\<lparr>mch := u\<rparr>"] by simp
next
  case (returns f u)
  then show ?thesis using assms(2) runs_trans [OF assms(1), of _ "t\<lparr>mch := u\<rparr>"] by auto
qed

definition simulated :: "'r rops \<Rightarrow> (nat \<Rightarrow> item option) \<Rightarrow> nat \<Rightarrow> nat \<Rightarrow> nat \<Rightarrow> ('r machine, outcome) cm \<Rightarrow> bool" where
  "simulated R F e p q m \<longleftrightarrow> (\<forall>t. \<not> escape t \<longrightarrow> ends_as R F e p q t (m (mch t)))"

lemma simulatedD: "simulated R F e p q m \<Longrightarrow> \<not> escape t \<Longrightarrow> ends_as R F e p q t (m (mch t))"
  by (simp add: simulated_def)

lemma run_dbg [simp]: "run_block R (dbg_block dbg b) = run_block R b"
  by (simp add: run_block_def dbg_block_def execute_def)

lemma sim_goto:
  assumes x: "simulated R F e p m x" and l: "leads F (int m) q"
  shows "simulated R F e p q x"
  unfolding simulated_def
proof (intro allI impI)
  fix t :: "'a rt" assume t: "\<not> escape t"
  have g: "runs R F m (t\<lparr>mch := w\<rparr>) q (t\<lparr>mch := w\<rparr>)" for w
    using runs_leads [OF l, of "t\<lparr>mch := w\<rparr>" R] t by auto
  show "ends_as R F e p q t (x (mch t))"
    using simulatedD [OF x t] runs_trans [OF _ g] by (cases "x (mch t)" rule: ends_cases) auto
qed

lemma sim_seq:
  assumes a: "simulated R F e p m x" and b: "simulated R F e m q y"
  shows "simulated R F e p q (bnd x (\<lambda>v. if v = Fell then y else ret v))"
  unfolding simulated_def
proof (intro allI impI)
  fix t :: "'a rt" assume t: "\<not> escape t"
  note d = simulatedD [OF a t]
  show "ends_as R F e p q t (bnd x (\<lambda>v. if v = Fell then y else ret v) (mch t))"
  proof (cases "x (mch t)" rule: ends_cases)
    case (falls w)
    have r: "runs R F p t m (t\<lparr>mch := w\<rparr>)" using d falls by simp
    have "ends_as R F e m q (t\<lparr>mch := w\<rparr>) (y w)" using simulatedD [OF b, of "t\<lparr>mch := w\<rparr>"] t by simp
    then show ?thesis using ends_after [OF r] falls by (simp add: cm_simps)
  qed (use d in \<open>simp_all add: cm_simps\<close>)
qed

lemma sim_ret: "simulated R F e p p (ret Fell)"
  by (simp add: simulated_def cm_simps)

lemma exec_block:
  assumes "F p = Some (Blk b)" and "first_byte (Blk b) \<noteq> 0"
  shows "exec_step R F p t = (case run_block R b (mch t) of
    (Inl y, w) \<Rightarrow> (Inl y, t\<lparr>mch := w\<rparr>) | (Inr _, w) \<Rightarrow> (Inr (Some (p + block_sz b)), t\<lparr>mch := w\<rparr>))"
  using assms by (simp add: exec_step_def on_mch_def cm_simps split: prod.split sum.split)

lemma sim_block:
  assumes F: "F p = Some (Blk b)" "first_byte (Blk b) \<noteq> 0" and m: "simulated R F e (p + block_sz b) q m"
  shows "simulated R F e p q (bnd (run_block R b) (\<lambda>_. m))"
  unfolding simulated_def
proof (intro allI impI)
  fix t :: "'a rt" assume t: "\<not> escape t"
  note step = exec_block [of F p b R t, OF F]
  obtain v w where v: "run_block R b (mch t) = (v, w)" by (rule prod.exhaust)
  show "ends_as R F e p q t (bnd (run_block R b) (\<lambda>_. m) (mch t))"
  proof (cases v)
    case (Inl y)
    then show ?thesis using v step stops_step [of R F p t y "t\<lparr>mch := w\<rparr>"] by (simp add: cm_simps)
  next
    case (Inr u)
    have r: "runs R F p t (p + block_sz b) (t\<lparr>mch := w\<rparr>)" using v step Inr by (intro runs_step) simp
    show ?thesis using v Inr ends_after [OF r] simulatedD [OF m, of "t\<lparr>mch := w\<rparr>"] t by (simp add: cm_simps)
  qed
qed

lemma sim_istrue:
  assumes F: "F s = Some (LJmp JMP_FALSE_OP (int r))" and tr: "simulated R F e (s + JBLOCKSZ) q (m True)" and fl: "simulated R F e r q (m False)"
  shows "simulated R F e s q (bnd (on_stk istrue) m)"
  unfolding simulated_def
proof (intro allI impI)
  fix t :: "'a rt" assume t: "\<not> escape t"
  obtain v w where v: "on_stk istrue (mch t) = (v, w)" by (rule prod.exhaust)
  have step: "exec_step R F s t = (case v of Inl y \<Rightarrow> (Inl y, t\<lparr>mch := w\<rparr>)
      | Inr b \<Rightarrow> (Inr (Some (if b then s + JBLOCKSZ else r)), t\<lparr>mch := w\<rparr>))"
    using F v t by (simp add: exec_step_def on_mch_def target_def cm_simps Let_def split: sum.split)
  show "ends_as R F e s q t (bnd (on_stk istrue) m (mch t))"
  proof (cases v)
    case (Inl y)
    then show ?thesis using v step stops_step [of R F s t y "t\<lparr>mch := w\<rparr>"] by (simp add: cm_simps)
  next
    case (Inr b)
    have r: "runs R F s t (if b then s + JBLOCKSZ else r) (t\<lparr>mch := w\<rparr>)" using step Inr by (intro runs_step) simp
    have "ends_as R F e (if b then s + JBLOCKSZ else r) q (t\<lparr>mch := w\<rparr>) (m b w)"
      using simulatedD [OF tr, of "t\<lparr>mch := w\<rparr>"] simulatedD [OF fl, of "t\<lparr>mch := w\<rparr>"] t by simp
    then show ?thesis using v Inr ends_after [OF r] by (simp add: cm_simps)
  qed
qed

lemma sim_test:
  assumes c: "cond_at dbg F c p (int r) l" and tr: "simulated R F e l q (m True)" and fl: "simulated R F e r q (m False)"
  shows "simulated R F e p q (bnd (test R c) m)"
proof -
  define b where "b = dbg_block dbg c"
  have F: "F p = Some (Blk b)" "first_byte (Blk b) \<noteq> 0" "F (p + block_sz b) = Some (LJmp JMP_FALSE_OP (int r))" "l = p + block_sz b + JBLOCKSZ"
    using c by (simp_all add: cond_at_def b_def Let_def runnable_def)
  have "simulated R F e (p + block_sz b) q (bnd (on_stk istrue) m)"
    using F tr fl by (intro sim_istrue) simp_all
  from sim_block [OF F(1,2) this] show ?thesis by (simp add: test_def bnd_assoc b_def)
qed

lemma sim_jump: "F p = Some (LJmp JUMP_OP (int r)) \<Longrightarrow> simulated R F e r q m \<Longrightarrow> simulated R F e p q m"
  unfolding simulated_def
proof (intro allI impI)
  fix t :: "'a rt" assume F: "F p = Some (LJmp JUMP_OP (int r))"
    and m: "\<forall>t. \<not> escape t \<longrightarrow> ends_as R F e r q t (m (mch t))" and t: "\<not> escape t"
  have "exec_step R F p t = (Inr (Some r), t\<lparr>mch := mch t\<rparr>)" using F t by (simp add: exec_step_def target_def cm_simps)
  from ends_after [OF runs_step [OF this]] show "ends_as R F e p q t (m (mch t))" using m t by simp
qed

lemma sim_while:
  assumes c: "cond_at dbg F c p (int a) l" and b: "simulated R F q l m body" and bk: "F m = Some (LJmp JUMP_OP (int p))"
    and out: "leads F (int a) q"
  shows "simulated R F e p q (while_loop (test R c) body k)"
proof (induction k)
  case 0
  show ?case by (simp add: simulated_def cm_simps)
next
  case (Suc k)
  let ?next = "\<lambda>r. case r of Fell \<Rightarrow> while_loop (test R c) body k | Broke \<Rightarrow> ret Fell | Returned f \<Rightarrow> ret (Returned f)"
  have "simulated R F e l q (bnd body ?next)"
    unfolding simulated_def
  proof (intro allI impI)
    fix t :: "'a rt" assume t: "\<not> escape t"
    note d = simulatedD [OF b t]
    show "ends_as R F e l q t (bnd body ?next (mch t))"
    proof (cases "body (mch t)" rule: ends_cases)
      case (falls w)
      have r: "runs R F l t m (t\<lparr>mch := w\<rparr>)" using d falls by simp
      have "simulated R F e m q (while_loop (test R c) body k)" using bk Suc.IH by (rule sim_jump)
      then have "ends_as R F e m q (t\<lparr>mch := w\<rparr>) (while_loop (test R c) body k w)"
        using t by (auto dest: simulatedD [of _ _ _ _ _ _ "t\<lparr>mch := w\<rparr>"])
      then show ?thesis using ends_after [OF r] falls by (simp add: cm_simps)
    qed (use d in \<open>simp_all add: cm_simps\<close>)
  qed
  moreover have "simulated R F e a q (ret Fell)" using sim_goto [OF sim_ret out] .
  ultimately show ?case using sim_test [OF c, of R e q "\<lambda>t. if \<not> t then ret Fell else bnd body ?next"] by simp
qed

lemma branches_lead: "coded_br dbg F e br a p q \<Longrightarrow> leads F (int p) q"
  by (cases br) (auto intro: leads_here leads_hop)

lemma leads_nat: "leads F a q \<Longrightarrow> \<exists>r. a = int r"
  by (cases rule: leads.cases) auto

lemma coded_simulated:
  shows "coded dbg F e s p q \<Longrightarrow> simulated R F e p q (sem R k s)"
    and "coded_br dbg F e br a p q \<Longrightarrow> \<exists>r. a = int r \<and> simulated R F e r q (sem_br R k br)"
    and "coded_first dbg F e br p q \<Longrightarrow> simulated R F e p q (sem_br R k br)"
proof (induction dbg F e s p q and dbg F e br a p q and dbg F e br p q rule: coded_coded_br_coded_first.induct)
  case (1 dbg F e p q)
  then show ?case by (simp add: sim_ret)
next
  case (2 dbg F e s r p q)
  then show ?case by (auto intro: sim_seq)
next
  case (3 dbg F e b p q)
  then show ?case using sim_block [of F p "dbg_block dbg b" R e q "ret Fell"] by (simp add: sim_ret runnable_def)
next
  case (4 dbg F e c s br p q)
  then obtain a l m where h: "cond_at dbg F c p a l" "coded dbg F e s l m" "coded_br dbg F e br a m q" by auto
  obtain r where r: "a = int r" "simulated R F e r q (sem_br R k br)" using "4.IH"(2) [OF h(3)] by blast
  have "simulated R F e l q (sem R k s)" using sim_goto [OF "4.IH"(1) [OF h(2)] branches_lead [OF h(3)]] .
  then show ?case using sim_test [OF h(1) [unfolded r(1)], of R e q "\<lambda>t. if t then sem R k s else sem_br R k br"] r(2) by simp
next
  case (5 dbg F e c s p q)
  then obtain a l m where h: "cond_at dbg F c p a l" "coded dbg F q s l m" "F m = Some (LJmp JUMP_OP (int p))" "leads F a q" by auto
  obtain r where r: "a = int r" using leads_nat [OF h(4)] by blast
  show ?case using sim_while [OF h(1) [unfolded r] "5.IH" [OF h(2)] h(3) h(4) [unfolded r]] by simp
next
  case (6 dbg F e s br p q)
  then show ?case by (auto intro: sim_seq)
next
  case (7 dbg F e p q)
  then obtain a where h: "F p = Some (LJmp JUMP_OP a)" "leads F a e" by auto
  then have "leads F (int p) e" by (rule leads_hop)
  then show ?case using runs_leads [of F "int p" e _ R] by (auto simp: simulated_def cm_simps)
next
  case (8 dbg F e p q)
  then show ?case by (auto simp: simulated_def cm_simps)
next
  case (9 dbg F e b p q)
  let ?b = "dbg_block dbg b"
  have F: "F p = Some (Blk ?b)" "first_byte (Blk ?b) \<noteq> 0" "F (p + block_sz ?b) = Some (LJmp FCNRTN_OP 0)"
    using 9 by (simp_all add: Let_def runnable_def)
  have "simulated R F e (p + block_sz ?b) q (ret (Returned True))"
    using F(3) by (auto simp: simulated_def cm_simps intro!: exI [of _ "p + block_sz ?b"])
  from sim_block [OF F(1,2) this] show ?case by simp
next
  case (10 dbg F e a p q)
  then show ?case by (auto simp: sim_ret)
next
  case (11 dbg F e s a p q)
  then show ?case by (auto intro!: exI [of _ "p + JBLOCKSZ"])
next
  case (12 dbg F e c s br a p q)
  then obtain j b l m where h: "a = int (p + JBLOCKSZ)" "cond_at dbg F c (p + JBLOCKSZ) b l" "coded dbg F e s l m" "coded_br dbg F e br b m q"
    by auto
  obtain r where r: "b = int r" "simulated R F e r q (sem_br R k br)" using "12.IH"(2) [OF h(4)] by blast
  have "simulated R F e l q (sem R k s)" using sim_goto [OF "12.IH"(1) [OF h(3)] branches_lead [OF h(4)]] .
  then show ?case
    using sim_test [OF h(2) [unfolded r(1)], of R e q "\<lambda>t. if t then sem R k s else sem_br R k br"] r(2) h(1)
    by (auto intro!: exI [of _ "p + JBLOCKSZ"])
next
  case (13 dbg F e p q)
  then show ?case by (simp add: sim_ret)
next
  case (14 dbg F e s p q)
  then show ?case by simp
next
  case (15 dbg F e c s br p q)
  then obtain a l m where h: "cond_at dbg F c p a l" "coded dbg F e s l m" "coded_br dbg F e br a m q" by auto
  obtain r where r: "a = int r" "simulated R F e r q (sem_br R k br)" using "15.IH"(2) [OF h(3)] by blast
  have "simulated R F e l q (sem R k s)" using sim_goto [OF "15.IH"(1) [OF h(2)] branches_lead [OF h(3)]] .
  then show ?case using sim_test [OF h(1) [unfolded r(1)], of R e q "\<lambda>t. if t then sem R k s else sem_br R k br"] r(2) by simp
qed

end
