(* ===== verification/Control_Compile.thy ===== *)
theory Control_Compile
  imports Control_Flow
begin

text \<open>
  The compiler of procedures gives structured statements code of their shape. emits relates the compiler's
  states before and after a step: what the step adds, which jumps of the file it fills in, and which of its own
  jumps it leaves open; the jump that an EXIT continues is passed on from state to state. Steps compose, and
  the induction over statements puts the lines together.
\<close>

section \<open>Steps of the compiler\<close>

definition file_ok :: "cgen \<Rightarrow> bool" where
  "file_ok g \<longleftrightarrow> (\<forall>x. fend g \<le> x \<longrightarrow> outf g x = None) \<and> 0 < fend g"

definition slot_leads :: "(nat \<Rightarrow> item option) \<Rightarrow> nat \<Rightarrow> nat \<Rightarrow> bool" where
  "slot_leads F w e \<longleftrightarrow> (\<exists>jc a. F w = Some (LJmp jc a) \<and> leads F a e)"

definition same_kind :: "item option \<Rightarrow> item option \<Rightarrow> bool" where
  "same_kind x y \<longleftrightarrow> (\<exists>jc a b. x = Some (LJmp jc a) \<and> y = Some (LJmp jc b))"

definition fits :: "bool \<Rightarrow> (nat \<Rightarrow> item option) \<Rightarrow> nat set \<Rightarrow> nat set \<Rightarrow> cgen \<Rightarrow> nat \<Rightarrow> cgen \<Rightarrow> nat \<Rightarrow> bool" where
  \<comment> \<open>F has what the step from g to g' wrote, except for the jumps that are open\<close>
  "fits lp F H U g w g' w' \<longleftrightarrow>
     (\<forall>x. (fend g \<le> x \<and> x < fend g' \<or> lp \<and> x = w \<or> x \<in> H) \<longrightarrow> x \<noteq> w' \<longrightarrow> x \<notin> U \<longrightarrow> F x = outf g' x)
     \<and> (w' \<noteq> w \<longrightarrow> (\<exists>a. F w' = Some (LJmp JUMP_OP a)))"

definition emits :: "bool \<Rightarrow> nat set \<Rightarrow> nat set \<Rightarrow> cgen \<Rightarrow> nat \<Rightarrow> cgen \<Rightarrow> nat \<Rightarrow> ((nat \<Rightarrow> item option) \<Rightarrow> nat \<Rightarrow> bool) \<Rightarrow> bool" where
  \<comment> \<open>inside a loop (lp), w and w' are the jumps that the next EXIT continues; H are the old jumps that are filled in, U the
    new ones that are open, and C holds of every finished file\<close>
  "emits lp H U g w g' w' C \<longleftrightarrow>
     fend g \<le> fend g' \<and> file_ok g' \<and> do_list g' = do_list g
     \<and> w < fend g \<and> w \<notin> H \<and> w' \<notin> U \<and> U \<subseteq> {fend g ..< fend g'} \<and> H \<subseteq> {..< fend g}
     \<and> (\<forall>x<fend g. x \<noteq> w \<longrightarrow> x \<notin> H \<longrightarrow> outf g' x = outf g x)
     \<and> (w' = w \<and> outf g' w = outf g w
        \<or> lp \<and> fend g \<le> w' \<and> w' < fend g' \<and> (\<exists>a. outf g' w' = Some (LJmp JUMP_OP a)) \<and> same_kind (outf g w) (outf g' w))
     \<and> (\<forall>F e. fits lp F H U g w g' w' \<longrightarrow> (lp \<longrightarrow> slot_leads F w' e) \<longrightarrow> C F e \<and> (lp \<longrightarrow> slot_leads F w e))"

lemma emits_fend: "emits lp H U g w g' w' C \<Longrightarrow> fend g \<le> fend g' \<and> file_ok g' \<and> w < fend g \<and> w' < fend g'"
  by (auto simp: emits_def)

lemma emits_old: "emits lp H U g w g' w' C \<Longrightarrow> x < fend g \<Longrightarrow> x \<noteq> w \<Longrightarrow> x \<notin> H \<Longrightarrow> outf g' x = outf g x \<and> x \<noteq> w'"
  by (auto simp: emits_def)

lemma emits_mono:
  assumes "emits lp H U g w g' w' C" and "\<And>F e. fits lp F H U g w g' w' \<Longrightarrow> C F e \<Longrightarrow> D F e"
  shows "emits lp H U g w g' w' D"
  using assms unfolding emits_def by metis

lemma emits_trans:
  assumes a: "emits lp H U g w g1 w1 C" and b: "emits lp K V g1 w1 g2 w2 D"
    and K: "K \<inter> {fend g ..< fend g1} \<subseteq> U" "H \<inter> K = {}" "w \<notin> K"
  shows "emits lp (H \<union> (K \<inter> {..< fend g})) (U - K \<union> V) g w g2 w2 (\<lambda>F e. C F e \<and> D F e)"
proof -
  let ?H = "H \<union> (K \<inter> {..< fend g})" and ?U = "U - K \<union> V"
  have a1: "fend g \<le> fend g1" "do_list g1 = do_list g" "w < fend g" "w \<notin> H" "w1 \<notin> U" "U \<subseteq> {fend g ..< fend g1}" "H \<subseteq> {..< fend g}"
    and a2: "\<And>x. x < fend g \<Longrightarrow> x \<noteq> w \<Longrightarrow> x \<notin> H \<Longrightarrow> outf g1 x = outf g x"
    and a3: "w1 = w \<and> outf g1 w = outf g w \<or> lp \<and> fend g \<le> w1 \<and> w1 < fend g1 \<and> (\<exists>a. outf g1 w1 = Some (LJmp JUMP_OP a))
        \<and> same_kind (outf g w) (outf g1 w)"
    and a4: "\<And>F e. fits lp F H U g w g1 w1 \<Longrightarrow> (lp \<longrightarrow> slot_leads F w1 e) \<Longrightarrow> C F e \<and> (lp \<longrightarrow> slot_leads F w e)"
    using a unfolding emits_def by blast+
  have b1: "fend g1 \<le> fend g2" "file_ok g2" "do_list g2 = do_list g1" "w1 < fend g1" "w1 \<notin> K" "w2 \<notin> V" "V \<subseteq> {fend g1 ..< fend g2}"
      "K \<subseteq> {..< fend g1}"
    and b2: "\<And>x. x < fend g1 \<Longrightarrow> x \<noteq> w1 \<Longrightarrow> x \<notin> K \<Longrightarrow> outf g2 x = outf g1 x"
    and b3: "w2 = w1 \<and> outf g2 w1 = outf g1 w1 \<or> lp \<and> fend g1 \<le> w2 \<and> w2 < fend g2 \<and> (\<exists>a. outf g2 w2 = Some (LJmp JUMP_OP a))
        \<and> same_kind (outf g1 w1) (outf g2 w1)"
    and b4: "\<And>F e. fits lp F K V g1 w1 g2 w2 \<Longrightarrow> (lp \<longrightarrow> slot_leads F w2 e) \<Longrightarrow> D F e \<and> (lp \<longrightarrow> slot_leads F w1 e)"
    using b unfolding emits_def by blast+
  have w2U: "w2 \<notin> ?U" using a1(5,6) b1(6) b3 by auto
  have old: "outf g2 x = outf g x" if "x < fend g" "x \<noteq> w" "x \<notin> ?H" for x
  proof -
    have "x \<noteq> w1" using a3 that by auto
    then show ?thesis using a2 [of x] b2 [of x] that a1(1) by auto
  qed
  have pend: "w2 = w \<and> outf g2 w = outf g w \<or> lp \<and> fend g \<le> w2 \<and> w2 < fend g2 \<and> (\<exists>a. outf g2 w2 = Some (LJmp JUMP_OP a))
        \<and> same_kind (outf g w) (outf g2 w)"
  proof (cases "w1 = w")
    case True
    then have "outf g1 w = outf g w" using a3 a1(3) by auto
    then show ?thesis using True b3 a1(1) by auto
  next
    case False
    then have "outf g2 w = outf g1 w" using b2 [of w] a1(1,3) K(3) by simp
    then show ?thesis using a3 b3 False a1(1) b1(1) by auto
  qed
  have "(C F e \<and> D F e) \<and> (lp \<longrightarrow> slot_leads F w e)" if f: "fits lp F ?H ?U g w g2 w2" and l: "lp \<longrightarrow> slot_leads F w2 e" for F e
  proof -
    have F: "F x = outf g2 x" if "fend g \<le> x \<and> x < fend g2 \<or> lp \<and> x = w \<or> x \<in> ?H" "x \<noteq> w2" "x \<notin> ?U" for x
      using f that unfolding fits_def by blast
    have J: "w2 \<noteq> w \<Longrightarrow> \<exists>a. F w2 = Some (LJmp JUMP_OP a)" using f by (simp add: fits_def)
    have w1: "w1 \<noteq> w \<Longrightarrow> \<exists>a. F w1 = Some (LJmp JUMP_OP a)"
    proof -
      assume n: "w1 \<noteq> w"
      show "\<exists>a. F w1 = Some (LJmp JUMP_OP a)"
      proof (cases "w2 = w1")
        case True
        then show ?thesis using J n by simp
      next
        case False
        have "\<exists>a. outf g1 w1 = Some (LJmp JUMP_OP a)" using a3 n by auto
        moreover have "same_kind (outf g1 w1) (outf g2 w1)" using b3 False by auto
        ultimately have "\<exists>a. outf g2 w1 = Some (LJmp JUMP_OP a)" by (auto simp: same_kind_def)
        moreover have "w1 \<notin> ?U" using a1(5) b1(4,7) by auto
        then have "F w1 = outf g2 w1" using F [of w1] False a3 n b1(1) by auto
        ultimately show ?thesis by simp
      qed
    qed
    have "fits lp F K V g1 w1 g2 w2"
      unfolding fits_def
    proof (intro conjI allI impI)
      fix x assume x: "fend g1 \<le> x \<and> x < fend g2 \<or> lp \<and> x = w1 \<or> x \<in> K" "x \<noteq> w2" "x \<notin> V"
      have u: "x \<notin> ?U" using x a1(5,6) by auto
      have "fend g \<le> x \<and> x < fend g2 \<or> lp \<and> x = w \<or> x \<in> ?H" using x(1) a3 a1(1) b1(1,8) K(1) by fastforce
      then show "F x = outf g2 x" using F x(2) u by blast
    qed (use J b3 a1(1,3) in auto)
    note d = b4 [OF this l]
    have "fits lp F H U g w g1 w1"
      unfolding fits_def
    proof (intro conjI allI impI)
      fix x assume x: "fend g \<le> x \<and> x < fend g1 \<or> lp \<and> x = w \<or> x \<in> H" "x \<noteq> w1" "x \<notin> U"
      have lt: "x < fend g1" using x(1) a1(1,3,7) by auto
      then have n2: "x \<noteq> w2" using b3 x(2) by auto
      have k: "x \<notin> K" using x(1,3) K by auto
      have u: "x \<notin> ?U" using x(3) lt b1(7) by auto
      have "F x = outf g2 x" using F [of x] x(1) n2 u b1(1) by auto
      also have "outf g2 x = outf g1 x" using b2 lt x(2) k by blast
      finally show "F x = outf g1 x" .
    qed (use w1 in simp)
    from a4 [OF this] d show ?thesis by blast
  qed
  then show ?thesis
    unfolding emits_def using a1 b1 w2U old pend K(3) by auto
qed

lemma emits_seq:
  assumes "emits lp H U g w g1 w1 C" and "emits lp K V g1 w1 g2 w2 D"
    and "K \<inter> {fend g ..< fend g1} \<subseteq> U" "H \<inter> K = {}" "w \<notin> K"
    and "L = H \<union> (K \<inter> {..< fend g})" "W = U - K \<union> V" and "\<And>F e. fits lp F L W g w g2 w2 \<Longrightarrow> C F e \<Longrightarrow> D F e \<Longrightarrow> E F e"
  shows "emits lp L W g w g2 w2 E"
  using emits_mono [OF emits_trans [OF assms(1-5)], folded assms(6,7)] assms(8) by blast

section \<open>Primitive steps\<close>

lemma bnd_InrE: "bnd m f s = (Inr y, t) \<Longrightarrow> (\<And>x s'. m s = (Inr x, s') \<Longrightarrow> f x s' = (Inr y, t) \<Longrightarrow> P) \<Longrightarrow> P"
  using bnd_InrD by metis

lemma emits_keep:
  assumes "file_ok g" and "w < fend g" and "\<And>F e. C F e"
  shows "emits lp {} {} g w g w C"
  using assms by (auto simp: emits_def)

abbreviation (input) putting :: "item \<Rightarrow> cgen \<Rightarrow> cgen" where
  "putting it g \<equiv> g\<lparr>outf := (outf g)(fend g \<mapsto> it), fend := fend g + item_sz it\<rparr>"

lemma put_app: "put_item it g = (Inr (), putting it g)"
  by (simp add: put_item_def cm_simps)

lemma emits_put:
  assumes "file_ok g" and "w < fend g" and "0 < item_sz it"
  shows "emits lp {} {} g w (putting it g) w (\<lambda>F e. F (fend g) = Some it)"
  using assms by (auto simp: emits_def file_ok_def fits_def)

lemma emits_open:
  assumes "file_ok g" and "w < fend g" and "0 < item_sz it"
  shows "emits lp {} {fend g} g w (putting it g) w (\<lambda>F e. True)"
  using assms by (auto simp: emits_def file_ok_def fits_def)

lemma emits_set:
  assumes "file_ok g" and "w < fend g" and h: "outf g h = Some (LJmp jc b)" and "h \<noteq> w"
  shows "set_addr (int h + 2) a g = (Inr (), g\<lparr>outf := (outf g)(h \<mapsto> LJmp jc a)\<rparr>)"
    and "emits lp {h} {} g w (g\<lparr>outf := (outf g)(h \<mapsto> LJmp jc a)\<rparr>) w (\<lambda>F e. F h = Some (LJmp jc a))"
proof -
  show "set_addr (int h + 2) a g = (Inr (), g\<lparr>outf := (outf g)(h \<mapsto> LJmp jc a)\<rparr>)"
    using h by (simp add: set_addr_def cm_simps)
  have "h < fend g" using assms(1) h unfolding file_ok_def by (metis not_le option.distinct(1))
  then show "emits lp {h} {} g w (g\<lparr>outf := (outf g)(h \<mapsto> LJmp jc a)\<rparr>) w (\<lambda>F e. F h = Some (LJmp jc a))"
    using assms by (auto simp: emits_def file_ok_def fits_def)
qed

lemma emits_same:
  \<comment> \<open>emits does not look at the stacks\<close>
  assumes "emits lp H U g w g1 w' C" and "outf g2 = outf g1" and "fend g2 = fend g1" and "do_list g2 = do_list g1"
  shows "emits lp H U g w g2 w' C"
  using assms unfolding emits_def file_ok_def fits_def by simp

lemma emits_from:
  assumes "emits lp H U g1 w g' w' C" and "outf g = outf g1" and "fend g = fend g1" and "do_list g = do_list g1"
  shows "emits lp H U g w g' w' C"
  using assms unfolding emits_def file_ok_def fits_def by simp

lemma pop_addr_app: "jmp_addr g = p # J \<Longrightarrow> pop_addr g = (Inr p, g\<lparr>jmp_addr := J\<rparr>)"
  by (simp add: pop_addr_def cm_simps)

lemma push_addr_ok: "push_addr p g = (Inr (), g') \<Longrightarrow> g' = g\<lparr>jmp_addr := p # jmp_addr g\<rparr>"
  by (simp add: push_addr_def cm_simps split: if_splits)

lemma pushlevel_ok: "pushlevel c g = (Inr (), g') \<Longrightarrow> g' = g\<lparr>neststack := \<lparr>ctl = c, s_case = False, nf_case = False\<rparr> # neststack g\<rparr>"
  by (simp add: pushlevel_def cm_simps split: if_splits)

lemma ok_below: "file_ok g \<Longrightarrow> outf g h = Some x \<Longrightarrow> h < fend g"
  unfolding file_ok_def by (metis not_le option.distinct(1))

text \<open>The steps that lines are made of. The jump at h is on top of the addresses.\<close>

lemma step_mod_addr:
  assumes g: "file_ok g" "w < fend g" "jmp_addr g = (int h + 2) # J" and h: "outf g h = Some (LJmp jc b)" "h \<noteq> w"
  shows "mod_addr g = (Inr (), g\<lparr>jmp_addr := J, outf := (outf g)(h \<mapsto> LJmp jc (int (fend g)))\<rparr>)"
    and "emits lp {h} {} g w (g\<lparr>jmp_addr := J, outf := (outf g)(h \<mapsto> LJmp jc (int (fend g)))\<rparr>) w
      (\<lambda>F e. F h = Some (LJmp jc (int (fend g))))"
proof -
  let ?g = "g\<lparr>jmp_addr := J\<rparr>"
  have "file_ok ?g" "w < fend ?g" "outf ?g h = Some (LJmp jc b)" using g h by (simp_all add: file_ok_def)
  note s = emits_set [where a = "int (fend g)", OF this h(2)]
  show "mod_addr g = (Inr (), g\<lparr>jmp_addr := J, outf := (outf g)(h \<mapsto> LJmp jc (int (fend g)))\<rparr>)"
    unfolding mod_addr_def ftell_def bnd_app getst_app using pop_addr_app [OF g(3)] s(1) by (simp add: cm_simps)
  show "emits lp {h} {} g w (g\<lparr>jmp_addr := J, outf := (outf g)(h \<mapsto> LJmp jc (int (fend g)))\<rparr>) w
      (\<lambda>F e. F h = Some (LJmp jc (int (fend g))))"
    by (rule emits_from [where ?g1.0 = ?g]) (use s(2) [of lp] in simp_all)
qed

lemma step_open_jump:
  assumes g: "file_ok g" "w < fend g" and jc: "jc \<noteq> RETURN_OP" "jc \<noteq> FCNRTN_OP"
    and run: "bnd (cgen_ljmp jc PLACE_HOLDER) (\<lambda>_. push_slot) g = (Inr (), g')"
  shows "emits lp {} {fend g} g w g' w (\<lambda>F e. True)"
    and "g' = g\<lparr>jmp_addr := (int (fend g) + 2) # jmp_addr g, fend := fend g + JBLOCKSZ, outf := (outf g)(fend g \<mapsto> LJmp jc PLACE_HOLDER)\<rparr>"
proof -
  let ?it = "LJmp jc PLACE_HOLDER" let ?g = "putting ?it g"
  have sz: "item_sz ?it = JBLOCKSZ" using jc by (simp add: item_sz_def)
  have "push_slot ?g = (Inr (), g')" using run by (simp only: cgen_ljmp_def bnd_app put_app prod.case sum.case)
  then have "push_addr (int (fend g) + 2) ?g = (Inr (), g')" by (simp add: push_slot_def ftell_def cm_simps sz algebra_simps)
  from push_addr_ok [OF this] have g': "g' = ?g\<lparr>jmp_addr := (int (fend g) + 2) # jmp_addr g\<rparr>" by simp
  have "emits lp {} {fend g} g w ?g w (\<lambda>F e. True)" using g sz by (intro emits_open) simp_all
  then show "emits lp {} {fend g} g w g' w (\<lambda>F e. True)" by (rule emits_same) (simp_all add: g')
  show "g' = g\<lparr>jmp_addr := (int (fend g) + 2) # jmp_addr g, fend := fend g + JBLOCKSZ, outf := (outf g)(fend g \<mapsto> LJmp jc PLACE_HOLDER)\<rparr>"
    using g' sz by (simp add: put_item_def cm_simps)
qed

lemma step_cond:
  assumes g: "file_ok g" "w < fend g" and b: "runnable dbg b" and run: "cond_codegen dbg b g = (Inr (), g')"
  shows "\<exists>h. emits lp {} {h} g w g' w (\<lambda>F e. \<forall>a. F h = Some (LJmp JMP_FALSE_OP a) \<longrightarrow> cond_at dbg F b (fend g) a (fend g'))
    \<and> jmp_addr g' = (int h + 2) # jmp_addr g \<and> neststack g' = neststack g \<and> outf g' h = Some (LJmp JMP_FALSE_OP PLACE_HOLDER)
    \<and> fend g \<le> h"
proof -
  let ?b = "dbg_block dbg b" let ?g = "putting (Blk ?b) g"
  have sz: "item_sz (Blk ?b) = block_sz ?b" "0 < block_sz ?b" using runnable_pos [OF b] by (simp_all add: item_sz_def)
  have p: "emits lp {} {} g w ?g w (\<lambda>F e. F (fend g) = Some (Blk ?b))" using g sz by (intro emits_put) simp_all
  have g1: "file_ok ?g" "w < fend ?g" using emits_fend [OF p] by blast+
  have "bnd (cgen_ljmp JMP_FALSE_OP PLACE_HOLDER) (\<lambda>_. push_slot) ?g = (Inr (), g')"
    using run by (simp only: cond_codegen_def write_block_def bnd_app [of "put_item _"] put_app prod.case sum.case)
  note o = step_open_jump [OF g1 _ _ this]
  have f: "fend ?g = fend g + block_sz ?b" using sz(1) by simp
  have g': "fend g' = fend ?g + JBLOCKSZ" "jmp_addr g' = (int (fend ?g) + 2) # jmp_addr g" "neststack g' = neststack g"
      "outf g' (fend ?g) = Some (LJmp JMP_FALSE_OP PLACE_HOLDER)"
    by (subst o(2); simp)+
  have "emits lp {} {fend ?g} g w g' w (\<lambda>F e. \<forall>a. F (fend ?g) = Some (LJmp JMP_FALSE_OP a) \<longrightarrow> cond_at dbg F b (fend g) a (fend g'))"
    by (rule emits_seq [OF p o(1)]) (simp_all add: cond_at_def Let_def f g'(1) b)
  then show ?thesis using g' f by (intro exI [of _ "fend ?g"]) simp
qed

lemma step_jmp:
  assumes g: "file_ok g" "w < fend g" "jmp_addr g = (int h + 2) # J" and h: "outf g h = Some (LJmp jc b)" "h \<noteq> w"
    and run: "jmp_codegen g = (Inr (), g')"
  shows "emits lp {h} {fend g} g w g' w (\<lambda>F e. F h = Some (LJmp jc (int (fend g + JBLOCKSZ))))"
    and "jmp_addr g' = (int (fend g) + 2) # J" and "neststack g' = neststack g" and "fend g' = fend g + JBLOCKSZ"
    and "outf g' (fend g) = Some (LJmp JUMP_OP PLACE_HOLDER)"
proof -
  let ?it = "LJmp JUMP_OP PLACE_HOLDER" let ?g = "putting ?it g"
  have sz: "item_sz ?it = JBLOCKSZ" by (simp add: item_sz_def)
  have o: "emits lp {} {fend g} g w ?g w (\<lambda>F e. True)" using g sz by (intro emits_open) simp_all
  have hl: "h < fend g" using ok_below [OF g(1) h(1)] .
  have g1: "file_ok ?g" "w < fend ?g" "jmp_addr ?g = (int h + 2) # J" "outf ?g h = Some (LJmp jc b)"
    using emits_fend [OF o] g(3) h(1) hl by auto
  let ?g2 = "?g\<lparr>jmp_addr := J, outf := (outf ?g)(h \<mapsto> LJmp jc (int (fend ?g)))\<rparr>"
  note m = step_mod_addr [OF g1 h(2)]
  have "push_slot ?g2 = (Inr (), g')"
    using run m(1) by (simp only: jmp_codegen_def cgen_ljmp_def bnd_app put_app prod.case sum.case)
  then have "push_addr (int (fend g) + 2) ?g2 = (Inr (), g')" by (simp add: push_slot_def ftell_def cm_simps sz algebra_simps)
  from push_addr_ok [OF this] have g': "g' = ?g2\<lparr>jmp_addr := (int (fend g) + 2) # J\<rparr>" by simp
    have "emits lp {h} {fend g} g w ?g2 w (\<lambda>F e. F h = Some (LJmp jc (int (fend g + JBLOCKSZ))))"
    by (rule emits_seq [OF o m(2)]) (use hl h(2) sz in auto)
  then show "emits lp {h} {fend g} g w g' w (\<lambda>F e. F h = Some (LJmp jc (int (fend g + JBLOCKSZ))))"
    by (rule emits_same) (simp_all add: g')
  show "jmp_addr g' = (int (fend g) + 2) # J" "neststack g' = neststack g" "fend g' = fend g + JBLOCKSZ"
    "outf g' (fend g) = Some (LJmp JUMP_OP PLACE_HOLDER)"
    using hl by (simp_all add: g' sz)
qed

lemma step_mod_jmp:
  assumes g: "file_ok g" "w < fend g" "jmp_addr g = f # (int h + 2) # J" and h: "outf g h = Some (LJmp jc b)" "h \<noteq> w"
    and run: "mod_jmp g = (Inr (), g')"
  shows "emits lp {h} {} g w g' w (\<lambda>F e. F h = Some (LJmp jc (int (fend g))))"
    and "g' = g\<lparr>jmp_addr := f # J, outf := (outf g)(h \<mapsto> LJmp jc (int (fend g)))\<rparr>"
proof -
  let ?g = "g\<lparr>jmp_addr := (int h + 2) # J\<rparr>"
  have "file_ok ?g" "w < fend ?g" "jmp_addr ?g = (int h + 2) # J" "outf ?g h = Some (LJmp jc b)" using g h by (simp_all add: file_ok_def)
  note m = step_mod_addr [OF this h(2)]
  have "push_addr f (?g\<lparr>jmp_addr := J, outf := (outf ?g)(h \<mapsto> LJmp jc (int (fend ?g)))\<rparr>) = (Inr (), g')"
    using run m(1) pop_addr_app [OF g(3)] by (simp add: mod_jmp_def bnd_app)
  from push_addr_ok [OF this] show g': "g' = g\<lparr>jmp_addr := f # J, outf := (outf g)(h \<mapsto> LJmp jc (int (fend g)))\<rparr>" by simp
  have "emits lp {h} {} ?g w g' w (\<lambda>F e. F h = Some (LJmp jc (int (fend g))))"
    by (rule emits_same [of _ _ _ ?g _ "?g\<lparr>jmp_addr := J, outf := (outf ?g)(h \<mapsto> LJmp jc (int (fend ?g)))\<rparr>"])
      (use m(2) [of lp] g' in simp_all)
  then show "emits lp {h} {} g w g' w (\<lambda>F e. F h = Some (LJmp jc (int (fend g))))" by (rule emits_from) simp_all
qed

end
