(* ===== verification/Compiled_Procedures.thy ===== *)
theory Compiled_Procedures
  imports Control_Compile
begin

text \<open>
  The lines of a structured statement compile to code of the shape that coded describes (compiled), for which the
  stack of open addresses and the nesting come back as they were, except that the jump that the next EXIT continues may
  have moved. With Control_Flow, a procedure runs as its statements mean (procedure_code_runs, and compiled_procedure_runs in Procedure_Runs).
\<close>

section \<open>The stacks\<close>

definition pending :: "bool \<Rightarrow> nat \<Rightarrow> nesting list \<Rightarrow> int list \<Rightarrow> bool" where
  \<comment> \<open>inside a loop, the address that EXIT continues is that of the jump at w\<close>
  "pending lp w N A \<longleftrightarrow> (case loop_frame N 0 of Inl _ \<Rightarrow> \<not> lp | Inr d \<Rightarrow> lp \<and> d < length A \<and> A ! d = int w + 2)"

definition moved :: "nesting list \<Rightarrow> int list \<Rightarrow> nat \<Rightarrow> int list" where
  "moved N A w = (case loop_frame N 0 of Inl _ \<Rightarrow> A | Inr d \<Rightarrow> A[d := int w + 2])"

definition frame_ok :: "nesting \<Rightarrow> nat \<Rightarrow> bool" where
  \<comment> \<open>the entry n owns k addresses\<close>
  "frame_ok n k \<longleftrightarrow> (ctl n = IF_CTL \<or> ctl n = ELSE_CTL) \<and> k = 1 \<or> ctl n = ELSEIF_CTL \<and> k = 2
     \<or> (ctl n = CASE_CTL \<or> ctl n = OTHERWISE_CTL) \<and> k = (if s_case n then 1 else 0) + (if nf_case n then 1 else 0)"

lemma loop_frame_add: "loop_frame N (j + d) = (case loop_frame N j of Inl x \<Rightarrow> Inl x | Inr k \<Rightarrow> Inr (k + d))"
proof (induction N arbitrary: j)
  case (Cons n N)
  have *: "loop_frame N (j + d + i) = (case loop_frame N (j + i) of Inl x \<Rightarrow> Inl x | Inr k \<Rightarrow> Inr (k + d))" for i
    using Cons.IH [of "j + i"] by (simp add: ac_simps)
  show ?case by (simp only: loop_frame.simps add.assoc [of "j + d"] add.assoc [of j "if _ then _ else _"] *) simp
qed simp

lemma loop_frame_frame:
  assumes "frame_ok n k"
  shows "loop_frame (n # N) 0 = (case loop_frame N 0 of Inl x \<Rightarrow> Inl x | Inr d \<Rightarrow> Inr (d + k))"
proof -
  have "loop_frame (n # N) 0 = loop_frame N (0 + k)" using assms unfolding frame_ok_def by (auto simp: numeral_2_eq_2)
  then show ?thesis by (simp only: loop_frame_add)
qed

lemma pending_frame: "frame_ok n (length hs) \<Longrightarrow> pending lp w (n # N) (hs @ A) = pending lp w N A"
  unfolding pending_def by (simp add: loop_frame_frame nth_append del: loop_frame.simps split: sum.split)

lemma moved_frame: "frame_ok n (length hs) \<Longrightarrow> moved (n # N) (hs @ A) w = hs @ moved N A w"
  unfolding moved_def by (simp add: loop_frame_frame list_update_append del: loop_frame.simps split: sum.split)

lemma pending_moved: "pending lp w N A \<Longrightarrow> pending lp w' N (moved N A w')"
  unfolding pending_def moved_def by (simp split: sum.splits)

lemma moved_same: "pending lp w N A \<Longrightarrow> moved N A w = A"
  unfolding pending_def moved_def by (auto simp: list_update_same_conv split: sum.splits)

lemma moved_moved [simp]: "moved N (moved N A w) w' = moved N A w'"
  unfolding moved_def by (simp split: sum.splits)

definition ready :: "bool \<Rightarrow> nat \<Rightarrow> cgen \<Rightarrow> bool" where
  "ready lp w g \<longleftrightarrow> file_ok g \<and> w < fend g \<and> (lp \<longrightarrow> (\<exists>jc a. outf g w = Some (LJmp jc a)))"

lemma emits_ready: "emits lp H U g w g' w' C \<Longrightarrow> ready lp w g \<Longrightarrow> ready lp w' g'"
  unfolding ready_def emits_def by fastforce

definition compiles :: "bool \<Rightarrow> nat \<Rightarrow> cgen \<Rightarrow> cgen \<Rightarrow> ((nat \<Rightarrow> item option) \<Rightarrow> nat \<Rightarrow> bool) \<Rightarrow> bool" where
  "compiles lp w g g' C \<longleftrightarrow>
     (\<exists>w'. emits lp {} {} g w g' w' C \<and> neststack g' = neststack g \<and> jmp_addr g' = moved (neststack g) (jmp_addr g) w')"

section \<open>Sequences of lines\<close>

primrec ec_seq :: "bool \<Rightarrow> bool \<Rightarrow> line list \<Rightarrow> unit gm" where
  "ec_seq isf dbg [] = ret ()"
| "ec_seq isf dbg (l # ls) = bnd (ec_line isf dbg l) (\<lambda>_. ec_seq isf dbg ls)"

lemma ec_seq_one: "ec_seq isf dbg [l] = ec_line isf dbg l"
  by (rule ext) (simp add: cm_simps split: prod.split sum.split)

lemma ec_seq_append: "ec_seq isf dbg (xs @ ys) = bnd (ec_seq isf dbg xs) (\<lambda>_. ec_seq isf dbg ys)"
  by (induction xs) (simp_all add: bnd_assoc)

lemma ec_seq_ConsE:
  assumes "ec_seq isf dbg (l # ls) g = (Inr (), g')"
  obtains g1 where "ec_line isf dbg l g = (Inr (), g1)" and "ec_seq isf dbg ls g1 = (Inr (), g')"
  using assms by (auto elim: bnd_InrE)

lemma ec_seq_appE:
  assumes "ec_seq isf dbg (xs @ ys) g = (Inr (), g')"
  obtains g1 where "ec_seq isf dbg xs g = (Inr (), g1)" and "ec_seq isf dbg ys g1 = (Inr (), g')"
  using assms unfolding ec_seq_append by (auto elim: bnd_InrE)

lemma ec_seq_blank:
  "ec_seq isf dbg ls = ec_seq isf dbg (filter (\<lambda>l. l \<noteq> LNull \<and> l \<noteq> LComment) ls)"
proof (induction ls)
  case (Cons l ls)
  have "l = LNull \<or> l = LComment \<Longrightarrow> bnd (ec_line isf dbg l) f g = f () g" for f :: "unit \<Rightarrow> unit gm" and g
    by (auto simp: ec_line_def cm_simps)
  then show ?case using Cons.IH by (auto intro: ext)
qed simp

section \<open>Loops\<close>

lemma emits_loop:
  assumes a: "emits lp {} {h} g w g1 w C" and b: "emits True {} {} g1 h g2 h' D" and h: "outf g1 h = Some (LJmp jc x)"
  shows "\<exists>jc' x'. outf g2 h' = Some (LJmp jc' x')
    \<and> emits lp {} {h'} g w g2 w (\<lambda>F e. C F e \<and> (\<forall>q y. F h' = Some (LJmp jc' y) \<longrightarrow> leads F y q \<longrightarrow>
        D F q \<and> (\<exists>y. F h = Some (LJmp jc y) \<and> leads F y q)))"
proof -
  have a1: "fend g \<le> fend g1" "do_list g1 = do_list g" "w < fend g" "w \<noteq> h" "fend g \<le> h" "h < fend g1"
    and a2: "\<And>x. x < fend g \<Longrightarrow> outf g1 x = outf g x"
    and a4: "\<And>F e. fits lp F {} {h} g w g1 w \<Longrightarrow> (lp \<longrightarrow> slot_leads F w e) \<Longrightarrow> C F e"
    using a unfolding emits_def by (auto; metis)+
  have b1: "fend g1 \<le> fend g2" "file_ok g2" "do_list g2 = do_list g1"
    and b2: "\<And>x. x < fend g1 \<Longrightarrow> x \<noteq> h \<Longrightarrow> outf g2 x = outf g1 x"
    and b3: "h' = h \<and> outf g2 h = outf g1 h \<or> fend g1 \<le> h' \<and> h' < fend g2 \<and> (\<exists>a. outf g2 h' = Some (LJmp JUMP_OP a))
        \<and> same_kind (outf g1 h) (outf g2 h)"
    and b4: "\<And>F e. fits True F {} {} g1 h g2 h' \<Longrightarrow> slot_leads F h' e \<Longrightarrow> D F e \<and> slot_leads F h e"
    using b unfolding emits_def by blast+
  obtain jc' x' where o: "outf g2 h' = Some (LJmp jc' x')" "h' \<noteq> h \<longrightarrow> jc' = JUMP_OP" "h' = h \<longrightarrow> jc' = jc"
    using b3 h a1(6) by (cases "h' = h") auto
  have hh: "fend g \<le> h'" "h' < fend g2" using a1 b1(1) b3 by auto
  have old: "x < fend g \<Longrightarrow> outf g2 x = outf g x" for x using a1(1,5) a2 [of x] b2 [of x] by auto
  have "C F e \<and> (\<forall>q y. F h' = Some (LJmp jc' y) \<longrightarrow> leads F y q \<longrightarrow> D F q \<and> (\<exists>y. F h = Some (LJmp jc y) \<and> leads F y q))"
    if f: "fits lp F {} {h'} g w g2 w" and l: "lp \<longrightarrow> slot_leads F w e" for F e
  proof (intro conjI allI impI)
    have F: "fend g \<le> x \<Longrightarrow> x < fend g2 \<Longrightarrow> x \<noteq> h' \<Longrightarrow> F x = outf g2 x" for x
      using f a1(3) unfolding fits_def by auto
    have "fits lp F {} {h} g w g1 w"
      unfolding fits_def
    proof (intro conjI allI impI)
      fix x assume x: "fend g \<le> x \<and> x < fend g1 \<or> lp \<and> x = w \<or> x \<in> {}" "x \<noteq> w" "x \<notin> {h}"
      then have "F x = outf g2 x" using F [of x] b1(1) b3 by auto
      then show "F x = outf g1 x" using x b2 [of x] by auto
    qed simp
    then show "C F e" using a4 l by blast
    fix q y assume q: "F h' = Some (LJmp jc' y)" "leads F y q"
    have "fits True F {} {} g1 h g2 h'"
      unfolding fits_def
    proof (intro conjI allI impI)
      fix x assume "fend g1 \<le> x \<and> x < fend g2 \<or> True \<and> x = h \<or> x \<in> {}" "x \<noteq> h'" "x \<notin> {}"
      then show "F x = outf g2 x" using F [of x] a1 b1(1) by auto
    qed (use q o in auto)
    moreover have "slot_leads F h' q" using q by (auto simp: slot_leads_def)
    ultimately have d: "D F q" "slot_leads F h q" using b4 by blast+
    show "D F q" by (rule d(1))
    have "\<exists>y. F h = Some (LJmp jc y)"
    proof (cases "h' = h")
      case False
      then have "F h = outf g2 h" using F [of h] a1 b1(1) by auto
      then show ?thesis using False b3 h by (auto simp: same_kind_def)
    qed (use q o in simp)
    then show "\<exists>y. F h = Some (LJmp jc y) \<and> leads F y q" using d(2) by (auto simp: slot_leads_def)
  qed
  then have "emits lp {} {h'} g w g2 w (\<lambda>F e. C F e \<and> (\<forall>q y. F h' = Some (LJmp jc' y) \<longrightarrow> leads F y q \<longrightarrow>
        D F q \<and> (\<exists>y. F h = Some (LJmp jc y) \<and> leads F y q)))"
    unfolding emits_def using a1 b1 hh old by auto
  then show ?thesis using o(1) by blast
qed

section \<open>Lines without nesting\<close>

lemma bnd_getst_app: "bnd (getst f) k g = k (f g) g"
  by (simp add: cm_simps)

lemma ret_bnd: "bnd (ret x) f = f x"
  by (rule ext) (simp add: cm_simps)

lemmas line_simps = ec_line_def line.case bnd_getst_app ret_bnd id_apply

lemma compiles_same:
  assumes "emits lp {} {} g w g' w C" and "pending lp w (neststack g) (jmp_addr g)"
    and "neststack g' = neststack g" and "jmp_addr g' = jmp_addr g"
  shows "compiles lp w g g' C"
  unfolding compiles_def using assms moved_same [OF assms(2)] by (intro exI [of _ w]) simp

lemma compiles_seq:
  assumes a: "compiles lp w g g1 C" and b: "\<And>w'. emits lp {} {} g w g1 w' C \<Longrightarrow> pending lp w' (neststack g1) (jmp_addr g1) \<Longrightarrow> compiles lp w' g1 g' D"
    and p: "pending lp w (neststack g) (jmp_addr g)"
  shows "compiles lp w g g' (\<lambda>F e. C F e \<and> D F e)"
proof -
  obtain w1 where 1: "emits lp {} {} g w g1 w1 C" "neststack g1 = neststack g" "jmp_addr g1 = moved (neststack g) (jmp_addr g) w1"
    using a unfolding compiles_def by blast
  obtain w2 where 2: "emits lp {} {} g1 w1 g' w2 D" "neststack g' = neststack g1" "jmp_addr g' = moved (neststack g1) (jmp_addr g1) w2"
    using b [OF 1(1)] p pending_moved [OF p, of w1] 1(2,3) unfolding compiles_def by auto
  have "emits lp {} {} g w g' w2 (\<lambda>F e. C F e \<and> D F e)"
    by (rule emits_seq [OF 1(1) 2(1)]) auto
  then show ?thesis unfolding compiles_def using 1 2 by auto
qed

lemma compiles_mono:
  assumes "compiles lp w g g' C" and "\<And>F e. C F e \<Longrightarrow> D F e"
  shows "compiles lp w g g' D"
  using assms emits_mono unfolding compiles_def by meson

lemma line_block:
  assumes "ec_line isf dbg (LSimple b) g = (Inr (), g')" and "ready lp w g" and "pending lp w (neststack g) (jmp_addr g)"
    and "runnable dbg b"
  shows "compiles lp w g g' (\<lambda>F e. coded dbg F e (SBlock b) (fend g) (fend g'))"
proof -
  let ?b = "dbg_block dbg b"
  have sz: "item_sz (Blk ?b) = block_sz ?b" "0 < block_sz ?b" using runnable_pos [OF assms(4)] by (simp_all add: item_sz_def)
  have g': "g' = putting (Blk ?b) g" using assms(1) by (simp add: line_simps write_block_def put_app)
  have "emits lp {} {} g w (putting (Blk ?b) g) w (\<lambda>F e. F (fend g) = Some (Blk ?b))"
    using assms(2) sz unfolding ready_def by (intro emits_put) simp_all
  then have "compiles lp w g g' (\<lambda>F e. F (fend g) = Some (Blk ?b))" by (intro compiles_same) (simp_all add: g' assms(3))
  then show ?thesis by (rule compiles_mono) (simp add: g' sz assms(4))
qed

lemma line_return:
  assumes run: "ec_line isf dbg (LReturn b) g = (Inr (), g')" and r: "ready lp w g" and p: "pending lp w (neststack g) (jmp_addr g)"
    and "\<And>c. b = Some c \<Longrightarrow> runnable dbg c"
  shows "compiles lp w g g' (\<lambda>F e. coded dbg F e (SReturn b) (fend g) (fend g'))"
proof (cases b)
  case None
  let ?it = "LJmp RETURN_OP 0"
  have g': "g' = putting ?it g" using run None by (simp add: line_simps cgen_ljmp_def put_app cm_simps split: if_splits)
  have "emits lp {} {} g w (putting ?it g) w (\<lambda>F e. F (fend g) = Some ?it)"
    using r unfolding ready_def by (intro emits_put) (simp_all add: item_sz_def)
  then have "compiles lp w g g' (\<lambda>F e. F (fend g) = Some ?it)" by (intro compiles_same) (simp_all add: g' p)
  then show ?thesis by (rule compiles_mono) (simp add: None g' item_sz_def)
next
  case (Some c)
  let ?b = "Blk (dbg_block dbg c)" and ?it = "LJmp FCNRTN_OP 0"
  have sz: "item_sz ?b = block_sz (dbg_block dbg c)" "0 < item_sz ?b" "item_sz ?it = 2" using runnable_pos [OF assms(4) [OF Some]]
    by (simp_all add: item_sz_def)
  have g': "g' = putting ?it (putting ?b g)"
    using run Some by (simp add: line_simps write_block_def cgen_ljmp_def put_app cm_simps split: if_splits)
  have e: "emits lp {} {} g w (putting ?b g) w (\<lambda>F e. F (fend g) = Some ?b)"
    using r sz unfolding ready_def by (intro emits_put) simp_all
  have "emits lp {} {} (putting ?b g) w g' w (\<lambda>F e. F (fend (putting ?b g)) = Some ?it)"
    unfolding g' using emits_ready [OF e r] sz unfolding ready_def by (intro emits_put) simp_all
  from emits_seq [OF e this] have "emits lp {} {} g w g' w (\<lambda>F e. F (fend g) = Some ?b \<and> F (fend (putting ?b g)) = Some ?it)"
    by simp
  then have "compiles lp w g g' (\<lambda>F e. F (fend g) = Some ?b \<and> F (fend (putting ?b g)) = Some ?it)"
    by (intro compiles_same) (simp_all add: g' p)
  then show ?thesis by (rule compiles_mono) (simp add: Some g' Let_def sz assms(4) [OF Some])
qed

lemma line_exit:
  assumes run: "ec_line isf dbg LExit g = (Inr (), g')" and r: "ready lp w g" and p: "pending lp w (neststack g) (jmp_addr g)"
  shows "compiles lp w g g' (\<lambda>F e. coded dbg F e SExit (fend g) (fend g'))"
proof (cases "loop_frame (neststack g) 0")
  case (Inl x)
  then show ?thesis using run by (simp add: line_simps exit_loop_def cm_simps)
next
  case (Inr d)
  let ?it = "LJmp JUMP_OP PLACE_HOLDER"
  have d: "lp" "d < length (jmp_addr g)" "jmp_addr g ! d = int w + 2" using p Inr by (simp_all add: pending_def)
  then obtain jc a where w: "outf g w = Some (LJmp jc a)" using r by (auto simp: ready_def)
  have sz: "item_sz ?it = 6" by (simp add: item_sz_def)
  have g': "g' = g\<lparr>outf := (outf g)(w \<mapsto> LJmp jc (int (fend g)), fend g \<mapsto> ?it), fend := fend g + 6,
      jmp_addr := (jmp_addr g)[d := int (fend g) + 2]\<rparr>"
    using run by (simp add: line_simps exit_loop_def Inr d w set_addr_def ftell_def cgen_ljmp_def put_app cm_simps sz algebra_simps)
  have f: "w < fend g" "file_ok g" using r by (simp_all add: ready_def)
  have "emits lp {} {} g w g' (fend g) (\<lambda>F e. coded dbg F e SExit (fend g) (fend g'))"
  proof -
    have "coded dbg F e SExit (fend g) (fend g') \<and> slot_leads F w e"
      if F: "fits lp F {} {} g w g' (fend g)" and l: "slot_leads F (fend g) e" for F e
    proof -
      obtain a where a: "F (fend g) = Some (LJmp JUMP_OP a)" using F f unfolding fits_def by auto
      then have "leads F a e" using l by (auto simp: slot_leads_def)
      moreover have "F w = Some (LJmp jc (int (fend g)))" using F f d(1) unfolding fits_def by (auto simp: g')
      ultimately show ?thesis using a leads_hop by (auto simp: slot_leads_def g')
    qed
    then show ?thesis using f d(1) w unfolding emits_def by (auto simp: g' file_ok_def same_kind_def)
  qed
  then show ?thesis unfolding compiles_def by (intro exI [of _ "fend g"]) (simp add: g' moved_def Inr)
qed

section \<open>Branches\<close>

definition closes :: "bool \<Rightarrow> nat \<Rightarrow> nesting list \<Rightarrow> int list \<Rightarrow> nat set \<Rightarrow> cgen \<Rightarrow> cgen \<Rightarrow> ((nat \<Rightarrow> item option) \<Rightarrow> nat \<Rightarrow> bool) \<Rightarrow> bool" where
  \<comment> \<open>the stacks end as N and A\<close>
  "closes lp w N A H g g' C \<longleftrightarrow> (\<exists>w'. emits lp H {} g w g' w' C \<and> neststack g' = N \<and> jmp_addr g' = moved N A w')"

abbreviation (input) addrs :: "nat list \<Rightarrow> int list" where
  "addrs hs \<equiv> map (\<lambda>h. int h + 2) hs"

definition jump_at :: "cgen \<Rightarrow> nat \<Rightarrow> nat \<Rightarrow> bool" where
  "jump_at g jc h \<longleftrightarrow> (\<exists>a. outf g h = Some (LJmp jc a))"

fun holes :: "cgen \<Rightarrow> nat list \<Rightarrow> bool" where
  \<comment> \<open>what a branch leaves open: the jump of its condition, and the jump behind the branches before it\<close>
  "holes g [] \<longleftrightarrow> True"
| "holes g [pf] \<longleftrightarrow> jump_at g JMP_FALSE_OP pf"
| "holes g [pf, pj] \<longleftrightarrow> jump_at g JMP_FALSE_OP pf \<and> jump_at g JUMP_OP pj"
| "holes g _ \<longleftrightarrow> False"

definition br_frame :: "bool \<Rightarrow> nat \<Rightarrow> nesting \<Rightarrow> bool" where
  \<comment> \<open>the entry of a control structure that has k jumps open\<close>
  "br_frame cs k n \<longleftrightarrow> (if cs then ctl n = CASE_CTL \<and> k \<le> 2 \<and> (nf_case n \<longleftrightarrow> 0 < k) \<and> (s_case n \<longleftrightarrow> k = 2)
     else ctl n = IF_CTL \<and> k = 1 \<or> ctl n = ELSEIF_CTL \<and> k = 2)"

fun filled :: "bool \<Rightarrow> (nat \<Rightarrow> item option) \<Rightarrow> nat \<Rightarrow> branches \<Rightarrow> nat list \<Rightarrow> nat \<Rightarrow> nat \<Rightarrow> bool" where
  "filled dbg F e br [] p q \<longleftrightarrow> coded_first dbg F e br p q"
| "filled dbg F e br (pf # hs) p q \<longleftrightarrow> (\<exists>a. F pf = Some (LJmp JMP_FALSE_OP a) \<and> coded_br dbg F e br a p q)
     \<and> (\<forall>pj\<in>set hs. \<exists>j. F pj = Some (LJmp JUMP_OP j) \<and> leads F j q)"

lemma br_frame_ok: "br_frame cs k n \<Longrightarrow> frame_ok n k"
  unfolding br_frame_def frame_ok_def by (auto split: if_splits)

lemma holes_cases:
  assumes "holes g hs"
  obtains "hs = []" | pf where "hs = [pf]" "jump_at g JMP_FALSE_OP pf"
    | pf pj where "hs = [pf, pj]" "jump_at g JMP_FALSE_OP pf" "jump_at g JUMP_OP pj" "pf \<noteq> pj"
proof (cases "(g, hs)" rule: holes.cases)
  case (3 g pf pj)
  then have "pf \<noteq> pj" using assms by (auto simp: jump_at_def)
  then show ?thesis using 3 assms that(3) by simp
qed (use assms that in auto)

lemma jump_below: "file_ok g \<Longrightarrow> jump_at g jc h \<Longrightarrow> h < fend g"
  unfolding jump_at_def using ok_below by blast

lemma holes_below: "file_ok g \<Longrightarrow> holes g hs \<Longrightarrow> h \<in> set hs \<Longrightarrow> h < fend g"
  by (erule holes_cases) (auto dest: jump_below)

lemma holes_keep:
  assumes e: "emits lp {} U g w g' w' C" and f: "file_ok g" and h: "holes g hs" and w: "w \<notin> set hs"
  shows "holes g' hs \<and> w' \<notin> set hs"
proof -
  have "outf g' x = outf g x \<and> x \<noteq> w'" if "x \<in> set hs" for x
    using emits_old [OF e] holes_below [OF f h that] that w by auto
  then have "w' \<notin> set hs" "\<And>jc x. x \<in> set hs \<Longrightarrow> jump_at g' jc x = jump_at g jc x" by (auto simp: jump_at_def)
  then show ?thesis using h by (auto elim: holes_cases)
qed

definition close_with :: "nat list \<Rightarrow> unit gm \<Rightarrow> unit gm" where
  "close_with hs m = (if hs = [] then ret () else bnd (if length hs = 2 then mod_jmp else ret ()) (\<lambda>_. m))"

lemma next_branch:
  assumes run: "close_with hs jmp_codegen g = (Inr (), g1)" and hs: "holes g hs" "hs \<noteq> []" "w \<notin> set hs"
    and r: "ready lp w g" and A: "jmp_addr g = addrs hs @ A"
  shows "emits lp (set hs) {fend g} g w g1 w (\<lambda>F e. F (hd hs) = Some (LJmp JMP_FALSE_OP (int (fend g + 6)))
      \<and> (\<forall>pj\<in>set (tl hs). F pj = Some (LJmp JUMP_OP (int (fend g)))))" (is ?emit)
    and "jmp_addr g1 = (int (fend g) + 2) # A" (is ?addrs) and "neststack g1 = neststack g" (is ?nest)
    and "fend g1 = fend g + 6" (is ?len) and "jump_at g1 JUMP_OP (fend g)" (is ?jump)
proof -
  have f: "file_ok g" "w < fend g" using r by (simp_all add: ready_def)
  have "?emit \<and> ?addrs \<and> ?nest \<and> ?len \<and> ?jump"
  using hs(1)
  proof (cases rule: holes_cases)
    case (2 pf)
    then obtain b where b: "outf g pf = Some (LJmp JMP_FALSE_OP b)" by (auto simp: jump_at_def)
    have "jmp_codegen g = (Inr (), g1)" "pf \<noteq> w" "jmp_addr g = (int pf + 2) # A" using run 2 hs A by (auto simp: close_with_def ret_bnd)
    from step_jmp [OF f this(3) b this(2,1)] show ?thesis using 2 by (simp add: jump_at_def)
  next
    case (3 pf pj)
    then obtain b b' where b: "outf g pf = Some (LJmp JMP_FALSE_OP b)" "outf g pj = Some (LJmp JUMP_OP b')"
      by (auto simp: jump_at_def)
    obtain g2 where g2: "mod_jmp g = (Inr (), g2)" "jmp_codegen g2 = (Inr (), g1)"
      using run 3 by (auto simp: close_with_def elim: bnd_InrE)
    have a: "jmp_addr g = (int pf + 2) # (int pj + 2) # A" "pj \<noteq> w" "pf \<noteq> w" using A 3 hs by auto
    note m = step_mod_jmp [OF f a(1) b(2) a(2) g2(1)]
    have f2: "file_ok g2" "w < fend g2" using emits_fend [OF m(1)] by blast+
    have "jmp_addr g2 = (int pf + 2) # A" "outf g2 pf = Some (LJmp JMP_FALSE_OP b)" using m(2) b(1) 3 by simp_all
    note j = step_jmp [OF f2 this a(3) g2(2)]
    have e: "fend g2 = fend g" using m(2) by simp
    have "emits lp {pf, pj} {fend g} g w g1 w (\<lambda>F e. F pf = Some (LJmp JMP_FALSE_OP (int (fend g + 6))) \<and> F pj = Some (LJmp JUMP_OP (int (fend g))))"
      by (rule emits_seq [OF m(1) j(1)]) (use 3 a ok_below [OF f(1) b(1)] e in auto)
    then show ?thesis using j(2-5) e m(2) 3 by (simp add: jump_at_def)
  qed (use hs in simp)
  then show ?emit and ?addrs and ?nest and ?len and ?jump by blast+
qed

lemma last_branch:
  assumes run: "close_with hs mod_addr g = (Inr (), g1)" and hs: "holes g hs" "w \<notin> set hs"
    and r: "ready lp w g" and A: "jmp_addr g = addrs hs @ A"
  shows "emits lp (set hs) {} g w g1 w (\<lambda>F e. filled dbg F e BEnd hs (fend g) (fend g))" (is ?emit)
    and "jmp_addr g1 = A" (is ?addrs) and "neststack g1 = neststack g" (is ?nest) and "fend g1 = fend g" (is ?len)
proof -
  have f: "file_ok g" "w < fend g" using r by (simp_all add: ready_def)
  have "?emit \<and> ?addrs \<and> ?nest \<and> ?len"
  using hs(1)
  proof (cases rule: holes_cases)
    case 1
    then have "g1 = g" using run by (simp add: close_with_def cm_simps)
    then show ?thesis using 1 A f by (simp add: emits_keep)
  next
    case (2 pf)
    then obtain b where b: "outf g pf = Some (LJmp JMP_FALSE_OP b)" by (auto simp: jump_at_def)
    have a: "mod_addr g = (Inr (), g1)" "pf \<noteq> w" "jmp_addr g = (int pf + 2) # A" using run 2 hs A by (auto simp: close_with_def ret_bnd)
    note m = step_mod_addr [OF f a(3) b a(2)]
    show ?thesis using m a(1) 2 emits_mono [OF m(2), of lp "\<lambda>F e. \<exists>a. F pf = Some (LJmp JMP_FALSE_OP a) \<and> a = int (fend g)"] by simp
  next
    case (3 pf pj)
    then obtain b b' where b: "outf g pf = Some (LJmp JMP_FALSE_OP b)" "outf g pj = Some (LJmp JUMP_OP b')"
      by (auto simp: jump_at_def)
    obtain g2 where g2: "mod_jmp g = (Inr (), g2)" "mod_addr g2 = (Inr (), g1)"
      using run 3 by (auto simp: close_with_def elim: bnd_InrE)
    have a: "jmp_addr g = (int pf + 2) # (int pj + 2) # A" "pj \<noteq> w" "pf \<noteq> w" using A 3 hs by auto
    note m = step_mod_jmp [OF f a(1) b(2) a(2) g2(1)]
    have f2: "file_ok g2" "w < fend g2" using emits_fend [OF m(1)] by blast+
    have "jmp_addr g2 = (int pf + 2) # A" "outf g2 pf = Some (LJmp JMP_FALSE_OP b)" using m(2) b(1) 3 by simp_all
    note j = step_mod_addr [OF f2 this a(3)]
    have e: "fend g2 = fend g" "neststack g2 = neststack g" using m(2) by simp_all
    have g1: "g1 = g2\<lparr>jmp_addr := A, outf := (outf g2)(pf \<mapsto> LJmp JMP_FALSE_OP (int (fend g2)))\<rparr>" using j(1) g2(2) by simp
    have "emits lp {pf, pj} {} g w g1 w (\<lambda>F e. filled dbg F e BEnd hs (fend g) (fend g))"
      unfolding g1 by (rule emits_seq [OF m(1) j(2)]) (use 3 a ok_below [OF f(1) b(1)] e leads_here in auto)
    then show ?thesis using 3 e g1 by simp
  qed
  then show ?emit and ?addrs and ?nest and ?len by blast+
qed

section \<open>The lines of branches\<close>

abbreviation (input) entry :: "nat \<Rightarrow> bool \<Rightarrow> bool \<Rightarrow> nesting" where
  "entry c s f \<equiv> \<lparr>ctl = c, s_case = s, nf_case = f\<rparr>"

lemma line_end:
  assumes run: "ec_line isf dbg (if cs then LEndcase else LEndif) g = (Inr (), g')"
    and n: "neststack g = n # N" "br_frame cs (length hs) n"
  obtains g1 where "close_with hs mod_addr g = (Inr (), g1)" and "g' = g1\<lparr>neststack := tl (neststack g1)\<rparr>"
proof (rule bnd_InrE [of "close_with hs mod_addr" "\<lambda>_. poplevel" g "()" g'])
  have "hs \<noteq> [] \<longleftrightarrow> 0 < length hs" by simp
  then show "bnd (close_with hs mod_addr) (\<lambda>_. poplevel) g = (Inr (), g')"
    using run n unfolding br_frame_def close_with_def
    by (auto simp: line_simps crntlevel_def flag_def bnd_assoc split: if_splits)
qed (use that in \<open>simp add: poplevel_def cm_simps\<close>)

lemma line_else:
  assumes run: "ec_line isf dbg (if cs then LOtherwise else LElse) g = (Inr (), g')"
    and n: "neststack g = n # N" "br_frame cs (length hs) n"
  obtains g1 where "close_with hs jmp_codegen g = (Inr (), g1)"
    and "neststack g1 = neststack g \<Longrightarrow> g' = g1\<lparr>neststack := entry (if cs then OTHERWISE_CTL else ELSE_CTL) False (cs \<and> hs \<noteq> []) # N\<rparr>"
proof -
  let ?f = "\<lambda>_. if cs then bnd (chglevel OTHERWISE_CTL) (\<lambda>_. if hs \<noteq> [] then on_level (\<lambda>n. n\<lparr>nf_case := True\<rparr>) else ret ()) else chglevel ELSE_CTL"
  have "hs \<noteq> [] \<longleftrightarrow> 0 < length hs" by simp
  then have r: "bnd (close_with hs jmp_codegen) ?f g = (Inr (), g')"
    using run n unfolding br_frame_def close_with_def
    by (auto simp: line_simps crntlevel_def flag_def bnd_assoc split: if_splits)
  then obtain g1 where g1: "close_with hs jmp_codegen g = (Inr (), g1)" "?f () g1 = (Inr (), g')" by (auto elim: bnd_InrE)
  show ?thesis
  proof (rule that [OF g1(1)])
    assume "neststack g1 = neststack g"
    then show "g' = g1\<lparr>neststack := entry (if cs then OTHERWISE_CTL else ELSE_CTL) False (cs \<and> hs \<noteq> []) # N\<rparr>"
      using g1(2) n(1) by (auto simp: chglevel_def on_level_def cm_simps split: if_splits)
  qed
qed

lemma mod_jmp_nest: "mod_jmp g = (Inr (), g') \<Longrightarrow> neststack g' = neststack g"
  unfolding mod_jmp_def mod_addr_def pop_addr_def push_addr_def set_addr_def ftell_def
  by (auto simp: cm_simps split: list.splits option.splits item.splits if_splits)

lemma line_when:
  \<comment> \<open>a CASE notes in its entry that it has closed a branch before it makes the code for that\<close>
  assumes run: "ec_line isf dbg (if cs then LCase c else LElseif c) g = (Inr (), g')"
    and n: "neststack g = n # N" "br_frame cs (length hs) n"
  obtains m g1 n' where "br_frame cs (if hs = [] then 1 else 2) n'"
    and "close_with hs jmp_codegen (g\<lparr>neststack := m # N\<rparr>) = (Inr (), g1)"
    and "neststack g1 = m # N \<Longrightarrow> cond_codegen dbg c (g1\<lparr>neststack := n' # N\<rparr>) = (Inr (), g')"
proof (cases cs)
  case False
  let ?e = "entry ELSEIF_CTL False False"
  have g: "g\<lparr>neststack := n # N\<rparr> = g" using n(1) by simp
  have l: "ctl n = IF_CTL \<and> length hs = 1 \<or> ctl n = ELSEIF_CTL \<and> length hs = 2" "hs \<noteq> []" using n(2) False by (auto simp: br_frame_def)
  show ?thesis
  proof (cases "ctl n = IF_CTL")
    case True
    then have "bnd (close_with hs jmp_codegen) (\<lambda>_. bnd (chglevel ELSEIF_CTL) (\<lambda>_. cond_codegen dbg c)) g = (Inr (), g')"
      using run n(1) l False by (auto simp: line_simps crntlevel_def close_with_def bnd_assoc)
    then obtain g1 where "close_with hs jmp_codegen g = (Inr (), g1)" "bnd (chglevel ELSEIF_CTL) (\<lambda>_. cond_codegen dbg c) g1 = (Inr (), g')"
      by (auto elim: bnd_InrE)
    then show ?thesis using l False
      by (intro that [of ?e n g1]) (auto simp: g br_frame_def chglevel_def on_level_def cm_simps)
  next
    case no: False
    then have "bnd (close_with hs jmp_codegen) (\<lambda>_. cond_codegen dbg c) g = (Inr (), g')"
      using run n(1) l False by (auto simp: line_simps crntlevel_def close_with_def bnd_assoc)
    then obtain g1 where g1: "close_with hs jmp_codegen g = (Inr (), g1)" "cond_codegen dbg c g1 = (Inr (), g')"
      by (auto elim: bnd_InrE)
    have e: "neststack g1 = n # N \<Longrightarrow> g1\<lparr>neststack := n # N\<rparr> = g1" by simp
    show ?thesis by (rule that [of n n g1]) (use l no False g1 e in \<open>auto simp only: g br_frame_def if_False if_True simp_thms split: if_splits\<close>)
  qed
next
  case True
  have f: "ctl n = CASE_CTL" "nf_case n \<longleftrightarrow> hs \<noteq> []" "s_case n \<longleftrightarrow> length hs = 2" "length hs \<le> 2" using n(2) True by (auto simp: br_frame_def)
  let ?m = "n\<lparr>s_case := hs \<noteq> []\<rparr>" and ?n = "n\<lparr>s_case := hs \<noteq> [], nf_case := True\<rparr>"
  let ?rest = "\<lambda>_. bnd (on_level (\<lambda>n. n\<lparr>nf_case := True\<rparr>)) (\<lambda>_. cond_codegen dbg c)"
  have "bnd (close_with hs jmp_codegen) ?rest (g\<lparr>neststack := ?m # N\<rparr>) = (Inr (), g')"
  proof (cases "length hs = 2")
    case two: True
    then have m: "?m = n" and h: "hs \<noteq> []" using f by (cases n; auto)+
    have "bnd mod_jmp (\<lambda>_. bnd (on_level (\<lambda>n. n\<lparr>s_case := True\<rparr>)) (\<lambda>_. bnd jmp_codegen ?rest)) g = (Inr (), g')"
      using run n(1) f True two h by (simp add: line_simps crntlevel_def flag_def bnd_assoc)
    then obtain g2 where g2: "mod_jmp g = (Inr (), g2)"
        "bnd (on_level (\<lambda>n. n\<lparr>s_case := True\<rparr>)) (\<lambda>_. bnd jmp_codegen ?rest) g2 = (Inr (), g')"
      by (auto elim: bnd_InrE)
    have "n\<lparr>s_case := True\<rparr> = n" using f two by (cases n) auto
    then have "on_level (\<lambda>n. n\<lparr>s_case := True\<rparr>) g2 = (Inr (), g2)" using mod_jmp_nest [OF g2(1)] n(1)
      by (simp add: on_level_def cm_simps)
    then have "bnd jmp_codegen ?rest g2 = (Inr (), g')" using g2(2) by (simp add: bnd_app)
    moreover have "g\<lparr>neststack := n # N\<rparr> = g" using n(1) by simp
    moreover have "close_with hs jmp_codegen = bnd mod_jmp (\<lambda>_. jmp_codegen)" using h two by (simp add: close_with_def)
    ultimately show ?thesis using g2(1) by (simp only: m bnd_assoc bnd_app [of mod_jmp] prod.case sum.case)
  next
    case False
    then show ?thesis using run n(1) f True
      by (cases "hs = []"; cases n) (auto simp: line_simps crntlevel_def flag_def close_with_def bnd_assoc on_level_def cm_simps)
  qed
  then obtain g1 where g1: "close_with hs jmp_codegen (g\<lparr>neststack := ?m # N\<rparr>) = (Inr (), g1)" "?rest () g1 = (Inr (), g')"
    by (auto elim: bnd_InrE)
  show ?thesis
    by (rule that [OF _ g1(1), of ?n]) (use g1(2) f True in \<open>auto simp: br_frame_def on_level_def cm_simps\<close>)
qed

section \<open>Statements\<close>

primrec sized :: "bool \<Rightarrow> stmt \<Rightarrow> bool" and sized_br :: "bool \<Rightarrow> branches \<Rightarrow> bool" where
  \<comment> \<open>no code block of the statement is taken for a long jump\<close>
  "sized dbg SNop \<longleftrightarrow> True"
| "sized dbg (SSeq s r) \<longleftrightarrow> sized dbg s \<and> sized dbg r"
| "sized dbg (SBlock b) \<longleftrightarrow> runnable dbg b"
| "sized dbg (SIf c s br) \<longleftrightarrow> runnable dbg c \<and> sized dbg s \<and> sized_br dbg br"
| "sized dbg (SWhile c s) \<longleftrightarrow> runnable dbg c \<and> sized dbg s"
| "sized dbg (SCase s br) \<longleftrightarrow> sized dbg s \<and> sized_br dbg br"
| "sized dbg SExit \<longleftrightarrow> True"
| "sized dbg (SReturn b) \<longleftrightarrow> (case b of None \<Rightarrow> True | Some b \<Rightarrow> runnable dbg b)"
| "sized_br dbg BEnd \<longleftrightarrow> True"
| "sized_br dbg (BElse s) \<longleftrightarrow> sized dbg s"
| "sized_br dbg (BWhen c s br) \<longleftrightarrow> runnable dbg c \<and> sized dbg s \<and> sized_br dbg br"

definition stmt_ok :: "bool \<Rightarrow> bool \<Rightarrow> stmt \<Rightarrow> bool" where
  "stmt_ok isf dbg s \<longleftrightarrow> (\<forall>lp w g g'. ec_seq isf dbg (lines_of s) g = (Inr (), g') \<longrightarrow> ready lp w g
     \<longrightarrow> pending lp w (neststack g) (jmp_addr g) \<longrightarrow> compiles lp w g g' (\<lambda>F e. coded dbg F e s (fend g) (fend g')))"

definition branches_ok :: "bool \<Rightarrow> bool \<Rightarrow> branches \<Rightarrow> bool" where
  "branches_ok isf dbg br \<longleftrightarrow> (\<forall>cs lp w g g' hs n N A. ec_seq isf dbg (br_lines br cs) g = (Inr (), g') \<longrightarrow> ready lp w g
     \<longrightarrow> neststack g = n # N \<longrightarrow> br_frame cs (length hs) n \<longrightarrow> jmp_addr g = addrs hs @ A \<longrightarrow> pending lp w N A
     \<longrightarrow> holes g hs \<longrightarrow> w \<notin> set hs
     \<longrightarrow> closes lp w N A (set hs) g g' (\<lambda>F e. filled dbg F e br hs (fend g) (fend g')))"

lemma stmt_okD:
  assumes "stmt_ok isf dbg s" and "ec_seq isf dbg (lines_of s) g = (Inr (), g')" and "ready lp w g"
    and n: "neststack g = n # N" "frame_ok n (length hs)" and A: "jmp_addr g = addrs hs @ A" and p: "pending lp w N A"
  obtains w' where "emits lp {} {} g w g' w' (\<lambda>F e. coded dbg F e s (fend g) (fend g'))" and "neststack g' = n # N"
    and "jmp_addr g' = addrs hs @ moved N A w'"
proof -
  have "frame_ok n (length (addrs hs))" using n(2) by simp
  note f = pending_frame [OF this] moved_frame [OF this]
  have "compiles lp w g g' (\<lambda>F e. coded dbg F e s (fend g) (fend g'))"
    using assms unfolding stmt_ok_def by (simp add: f)
  then show ?thesis using that unfolding compiles_def by (auto simp: n A f)
qed

lemma branches_okD:
  assumes "branches_ok isf dbg br" and "ec_seq isf dbg (br_lines br cs) g = (Inr (), g')" and "ready lp w g"
    and "neststack g = n # N" and "br_frame cs (length hs) n" and "jmp_addr g = addrs hs @ A" and "pending lp w N A"
    and "holes g hs" and "w \<notin> set hs"
  obtains w' where "emits lp (set hs) {} g w g' w' (\<lambda>F e. filled dbg F e br hs (fend g) (fend g'))" and "neststack g' = N"
    and "jmp_addr g' = moved N A w'"
  using assms unfolding branches_ok_def closes_def by blast

lemma when_tail:
  \<comment> \<open>a condition, its statement and the branches behind it, with the jump of the branches before it in hs\<close>
  assumes run: "cond_codegen dbg c g = (Inr (), g1)" "ec_seq isf dbg (lines_of s) g1 = (Inr (), g2)"
      "ec_seq isf dbg (br_lines br cs) g2 = (Inr (), g')"
    and s: "stmt_ok isf dbg s" and br: "branches_ok isf dbg br" and c: "runnable dbg c"
    and r: "ready lp w g" and n: "neststack g = n # N" "br_frame cs (Suc (length hs)) n"
    and A: "jmp_addr g = addrs hs @ A" "pending lp w N A"
    and hs: "\<And>h. h \<in> set hs \<Longrightarrow> jump_at g JUMP_OP h" "length hs \<le> 1" "w \<notin> set hs"
  shows "closes lp w N A (set hs) g g' (\<lambda>F e. (\<exists>a l m. cond_at dbg F c (fend g) a l \<and> coded dbg F e s l m \<and> coded_br dbg F e br a m (fend g'))
    \<and> (\<forall>pj\<in>set hs. \<exists>j. F pj = Some (LJmp JUMP_OP j) \<and> leads F j (fend g')))"
proof -
  have f: "file_ok g" "w < fend g" using r by (simp_all add: ready_def)
  obtain h where h: "emits lp {} {h} g w g1 w (\<lambda>F e. \<forall>a. F h = Some (LJmp JMP_FALSE_OP a) \<longrightarrow> cond_at dbg F c (fend g) a (fend g1))"
      "jmp_addr g1 = addrs (h # hs) @ A" "neststack g1 = n # N" "outf g1 h = Some (LJmp JMP_FALSE_OP PLACE_HOLDER)" "fend g \<le> h"
    using step_cond [where lp = lp, OF f c run(1)] n(1) A(1) by auto
  have r1: "ready lp w g1" using emits_ready [OF h(1) r] .
  have f1: "file_ok g1" using r1 by (simp add: ready_def)
  have "jump_at g1 JUMP_OP x \<and> x < fend g" if x: "x \<in> set hs" for x
  proof -
    have "x < fend g" "x \<noteq> w" using jump_below [OF f(1) hs(1) [OF x]] hs(3) x by auto
    then show ?thesis using hs(1) [OF x] emits_old [OF h(1), of x] by (auto simp: jump_at_def)
  qed
  then have hl: "holes g1 (h # hs)" "w \<notin> set (h # hs)" "\<And>x. x \<in> set hs \<Longrightarrow> x < fend g"
    using hs(2,3) h(4,5) f(2) by (cases hs; cases "tl hs"; auto simp: jump_at_def)+
  have fr: "br_frame cs (length (h # hs)) n" using n(2) by simp
  obtain w1 where b: "emits lp {} {} g1 w g2 w1 (\<lambda>F e. coded dbg F e s (fend g1) (fend g2))" "neststack g2 = n # N"
      "jmp_addr g2 = addrs (h # hs) @ moved N A w1"
    using stmt_okD [OF s run(2) r1 h(3) br_frame_ok [OF fr] h(2) A(2)] .
  have r2: "ready lp w1 g2" using emits_ready [OF b(1) r1] .
  have hl2: "holes g2 (h # hs)" "w1 \<notin> set (h # hs)" using holes_keep [OF b(1) f1 hl(1,2)] by simp_all
  obtain w2 where d: "emits lp (set (h # hs)) {} g2 w1 g' w2 (\<lambda>F e. filled dbg F e br (h # hs) (fend g2) (fend g'))"
      "neststack g' = N" "jmp_addr g' = moved N (moved N A w1) w2"
    using branches_okD [OF br run(3) r2 b(2) fr b(3) pending_moved [OF A(2)] hl2] .
  have e: "emits lp {} {h} g w g2 w1 (\<lambda>F e. (\<forall>a. F h = Some (LJmp JMP_FALSE_OP a) \<longrightarrow> cond_at dbg F c (fend g) a (fend g1))
      \<and> coded dbg F e s (fend g1) (fend g2))"
    by (rule emits_seq [OF h(1) b(1)]) auto
  have "emits lp (set hs) {} g w g' w2 (\<lambda>F e. (\<exists>a l m. cond_at dbg F c (fend g) a l \<and> coded dbg F e s l m \<and> coded_br dbg F e br a m (fend g'))
    \<and> (\<forall>pj\<in>set hs. \<exists>j. F pj = Some (LJmp JUMP_OP j) \<and> leads F j (fend g')))"
    by (rule emits_seq [OF e d(1)]) (use hl hl2 h(5) in fastforce)+
  then show ?thesis unfolding closes_def using d by auto
qed

lemma stmt_seq: "stmt_ok isf dbg s \<Longrightarrow> stmt_ok isf dbg r \<Longrightarrow> stmt_ok isf dbg (SSeq s r)"
  unfolding stmt_ok_def
proof (intro allI impI)
  fix lp w g g' assume s: "\<forall>lp w g g'. ec_seq isf dbg (lines_of s) g = (Inr (), g') \<longrightarrow> ready lp w g
      \<longrightarrow> pending lp w (neststack g) (jmp_addr g) \<longrightarrow> compiles lp w g g' (\<lambda>F e. coded dbg F e s (fend g) (fend g'))"
    and t: "\<forall>lp w g g'. ec_seq isf dbg (lines_of r) g = (Inr (), g') \<longrightarrow> ready lp w g
      \<longrightarrow> pending lp w (neststack g) (jmp_addr g) \<longrightarrow> compiles lp w g g' (\<lambda>F e. coded dbg F e r (fend g) (fend g'))"
    and run: "ec_seq isf dbg (lines_of (SSeq s r)) g = (Inr (), g')" and rd: "ready lp w g" and p: "pending lp w (neststack g) (jmp_addr g)"
  obtain g1 where g1: "ec_seq isf dbg (lines_of s) g = (Inr (), g1)" "ec_seq isf dbg (lines_of r) g1 = (Inr (), g')"
    using run ec_seq_appE by (metis lines_of.simps(2))
  have "compiles lp w g g1 (\<lambda>F e. coded dbg F e s (fend g) (fend g1))" using s g1(1) rd p by blast
  then have "compiles lp w g g' (\<lambda>F e. coded dbg F e s (fend g) (fend g1) \<and> coded dbg F e r (fend g1) (fend g'))"
    by (rule compiles_seq) (use t g1(2) emits_ready rd p in blast)+
  then show "compiles lp w g g' (\<lambda>F e. coded dbg F e (SSeq s r) (fend g) (fend g'))"
    by (rule compiles_mono) auto
qed

lemma closes_mono:
  assumes "closes lp w N A H g g' C" and "\<And>F e. C F e \<Longrightarrow> D F e"
  shows "closes lp w N A H g g' D"
  using assms emits_mono unfolding closes_def by meson

lemma closes_from:
  assumes "closes lp w N A H g1 g' C" and "outf g = outf g1" and "fend g = fend g1" and "do_list g = do_list g1"
  shows "closes lp w N A H g g' C"
  using assms emits_from unfolding closes_def by meson

lemma ready_nest [simp]: "ready lp w (g\<lparr>neststack := N\<rparr>) = ready lp w g"
  by (simp add: ready_def file_ok_def)

lemma jump_nest [simp]: "jump_at (g\<lparr>neststack := N\<rparr>) = jump_at g"
  by (simp add: jump_at_def fun_eq_iff)

lemma holes_nest [simp]: "holes (g\<lparr>neststack := N\<rparr>) hs = holes g hs"
  by (cases "(g, hs)" rule: holes.cases) auto

lemma branches_end: "branches_ok isf dbg BEnd"
  unfolding branches_ok_def
proof (intro allI impI)
  fix cs lp w g g' hs n N A
  assume run: "ec_seq isf dbg (br_lines BEnd cs) g = (Inr (), g')" and h: "ready lp w g" "neststack g = n # N" "br_frame cs (length hs) n"
    "jmp_addr g = addrs hs @ A" "pending lp w N A" "holes g hs" "w \<notin> set hs"
  have "ec_line isf dbg (if cs then LEndcase else LEndif) g = (Inr (), g')" using run by (simp only: br_lines.simps ec_seq_one)
  then obtain g1 where g1: "close_with hs mod_addr g = (Inr (), g1)" "g' = g1\<lparr>neststack := tl (neststack g1)\<rparr>"
    using line_end h(2,3) by blast
  note l = last_branch [OF g1(1) h(6,7,1,4)]
  have "emits lp (set hs) {} g w g' w (\<lambda>F e. filled dbg F e BEnd hs (fend g) (fend g'))"
    using emits_same [OF l(1), of g'] g1(2) l(4) by simp
  then show "closes lp w N A (set hs) g g' (\<lambda>F e. filled dbg F e BEnd hs (fend g) (fend g'))"
    unfolding closes_def using g1(2) l(2,3) h(2) moved_same [OF h(5)] by auto
qed

lemma branches_else:
  assumes s: "stmt_ok isf dbg s"
  shows "branches_ok isf dbg (BElse s)"
  unfolding branches_ok_def
proof (intro allI impI)
  fix cs lp w g g' hs n N A
  assume run: "ec_seq isf dbg (br_lines (BElse s) cs) g = (Inr (), g')" and h: "ready lp w g" "neststack g = n # N" "br_frame cs (length hs) n"
    "jmp_addr g = addrs hs @ A" "pending lp w N A" "holes g hs" "w \<notin> set hs"
  let ?n = "entry (if cs then OTHERWISE_CTL else ELSE_CTL) False (cs \<and> hs \<noteq> [])"
  obtain g2 g3 where r: "ec_line isf dbg (if cs then LOtherwise else LElse) g = (Inr (), g2)" "ec_seq isf dbg (lines_of s) g2 = (Inr (), g3)"
      "ec_line isf dbg (if cs then LEndcase else LEndif) g3 = (Inr (), g')"
    using run unfolding br_lines.simps by (metis ec_seq_ConsE ec_seq_appE ec_seq_one)
  obtain g1 where g1: "close_with hs jmp_codegen g = (Inr (), g1)"
      "neststack g1 = neststack g \<Longrightarrow> g2 = g1\<lparr>neststack := ?n # N\<rparr>"
    using line_else [OF r(1) h(2,3)] by blast
  show "closes lp w N A (set hs) g g' (\<lambda>F e. filled dbg F e (BElse s) hs (fend g) (fend g'))"
  proof (cases "hs = []")
    case True
    then have g1': "g1 = g" "cs" using g1(1) h(3) by (auto simp: close_with_def br_frame_def cm_simps split: if_splits)
    then have g2: "g2 = g\<lparr>neststack := ?n # N\<rparr>" using g1(2) by simp
    have fr: "frame_ok ?n (length ([] :: nat list))" using g1' True by (simp add: frame_ok_def)
    obtain w' where b: "emits lp {} {} g2 w g3 w' (\<lambda>F e. coded dbg F e s (fend g2) (fend g3))" "neststack g3 = ?n # N"
        "jmp_addr g3 = moved N A w'"
      by (rule stmt_okD [OF s r(2) _ _ fr _ h(5)]) (use g2 h(1,4) True in auto)
    have "g' = g3\<lparr>neststack := N\<rparr>" using r(3) b(2) True g1'(2)
      by (simp add: line_simps crntlevel_def flag_def poplevel_def cm_simps)
    then have "closes lp w N A {} g g' (\<lambda>F e. coded dbg F e s (fend g2) (fend g3))"
      unfolding closes_def using b(3) emits_from [OF emits_same [OF b(1)], of g' g] g2 by auto
    then show ?thesis using True g2 \<open>g' = g3\<lparr>neststack := N\<rparr>\<close> by simp
  next
    case False
    note l = next_branch [OF g1(1) h(6) False h(7,1,4)]
    have g2: "g2 = g1\<lparr>neststack := ?n # N\<rparr>" using g1(2) l(3) by simp
    have e1: "emits lp (set hs) {fend g} g w g2 w (\<lambda>F e. F (hd hs) = Some (LJmp JMP_FALSE_OP (int (fend g + 6)))
      \<and> (\<forall>pj\<in>set (tl hs). F pj = Some (LJmp JUMP_OP (int (fend g)))))"
      using emits_same [OF l(1), of g2] g2 by simp
    have r2: "ready lp w g2" using emits_ready [OF e1 h(1)] .
    have fr: "frame_ok ?n (length [fend g])" using False by (simp add: frame_ok_def)
    obtain w' where b: "emits lp {} {} g2 w g3 w' (\<lambda>F e. coded dbg F e s (fend g2) (fend g3))" "neststack g3 = ?n # N"
        "jmp_addr g3 = addrs [fend g] @ moved N A w'"
      by (rule stmt_okD [OF s r(2) r2 _ fr _ h(5)]) (use g2 l(2) in auto)
    have r3: "ready lp w' g3" using emits_ready [OF b(1) r2] .
    have f: "fend g2 = fend g + 6" using l(4) g2 by simp
    have j: "outf g3 (fend g) = outf g2 (fend g)" "fend g \<noteq> w'"
      using emits_old [OF b(1), of "fend g"] f h(1) by (auto simp: ready_def)
    then obtain a where a: "outf g3 (fend g) = Some (LJmp JUMP_OP a)" using l(5) g2 by (auto simp: jump_at_def)
    have m: "mod_addr g3 = (Inr (), g3\<lparr>jmp_addr := moved N A w', outf := (outf g3)(fend g \<mapsto> LJmp JUMP_OP (int (fend g3)))\<rparr>)"
      and e3: "emits lp {fend g} {} g3 w' (g3\<lparr>jmp_addr := moved N A w', outf := (outf g3)(fend g \<mapsto> LJmp JUMP_OP (int (fend g3)))\<rparr>) w'
        (\<lambda>F e. F (fend g) = Some (LJmp JUMP_OP (int (fend g3))))"
      using step_mod_addr [where g = g3 and w = w' and h = "fend g", OF _ _ _ a j(2)] r3 b(3) by (auto simp: ready_def)
    have g': "g' = g3\<lparr>jmp_addr := moved N A w', outf := (outf g3)(fend g \<mapsto> LJmp JUMP_OP (int (fend g3))), neststack := N\<rparr>"
      using r(3) b(2) m False by (cases cs) (simp_all add: line_simps crntlevel_def flag_def poplevel_def cm_simps)
    have e12: "emits lp (set hs) {fend g} g w g3 w' (\<lambda>F e. (F (hd hs) = Some (LJmp JMP_FALSE_OP (int (fend g + 6)))
      \<and> (\<forall>pj\<in>set (tl hs). F pj = Some (LJmp JUMP_OP (int (fend g))))) \<and> coded dbg F e s (fend g2) (fend g3))"
      by (rule emits_seq [OF e1 b(1)]) auto
    have e4: "emits lp {fend g} {} g3 w' g' w' (\<lambda>F e. F (fend g) = Some (LJmp JUMP_OP (int (fend g3))))"
      using emits_same [OF e3, of g'] g' by simp
    obtain pf pjs where hs: "hs = pf # pjs" using False by (cases hs) auto
    have below: "\<And>x. x \<in> set hs \<Longrightarrow> x < fend g" using holes_below h(1,6) by (auto simp: ready_def)
    have "emits lp (set hs) {} g w g' w' (\<lambda>F e. filled dbg F e (BElse s) hs (fend g) (fend g'))"
    proof (rule emits_seq [OF e12 e4])
      show "{fend g} \<inter> {fend g..<fend g3} \<subseteq> {fend g}" by auto
      show "set hs \<inter> {fend g} = {}" using below by auto
      show "w \<notin> {fend g}" using h(1) by (auto simp: ready_def)
      show "set hs = set hs \<union> {fend g} \<inter> {..<fend g}" by auto
      show "{} = {fend g} - {fend g} \<union> {}" by auto
      fix F e assume c: "(F (hd hs) = Some (LJmp JMP_FALSE_OP (int (fend g + 6)))
          \<and> (\<forall>pj\<in>set (tl hs). F pj = Some (LJmp JUMP_OP (int (fend g))))) \<and> coded dbg F e s (fend g2) (fend g3)"
        and d: "F (fend g) = Some (LJmp JUMP_OP (int (fend g3)))"
      have "leads F (int (fend g)) (fend g3)" using d leads_here by (rule leads_hop)
      then show "filled dbg F e (BElse s) hs (fend g) (fend g')" using c d f g' hs leads_here by auto
    qed
    then show ?thesis unfolding closes_def using g' by auto
  qed
qed

lemma branches_when:
  assumes s: "stmt_ok isf dbg s" and br: "branches_ok isf dbg br" and c: "runnable dbg c"
  shows "branches_ok isf dbg (BWhen c s br)"
  unfolding branches_ok_def
proof (intro allI impI)
  fix cs lp w g g' hs n N A
  assume run: "ec_seq isf dbg (br_lines (BWhen c s br) cs) g = (Inr (), g')" and h: "ready lp w g" "neststack g = n # N" "br_frame cs (length hs) n"
    "jmp_addr g = addrs hs @ A" "pending lp w N A" "holes g hs" "w \<notin> set hs"
  obtain g2 g3 where r: "ec_line isf dbg (if cs then LCase c else LElseif c) g = (Inr (), g2)" "ec_seq isf dbg (lines_of s) g2 = (Inr (), g3)"
      "ec_seq isf dbg (br_lines br cs) g3 = (Inr (), g')"
    using run unfolding br_lines.simps by (metis ec_seq_ConsE ec_seq_appE)
  obtain m g1 n' where n': "br_frame cs (if hs = [] then 1 else 2) n'"
    and g1: "close_with hs jmp_codegen (g\<lparr>neststack := m # N\<rparr>) = (Inr (), g1)"
    and c2: "neststack g1 = m # N \<Longrightarrow> cond_codegen dbg c (g1\<lparr>neststack := n' # N\<rparr>) = (Inr (), g2)"
    using line_when [OF r(1) h(2,3)] by blast
  show "closes lp w N A (set hs) g g' (\<lambda>F e. filled dbg F e (BWhen c s br) hs (fend g) (fend g'))"
  proof (cases "hs = []")
    case True
    then have g1': "g1 = g\<lparr>neststack := m # N\<rparr>" using g1 by (auto simp: close_with_def cm_simps)
    let ?g = "g\<lparr>neststack := n' # N\<rparr>"
    have "cond_codegen dbg c ?g = (Inr (), g2)" using c2 g1' by simp
    from when_tail [OF this r(2,3) s br c, of lp w n' N "[]" A]
    have "closes lp w N A {} ?g g' (\<lambda>F e. filled dbg F e (BWhen c s br) hs (fend g) (fend g'))"
      using n' h True by simp
    then show ?thesis using closes_from [of lp w N A "{}" ?g g' _ g] True by simp
  next
    case False
    let ?g = "g\<lparr>neststack := m # N\<rparr>" and ?g1 = "g1\<lparr>neststack := n' # N\<rparr>"
    have "holes ?g hs" "ready lp w ?g" "jmp_addr ?g = addrs hs @ A" using h by simp_all
    note l = next_branch [OF g1 this(1) False h(7) this(2,3)]
    have e1: "emits lp (set hs) {fend g} g w ?g1 w (\<lambda>F e. F (hd hs) = Some (LJmp JMP_FALSE_OP (int (fend g + 6)))
      \<and> (\<forall>pj\<in>set (tl hs). F pj = Some (LJmp JUMP_OP (int (fend g)))))"
      using emits_from [OF emits_same [OF l(1), of ?g1], of g] by simp
    have r1: "ready lp w ?g1" using emits_ready [OF e1 h(1)] .
    have w: "w < fend g" using h(1) by (simp add: ready_def)
    have "cond_codegen dbg c ?g1 = (Inr (), g2)" using c2 l(3) by simp
    from when_tail [OF this r(2,3) s br c r1, of n' N "[fend g]" A]
    have "closes lp w N A {fend g} ?g1 g' (\<lambda>F e. (\<exists>a l m. cond_at dbg F c (fend g + 6) a l \<and> coded dbg F e s l m \<and> coded_br dbg F e br a m (fend g'))
        \<and> (\<exists>j. F (fend g) = Some (LJmp JUMP_OP j) \<and> leads F j (fend g')))"
      using n' h(5) False l(2,4,5) w by (simp add: numeral_2_eq_2)
    then obtain w' where e2: "emits lp {fend g} {} ?g1 w g' w' (\<lambda>F e. (\<exists>a l m. cond_at dbg F c (fend g + 6) a l \<and> coded dbg F e s l m \<and> coded_br dbg F e br a m (fend g'))
        \<and> (\<exists>j. F (fend g) = Some (LJmp JUMP_OP j) \<and> leads F j (fend g')))" "neststack g' = N" "jmp_addr g' = moved N A w'"
      unfolding closes_def by blast
    obtain pf pjs where hs: "hs = pf # pjs" using False by (cases hs) auto
    have below: "\<And>x. x \<in> set hs \<Longrightarrow> x < fend g" using holes_below h(1,6) by (auto simp: ready_def)
    have "emits lp (set hs) {} g w g' w' (\<lambda>F e. filled dbg F e (BWhen c s br) hs (fend g) (fend g'))"
    proof (rule emits_seq [OF e1 e2(1)])
      show "set hs \<inter> {fend g} = {}" using below by auto
      fix F e assume c: "F (hd hs) = Some (LJmp JMP_FALSE_OP (int (fend g + 6))) \<and> (\<forall>pj\<in>set (tl hs). F pj = Some (LJmp JUMP_OP (int (fend g))))"
        and d: "(\<exists>a l m. cond_at dbg F c (fend g + 6) a l \<and> coded dbg F e s l m \<and> coded_br dbg F e br a m (fend g'))
          \<and> (\<exists>j. F (fend g) = Some (LJmp JUMP_OP j) \<and> leads F j (fend g'))"
      have "leads F (int (fend g)) (fend g')" using d leads_hop by blast
      then show "filled dbg F e (BWhen c s br) hs (fend g) (fend g')" using c d hs by auto
    qed (use w in auto)
    then show ?thesis unfolding closes_def using e2(2,3) by blast
  qed
qed

lemma stmt_if:
  assumes s: "stmt_ok isf dbg s" and br: "branches_ok isf dbg br" and c: "runnable dbg c"
  shows "stmt_ok isf dbg (SIf c s br)"
  unfolding stmt_ok_def
proof (intro allI impI)
  fix lp w g g'
  assume run: "ec_seq isf dbg (lines_of (SIf c s br)) g = (Inr (), g')" and h: "ready lp w g" "pending lp w (neststack g) (jmp_addr g)"
  let ?n = "entry IF_CTL False False"
  let ?g = "g\<lparr>neststack := ?n # neststack g\<rparr>"
  obtain g1 g2 where r: "ec_line isf dbg (LIf c) g = (Inr (), g1)" "ec_seq isf dbg (lines_of s) g1 = (Inr (), g2)"
      "ec_seq isf dbg (br_lines br False) g2 = (Inr (), g')"
    using run unfolding lines_of.simps by (metis ec_seq_ConsE ec_seq_appE)
  have "cond_codegen dbg c ?g = (Inr (), g1)"
    using r(1) pushlevel_ok by (auto simp: line_simps elim!: bnd_InrE)
  from when_tail [OF this r(2,3) s br c, of lp w ?n "neststack g" "[]" "jmp_addr g"]
  have "closes lp w (neststack g) (jmp_addr g) {} ?g g' (\<lambda>F e. coded dbg F e (SIf c s br) (fend g) (fend g'))"
    using h by (simp add: br_frame_def)
  then have "closes lp w (neststack g) (jmp_addr g) {} g g' (\<lambda>F e. coded dbg F e (SIf c s br) (fend g) (fend g'))"
    by (rule closes_from) simp_all
  then show "compiles lp w g g' (\<lambda>F e. coded dbg F e (SIf c s br) (fend g) (fend g'))"
    by (simp add: compiles_def closes_def)
qed

lemma stmt_case:
  assumes s: "stmt_ok isf dbg s" and br: "branches_ok isf dbg br"
  shows "stmt_ok isf dbg (SCase s br)"
  unfolding stmt_ok_def
proof (intro allI impI)
  fix lp w g g'
  assume run: "ec_seq isf dbg (lines_of (SCase s br)) g = (Inr (), g')" and h: "ready lp w g" "pending lp w (neststack g) (jmp_addr g)"
  let ?n = "entry CASE_CTL False False"
  let ?g = "g\<lparr>neststack := ?n # neststack g\<rparr>"
  obtain g1 g2 where r: "ec_line isf dbg LDoCase g = (Inr (), g1)" "ec_seq isf dbg (lines_of s) g1 = (Inr (), g2)"
      "ec_seq isf dbg (br_lines br True) g2 = (Inr (), g')"
    using run unfolding lines_of.simps by (metis ec_seq_ConsE ec_seq_appE)
  have g1: "g1 = ?g" using r(1) pushlevel_ok by (auto simp: line_simps)
  have fr: "br_frame True (length ([] :: nat list)) ?n" by (simp add: br_frame_def)
  obtain w1 where b: "emits lp {} {} ?g w g2 w1 (\<lambda>F e. coded dbg F e s (fend ?g) (fend g2))" "neststack g2 = ?n # neststack g"
      "jmp_addr g2 = addrs [] @ moved (neststack g) (jmp_addr g) w1"
    by (rule stmt_okD [OF s r(2) [unfolded g1] _ _ br_frame_ok [OF fr] _ h(2)]) (use h(1) in auto)
  have r2: "ready lp w1 g2" using emits_ready [OF b(1)] h(1) by simp
  obtain w2 where d: "emits lp (set []) {} g2 w1 g' w2 (\<lambda>F e. filled dbg F e br [] (fend g2) (fend g'))"
      "neststack g' = neststack g" "jmp_addr g' = moved (neststack g) (moved (neststack g) (jmp_addr g) w1) w2"
    by (rule branches_okD [OF br r(3) r2 b(2) fr b(3) pending_moved [OF h(2)]]) simp_all
  have "emits lp {} {} ?g w g' w2 (\<lambda>F e. coded dbg F e (SCase s br) (fend g) (fend g'))"
    by (rule emits_seq [OF b(1) d(1)]) auto
  then have "emits lp {} {} g w g' w2 (\<lambda>F e. coded dbg F e (SCase s br) (fend g) (fend g'))"
    by (rule emits_from) simp_all
  then show "compiles lp w g g' (\<lambda>F e. coded dbg F e (SCase s br) (fend g) (fend g'))"
    unfolding compiles_def using d by auto
qed

lemma stmt_while:
  assumes s: "stmt_ok isf dbg s" and c: "runnable dbg c"
  shows "stmt_ok isf dbg (SWhile c s)"
  unfolding stmt_ok_def
proof (intro allI impI)
  fix lp w g g'
  assume run: "ec_seq isf dbg (lines_of (SWhile c s)) g = (Inr (), g')" and r: "ready lp w g" and p: "pending lp w (neststack g) (jmp_addr g)"
  let ?n = "entry WHILE_CTL False False" and ?N = "neststack g" and ?A = "jmp_addr g"
  let ?g = "g\<lparr>neststack := ?n # ?N, jmp_addr := int (fend g) # ?A\<rparr>"
  obtain g1 g2 where l: "ec_line isf dbg (LWhile c) g = (Inr (), g1)" "ec_seq isf dbg (lines_of s) g1 = (Inr (), g2)"
      "ec_line isf dbg LEnddo g2 = (Inr (), g')"
    using run unfolding lines_of.simps by (metis ec_seq_ConsE ec_seq_appE ec_seq_one)
  have cc: "cond_codegen dbg c ?g = (Inr (), g1)"
    using l(1) by (auto simp: line_simps ftell_def getst_app elim!: bnd_InrE dest!: pushlevel_ok push_addr_ok)
  have fg: "file_ok ?g" "w < fend ?g" using r by (simp_all add: ready_def file_ok_def)
  obtain h where h: "emits lp {} {h} ?g w g1 w (\<lambda>F e. \<forall>a. F h = Some (LJmp JMP_FALSE_OP a) \<longrightarrow> cond_at dbg F c (fend ?g) a (fend g1))"
      "jmp_addr g1 = (int h + 2) # int (fend g) # ?A" "neststack g1 = ?n # ?N" "outf g1 h = Some (LJmp JMP_FALSE_OP PLACE_HOLDER)"
    using step_cond [where lp = lp, OF fg c cc] by auto
  have r1: "ready True h g1" using emits_fend [OF h(1)] ok_below [OF _ h(4)] h(4) by (auto simp: ready_def)
  have "pending True h (neststack g1) (jmp_addr g1)" by (simp add: pending_def h)
  then obtain h' where b: "emits True {} {} g1 h g2 h' (\<lambda>F e. coded dbg F e s (fend g1) (fend g2))" "neststack g2 = ?n # ?N"
      "jmp_addr g2 = (int h' + 2) # int (fend g) # ?A"
    using s l(2) r1 h(2,3) unfolding stmt_ok_def compiles_def by (fastforce simp: moved_def)
  from emits_loop [OF emits_from [OF h(1), of g] b(1) h(4)] obtain jc x
    where o: "outf g2 h' = Some (LJmp jc x)"
      and e: "emits lp {} {h'} g w g2 w (\<lambda>F e. (\<forall>a. F h = Some (LJmp JMP_FALSE_OP a) \<longrightarrow> cond_at dbg F c (fend g) a (fend g1))
        \<and> (\<forall>q y. F h' = Some (LJmp jc y) \<longrightarrow> leads F y q \<longrightarrow>
          coded dbg F q s (fend g1) (fend g2) \<and> (\<exists>y. F h = Some (LJmp JMP_FALSE_OP y) \<and> leads F y q)))"
    by auto
  let ?it = "LJmp JUMP_OP (int (fend g))" and ?g2 = "g2\<lparr>neststack := ?N, jmp_addr := (int h' + 2) # ?A\<rparr>"
  let ?g3 = "putting ?it ?g2"
  have sz: "item_sz ?it = 6" by (simp add: item_sz_def)
  have r2: "ready lp w g2" using emits_ready [OF e r] .
  have "emits lp {} {} ?g2 w ?g3 w (\<lambda>F e. F (fend ?g2) = Some ?it)"
    using r2 sz by (intro emits_put) (simp_all add: ready_def file_ok_def)
  then have "emits lp {} {} g2 w ?g3 w (\<lambda>F e. F (fend ?g2) = Some ?it)" by (rule emits_from) simp_all
  then have e2: "emits lp {} {} g2 w ?g3 w (\<lambda>F e. F (fend g2) = Some ?it)" by (rule emits_mono) simp
  have hl: "h' < fend g2" "h' \<noteq> w" using ok_below [OF _ o] r2 e by (auto simp: ready_def emits_def)
  have r3: "ready lp w ?g3" using emits_ready [OF e2 r2] .
  note m = step_mod_addr [where g = ?g3 and w = w and h = h' and jc = jc and J = ?A and b = x]
  let ?g4 = "?g3\<lparr>jmp_addr := ?A, outf := (outf ?g3)(h' \<mapsto> LJmp jc (int (fend ?g3)))\<rparr>"
  have m1: "mod_addr ?g3 = (Inr (), ?g4)" and e3: "emits lp {h'} {} ?g3 w ?g4 w (\<lambda>F e. F h' = Some (LJmp jc (int (fend ?g3))))"
    using m r3 hl o by (simp_all add: ready_def)
  have "bnd (push_addr (int h' + 2)) (\<lambda>_. mod_addr) (putting ?it (g2\<lparr>neststack := ?N, jmp_addr := ?A\<rparr>)) = (Inr (), g')"
    using l(3) b(2,3) by (simp add: line_simps crntlevel_def poplevel_def pop_addr_def cgen_ljmp_def put_app modst_app bnd_assoc bnd_app [of "modst _"]
      bnd_app [of "put_item _"])
  then obtain u where u: "push_addr (int h' + 2) (putting ?it (g2\<lparr>neststack := ?N, jmp_addr := ?A\<rparr>)) = (Inr (), u)" "mod_addr u = (Inr (), g')"
    by (auto elim: bnd_InrE)
  have "u = ?g3" using push_addr_ok [OF u(1)] by simp
  then have "mod_addr ?g3 = (Inr (), g')" using u(2) by simp
  then have g': "g' = ?g4" using m1 by simp
  have e23: "emits lp {h'} {} g2 w g' w (\<lambda>F e. F (fend g2) = Some ?it \<and> F h' = Some (LJmp jc (int (fend g2 + 6))))"
    unfolding g' by (rule emits_seq [OF e2 e3]) (use hl sz in auto)
  have "emits lp {} {} g w g' w (\<lambda>F e. coded dbg F e (SWhile c s) (fend g) (fend g'))"
  proof (rule emits_seq [OF e e23])
    fix F e assume c: "(\<forall>a. F h = Some (LJmp JMP_FALSE_OP a) \<longrightarrow> cond_at dbg F c (fend g) a (fend g1))
        \<and> (\<forall>q y. F h' = Some (LJmp jc y) \<longrightarrow> leads F y q \<longrightarrow>
          coded dbg F q s (fend g1) (fend g2) \<and> (\<exists>y. F h = Some (LJmp JMP_FALSE_OP y) \<and> leads F y q))"
      and d: "F (fend g2) = Some ?it \<and> F h' = Some (LJmp jc (int (fend g2 + 6)))"
    have f: "fend g' = fend g2 + 6" using g' sz by simp
    have "leads F (int (fend g2 + 6)) (fend g')" unfolding f by (rule leads_here)
    then obtain y where "coded dbg F (fend g') s (fend g1) (fend g2)" "F h = Some (LJmp JMP_FALSE_OP y)" "leads F y (fend g')"
      using c d by blast
    then show "coded dbg F e (SWhile c s) (fend g) (fend g')" using c d f by auto
  qed (use e hl in \<open>auto simp: emits_def\<close>)
  then show "compiles lp w g g' (\<lambda>F e. coded dbg F e (SWhile c s) (fend g) (fend g'))"
    by (rule compiles_same [OF _ p]) (use g' b in simp_all)
qed

theorem compiled:
  shows "sized dbg s \<longrightarrow> stmt_ok isf dbg s" and "sized_br dbg br \<longrightarrow> branches_ok isf dbg br"
proof (induction s and br)
  case SNop
  show ?case unfolding stmt_ok_def ready_def by (auto simp: cm_simps intro!: compiles_same emits_keep)
next
  case (SBlock b)
  show ?case unfolding stmt_ok_def by (simp only: lines_of.simps ec_seq_one sized.simps) (blast intro: line_block)
next
  case SExit
  show ?case unfolding stmt_ok_def by (simp only: lines_of.simps ec_seq_one) (blast intro: line_exit)
next
  case (SReturn b)
  show ?case unfolding stmt_ok_def
    by (simp only: lines_of.simps ec_seq_one sized.simps) (intro allI impI line_return, auto)
qed (auto intro: stmt_seq stmt_if stmt_while stmt_case branches_end branches_else branches_when)

section \<open>Procedures\<close>

definition is_head :: "line \<Rightarrow> bool" where
  "is_head l \<longleftrightarrow> (\<exists>isf name. l = LHead isf name)"

definition body_of :: "stmt \<Rightarrow> line list \<Rightarrow> bool" where
  \<comment> \<open>the lines are those of the statement, with empty lines and comments anywhere\<close>
  "body_of s ls \<longleftrightarrow> filter (\<lambda>l. l \<noteq> LNull \<and> l \<noteq> LComment) ls = lines_of s"

lemma lines_no_head:
  shows "l \<in> set (lines_of s) \<longrightarrow> \<not> is_head l" and "l \<in> set (br_lines br cs) \<longrightarrow> \<not> is_head l"
  by (induction s and br arbitrary: and cs) (auto simp: is_head_def)

lemma body_no_head: "body_of s ls \<Longrightarrow> l \<in> set ls \<Longrightarrow> \<not> is_head l"
proof -
  assume "body_of s ls" "l \<in> set ls"
  then have "l = LNull \<or> l = LComment \<or> l \<in> set (lines_of s)" by (auto simp: body_of_def dest!: arg_cong [of _ _ set])
  then show "\<not> is_head l" using lines_no_head(1) by (auto simp: is_head_def)
qed

lemma ec_lines_body:
  assumes "\<And>l. l \<in> set ls \<Longrightarrow> \<not> is_head l"
  shows "\<exists>seen'. ec_lines type dbg seen (ls @ rest) = bnd (ec_seq (type = PRG_FUNC) dbg ls) (\<lambda>_. ec_lines type dbg seen' rest)"
  using assms
proof (induction ls arbitrary: seen)
  case (Cons l ls)
  let ?seen = "seen \<or> (case l of LReturn _ \<Rightarrow> True | _ \<Rightarrow> False)"
  obtain s where "ec_lines type dbg ?seen (ls @ rest) = bnd (ec_seq (type = PRG_FUNC) dbg ls) (\<lambda>_. ec_lines type dbg s rest)"
    using Cons.IH Cons.prems by fastforce
  moreover have "ec_lines type dbg seen ((l # ls) @ rest) = bnd (ec_line (type = PRG_FUNC) dbg l) (\<lambda>_. ec_lines type dbg ?seen (ls @ rest))"
    using Cons.prems [of l] by (cases l) (simp_all add: is_head_def)
  ultimately have "ec_lines type dbg seen ((l # ls) @ rest) = bnd (ec_seq (type = PRG_FUNC) dbg (l # ls)) (\<lambda>_. ec_lines type dbg s rest)"
    by (simp only: bnd_assoc ec_seq.simps)
  then show ?case by blast
qed (simp, blast)

lemma ec_lines_stop:
  assumes "rest = [] \<or> is_head (hd rest)" and "ec_lines type dbg seen rest g = (Inr rest', g')"
  shows "rest' = rest \<and> g' = g"
  using assms by (cases rest) (auto simp: is_head_def cm_simps split: list.splits if_splits)

lemma ec_compiled:
  assumes run: "ec type dbg (ls @ rest) g = (Inr rest', g')" and b: "body_of s ls" and rest: "rest = [] \<or> is_head (hd rest)"
    and s: "sized dbg s" and g: "file_ok g"
  shows "\<exists>q. rest' = rest \<and> fend g \<le> q \<and> fend g' = q + 2 \<and> file_ok g' \<and> do_list g' = do_list g \<and> (\<forall>x<fend g. outf g' x = outf g x)
    \<and> (\<forall>F e. (\<forall>x. fend g \<le> x \<longrightarrow> x < fend g' \<longrightarrow> F x = outf g' x) \<longrightarrow> coded dbg F e s (fend g) q \<and> F q = Some (LJmp RETURN_OP 0))"
proof -
  let ?g = "g\<lparr>neststack := []\<rparr>" and ?it = "LJmp RETURN_OP 0"
  obtain seen where e: "ec_lines type dbg False (ls @ rest) = bnd (ec_seq (type = PRG_FUNC) dbg ls) (\<lambda>_. ec_lines type dbg seen rest)"
    using ec_lines_body body_no_head [OF b] by blast
  have "bnd (ec_seq (type = PRG_FUNC) dbg ls) (\<lambda>_. bnd (ec_lines type dbg seen rest) (\<lambda>rest. bnd (cgen_ljmp RETURN_OP 0) (\<lambda>_. ret rest))) ?g = (Inr rest', g')"
    using run unfolding ec_def e by (simp add: bnd_assoc bnd_app [of "modst _"] modst_app)
  then obtain g1 where 1: "ec_seq (type = PRG_FUNC) dbg ls ?g = (Inr (), g1)"
      "bnd (ec_lines type dbg seen rest) (\<lambda>rest. bnd (cgen_ljmp RETURN_OP 0) (\<lambda>_. ret rest)) g1 = (Inr rest', g')"
    by (auto elim: bnd_InrE)
  obtain r g2 where 2: "ec_lines type dbg seen rest g1 = (Inr r, g2)" "bnd (cgen_ljmp RETURN_OP 0) (\<lambda>_. ret r) g2 = (Inr rest', g')"
    using 1(2) by (auto elim: bnd_InrE)
  have r: "r = rest" "g2 = g1" using ec_lines_stop [OF rest 2(1)] by simp_all
  have g': "rest' = rest" "g' = putting ?it g1" using 2(2) r by (auto simp: cgen_ljmp_def put_app cm_simps)
  have "ec_seq (type = PRG_FUNC) dbg (lines_of s) ?g = (Inr (), g1)" using 1(1) b ec_seq_blank by (metis body_of_def)
  moreover have "ready False 0 ?g" "pending False 0 (neststack ?g) (jmp_addr ?g)" using g by (simp_all add: ready_def file_ok_def pending_def)
  ultimately have "compiles False 0 ?g g1 (\<lambda>F e. coded dbg F e s (fend g) (fend g1))"
    using compiled(1) s unfolding stmt_ok_def by fastforce
  then obtain w where w: "emits False {} {} ?g 0 g1 w (\<lambda>F e. coded dbg F e s (fend g) (fend g1))"
    unfolding compiles_def by blast
  then have w0: "w = 0" "fend g \<le> fend g1" "file_ok g1" "do_list g1 = do_list g" "\<And>x. x < fend g \<Longrightarrow> outf g1 x = outf g x"
    and c: "\<And>F e. fits False F {} {} ?g 0 g1 0 \<Longrightarrow> coded dbg F e s (fend g) (fend g1)"
    unfolding emits_def by (auto; metis)+
  have sz: "item_sz ?it = 2" by (simp add: item_sz_def)
  have "coded dbg F e s (fend g) (fend g1) \<and> F (fend g1) = Some (LJmp RETURN_OP 0)"
    if F: "\<forall>x. fend g \<le> x \<longrightarrow> x < fend g' \<longrightarrow> F x = outf g' x" for F e
  proof -
    have "fits False F {} {} ?g 0 g1 0" unfolding fits_def using F by (auto simp: g' sz)
    moreover have "F (fend g1) = Some ?it" using F w0(2) by (simp add: g' sz)
    ultimately show ?thesis using c by blast
  qed
  then show ?thesis using w0 by (intro exI [of _ "fend g1"]) (simp add: g' sz file_ok_def)
qed

definition run_body :: "'r rops \<Rightarrow> nat \<Rightarrow> stmt \<Rightarrow> ('r, int) rm" where
  \<comment> \<open>what a called procedure does: its statement, and the way back\<close>
  "run_body R k s = bnd (on_mch (sem R k s)) (\<lambda>r. go_back R (r = Returned True))"

lemma exec_return:
  assumes "F p = Some (LJmp (if f then FCNRTN_OP else RETURN_OP) 0)"
  shows "exec_step R F p = bnd (go_back R f) target"
  using assms by (rule_tac ext) (auto simp: exec_step_def split: if_splits)

lemma start: "bnd (\<lambda>t. case m (mch t) of (r, w) \<Rightarrow> (r, t\<lparr>mch := w\<rparr>)) f t
    = (case m (mch t) of (Inl x, w) \<Rightarrow> (Inl x, t\<lparr>mch := w\<rparr>) | (Inr r, w) \<Rightarrow> f r (t\<lparr>mch := w\<rparr>))"
  by (simp add: bnd_app split: prod.split sum.split)

lemma procedure_code_runs:
  assumes c: "coded dbg F q s p q" and F: "F q = Some (LJmp RETURN_OP 0)" and t: "\<not> escape t"
    and n: "fst (sem R k s (mch t)) \<noteq> Inl NoFuel"
  shows "\<exists>n. \<forall>j. exec_code R F (n + j) p t
    = bnd (run_body R k s) (\<lambda>a. bnd (target a) (\<lambda>b. case b of None \<Rightarrow> ret () | Some r \<Rightarrow> exec_code R F j r)) t"
proof -
  have e: "ends_as R F q p q t (sem R k s (mch t))"
    by (rule simulatedD [OF coded_simulated(1) [OF c] t])
  have goes: "\<exists>n. \<forall>j. exec_code R F (n + j) p t = bnd (bnd (go_back R f) target) (\<lambda>b. case b of None \<Rightarrow> ret () | Some r \<Rightarrow> exec_code R F j r) u"
    if r: "runs R F p t r u" and ret: "F r = Some (LJmp (if f then FCNRTN_OP else RETURN_OP) 0)" for r f u
  proof -
    obtain n where n: "\<And>j. exec_code R F (n + j) p t = exec_code R F j r u" using r unfolding runs_def by blast
    have "exec_code R F (Suc n + j) p t = bnd (bnd (go_back R f) target) (\<lambda>b. case b of None \<Rightarrow> ret () | Some r \<Rightarrow> exec_code R F j r) u" for j
      using n [of "Suc j"] exec_return [of F r f R, OF ret] by simp
    then show ?thesis by blast
  qed
  have F': "F q = Some (LJmp (if False then FCNRTN_OP else RETURN_OP) 0)" using F by simp
  show ?thesis
  proof (cases "sem R k s (mch t)" rule: ends_cases)
    case (fails x w)
    then have "stops R F p t x (t\<lparr>mch := w\<rparr>)" using e n by simp
    then show ?thesis unfolding stops_def using fails by (auto simp: run_body_def on_mch_def cm_simps)
  next
    case (falls w)
    have "runs R F p t q (t\<lparr>mch := w\<rparr>)" using e falls by simp
    from goes [OF this F'] show ?thesis using falls by (simp add: run_body_def on_mch_def bnd_assoc start)
  next
    case (breaks w)
    have "runs R F p t q (t\<lparr>mch := w\<rparr>)" using e breaks by simp
    from goes [OF this F'] show ?thesis using breaks by (simp add: run_body_def on_mch_def bnd_assoc start)
  next
    case (returns f w)
    then obtain r where "F r = Some (LJmp (if f then FCNRTN_OP else RETURN_OP) 0)" "runs R F p t r (t\<lparr>mch := w\<rparr>)" using e by auto
    then show ?thesis using goes [of r "t\<lparr>mch := w\<rparr>" f] returns by (simp add: run_body_def on_mch_def bnd_assoc start)
  qed
qed

section \<open>A program of one procedure\<close>

lemma namecmp_self:
  assumes "CHR ''*'' \<notin> set name" and "CHR ''?'' \<notin> set name"
  shows "namecmp name name (length name) ID_FNAME = 0"
proof -
  have "namecmp_loop ID_FNAME (length name) name name = 0"
    using assms by (induction name) (auto simp: chr0_def Let_def schar_def)
  then show ?thesis by (simp add: namecmp_def)
qed

lemma search_single:
  assumes "CHR ''*'' \<notin> set name" and "CHR ''?'' \<notin> set name"
  shows "proc_bin_srch [\<lparr>proc_name = name, ptype = ty, faddr = a\<rparr>] name 0 0 = Some 0"
  using namecmp_self [OF assms] by (subst proc_bin_srch.simps) simp

definition call_proc :: "'r rops \<Rightarrow> nat \<Rightarrow> stmt \<Rightarrow> nat \<Rightarrow> int \<Rightarrow> ('r, unit) rm" where
  \<comment> \<open>what calling a procedure at the address a with n parameters does\<close>
  "call_proc R k s n a =
     bnd (push_ret (- 1)) (\<lambda>_. bnd (push_call n a) (\<lambda>_. bnd (modst (\<lambda>t. t\<lparr>escape := False\<rparr>)) (\<lambda>_.
     bnd (run_body R k s) (\<lambda>_. ret ()))))"

lemma on_mch_keeps: "on_mch m t = (r, u) \<Longrightarrow> \<exists>w. u = t\<lparr>mch := w\<rparr>"
  by (auto simp: on_mch_def split: prod.splits)

lemma go_back_address:
  assumes "go_back R f t = (Inr a, u)"
  shows "\<exists>as. ret_addr t = a # as"
proof -
  have *: "ret_addr w = a # as \<Longrightarrow> w = t\<lparr>mch := x\<rparr> \<Longrightarrow> \<exists>as. ret_addr t = a # as" for w x as by auto
  show ?thesis
    using assms unfolding go_back_def
    by (auto elim!: bnd_InrE split: if_splits list.splits simp: getst_app ret_app raise_app dest!: on_mch_keeps)
qed

lemma run_body_address:
  assumes "run_body R k s t = (Inr a, u)"
  shows "\<exists>as. ret_addr t = a # as"
  using assms unfolding run_body_def by (auto elim!: bnd_InrE dest!: go_back_address on_mch_keeps)

lemma add_first: "0 \<le> a \<Longrightarrow> do_list g = [] \<Longrightarrow> add_do_list name ty a g = (Inr (), g\<lparr>do_list := [\<lparr>proc_name = name, ptype = ty, faddr = a\<rparr>]\<rparr>)"
  by (simp add: add_do_list_def cm_simps)

lemma compile_single:
  assumes run: "compile_proc m dbg (LHead isf name # ls) g = (Inr n, g')" and b: "body_of s ls" and s: "sized dbg s"
  obtains q where "do_list g' = [\<lparr>proc_name = name, ptype = (if isf then PRG_FUNC else PRG_PROC), faddr = 6\<rparr>]" and "n = 0"
    and "\<And>e. coded dbg (outf g') e s 6 q" and "outf g' q = Some (LJmp RETURN_OP 0)"
proof -
  let ?ty = "if isf then PRG_FUNC else PRG_PROC" and ?it = "LJmp OBJ_LIB 0"
  let ?de = "\<lparr>proc_name = name, ptype = ?ty, faddr = 6\<rparr>"
  let ?start = "g\<lparr>do_list := [], outf := [0 \<mapsto> ?it], fend := 6\<rparr>"
  let ?g = "?start\<lparr>do_list := [?de]\<rparr>"
  have sz: "item_sz ?it = 6" by (simp add: item_sz_def)
  obtain m1 where m: "m = Suc m1" using run
    by (cases m) (auto simp: compile_proc_def cgen_ljmp_def put_app cm_simps)
  have "bnd (compile_lines (Suc m1) dbg 0 (LHead isf name # ls)) (\<lambda>_. write_rtable) ?start = (Inr n, g')"
    using run unfolding m
    by (simp add: compile_proc_def cgen_ljmp_def bnd_app [of "modst _"] bnd_app [of "put_item _"] put_app modst_app sz del: compile_lines.simps)
  then have "bnd (bnd (ec ?ty dbg ls) (\<lambda>rest. compile_lines m1 dbg 1 rest)) (\<lambda>_. write_rtable) ?g = (Inr n, g')"
    by (simp only: compile_lines.simps line.case list.case Let_def bnd_assoc ftell_def bnd_getst_app) 
      (simp add: bnd_assoc bnd_getst_app bnd_app [of "add_do_list _ _ _"] add_first del: bnd_app)
  then obtain rest g1 where e: "ec ?ty dbg ls ?g = (Inr rest, g1)"
      "bnd (compile_lines m1 dbg 1 rest) (\<lambda>_. write_rtable) g1 = (Inr n, g')"
    by (auto simp: bnd_assoc elim: bnd_InrE)
  have f: "file_ok ?g" by (simp add: file_ok_def)
  have e1: "ec ?ty dbg (ls @ []) ?g = (Inr rest, g1)" using e(1) by simp
  obtain q where q: "rest = []" "6 \<le> q" "fend g1 = q + 2" "do_list g1 = [?de]" "outf g1 0 = Some ?it"
    and c: "\<And>F e. \<forall>x. 6 \<le> x \<longrightarrow> x < fend g1 \<longrightarrow> F x = outf g1 x \<Longrightarrow> coded dbg F e s 6 q \<and> F q = Some (LJmp RETURN_OP 0)"
    using ec_compiled [OF e1 b disjI1 [OF refl] s f] by auto
  have "write_rtable g1 = (Inr n, g')" using e(2) q(1) by (cases m1) (auto simp: cm_simps)
  then have g': "n = 0" "do_list g' = [?de]" "outf g' = (outf g1)(0 \<mapsto> LJmp OBJ_LIB (int (fend g1)))"
    using q by (auto simp: write_rtable_def set_addr_def ftell_def cm_simps)
  have "coded dbg (outf g') e s 6 q \<and> outf g' q = Some (LJmp RETURN_OP 0)" for e
    by (rule c) (simp add: g')
  then show ?thesis using that g' by blast
qed

end
