(* ===== verification/Procedure_Runs.thy ===== *)
theory Procedure_Runs
  imports Compiled_Procedures
begin

text \<open>
  Compiled procedures run as their statements mean, from compile_proc to execute_proc, and what the compiler and the machine
  do not get right: LOOP is EXIT, a comment before the first procedure, an IF that is still open at the next
  procedure, and the value of a function.
\<close>

section \<open>Compiling and running\<close>

text \<open>C1: a program of one procedure or function compiles to code that does what its structured statements mean: conditions choose
  their branches, loops repeat and stop at EXIT, and RETURN goes back, in any nesting of IF with ELSEIF and ELSE, DO CASE with CASE and OTHERWISE, and DO
  WHILE, with empty lines and comments anywhere (calls of other procedures are not covered). When each loop of the statement ends, execute_proc ends, with the result, the error and the state of
  the statement. The name of the procedure has no wildcard, and no code block, with the line number that debugging puts before it, has a size that is
  a multiple of 256: exec_ takes such a block for a long jump.\<close>

theorem compiled_procedure_runs:
  assumes run: "compile_proc m dbg (LHead isf name # ls) g = (Inr n, g')" and b: "body_of s ls" and s: "sized dbg s"
    and name: "CHR ''*'' \<notin> set name" "CHR ''?'' \<notin> set name"
    and fuel: "fst (sem R k s (mch t)) \<noteq> Inl NoFuel"
  shows "\<exists>K. \<forall>j. execute_proc R (do_list g') (outf g') (K + j) name (if isf then PRG_FUNC else PRG_PROC) np t
    = bnd (call_proc R k s np 6) (\<lambda>_. ret True) t"
proof -
  let ?ty = "if isf then PRG_FUNC else PRG_PROC" and ?prep = "\<lambda>f. bnd (push_ret (- 1)) (\<lambda>_. bnd (push_call np 6) (\<lambda>_. bnd (modst (\<lambda>t. t\<lparr>escape := False\<rparr>)) f))"
  obtain q where d: "do_list g' = [\<lparr>proc_name = name, ptype = ?ty, faddr = 6\<rparr>]"
    and c: "\<And>e. coded dbg (outf g') e s 6 q" and F: "outf g' q = Some (LJmp RETURN_OP 0)"
    using compile_single [OF run b s] by blast
  have x: "execute_proc R (do_list g') (outf g') K name ?ty np t = ?prep (\<lambda>_. bnd (exec_code R (outf g') K 6) (\<lambda>_. ret True)) t" for K
    by (simp add: execute_proc_def d search_single [OF name])
  obtain r u where u: "?prep ret t = (r, u)" by (rule prod.exhaust)
  have p: "?prep f t = (case r of Inl e \<Rightarrow> (Inl e, u) | Inr v \<Rightarrow> f v u)" for f :: "unit \<Rightarrow> ('a, 'b) rm"
  proof -
    have "?prep f = bnd (?prep ret) f" by (simp add: bnd_assoc)
    then show ?thesis by (simp only: bnd_app [of "?prep ret"] u prod.case)
  qed
  show ?thesis
  proof (cases r)
    case (Inl e)
    then show ?thesis by (simp add: x p call_proc_def bnd_assoc)
  next
    case (Inr v)
    have st: "mch u = mch t" "ret_addr u = - 1 # ret_addr t" "\<not> escape u"
      using u Inr by (auto simp: push_ret_def push_call_def cm_simps split: if_splits)
    obtain K where K: "\<And>j. exec_code R (outf g') (K + j) 6 u = bnd (run_body R k s) (\<lambda>a. bnd (target a)
        (\<lambda>b. case b of None \<Rightarrow> ret () | Some r \<Rightarrow> exec_code R (outf g') j r)) u"
      using procedure_code_runs [OF c F st(3)] fuel st(1) by metis
    have "exec_code R (outf g') (K + j) 6 u = bnd (run_body R k s) (\<lambda>_. ret ()) u" for j
    proof (cases "run_body R k s u")
      case (Pair v w)
      then show ?thesis using K st(2) run_body_address [of R k s u _ w]
        by (cases v) (auto simp: cm_simps target_def)
    qed
    then show ?thesis by (intro exI [of _ K]) (simp add: x p Inr call_proc_def bnd_assoc bnd_app [of "exec_code _ _ _ _"] bnd_app [of "run_body _ _ _"] ret_app split: prod.split sum.split)
  qed
qed

definition rops0 :: "unit rops" where
  "rops0 = \<lparr>r_ops = ops0, r_scope = ret False, r_fuel = Suc (Suc 0), r_release = \<lambda>_. ret ()\<rparr>"

definition rt0 :: "unit rt" where
  "rt0 = \<lparr>mch = ([], ()), ret_addr = [], pcount = [], call_addr = [], escape = False\<rparr>"

definition cgen0 :: cgen where
  "cgen0 = \<lparr>outf = Map.empty, fend = 0, jmp_addr = [], neststack = [], do_list = []\<rparr>"

definition push_logical :: "bool \<Rightarrow> code_block" where
  "push_logical b = \<lparr>block_sz = 9, code_sz = 1, cb_code = [(PUSH, 0)], cb_data = [VLogic (Some b)]\<rparr>"

definition stmt0 :: stmt where
  "stmt0 = SWhile (push_logical True) (SIf (push_logical False) SNop (BWhen (push_logical True) SExit BEnd))"

definition prog0 :: "line list" where
  "prog0 = [LHead False ''p'', LComment, LWhile (push_logical True), LIf (push_logical False), LElseif (push_logical True), LExit, LEndif, LEnddo]"

lemmas compiler_defs = compile_proc_def cgen_ljmp_def put_item_def item_sz_def ec_def ec_line_def write_block_def dbg_block_def
  push_addr_def pop_addr_def set_addr_def ftell_def mod_addr_def mod_jmp_def push_slot_def jmp_codegen_def cond_codegen_def
  crntlevel_def flag_def pushlevel_def poplevel_def on_level_def chglevel_def exit_loop_def write_rtable_def add_do_list_def

lemma prog0_compiles: "fst (compile_proc 9 False prog0 cgen0) = Inr 0"
  by (simp add: prog0_def cgen0_def compiler_defs cm_simps Let_def numeral_eq_Suc push_logical_def)

lemma block_push: "block_sz (push_logical b) = 9"
  by (simp add: push_logical_def)

lemma test0: "test rops0 (push_logical b) ([], ()) = (Inr b, ([], ()))"
  by (simp add: test_def run_block_def rops0_def push_logical_def execute_def ops0_def expr_ops_def expr_hbint_def push_opnd_def
      on_stk_def push_def stk_bytes_def cm_simps istrue_def pop_logic_def pop_stack_def stack_peek_def deref_def pop_any_def
      typechk_def of_bool_int_def)

lemma stmt0_runs: "sem rops0 2 stmt0 ([], ()) = (Inr Fell, ([], ()))"
  by (simp add: stmt0_def test0 cm_simps numeral_2_eq_2)

lemma release0: "r_release rops0 n = ret ()"
  by (simp add: rops0_def)

theorem compiled_procedure_runs_witness:
  "\<exists>K. \<forall>j. execute_proc rops0 (do_list (snd (compile_proc 9 False prog0 cgen0))) (outf (snd (compile_proc 9 False prog0 cgen0)))
     (K + j) ''p'' PRG_PROC 0 rt0 = (Inr True, rt0)"
proof -
  let ?g = "snd (compile_proc 9 False prog0 cgen0)"
  have c: "compile_proc 9 False (LHead False ''p'' # tl prog0) cgen0 = (Inr 0, ?g)"
    using prog0_compiles by (cases "compile_proc 9 False prog0 cgen0") (simp add: prog0_def)
  have b: "body_of stmt0 (tl prog0)" "sized False stmt0"
    by (simp_all add: body_of_def prog0_def stmt0_def push_logical_def runnable_def first_byte_def dbg_block_def)
  have "bnd (call_proc rops0 2 stmt0 0 6) (\<lambda>_. ret True) rt0 = (Inr True, rt0)"
    by (simp add: call_proc_def run_body_def push_ret_def push_call_def go_back_def on_mch_def on_stk_def stmt0_runs rt0_def release0 cm_simps)
  then show ?thesis using compiled_procedure_runs [OF c b, of rops0 2 rt0 0] by (simp add: stmt0_runs rt0_def)
qed

section \<open>LOOP\<close>

definition exit_for_loop :: "line \<Rightarrow> line" where
  "exit_for_loop l = (if l = LLoop then LExit else l)"

lemma exit_for_loop_simps [simp]:
  "exit_for_loop LNull = LNull" "exit_for_loop LComment = LComment" "exit_for_loop LUnknown = LUnknown"
  "exit_for_loop (LHead f n) = LHead f n" "exit_for_loop (LSimple b) = LSimple b" "exit_for_loop (LDo n b) = LDo n b"
  "exit_for_loop (LReturn x) = LReturn x" "exit_for_loop (LWhile b) = LWhile b" "exit_for_loop LEnddo = LEnddo"
  "exit_for_loop LLoop = LExit" "exit_for_loop LExit = LExit" "exit_for_loop (LIf b) = LIf b"
  "exit_for_loop (LElseif b) = LElseif b" "exit_for_loop LElse = LElse" "exit_for_loop LEndif = LEndif"
  "exit_for_loop LDoCase = LDoCase" "exit_for_loop (LCase b) = LCase b" "exit_for_loop LOtherwise = LOtherwise"
  "exit_for_loop LEndcase = LEndcase"
  by (simp_all add: exit_for_loop_def)

lemma exit_for_loop_line: "ec_line isf dbg (exit_for_loop l) = ec_line isf dbg l"
proof -
  have "exit_loop LOOP_CTL = exit_loop EXIT_CTL"
    by (rule ext) (simp add: exit_loop_def cm_simps split: sum.split)
  then show ?thesis by (simp add: exit_for_loop_def ec_line_def)
qed

lemma exit_for_loop_lines:
  "ec_lines type dbg seen (map exit_for_loop ls) = bnd (ec_lines type dbg seen ls) (\<lambda>r. ret (map exit_for_loop r))"
proof (induction ls arbitrary: seen)
  case Nil
  show ?case by (rule ext) (simp add: cm_simps split: list.split)
next
  case (Cons l ls)
  show ?case
  proof (cases "is_head l")
    case True
    then show ?thesis by (auto simp: is_head_def exit_for_loop_def)
  next
    case False
    let ?seen = "\<lambda>l. seen \<or> (case l of LReturn _ \<Rightarrow> True | _ \<Rightarrow> False)"
    have step: "ec_lines type dbg seen (l # ls) = bnd (ec_line (type = PRG_FUNC) dbg l) (\<lambda>_. ec_lines type dbg (?seen l) ls)"
      if "\<not> is_head l" for l ls
      using that by (cases l) (auto simp: is_head_def)
    have "\<not> is_head (exit_for_loop l)" "?seen (exit_for_loop l) = ?seen l" using False by (auto simp: is_head_def exit_for_loop_def)
    then show ?thesis by (simp only: list.map step False exit_for_loop_line Cons.IH bnd_assoc simp_thms)
  qed
qed

lemma exit_for_loop_ec: "ec type dbg (map exit_for_loop ls) = bnd (ec type dbg ls) (\<lambda>r. ret (map exit_for_loop r))"
  by (simp add: ec_def exit_for_loop_lines bnd_assoc)

lemma exit_for_loop_compile: "compile_lines k dbg m (map exit_for_loop ls) = compile_lines k dbg m ls"
proof (induction k arbitrary: m ls)
  case (Suc k)
  note IH = Suc.IH Suc.IH [of _ "LComment # _", simplified]
  show ?case
  proof (cases ls)
    case (Cons l ls')
    then show ?thesis by (cases l) (simp_all add: exit_for_loop_ec IH bnd_assoc Let_def)
  qed simp
qed simp

text \<open>C30: LOOP is compiled as EXIT is: a program and the program with each LOOP replaced by EXIT compile to the same
  file, with the same errors, so that LOOP leaves the loop instead of going back to its condition.\<close>

theorem loop_compiles_as_exit: "compile_proc k dbg (map exit_for_loop ls) = compile_proc k dbg ls"
  by (simp add: compile_proc_def exit_for_loop_compile)

section \<open>What goes wrong\<close>

text \<open>C32: a program whose first line that is not empty is a comment is never compiled: the loop of
  compile_proc goes round on the comment for ever.\<close>

theorem comment_first_hangs:
  "fst (compile_proc k dbg (replicate n LNull @ LComment # ls) g) = Inl NoFuel"
proof -
  have c: "compile_lines k dbg m (LComment # ls) = raise NoFuel" for k m ls by (induction k) simp_all
  have "compile_lines k dbg m (replicate n LNull @ LComment # ls) = raise NoFuel" for m
  proof (induction n arbitrary: k)
    case (Suc n)
    then show ?case by (cases k) simp_all
  qed (simp add: c)
  then show ?thesis by (simp add: compile_proc_def cgen_ljmp_def put_item_def cm_simps)
qed

lemma body_keeps:
  \<comment> \<open>the lines of a statement, outside of loops, leave the file before them as it is\<close>
  assumes run: "ec_seq isf dbg ls g = (Inr (), g')" and b: "body_of s ls" and s: "sized dbg s"
    and g: "file_ok g" and n: "loop_frame (neststack g) 0 = Inl y"
  shows "file_ok g' \<and> do_list g' = do_list g \<and> fend g \<le> fend g' \<and> (\<forall>x<fend g. outf g' x = outf g x)"
proof -
  have "ec_seq isf dbg (lines_of s) g = (Inr (), g')" using run b ec_seq_blank by (metis body_of_def)
  moreover have "ready False 0 g" "pending False 0 (neststack g) (jmp_addr g)" using g n by (simp_all add: ready_def file_ok_def pending_def)
  ultimately obtain w where "emits False {} {} g 0 g' w (\<lambda>F e. coded dbg F e s (fend g) (fend g'))"
    using compiled(1) s unfolding stmt_ok_def compiles_def by meson
  then show ?thesis unfolding emits_def by auto
qed

lemma ec_first_line:
  \<comment> \<open>the first line of a procedure and a statement behind it\<close>
  assumes run: "ec type dbg (l # ls @ rest) g = (Inr rest', g')" and l: "\<not> is_head l" and b: "body_of s ls" and s: "sized dbg s"
    and rest: "rest = [] \<or> is_head (hd rest)"
    and keep: "\<And>g1. ec_line (type = PRG_FUNC) dbg l (g\<lparr>neststack := []\<rparr>) = (Inr (), g1) \<Longrightarrow> file_ok g1 \<and> do_list g1 = do_list g \<and> (\<exists>y. loop_frame (neststack g1) 0 = Inl y)"
  obtains g1 where "ec_line (type = PRG_FUNC) dbg l (g\<lparr>neststack := []\<rparr>) = (Inr (), g1)" and "rest' = rest" and "file_ok g'"
    and "do_list g' = do_list g" and "fend g1 \<le> fend g'" and "\<And>x. x < fend g1 \<Longrightarrow> outf g' x = outf g1 x"
proof -
  let ?it = "LJmp RETURN_OP 0"
  have "\<And>x. x \<in> set (l # ls) \<Longrightarrow> \<not> is_head x" using l body_no_head [OF b] by auto
  then obtain seen where e: "ec_lines type dbg False (l # ls @ rest) = bnd (ec_seq (type = PRG_FUNC) dbg (l # ls)) (\<lambda>_. ec_lines type dbg seen rest)"
    using ec_lines_body [of "l # ls" type dbg False rest] by auto
  have "bnd (ec_seq (type = PRG_FUNC) dbg (l # ls)) (\<lambda>_. bnd (ec_lines type dbg seen rest) (\<lambda>rest. bnd (cgen_ljmp RETURN_OP 0) (\<lambda>_. ret rest)))
      (g\<lparr>neststack := []\<rparr>) = (Inr rest', g')"
    using run unfolding ec_def e by (simp only: bnd_assoc bnd_app [of "modst _"] modst_app prod.case sum.case)
  then obtain g1 g2 where 1: "ec_line (type = PRG_FUNC) dbg l (g\<lparr>neststack := []\<rparr>) = (Inr (), g1)" "ec_seq (type = PRG_FUNC) dbg ls g1 = (Inr (), g2)"
      "bnd (ec_lines type dbg seen rest) (\<lambda>rest. bnd (cgen_ljmp RETURN_OP 0) (\<lambda>_. ret rest)) g2 = (Inr rest', g')"
    by (simp only: ec_seq.simps bnd_assoc) (erule bnd_InrE, erule bnd_InrE, rule that, simp_all)
  obtain r g3 where 2: "ec_lines type dbg seen rest g2 = (Inr r, g3)" "bnd (cgen_ljmp RETURN_OP 0) (\<lambda>_. ret r) g3 = (Inr rest', g')"
    using 1(3) by (auto elim: bnd_InrE)
  have r: "r = rest" "g3 = g2" using ec_lines_stop [OF rest 2(1)] by simp_all
  have g': "rest' = rest" "g' = putting ?it g2" using 2(2) r by (auto simp: cgen_ljmp_def put_app cm_simps)
  obtain y where k: "file_ok g1" "do_list g1 = do_list g" "loop_frame (neststack g1) 0 = Inl y" using keep [OF 1(1)] by blast
  have sz: "item_sz ?it = 2" by (simp add: item_sz_def)
  show ?thesis
    by (rule that [OF 1(1)]) (use body_keeps [OF 1(2) b s k(1,3)] k(2) g' sz in \<open>auto simp: file_ok_def\<close>)
qed

lemma rest_keeps:
  \<comment> \<open>what compile_proc does behind the first procedure: at most one more procedure, and the table of references\<close>
  assumes run: "bnd (compile_lines m dbg 1 rest) (\<lambda>_. write_rtable) g = (Inr n, g')"
    and rest: "rest = [] \<or> (\<exists>isb b ls s. rest = LHead isb b # ls \<and> body_of s ls \<and> sized dbg s)"
    and g: "file_ok g" "do_list g = [\<lparr>proc_name = a, ptype = ty, faddr = 6\<rparr>]" and x: "0 < x" "x < fend g"
  shows "outf g' x = outf g x"
proof -
  have table: "outf g3 x = outf g2 x"
    if "write_rtable g2 = (Inr n, g3)" "\<forall>d\<in>set (do_list g2). 0 \<le> faddr d" for g2 g3
  proof -
    have "count_unresolved ds k g2 = (Inr k, g2)" if "\<forall>d\<in>set ds. 0 \<le> faddr d" for ds k
      using that by (induction ds) (auto simp: cm_simps)
    then show ?thesis using that x(1) by (auto simp: write_rtable_def set_addr_def ftell_def cm_simps split: option.splits item.splits)
  qed
  show ?thesis
    using rest
  proof
    assume "rest = []"
    then have "write_rtable g = (Inr n, g')" using run by (cases m) (auto simp: cm_simps)
    then show ?thesis using table g(2) by simp
  next
    assume "\<exists>isb b ls s. rest = LHead isb b # ls \<and> body_of s ls \<and> sized dbg s"
    then obtain isb b ls s where r: "rest = LHead isb b # ls" "body_of s ls" "sized dbg s" by blast
    let ?ty = "if isb then PRG_FUNC else PRG_PROC"
    obtain k where m: "m = Suc k" using run by (cases m) (auto simp: cm_simps)
    have "bnd (add_do_list b ?ty (int (fend g))) (\<lambda>_. bnd (ec ?ty dbg ls) (\<lambda>rest. bnd (compile_lines k dbg 2 rest) (\<lambda>_. write_rtable))) g = (Inr n, g')"
      using run unfolding m r(1)
      by (simp add: Let_def bnd_assoc ftell_def bnd_getst_app numeral_2_eq_2)
    then obtain g1 rest2 g2 where 1: "add_do_list b ?ty (int (fend g)) g = (Inr (), g1)" "ec ?ty dbg ls g1 = (Inr rest2, g2)"
        "bnd (compile_lines k dbg 2 rest2) (\<lambda>_. write_rtable) g2 = (Inr n, g')"
      by - (erule bnd_InrE, erule bnd_InrE, rule that, simp_all)
    have "g1 = g\<lparr>do_list := do_list g @ [\<lparr>proc_name = b, ptype = ?ty, faddr = int (fend g)\<rparr>]\<rparr>"
      using 1(1) g x(2) by (auto simp: add_do_list_def cm_simps Let_def split: if_splits)
    then have g1: "outf g1 = outf g" "fend g1 = fend g" "file_ok g1" "\<forall>d\<in>set (do_list g1). 0 \<le> faddr d"
      using g by (auto simp: file_ok_def)
    have "ec ?ty dbg (ls @ []) g1 = (Inr rest2, g2)" using 1(2) by simp
    then have e: "rest2 = []" "do_list g2 = do_list g1" "\<And>x. x < fend g1 \<Longrightarrow> outf g2 x = outf g1 x"
      using ec_compiled [OF _ r(2) disjI1 [OF refl] r(3) g1(3)] by auto
    have "write_rtable g2 = (Inr n, g')" using 1(3) e(1) by (cases k) (auto simp: cm_simps)
    then show ?thesis using table [of g2 g'] e g1 x(2) by simp
  qed
qed

lemma first_line_in_file:
  assumes run: "compile_proc m dbg (LHead isf a # l # ls @ rest) g = (Inr n, g')" and b: "body_of s ls" and s: "sized dbg s"
    and rest: "rest = [] \<or> (\<exists>isb b ls s. rest = LHead isb b # ls \<and> body_of s ls \<and> sized dbg s)" and l: "\<not> is_head l"
    and keep: "\<forall>g0 g1. file_ok g0 \<and> neststack g0 = [] \<and> ec_line isf dbg l g0 = (Inr (), g1)
      \<longrightarrow> file_ok g1 \<and> do_list g1 = do_list g0 \<and> (\<exists>y. loop_frame (neststack g1) 0 = Inl y)"
  obtains g0 g1 where "file_ok g0" and "fend g0 = 6" and "neststack g0 = []" and "ec_line isf dbg l g0 = (Inr (), g1)"
    and "\<And>x. 0 < x \<Longrightarrow> x < fend g1 \<Longrightarrow> outf g' x = outf g1 x"
proof -
  let ?ty = "if isf then PRG_FUNC else PRG_PROC" and ?it = "LJmp OBJ_LIB 0"
  let ?de = "\<lparr>proc_name = a, ptype = ?ty, faddr = 6\<rparr>"
  let ?start = "g\<lparr>do_list := [], outf := [0 \<mapsto> ?it], fend := 6\<rparr>"
  let ?g = "?start\<lparr>do_list := [?de]\<rparr>"
  have sz: "item_sz ?it = 6" by (simp add: item_sz_def)
  have ty: "(?ty = PRG_FUNC) = isf" by simp
  obtain m1 where m: "m = Suc m1" using run
    by (cases m) (auto simp: compile_proc_def cgen_ljmp_def put_app cm_simps)
  have "bnd (compile_lines (Suc m1) dbg 0 (LHead isf a # l # ls @ rest)) (\<lambda>_. write_rtable) ?start = (Inr n, g')"
    using run unfolding m
    by (simp add: compile_proc_def cgen_ljmp_def bnd_app [of "modst _"] bnd_app [of "put_item _"] put_app modst_app sz del: compile_lines.simps)
  then have "bnd (bnd (ec ?ty dbg (l # ls @ rest)) (\<lambda>rest. compile_lines m1 dbg 1 rest)) (\<lambda>_. write_rtable) ?g = (Inr n, g')"
    by (simp only: compile_lines.simps line.case list.case Let_def bnd_assoc ftell_def bnd_getst_app)
      (simp add: bnd_assoc bnd_getst_app bnd_app [of "add_do_list _ _ _"] add_first del: bnd_app)
  then obtain r2 g2 where e: "ec ?ty dbg (l # ls @ rest) ?g = (Inr r2, g2)" "bnd (compile_lines m1 dbg 1 r2) (\<lambda>_. write_rtable) g2 = (Inr n, g')"
    by (auto simp: bnd_assoc elim: bnd_InrE)
  let ?start0 = "?g\<lparr>neststack := []\<rparr>"
  have f: "file_ok ?start0" by (simp add: file_ok_def)
  have h: "rest = [] \<or> is_head (hd rest)" using rest by (auto simp: is_head_def)
  have k: "file_ok g1 \<and> do_list g1 = do_list ?g \<and> (\<exists>y. loop_frame (neststack g1) 0 = Inl y)"
    if "ec_line (?ty = PRG_FUNC) dbg l ?start0 = (Inr (), g1)" for g1
    using keep [rule_format, of ?start0 g1] that f unfolding ty by simp
  obtain g1 where g1: "ec_line isf dbg l ?start0 = (Inr (), g1)" "r2 = rest" "file_ok g2" "do_list g2 = [?de]" "fend g1 \<le> fend g2"
      "\<And>x. x < fend g1 \<Longrightarrow> outf g2 x = outf g1 x"
    using ec_first_line [OF e(1) l b s h k] unfolding ty by auto
  have "outf g' x = outf g1 x" if "0 < x" "x < fend g1" for x
    using rest_keeps [OF e(2) [unfolded g1(2)] rest g1(3,4) that(1)] g1(5,6) that(2) by simp
  then show ?thesis by (intro that [OF f _ _ g1(1)]) simp_all
qed





text \<open>C34: a code block whose size is a multiple of 256 is taken for a long jump with an unknown code, and the run goes
  round on it for ever: no procedure whose first line is a command or a RETURN with such a block, of less than 32768 bytes, whatever statement without
  another such block follows, ever ends, and the block is never executed. The block of a constant of 248 characters has 256 bytes.\<close>

theorem long_block_hangs:
  assumes run: "compile_proc m dbg (LHead isf a # l # ls) g = (Inr n, g')" and l: "l = LSimple c \<or> l = LReturn (Some c)"
    and b: "body_of s ls" and s: "sized dbg s"
    and c: "block_sz (dbg_block dbg c) mod 256 = 0" "0 < block_sz (dbg_block dbg c)" "block_sz (dbg_block dbg c) < 32768"
  shows "exec_code R (outf g') k 6 t = (Inl NoFuel, t)"
proof -
  let ?it = "Blk (dbg_block dbg c)"
  have sz: "item_sz ?it = block_sz (dbg_block dbg c)" "item_sz (LJmp FCNRTN_OP 0) = 2" by (simp_all add: item_sz_def)
  have put: "g1 = putting ?it g0 \<or> g1 = putting (LJmp FCNRTN_OP 0) (putting ?it g0)" if "ec_line isf dbg l g0 = (Inr (), g1)" for g0 g1
    using that l by (auto simp: line_simps write_block_def cgen_ljmp_def put_app cm_simps split: if_splits)
  have keep: "\<forall>g0 g1. file_ok g0 \<and> neststack g0 = [] \<and> ec_line isf dbg l g0 = (Inr (), g1)
      \<longrightarrow> file_ok g1 \<and> do_list g1 = do_list g0 \<and> (\<exists>y. loop_frame (neststack g1) 0 = Inl y)"
    using put c(2) sz by (fastforce simp: file_ok_def)
  have run': "compile_proc m dbg (LHead isf a # l # ls @ []) g = (Inr n, g')" using run by simp
  have h: "\<not> is_head l" using l by (auto simp: is_head_def)
  obtain g0 g1 where g0: "fend g0 = 6" "ec_line isf dbg l g0 = (Inr (), g1)" and F: "\<And>x. 0 < x \<Longrightarrow> x < fend g1 \<Longrightarrow> outf g' x = outf g1 x"
    by (rule first_line_in_file [OF run' b s disjI1 [OF refl] h keep]) (rule that)
  have "outf g1 6 = Some ?it" "6 < fend g1" using put [OF g0(2)] g0(1) c(2) sz by auto
  then have "outf g' 6 = Some ?it" using F by simp
  then have "exec_step R (outf g') 6 t = (Inr (Some 6), t)" using c(1,3) by (simp add: exec_step_def first_byte_def cm_simps)
  then show ?thesis by (induction k) (simp_all add: cm_simps)
qed

definition long_constant :: code_block where
  "long_constant = \<lparr>block_sz = 256, code_sz = 1, cb_code = [(PUSH, 0)], cb_data = [VChar (replicate 248 CHR ''x'')]\<rparr>"

lemma long_constant_compiles:
  "fst (compile_proc 9 False [LHead True ''f'', LReturn (Some long_constant)] cgen0) = Inr 0"
  by (simp add: cgen0_def compiler_defs cm_simps Let_def numeral_eq_Suc long_constant_def)

theorem long_block_hangs_witness:
  "fst (compile_proc 9 False [LHead True ''f'', LReturn (Some long_constant)] cgen0) = Inr 0
    \<and> (\<forall>k. exec_code rops0 (outf (snd (compile_proc 9 False [LHead True ''f'', LReturn (Some long_constant)] cgen0))) k 6 rt0 = (Inl NoFuel, rt0))"
proof -
  let ?ls = "[LHead True ''f'', LReturn (Some long_constant)]" let ?g = "snd (compile_proc 9 False ?ls cgen0)"
  have c: "compile_proc 9 False ?ls cgen0 = (Inr 0, ?g)"
    using long_constant_compiles by (cases "compile_proc 9 False ?ls cgen0") simp
  have b: "body_of SNop []" "sized False SNop" by (simp_all add: body_of_def)
  have z: "block_sz (dbg_block False long_constant) = 256" by (simp add: dbg_block_def long_constant_def)
  have "exec_code rops0 (outf ?g) k 6 rt0 = (Inl NoFuel, rt0)" for k
    by (rule long_block_hangs [OF c disjI2 [OF refl] b]) (simp_all add: z)
  then show ?thesis using long_constant_compiles by blast
qed

text \<open>C33: a function whose value is a real number overruns the buffer for its value when it returns: the length of
  the value counts its decimals in its upper bits, and memcpy takes it for a number of bytes.\<close>

theorem function_returns_real:
  assumes "fst (mch t) = VNum (NReal x) # s"
  shows "go_back R True t = (Inl Undefined, t)"
  using assms by (cases "mch t") (simp add: go_back_def on_mch_def on_stk_def pop_value_def cm_simps)

theorem function_returns_real_witness:
  "go_back rops0 True (rt0\<lparr>mch := ([VNum (NReal (Fin False (1 / 2)))], ())\<rparr>)
   = (Inl Undefined, rt0\<lparr>mch := ([VNum (NReal (Fin False (1 / 2)))], ())\<rparr>)"
  by (rule function_returns_real) simp

end
