(* ===== verification/Variables.thy ===== *)
theory Variables
  imports Execution
begin

text \<open>
  Memory variables: server/hb/var.c. A name is hashed to a chain of entries of var_table; an entry leads to its
  declaration in dec_table that counts now; declarations of a procedure level are chained, and a local one
  remembers the one it hides. Values lie one behind the other in a buffer: a pointer into the buffer is
  the number of its value there. Levels of calls are below MAXLEVEL, and SET TALK is off.
\<close>

section \<open>State\<close>

abbreviation (input) VNAMELEN :: nat where "VNAMELEN \<equiv> 20"
abbreviation (input) VARTABSZ :: nat where "VARTABSZ \<equiv> 16384"
abbreviation (input) HASHTABSZ :: nat where "HASHTABSZ \<equiv> 4096"
abbreviation (input) HASHCONST :: nat where "HASHCONST \<equiv> 47"
abbreviation (input) DCLNTABSZ :: nat where "DCLNTABSZ \<equiv> 65536"
abbreviation (input) VALBUFSZ :: nat where "VALBUFSZ \<equiv> 1048576"
abbreviation (input) MAXADIM :: nat where "MAXADIM \<equiv> 13"
abbreviation (input) MAXAELE :: int where "MAXAELE \<equiv> 10000"
abbreviation (input) ON_STACK :: nat where "ON_STACK \<equiv> 0xff"
abbreviation (input) R_LIKE :: nat where "R_LIKE \<equiv> 0x40"
abbreviation (input) R_EXCEPT :: nat where "R_EXCEPT \<equiv> 0x20"
abbreviation (input) R_PROC :: nat where "R_PROC \<equiv> 0x10"

record var =
  var_name :: string
  hnext :: nat
  dec_entry :: nat

record dcln =
  dlevel :: nat
  var_entry :: nat
  link :: nat
  prior :: int
  dvalue :: "nat option"

record vars =
  var_table :: "nat \<Rightarrow> var"
  dec_table :: "nat \<Rightarrow> dcln"
  hash_table :: "nat \<Rightarrow> nat"
  val_buf :: "hbval list"
  vlevel :: "nat \<Rightarrow> nat"
  array_de :: nat
  curr_lvl :: nat

type_synonym 'a vm = "(vars machine, 'a) cm"

definition vars_of :: "vars vm" where
  "vars_of = getst snd"

definition upd :: "(vars \<Rightarrow> vars) \<Rightarrow> unit vm" where
  "upd f = modst (map_prod id f)"

definition upd_var :: "nat \<Rightarrow> (var \<Rightarrow> var) \<Rightarrow> unit vm" where
  "upd_var e f = upd (\<lambda>S. S\<lparr>var_table := (var_table S)(e := f (var_table S e))\<rparr>)"

definition upd_dec :: "nat \<Rightarrow> (dcln \<Rightarrow> dcln) \<Rightarrow> unit vm" where
  "upd_dec e f = upd (\<lambda>S. S\<lparr>dec_table := (dec_table S)(e := f (dec_table S e))\<rparr>)"

definition var_init :: "vars \<Rightarrow> vars" where
  "var_init S = S\<lparr>val_buf := [],
     var_table := (\<lambda>i. if i < VARTABSZ then (var_table S i)\<lparr>dec_entry := 0, hnext := i + 1\<rparr> else var_table S i),
     dec_table := (\<lambda>i. if i < DCLNTABSZ then (dec_table S i)\<lparr>dlevel := 0, var_entry := 0, link := i + 1\<rparr> else dec_table S i),
     hash_table := (\<lambda>_. 0), vlevel := (\<lambda>_. 0)\<rparr>"

definition top_name :: "string vm" where
  \<comment> \<open>the string on top of the stack\<close>
  "top_name = bnd (getst fst) (\<lambda>s. case s of
       [] \<Rightarrow> raise Undefined
     | v # _ \<Rightarrow> (case v of VChar p \<Rightarrow> ret p | _ \<Rightarrow> raise (Syn INVALID_TYPE)))"

definition peek :: "nat \<Rightarrow> hbval vm" where
  \<comment> \<open>stack_peek(n), not in the restricted mode\<close>
  "peek n = bnd (getst fst) (\<lambda>s.
     if length s < n then raise (Sys STACK_FAULT) else if n < length s then ret (s ! n) else raise Undefined)"

definition pop :: "hbval vm" where
  "pop = on_stk pop_any"

definition get_word :: "8 word list \<Rightarrow> nat" where
  "get_word bs = nat_le (take 2 bs)"

definition dword_of :: "hbval \<Rightarrow> int vm" where
  \<comment> \<open>get_dword(v->buf) of a number\<close>
  "dword_of v = (case v of VNum (NInt d n) \<Rightarrow> ret (sint (ucast n :: 32 word)) | _ \<Rightarrow> raise Undefined)"

section \<open>Names and values\<close>

definition uc :: "char \<Rightarrow> nat" where
  "uc c = of_char (to_upper c)"

definition hash_code :: "string \<Rightarrow> nat" where
  \<comment> \<open>of a string that is not empty\<close>
  "hash_code p = (let len = length p in
     (if 2 < len then
        HASHCONST * uc (p ! 0) + 2 * HASHCONST * uc (p ! 1) + len * uc (p ! (len - 1)) + (len - 1) * uc (p ! (len - 2)) + HASHCONST
      else HASHCONST * uc (p ! 0) + len * uc (p ! (len - 1)) + HASHCONST) mod HASHTABSZ)"

definition hash :: "nat vm" where
  "hash = bnd top_name (\<lambda>p. if length p < 1 then raise (Syn INVALID_VALUE) else ret (hash_code p))"

definition add_val :: "hbval \<Rightarrow> nat option vm" where
  "add_val v = bnd vars_of (\<lambda>S.
     if VALBUFSZ < stk_bytes (val_buf S) + val_size v then ret None
     else bnd (upd (\<lambda>S. S\<lparr>val_buf := val_buf S @ [v]\<rparr>)) (\<lambda>_. ret (Some (length (val_buf S)))))"

primrec shift_level :: "nat \<Rightarrow> nat \<Rightarrow> nat \<Rightarrow> unit vm" where
  \<comment> \<open>for (j=vlevel[i]; j; j=dec_table[j].link): the values behind i move down by one\<close>
  "shift_level 0 i j = raise NoFuel"
| "shift_level (Suc k) i j =
     (if j = 0 then ret ()
      else bnd (upd_dec j (\<lambda>d. d\<lparr>dvalue := (case dvalue d of None \<Rightarrow> None | Some x \<Rightarrow> Some (if i < x then x - 1 else x))\<rparr>)) (\<lambda>_.
        bnd vars_of (\<lambda>S. shift_level k i (link (dec_table S j)))))"

primrec for_levels :: "nat list \<Rightarrow> (nat \<Rightarrow> unit vm) \<Rightarrow> unit vm" where
  "for_levels [] f = ret ()"
| "for_levels (l # ls) f = bnd (f l) (\<lambda>_. for_levels ls f)"

definition del_val :: "nat option \<Rightarrow> unit vm" where
  "del_val v = (case v of
       None \<Rightarrow> ret ()
     | Some i \<Rightarrow> bnd vars_of (\<lambda>S.
         if \<not> i < length (val_buf S) then raise Undefined
         else
           bnd (for_levels [0 ..< curr_lvl S + 1] (\<lambda>l. bnd vars_of (\<lambda>S. shift_level (DCLNTABSZ + 1) i (vlevel S l)))) (\<lambda>_.
           upd (\<lambda>S. S\<lparr>val_buf := take i (val_buf S) @ drop (i + 1) (val_buf S)\<rparr>))))"

datatype loc = Bucket nat | Next nat

definition at_loc :: "loc \<Rightarrow> vars \<Rightarrow> nat" where
  "at_loc l S = (case l of Bucket h \<Rightarrow> hash_table S h | Next e \<Rightarrow> hnext (var_table S e))"

definition set_loc :: "loc \<Rightarrow> nat \<Rightarrow> unit vm" where
  "set_loc l e = (case l of
       Bucket h \<Rightarrow> upd (\<lambda>S. S\<lparr>hash_table := (hash_table S)(h := e)\<rparr>)
     | Next x \<Rightarrow> upd_var x (\<lambda>v. v\<lparr>hnext := e\<rparr>))"

primrec hlink :: "nat \<Rightarrow> bool \<Rightarrow> loc \<Rightarrow> nat vm" where
  \<comment> \<open>ins is the mode INSERT\<close>
  "hlink 0 ins l = raise NoFuel"
| "hlink (Suc k) ins l =
     bnd top_name (\<lambda>p. bnd vars_of (\<lambda>S.
     let e = at_loc l S in
     if dec_entry (var_table S e) \<noteq> 0 then
       (if namecmp (var_name (var_table S e)) p (length p) ID_VNAME \<noteq> 0 then hlink k ins (Next e) else ret e)
     else if \<not> ins then ret 0
     else
       let e = hnext (var_table S 0) in
       bnd (set_loc l e) (\<lambda>_.
       if e = VARTABSZ then raise (Sys VARTBL_OVERFLOW)
       else
         bnd vars_of (\<lambda>S. bnd (upd_var 0 (\<lambda>v. v\<lparr>hnext := hnext (var_table S e)\<rparr>)) (\<lambda>_.
         bnd (upd_var e (\<lambda>v. v\<lparr>hnext := 0\<rparr>)) (\<lambda>_.
         if VNAMELEN < length p then raise Undefined
         else bnd (upd_var e (\<lambda>v. v\<lparr>var_name := map to_upper p\<rparr>)) (\<lambda>_. ret e)))))))"

definition varsrin :: "bool \<Rightarrow> nat vm" where
  "varsrin ins = bnd hash (\<lambda>h. hlink (VARTABSZ + 1) ins (Bucket h))"

primrec pops :: "nat \<Rightarrow> unit vm" where
  "pops 0 = ret ()"
| "pops (Suc n) = bnd pop (\<lambda>_. pops n)"

definition is_pattern_match :: "nat \<Rightarrow> bool" where
  "is_pattern_match mode \<longleftrightarrow> mode div 16 mod 16 \<noteq> 0"

definition match_count :: "nat \<Rightarrow> nat" where
  "match_count mode = mode mod 16"

definition mode_has :: "nat \<Rightarrow> nat \<Rightarrow> bool" where
  \<comment> \<open>mode & b for a power of 2\<close>
  "mode_has mode b \<longleftrightarrow> odd (mode div b)"

definition vclr_stack :: "nat \<Rightarrow> unit vm" where
  "vclr_stack mode =
     (if is_pattern_match mode then
        bnd (if mode_has mode R_EXCEPT then pops 1 else ret ()) (\<lambda>_. if mode_has mode R_LIKE then pops 1 else ret ())
      else pops mode)"

section \<open>Reading\<close>

primrec deref_val :: "nat \<Rightarrow> nat option \<Rightarrow> hbval vm" where
  \<comment> \<open>while (v->valspec.typ == ADDR) v = ..\<close>
  "deref_val 0 v = raise NoFuel"
| "deref_val (Suc k) v = bnd vars_of (\<lambda>S. case v of
       None \<Rightarrow> raise Undefined
     | Some i \<Rightarrow>
         if \<not> i < length (val_buf S) then raise Undefined
         else (case val_buf S ! i of
             VOther t bs \<Rightarrow> if t = ADDR then deref_val k (dvalue (dec_table S (get_word bs))) else ret (VOther t bs)
           | w \<Rightarrow> ret w))"

primrec array_index :: "nat \<Rightarrow> nat list \<Rightarrow> int \<Rightarrow> int vm" where
  \<comment> \<open>for (i=0; i<dim; ++i) of _vretrv with k = dim - i, and the dimensions from the i-th on\<close>
  "array_index 0 ds nele = ret nele"
| "array_index (Suc k) ds nele =
     bnd (peek (Suc k)) (\<lambda>sp. bnd (dword_of sp) (\<lambda>le.
     if le \<le> 0 \<or> MAXAELE < le then raise (Syn BAD_DIM)
     else if int (hd ds) < le - 1 then raise (Syn BAD_DIM)
     else array_index k (tl ds) (nele + (le - 1) * int (prod_list (tl ds)))))"

primrec follow :: "nat \<Rightarrow> nat \<Rightarrow> nat vm" where
  \<comment> \<open>while (nele--) de = dec_table[de].link\<close>
  "follow 0 de = ret de"
| "follow (Suc n) de = bnd vars_of (\<lambda>S. follow n (link (dec_table S de)))"

fun words_of :: "8 word list \<Rightarrow> nat list" where
  "words_of (a # b # bs) = nat_le [a, b] # words_of bs"
| "words_of _ = []"

definition decl_of :: "nat vm" where
  \<comment> \<open>the declaration that array_de or the name on the stack stands for\<close>
  "decl_of = bnd vars_of (\<lambda>S.
     if array_de S \<noteq> 0 then bnd (upd (\<lambda>S. S\<lparr>array_de := 0\<rparr>)) (\<lambda>_. ret (array_de S))
     else bnd (varsrin False) (\<lambda>e. if e = 0 then raise (Syn UNDEF_VAR)
       else bnd pop (\<lambda>_. bnd vars_of (\<lambda>S. ret (dec_entry (var_table S e))))))"

definition vretrv :: "bool \<Rightarrow> unit vm" where
  \<comment> \<open>_vretrv\<close>
  "vretrv array = bnd decl_of (\<lambda>de. bnd vars_of (\<lambda>S.
     let avar = dec_table S de in
     if dlevel avar \<noteq> 0 then raise (Syn UNDEF_VAR)
     else (case dvalue avar of
       None \<Rightarrow> raise (Syn NULL_VALUE)
     | Some i \<Rightarrow>
         if \<not> i < length (val_buf S) then raise Undefined
         else
           let v = val_buf S ! i in
           if array then
             if val_typ v \<noteq> ARRAYTYP then raise (Syn NOTARRAY)
             else bnd (peek 0) (\<lambda>sp. bnd (dword_of sp) (\<lambda>dm.
               if dm \<noteq> int (valspec_len v div 2) then raise (Syn BAD_DIM)
               else
                 let ds = (case v of VOther _ bs \<Rightarrow> words_of bs | _ \<Rightarrow> []) in
                 bnd (array_index (nat dm) ds 1) (\<lambda>nele.
                 bnd (follow (nat nele) de) (\<lambda>de.
                 bnd (upd (\<lambda>S. S\<lparr>array_de := de\<rparr>)) (\<lambda>_. vclr_stack (nat dm + 1))))))
           else if val_typ v = ARRAYTYP then raise (Syn MISSING_DIM)
           else bnd (deref_val (DCLNTABSZ + 1) (Some i)) (\<lambda>v. on_stk (push v)))))"

definition v_retrv :: "unit vm" where
  "v_retrv = vretrv False"

definition arraychk :: "nat \<Rightarrow> hbval list \<Rightarrow> unit vm" where
  \<comment> \<open>pool is the pool of constants\<close>
  "arraychk aname pool = bnd (push_opnd aname pool) (\<lambda>_. vretrv True)"

section \<open>Storing\<close>

definition get_next_dec :: "nat \<Rightarrow> nat \<Rightarrow> nat vm" where
  "get_next_dec lvl ve = bnd vars_of (\<lambda>S.
     let e = link (dec_table S 0) in
     if e = DCLNTABSZ then ret 0
     else
       bnd (upd_dec e (\<lambda>d. d\<lparr>prior := (if lvl \<noteq> 0 then - 1 else 0), var_entry := ve, dvalue := None\<rparr>)) (\<lambda>_.
       bnd (upd_dec 0 (\<lambda>d. d\<lparr>link := link (dec_table S e)\<rparr>)) (\<lambda>_.
       bnd (upd_dec e (\<lambda>d. d\<lparr>link := vlevel S lvl\<rparr>)) (\<lambda>_.
       bnd (upd (\<lambda>S. S\<lparr>vlevel := (vlevel S)(lvl := e)\<rparr>)) (\<lambda>_. ret e)))))"

primrec last_addr :: "nat \<Rightarrow> nat \<Rightarrow> nat vm" where
  \<comment> \<open>while (dec_table[de].value->valspec.typ == ADDR) de = ..\<close>
  "last_addr 0 de = raise NoFuel"
| "last_addr (Suc k) de = bnd vars_of (\<lambda>S. case dvalue (dec_table S de) of
       None \<Rightarrow> raise Undefined
     | Some i \<Rightarrow>
         if \<not> i < length (val_buf S) then raise Undefined
         else (case val_buf S ! i of
             VOther t bs \<Rightarrow> if t = ADDR then last_addr k (get_word bs) else ret de
           | _ \<Rightarrow> ret de))"

primrec get_decs :: "nat \<Rightarrow> nat \<Rightarrow> nat \<Rightarrow> nat \<Rightarrow> nat vm" where
  \<comment> \<open>while (nele--) if (!(de = get_next_dec(..))) syn_err(..)\<close>
  "get_decs 0 lvl ve de = ret de"
| "get_decs (Suc n) lvl ve de = bnd (get_next_dec lvl ve) (\<lambda>de. if de = 0 then raise (Sys DCTBL_OVERFLOW) else get_decs n lvl ve de)"

definition place_of :: "bool \<Rightarrow> nat \<Rightarrow> hbval \<Rightarrow> nat vm" where
  \<comment> \<open>the declaration that a store of t to the variable e goes to, with its old value deleted\<close>
  "place_of public e t = bnd vars_of (\<lambda>S.
     let de = dec_entry (var_table S e); lvl = (if public then 0 else curr_lvl S) in
     if de = 0 then
       bnd (get_next_dec lvl e) (\<lambda>de. bnd (upd_var e (\<lambda>v. v\<lparr>dec_entry := de\<rparr>)) (\<lambda>_.
       if de = 0 then raise (Sys DCTBL_OVERFLOW) else ret de))
     else if dlevel (dec_table S de) \<noteq> 0 then
       (if public then raise (Syn VAR_LOCAL)
        else
          bnd (get_next_dec (curr_lvl S) e) (\<lambda>new. bnd (upd_var e (\<lambda>v. v\<lparr>dec_entry := new\<rparr>)) (\<lambda>_.
          bnd (upd_dec new (\<lambda>d. d\<lparr>prior := int de\<rparr>)) (\<lambda>_. ret new))))
     else if public \<and> 0 < prior (dec_table S de) then raise (Syn VAR_LOCAL)
     else if val_typ t = ARRAYTYP then raise (Syn NAMECONFLICT)
     else
       bnd (last_addr (DCLNTABSZ + 1) de) (\<lambda>de. bnd vars_of (\<lambda>S.
       case dvalue (dec_table S de) of
         None \<Rightarrow> raise Undefined
       | Some i \<Rightarrow>
           if val_typ (val_buf S ! i) = ARRAYTYP then raise (Syn MISSING_DIM)
           else bnd (del_val (Some i)) (\<lambda>_. bnd (upd_dec de (\<lambda>d. d\<lparr>dvalue := None\<rparr>)) (\<lambda>_. ret de)))))"

definition store_at :: "bool \<Rightarrow> nat option \<Rightarrow> nat \<Rightarrow> hbval \<Rightarrow> unit vm" where
  \<comment> \<open>the end of _vstore. For an element of an array, v and e are not set\<close>
  "store_at public e de t =
     bnd (add_val t) (\<lambda>s. case s of
       None \<Rightarrow> raise (Sys MEMBUF_OVERFLOW)
     | Some i \<Rightarrow>
         bnd (case t of
             VOther ty bs \<Rightarrow>
               if ty = ARRAYTYP then
                 (case e of
                   None \<Rightarrow> raise Undefined
                 | Some e \<Rightarrow> bnd vars_of (\<lambda>S.
                     bnd (get_decs (prod_list (words_of bs)) (if public then 0 else curr_lvl S) e de) (\<lambda>de.
                     bnd (upd_var e (\<lambda>v. v\<lparr>dec_entry := de\<rparr>)) (\<lambda>_. ret de))))
               else ret de
           | _ \<Rightarrow> ret de) (\<lambda>de.
         upd_dec de (\<lambda>d. d\<lparr>dvalue := Some i\<rparr>)))"

definition store_var :: "bool \<Rightarrow> unit vm" where
  "store_var public = bnd vars_of (\<lambda>S.
     if array_de S \<noteq> 0 then
       bnd (upd (\<lambda>S. S\<lparr>array_de := 0\<rparr>)) (\<lambda>_. bnd pop (\<lambda>t. store_at public None (array_de S) t))
     else
       bnd (varsrin True) (\<lambda>e. bnd pop (\<lambda>_. bnd pop (\<lambda>t.
       bnd (place_of public e t) (\<lambda>de. store_at public (Some e) de t)))))"

definition vstore :: "nat \<Rightarrow> hbval list \<Rightarrow> unit vm" where
  "vstore name pool = bnd (if name \<noteq> ON_STACK then push_opnd name pool else ret ()) (\<lambda>_. store_var False)"

section \<open>Scopes\<close>

definition vmatch :: "nat \<Rightarrow> string \<Rightarrow> bool vm" where
  \<comment> \<open>the patterns and names on the stack are strings\<close>
  "vmatch mode name =
     (let pat = (\<lambda>n. bnd (peek n) (\<lambda>v. case v of VChar p \<Rightarrow> ret p | _ \<Rightarrow> raise Undefined)) in
      if is_pattern_match mode then
        bnd (if mode_has mode R_EXCEPT then bnd (pat 0) (\<lambda>p. ret (namecmp name p (length p) ID_PARTIAL = 0)) else ret False) (\<lambda>x.
        if x then ret False
        else if mode_has mode R_LIKE then
          bnd (pat (if mode_has mode R_EXCEPT then 1 else 0)) (\<lambda>p. ret (namecmp name p (length p) ID_PARTIAL = 0))
        else ret True)
      else
        foldr (\<lambda>i m. bnd (pat i) (\<lambda>p. if namecmp name p (length p) ID_VNAME = 0 then ret True else m))
          [0 ..< match_count mode] (ret False))"

datatype dloc = Head nat | Link nat

definition at_dloc :: "dloc \<Rightarrow> vars \<Rightarrow> nat" where
  "at_dloc l S = (case l of Head i \<Rightarrow> vlevel S i | Link j \<Rightarrow> link (dec_table S j))"

definition set_dloc :: "dloc \<Rightarrow> nat \<Rightarrow> unit vm" where
  "set_dloc l e = (case l of
       Head i \<Rightarrow> upd (\<lambda>S. S\<lparr>vlevel := (vlevel S)(i := e)\<rparr>)
     | Link j \<Rightarrow> upd_dec j (\<lambda>d. d\<lparr>link := e\<rparr>))"

primrec release_decs :: "nat \<Rightarrow> dloc \<Rightarrow> nat \<Rightarrow> unit vm" where
  \<comment> \<open>do .. while (dec->var_entry == ve), where e = *ip\<close>
  "release_decs 0 ip ve = raise NoFuel"
| "release_decs (Suc k) ip ve = bnd vars_of (\<lambda>S.
     let e = at_dloc ip S in
     bnd (del_val (dvalue (dec_table S e))) (\<lambda>_.
     bnd (upd_dec e (\<lambda>d. d\<lparr>var_entry := 0\<rparr>)) (\<lambda>_. bnd vars_of (\<lambda>S.
     bnd (set_dloc ip (link (dec_table S e))) (\<lambda>_.
     bnd (upd_dec e (\<lambda>d. d\<lparr>link := link (dec_table S 0)\<rparr>)) (\<lambda>_.
     bnd (upd_dec 0 (\<lambda>d. d\<lparr>link := e\<rparr>)) (\<lambda>_. bnd vars_of (\<lambda>S.
     if var_entry (dec_table S (at_dloc ip S)) = ve then release_decs k ip ve else ret ()))))))))"

primrec release_loop :: "nat \<Rightarrow> nat \<Rightarrow> dloc \<Rightarrow> unit vm" where
  "release_loop 0 mode ip = raise NoFuel"
| "release_loop (Suc k) mode ip = bnd vars_of (\<lambda>S.
     let e = at_dloc ip S in
     if e = 0 then ret ()
     else
       let ve = var_entry (dec_table S e); p = prior (dec_table S e) in
       bnd (vmatch mode (var_name (var_table S ve))) (\<lambda>m.
       if m then
         bnd (upd_var ve (\<lambda>v. v\<lparr>dec_entry := (if p = - 1 then 0 else nat p)\<rparr>)) (\<lambda>_.
         bnd (if p = - 1 \<or> p = 0 then
                bnd (upd_var ve (\<lambda>v. v\<lparr>hnext := hnext (var_table S 0)\<rparr>)) (\<lambda>_. upd_var 0 (\<lambda>v. v\<lparr>hnext := ve\<rparr>))
              else ret ()) (\<lambda>_.
         bnd (release_decs (DCLNTABSZ + 1) ip ve) (\<lambda>_. release_loop k mode ip)))
       else release_loop k mode (Link e)))"

primrec on_chain :: "nat \<Rightarrow> (dcln \<Rightarrow> dcln) \<Rightarrow> nat \<Rightarrow> unit vm" where
  "on_chain 0 f i = raise NoFuel"
| "on_chain (Suc k) f i =
     (if i = 0 then ret () else bnd (upd_dec i f) (\<lambda>_. bnd vars_of (\<lambda>S. on_chain k f (link (dec_table S i)))))"

definition release :: "nat \<Rightarrow> unit vm" where
  "release mode = bnd vars_of (\<lambda>S.
     bnd (release_loop (DCLNTABSZ + 1) mode (Head (curr_lvl S))) (\<lambda>_.
     if mode_has mode R_PROC then
       bnd vars_of (\<lambda>S.
       bnd (if 1 < curr_lvl S then on_chain (DCLNTABSZ + 1) (\<lambda>d. d\<lparr>dlevel := 0\<rparr>) (vlevel S (curr_lvl S - 1)) else ret ()) (\<lambda>_.
       bnd vars_of (\<lambda>S.
       on_chain (DCLNTABSZ + 1) (\<lambda>d. if dlevel d = curr_lvl S then d\<lparr>dlevel := 0\<rparr> else d) (vlevel S 0))))
     else vclr_stack mode))"

definition public_var :: "nat \<Rightarrow> hbval list \<Rightarrow> unit vm" where
  \<comment> \<open>public\<close>
  "public_var name pool =
     bnd (if name = ON_STACK then bnd (peek 0) (\<lambda>v. ret (Some v)) else ret None) (\<lambda>v.
     bnd (on_stk (push (VOther UNDEF []))) (\<lambda>_.
     bnd (case v of Some v \<Rightarrow> on_stk (push v) | None \<Rightarrow> push_opnd name pool) (\<lambda>_.
     bnd (store_var True) (\<lambda>_.
     if name = ON_STACK then bnd pop (\<lambda>_. ret ()) else ret ()))))"

primrec private_level :: "nat \<Rightarrow> nat \<Rightarrow> nat \<Rightarrow> unit vm" where
  "private_level 0 mode j = raise NoFuel"
| "private_level (Suc k) mode j =
     (if j = 0 then ret ()
      else bnd vars_of (\<lambda>S. let d = dec_table S j in
        bnd (vmatch mode (var_name (var_table S (var_entry d)))) (\<lambda>m.
        bnd (if m \<and> dlevel d = 0 then upd_dec j (\<lambda>d. d\<lparr>dlevel := curr_lvl S\<rparr>) else ret ()) (\<lambda>_.
        private_level k mode (link d)))))"

definition private_vars :: "nat \<Rightarrow> unit vm" where
  \<comment> \<open>private\<close>
  "private_vars mode = bnd vars_of (\<lambda>S.
     if curr_lvl S = 0 then raise (Syn NO_PRIVATE)
     else
       bnd (for_levels [0 ..< curr_lvl S] (\<lambda>i. bnd vars_of (\<lambda>S. private_level (DCLNTABSZ + 1) mode (vlevel S i)))) (\<lambda>_.
       vclr_stack mode))"

definition addr_of :: "nat \<Rightarrow> hbval list \<Rightarrow> unit vm" where
  \<comment> \<open>addr: the reference that a parameter by reference gets\<close>
  "addr_of vname pool =
     (if vname \<noteq> ON_STACK then
        bnd (push_opnd vname pool) (\<lambda>_. bnd (varsrin False) (\<lambda>e.
        if e = 0 then raise (Syn UNDEF_VAR)
        else
          bnd pop (\<lambda>_. bnd vars_of (\<lambda>S. let e = dec_entry (var_table S e) in
          if dlevel (dec_table S e) \<noteq> 0 then raise (Syn UNDEF_VAR)
          else on_stk (push (VOther ADDR (bytes_le 2 e)))))))
      else
        bnd vars_of (\<lambda>S. bnd (upd (\<lambda>S. S\<lparr>array_de := 0\<rparr>)) (\<lambda>_. on_stk (push (VOther ADDR (bytes_le 2 (array_de S)))))))"

primrec array_dims :: "nat \<Rightarrow> int \<Rightarrow> 8 word list vm" where
  \<comment> \<open>for (i=0; i<dim; ++i) of arraydef with k = dim - i: the dimensions as words\<close>
  "array_dims 0 tele = ret []"
| "array_dims (Suc k) tele =
     bnd (peek (Suc k + 1)) (\<lambda>v.
     if val_typ v \<noteq> NUMBER then raise (Syn INVALID_TYPE)
     else if val_is_real v then raise (Syn INVALID_VALUE)
     else (case v of
       VNum (NInt d n) \<Rightarrow>
         let nele = sint (ucast n :: 32 word) in
         if nele \<le> 0 then raise (Syn BAD_DIM)
         else
           let tele = sint (word_of_int (tele * nele) :: 32 word) in
           if MAXAELE < tele then raise (Syn ARRAY_TOOBIG)
           else bnd (array_dims k tele) (\<lambda>a. ret (bytes_le 2 (nat nele mod 65536) @ a))
     | _ \<Rightarrow> raise Undefined))"

definition arraydef :: "nat \<Rightarrow> hbval list \<Rightarrow> unit vm" where
  \<comment> \<open>the low 7 bits of the count of dimensions, whose bit 7 says that the array is public\<close>
  "arraydef aname pool =
     bnd (push_opnd aname pool) (\<lambda>_. bnd (peek 1) (\<lambda>v. bnd (dword_of v) (\<lambda>n.
     let public = odd (n div 128); dm = n mod 128 in
     if int MAXADIM < dm then raise (Syn TOOMANY_DIM)
     else
       bnd (array_dims (nat dm) 1) (\<lambda>a.
       bnd (on_stk (push (VOther ARRAYTYP a))) (\<lambda>_.
       bnd (peek 1) (\<lambda>v. bnd (on_stk (push v)) (\<lambda>_.
       bnd (store_var public) (\<lambda>_. vclr_stack (nat dm + 2)))))))))"

definition vtype :: "hbval option \<Rightarrow> char" where
  "vtype v = (case v of
       None \<Rightarrow> CHR ''U''
     | Some v \<Rightarrow>
         if val_typ v = NUMBER then CHR ''N'' else if val_typ v = CHARCTR then CHR ''C'' else if val_typ v = DATE then CHR ''D''
         else if val_typ v = LOGIC then CHR ''L'' else if val_typ v = ADDR then CHR ''@'' else if val_typ v = ARRAYTYP then CHR ''A''
         else CHR ''U'')"

end
