(* ===== verification/Variable_Maps.thy ===== *)
theory Variable_Maps
  imports Variables
begin

text \<open>
  Memory variables are a map from names to values: what var_table, dec_table and the buffer hold after any stores into scalar variables
  (keeps), how each operation changes it, and the properties of var.c.
\<close>

declare upt_Suc [simp del]

section \<open>Names\<close>

definition key :: "string \<Rightarrow> string" where
  "key n = map to_upper n"

definition name_ok :: "string \<Rightarrow> bool" where
  "name_ok n \<longleftrightarrow> n \<noteq> [] \<and> length n \<le> VNAMELEN \<and> good_name (key n)"

lemma hash_key: "hash_code (key n) = hash_code n" if "n \<noteq> []"
proof -
  have "uc (key n ! i) = uc (n ! i)" if "i < length n" for i
    using that by (simp add: key_def uc_def to_upper_idem)
  then show ?thesis using that by (simp add: hash_code_def key_def Let_def)
qed

lemma namecmp_key:
  assumes "good_name k" and "good_name (key p)" and "map to_upper k = k"
  shows "namecmp k p (length p) ID_VNAME = 0 \<longleftrightarrow> k = key p"
proof -
  let ?n = "length p"
  have inj: "upcodes a = upcodes b \<longleftrightarrow> map to_upper a = map to_upper b" for a b
    using inj_map_eq_map [of schar "map to_upper a" "map to_upper b"] by (simp add: inj_on_def schar_inj o_def)
  have pos: "\<forall>c \<in> set k. 0 < schar (to_upper c)" using good_nameD [OF assms(1)] by blast
  have c: "codes ?n p = upcodes p" by (simp add: codes_def)
  have "namecmp k p ?n ID_VNAME = 0 \<longleftrightarrow> codes (Suc ?n) k = upcodes p @ [0]"
    using namecmp_loop_vname [OF good_nameD [OF assms(1)], of ?n p] by (simp add: namecmp_def c)
  also have "\<dots> \<longleftrightarrow> upcodes k = upcodes p"
  proof
    assume h: "codes (Suc ?n) k = upcodes p @ [0]"
    have "\<not> ?n < length k"
    proof
      assume l: "?n < length k"
      then have "codes (Suc ?n) k ! ?n = schar (to_upper (k ! ?n))" by (simp add: codes_def nth_append)
      then show False using h pos l by (metis length_map less_irrefl nth_append_length nth_mem)
    qed
    moreover have "codes ?n k = upcodes p" using arg_cong [OF h, of "take ?n"] unfolding codes_take by simp
    ultimately have u: "upcodes k @ replicate (?n - length k) 0 = upcodes p" by (simp add: codes_def)
    have "\<forall>x\<in>set (upcodes p). 0 < x"
      using good_nameD(2) [OF assms(2)] by (auto simp: key_def to_upper_idem)
    have "?n \<le> length k"
    proof (rule ccontr)
      assume "\<not> ?n \<le> length k"
      then have "0 \<in> set (upcodes k @ replicate (?n - length k) 0)" by simp
      then have "0 \<in> set (upcodes p)" by (simp only: u)
      then show False using \<open>\<forall>x\<in>set (upcodes p). 0 < x\<close> by blast
    qed
    then show "upcodes k = upcodes p" using u by simp
  next
    assume h: "upcodes k = upcodes p"
    then have "length k = ?n" by (metis length_map)
    with h show "codes (Suc ?n) k = upcodes p @ [0]" by (simp add: codes_def)
  qed
  also have "\<dots> \<longleftrightarrow> k = key p" unfolding inj using assms(3) by (simp add: key_def)
  finally show ?thesis .
qed

section \<open>Chains\<close>

definition nxt :: "string list \<Rightarrow> nat \<Rightarrow> nat \<Rightarrow> nat" where
  \<comment> \<open>the first entry behind i whose name has the hash h; entry j has the name K ! (j - 1)\<close>
  "nxt K h i = (case filter (\<lambda>j. hash_code (K ! (j - 1)) = h) [i + 1 ..< length K + 1] of [] \<Rightarrow> 0 | j # _ \<Rightarrow> j)"

lemma filter_upt_first:
  assumes "i \<le> j" and "j < n" and "P j"
  shows "\<exists>e xs. filter P [i ..< n] = e # xs \<and> i \<le> e \<and> e \<le> j \<and> P e"
proof -
  have split: "[i ..< n] = [i ..< Suc j] @ [Suc j ..< n]" using assms by (metis le_SucI less_eq_Suc_le upt_add_eq_append le_add_diff_inverse)
  have "j \<in> set (filter P [i ..< Suc j])" using assms by auto
  then obtain e xs where e: "filter P [i ..< Suc j] = e # xs" by (cases "filter P [i ..< Suc j]") (auto simp del: upt_Suc)
  have "e \<in> set (filter P [i ..< Suc j])" unfolding e by simp
  then have "i \<le> e \<and> e \<le> j \<and> P e" by (simp del: upt_Suc)
  then show ?thesis using e unfolding split filter_append by simp
qed

lemma nxt_first:
  assumes "i < j" and "j \<le> length K" and "hash_code (K ! (j - 1)) = h"
  shows "i < nxt K h i \<and> nxt K h i \<le> j \<and> hash_code (K ! (nxt K h i - 1)) = h"
  using filter_upt_first [of "i + 1" j "length K + 1" "\<lambda>j. hash_code (K ! (j - 1)) = h"] assms by (auto simp: nxt_def)

lemma nxt_cases:
  obtains "nxt K h i = 0" and "\<And>j. i < j \<Longrightarrow> j \<le> length K \<Longrightarrow> hash_code (K ! (j - 1)) \<noteq> h"
    | "i < nxt K h i" and "nxt K h i \<le> length K" and "hash_code (K ! (nxt K h i - 1)) = h"
proof (cases "\<exists>j. i < j \<and> j \<le> length K \<and> hash_code (K ! (j - 1)) = h")
  case True
  then obtain j where j: "i < j" "j \<le> length K" "hash_code (K ! (j - 1)) = h" by blast
  then show ?thesis using nxt_first [OF j] by (intro that(2)) auto
next
  case False
  then have "filter (\<lambda>j. hash_code (K ! (j - 1)) = h) [i + 1 ..< length K + 1] = []" by (auto simp: filter_empty_conv)
  then show ?thesis using that(1) False by (simp add: nxt_def)
qed


section \<open>The state after stores\<close>

definition scalar :: "hbval \<Rightarrow> bool" where
  "scalar v \<longleftrightarrow> val_typ v \<noteq> ARRAYTYP \<and> val_typ v \<noteq> ADDR"

definition chained :: "vars \<Rightarrow> string list \<Rightarrow> bool" where
  \<comment> \<open>the entries 1, 2, .. have the names K, in the order in which they were first stored\<close>
  "chained S K \<longleftrightarrow> (let n = length K in
     n < VARTABSZ \<and> distinct K \<and> (\<forall>k\<in>set K. good_name k \<and> k \<noteq> [] \<and> map to_upper k = k)
     \<and> hnext (var_table S 0) = n + 1 \<and> dec_entry (var_table S 0) = 0
     \<and> (\<forall>i. 1 \<le> i \<longrightarrow> i \<le> n \<longrightarrow> var_name (var_table S i) = K ! (i - 1) \<and> dec_entry (var_table S i) = i
          \<and> hnext (var_table S i) = nxt K (hash_code (K ! (i - 1))) i)
     \<and> (\<forall>i. n < i \<longrightarrow> i < VARTABSZ \<longrightarrow> dec_entry (var_table S i) = 0 \<and> hnext (var_table S i) = i + 1)
     \<and> (\<forall>h. hash_table S h = nxt K h 0))"

definition declared :: "vars \<Rightarrow> nat \<Rightarrow> bool" where
  "declared S n \<longleftrightarrow> link (dec_table S 0) = n + 1 \<and> var_entry (dec_table S 0) = 0
     \<and> (\<forall>i. 1 \<le> i \<longrightarrow> i \<le> n \<longrightarrow> dlevel (dec_table S i) = 0 \<and> link (dec_table S i) = i - 1
          \<and> var_entry (dec_table S i) = i \<and> (prior (dec_table S i) = 0 \<or> prior (dec_table S i) = - 1))
     \<and> (\<forall>i. n < i \<longrightarrow> i < DCLNTABSZ \<longrightarrow> dlevel (dec_table S i) = 0 \<and> link (dec_table S i) = i + 1)
     \<and> (\<forall>l. vlevel S l = (if l = curr_lvl S then n else 0))"

definition valued :: "vars \<Rightarrow> hbval list \<Rightarrow> bool" where
  "valued S V \<longleftrightarrow> length (val_buf S) = length V \<and> (\<forall>v\<in>set V. scalar v)
     \<and> (\<forall>i. 1 \<le> i \<longrightarrow> i \<le> length V \<longrightarrow> (\<exists>x<length V. dvalue (dec_table S i) = Some x \<and> val_buf S ! x = V ! (i - 1)))
     \<and> inj_on (\<lambda>i. dvalue (dec_table S i)) {1 .. length V}"

definition keeps_vars :: "vars \<Rightarrow> string list \<Rightarrow> hbval list \<Rightarrow> bool" where
  "keeps_vars S K V \<longleftrightarrow> array_de S = 0 \<and> length V = length K \<and> chained S K \<and> declared S (length K) \<and> valued S V"

definition loc_of :: "nat \<Rightarrow> nat \<Rightarrow> loc" where
  "loc_of h i = (if i = 0 then Bucket h else Next i)"

lemma at_loc_of:
  assumes "chained S K" and "i \<le> length K" and "i = 0 \<or> hash_code (K ! (i - 1)) = h"
  shows "at_loc (loc_of h i) S = nxt K h i"
  using assms by (auto simp: loc_of_def at_loc_def chained_def Let_def)

lemma vars_of_app [simp]: "bnd vars_of f (s, S) = f S (s, S)"
  by (simp add: vars_of_def cm_simps)

lemma upd_app [simp]: "upd f (s, S) = (Inr (), (s, f S))"
  by (simp add: upd_def cm_simps)

lemma top_name_app [simp]: "bnd top_name f (VChar p # s, S) = f p (VChar p # s, S)"
  by (simp add: top_name_def cm_simps)

lemma entry_match:
  assumes "chained S K" and "1 \<le> e" and "e \<le> length K" and "name_ok p"
  shows "namecmp (var_name (var_table S e)) p (length p) ID_VNAME = 0 \<longleftrightarrow> K ! (e - 1) = key p"
proof -
  have "K ! (e - 1) \<in> set K" using assms(2,3) by simp
  then show ?thesis using assms namecmp_key [of "K ! (e - 1)" p] by (auto simp: chained_def Let_def name_ok_def)
qed





lemma hash_app: "name_ok p \<Longrightarrow> bnd hash f (VChar p # s, S) = f (hash_code p) (VChar p # s, S)"
  by (cases p) (simp_all add: hash_def bnd_assoc name_ok_def)



section \<open>Values\<close>

definition moved_down :: "nat \<Rightarrow> dcln \<Rightarrow> dcln" where
  "moved_down i d = d\<lparr>dvalue := (case dvalue d of None \<Rightarrow> None | Some x \<Rightarrow> Some (if i < x then x - 1 else x))\<rparr>"

lemma moved_down_simps [simp]:
  "dlevel (moved_down i d) = dlevel d" "link (moved_down i d) = link d" "prior (moved_down i d) = prior d" "var_entry (moved_down i d) = var_entry d"
  by (simp_all add: moved_down_def)

lemma shift_level_chain:
  assumes "\<forall>j. 1 \<le> j \<longrightarrow> j \<le> n \<longrightarrow> link (dec_table S j) = j - 1" and "n < k"
  shows "shift_level k i n (s, S) = (Inr (), (s, S\<lparr>dec_table := (\<lambda>j. if 1 \<le> j \<and> j \<le> n then moved_down i (dec_table S j) else dec_table S j)\<rparr>))"
  using assms
proof (induction n arbitrary: k S)
  case 0
  have "(\<lambda>j. if 1 \<le> j \<and> j \<le> 0 then moved_down i (dec_table S j) else dec_table S j) = dec_table S" by auto
  then show ?case using 0 by (cases k) (simp_all add: ret_app)
next
  case (Suc n)
  obtain k' where k: "k = Suc k'" using Suc.prems(2) by (cases k) auto
  let ?S = "S\<lparr>dec_table := (dec_table S)(Suc n := moved_down i (dec_table S (Suc n)))\<rparr>"
  have "shift_level k i (Suc n) (s, S) = shift_level k' i n (s, ?S)"
    using Suc.prems(1) by (simp add: k upd_dec_def bnd_app [of "upd _"] moved_down_def)
  also have "\<dots> = (Inr (), (s, ?S\<lparr>dec_table := (\<lambda>j. if 1 \<le> j \<and> j \<le> n then moved_down i (dec_table ?S j) else dec_table ?S j)\<rparr>))"
    by (rule Suc.IH) (use Suc.prems k in auto)
  also have "\<dots> = (Inr (), (s, S\<lparr>dec_table := (\<lambda>j. if 1 \<le> j \<and> j \<le> Suc n then moved_down i (dec_table S j) else dec_table S j)\<rparr>))"
  proof -
    have "(\<lambda>j. if 1 \<le> j \<and> j \<le> n then moved_down i (dec_table ?S j) else dec_table ?S j)
        = (\<lambda>j. if 1 \<le> j \<and> j \<le> Suc n then moved_down i (dec_table S j) else dec_table S j)" by (auto simp: fun_eq_iff)
    then show ?thesis by (simp del: One_nat_def)
  qed
  finally show ?case .
qed

lemma shift_level_none: "0 < k \<Longrightarrow> shift_level k i 0 m = (Inr (), m)"
  by (cases k) (simp_all add: ret_app)

lemma for_levels_append: "for_levels (xs @ ys) f = bnd (for_levels xs f) (\<lambda>_. for_levels ys f)"
  by (induction xs) (simp_all add: bnd_assoc)

lemma for_levels_skip: "(\<And>l. l \<in> set xs \<Longrightarrow> f l m = (Inr (), m)) \<Longrightarrow> for_levels xs f m = (Inr (), m)"
  by (induction xs) (simp_all add: ret_app bnd_app)

lemma del_val_app:
  assumes d: "declared S n" "n < DCLNTABSZ" and i: "i < length (val_buf S)"
  shows "del_val (Some i) (s, S) = (Inr (), (s, S\<lparr>dec_table := (\<lambda>j. if 1 \<le> j \<and> j \<le> n then moved_down i (dec_table S j) else dec_table S j),
     val_buf := take i (val_buf S) @ drop (i + 1) (val_buf S)\<rparr>))"
proof -
  let ?f = "\<lambda>l. bnd vars_of (\<lambda>S. shift_level (DCLNTABSZ + 1) i (vlevel S l))" and ?lvl = "curr_lvl S"
  have v: "vlevel S l = (if l = ?lvl then n else 0)" for l using d(1) by (simp add: declared_def)
  have "[0 ..< ?lvl + 1] = [0 ..< ?lvl] @ [?lvl]" by (simp add: upt_Suc)
  moreover have "for_levels [0 ..< ?lvl] ?f (s, S) = (Inr (), (s, S))"
    by (rule for_levels_skip) (simp add: v shift_level_none)
  moreover have "shift_level (DCLNTABSZ + 1) i n (s, S)
      = (Inr (), (s, S\<lparr>dec_table := (\<lambda>j. if 1 \<le> j \<and> j \<le> n then moved_down i (dec_table S j) else dec_table S j)\<rparr>))"
    by (rule shift_level_chain) (use d in \<open>auto simp: declared_def\<close>)
  then have "?f ?lvl (s, S) = (Inr (), (s, S\<lparr>dec_table := (\<lambda>j. if 1 \<le> j \<and> j \<le> n then moved_down i (dec_table S j) else dec_table S j)\<rparr>))"
    by (simp only: vars_of_app v if_True simp_thms)
  ultimately have "for_levels [0 ..< ?lvl + 1] ?f (s, S) = (Inr (), (s, S\<lparr>dec_table := (\<lambda>j. if 1 \<le> j \<and> j \<le> n then moved_down i (dec_table S j) else dec_table S j)\<rparr>))"
    by (simp only: for_levels_append for_levels.simps bnd_app [of "for_levels _ _"] bnd_app [of "?f _"] prod.case sum.case) (simp only: bnd_app ret_app prod.case sum.case)
  then show ?thesis using i by (simp add: del_val_def bnd_app [of "for_levels _ _"] del: upt_Suc)
qed


section \<open>Stores\<close>



lemma pop_app [simp]: "bnd pop f (v # s, S) = f v (s, S)"
  by (simp add: pop_def on_stk_def pop_any_def bnd_app)



lemma nth_without: "x < length xs \<Longrightarrow> y < length xs \<Longrightarrow> y \<noteq> x \<Longrightarrow> (take x xs @ drop (x + 1) xs) ! (if x < y then y - 1 else y) = xs ! y"
  by (auto simp: nth_append)


section \<open>Any number of stores\<close>











section \<open>Reads\<close>

lemma deref_val_scalar:
  assumes "0 < k" and "x < length (val_buf S)" and "scalar (val_buf S ! x)"
  shows "deref_val k (Some x) (s, S) = (Inr (val_buf S ! x), (s, S))"
  using assms by (cases k; cases "val_buf S ! x") (simp_all add: ret_app scalar_def)

lemma read_found:
  assumes "varsrin False (VChar p # s, S) = (Inr e, (VChar p # s, S))" and "e \<noteq> 0" and "array_de S = 0"
    and "dlevel (dec_table S (dec_entry (var_table S e))) = 0" and "dvalue (dec_table S (dec_entry (var_table S e))) = Some x"
    and "x < length (val_buf S)" and "scalar (val_buf S ! x)" and "stk_bytes s + val_size (val_buf S ! x) \<le> STACKSZ - 1"
  shows "v_retrv (VChar p # s, S) = (Inr (), (val_buf S ! x # s, S))"
proof -
  have "decl_of (VChar p # s, S) = (Inr (dec_entry (var_table S e)), (s, S))"
    using assms(1-3) by (simp add: decl_of_def bnd_app [of "varsrin _"] ret_app)
  moreover have "deref_val (DCLNTABSZ + 1) (Some x) (s, S) = (Inr (val_buf S ! x), (s, S))"
    by (rule deref_val_scalar) (use assms(6,7) in simp_all)
  ultimately show ?thesis
    using assms(4-8) by (simp add: v_retrv_def vretrv_def bnd_app [of decl_of] bnd_app [of "deref_val _ _"] Let_def scalar_def on_stk_def push_app)
qed

lemma read_unknown:
  assumes "varsrin False (VChar p # s, S) = (Inr 0, (VChar p # s, S))" and "array_de S = 0"
  shows "v_retrv (VChar p # s, S) = (Inl (Syn UNDEF_VAR), (VChar p # s, S))"
  using assms by (simp add: v_retrv_def vretrv_def decl_of_def bnd_app [of "bnd _ _"] bnd_app [of "varsrin _"] raise_def)

lemma valuedD: "valued S V \<Longrightarrow> 1 \<le> i \<Longrightarrow> i \<le> length V \<Longrightarrow> \<exists>x<length V. dvalue (dec_table S i) = Some x \<and> val_buf S ! x = V ! (i - 1)"
  by (simp add: valued_def)





section \<open>RELEASE\<close>

lemma vmatch_one: "vmatch 1 n (VChar p # s, S) = (Inr (namecmp n p (length p) ID_VNAME = 0), (VChar p # s, S))"
  by (simp add: vmatch_def is_pattern_match_def match_count_def Let_def upt_rec peek_def cm_simps)

lemma release_walk:
  assumes "\<forall>e. m < e \<longrightarrow> e \<le> i \<longrightarrow> link (dec_table S e) = e - 1 \<and> var_entry (dec_table S e) = e
      \<and> namecmp (var_name (var_table S e)) p (length p) ID_VNAME \<noteq> 0"
    and "m \<le> i" and "at_dloc ip S = i" and "i - m < k"
  shows "release_loop k 1 ip (VChar p # s, S) = release_loop (k - (i - m)) 1 (if i = m then ip else Link (m + 1)) (VChar p # s, S)"
  using assms
proof (induction "i - m" arbitrary: i ip k)
  case (Suc d)
  obtain k' where k: "k = Suc k'" using Suc.prems(4) by (cases k) auto
  have i: "m < i" using Suc.hyps(2) by linarith
  then have e: "link (dec_table S i) = i - 1" "var_entry (dec_table S i) = i"
      "namecmp (var_name (var_table S i)) p (length p) ID_VNAME \<noteq> 0"
    using Suc.prems(1) by simp_all
  have "release_loop k 1 ip (VChar p # s, S) = release_loop k' 1 (Link i) (VChar p # s, S)"
    using i e Suc.prems(3) by (simp add: k Let_def bnd_app [of "vmatch _ _"] vmatch_one [simplified])
  also have "\<dots> = release_loop (k' - (i - 1 - m)) 1 (if i - 1 = m then Link i else Link (m + 1)) (VChar p # s, S)"
    by (rule Suc.hyps(1)) (use Suc.hyps(2) Suc.prems i e k in \<open>auto simp: at_dloc_def\<close>)
  also have "\<dots> = release_loop (k - (i - m)) 1 (if i = m then ip else Link (m + 1)) (VChar p # s, S)"
    using i k by (auto simp: Suc_diff_Suc)
  finally show ?case .
qed simp

definition put_dloc :: "dloc \<Rightarrow> nat \<Rightarrow> vars \<Rightarrow> vars" where
  "put_dloc l e S = (case l of
       Head i \<Rightarrow> S\<lparr>vlevel := (vlevel S)(i := e)\<rparr>
     | Link j \<Rightarrow> S\<lparr>dec_table := (dec_table S)(j := (dec_table S j)\<lparr>link := e\<rparr>)\<rparr>)"

lemma set_dloc_app: "set_dloc l e (s, S) = (Inr (), (s, put_dloc l e S))"
  by (simp add: set_dloc_def put_dloc_def upd_dec_def split: dloc.split)

definition unlinked :: "dloc \<Rightarrow> nat \<Rightarrow> vars \<Rightarrow> vars" where
  \<comment> \<open>the declaration j leaves its chain at ip for the free list\<close>
  "unlinked ip j S =
     (let S1 = put_dloc ip (link (dec_table S j)) (S\<lparr>dec_table := (dec_table S)(j := (dec_table S j)\<lparr>var_entry := 0\<rparr>)\<rparr>);
          D1 = (dec_table S1)(j := (dec_table S1 j)\<lparr>link := link (dec_table S 0)\<rparr>)
      in S1\<lparr>dec_table := D1(0 := (D1 0)\<lparr>link := j\<rparr>)\<rparr>)"

definition freed :: "dloc \<Rightarrow> nat \<Rightarrow> nat \<Rightarrow> nat \<Rightarrow> vars \<Rightarrow> vars" where
  \<comment> \<open>the declaration j of n is freed, whose value is number x in the buffer\<close>
  "freed ip x j n S = unlinked ip j (S\<lparr>
     dec_table := (\<lambda>i. if 1 \<le> i \<and> i \<le> n then moved_down x (dec_table S i) else dec_table S i),
     val_buf := take x (val_buf S) @ drop (x + 1) (val_buf S)\<rparr>)"

lemma freed_simps:
  assumes "1 \<le> j" and "ip = Head l \<or> ip = Link (j + 1)"
  shows "var_table (freed ip x j n S) = var_table S" and "hash_table (freed ip x j n S) = hash_table S"
    and "array_de (freed ip x j n S) = array_de S" and "curr_lvl (freed ip x j n S) = curr_lvl S"
    and "val_buf (freed ip x j n S) = take x (val_buf S) @ drop (x + 1) (val_buf S)"
    and "1 \<le> i \<Longrightarrow> i \<le> n \<Longrightarrow> i \<noteq> j \<Longrightarrow> dlevel (dec_table (freed ip x j n S) i) = dlevel (dec_table S i)
       \<and> dvalue (dec_table (freed ip x j n S) i) = dvalue (moved_down x (dec_table S i))"
    and "i < j \<Longrightarrow> 1 \<le> i \<Longrightarrow> link (dec_table (freed ip x j n S) i) = link (dec_table S i)"
    and "i < j \<Longrightarrow> var_entry (dec_table (freed ip x j n S) i) = var_entry (dec_table S i)"
    and "link (dec_table S j) = j - 1 \<Longrightarrow> at_dloc ip (freed ip x j n S) = j - 1"
  using assms by (auto simp: freed_def unlinked_def put_dloc_def at_dloc_def Let_def)

lemma release_decs_step:
  assumes "del_val (dvalue (dec_table S j)) (s, S) = (Inr (), (s, S1))" and "j \<noteq> 0" and "ip \<noteq> Link 0" and "at_dloc ip S = j"
    and "var_entry (dec_table (unlinked ip j S1) (at_dloc ip (unlinked ip j S1))) \<noteq> j"
  shows "release_decs (Suc k) ip j (s, S) = (Inr (), (s, unlinked ip j S1))"
  using assms
  by (cases ip) (simp_all add: Let_def bnd_app [of "del_val _"] bnd_app [of "set_dloc _ _"] set_dloc_app upd_dec_def bnd_app [of "upd _"] ret_app
      unlinked_def put_dloc_def at_dloc_def)

lemma release_decs_app:
  assumes d: "declared S n" "n < DCLNTABSZ" "1 \<le> j" "j \<le> n" and x: "dvalue (dec_table S j) = Some x" "x < length (val_buf S)"
    and ip: "ip = Head l \<or> ip = Link (j + 1)" "at_dloc ip S = j"
  shows "release_decs (Suc k) ip j (s, S) = (Inr (), (s, freed ip x j n S))"
proof -
  have l: "link (dec_table S j) = j - 1" "var_entry (dec_table S (j - 1)) \<noteq> j"
    using d by (cases "j = 1"; auto simp: declared_def)+
  have "var_entry (dec_table (freed ip x j n S) (at_dloc ip (freed ip x j n S))) \<noteq> j"
    using freed_simps(8,9) [OF d(3) ip(1)] l d(3) by simp
  moreover have "j \<noteq> 0" "ip \<noteq> Link 0" using d(3) ip(1) by auto
  ultimately show ?thesis
    using release_decs_step [OF del_val_app [OF d(1,2) x(2), folded x(1)], of ip k s] ip(2) unfolding freed_def by simp
qed

definition detached :: "nat \<Rightarrow> nat \<Rightarrow> vars \<Rightarrow> vars" where
  \<comment> \<open>the entry j of n names is freed\<close>
  "detached j n S =
     (let T = (var_table S)(j := (var_table S j)\<lparr>dec_entry := 0, hnext := n + 1\<rparr>) in S\<lparr>var_table := T(0 := (T 0)\<lparr>hnext := j\<rparr>)\<rparr>)"

lemma detached_simps [simp]:
  "dec_table (detached j n S) = dec_table S" "hash_table (detached j n S) = hash_table S" "val_buf (detached j n S) = val_buf S"
  "vlevel (detached j n S) = vlevel S" "array_de (detached j n S) = array_de S" "curr_lvl (detached j n S) = curr_lvl S"
  by (simp_all add: detached_def Let_def)

lemma release_entry:
  assumes e: "at_dloc ip S = j" "j \<noteq> 0" "var_entry (dec_table S j) = j" "prior (dec_table S j) = 0 \<or> prior (dec_table S j) = - 1"
    and n: "hnext (var_table S 0) = n + 1" and m: "namecmp (var_name (var_table S j)) p (length p) ID_VNAME = 0"
    and d: "release_decs (DCLNTABSZ + 1) ip j (VChar p # s, detached j n S) = (Inr (), (VChar p # s, S'))"
  shows "release_loop (Suc k) 1 ip (VChar p # s, S) = release_loop k 1 ip (VChar p # s, S')"
proof -
  have "upd_var j (\<lambda>v. v\<lparr>dec_entry := (if prior (dec_table S j) = - 1 then 0 else nat (prior (dec_table S j)))\<rparr>) (VChar p # s, S)
      = (Inr (), (VChar p # s, S\<lparr>var_table := (var_table S)(j := (var_table S j)\<lparr>dec_entry := 0\<rparr>)\<rparr>))"
    using e(4) by (auto simp: upd_var_def)
  then have "release_loop (Suc k) 1 ip (VChar p # s, S)
      = bnd (release_decs (DCLNTABSZ + 1) ip j) (\<lambda>_. release_loop k 1 ip) (VChar p # s, detached j n S)"
    using e m n by (auto simp: Let_def bnd_app [of "vmatch _ _"] vmatch_one [simplified] bnd_app [of "upd _"] bnd_assoc
        upd_var_def detached_def simp del: release_decs.simps)
  then show ?thesis by (simp only: bnd_app [of "release_decs _ _ _"] d sum.case prod.case)
qed

lemma release_run:
  assumes k: "keeps_vars S K V" and p: "name_ok p" and j: "1 \<le> j" "j \<le> length K" "K ! (j - 1) = key p"
  shows "\<exists>ip x l. release 1 (VChar p # s, S) = (Inr (), (s, freed ip x j (length K) (detached j (length K) S)))
    \<and> (ip = Head l \<or> ip = Link (j + 1)) \<and> dvalue (dec_table S j) = Some x \<and> x < length K"
proof -
  let ?n = "length K" and ?p = "VChar p # s" and ?F = "DCLNTABSZ + 1"
  have c: "chained S K" "declared S ?n" "valued S V" "length V = ?n" "distinct K"
    using k by (simp_all add: keeps_vars_def chained_def Let_def)
  have n: "?n < DCLNTABSZ" "hnext (var_table S 0) = ?n + 1" using c(1) by (simp_all add: chained_def Let_def)
  have dec: "link (dec_table S e) = e - 1" "var_entry (dec_table S e) = e" "prior (dec_table S e) = 0 \<or> prior (dec_table S e) = - 1"
    if "1 \<le> e" "e \<le> ?n" for e using c(2) that by (auto simp: declared_def)
  have cmp: "namecmp (var_name (var_table S e)) p (length p) ID_VNAME = 0 \<longleftrightarrow> e = j" if "1 \<le> e" "e \<le> ?n" for e
    using entry_match [OF c(1) that p] nth_eq_iff_index_eq [OF c(5), of "e - 1" "j - 1"] that j by auto
  obtain x where x: "x < ?n" "dvalue (dec_table S j) = Some x" using valuedD [OF c(3) j(1)] j(2) c(4) by auto
  define ip where "ip = (if ?n = j then Head (curr_lvl S) else Link (j + 1))"
  let ?T = "detached j ?n S" let ?S' = "freed ip x j ?n ?T"
  have ip: "ip = Head (curr_lvl S) \<or> ip = Link (j + 1)" by (simp add: ip_def)
  have at: "at_dloc ip S = j" "at_dloc ip ?T = j"
    using c(2) j dec [of "j + 1"] by (auto simp: ip_def at_dloc_def declared_def)
  have walk: "release_loop ?F 1 (Head (curr_lvl S)) (?p, S) = release_loop (?F - (?n - j)) 1 ip (?p, S)"
    unfolding ip_def by (rule release_walk) (use dec cmp j n(1) c(2) in \<open>auto simp: at_dloc_def declared_def\<close>)
  obtain k where kF: "?F - (?n - j) = Suc k" "j \<le> k"
  proof
    show "?F - (?n - j) = Suc (?F - (?n - j) - 1)" "j \<le> ?F - (?n - j) - 1" using n(1) j(2) by linarith+
  qed
  have "declared ?T ?n" using c(2) by (simp add: declared_def)
  moreover have "x < length (val_buf ?T)" "dvalue (dec_table ?T j) = Some x" using x c(3,4) by (simp_all add: valued_def)
  ultimately have "release_decs (Suc DCLNTABSZ) ip j (?p, ?T) = (Inr (), (?p, ?S'))"
    using release_decs_app [of ?T ?n j x ip "curr_lvl S" DCLNTABSZ ?p] n(1) j(1,2) ip at(2) by blast
  then have rel: "release_loop (Suc k) 1 ip (?p, S) = release_loop k 1 ip (?p, ?S')"
    by (intro release_entry [OF at(1) _ _ _ n(2)]) (use j dec [OF j(1,2)] cmp [OF j(1,2)] in simp_all)
  have fr: "var_table ?S' = var_table ?T" "at_dloc ip ?S' = j - 1" using freed_simps(1,9) [OF j(1) ip] dec [OF j(1,2)] by simp_all
  have low: "link (dec_table ?S' e) = e - 1 \<and> var_entry (dec_table ?S' e) = e \<and> namecmp (var_name (var_table ?S' e)) p (length p) ID_VNAME \<noteq> 0"
    if "0 < e" "e \<le> j - 1" for e
  proof -
    have b: "1 \<le> e" "e \<le> ?n" "e < j" using that j(1,2) by linarith+
    have "var_name (var_table ?T e) = var_name (var_table S e)" using b by (simp add: detached_def Let_def)
    then show ?thesis using freed_simps(7,8) [OF j(1) ip b(3)] b(3) fr(1) dec [OF b(1,2)] cmp [OF b(1,2)] b(1) by simp
  qed
  have "release_loop k 1 ip (?p, ?S') = release_loop (k - (j - 1 - 0)) 1 (if j - 1 = 0 then ip else Link (0 + 1)) (?p, ?S')"
    by (rule release_walk) (use low fr(2) kF(2) j(1) in auto)
  also have "k - (j - 1 - 0) = Suc (k - j)" using kF(2) j(1) by linarith
  also have "at_dloc (if j - 1 = 0 then ip else Link (0 + 1)) ?S' = 0"
    using fr(2) low [of 1] by (auto simp: at_dloc_def)
  then have "release_loop (Suc (k - j)) 1 (if j - 1 = 0 then ip else Link (0 + 1)) (?p, ?S') = (Inr (), (?p, ?S'))"
    by (simp only: release_loop.simps vars_of_app Let_def) (simp add: ret_app)
  finally have "release_loop k 1 ip (?p, ?S') = (Inr (), (?p, ?S'))" .
  then have "release_loop ?F 1 (Head (curr_lvl S)) (?p, S) = (Inr (), (?p, ?S'))" using walk rel kF(1) by simp
  then have "release 1 (?p, S) = (Inr (), (s, ?S'))"
    by (simp add: release_def bnd_app [of "release_loop _ _ _"] mode_has_def vclr_stack_def is_pattern_match_def ret_app del: release_loop.simps)
  then show ?thesis using ip x by blast
qed

text \<open>A released entry stays in its chain, as an empty one: a search stops there.\<close>

lemma hlink_released:
  assumes c: "chained S K" and q: "name_ok q" and j: "1 \<le> j" "j \<le> length K"
    and T: "hash_table T = hash_table S" "var_table T = var_table (detached j (length K) S)"
    and "i \<le> length K" and "i \<noteq> j" and "i = 0 \<or> hash_code (K ! (i - 1)) = hash_code q" and "length K - i < k"
  shows "hlink k False (loc_of (hash_code q) i) (VChar q # s, T)
    = (Inr (case filter (\<lambda>e. hash_code (K ! (e - 1)) = hash_code q \<and> (e = j \<or> K ! (e - 1) = key q)) [i + 1 ..< length K + 1] of
        [] \<Rightarrow> 0 | e # _ \<Rightarrow> if e = j then 0 else e), (VChar q # s, T))"
  using assms(7-)
proof (induction k arbitrary: i)
  case (Suc k)
  let ?h = "hash_code q" and ?n = "length K" let ?e = "nxt K ?h i"
  let ?P = "\<lambda>e. hash_code (K ! (e - 1)) = ?h \<and> (e = j \<or> K ! (e - 1) = key q)"
  have tab: "var_table T e = var_table S e" if "e \<noteq> 0" "e \<noteq> j" for e using T(2) that by (simp add: detached_def Let_def)
  have freed: "dec_entry (var_table T j) = 0" "dec_entry (var_table T 0) = 0"
    using T(2) c j by (simp_all add: detached_def Let_def chained_def)
  have at: "at_loc (loc_of ?h i) T = ?e"
    using at_loc_of [OF c Suc.prems(1,3)] T(1) tab [of i] Suc.prems(2) by (auto simp: loc_of_def at_loc_def)
  show ?case
  proof (cases rule: nxt_cases [of K ?h i])
    case 1
    then have "filter ?P [i + 1 ..< ?n + 1] = []" by (auto simp: filter_empty_conv)
    then show ?thesis using at 1(1) freed(2) by (simp add: Let_def ret_app)
  next
    case 2
    have gap: "filter ?P [i + 1 ..< ?e] = []"
    proof -
      have "hash_code (K ! (x - 1)) \<noteq> ?h" if "i < x" "x < ?e" for x using nxt_first [of i x K ?h] that 2(2) by auto
      then show ?thesis by (auto simp: filter_empty_conv)
    qed
    have "[i + 1 ..< ?n + 1] = [i + 1 ..< ?e] @ ?e # [?e + 1 ..< ?n + 1]"
      using 2(1,2) by (metis Suc_eq_plus1 Suc_leI le_imp_less_Suc less_imp_le_nat upt_add_eq_append upt_conv_Cons le_add_diff_inverse)
    then have f: "filter ?P [i + 1 ..< ?n + 1] = (if ?P ?e then ?e # filter ?P [?e + 1 ..< ?n + 1] else filter ?P [?e + 1 ..< ?n + 1])"
      using gap by simp
    show ?thesis
    proof (cases "?e = j")
      case True
      then show ?thesis unfolding f using at freed(1) 2(3) by (simp add: Let_def ret_app)
    next
      case False
      have d: "dec_entry (var_table T ?e) = ?e" "var_name (var_table T ?e) = K ! (?e - 1)"
        using c 2(1,2) tab [of ?e] False by (simp_all add: chained_def Let_def)
      have "namecmp (K ! (?e - 1)) q (length q) ID_VNAME = 0 \<longleftrightarrow> K ! (?e - 1) = key q"
        using entry_match [OF c _ 2(2) q] 2(1) d(2) tab [of ?e] False by simp
      moreover have "hlink k False (Next ?e) (VChar q # s, T)
        = (Inr (case filter ?P [?e + 1 ..< ?n + 1] of [] \<Rightarrow> 0 | e # _ \<Rightarrow> if e = j then 0 else e), (VChar q # s, T))"
        using Suc.IH [of ?e] 2 False Suc.prems(4) by (simp add: loc_of_def)
      ultimately show ?thesis unfolding f using at d 2(1,3) False by (simp add: Let_def ret_app)
    qed
  qed
qed simp

text \<open>RELEASE of one variable deletes it, but also makes each variable unknown whose name has the same hash code and was first
  stored later: the entry of the released one ends their chain. All others keep their values.\<close>

theorem release_cuts_chain:
  assumes k: "keeps_vars S K V" and p: "name_ok p" "1 \<le> j" "j \<le> length K" "K ! (j - 1) = key p"
    and q: "name_ok q" "1 \<le> i" "i \<le> length K" "K ! (i - 1) = key q"
    and fits: "stk_bytes s + val_size (V ! (i - 1)) \<le> STACKSZ - 1"
  shows "\<exists>S'. release 1 (VChar p # s, S) = (Inr (), (s, S')) \<and> v_retrv (VChar q # s, S')
    = (if i = j \<or> hash_code q = hash_code p \<and> j < i then (Inl (Syn UNDEF_VAR), (VChar q # s, S')) else (Inr (), (V ! (i - 1) # s, S')))"
proof -
  let ?n = "length K" let ?T = "detached j ?n S" let ?lost = "i = j \<or> hash_code q = hash_code p \<and> j < i"
  obtain ip x l where r: "release 1 (VChar p # s, S) = (Inr (), (s, freed ip x j ?n ?T))" "ip = Head l \<or> ip = Link (j + 1)"
    "dvalue (dec_table S j) = Some x" "x < ?n"
    using release_run [OF k p] by blast
  let ?S' = "freed ip x j ?n ?T"
  have c: "chained S K" "declared S ?n" "valued S V" "array_de S = 0" "length V = ?n" "distinct K"
    using k by (simp_all add: keeps_vars_def chained_def Let_def)
  note fr = freed_simps [OF p(2) r(2)]
  have hp: "hash_code (K ! (j - 1)) = hash_code p" "hash_code (K ! (i - 1)) = hash_code q"
    using hash_key p(1,4) q(1,4) by (simp_all add: name_ok_def)
  let ?P = "\<lambda>e. hash_code (K ! (e - 1)) = hash_code q \<and> (e = j \<or> K ! (e - 1) = key q)"
  have eq: "K ! (e - 1) = key q \<longleftrightarrow> e = i" if "1 \<le> e" "e \<le> ?n" for e
    using nth_eq_iff_index_eq [OF c(6), of "e - 1" "i - 1"] that q by auto
  define t where "t = (if ?lost then j else i)"
  have t: "0 + 1 \<le> t" "t < ?n + 1" "?P t" using hp p(2,3) q(2-4) by (auto simp: t_def)
  obtain e xs where e: "filter ?P [0 + 1 ..< ?n + 1] = e # xs" "1 \<le> e" "e \<le> (if ?lost then j else i)" "?P e"
    using filter_upt_first [OF t(1,2), of ?P, OF t(3)] unfolding t_def by (elim exE conjE) (rule that, simp_all)
  have "e \<le> ?n" using e(3) p(3) q(3) by (auto split: if_splits)
  then have "e = j \<or> e = i" using e(2,4) eq by blast
  then have ej: "e = j \<longleftrightarrow> ?lost" using e(3,4) hp by (auto split: if_splits)
  have hl: "hlink (VARTABSZ + 1) False (loc_of (hash_code q) 0) (VChar q # s, ?S')
      = (Inr (case filter ?P [0 + 1 ..< ?n + 1] of [] \<Rightarrow> 0 | e # _ \<Rightarrow> if e = j then 0 else e), (VChar q # s, ?S'))"
    by (rule hlink_released [OF c(1) q(1) p(2,3)]) (use fr(1,2) c(1) p(2) in \<open>auto simp: chained_def Let_def\<close>)
  have srch: "varsrin False (VChar q # s, ?S') = (Inr (if ?lost then 0 else i), (VChar q # s, ?S'))"
  proof -
    have "(case filter ?P [0 + 1 ..< ?n + 1] of [] \<Rightarrow> 0 | e # _ \<Rightarrow> if e = j then 0 else e) = (if ?lost then 0 else i)"
      unfolding e(1) list.case using ej \<open>e = j \<or> e = i\<close> by auto
    moreover have "varsrin False (VChar q # s, ?S') = hlink (VARTABSZ + 1) False (loc_of (hash_code q) 0) (VChar q # s, ?S')"
      by (simp only: varsrin_def hash_app [OF q(1)]) (simp only: loc_of_def if_True simp_thms)
    ultimately show ?thesis using hl by simp
  qed
  have "v_retrv (VChar q # s, ?S') = (if ?lost then (Inl (Syn UNDEF_VAR), (VChar q # s, ?S')) else (Inr (), (V ! (i - 1) # s, ?S')))"
  proof (cases ?lost)
    case True
    have "varsrin False (VChar q # s, ?S') = (Inr 0, (VChar q # s, ?S'))" using srch by (simp only: True if_True)
    then show ?thesis using read_unknown [of q s ?S'] fr(3) c(4) by (simp only: True if_True detached_simps)
  next
    case False
    then have ij: "i \<noteq> j" by simp
    have s1: "varsrin False (VChar q # s, ?S') = (Inr i, (VChar q # s, ?S'))" using srch by (simp only: False if_False)
    obtain y where y: "y < ?n" "dvalue (dec_table S i) = Some y" "val_buf S ! y = V ! (i - 1)"
      using valuedD [OF c(3) q(2)] q(3) c(5) by auto
    have "y \<noteq> x" using c(3,5) ij p(2,3) q(2,3) y(2) r(3) by (auto simp: valued_def inj_on_def)
    let ?y = "if x < y then y - 1 else y"
    have len: "length (val_buf S) = ?n" "scalar (V ! (i - 1))" using c(3,5) q(2,3) by (auto simp: valued_def)
    have b: "val_buf ?S' ! ?y = V ! (i - 1)" "?y < length (val_buf ?S')"
      using nth_without [of x "val_buf S" y] len(1) r(4) y \<open>y \<noteq> x\<close> by (auto simp: fr(5))
    have ent: "dec_entry (var_table ?S' i) = i" using c(1) q(2,3) ij fr(1) by (simp add: detached_def Let_def chained_def)
    have dec: "dlevel (dec_table ?S' i) = 0" "dvalue (dec_table ?S' i) = Some ?y"
      using fr(6) [OF q(2,3) ij] c(2) q(2,3) y(2) by (simp_all add: declared_def moved_down_def)
    have "v_retrv (VChar q # s, ?S') = (Inr (), (val_buf ?S' ! ?y # s, ?S'))"
      by (rule read_found [OF s1]) (use q(2) fr(3) c(4) ent dec b len(2) fits in simp_all)
    then show ?thesis unfolding b(1) by (simp only: False if_False)
  qed
  then show ?thesis using r(1) by blast
qed

lemma same_chain: "hash_code ''AAY'' = hash_code ''AB9''"
  by code_simp

end
